(* ===== verification/Prelude.thy ===== *)
theory Prelude
  imports Main "HOL-Library.Word"
begin

text \<open>
  Shared vocabulary of the development: the machine integers and byte strings of the C++ code,
  the outcomes of operations that can throw, and the little state monad \<open>act\<close> in which code that
  talks to a socket is written. An action takes the state of the outside world and returns
  \<^item> \<open>None\<close>: it never returns (a loop that does not end),
  \<^item> \<open>Some (Inl e, s')\<close>: it throws the exception \<open>e\<close>,
  \<^item> \<open>Some (Inr v, s')\<close>: it returns \<open>v\<close>.
  The collections \<open>act_simps\<close> and \<open>wire_simps\<close> gather the rewrite rules that the component
  theories use.
\<close>

section \<open>Machine integers and bytes\<close>

type_synonym byte = "8 word"
type_synonym u16 = "16 word"
type_synonym u32 = "32 word"
type_synonym u64 = "64 word"
type_synonym bytes = "byte list"

named_theorems act_simps
named_theorems wire_simps

text \<open>
  \<open>size_t\<close> values are \<open>nat\<close>s below \<open>2 ^ 64\<close>; where the code subtracts or adds them the
  wrap-around is written out.
\<close>

definition size_sub :: "nat \<Rightarrow> nat \<Rightarrow> nat" where
  "size_sub a b = (a + 2 ^ 64 - b) mod 2 ^ 64"

definition size_add :: "nat \<Rightarrow> nat \<Rightarrow> nat" where
  "size_add a b = (a + b) mod 2 ^ 64"

lemma mod_add_sub_eq:
  fixes a b M :: nat
  assumes "b \<le> a" and "a < M"
  shows "(a + M - b) mod M = a - b"
proof -
  have "a + M - b = (a - b) + M" using assms by linarith
  moreover have "a - b < M" using assms by linarith
  ultimately show ?thesis by (simp only: mod_add_self2 mod_less)
qed

lemma size_sub_eq: "b \<le> a \<Longrightarrow> a < 2 ^ 64 \<Longrightarrow> size_sub a b = a - b"
  unfolding size_sub_def by (rule mod_add_sub_eq)

lemma size_add_eq: "a + b < 2 ^ 64 \<Longrightarrow> size_add a b = a + b"
  unfolding size_add_def by (rule mod_less)

lemma unat_eq_iff: "unat a = unat b \<longleftrightarrow> a = b"
  by (metis unsigned_word_eqI)

lemma unat_inc:
  fixes x y :: "'a::len word"
  assumes "x < y"
  shows "unat (x + 1) = Suc (unat x)"
proof -
  have "unat x < unat y" and "unat y < 2 ^ LENGTH('a)"
    using assms by (simp_all add: word_less_nat_alt)
  then have "Suc (unat x) < 2 ^ LENGTH('a)" by linarith
  then show ?thesis by (simp add: unat_word_ariths)
qed

lemma inc_le_of_less:
  fixes x y :: "'a::len word"
  shows "x < y \<Longrightarrow> x + 1 \<le> y"
  by (simp add: word_le_nat_alt unat_inc Suc_leI word_less_nat_alt)

section \<open>Actions: state, exceptions, non-termination\<close>

type_synonym ('s, 'e, 'a) act = "'s \<Rightarrow> (('e + 'a) \<times> 's) option"

definition ret :: "'a \<Rightarrow> ('s, 'e, 'a) act" where
  "ret x = (\<lambda>s. Some (Inr x, s))"

definition throw :: "'e \<Rightarrow> ('s, 'e, 'a) act" where
  "throw e = (\<lambda>s. Some (Inl e, s))"

definition andThen :: "('s, 'e, 'a) act \<Rightarrow> ('a \<Rightarrow> ('s, 'e, 'b) act) \<Rightarrow> ('s, 'e, 'b) act" where
  "andThen m f = (\<lambda>s. case m s of
       None \<Rightarrow> None
     | Some (r, s') \<Rightarrow> (case r of Inl e \<Rightarrow> Some (Inl e, s') | Inr x \<Rightarrow> f x s'))"

lemma andThen_ret [act_simps]: "andThen (ret x) f = f x"
  by (simp add: andThen_def ret_def)

lemma andThen_throw [act_simps]: "andThen (throw e) f = throw e"
  by (simp add: andThen_def throw_def)

lemma andThen_Inr: "m s = Some (Inr x, s') \<Longrightarrow> andThen m f s = f x s'"
  by (simp add: andThen_def)

lemma andThen_Inl: "m s = Some (Inl e, s') \<Longrightarrow> andThen m f s = Some (Inl e, s')"
  by (simp add: andThen_def)

lemma andThen_assoc: "andThen (andThen m f) g = andThen m (\<lambda>x. andThen (f x) g)"
  by (rule ext) (auto simp: andThen_def split: option.splits sum.splits)

text \<open>A counted loop whose body is an action, collecting the results of its rounds.\<close>

fun repeatA :: "nat \<Rightarrow> ('s, 'e, 'a) act \<Rightarrow> ('s, 'e, 'a list) act" where
  "repeatA 0 m = ret []"
| "repeatA (Suc n) m = andThen m (\<lambda>x. andThen (repeatA n m) (\<lambda>xs. ret (x # xs)))"

section \<open>Lists and maps\<close>

lemma take_append_exact [simp]: "length xs = n \<Longrightarrow> take n (xs @ ys) = xs"
  by simp

lemma drop_append_exact [simp]: "length xs = n \<Longrightarrow> drop n (xs @ ys) = ys"
  by simp

text \<open>Taking \<open>k\<close> elements in two rounds: what is left of \<open>k\<close> after \<open>xs\<close> is taken from \<open>ys\<close>.\<close>

lemma take_resume: "take k xs @ take (k - length xs) (drop k xs @ ys) = take k (xs @ ys)"
  by (cases "k \<le> length xs") auto

lemma drop_resume: "drop (k - length xs) (drop k xs @ ys) = drop k (xs @ ys)"
  by (cases "k \<le> length xs") auto

lemma distinct_concat_map:
  assumes "distinct xs"
    and "\<And>x. x \<in> set xs \<Longrightarrow> distinct (f x)"
    and "\<And>x y. x \<in> set xs \<Longrightarrow> y \<in> set xs \<Longrightarrow> x \<noteq> y \<Longrightarrow> set (f x) \<inter> set (f y) = {}"
  shows "distinct (concat (map f xs))"
  using assms by (induction xs) auto

lemma concat_map_cong_upd:
  "x \<notin> set xs \<Longrightarrow> concat (map (\<lambda>y. f y ((m(x \<mapsto> v)) y)) xs) = concat (map (\<lambda>y. f y (m y)) xs)"
  by (induction xs) auto

end
