(* ===== verification/Wire.thy ===== *)
theory Wire
  imports Prelude
begin

unbundle bit_operations_syntax

text \<open>
  The bytes that cross the three TCP connections of the system: the packet and request
  identifiers of \<open>include/protocol/packet.hpp\<close> and \<open>include/protocol/cli.hpp\<close>, and the
  representation of a C++ integer in memory. The program moves integers in and out of packets
  with \<open>memcpy\<close>, so the order of the bytes is that of the host; the model takes the little-endian
  order of the machines the program is built for. No theorem depends on more than that both sides
  use the same order.
\<close>

section \<open>Packet identifiers\<close>

datatype ServerPacketID = SrvKeepalive | SrvIssueJob

datatype ClientPacketID = CliConnect | CliKeepalive | CliUpdateJob | CliFinishJob

datatype CLIRequestID = ReqUpload | ReqStatus

text \<open>The underlying \<open>uint8_t\<close> of an identifier, as \<open>static_cast\<close> gives it.\<close>

fun ServerPacketID_byte :: "ServerPacketID \<Rightarrow> byte" where
  "ServerPacketID_byte SrvKeepalive = 1"
| "ServerPacketID_byte SrvIssueJob = 2"

fun ClientPacketID_byte :: "ClientPacketID \<Rightarrow> byte" where
  "ClientPacketID_byte CliConnect = 0"
| "ClientPacketID_byte CliKeepalive = 1"
| "ClientPacketID_byte CliUpdateJob = 2"
| "ClientPacketID_byte CliFinishJob = 3"

fun CLIRequestID_byte :: "CLIRequestID \<Rightarrow> byte" where
  "CLIRequestID_byte ReqUpload = 0"
| "CLIRequestID_byte ReqStatus = 1"

text \<open>
  A received identifier is any byte: the \<open>switch\<close> statements that consume one have no
  \<open>default\<close>, so a byte that names no enumerator selects no branch (\<open>None\<close> here).
\<close>

definition ServerPacketID_of :: "byte \<Rightarrow> ServerPacketID option" where
  "ServerPacketID_of b =
     (if b = 1 then Some SrvKeepalive else if b = 2 then Some SrvIssueJob else None)"

definition ClientPacketID_of :: "byte \<Rightarrow> ClientPacketID option" where
  "ClientPacketID_of b =
     (if b = 0 then Some CliConnect
      else if b = 1 then Some CliKeepalive
      else if b = 2 then Some CliUpdateJob
      else if b = 3 then Some CliFinishJob
      else None)"

definition CLIRequestID_of :: "byte \<Rightarrow> CLIRequestID option" where
  "CLIRequestID_of b =
     (if b = 0 then Some ReqUpload else if b = 1 then Some ReqStatus else None)"

lemma ServerPacketID_of_byte [simp]: "ServerPacketID_of (ServerPacketID_byte i) = Some i"
  by (cases i) (simp_all add: ServerPacketID_of_def)

lemma ClientPacketID_of_byte [simp]: "ClientPacketID_of (ClientPacketID_byte i) = Some i"
  by (cases i) (simp_all add: ClientPacketID_of_def)

lemma CLIRequestID_of_byte [simp]: "CLIRequestID_of (CLIRequestID_byte i) = Some i"
  by (cases i) (simp_all add: CLIRequestID_of_def)

section \<open>Integers in memory\<close>

fun le_bytes :: "nat \<Rightarrow> 'a::len word \<Rightarrow> bytes" where
  "le_bytes 0 w = []"
| "le_bytes (Suc n) w = ucast w # le_bytes n (drop_bit 8 w)"

fun le_word :: "bytes \<Rightarrow> 'a::len word" where
  "le_word [] = 0"
| "le_word (b # bs) = ucast b OR push_bit 8 (le_word bs)"

lemma length_le_bytes [simp]: "length (le_bytes n w) = n"
  by (induction n arbitrary: w) auto

lemma le_word_le_bytes_take: "le_word (le_bytes n w) = take_bit (8 * n) w"
proof (induction n arbitrary: w)
  case 0
  then show ?case by simp
next
  case (Suc n)
  show ?case
    by (rule bit_word_eqI)
      (auto simp: Suc bit_ucast_iff bit_or_iff bit_push_bit_iff bit_take_bit_iff bit_drop_bit_eq
        dest: bit_imp_le_length)
qed

lemma le_word_le_bytes:
  fixes w :: "'a::len word"
  shows "LENGTH('a) \<le> 8 * n \<Longrightarrow> le_word (le_bytes n w) = w"
  by (simp add: le_word_le_bytes_take take_bit_word_eq_self)

abbreviation u32_bytes :: "u32 \<Rightarrow> bytes" where
  "u32_bytes \<equiv> le_bytes 4"

abbreviation u64_bytes :: "u64 \<Rightarrow> bytes" where
  "u64_bytes \<equiv> le_bytes 8"

lemma le_word_u32_bytes [simp, wire_simps]: "le_word (u32_bytes w) = w"
  by (rule le_word_le_bytes) simp

lemma le_word_u64_bytes [simp, wire_simps]: "le_word (u64_bytes w) = w"
  by (rule le_word_le_bytes) simp

text \<open>An array of \<open>uint32_t\<close>, as one block of memory.\<close>

definition u32s_bytes :: "u32 list \<Rightarrow> bytes" where
  "u32s_bytes ws = concat (map u32_bytes ws)"

fun u32s_of_bytes :: "bytes \<Rightarrow> u32 list" where
  "u32s_of_bytes (a # b # c # d # bs) = le_word [a, b, c, d] # u32s_of_bytes bs"
| "u32s_of_bytes bs = []"

lemma u32s_bytes_Nil [simp]: "u32s_bytes [] = []"
  by (simp add: u32s_bytes_def)

lemma u32s_bytes_Cons [simp]: "u32s_bytes (w # ws) = u32_bytes w @ u32s_bytes ws"
  by (simp add: u32s_bytes_def)

lemma u32s_bytes_append [simp]: "u32s_bytes (vs @ ws) = u32s_bytes vs @ u32s_bytes ws"
  by (simp add: u32s_bytes_def)

lemma length_u32s_bytes [simp]: "length (u32s_bytes ws) = 4 * length ws"
  by (induction ws) auto

lemma u32_bytes_expand:
  "u32_bytes w = [ucast w, ucast (drop_bit 8 w), ucast (drop_bit 16 w), ucast (drop_bit 24 w)]"
  by (simp add: numeral_eq_Suc)

lemma u32s_of_u32s_bytes [simp, wire_simps]: "u32s_of_bytes (u32s_bytes ws) = ws"
proof (induction ws)
  case Nil
  then show ?case by simp
next
  case (Cons w ws)
  have "le_word (u32_bytes w) = w" by simp
  with Cons show ?case by (simp add: u32_bytes_expand del: le_word_u32_bytes)
qed

section \<open>Packets built with \<open>memcpy\<close>\<close>

text \<open>
  Packets are assembled in a freshly allocated array, whose contents are indeterminate (\<open>junk\<close>
  gives them), by copying fields to computed offsets. \<open>None\<close>: a copy runs past the end of the array.
\<close>

definition new_array :: "(nat \<Rightarrow> byte) \<Rightarrow> nat \<Rightarrow> bytes" where
  "new_array junk n = map junk [0 ..< n]"

definition memcpy :: "nat \<Rightarrow> bytes \<Rightarrow> bytes \<Rightarrow> bytes option" where
  "memcpy off src buf =
     (if off + length src \<le> length buf
      then Some (take off buf @ src @ drop (off + length src) buf) else None)"

text \<open>Several copies, one after the other.\<close>

fun memcpys :: "(nat \<times> bytes) list \<Rightarrow> bytes \<Rightarrow> bytes option" where
  "memcpys [] buf = Some buf"
| "memcpys ((off, src) # cs) buf =
     (case memcpy off src buf of None \<Rightarrow> None | Some buf' \<Rightarrow> memcpys cs buf')"

text \<open>
  Copies that follow one another without a gap, from offset \<open>off\<close> to the end of the array, leave
  nothing of what the array held from \<open>off\<close> on.
\<close>

fun contiguous :: "nat \<Rightarrow> (nat \<times> bytes) list \<Rightarrow> bool" where
  "contiguous off [] = True"
| "contiguous off ((o', src) # cs) = (o' = off \<and> contiguous (off + length src) cs)"

lemma length_new_array [simp]: "length (new_array junk n) = n"
  by (simp add: new_array_def)

lemma memcpys_contiguous:
  assumes "contiguous off cs"
    and "length buf = off + length (concat (map snd cs))"
  shows "memcpys cs buf = Some (take off buf @ concat (map snd cs))"
  using assms
proof (induction cs arbitrary: off buf)
  case Nil
  then show ?case by simp
next
  case (Cons c cs)
  obtain src where c: "c = (off, src)" using Cons.prems(1) by (cases c) auto
  let ?buf = "take off buf @ src @ drop (off + length src) buf"
  have m: "memcpy off src buf = Some ?buf"
    using Cons.prems(2) c by (simp add: memcpy_def)
  have "memcpys cs ?buf = Some (take (off + length src) ?buf @ concat (map snd cs))"
    using Cons.prems c by (intro Cons.IH) auto
  moreover have "take (off + length src) ?buf = take off buf @ src"
    using Cons.prems(2) c by simp
  ultimately show ?case by (simp add: c m)
qed

lemma memcpys_append:
  "memcpys (cs @ ds) buf = (case memcpys cs buf of None \<Rightarrow> None | Some buf' \<Rightarrow> memcpys ds buf')"
  by (induction cs buf rule: memcpys.induct) (auto split: option.splits)

end
