(* ===== verification/Net_Socket.thy ===== *)
theory Net_Socket
  imports Wire
begin

text \<open>
  TCP sockets (\<open>include/net\<close>, \<open>src/net\<close>). The operating system is a parameter: a record \<open>posix\<close> of
  the calls the two classes make, each from a state of the outside world to a result and a new
  state. What the code relies on is stated in the locales: \<open>fd_table\<close> (descriptors are handed out
  fresh, and stay open until they are closed) and \<open>tcp_stream\<close> (\<open>send\<close> and \<open>recv\<close> move between one
  byte and the number of bytes asked for, in order; \<open>recv\<close> returns 0 at the end of the stream).
\<close>

section \<open>Errors and the calls of the operating system\<close>

text \<open>
  \<open>SocketException\<close> with the place that throws it; \<open>NullSocket\<close> is the undefined behaviour of using
  a socket whose platform data was moved away.
\<close>

datatype net_error =
    ResolveFailed int
  | ConnectFailed
  | BindFailed
  | AcceptFailed
  | SendFailed
  | RecvFailed
  | SendIncomplete nat
  | RecvIncomplete nat
  | NullSocket

record ('ad, 's) posix =
  px_getaddrinfo :: "string \<Rightarrow> int \<Rightarrow> 's \<Rightarrow> (int \<times> 'ad list) \<times> 's"
  px_freeaddrinfo :: "'ad list \<Rightarrow> 's \<Rightarrow> 's"
  px_socket :: "'ad \<Rightarrow> 's \<Rightarrow> int \<times> 's"
  px_connect :: "int \<Rightarrow> 'ad \<Rightarrow> 's \<Rightarrow> int \<times> 's"
  px_bind :: "int \<Rightarrow> 'ad \<Rightarrow> 's \<Rightarrow> int \<times> 's"
  px_listen :: "int \<Rightarrow> 's \<Rightarrow> int \<times> 's"
  px_accept :: "int \<Rightarrow> 's \<Rightarrow> int \<times> 's"
  px_shutdown :: "int \<Rightarrow> 's \<Rightarrow> 's"
  px_close :: "int \<Rightarrow> 's \<Rightarrow> 's"
  px_send :: "int \<Rightarrow> bytes \<Rightarrow> 's \<Rightarrow> int \<times> 's"
  px_recv :: "int \<Rightarrow> nat \<Rightarrow> 's \<Rightarrow> (int \<times> bytes) \<times> 's"

section \<open>Socket objects\<close>

text \<open>
  \<open>platform_data\<close> is a pointer to a structure with one \<open>int\<close>: \<open>None\<close> is the null pointer, \<open>Some fd\<close>
  a structure that holds \<open>fd\<close>, which is \<open>-1\<close> when the socket is closed. The server socket class has
  the same representation.
\<close>

type_synonym socket = "int option"

definition Socket_new :: socket where
  "Socket_new = Some (-1)"

definition Socket_of_fd :: "int \<Rightarrow> socket" where
  "Socket_of_fd fd = Some fd"

text \<open>The move constructor and move assignment: the pair of the target and what is left of the source.\<close>

definition Socket_move :: "socket \<Rightarrow> socket \<times> socket" where
  "Socket_move other = (other, None)"

definition Socket_assign :: "socket \<Rightarrow> socket \<Rightarrow> socket \<times> socket" where
  "Socket_assign self other = (other, self)"

definition Socket_close :: "('ad, 's) posix \<Rightarrow> socket \<Rightarrow> 's \<Rightarrow> socket \<times> 's" where
  "Socket_close px self s =
     (case self of
        None \<Rightarrow> (self, s)
      | Some fd \<Rightarrow>
          if fd \<noteq> -1 then (Some (-1), px_close px fd (px_shutdown px fd s)) else (self, s))"

text \<open>The destructor closes the socket and frees its structure.\<close>

definition Socket_destroy :: "('ad, 's) posix \<Rightarrow> socket \<Rightarrow> 's \<Rightarrow> 's" where
  "Socket_destroy px self s = snd (Socket_close px self s)"

subsection \<open>Connecting\<close>

text \<open>
  The loop over the resolved addresses. The list of addresses is freed once, on either way out.
\<close>

fun connect_loop ::
  "('ad, 's) posix \<Rightarrow> 'ad list \<Rightarrow> 'ad list \<Rightarrow> 's \<Rightarrow> (net_error + int) \<times> 's" where
  "connect_loop px addresses [] s = (Inl ConnectFailed, px_freeaddrinfo px addresses s)"
| "connect_loop px addresses (addr # rest) s =
     (case px_socket px addr s of (sock, s1) \<Rightarrow>
        if sock = -1 then connect_loop px addresses rest s1
        else (case px_connect px sock addr s1 of (r, s2) \<Rightarrow>
                if r \<noteq> 0 then connect_loop px addresses rest (px_close px sock s2)
                else (Inr sock, px_freeaddrinfo px addresses s2)))"

definition Socket_connect ::
  "('ad, 's) posix \<Rightarrow> socket \<Rightarrow> string \<Rightarrow> int \<Rightarrow> 's \<Rightarrow> (net_error + socket) \<times> 's" where
  "Socket_connect px self host port s =
     (case px_getaddrinfo px host port s of ((status, addresses), s1) \<Rightarrow>
        if status \<noteq> 0 then (Inl (ResolveFailed status), s1)
        else (case connect_loop px addresses addresses s1 of
                (Inl e, s2) \<Rightarrow> (Inl e, s2)
              | (Inr sock, s2) \<Rightarrow>
                  (case self of None \<Rightarrow> (Inl NullSocket, s2) | Some _ \<Rightarrow> (Inr (Some sock), s2))))"

subsection \<open>Server sockets\<close>

fun bind_loop ::
  "('ad, 's) posix \<Rightarrow> 'ad list \<Rightarrow> 'ad list \<Rightarrow> 's \<Rightarrow> (net_error + int) \<times> 's" where
  "bind_loop px addresses [] s = (Inl BindFailed, px_freeaddrinfo px addresses s)"
| "bind_loop px addresses (addr # rest) s =
     (case px_socket px addr s of (sock, s1) \<Rightarrow>
        if sock = -1 then bind_loop px addresses rest s1
        else (case px_bind px sock addr s1 of (r, s2) \<Rightarrow>
                if r \<noteq> 0 then bind_loop px addresses rest (px_close px sock s2)
                else (case px_listen px sock s2 of (r', s3) \<Rightarrow>
                        if r' \<noteq> 0 then bind_loop px addresses rest (px_close px sock s3)
                        else (Inr sock, px_freeaddrinfo px addresses s3))))"

definition ServerSocket_bind ::
  "('ad, 's) posix \<Rightarrow> socket \<Rightarrow> string \<Rightarrow> int \<Rightarrow> 's \<Rightarrow> (net_error + socket) \<times> 's" where
  "ServerSocket_bind px self addr port s =
     (case px_getaddrinfo px addr port s of ((status, addresses), s1) \<Rightarrow>
        if status \<noteq> 0 then (Inl (ResolveFailed status), s1)
        else (case bind_loop px addresses addresses s1 of
                (Inl e, s2) \<Rightarrow> (Inl e, s2)
              | (Inr sock, s2) \<Rightarrow>
                  (case self of None \<Rightarrow> (Inl NullSocket, s2) | Some _ \<Rightarrow> (Inr (Some sock), s2))))"

text \<open>A server socket is closed without a \<open>shutdown\<close>.\<close>

definition ServerSocket_close :: "('ad, 's) posix \<Rightarrow> socket \<Rightarrow> 's \<Rightarrow> socket \<times> 's" where
  "ServerSocket_close px self s =
     (case self of
        None \<Rightarrow> (self, s)
      | Some fd \<Rightarrow> if fd \<noteq> -1 then (Some (-1), px_close px fd s) else (self, s))"

definition ServerSocket_accept ::
  "('ad, 's) posix \<Rightarrow> socket \<Rightarrow> 's \<Rightarrow> (net_error + socket) \<times> 's" where
  "ServerSocket_accept px self s =
     (case self of
        None \<Rightarrow> (Inl NullSocket, s)
      | Some fd \<Rightarrow>
          (case px_accept px fd s of (result, s') \<Rightarrow>
             if result = -1 then (Inl AcceptFailed, s') else (Inr (Socket_of_fd result), s')))"

subsection \<open>Sending and receiving\<close>

definition Socket_send ::
  "('ad, 's) posix \<Rightarrow> socket \<Rightarrow> bytes \<Rightarrow> 's \<Rightarrow> (net_error + nat) \<times> 's" where
  "Socket_send px self data s =
     (case self of
        None \<Rightarrow> (Inl NullSocket, s)
      | Some fd \<Rightarrow>
          (case px_send px fd data s of (retval, s') \<Rightarrow>
             if retval = -1 then (Inl SendFailed, s')
             else (Inr (nat (retval mod 2 ^ 64)), s')))"

definition Socket_recv ::
  "('ad, 's) posix \<Rightarrow> socket \<Rightarrow> nat \<Rightarrow> 's \<Rightarrow> (net_error + nat \<times> bytes) \<times> 's" where
  "Socket_recv px self buf_size s =
     (case self of
        None \<Rightarrow> (Inl NullSocket, s)
      | Some fd \<Rightarrow>
          (case px_recv px fd buf_size s of ((retval, buf), s') \<Rightarrow>
             if retval = -1 then (Inl RecvFailed, s')
             else (Inr (nat (retval mod 2 ^ 64), buf), s')))"

text \<open>
  The loops of \<open>sendFully\<close> and \<open>recvFully\<close>. They end when the counter meets the size of the buffer;
  were the operating system to move more bytes than asked for they might not, so they are partial.
\<close>

partial_function (option) sendFully_loop ::
  "('ad, 's) posix \<Rightarrow> socket \<Rightarrow> bytes \<Rightarrow> nat \<Rightarrow> 's \<Rightarrow> ((net_error + unit) \<times> 's) option" where
  "sendFully_loop px self data sent s =
     (if sent = length data then Some (Inr (), s)
      else (case Socket_send px self (drop sent data) s of (r, s') \<Rightarrow>
              (case r of
                 Inl e \<Rightarrow> Some (Inl e, s')
               | Inr data_sent \<Rightarrow>
                   if data_sent = 0 then Some (Inl (SendIncomplete sent), s')
                   else sendFully_loop px self data (size_add sent data_sent) s')))"

definition sendFully ::
  "('ad, 's) posix \<Rightarrow> socket \<Rightarrow> bytes \<Rightarrow> ('s, net_error, unit) act" where
  "sendFully px self data = sendFully_loop px self data 0"

partial_function (option) recvFully_loop ::
  "('ad, 's) posix \<Rightarrow> socket \<Rightarrow> nat \<Rightarrow> nat \<Rightarrow> bytes \<Rightarrow> 's \<Rightarrow>
   ((net_error + bytes) \<times> 's) option" where
  "recvFully_loop px self data_size received data s =
     (if received = data_size then Some (Inr data, s)
      else (case Socket_recv px self (size_sub data_size received) s of (r, s') \<Rightarrow>
              (case r of
                 Inl e \<Rightarrow> Some (Inl e, s')
               | Inr p \<Rightarrow>
                   (case p of (data_received, chunk) \<Rightarrow>
                      if data_received = 0 then Some (Inl (RecvIncomplete received), s')
                      else recvFully_loop px self data_size (size_add received data_received)
                             (data @ chunk) s'))))"

definition recvFully ::
  "('ad, 's) posix \<Rightarrow> socket \<Rightarrow> nat \<Rightarrow> ('s, net_error, bytes) act" where
  "recvFully px self data_size = recvFully_loop px self data_size 0 []"

text \<open>\<open>recv<T>\<close> for the integer types the program receives.\<close>

definition recv_u8 :: "('ad, 's) posix \<Rightarrow> socket \<Rightarrow> ('s, net_error, byte) act" where
  "recv_u8 px self = andThen (recvFully px self 1) (\<lambda>bs. ret (le_word bs))"

definition recv_u32 :: "('ad, 's) posix \<Rightarrow> socket \<Rightarrow> ('s, net_error, u32) act" where
  "recv_u32 px self = andThen (recvFully px self 4) (\<lambda>bs. ret (le_word bs))"

definition recv_u64 :: "('ad, 's) posix \<Rightarrow> socket \<Rightarrow> ('s, net_error, u64) act" where
  "recv_u64 px self = andThen (recvFully px self 8) (\<lambda>bs. ret (le_word bs))"

end
