(* ===== verification/Tcp_Stream.thy ===== *)
theory Tcp_Stream
  imports Net_Socket
begin

text \<open>
  What the program may assume of the operating system, as two locales over the calls of \<open>posix\<close>, and
  what the socket classes then guarantee: \<open>sendFully\<close> and \<open>recvFully\<close> return, and move exactly the
  bytes of the buffer, whatever the sizes of the single transfers; \<open>connect\<close> and \<open>bind\<close> leave no
  descriptor open but the one they return. The triples \<open>transfers\<close> and \<open>talks\<close> state what an action
  consumes and produces on a connection; they compose along \<open>andThen\<close>. The last section gives a
  reference operating system with partial transfers that satisfies both locales.
\<close>

section \<open>Triples for actions on a connection\<close>

definition transfers ::
  "('s \<Rightarrow> bytes) \<Rightarrow> ('s \<Rightarrow> bytes) \<Rightarrow> ('s \<Rightarrow> bool) \<Rightarrow> ('s, 'e, 'a) act \<Rightarrow> bytes \<Rightarrow> bytes \<Rightarrow> 'a \<Rightarrow> bool" where
  "transfers inbox outbox up m ins outs v \<longleftrightarrow>
     (\<forall>s rest. up s \<and> inbox s = ins @ rest \<longrightarrow>
        (\<exists>s'. m s = Some (Inr v, s') \<and> inbox s' = rest \<and> outbox s' = outbox s @ outs \<and> up s'))"

lemma transfersI:
  "(\<And>s rest. up s \<Longrightarrow> inbox s = ins @ rest \<Longrightarrow>
      \<exists>s'. m s = Some (Inr v, s') \<and> inbox s' = rest \<and> outbox s' = outbox s @ outs \<and> up s') \<Longrightarrow>
   transfers inbox outbox up m ins outs v"
  by (simp add: transfers_def)

lemma transfersD:
  "transfers inbox outbox up m ins outs v \<Longrightarrow> up s \<Longrightarrow> inbox s = ins @ rest \<Longrightarrow>
   \<exists>s'. m s = Some (Inr v, s') \<and> inbox s' = rest \<and> outbox s' = outbox s @ outs \<and> up s'"
  by (simp add: transfers_def)

lemma transfers_ret: "transfers inbox outbox up (ret v) [] [] v"
  by (simp add: transfers_def ret_def)

lemma transfers_andThen:
  assumes "transfers inbox outbox up m ins1 outs1 v"
    and "transfers inbox outbox up (f v) ins2 outs2 w"
  shows "transfers inbox outbox up (andThen m f) (ins1 @ ins2) (outs1 @ outs2) w"
proof (rule transfersI)
  fix s rest
  assume "up s" and "inbox s = (ins1 @ ins2) @ rest"
  then obtain s1 where s1: "m s = Some (Inr v, s1)" "inbox s1 = ins2 @ rest"
    "outbox s1 = outbox s @ outs1" "up s1"
    using transfersD [OF assms(1), of s "ins2 @ rest"] by auto
  then obtain s2 where "f v s1 = Some (Inr w, s2)" "inbox s2 = rest"
    "outbox s2 = outbox s1 @ outs2" "up s2"
    using transfersD [OF assms(2), of s1 rest] by auto
  with s1 show "\<exists>s'. andThen m f s = Some (Inr w, s') \<and> inbox s' = rest \<and>
      outbox s' = outbox s @ (outs1 @ outs2) \<and> up s'"
    by (simp add: andThen_Inr)
qed

lemma transfers_cons_andThen:
  "transfers inbox outbox up m ins1 [] v \<Longrightarrow> transfers inbox outbox up (f v) ins2 outs w \<Longrightarrow>
   transfers inbox outbox up (andThen m f) (ins1 @ ins2) outs w"
  using transfers_andThen [of inbox outbox up m ins1 "[]" v f ins2 outs w] by simp

text \<open>An action that always returns, with a value or an exception, and keeps the connection usable.\<close>

definition returns :: "('s \<Rightarrow> bool) \<Rightarrow> ('s, 'e, 'a) act \<Rightarrow> bool" where
  "returns up m \<longleftrightarrow> (\<forall>s. up s \<longrightarrow> (\<exists>r s'. m s = Some (r, s') \<and> up s'))"

lemma returns_ret [simp]: "returns up (ret v)"
  by (simp add: returns_def ret_def)

lemma returns_andThen:
  assumes m: "returns up m" and f: "\<And>v. returns up (f v)"
  shows "returns up (andThen m f)"
  unfolding returns_def
proof (intro allI impI)
  fix s assume "up s"
  with m obtain r s1 where s1: "m s = Some (r, s1)" "up s1"
    unfolding returns_def by blast
  show "\<exists>r s'. andThen m f s = Some (r, s') \<and> up s'"
  proof (cases r)
    case (Inl e)
    with s1 show ?thesis by (simp add: andThen_Inl)
  next
    case (Inr v)
    from f [of v] s1(2) obtain r' s2 where "f v s1 = Some (r', s2)" "up s2"
      unfolding returns_def by blast
    with s1 Inr show ?thesis by (simp add: andThen_Inr)
  qed
qed

section \<open>The stream contract\<close>

locale tcp_stream =
  fixes px :: "('ad, 's) posix" and fd :: int
    and inbox :: "'s \<Rightarrow> bytes" and outbox :: "'s \<Rightarrow> bytes" and up :: "'s \<Rightarrow> bool"
  assumes recv_data: "up s \<Longrightarrow> 0 < n \<Longrightarrow> inbox s \<noteq> [] \<Longrightarrow>
      \<exists>k s'. px_recv px fd n s = ((int k, take k (inbox s)), s') \<and> 0 < k \<and> k \<le> n \<and>
        k \<le> length (inbox s) \<and> inbox s' = drop k (inbox s) \<and> outbox s' = outbox s \<and> up s'"
    and recv_eof: "up s \<Longrightarrow> 0 < n \<Longrightarrow> inbox s = [] \<Longrightarrow>
      \<exists>s'. px_recv px fd n s = ((0, []), s') \<and> inbox s' = [] \<and> outbox s' = outbox s \<and> up s'"
    and send_data: "up s \<Longrightarrow> bs \<noteq> [] \<Longrightarrow>
      \<exists>k s'. px_send px fd bs s = (int k, s') \<and> 0 < k \<and> k \<le> length bs \<and>
        outbox s' = outbox s @ take k bs \<and> inbox s' = inbox s \<and> up s'"
begin

abbreviation moves :: "('s, 'e, 'a) act \<Rightarrow> bytes \<Rightarrow> bytes \<Rightarrow> 'a \<Rightarrow> bool" where
  "moves \<equiv> transfers inbox outbox up"

lemma sendFully_loop_ok:
  assumes "up s" and "sent \<le> length data" and "length data < 2 ^ 64"
  shows "\<exists>s'. sendFully_loop px (Some fd) data sent s = Some (Inr (), s') \<and>
    outbox s' = outbox s @ drop sent data \<and> inbox s' = inbox s \<and> up s'"
  using assms
proof (induction "length data - sent" arbitrary: sent s rule: less_induct)
  case less
  show ?case
  proof (cases "sent = length data")
    case True
    with less.prems show ?thesis by (simp add: sendFully_loop.simps)
  next
    case False
    with less.prems(2) have ne: "drop sent data \<noteq> []" by simp
    from send_data [OF less.prems(1) ne] obtain k s1 where
      k: "px_send px fd (drop sent data) s = (int k, s1)" "0 < k" "k \<le> length data - sent"
        "outbox s1 = outbox s @ take k (drop sent data)" "inbox s1 = inbox s" "up s1" by auto
    have small: "k < 2 ^ 64" "sent + k < 2 ^ 64" using k(3) less.prems by linarith+
    have send: "Socket_send px (Some fd) (drop sent data) s = (Inr k, s1)"
      using k(1) small(1) by (simp add: Socket_send_def nat_mod_as_int [symmetric])
    have add: "size_add sent k = sent + k" using small(2) by (rule size_add_eq)
    have "length data - (sent + k) < length data - sent" "sent + k \<le> length data"
      using k(2,3) False less.prems(2) by linarith+
    from less.hyps [OF this(1) k(6) this(2) less.prems(3)] obtain s2 where
      s2: "sendFully_loop px (Some fd) data (sent + k) s1 = Some (Inr (), s2)"
        "outbox s2 = outbox s1 @ drop (sent + k) data" "inbox s2 = inbox s1" "up s2" by blast
    have "sendFully_loop px (Some fd) data sent s = Some (Inr (), s2)"
      using False k(2) s2(1)
      by (subst sendFully_loop.simps) (simp add: send add)
    moreover have "outbox s2 = outbox s @ drop sent data"
      using s2(2) k(4) by (metis append.assoc append_take_drop_id drop_drop add.commute)
    ultimately show ?thesis using s2 k(5) by simp
  qed
qed

lemma recvFully_loop_ok:
  assumes "up s" and "received \<le> n" and "n < 2 ^ 64" and "n - received \<le> length (inbox s)"
  shows "\<exists>s'. recvFully_loop px (Some fd) n received data s =
      Some (Inr (data @ take (n - received) (inbox s)), s') \<and>
    inbox s' = drop (n - received) (inbox s) \<and> outbox s' = outbox s \<and> up s'"
  using assms
proof (induction "n - received" arbitrary: received s data rule: less_induct)
  case less
  show ?case
  proof (cases "received = n")
    case True
    with less.prems show ?thesis by (simp add: recvFully_loop.simps)
  next
    case False
    with less.prems have pos: "0 < n - received" and ne: "inbox s \<noteq> []" by auto
    from recv_data [OF less.prems(1) pos ne] obtain k s1 where
      k: "px_recv px fd (n - received) s = ((int k, take k (inbox s)), s1)" "0 < k"
        "k \<le> n - received" "k \<le> length (inbox s)" "inbox s1 = drop k (inbox s)"
        "outbox s1 = outbox s" "up s1" by blast
    have small: "k < 2 ^ 64" "received + k < 2 ^ 64" using k(3) less.prems by linarith+
    have sub: "size_sub n received = n - received"
      using less.prems by (intro size_sub_eq)
    have recv: "Socket_recv px (Some fd) (n - received) s = (Inr (k, take k (inbox s)), s1)"
      using k(1) small(1) by (simp add: Socket_recv_def nat_mod_as_int [symmetric])
    have add: "size_add received k = received + k" using small(2) by (rule size_add_eq)
    have m: "n - (received + k) < n - received" "received + k \<le> n"
      "n - (received + k) \<le> length (inbox s1)"
      using k less.prems by auto
    from less.hyps [OF m(1) k(7) m(2) less.prems(3) m(3), of "data @ take k (inbox s)"]
    obtain s2 where
      s2: "recvFully_loop px (Some fd) n (received + k) (data @ take k (inbox s)) s1 =
          Some (Inr ((data @ take k (inbox s)) @ take (n - (received + k)) (inbox s1)), s2)"
        "inbox s2 = drop (n - (received + k)) (inbox s1)" "outbox s2 = outbox s1" "up s2" by blast
    have split: "n - received = k + (n - (received + k))" using k(3) by linarith
    have "take k (inbox s) @ take (n - (received + k)) (inbox s1) = take (n - received) (inbox s)"
      unfolding split k(5) by (rule take_add [symmetric])
    moreover have "drop (n - (received + k)) (inbox s1) = drop (n - received) (inbox s)"
      unfolding split k(5) by (simp add: add.commute)
    moreover have "recvFully_loop px (Some fd) n received data s =
        recvFully_loop px (Some fd) n (received + k) (data @ take k (inbox s)) s1"
      using False k(2) by (subst recvFully_loop.simps) (simp add: sub recv add)
    ultimately show ?thesis using s2 k(6) by simp
  qed
qed

lemma recvFully_loop_eof:
  assumes "up s" and "received \<le> n" and "n < 2 ^ 64" and "length (inbox s) < n - received"
  shows "\<exists>s'. recvFully_loop px (Some fd) n received data s =
      Some (Inl (RecvIncomplete (received + length (inbox s))), s') \<and>
    inbox s' = [] \<and> outbox s' = outbox s \<and> up s'"
  using assms
proof (induction "n - received" arbitrary: received s data rule: less_induct)
  case less
  have pos: "0 < n - received" and "received \<noteq> n" using less.prems by auto
  have sub: "size_sub n received = n - received"
    using less.prems by (intro size_sub_eq)
  show ?case
  proof (cases "inbox s = []")
    case True
    from recv_eof [OF less.prems(1) pos True] obtain s1 where
      "px_recv px fd (n - received) s = ((0, []), s1)" "inbox s1 = []" "outbox s1 = outbox s" "up s1"
      by blast
    with True \<open>received \<noteq> n\<close> show ?thesis
      by (subst recvFully_loop.simps) (simp add: sub Socket_recv_def)
  next
    case False
    from recv_data [OF less.prems(1) pos False] obtain k s1 where
      k: "px_recv px fd (n - received) s = ((int k, take k (inbox s)), s1)" "0 < k"
        "k \<le> n - received" "k \<le> length (inbox s)" "inbox s1 = drop k (inbox s)"
        "outbox s1 = outbox s" "up s1" by blast
    have small: "k < 2 ^ 64" "received + k < 2 ^ 64" using k(3) less.prems by linarith+
    have recv: "Socket_recv px (Some fd) (n - received) s = (Inr (k, take k (inbox s)), s1)"
      using k(1) small(1) by (simp add: Socket_recv_def nat_mod_as_int [symmetric])
    have add: "size_add received k = received + k" using small(2) by (rule size_add_eq)
    have m: "n - (received + k) < n - received" "received + k \<le> n"
      "length (inbox s1) < n - (received + k)"
      using k less.prems by auto
    from less.hyps [OF m(1) k(7) m(2) less.prems(3) m(3), of "data @ take k (inbox s)"]
    obtain s2 where
      s2: "recvFully_loop px (Some fd) n (received + k) (data @ take k (inbox s)) s1 =
          Some (Inl (RecvIncomplete (received + k + length (inbox s1))), s2)"
        "inbox s2 = []" "outbox s2 = outbox s1" "up s2" by blast
    have "received + k + length (inbox s1) = received + length (inbox s)"
      using k(4,5) by simp
    moreover have "recvFully_loop px (Some fd) n received data s =
        recvFully_loop px (Some fd) n (received + k) (data @ take k (inbox s)) s1"
      using \<open>received \<noteq> n\<close> k(2) by (subst recvFully_loop.simps) (simp add: sub recv add)
    ultimately show ?thesis using s2 k(6) by simp
  qed
qed

text \<open>The functional behaviour of the two loops, for buffers that fit a \<open>size_t\<close>.\<close>

lemma sendFully_ok:
  assumes "up s" and "length data < 2 ^ 64"
  shows "\<exists>s'. sendFully px (Some fd) data s = Some (Inr (), s') \<and>
    outbox s' = outbox s @ data \<and> inbox s' = inbox s \<and> up s'"
  using sendFully_loop_ok [OF assms(1) _ assms(2), of 0] by (simp add: sendFully_def)

lemma recvFully_ok:
  assumes "up s" and "n < 2 ^ 64" and "n \<le> length (inbox s)"
  shows "\<exists>s'. recvFully px (Some fd) n s = Some (Inr (take n (inbox s)), s') \<and>
    inbox s' = drop n (inbox s) \<and> outbox s' = outbox s \<and> up s'"
  using recvFully_loop_ok [OF assms(1) _ assms(2), of 0 "[]"] assms(3)
  by (simp add: recvFully_def)

lemma recvFully_eof:
  assumes "up s" and "n < 2 ^ 64" and "length (inbox s) < n"
  shows "\<exists>s'. recvFully px (Some fd) n s = Some (Inl (RecvIncomplete (length (inbox s))), s') \<and>
    inbox s' = [] \<and> outbox s' = outbox s \<and> up s'"
  using recvFully_loop_eof [OF assms(1) _ assms(2), of 0] assms(3) by (simp add: recvFully_def)

lemma returns_sendFully: "length data < 2 ^ 64 \<Longrightarrow> returns up (sendFully px (Some fd) data)"
  unfolding returns_def using sendFully_ok by blast

lemma returns_recvFully: "n < 2 ^ 64 \<Longrightarrow> returns up (recvFully px (Some fd) n)"
  unfolding returns_def using recvFully_ok recvFully_eof by (meson not_le)

lemma moves_sendFully:
  "length data < 2 ^ 64 \<Longrightarrow> moves (sendFully px (Some fd) data) [] data ()"
  using sendFully_ok by (intro transfersI) fastforce

lemma moves_recvFully:
  assumes "length bs < 2 ^ 64" and "n = length bs"
  shows "moves (recvFully px (Some fd) n) bs [] bs"
proof (rule transfersI)
  fix s rest
  assume "up s" and "inbox s = bs @ rest"
  with recvFully_ok [of s n] assms
  show "\<exists>s'. recvFully px (Some fd) n s = Some (Inr bs, s') \<and> inbox s' = rest \<and>
      outbox s' = outbox s @ [] \<and> up s'"
    by auto
qed

lemma moves_recv_word:
  assumes "length bs = n" and "n < 2 ^ 64" and "le_word bs = v"
  shows "moves (andThen (recvFully px (Some fd) n) (\<lambda>bs. ret (le_word bs))) bs [] v"
  using transfers_andThen [OF moves_recvFully [of bs n] transfers_ret] assms by fastforce

lemma moves_recv_u8: "moves (recv_u8 px (Some fd)) [b] [] b"
  unfolding recv_u8_def by (rule moves_recv_word) simp_all

lemma moves_recv_u32: "moves (recv_u32 px (Some fd)) (u32_bytes w) [] w"
  unfolding recv_u32_def by (rule moves_recv_word) simp_all

lemma moves_recv_u64: "moves (recv_u64 px (Some fd)) (u64_bytes w) [] w"
  unfolding recv_u64_def by (rule moves_recv_word) simp_all

lemma returns_recv [simp]:
  "returns up (recv_u8 px (Some fd))"
  "returns up (recv_u32 px (Some fd))"
  "returns up (recv_u64 px (Some fd))"
  unfolding recv_u8_def recv_u32_def recv_u64_def
  by (auto intro!: returns_andThen returns_recvFully)

end

section \<open>The descriptor contract\<close>

locale fd_table =
  fixes px :: "('ad, 's) posix" and open_fds :: "'s \<Rightarrow> int set"
  assumes getaddrinfo_fds: "open_fds (snd (px_getaddrinfo px host port s)) = open_fds s"
    and freeaddrinfo_fds: "open_fds (px_freeaddrinfo px as s) = open_fds s"
    and socket_fds: "px_socket px a s = (fd, s') \<Longrightarrow>
      (fd = -1 \<and> open_fds s' = open_fds s) \<or>
      (fd \<noteq> -1 \<and> fd \<notin> open_fds s \<and> open_fds s' = insert fd (open_fds s))"
    and connect_fds: "open_fds (snd (px_connect px fd a s)) = open_fds s"
    and bind_fds: "open_fds (snd (px_bind px fd a s)) = open_fds s"
    and listen_fds: "open_fds (snd (px_listen px fd s)) = open_fds s"
    and shutdown_fds: "open_fds (px_shutdown px fd s) = open_fds s"
    and close_fds: "open_fds (px_close px fd s) = open_fds s - {fd}"
begin

lemmas fds_simps = freeaddrinfo_fds shutdown_fds close_fds

lemma connect_loop_fds:
  "connect_loop px as bs s = (r, s') \<Longrightarrow>
   (case r of Inl e \<Rightarrow> e = ConnectFailed \<and> open_fds s' = open_fds s
    | Inr fd \<Rightarrow> fd \<noteq> -1 \<and> fd \<notin> open_fds s \<and> open_fds s' = insert fd (open_fds s))"
proof (induction bs arbitrary: s)
  case Nil
  then show ?case by (auto simp: fds_simps)
next
  case (Cons a bs)
  obtain sock s1 where sock: "px_socket px a s = (sock, s1)" by fastforce
  obtain c s2 where c: "px_connect px sock a s1 = (c, s2)" by fastforce
  then have s2: "open_fds s2 = open_fds s1" using connect_fds [of sock a s1] by simp
  note new = socket_fds [OF sock]
  consider "sock = -1" | "sock \<noteq> -1" "c \<noteq> 0" | "sock \<noteq> -1" "c = 0" by blast
  then show ?case
  proof cases
    case 1
    with Cons.IH [of s1] Cons.prems sock new show ?thesis by (auto split: sum.splits)
  next
    case 2
    with Cons.prems sock c have "connect_loop px as bs (px_close px sock s2) = (r, s')" by simp
    from Cons.IH [OF this] 2 new s2 show ?thesis
      by (auto simp: fds_simps split: sum.splits)
  next
    case 3
    with Cons.prems sock c have "r = Inr sock" and "s' = px_freeaddrinfo px as s2" by auto
    with 3 new s2 show ?thesis by (auto simp: fds_simps)
  qed
qed

lemma bind_loop_fds:
  "bind_loop px as bs s = (r, s') \<Longrightarrow>
   (case r of Inl e \<Rightarrow> e = BindFailed \<and> open_fds s' = open_fds s
    | Inr fd \<Rightarrow> fd \<noteq> -1 \<and> fd \<notin> open_fds s \<and> open_fds s' = insert fd (open_fds s))"
proof (induction bs arbitrary: s)
  case Nil
  then show ?case by (auto simp: fds_simps)
next
  case (Cons a bs)
  obtain sock s1 where sock: "px_socket px a s = (sock, s1)" by fastforce
  obtain b s2 where b: "px_bind px sock a s1 = (b, s2)" by fastforce
  obtain l s3 where l: "px_listen px sock s2 = (l, s3)" by fastforce
  have s2: "open_fds s2 = open_fds s1" using bind_fds [of sock a s1] b by simp
  have s3: "open_fds s3 = open_fds s1" using listen_fds [of sock s2] l s2 by simp
  note new = socket_fds [OF sock]
  consider "sock = -1" | "sock \<noteq> -1" "b \<noteq> 0" | "sock \<noteq> -1" "b = 0" "l \<noteq> 0"
    | "sock \<noteq> -1" "b = 0" "l = 0" by blast
  then show ?case
  proof cases
    case 1
    with Cons.IH [of s1] Cons.prems sock new show ?thesis by (auto split: sum.splits)
  next
    case 2
    with Cons.prems sock b have "bind_loop px as bs (px_close px sock s2) = (r, s')" by simp
    from Cons.IH [OF this] 2 new s2 show ?thesis
      by (auto simp: fds_simps split: sum.splits)
  next
    case 3
    with Cons.prems sock b l have "bind_loop px as bs (px_close px sock s3) = (r, s')" by simp
    from Cons.IH [OF this] 3 new s3 show ?thesis
      by (auto simp: fds_simps split: sum.splits)
  next
    case 4
    with Cons.prems sock b l have "r = Inr sock" and "s' = px_freeaddrinfo px as s3" by auto
    with 4 new s3 show ?thesis by (auto simp: fds_simps)
  qed
qed

lemma Socket_connect_fds:
  assumes "Socket_connect px (Some old) host port s = (r, s')"
  shows "case r of Inl _ \<Rightarrow> open_fds s' = open_fds s
    | Inr sk \<Rightarrow> \<exists>fd. sk = Some fd \<and> fd \<noteq> -1 \<and> fd \<notin> open_fds s \<and>
        open_fds s' = insert fd (open_fds s)"
proof -
  obtain status as s1 where g: "px_getaddrinfo px host port s = ((status, as), s1)"
    by (metis prod.collapse)
  with getaddrinfo_fds [of host port s] have s1: "open_fds s1 = open_fds s" by simp
  obtain r' s2 where l: "connect_loop px as as s1 = (r', s2)" by fastforce
  from assms g l s1 connect_loop_fds [OF l] show ?thesis
    by (auto simp: Socket_connect_def split: if_splits sum.splits)
qed

lemma ServerSocket_bind_fds:
  assumes "ServerSocket_bind px (Some old) addr port s = (r, s')"
  shows "case r of Inl _ \<Rightarrow> open_fds s' = open_fds s
    | Inr sk \<Rightarrow> \<exists>fd. sk = Some fd \<and> fd \<noteq> -1 \<and> fd \<notin> open_fds s \<and>
        open_fds s' = insert fd (open_fds s)"
proof -
  obtain status as s1 where g: "px_getaddrinfo px addr port s = ((status, as), s1)"
    by (metis prod.collapse)
  with getaddrinfo_fds [of addr port s] have s1: "open_fds s1 = open_fds s" by simp
  obtain r' s2 where l: "bind_loop px as as s1 = (r', s2)" by fastforce
  from assms g l s1 bind_loop_fds [OF l] show ?thesis
    by (auto simp: ServerSocket_bind_def split: if_splits sum.splits)
qed

lemma Socket_close_fds:
  "Socket_close px self s = (self', s') \<Longrightarrow>
   open_fds s' = (case self of None \<Rightarrow> open_fds s
     | Some fd \<Rightarrow> if fd = -1 then open_fds s else open_fds s - {fd})"
  by (auto simp: Socket_close_def fds_simps split: option.splits if_splits)

end

text \<open>Closing is idempotent: a second \<open>close\<close>, or the destructor after it, makes no further call.\<close>

lemma Socket_close_idem:
  "Socket_close px self s = (self', s') \<Longrightarrow> Socket_close px self' s' = (self', s')"
  by (auto simp: Socket_close_def split: option.splits if_splits)

lemma ServerSocket_close_idem:
  "ServerSocket_close px self s = (self', s') \<Longrightarrow> ServerSocket_close px self' s' = (self', s')"
  by (auto simp: ServerSocket_close_def split: option.splits if_splits)

lemma Socket_destroy_moved:
  "Socket_move a = (b, a') \<Longrightarrow> Socket_destroy px a' s = s \<and> b = a"
  by (auto simp: Socket_move_def Socket_destroy_def Socket_close_def)

section \<open>A reference operating system\<close>

text \<open>
  A connection with a given incoming stream, on which the sizes of the single transfers are dictated
  by a schedule (an exhausted schedule moves as much as it can), and a table of descriptors. An
  address says which of the calls on it succeed.
\<close>

datatype sim_addr = SimAddr (sim_can_create: bool) (sim_can_attach: bool) (sim_can_listen: bool)

record sim =
  sim_in :: bytes
  sim_out :: bytes
  sim_sizes :: "nat list"
  sim_fds :: "(int \<times> sim_addr) list"
  sim_dns :: "sim_addr list"

definition sim_size :: "nat \<Rightarrow> sim \<Rightarrow> nat" where
  "sim_size n s = (case sim_sizes s of [] \<Rightarrow> n | k # _ \<Rightarrow> max 1 (min k n))"

definition sim_open :: "sim \<Rightarrow> int set" where
  "sim_open s = fst ` set (sim_fds s)"

definition sim_send :: "int \<Rightarrow> bytes \<Rightarrow> sim \<Rightarrow> int \<times> sim" where
  "sim_send fd bs s =
     (if fd = -1 then (-1, s)
      else (let k = sim_size (length bs) s
            in (int k, s\<lparr>sim_out := sim_out s @ take k bs, sim_sizes := tl (sim_sizes s)\<rparr>)))"

definition sim_recv :: "int \<Rightarrow> nat \<Rightarrow> sim \<Rightarrow> (int \<times> bytes) \<times> sim" where
  "sim_recv fd n s =
     (if fd = -1 then ((-1, []), s)
      else if sim_in s = [] then ((0, []), s)
      else (let k = sim_size (min n (length (sim_in s))) s
            in ((int k, take k (sim_in s)),
                s\<lparr>sim_in := drop k (sim_in s), sim_sizes := tl (sim_sizes s)\<rparr>)))"

definition sim_socket :: "sim_addr \<Rightarrow> sim \<Rightarrow> int \<times> sim" where
  "sim_socket a s =
     (let fd = 1 + Max (insert 2 (sim_open s))
      in if sim_can_create a then (fd, s\<lparr>sim_fds := (fd, a) # sim_fds s\<rparr>) else (-1, s))"

definition sim_posix :: "(sim_addr, sim) posix" where
  "sim_posix =
     \<lparr>px_getaddrinfo = (\<lambda>host port s. ((if sim_dns s = [] then -2 else 0, sim_dns s), s)),
      px_freeaddrinfo = (\<lambda>as s. s),
      px_socket = sim_socket,
      px_connect = (\<lambda>fd a s. (if sim_can_attach a then 0 else -1, s)),
      px_bind = (\<lambda>fd a s. (if sim_can_attach a then 0 else -1, s)),
      px_listen = (\<lambda>fd s. (case map_of (sim_fds s) fd of None \<Rightarrow> -1
                            | Some a \<Rightarrow> if sim_can_listen a then 0 else -1, s)),
      px_accept = (\<lambda>fd s. sim_socket (SimAddr True True True) s),
      px_shutdown = (\<lambda>fd s. s),
      px_close = (\<lambda>fd s. s\<lparr>sim_fds := filter (\<lambda>p. fst p \<noteq> fd) (sim_fds s)\<rparr>),
      px_send = sim_send,
      px_recv = sim_recv\<rparr>"

lemma sim_posix_simps:
  "px_getaddrinfo sim_posix host port s = ((if sim_dns s = [] then -2 else 0, sim_dns s), s)"
  "px_freeaddrinfo sim_posix as s = s"
  "px_socket sim_posix = sim_socket"
  "px_connect sim_posix fd a s = (if sim_can_attach a then 0 else -1, s)"
  "px_bind sim_posix fd a s = (if sim_can_attach a then 0 else -1, s)"
  "px_shutdown sim_posix fd s = s"
  "px_close sim_posix fd s = s\<lparr>sim_fds := filter (\<lambda>p. fst p \<noteq> fd) (sim_fds s)\<rparr>"
  "px_send sim_posix = sim_send"
  "px_recv sim_posix = sim_recv"
  by (simp_all add: sim_posix_def)

lemma sim_size_bounds: "0 < n \<Longrightarrow> 0 < sim_size n s \<and> sim_size n s \<le> n"
  by (auto simp: sim_size_def split: list.splits)

lemma sim_stream: "fd \<noteq> -1 \<Longrightarrow> tcp_stream sim_posix fd sim_in sim_out (\<lambda>s. True)"
proof (unfold_locales, goal_cases)
  case (1 s n)
  then have "0 < min n (length (sim_in s))" by simp
  from sim_size_bounds [OF this, of s] 1 show ?case
    by (auto simp: sim_posix_def sim_recv_def Let_def)
next
  case (2 s n)
  then show ?case by (simp add: sim_posix_def sim_recv_def)
next
  case (3 s bs)
  then have "0 < length bs" by simp
  from sim_size_bounds [OF this, of s] 3 show ?case
    by (auto simp: sim_posix_def sim_send_def Let_def)
qed

interpretation sim: tcp_stream sim_posix 3 sim_in sim_out "\<lambda>s. True"
  by (rule sim_stream) simp

interpretation simfd: fd_table sim_posix sim_open
proof (unfold_locales, goal_cases)
  case (3 a s fd s')
  have "1 + Max (insert 2 (sim_open s)) \<notin> sim_open s"
  proof
    assume "1 + Max (insert 2 (sim_open s)) \<in> sim_open s"
    then have "1 + Max (insert 2 (sim_open s)) \<le> Max (insert 2 (sim_open s))"
      by (intro Max_ge) (auto simp: sim_open_def)
    then show False by simp
  qed
  moreover have "2 \<le> Max (insert 2 (sim_open s))"
    by (intro Max_ge) (auto simp: sim_open_def)
  ultimately have "1 + Max (insert 2 (sim_open s)) \<noteq> -1"
    and "1 + Max (insert 2 (sim_open s)) \<notin> sim_open s"
    by auto
  with 3 show ?case
    by (auto simp: sim_posix_def sim_socket_def Let_def sim_open_def split: if_splits)
qed (auto simp: sim_posix_def sim_open_def)

definition sim_with :: "bytes \<Rightarrow> nat list \<Rightarrow> sim_addr list \<Rightarrow> sim" where
  "sim_with ins sizes dns =
     \<lparr>sim_in = ins, sim_out = [], sim_sizes = sizes, sim_fds = [], sim_dns = dns\<rparr>"

lemma sim_with_simps [simp]:
  "sim_in (sim_with ins sizes dns) = ins" "sim_out (sim_with ins sizes dns) = []"
  "sim_dns (sim_with ins sizes dns) = dns" "sim_open (sim_with ins sizes dns) = {}"
  by (simp_all add: sim_with_def sim_open_def)

section \<open>Properties\<close>

text \<open>C14: On a connection, \<open>sendFully\<close> returns and has sent the whole buffer, and \<open>recvFully\<close>, when the
  peer sends enough, returns and has received exactly the bytes asked for, whatever the sizes in
  which the operating system moves them.\<close>

theorem fully_transfers:
  assumes "tcp_stream px fd inbox outbox up" and "up s" and "length data < 2 ^ 64"
    and "n < 2 ^ 64" and "n \<le> length (inbox s)"
  shows "(\<exists>s'. sendFully px (Some fd) data s = Some (Inr (), s') \<and>
      outbox s' = outbox s @ data \<and> inbox s' = inbox s) \<and>
    (\<exists>s'. recvFully px (Some fd) n s = Some (Inr (take n (inbox s)), s') \<and>
      inbox s' = drop n (inbox s) \<and> outbox s' = outbox s)"
  using tcp_stream.sendFully_ok [OF assms(1-3)] tcp_stream.recvFully_ok [OF assms(1,2,4,5)] by blast

lemma fully_transfers_witness:
  "\<exists>s'. recvFully sim_posix (Some 3) 3 (sim_with [1, 2, 3, 4] [1, 1] []) = Some (Inr [1, 2, 3], s') \<and>
     sim_in s' = [4]"
  using fully_transfers [OF sim.tcp_stream_axioms, where s = "sim_with [1, 2, 3, 4] [1, 1] []" and data = "[]" and n = 3]
  by auto

text \<open>C15: When the peer closes the connection before all bytes have arrived, \<open>recvFully\<close> returns, by
  the exception that carries the number of bytes received.\<close>

theorem recvFully_incomplete:
  assumes "tcp_stream px fd inbox outbox up" and "up s" and "n < 2 ^ 64" and "length (inbox s) < n"
  shows "\<exists>s'. recvFully px (Some fd) n s = Some (Inl (RecvIncomplete (length (inbox s))), s') \<and>
    inbox s' = []"
  using tcp_stream.recvFully_eof [OF assms] by blast

lemma recvFully_incomplete_witness:
  "\<exists>s'. recvFully sim_posix (Some 3) 5 (sim_with [1, 2] [1] []) = Some (Inl (RecvIncomplete 2), s')"
  using recvFully_incomplete [OF sim.tcp_stream_axioms, where s = "sim_with [1, 2] [1] []" and n = 5] by auto

text \<open>C16: \<open>connect\<close> and \<open>bind\<close> leak no descriptor: on every path, over every list of addresses of which
  some cannot be used, the descriptors open afterwards are those open before and, on success, the
  one returned.\<close>

theorem connect_bind_no_leak:
  assumes "fd_table px open_fds" and "Socket_connect px (Some old) host port s = (r, s')"
    and "ServerSocket_bind px (Some old) host port t = (r', t')"
  shows "open_fds s' = open_fds s \<union> (case r of Inl e \<Rightarrow> {} | Inr sk \<Rightarrow> set_option sk) \<and>
    open_fds t' = open_fds t \<union> (case r' of Inl e \<Rightarrow> {} | Inr sk \<Rightarrow> set_option sk)"
  using fd_table.Socket_connect_fds [OF assms(1,2)] fd_table.ServerSocket_bind_fds [OF assms(1,3)]
  by (auto split: sum.splits)

lemma connect_bind_no_leak_witness:
  "\<exists>r s'. Socket_connect sim_posix Socket_new ''host'' 4242
       (sim_with [] [] [SimAddr True False True, SimAddr True True True]) = (Inr (Some 3), s') \<and>
     sim_open s' = {3}"
proof -
  let ?s = "sim_with [] [] [SimAddr True False True, SimAddr True True True]"
  have fds: "fd_table sim_posix sim_open" by (rule simfd.fd_table_axioms)
  obtain s' where run: "Socket_connect sim_posix (Some (-1)) ''host'' 4242 ?s = (Inr (Some 3), s')"
    by (simp add: Socket_connect_def sim_posix_simps sim_with_def sim_socket_def Let_def sim_open_def
        del: set_filter)
  obtain r t where "ServerSocket_bind sim_posix (Some (-1)) ''host'' 4242 ?s = (r, t)" by fastforce
  from connect_bind_no_leak [OF fds run this] run show ?thesis
    by (auto simp: Socket_new_def)
qed

end
