(* ===== verification/Server_Job.thy ===== *)
theory Server_Job
  imports Prelude
begin

text \<open>
  One render job of the server (\<open>include/server/job.hpp\<close>, \<open>src/server/job.cpp\<close>) and the tasks it
  hands out, one per frame (\<open>include/server/task.hpp\<close>, \<open>src/server/task.cpp\<close>). The list
  \<open>remaining_tasks\<close> is the abstract view of a job: the frames it has still to hand out.
\<close>

named_theorems job_simps

section \<open>Tasks\<close>

record Task =
  task_shader :: bytes
  task_frame :: u32
  task_fps :: u32
  task_width :: u32
  task_height :: u32
  task_job :: u32

text \<open>
  The constructor leaves the member \<open>job\<close> uninitialised: the object it builds is determined up to
  the value that happens to be there, which is the last argument.
\<close>

definition Task_new :: "bytes \<Rightarrow> u32 \<Rightarrow> u32 \<Rightarrow> u32 \<Rightarrow> u32 \<Rightarrow> u32 \<Rightarrow> Task" where
  "Task_new shader frame fps width height junk =
     \<lparr>task_shader = shader, task_frame = frame, task_fps = fps, task_width = width,
      task_height = height, task_job = junk\<rparr>"

section \<open>Jobs\<close>

record Job =
  job_shader :: bytes
  total_frames :: u32
  job_fps :: u32
  job_width :: u32
  job_height :: u32
  frames_submitted :: u32
  frames_rendered :: u32

definition Job_new :: "bytes \<Rightarrow> u32 \<Rightarrow> u32 \<Rightarrow> u32 \<Rightarrow> u32 \<Rightarrow> Job" where
  "Job_new shader frames fps width height =
     \<lparr>job_shader = shader, total_frames = frames, job_fps = fps, job_width = width,
      job_height = height, frames_submitted = 0, frames_rendered = 0\<rparr>"

definition hasTasks :: "Job \<Rightarrow> bool" where
  "hasTasks j \<longleftrightarrow> frames_submitted j < total_frames j"

text \<open>\<open>getNextTask\<close> reads \<open>frames_submitted\<close> and increments it: a post-increment, wrapping at 32 bits.\<close>

definition getNextTask :: "Job \<Rightarrow> u32 \<Rightarrow> Task \<times> Job" where
  "getNextTask j junk =
     (Task_new (job_shader j) (frames_submitted j) (job_fps j) (job_width j) (job_height j) junk,
      j\<lparr>frames_submitted := frames_submitted j + 1\<rparr>)"

text \<open>
  \<open>frameRendered\<close> increments the atomic counter and runs the callback when the counter reaches the
  total; the flag says whether the callback runs.
\<close>

definition frameRendered :: "Job \<Rightarrow> Job \<times> bool" where
  "frameRendered j =
     (let total_rendered = frames_rendered j + 1
      in (j\<lparr>frames_rendered := total_rendered\<rparr>, total_rendered = total_frames j))"

definition getTotalFrames :: "Job \<Rightarrow> u32" where
  "getTotalFrames j = total_frames j"

definition getRenderedFrames :: "Job \<Rightarrow> u32" where
  "getRenderedFrames j = frames_rendered j"

section \<open>The frames a job has still to hand out\<close>

definition frame_task :: "u32 \<Rightarrow> Job \<Rightarrow> nat \<Rightarrow> Task" where
  "frame_task job_id j k =
     Task_new (job_shader j) (of_nat k) (job_fps j) (job_width j) (job_height j) job_id"

definition remaining_tasks :: "u32 \<Rightarrow> Job \<Rightarrow> Task list" where
  "remaining_tasks job_id j =
     map (frame_task job_id j) [unat (frames_submitted j) ..< unat (total_frames j)]"

definition job_ok :: "Job \<Rightarrow> bool" where
  "job_ok j \<longleftrightarrow> frames_submitted j \<le> total_frames j"

lemma hasTasks_iff_remaining: "hasTasks j \<longleftrightarrow> remaining_tasks job_id j \<noteq> []"
  by (auto simp: hasTasks_def remaining_tasks_def word_less_nat_alt)

lemma length_remaining_tasks:
  "length (remaining_tasks job_id j) = unat (total_frames j) - unat (frames_submitted j)"
  by (simp add: remaining_tasks_def)

lemma remaining_tasks_empty [simp]: "\<not> hasTasks j \<Longrightarrow> remaining_tasks job_id j = []"
  using hasTasks_iff_remaining by blast

lemma job_ok_new [simp, intro]: "job_ok (Job_new s n f w h)"
  by (simp add: job_ok_def Job_new_def)

lemma getNextTask_frame_fields [simp]:
  "job_shader (snd (getNextTask j x)) = job_shader j"
  "total_frames (snd (getNextTask j x)) = total_frames j"
  "job_fps (snd (getNextTask j x)) = job_fps j"
  "job_width (snd (getNextTask j x)) = job_width j"
  "job_height (snd (getNextTask j x)) = job_height j"
  "frames_rendered (snd (getNextTask j x)) = frames_rendered j"
  by (simp_all add: getNextTask_def)

lemma getNextTask_job_ok: "hasTasks j \<Longrightarrow> job_ok (snd (getNextTask j x))"
  by (simp add: job_ok_def hasTasks_def getNextTask_def inc_le_of_less)

text \<open>
  The task handed out, with its \<open>job\<close> member overwritten, is the first of the remaining tasks,
  whatever the uninitialised member held; the others remain.
\<close>

lemma getNextTask_remaining [job_simps]:
  assumes "hasTasks j"
  shows "(fst (getNextTask j x))\<lparr>task_job := job_id\<rparr> #
           remaining_tasks job_id (snd (getNextTask j x)) = remaining_tasks job_id j"
proof -
  have less: "unat (frames_submitted j) < unat (total_frames j)"
    using assms by (simp add: hasTasks_def word_less_nat_alt)
  have inc: "unat (frames_submitted j + 1) = Suc (unat (frames_submitted j))"
    using assms unfolding hasTasks_def by (rule unat_inc)
  have hd: "(fst (getNextTask j x))\<lparr>task_job := job_id\<rparr> =
      frame_task job_id j (unat (frames_submitted j))"
    by (simp add: getNextTask_def frame_task_def Task_new_def)
  have tl: "remaining_tasks job_id (snd (getNextTask j x)) =
      map (frame_task job_id j) [Suc (unat (frames_submitted j)) ..< unat (total_frames j)]"
    by (simp add: remaining_tasks_def getNextTask_def inc frame_task_def[abs_def] del: upt_Suc)
  show ?thesis
    unfolding hd tl using less by (simp add: remaining_tasks_def upt_conv_Cons del: upt_Suc)
qed

lemma remaining_tasks_new:
  "remaining_tasks job_id (Job_new s n f w h) =
     map (\<lambda>k. Task_new s (of_nat k) f w h job_id) [0 ..< unat n]"
  by (simp add: remaining_tasks_def Job_new_def frame_task_def[abs_def])

lemma frame_task_job [simp]: "task_job (frame_task job_id j k) = job_id"
  by (simp add: frame_task_def Task_new_def)

lemma distinct_remaining_tasks: "distinct (remaining_tasks job_id j)"
proof -
  have "inj_on (frame_task job_id j) {0 ..< 2 ^ 32}"
  proof (rule inj_onI)
    fix k l :: nat
    assume kl: "k \<in> {0 ..< 2 ^ 32}" "l \<in> {0 ..< 2 ^ 32}"
      and eq: "frame_task job_id j k = frame_task job_id j l"
    from eq have "(of_nat k :: u32) = of_nat l"
      by (simp add: frame_task_def Task_new_def)
    then have "unat (of_nat k :: u32) = unat (of_nat l :: u32)" by simp
    with kl show "k = l"
      by (simp add: unat_of_nat)
  qed
  moreover have "set [unat (frames_submitted j) ..< unat (total_frames j)] \<subseteq> {0 ..< 2 ^ 32}"
  proof
    fix k assume "k \<in> set [unat (frames_submitted j) ..< unat (total_frames j)]"
    then have "k < unat (total_frames j)" by simp
    also have "\<dots> < 2 ^ LENGTH(32)" by (rule unsigned_less)
    finally show "k \<in> {0 ..< 2 ^ 32}" by simp
  qed
  ultimately show ?thesis
    by (auto simp: remaining_tasks_def distinct_map intro: inj_on_subset)
qed

lemma frameRendered_fields [simp]:
  "frames_submitted (fst (frameRendered j)) = frames_submitted j"
  "total_frames (fst (frameRendered j)) = total_frames j"
  "frames_rendered (fst (frameRendered j)) = frames_rendered j + 1"
  "snd (frameRendered j) \<longleftrightarrow> frames_rendered j + 1 = total_frames j"
  by (simp_all add: frameRendered_def Let_def)

lemma frameRendered_remaining [simp]:
  "remaining_tasks job_id (fst (frameRendered j)) = remaining_tasks job_id j"
  by (simp add: remaining_tasks_def frameRendered_def Let_def frame_task_def[abs_def])

lemma frameRendered_job_ok [simp]: "job_ok (fst (frameRendered j)) = job_ok j"
  by (simp add: job_ok_def)

lemma frameRendered_hasTasks [simp]: "hasTasks (fst (frameRendered j)) = hasTasks j"
  by (simp add: hasTasks_def)

end
