(* ===== verification/Task_Pool.thy ===== *)
theory Task_Pool
  imports Main "HOL-Library.Multiset"
begin

text \<open>
  The contract between the job queue and its client, the job distribution loop of the client
  manager: what the client may assume of \<open>getJobs\<close> and \<open>addTasks\<close>. The state of the provider is
  seen through two lists: \<open>prio\<close>, the returned tasks, which are handed out first, and \<open>regular\<close>, the
  frames of the submitted jobs.
\<close>

section \<open>Sequences of calls\<close>

datatype 't pool_op = Take nat | Return "'t list"

text \<open>
  A run of calls, with everything the \<open>Take\<close>s returned, in order. \<open>None\<close>: a call blocked.
\<close>

fun pool_run ::
  "(nat \<Rightarrow> 'q \<Rightarrow> ('f + 't list \<times> 'q) option) \<Rightarrow> ('t list \<Rightarrow> 'q \<Rightarrow> 'q) \<Rightarrow>
   't pool_op list \<Rightarrow> 'q \<Rightarrow> ('f + 't list \<times> 'q) option" where
  "pool_run get add [] q = Some (Inr ([], q))"
| "pool_run get add (Take n # ops) q =
     (case get n q of
        None \<Rightarrow> None
      | Some (Inl f) \<Rightarrow> Some (Inl f)
      | Some (Inr (ts, q')) \<Rightarrow>
          (case pool_run get add ops q' of
             Some (Inr (us, q'')) \<Rightarrow> Some (Inr (ts @ us, q''))
           | r \<Rightarrow> r))"
| "pool_run get add (Return ts # ops) q = pool_run get add ops (add ts q)"

fun returned :: "'t pool_op list \<Rightarrow> 't multiset" where
  "returned [] = {#}"
| "returned (Take n # ops) = returned ops"
| "returned (Return ts # ops) = mset ts + returned ops"

fun only_takes :: "'t pool_op list \<Rightarrow> bool" where
  "only_takes [] = True"
| "only_takes (Take n # ops) = only_takes ops"
| "only_takes (Return ts # ops) = False"

section \<open>The contract\<close>

locale task_pool =
  fixes get :: "nat \<Rightarrow> 'q \<Rightarrow> ('f + 't list \<times> 'q) option"
    and add :: "'t list \<Rightarrow> 'q \<Rightarrow> 'q"
    and prio :: "'q \<Rightarrow> 't list"
    and regular :: "'q \<Rightarrow> 't list"
    and inv :: "'q \<Rightarrow> bool"
  assumes get_blocks: "inv q \<Longrightarrow> get n q = None \<Longrightarrow> prio q @ regular q = []"
    and get_no_fault: "inv q \<Longrightarrow> get n q \<noteq> Some (Inl f)"
    and get_result: "inv q \<Longrightarrow> get n q = Some (Inr (ts, q')) \<Longrightarrow> ts = take n (prio q @ regular q)"
    and get_prio: "inv q \<Longrightarrow> get n q = Some (Inr (ts, q')) \<Longrightarrow> prio q' = drop n (prio q)"
    and get_rest: "inv q \<Longrightarrow> get n q = Some (Inr (ts, q')) \<Longrightarrow>
      prio q' @ regular q' = drop n (prio q @ regular q)"
    and get_inv: "inv q \<Longrightarrow> get n q = Some (Inr (ts, q')) \<Longrightarrow> inv q'"
    and add_prio: "inv q \<Longrightarrow> prio (add ts q) = prio q @ ts"
    and add_regular: "inv q \<Longrightarrow> regular (add ts q) = regular q"
    and add_inv: "inv q \<Longrightarrow> inv (add ts q)"
begin

lemmas get_laws = get_result get_prio get_rest get_inv
lemmas add_laws = add_prio add_regular add_inv

lemma get_split:
  "inv q \<Longrightarrow> get n q = Some (Inr (ts, q')) \<Longrightarrow> ts @ (prio q' @ regular q') = prio q @ regular q"
  by (metis append_take_drop_id get_rest get_result)

lemma get_max: "inv q \<Longrightarrow> get n q = Some (Inr (ts, q')) \<Longrightarrow> length ts \<le> n"
  using get_result [of q n ts q'] by simp

lemma get_nonempty:
  assumes "inv q" and "prio q @ regular q \<noteq> []" and "0 < n"
  shows "\<exists>ts q'. get n q = Some (Inr (ts, q')) \<and> ts \<noteq> []"
proof (cases "get n q")
  case None
  with assms get_blocks show ?thesis by blast
next
  case (Some r)
  with assms(1) get_no_fault obtain ts q' where "get n q = Some (Inr (ts, q'))"
    by (cases r) fastforce+
  with assms get_result [of q n ts q'] show ?thesis by auto
qed

text \<open>No task is lost and none is made up, whatever the order of the calls.\<close>

lemma run_conserves:
  "inv q \<Longrightarrow> pool_run get add ops q = Some (Inr (outs, q')) \<Longrightarrow>
   inv q' \<and> mset outs + mset (prio q' @ regular q') = mset (prio q @ regular q) + returned ops"
proof (induction ops arbitrary: q outs)
  case Nil
  then show ?case by simp
next
  case (Cons op ops)
  show ?case
  proof (cases op)
    case (Take n)
    with Cons.prems(2) obtain ts q1 us where get: "get n q = Some (Inr (ts, q1))"
      and run: "pool_run get add ops q1 = Some (Inr (us, q'))" and outs: "outs = ts @ us"
      by (auto split: option.splits sum.splits prod.splits)
    from Cons.IH [OF get_inv [OF Cons.prems(1) get] run]
    have "inv q'" "mset us + mset (prio q' @ regular q') = mset (prio q1 @ regular q1) + returned ops"
      by auto
    moreover have "mset ts + mset (prio q1 @ regular q1) = mset (prio q @ regular q)"
      using get_split [OF Cons.prems(1) get] by (metis mset_append)
    ultimately show ?thesis
      unfolding outs Take returned.simps mset_append
      by (metis (no_types, lifting) add.assoc)
  next
    case (Return ts)
    with Cons.prems have "pool_run get add ops (add ts q) = Some (Inr (outs, q'))" by simp
    from Cons.IH [OF add_inv [OF Cons.prems(1)] this] Cons.prems(1) Return
    show ?thesis by (simp add: add_laws ac_simps)
  qed
qed

text \<open>Without returned tasks the calls hand the tasks out in the order of the queue.\<close>

lemma run_in_order:
  "inv q \<Longrightarrow> only_takes ops \<Longrightarrow> pool_run get add ops q = Some (Inr (outs, q')) \<Longrightarrow>
   outs @ (prio q' @ regular q') = prio q @ regular q"
proof (induction ops arbitrary: q outs)
  case Nil
  then show ?case by simp
next
  case (Cons op ops)
  then obtain n where op: "op = Take n" by (cases op) auto
  with Cons.prems(3) obtain ts q1 us where get: "get n q = Some (Inr (ts, q1))"
    and run: "pool_run get add ops q1 = Some (Inr (us, q'))" and outs: "outs = ts @ us"
    by (auto split: option.splits sum.splits prod.splits)
  have "us @ (prio q' @ regular q') = prio q1 @ regular q1"
    using Cons.IH [OF get_inv [OF Cons.prems(1) get] _ run] Cons.prems(2) op by simp
  with get_split [OF Cons.prems(1) get] show ?case
    by (simp only: outs append_assoc)
qed

end

end
