(* ===== verification/Job_Queue.thy ===== *)
theory Job_Queue
  imports Server_Job Task_Pool
begin

text \<open>
  The server's job queue (\<open>include/server/jobqueue.hpp\<close>, \<open>src/server/jobqueue.cpp\<close>): a queue of
  single tasks that have priority, a queue of job ids, the table of jobs, and the ids of the jobs
  that finished since the last status report. Each operation is one critical section of the C++
  class, so it is one function from state to state. \<open>pending\<close> is the abstract view of the queue: the
  tasks that later calls of \<open>getJobs\<close> will hand out, in order.
\<close>

named_theorems queue_simps

section \<open>State\<close>

record JobStatus =
  st_job_id :: u32
  st_frames_rendered :: u32
  st_frames_total :: u32

record JobQueue =
  task_queue :: "Task list"
  job_queue :: "u32 list"
  finished_jobs :: "u32 list"
  job_offset :: u32
  jobs :: "u32 \<rightharpoonup> Job"

text \<open>
  Undefined behaviour and self-deadlock are values. \<open>NullDeref\<close>: \<open>jobs[id]\<close> of an unknown id
  inserts and returns a null pointer, which the code then dereferences.
\<close>

datatype fault = NullDeref | SelfDeadlock

section \<open>Operations\<close>

definition JobQueue_new :: JobQueue where
  "JobQueue_new =
     \<lparr>task_queue = [], job_queue = [], finished_jobs = [], job_offset = 0, jobs = Map.empty\<rparr>"

definition addJob :: "bytes \<Rightarrow> u32 \<Rightarrow> u32 \<Rightarrow> u32 \<Rightarrow> u32 \<Rightarrow> JobQueue \<Rightarrow> u32 \<times> JobQueue" where
  "addJob shader frames fps width height q =
     (let job_id = job_offset q
      in (job_id,
          q\<lparr>job_offset := job_offset q + 1,
            jobs := (jobs q)(job_id \<mapsto> Job_new shader frames fps width height),
            job_queue := job_queue q @ [job_id]\<rparr>))"

definition addTasks :: "Task list \<Rightarrow> JobQueue \<Rightarrow> JobQueue" where
  "addTasks tasks q = q\<lparr>task_queue := task_queue q @ tasks\<rparr>"

text \<open>
  \<open>getJobs\<close>: the first loop empties the priority queue, the second takes frames from the job at the
  head of the queue and pops the job when it has no more. The value \<open>0\<close> passed to \<open>getNextTask\<close>
  stands for the uninitialised member, which is overwritten at once.
\<close>

function takeTasks :: "nat \<Rightarrow> Task list \<Rightarrow> Task list \<Rightarrow> Task list \<times> Task list" where
  "takeTasks max_jobs results tasks =
     (if tasks \<noteq> [] \<and> length results < max_jobs
      then takeTasks max_jobs (results @ [hd tasks]) (tl tasks)
      else (results, tasks))"
  by pat_completeness auto
termination
  by (relation "measure (\<lambda>(m, res, ts). length ts)") auto

function takeFrames :: "nat \<Rightarrow> u32 \<Rightarrow> Task list \<Rightarrow> Job \<Rightarrow> Task list \<times> Job" where
  "takeFrames max_jobs job_id results front_job =
     (if hasTasks front_job \<and> length results < max_jobs
      then (let (next_job, front_job') = getNextTask front_job 0
            in takeFrames max_jobs job_id (results @ [next_job\<lparr>task_job := job_id\<rparr>]) front_job')
      else (results, front_job))"
  by pat_completeness auto
termination
  by (relation "measure (\<lambda>(m, i, res, j). m - length res)") auto

declare takeTasks.simps [simp del]
declare takeFrames.simps [simp del]

lemma takeFrames_full:
  "hasTasks (snd (takeFrames m i res j)) \<Longrightarrow> m \<le> length (fst (takeFrames m i res j))"
proof (induction m i res j rule: takeFrames.induct)
  case (1 m i res j)
  then show ?case
    by (auto simp: takeFrames.simps [of m i res j] split: prod.splits if_splits)
qed

function takeJobs :: "nat \<Rightarrow> Task list \<Rightarrow> JobQueue \<Rightarrow> fault + Task list \<times> JobQueue" where
  "takeJobs max_jobs results q =
     (if job_queue q \<noteq> [] \<and> length results < max_jobs
      then (let job_id = hd (job_queue q)
            in case jobs q job_id of
                 None \<Rightarrow> Inl NullDeref
               | Some front_job \<Rightarrow>
                   (let (results', front_job') = takeFrames max_jobs job_id results front_job;
                        q' = q\<lparr>jobs := (jobs q)(job_id \<mapsto> front_job')\<rparr>
                    in takeJobs max_jobs results'
                         (if \<not> hasTasks front_job' then q'\<lparr>job_queue := tl (job_queue q')\<rparr>
                          else q')))
      else Inr (results, q))"
  by pat_completeness auto
termination
proof (relation "measures [\<lambda>(m, res, q). length (job_queue q), \<lambda>(m, res, q). m - length res]", goal_cases)
  case 1
  show ?case by simp
next
  case (2 m res q i j p res' j' q')
  show ?case
  proof (cases "hasTasks j'")
    case True
    have "takeFrames m i res j = (res', j')" using 2 by simp
    with True have "m \<le> length res'"
      using takeFrames_full [of m i res j] by simp
    with 2 True show ?thesis by simp
  next
    case False
    with 2 show ?thesis by simp
  qed
qed

declare takeJobs.simps [simp del]

text \<open>\<open>None\<close>: the wait for a job or a task blocks.\<close>

definition getJobs :: "nat \<Rightarrow> JobQueue \<Rightarrow> (fault + Task list \<times> JobQueue) option" where
  "getJobs max_jobs q =
     (if job_queue q = [] \<and> task_queue q = [] then None
      else Some (let (results, rest) = takeTasks max_jobs [] (task_queue q)
                 in takeJobs max_jobs results (q\<lparr>task_queue := rest\<rparr>)))"

definition findJob :: "u32 \<Rightarrow> JobQueue \<Rightarrow> Job option" where
  "findJob job_id q = jobs q job_id"

definition finishJob :: "u32 \<Rightarrow> JobQueue \<Rightarrow> JobQueue" where
  "finishJob job_id q =
     (case jobs q job_id of
        None \<Rightarrow> q
      | Some _ \<Rightarrow> q\<lparr>jobs := (jobs q)(job_id := None), finished_jobs := finished_jobs q @ [job_id]\<rparr>)"

text \<open>
  \<open>getStatus\<close> walks an \<open>unordered_map\<close>, whose order the library leaves open: the order is an
  argument, an enumeration of the keys.
\<close>

definition status_of :: "u32 \<Rightarrow> Job \<Rightarrow> JobStatus" where
  "status_of i j = \<lparr>st_job_id = i, st_frames_rendered = getRenderedFrames j,
                    st_frames_total = getTotalFrames j\<rparr>"

definition finished_status :: "u32 \<Rightarrow> JobStatus" where
  "finished_status i = \<lparr>st_job_id = i, st_frames_rendered = 0, st_frames_total = 0\<rparr>"

definition getStatus :: "u32 list \<Rightarrow> JobQueue \<Rightarrow> JobStatus list \<times> JobQueue" where
  "getStatus order q =
     (map finished_status (finished_jobs q) @
        List.map_filter (\<lambda>i. map_option (status_of i) (jobs q i)) order,
      q\<lparr>finished_jobs := []\<rparr>)"

section \<open>The abstract queue: tasks still to hand out, in order\<close>

definition job_tasks :: "JobQueue \<Rightarrow> u32 \<Rightarrow> Task list" where
  "job_tasks q i = (case jobs q i of None \<Rightarrow> [] | Some j \<Rightarrow> remaining_tasks i j)"

definition regular :: "JobQueue \<Rightarrow> Task list" where
  "regular q = concat (map (job_tasks q) (job_queue q))"

definition pending :: "JobQueue \<Rightarrow> Task list" where
  "pending q = task_queue q @ regular q"

definition queue_inv :: "JobQueue \<Rightarrow> bool" where
  "queue_inv q \<longleftrightarrow>
     distinct (job_queue q) \<and> set (job_queue q) \<subseteq> dom (jobs q) \<and>
     (\<forall>i j. jobs q i = Some j \<longrightarrow> job_ok j \<and> (i \<notin> set (job_queue q) \<longrightarrow> \<not> hasTasks j))"

lemma job_tasks_update [queue_simps]:
  "job_tasks (q\<lparr>job_queue := js, jobs := (jobs q)(i \<mapsto> j)\<rparr>) k =
     (if k = i then remaining_tasks i j else job_tasks q k)"
  "job_tasks (q\<lparr>jobs := (jobs q)(i \<mapsto> j), job_queue := js\<rparr>) k =
     (if k = i then remaining_tasks i j else job_tasks q k)"
  "job_tasks (q\<lparr>jobs := (jobs q)(i \<mapsto> j)\<rparr>) k =
     (if k = i then remaining_tasks i j else job_tasks q k)"
  by (simp_all add: job_tasks_def)

lemma job_tasks_queues [simp]:
  "job_tasks (q\<lparr>task_queue := ts\<rparr>) = job_tasks q"
  "job_tasks (q\<lparr>finished_jobs := fs\<rparr>) = job_tasks q"
  by (simp_all add: job_tasks_def fun_eq_iff)

lemma regular_queues [simp]:
  "regular (q\<lparr>task_queue := ts\<rparr>) = regular q"
  "regular (q\<lparr>finished_jobs := fs\<rparr>) = regular q"
  by (simp_all add: regular_def)

lemma queue_inv_queues [simp]:
  "queue_inv (q\<lparr>task_queue := ts\<rparr>) = queue_inv q"
  "queue_inv (q\<lparr>finished_jobs := fs\<rparr>) = queue_inv q"
  by (simp_all add: queue_inv_def)

lemma queue_invD:
  assumes "queue_inv q" and "job_queue q = i # js"
  obtains j where "jobs q i = Some j" "job_ok j" "i \<notin> set js" "distinct js"
    "set js \<subseteq> dom (jobs q)" "regular q = remaining_tasks i j @ concat (map (job_tasks q) js)"
proof -
  from assms obtain j where j: "jobs q i = Some j" by (auto simp: queue_inv_def)
  with assms show thesis
    by (intro that [of j]) (auto simp: queue_inv_def regular_def job_tasks_def)
qed

section \<open>The loops of \<open>getJobs\<close>\<close>

lemma takeTasks_eq:
  "takeTasks m res ts = (res @ take (m - length res) ts, drop (m - length res) ts)"
proof (induction m res ts rule: takeTasks.induct)
  case (1 m res ts)
  show ?case
  proof (cases "ts \<noteq> [] \<and> length res < m")
    case True
    then obtain t ts' where ts: "ts = t # ts'" by (cases ts) auto
    from True have "m - length res = Suc (m - Suc (length res))" by linarith
    with True ts 1 show ?thesis by (simp add: takeTasks.simps [of m res "t # ts'"])
  next
    case False
    then show ?thesis by (auto simp: takeTasks.simps [of m res ts])
  qed
qed

lemma takeFrames_step:
  "hasTasks j \<and> length res < m \<Longrightarrow>
   takeFrames m i res j =
     takeFrames m i (res @ [(fst (getNextTask j 0))\<lparr>task_job := i\<rparr>]) (snd (getNextTask j 0))"
  by (simp add: takeFrames.simps [of m i res j] case_prod_beta)

lemma takeFrames_stop:
  "\<not> (hasTasks j \<and> length res < m) \<Longrightarrow> takeFrames m i res j = (res, j)"
  by (auto simp: takeFrames.simps [of m i res j])

lemma takeFrames_eq:
  shows "fst (takeFrames m i res j) = res @ take (m - length res) (remaining_tasks i j)"
    and "remaining_tasks i (snd (takeFrames m i res j)) =
      drop (m - length res) (remaining_tasks i j)"
proof (induction m i res j rule: takeFrames.induct)
  case (1 m i res j)
  {
    case 1
    show ?case
    proof (cases "hasTasks j \<and> length res < m")
      case True
      then have "m - length res = Suc (m - Suc (length res))" by linarith
      with True "1.IH"(1) [of "getNextTask j 0" "fst (getNextTask j 0)" "snd (getNextTask j 0)"]
      show ?thesis
        by (simp add: takeFrames_step getNextTask_remaining [symmetric, of j i 0])
    next
      case False
      then show ?thesis by (auto simp: takeFrames_stop)
    qed
  next
    case 2
    show ?case
    proof (cases "hasTasks j \<and> length res < m")
      case True
      then have "m - length res = Suc (m - Suc (length res))" by linarith
      with True "1.IH"(2) [of "getNextTask j 0" "fst (getNextTask j 0)" "snd (getNextTask j 0)"]
      show ?thesis
        by (simp add: takeFrames_step getNextTask_remaining [symmetric, of j i 0])
    next
      case False
      then show ?thesis by (auto simp: takeFrames_stop)
    qed
  }
qed

lemma takeFrames_job:
  shows "job_ok j \<Longrightarrow> job_ok (snd (takeFrames m i res j))"
    and "frames_rendered (snd (takeFrames m i res j)) = frames_rendered j"
    and "total_frames (snd (takeFrames m i res j)) = total_frames j"
proof -
  have "(job_ok j \<longrightarrow> job_ok (snd (takeFrames m i res j))) \<and>
      frames_rendered (snd (takeFrames m i res j)) = frames_rendered j \<and>
      total_frames (snd (takeFrames m i res j)) = total_frames j"
  proof (induction m i res j rule: takeFrames.induct)
    case (1 m i res j)
    show ?case
    proof (cases "hasTasks j \<and> length res < m")
      case True
      with "1.IH" [of "getNextTask j 0" "fst (getNextTask j 0)" "snd (getNextTask j 0)"]
        getNextTask_job_ok [of j 0]
      show ?thesis by (simp add: takeFrames_step)
    next
      case False
      then show ?thesis by (simp add: takeFrames_stop)
    qed
  qed
  then show "job_ok j \<Longrightarrow> job_ok (snd (takeFrames m i res j))"
    and "frames_rendered (snd (takeFrames m i res j)) = frames_rendered j"
    and "total_frames (snd (takeFrames m i res j)) = total_frames j" by auto
qed

lemma takeJobs_stop:
  "\<not> (job_queue q \<noteq> [] \<and> length res < m) \<Longrightarrow> takeJobs m res q = Inr (res, q)"
  by (auto simp: takeJobs.simps [of m res q])

definition same_progress :: "JobQueue \<Rightarrow> JobQueue \<Rightarrow> bool" where
  "same_progress q q' \<longleftrightarrow>
     finished_jobs q' = finished_jobs q \<and> job_offset q' = job_offset q \<and>
     dom (jobs q') = dom (jobs q) \<and>
     (\<forall>i. map_option frames_rendered (jobs q' i) = map_option frames_rendered (jobs q i)) \<and>
     (\<forall>i. map_option total_frames (jobs q' i) = map_option total_frames (jobs q i))"

lemma same_progress_refl [simp]: "same_progress q q"
  by (simp add: same_progress_def)

lemma same_progress_trans: "same_progress p q \<Longrightarrow> same_progress q r \<Longrightarrow> same_progress p r"
  by (simp add: same_progress_def)

lemma takeJobs_spec:
  "queue_inv q \<Longrightarrow>
   \<exists>q'. takeJobs m res q = Inr (res @ take (m - length res) (regular q), q') \<and>
     regular q' = drop (m - length res) (regular q) \<and> queue_inv q' \<and>
     task_queue q' = task_queue q \<and> same_progress q q'"
proof (induction m res q rule: takeJobs.induct)
  case (1 m res q)
  show ?case
  proof (cases "job_queue q \<noteq> [] \<and> length res < m")
    case False
    then have "take (m - length res) (regular q) = []" "drop (m - length res) (regular q) = regular q"
      by (auto simp: regular_def)
    with False "1.prems" show ?thesis by (simp add: takeJobs_stop)
  next
    case True
    then obtain i js where js: "job_queue q = i # js" by (cases "job_queue q") auto
    with "1.prems" obtain j where j: "jobs q i = Some j" "job_ok j" "i \<notin> set js" "distinct js"
      "set js \<subseteq> dom (jobs q)" "regular q = remaining_tasks i j @ concat (map (job_tasks q) js)"
      by (rule queue_invD)
    define res' where "res' = fst (takeFrames m i res j)"
    define j' where "j' = snd (takeFrames m i res j)"
    define q' where "q' = q\<lparr>jobs := (jobs q)(i \<mapsto> j')\<rparr>"
    define q2 where "q2 = (if \<not> hasTasks j' then q'\<lparr>job_queue := tl (job_queue q')\<rparr> else q')"
    have step: "takeJobs m res q = takeJobs m res' q2"
      using True js j(1)
      by (simp add: takeJobs.simps [of m res q] q2_def q'_def j'_def res'_def case_prod_beta Let_def)
    have res': "res' = res @ take (m - length res) (remaining_tasks i j)"
      and rem': "remaining_tasks i j' = drop (m - length res) (remaining_tasks i j)"
      by (simp_all add: res'_def j'_def takeFrames_eq)
    have j'_ok: "job_ok j'" and fr: "frames_rendered j' = frames_rendered j"
      "total_frames j' = total_frames j"
      using takeFrames_job j(2) by (simp_all add: j'_def)
    have inv2: "queue_inv q2"
      using "1.prems" js j j'_ok by (auto simp: queue_inv_def q2_def q'_def)
    have reg2: "regular q2 = remaining_tasks i j' @ concat (map (job_tasks q) js)"
      using j(3) js by (auto simp: regular_def q2_def q'_def queue_simps map_idI
          intro!: arg_cong [where f = concat] map_cong)
    have prog: "same_progress q q2" and tq: "task_queue q2 = task_queue q"
      using j(1) fr by (auto simp: same_progress_def q2_def q'_def)
    from True have "\<exists>q3. takeJobs m res' q2 = Inr (res' @ take (m - length res') (regular q2), q3) \<and>
        regular q3 = drop (m - length res') (regular q2) \<and> queue_inv q3 \<and>
        task_queue q3 = task_queue q2 \<and> same_progress q2 q3"
      using "1.IH" [OF True refl, of j "takeFrames m i res j" res' j' q'] js j(1) inv2
      by (simp add: res'_def j'_def q'_def q2_def)
    then obtain q3 where q3: "takeJobs m res' q2 = Inr (res' @ take (m - length res') (regular q2), q3)"
      "regular q3 = drop (m - length res') (regular q2)" "queue_inv q3"
      "task_queue q3 = task_queue q2" "same_progress q2 q3" by blast
    have "m - length res' = m - length res - length (remaining_tasks i j)"
      by (simp add: res')
    then have "res' @ take (m - length res') (regular q2) = res @ take (m - length res) (regular q)"
      and "drop (m - length res') (regular q2) = drop (m - length res) (regular q)"
      unfolding reg2 rem' j(6) by (simp_all only: res' take_resume drop_resume append_assoc)
    with q3 prog tq show ?thesis
      by (metis step same_progress_trans)
  qed
qed

text \<open>
  What a call of \<open>getJobs\<close> does, under the invariant: it hands out the first \<open>n\<close> pending tasks, and
  leaves the others pending.
\<close>

lemma getJobs_spec:
  assumes "queue_inv q" and "\<not> (job_queue q = [] \<and> task_queue q = [])"
  shows "\<exists>q'. getJobs n q = Some (Inr (take n (pending q), q')) \<and>
    task_queue q' = drop n (task_queue q) \<and> pending q' = drop n (pending q) \<and>
    queue_inv q' \<and> same_progress q q'"
proof -
  let ?q = "q\<lparr>task_queue := drop n (task_queue q)\<rparr>"
  have prog: "same_progress q ?q" by (simp add: same_progress_def)
  from assms(1) have "queue_inv ?q" by simp
  from takeJobs_spec [OF this, of n "take n (task_queue q)"] obtain q' where
    q': "takeJobs n (take n (task_queue q)) ?q =
          Inr (take n (task_queue q) @ take (n - length (task_queue q)) (regular q), q')"
      "regular q' = drop (n - length (task_queue q)) (regular q)" "queue_inv q'"
      "task_queue q' = drop n (task_queue q)" "same_progress ?q q'"
    by (auto simp: min_def split: if_splits)
  from assms(2) q'(1) have "getJobs n q = Some (Inr (take n (pending q), q'))"
    by (auto simp: getJobs_def takeTasks_eq pending_def)
  moreover have "pending q' = drop n (pending q)"
    using q' by (simp add: pending_def)
  ultimately show ?thesis
    using q' same_progress_trans [OF prog q'(5)] by blast
qed

lemma getJobs_blocks_iff: "getJobs n q = None \<longleftrightarrow> job_queue q = [] \<and> task_queue q = []"
  by (simp add: getJobs_def)

lemma getJobs_result:
  assumes "queue_inv q" and "getJobs n q = Some r"
  obtains q' where "r = Inr (take n (pending q), q')" "task_queue q' = drop n (task_queue q)"
    "pending q' = drop n (pending q)" "queue_inv q'" "same_progress q q'"
proof -
  from assms(2) have "\<not> (job_queue q = [] \<and> task_queue q = [])"
    by (auto simp: getJobs_def)
  from getJobs_spec [OF assms(1) this, of n] assms(2) that show thesis by auto
qed

interpretation jq: task_pool getJobs addTasks task_queue regular queue_inv
proof (unfold_locales, goal_cases)
  case (1 q n)
  then show ?case by (simp add: getJobs_blocks_iff regular_def)
next
  case (2 q n f)
  then show ?case using getJobs_result by blast
next
  case (3 q n ts q')
  then show ?case by (metis getJobs_result pending_def sum.inject(2) prod.inject)
next
  case (4 q n ts q')
  then show ?case by (metis getJobs_result sum.inject(2) prod.inject)
next
  case (5 q n ts q')
  then show ?case by (metis getJobs_result pending_def sum.inject(2) prod.inject)
next
  case (6 q n ts q')
  then show ?case by (metis getJobs_result sum.inject(2) prod.inject)
qed (simp_all add: addTasks_def)

section \<open>The other operations\<close>

definition fresh_offset :: "JobQueue \<Rightarrow> bool" where
  "fresh_offset q \<longleftrightarrow> jobs q (job_offset q) = None"

lemma queue_inv_new [simp]: "queue_inv JobQueue_new"
  by (simp add: queue_inv_def JobQueue_new_def)

lemma pending_new [simp]: "pending JobQueue_new = []"
  by (simp add: pending_def regular_def JobQueue_new_def)

lemma addJob_inv:
  assumes "queue_inv q" and "fresh_offset q"
  shows "queue_inv (snd (addJob s n f w h q))"
proof -
  have "job_offset q \<notin> set (job_queue q)"
    using assms by (auto simp: queue_inv_def fresh_offset_def)
  with assms show ?thesis
    by (auto simp: queue_inv_def addJob_def Let_def)
qed

lemma addJob_pending:
  assumes "queue_inv q" and "fresh_offset q"
  shows "pending (snd (addJob s n f w h q)) =
    pending q @ map (\<lambda>k. Task_new s (of_nat k) f w h (job_offset q)) [0 ..< unat n]"
proof -
  have "job_offset q \<notin> set (job_queue q)"
    using assms by (auto simp: queue_inv_def fresh_offset_def)
  then have "concat (map (job_tasks (snd (addJob s n f w h q))) (job_queue q)) = regular q"
    by (auto simp: regular_def addJob_def Let_def job_tasks_def
        intro!: arg_cong [where f = concat] map_cong)
  then show ?thesis
    by (simp add: pending_def regular_def addJob_def Let_def job_tasks_def remaining_tasks_new)
qed

lemma finishJob_inv:
  "queue_inv q \<Longrightarrow> i \<notin> set (job_queue q) \<Longrightarrow> queue_inv (finishJob i q)"
  by (auto simp: queue_inv_def finishJob_def split: option.splits if_splits)

lemma finishJob_pending:
  "i \<notin> set (job_queue q) \<Longrightarrow> pending (finishJob i q) = pending q"
  by (auto simp: pending_def regular_def finishJob_def job_tasks_def split: option.splits
      intro!: arg_cong [where f = concat] map_cong)

lemma status_ids:
  assumes "set order = dom (jobs q)"
  shows "map st_job_id (fst (getStatus order q)) = finished_jobs q @ order"
proof -
  have "map st_job_id (List.map_filter (\<lambda>i. map_option (status_of i) (jobs q i)) is) = is"
    if "set is \<subseteq> dom (jobs q)" for "is"
    using that by (induction "is") (auto simp: map_filter_def status_of_def)
  with assms show ?thesis
    by (simp add: getStatus_def finished_status_def comp_def)
qed

section \<open>Properties\<close>

text \<open>C6: Under the invariant of the queue, a call of \<open>getJobs\<close> that does not block succeeds and
  returns the first \<open>max_jobs\<close> tasks of the abstract queue (returned tasks first, then the
  remaining frames of the jobs in the order of their submission), leaves exactly the others, keeps
  the invariant, and changes no job's progress.\<close>

theorem getJobs_takes_pending:
  assumes "queue_inv q" and "\<not> (job_queue q = [] \<and> task_queue q = [])"
  shows "\<exists>q'. getJobs max_jobs q = Some (Inr (take max_jobs (pending q), q')) \<and>
    pending q' = drop max_jobs (pending q) \<and> queue_inv q' \<and> same_progress q q'"
  using getJobs_spec [OF assms, of max_jobs] by blast

lemma getJobs_takes_pending_witness:
  "\<exists>q'. getJobs 2 (snd (addJob [1] 3 60 4 4 JobQueue_new)) = Some (Inr
      ([Task_new [1] 0 60 4 4 0, Task_new [1] 1 60 4 4 0], q')) \<and>
    pending q' = [Task_new [1] 2 60 4 4 0]"
proof -
  let ?q = "snd (addJob [1] 3 60 4 4 JobQueue_new)"
  have fresh: "fresh_offset JobQueue_new" by (simp add: fresh_offset_def JobQueue_new_def)
  have "pending ?q = [Task_new [1] 0 60 4 4 0, Task_new [1] 1 60 4 4 0, Task_new [1] 2 60 4 4 0]"
    by (subst addJob_pending [OF queue_inv_new fresh])
      (simp add: upt_rec [of 0] upt_rec [of "Suc 0"] upt_rec [of "Suc (Suc 0)"] JobQueue_new_def pending_def regular_def)
  moreover have "queue_inv ?q" by (rule addJob_inv [OF queue_inv_new fresh])
  moreover have "job_queue ?q \<noteq> []" by (simp add: addJob_def Let_def)
  ultimately show ?thesis using getJobs_takes_pending [of ?q 2] by auto
qed

text \<open>C7: Whatever calls of \<open>getJobs\<close> and \<open>addTasks\<close> are made, and in whatever order, no task is lost
  and none is made up: what was handed out and what is left are together what was there and what
  was handed back.\<close>

theorem queue_runs_conserve:
  assumes "queue_inv q" and "pool_run getJobs addTasks ops q = Some (Inr (outs, q'))"
  shows "mset outs + mset (pending q') = mset (pending q) + returned ops"
  using jq.run_conserves [OF assms] by (simp add: pending_def)

lemma queue_runs_conserve_witness:
  "\<exists>outs q'. pool_run getJobs addTasks [Return [Task_new [1] 7 60 4 4 0], Take 5] JobQueue_new =
      Some (Inr (outs, q')) \<and>
    mset outs + mset (pending q') = {#Task_new [1] 7 60 4 4 0#}"
proof -
  have run: "pool_run getJobs addTasks [Return [Task_new [1] 7 60 4 4 0], Take 5] JobQueue_new =
      Some (Inr ([Task_new [1] 7 60 4 4 0], JobQueue_new))"
    by (simp add: addTasks_def getJobs_def takeTasks_eq JobQueue_new_def takeJobs_stop)
  from queue_runs_conserve [OF queue_inv_new run] run show ?thesis by simp
qed

text \<open>C8: A submitted job is handed out frame by frame, in order, each frame once, after everything
  that was in the queue before, however the calls of \<open>getJobs\<close> divide it.\<close>

theorem submitted_frames_in_order:
  assumes "queue_inv q" and "fresh_offset q" and "only_takes ops"
    and "pool_run getJobs addTasks ops (snd (addJob shader frames fps width height q)) =
      Some (Inr (outs, q'))"
  shows "outs @ pending q' = pending q @
    map (\<lambda>k. Task_new shader (of_nat k) fps width height (job_offset q)) [0 ..< unat frames]"
  using jq.run_in_order [OF addJob_inv [OF assms(1,2)] assms(3,4)] addJob_pending [OF assms(1,2)]
  by (simp add: pending_def)

lemma submitted_frames_in_order_witness:
  "\<exists>outs q'. pool_run getJobs addTasks [Take 1, Take 1] (snd (addJob [1] 2 60 4 4 JobQueue_new)) =
      Some (Inr (outs, q')) \<and>
    outs @ pending q' = [Task_new [1] 0 60 4 4 0, Task_new [1] 1 60 4 4 0]"
proof -
  have fresh: "fresh_offset JobQueue_new" by (simp add: fresh_offset_def JobQueue_new_def)
  obtain outs q' where run: "pool_run getJobs addTasks [Take 1, Take 1]
      (snd (addJob [1] 2 60 4 4 JobQueue_new)) = Some (Inr (outs, q'))"
    by (simp add: getJobs_def takeTasks_eq JobQueue_new_def addJob_def Let_def takeJobs.simps
        takeFrames.simps hasTasks_def Job_new_def getNextTask_def Task_new_def)
  have "only_takes [Take 1, Take 1 :: Task pool_op]" by simp
  from submitted_frames_in_order [OF queue_inv_new fresh this run]
  have "outs @ pending q' = [Task_new [1] 0 60 4 4 0, Task_new [1] 1 60 4 4 0]"
    by (simp add: upt_rec [of 0] upt_rec [of "Suc 0"] JobQueue_new_def pending_def regular_def)
  with run show ?thesis by blast
qed

text \<open>A job that finishes is in the next status report, once, as zero of zero, and as nothing
  else; in the report after that it no longer occurs.\<close>

theorem finished_job_reported_once:
  assumes "jobs q i = Some job" and "i \<notin> set (finished_jobs q)"
    and "distinct order" and "set order = dom (jobs (finishJob i q))" and "set order' = set order"
  shows "filter (\<lambda>st. st_job_id st = i) (fst (getStatus order (finishJob i q))) = [finished_status i] \<and>
    filter (\<lambda>st. st_job_id st = i)
      (fst (getStatus order' (snd (getStatus order (finishJob i q))))) = []"
proof -
  let ?q = "finishJob i q" and ?q' = "snd (getStatus order (finishJob i q))"
  have fin: "finished_jobs ?q = finished_jobs q @ [i]" and no: "i \<notin> set order"
    using assms(1,4) by (auto simp: finishJob_def)
  have none: "filter (\<lambda>st. st_job_id st = i)
      (List.map_filter (\<lambda>i. map_option (status_of i) (jobs ?q i)) order) = []"
    using no by (auto simp: filter_empty_conv map_filter_def status_of_def)
  have "filter (\<lambda>st. st_job_id st = i) (map finished_status (finished_jobs q)) = []"
    using assms(2) by (auto simp: filter_empty_conv finished_status_def)
  with none have "filter (\<lambda>st. st_job_id st = i) (fst (getStatus order ?q)) = [finished_status i]"
    by (simp add: getStatus_def fin) (simp add: finished_status_def)
  moreover have "jobs ?q' = jobs ?q" "finished_jobs ?q' = []" by (simp_all add: getStatus_def)
  with status_ids [of order' ?q'] assms(4,5) no
  have "i \<notin> st_job_id ` set (fst (getStatus order' ?q'))"
    by (metis append_Nil set_map)
  then have "filter (\<lambda>st. st_job_id st = i) (fst (getStatus order' ?q')) = []"
    by (auto simp: filter_empty_conv)
  ultimately show ?thesis by simp
qed

lemma finished_job_reported_once_witness:
  "fst (getStatus [] (finishJob 0 (snd (addJob [1] 2 60 4 4 JobQueue_new)))) = [finished_status 0] \<and>
   filter (\<lambda>st. st_job_id st = 0) (fst (getStatus [] (finishJob 0 (snd (addJob [1] 2 60 4 4 JobQueue_new))))) =
     [finished_status 0]"
  using finished_job_reported_once [of "snd (addJob [1] 2 60 4 4 JobQueue_new)" 0
      "Job_new [1] 2 60 4 4" "[]" "[]"]
  by (simp add: addJob_def Let_def JobQueue_new_def finishJob_def getStatus_def map_filter_def
      finished_status_def)

end
