(* ===== verification/Client_Handler.thy ===== *)
theory Client_Handler
  imports Tcp_Stream Job_Queue
begin

text \<open>
  The server's end of one client connection (\<open>include/server/clienthandler.hpp\<close>,
  \<open>src/server/clienthandler.cpp\<close>): its state, the grouping of assigned tasks into one request per
  job, the layout of the ISSUE_JOB packet, and the operations that concern the handler alone. The
  threads that also touch the client manager are in the theory of the manager.
\<close>

named_theorems handler_simps

section \<open>Constants\<close>

definition MIN_JOB_CAPABILITY :: nat where
  "MIN_JOB_CAPABILITY = 4"

definition BASE_JOB_CAPABILITY :: nat where
  "BASE_JOB_CAPABILITY = MIN_JOB_CAPABILITY"

definition MAX_JOB_CAPABILITY :: nat where
  "MAX_JOB_CAPABILITY = 2048"

text \<open>Two seconds, in microseconds.\<close>

definition ESTIMATED_JOB_TIMEOUT :: nat where
  "ESTIMATED_JOB_TIMEOUT = 2 * 1000000"

section \<open>State\<close>

text \<open>\<open>task_mutex\<close> says whether the running thread holds the mutex of that name.\<close>

record ClientHandler =
  ch_socket :: socket
  ch_client_id :: u32
  active_tasks :: "Task list"
  rendered_frames :: nat
  job_capability :: nat
  ch_active :: bool
  keepalive :: bool
  new_jobs :: bool
  has_received :: bool
  task_mutex :: bool

definition ClientHandler_new :: "socket \<Rightarrow> u32 \<Rightarrow> ClientHandler" where
  "ClientHandler_new sock client_id =
     \<lparr>ch_socket = sock, ch_client_id = client_id, active_tasks = [], rendered_frames = 0,
      job_capability = BASE_JOB_CAPABILITY, ch_active = False, keepalive = False,
      new_jobs = False, has_received = False, task_mutex = False\<rparr>"

definition ClientHandler_run :: "ClientHandler \<Rightarrow> ClientHandler" where
  "ClientHandler_run h = h\<lparr>ch_active := True\<rparr>"

section \<open>Operations on the handler alone\<close>

definition getJobCapability :: "ClientHandler \<Rightarrow> nat" where
  "getJobCapability h = job_capability h"

definition submitTasks :: "Task list \<Rightarrow> ClientHandler \<Rightarrow> bool \<times> ClientHandler" where
  "submitTasks tasks h =
     (if \<not> ch_active h then (False, h)
      else (True, h\<lparr>active_tasks := tasks, new_jobs := True\<rparr>))"

text \<open>\<open>ClientHandler::getJobs\<close> takes the task mutex, which is not recursive.\<close>

definition handlerJobs :: "ClientHandler \<Rightarrow> fault + Task list" where
  "handlerJobs h = (if task_mutex h then Inl SelfDeadlock else Inr (active_tasks h))"

text \<open>
  \<open>issueRequest\<close> turns an exception of the socket into \<open>false\<close>. The \<open>unique_lock\<close> in it is a
  temporary: it is released at the end of its own statement, before anything is sent.
\<close>

definition issueRequest :: "('ad, 's) posix \<Rightarrow> socket \<Rightarrow> bytes \<Rightarrow> ('s, net_error, bool) act" where
  "issueRequest px sock buffer s =
     (case sendFully px sock buffer s of
        None \<Rightarrow> None
      | Some (r, s') \<Rightarrow> Some (Inr (case r of Inl _ \<Rightarrow> False | Inr _ \<Rightarrow> True), s'))"

text \<open>The capability that a FINISH_JOB packet reports: frames per two seconds, clamped.\<close>

definition finish_capability :: "u64 \<Rightarrow> nat" where
  "finish_capability time_per_frame =
     (let frames = (if time_per_frame = 0 then MAX_JOB_CAPABILITY
                    else ESTIMATED_JOB_TIMEOUT div unat time_per_frame)
      in if frames > MAX_JOB_CAPABILITY then MAX_JOB_CAPABILITY
         else if frames < MIN_JOB_CAPABILITY then MIN_JOB_CAPABILITY
         else frames)"

section \<open>One request per job\<close>

record JobRequest =
  rq_job_id :: u32
  rq_fps :: u32
  rq_image_width :: u32
  rq_image_height :: u32
  rq_shader :: bytes
  rq_frames :: "u32 list"

text \<open>
  \<open>std::map\<close> keeps its entries in the order of the keys: an association list in that order.
  \<open>std_map_at\<close> is \<open>m[k]\<close> followed by an update of the entry, which did or did not exist before.
\<close>

fun std_map_at :: "'k::linorder \<Rightarrow> ('v option \<Rightarrow> 'v) \<Rightarrow> ('k \<times> 'v) list \<Rightarrow> ('k \<times> 'v) list" where
  "std_map_at k f [] = [(k, f None)]"
| "std_map_at k f ((k', v) # m) =
     (if k < k' then (k, f None) # (k', v) # m
      else if k = k' then (k', f (Some v)) # m
      else (k', v) # std_map_at k f m)"

definition request_task :: "Task \<Rightarrow> JobRequest option \<Rightarrow> JobRequest" where
  "request_task t existing =
     (let r = (case existing of
                 None \<Rightarrow> \<lparr>rq_job_id = task_job t, rq_fps = task_fps t,
                         rq_image_width = task_width t, rq_image_height = task_height t,
                         rq_shader = task_shader t, rq_frames = []\<rparr>
               | Some r \<Rightarrow> r)
      in r\<lparr>rq_frames := rq_frames r @ [task_frame t]\<rparr>)"

fun group_tasks :: "Task list \<Rightarrow> (u32 \<times> JobRequest) list \<Rightarrow> (u32 \<times> JobRequest) list" where
  "group_tasks [] requests = requests"
| "group_tasks (t # ts) requests =
     group_tasks ts (std_map_at (task_job t) (request_task t) requests)"

definition job_requests :: "Task list \<Rightarrow> JobRequest list" where
  "job_requests tasks = map snd (group_tasks tasks [])"

section \<open>The ISSUE_JOB packet\<close>

text \<open>
  The offsets of the copies are those of the code; \<open>frame_size\<close> is a \<open>uint32_t\<close>, so both the size of
  the packet and the loop over the frames see the number of frames modulo \<open>2 ^ 32\<close>.
\<close>

definition frame_copies :: "nat \<Rightarrow> u32 list \<Rightarrow> (nat \<times> bytes) list" where
  "frame_copies packet_offset frames =
     map (\<lambda>i. (packet_offset + 4 * i, u32_bytes (frames ! i))) [0 ..< length frames]"

definition issue_packet :: "(nat \<Rightarrow> byte) \<Rightarrow> JobRequest \<Rightarrow> bytes option" where
  "issue_packet junk r =
     (let shader_size = length (rq_shader r);
          frame_size = (of_nat (length (rq_frames r)) :: u32);
          packet_size = 1 + 5 * 4 + 8 + shader_size + unat frame_size * 4;
          packet_offset = 1 + 4 * 4 + 8 + shader_size
      in memcpys
           ([(0, [ServerPacketID_byte SrvIssueJob]),
             (1, u32_bytes (rq_job_id r)),
             (1 + 4, u32_bytes (rq_fps r)),
             (1 + 2 * 4, u32_bytes (rq_image_width r)),
             (1 + 3 * 4, u32_bytes (rq_image_height r)),
             (1 + 4 * 4, u64_bytes (of_nat shader_size)),
             (1 + 4 * 4 + 8, rq_shader r),
             (packet_offset, u32_bytes frame_size)] @
            frame_copies (packet_offset + 4) (take (unat frame_size) (rq_frames r)))
           (new_array junk packet_size))"

section \<open>Lemmas: capability\<close>

lemmas capability_defs =
  MIN_JOB_CAPABILITY_def MAX_JOB_CAPABILITY_def BASE_JOB_CAPABILITY_def ESTIMATED_JOB_TIMEOUT_def

lemma finish_capability_bounds:
  "MIN_JOB_CAPABILITY \<le> finish_capability t \<and> finish_capability t \<le> MAX_JOB_CAPABILITY"
  by (simp add: finish_capability_def capability_defs Let_def)

section \<open>Lemmas: grouping\<close>

abbreviation map_sorted :: "('k::linorder \<times> 'v) list \<Rightarrow> bool" where
  "map_sorted m \<equiv> sorted_wrt (<) (map fst m)"

lemma std_map_at_keys: "fst ` set (std_map_at k f m) = insert k (fst ` set m)"
  by (induction k f m rule: std_map_at.induct) auto

lemma std_map_at_sorted: "map_sorted m \<Longrightarrow> map_sorted (std_map_at k f m)"
proof (induction k f m rule: std_map_at.induct)
  case (1 k f)
  then show ?case by simp
next
  case (2 k f k' v m)
  have keys: "x \<in> fst ` set (std_map_at k f m) \<longleftrightarrow> x = k \<or> x \<in> fst ` set m" for x
    by (simp add: std_map_at_keys)
  from 2 keys show ?case
    by (auto simp: image_iff) (metis fst_conv not_less_iff_gr_or_eq)+
qed

lemma std_map_at_lookup:
  "map_sorted m \<Longrightarrow> map_of (std_map_at k f m) = (map_of m)(k \<mapsto> f (map_of m k))"
proof (induction k f m rule: std_map_at.induct)
  case (1 k f)
  then show ?case by simp
next
  case (2 k f k' v m)
  have "map_of m k = None" if "k < k'"
    using "2.prems" that by (auto simp: map_of_eq_None_iff)
  with 2 show ?case
    by (auto simp: fun_eq_iff)
qed

lemma group_tasks_sorted: "map_sorted m \<Longrightarrow> map_sorted (group_tasks ts m)"
  by (induction ts m rule: group_tasks.induct) (auto simp: std_map_at_sorted)

definition tasks_of :: "u32 \<Rightarrow> Task list \<Rightarrow> Task list" where
  "tasks_of i ts = filter (\<lambda>t. task_job t = i) ts"

fun request_tasks :: "Task list \<Rightarrow> JobRequest option \<Rightarrow> JobRequest option" where
  "request_tasks [] r = r"
| "request_tasks (t # ts) r = request_tasks ts (Some (request_task t r))"

lemma group_tasks_lookup:
  "map_sorted m \<Longrightarrow> map_of (group_tasks ts m) i = request_tasks (tasks_of i ts) (map_of m i)"
  by (induction ts m rule: group_tasks.induct)
    (auto simp: tasks_of_def std_map_at_sorted std_map_at_lookup)

lemma request_tasks_Some:
  "request_tasks ts (Some r) = Some (r\<lparr>rq_frames := rq_frames r @ map task_frame ts\<rparr>)"
  by (induction ts arbitrary: r) (auto simp: request_task_def)

definition request_of :: "u32 \<Rightarrow> Task list \<Rightarrow> JobRequest" where
  "request_of i mine =
     \<lparr>rq_job_id = i, rq_fps = task_fps (hd mine), rq_image_width = task_width (hd mine),
      rq_image_height = task_height (hd mine), rq_shader = task_shader (hd mine),
      rq_frames = map task_frame mine\<rparr>"

lemma request_tasks_None:
  "tasks_of i ts = mine \<Longrightarrow>
   request_tasks mine None = (if mine = [] then None else Some (request_of i mine))"
proof (cases mine)
  case Nil
  then show ?thesis by simp
next
  case (Cons t ts')
  moreover assume "tasks_of i ts = mine"
  ultimately have "task_job t = i" by (auto simp: tasks_of_def filter_eq_Cons_iff)
  with Cons show ?thesis
    by (simp add: request_tasks_Some request_task_def request_of_def)
qed

lemma group_tasks_map_of:
  "map_of (group_tasks ts []) i =
     (if tasks_of i ts = [] then None else Some (request_of i (tasks_of i ts)))"
  by (simp add: group_tasks_lookup request_tasks_None)

lemma group_tasks_set:
  "(i, r) \<in> set (group_tasks ts []) \<longleftrightarrow> tasks_of i ts \<noteq> [] \<and> r = request_of i (tasks_of i ts)"
proof -
  have "map_sorted (group_tasks ts [])" by (simp add: group_tasks_sorted)
  then have "distinct (map fst (group_tasks ts []))"
    by (simp add: strict_sorted_iff)
  then have "(i, r) \<in> set (group_tasks ts []) \<longleftrightarrow> map_of (group_tasks ts []) i = Some r"
    by (rule map_of_eq_Some_iff [symmetric])
  then show ?thesis by (auto simp: group_tasks_map_of)
qed

lemma job_requests_set:
  "r \<in> set (job_requests ts) \<longleftrightarrow>
     (\<exists>i. tasks_of i ts \<noteq> [] \<and> r = request_of i (tasks_of i ts))"
  using group_tasks_set [of _ r ts] by (auto simp: job_requests_def image_iff) force

lemma group_tasks_ids:
  "map fst (group_tasks ts []) = map rq_job_id (job_requests ts)"
  by (auto simp: job_requests_def group_tasks_set request_of_def intro!: map_cong)

lemma job_requests_sorted: "sorted_wrt (<) (map rq_job_id (job_requests ts))"
  using group_tasks_sorted [of "[]" ts] by (simp add: group_tasks_ids)

text \<open>The frames of all requests are the frames of all tasks.\<close>

definition request_pairs :: "JobRequest \<Rightarrow> (u32 \<times> u32) list" where
  "request_pairs r = map (Pair (rq_job_id r)) (rq_frames r)"

definition map_pairs :: "(u32 \<times> JobRequest) list \<Rightarrow> (u32 \<times> u32) multiset" where
  "map_pairs m = mset (concat (map (\<lambda>p. request_pairs (snd p)) m))"

definition keyed :: "(u32 \<times> JobRequest) list \<Rightarrow> bool" where
  "keyed m \<longleftrightarrow> (\<forall>(k, r) \<in> set m. rq_job_id r = k)"

lemma std_map_at_keyed: "keyed m \<Longrightarrow> keyed (std_map_at (task_job t) (request_task t) m)"
  by (induction m) (auto simp: keyed_def request_task_def split: if_splits)

lemma std_map_at_pairs:
  "keyed m \<Longrightarrow> map_pairs (std_map_at (task_job t) (request_task t) m) =
     add_mset (task_job t, task_frame t) (map_pairs m)"
  by (induction m) (auto simp: map_pairs_def keyed_def request_pairs_def request_task_def)

lemma group_tasks_pairs:
  "keyed m \<Longrightarrow> map_pairs (group_tasks ts m) =
     mset (map (\<lambda>t. (task_job t, task_frame t)) ts) + map_pairs m"
  by (induction ts m rule: group_tasks.induct) (simp_all add: std_map_at_keyed std_map_at_pairs)

lemma job_requests_pairs:
  "mset (concat (map request_pairs (job_requests ts))) =
     mset (map (\<lambda>t. (task_job t, task_frame t)) ts)"
  using group_tasks_pairs [of "[]" ts]
  by (simp add: map_pairs_def keyed_def job_requests_def comp_def)

section \<open>Lemmas: the packet\<close>

definition issue_bytes :: "JobRequest \<Rightarrow> bytes" where
  "issue_bytes r =
     [ServerPacketID_byte SrvIssueJob] @ u32_bytes (rq_job_id r) @ u32_bytes (rq_fps r) @
     u32_bytes (rq_image_width r) @ u32_bytes (rq_image_height r) @
     u64_bytes (of_nat (length (rq_shader r))) @ rq_shader r @
     u32_bytes (of_nat (length (rq_frames r))) @ u32s_bytes (rq_frames r)"

lemma contiguous_frame_copies: "contiguous off (frame_copies off frames)"
proof -
  have "contiguous (off + 4 * k) (map (\<lambda>i. (off + 4 * i, u32_bytes (frames ! i))) [k ..< n])" for k n
  proof (induction "n - k" arbitrary: k)
    case 0
    then show ?case by simp
  next
    case (Suc d)
    then have "d = n - Suc k" and less: "k < n" by auto
    from Suc.hyps(1) [OF this(1)] less show ?case
      by (simp add: upt_conv_Cons add.commute add.left_commute del: upt_Suc)
  qed
  from this [of 0] show ?thesis by (simp add: frame_copies_def)
qed

lemma frame_copies_bytes: "concat (map snd (frame_copies off frames)) = u32s_bytes frames"
proof -
  have "map snd (frame_copies off frames) = map (\<lambda>i. u32_bytes (frames ! i)) [0 ..< length frames]"
    by (simp add: frame_copies_def)
  also have "\<dots> = map u32_bytes frames"
    by (metis (no_types, lifting) map_eq_conv map_nth list.map_comp comp_apply)
  finally show ?thesis by (simp add: u32s_bytes_def)
qed

lemma contiguous_append:
  "contiguous off (cs @ ds) \<longleftrightarrow>
     contiguous off cs \<and> contiguous (off + length (concat (map snd cs))) ds"
  by (induction off cs rule: contiguous.induct) (auto simp: add.assoc)

lemma issue_packet_eq:
  assumes "length (rq_frames r) < 2 ^ 32"
  shows "issue_packet junk r = Some (issue_bytes r)"
proof -
  have "unat (of_nat (length (rq_frames r)) :: u32) = length (rq_frames r)"
    using assms by (simp add: unat_of_nat)
  then show ?thesis
    unfolding issue_packet_def Let_def
    by (subst memcpys_contiguous [where off = 0])
      (simp_all add: contiguous_append contiguous_frame_copies frame_copies_bytes issue_bytes_def)
qed

section \<open>Properties\<close>

text \<open>The capability set by a FINISH_JOB packet is the number of frames the client renders in two
  seconds, clamped to the interval from 4 to 2048 (a time of zero counts as infinitely fast), and a
  slower client never gets a larger one.\<close>

theorem finish_capability_clamps:
  assumes "t \<le> u"
  shows "finish_capability t = (if t = 0 then 2048 else max 4 (min 2048 (2000000 div unat t))) \<and>
    finish_capability u \<le> finish_capability t"
proof -
  have eq: "finish_capability x = (if x = 0 then 2048 else max 4 (min 2048 (2000000 div unat x)))" for x
    by (simp add: finish_capability_def capability_defs Let_def)
  have le: "2000000 div unat u \<le> 2000000 div unat t" if "t \<noteq> 0"
    using assms that by (intro div_le_mono2) (simp_all add: word_le_nat_alt unat_gt_0)
  have zero: "u = 0 \<Longrightarrow> t = 0" using assms by simp
  have "finish_capability u \<le> finish_capability t"
  proof (cases "t = 0")
    case True
    then show ?thesis
      using finish_capability_bounds [of u] eq [of 0] by (simp add: MAX_JOB_CAPABILITY_def)
  next
    case False
    with le zero show ?thesis
      unfolding eq [of t] eq [of u] by (auto simp: max_def min_def)
  qed
  with eq show ?thesis by blast
qed

lemma finish_capability_clamps_witness:
  "finish_capability 10000 = 200 \<and> finish_capability 1000000 = 4 \<and> finish_capability 1 = 2048"
  using finish_capability_clamps [of 10000 10000] finish_capability_clamps [of 1000000 1000000]
    finish_capability_clamps [of 1 1] by simp

text \<open>The tasks of a batch are grouped into one request per job, in the order of the job ids, each
  with the frames of its job in the order of the batch and the parameters of its first task; no
  frame is dropped or repeated.\<close>

theorem job_requests_group:
  "sorted_wrt (<) (map rq_job_id (job_requests ts)) \<and>
   set (job_requests ts) = {request_of i (tasks_of i ts) | i. i \<in> task_job ` set ts} \<and>
   mset (concat (map request_pairs (job_requests ts))) =
     mset (map (\<lambda>t. (task_job t, task_frame t)) ts)"
proof -
  have ids: "tasks_of i ts \<noteq> [] \<longleftrightarrow> i \<in> task_job ` set ts" for i
    by (auto simp: tasks_of_def filter_empty_conv)
  have "set (job_requests ts) = {request_of i (tasks_of i ts) | i. i \<in> task_job ` set ts}"
    unfolding ids [symmetric] using job_requests_set [of _ ts] by (intro set_eqI) blast
  with job_requests_sorted [of ts] job_requests_pairs [of ts] show ?thesis by blast
qed

text \<open>The ISSUE_JOB packet is built without running past the end of its array, and is its fields in
  order: none of the bytes the array happened to hold is sent.\<close>

theorem issue_packet_complete:
  assumes "length (rq_frames r) < 2 ^ 32"
  shows "issue_packet junk r = Some
    ([2] @ u32_bytes (rq_job_id r) @ u32_bytes (rq_fps r) @ u32_bytes (rq_image_width r) @
     u32_bytes (rq_image_height r) @ u64_bytes (of_nat (length (rq_shader r))) @ rq_shader r @
     u32_bytes (of_nat (length (rq_frames r))) @ u32s_bytes (rq_frames r))"
  using issue_packet_eq [OF assms, of junk] by (simp add: issue_bytes_def)

lemma issue_packet_complete_witness:
  "\<exists>bs. issue_packet (\<lambda>_. 255) (request_of 7 [Task_new [9] 3 60 4 4 7]) = Some bs \<and> hd bs = 2"
  using issue_packet_complete [of "request_of 7 [Task_new [9] 3 60 4 4 7]" "\<lambda>_. 255"]
  by (simp add: request_of_def)

end
