(* ===== verification/World.thy ===== *)
theory World
  imports Tcp_Stream Job_Queue
begin

text \<open>
  Code that both talks to a socket and changes the state of the program: an action on a pair of the
  outside world and the program state. Network exceptions and faults (undefined behaviour,
  self-deadlock) are both ways to leave such an action; only the former can be caught. The triple
  \<open>talks\<close> extends \<open>transfers\<close> by the program state before and after.
\<close>

section \<open>Actions on the world and the program\<close>

datatype abort = Exn net_error | Fault fault

type_synonym ('s, 'x, 'a) prog = "('s \<times> 'x, abort, 'a) act"

definition net :: "('s, net_error, 'a) act \<Rightarrow> ('s, 'x, 'a) prog" where
  "net m = (\<lambda>(s, x). case m s of
       None \<Rightarrow> None
     | Some (Inl e, s') \<Rightarrow> Some (Inl (Exn e), (s', x))
     | Some (Inr v, s') \<Rightarrow> Some (Inr v, (s', x)))"

definition change :: "('x \<Rightarrow> 'a \<times> 'x) \<Rightarrow> ('s, 'x, 'a) prog" where
  "change f = (\<lambda>(s, x). case f x of (v, x') \<Rightarrow> Some (Inr v, (s, x')))"

definition attempt :: "('x \<Rightarrow> fault + 'a \<times> 'x) \<Rightarrow> ('s, 'x, 'a) prog" where
  "attempt f = (\<lambda>(s, x). case f x of
       Inl flt \<Rightarrow> Some (Inl (Fault flt), (s, x))
     | Inr (v, x') \<Rightarrow> Some (Inr v, (s, x')))"

text \<open>\<open>catchNet m h\<close>: \<open>try m catch(NetworkException) h\<close>.\<close>

definition catchNet :: "('s, 'x, 'a) prog \<Rightarrow> ('s, 'x, 'a) prog \<Rightarrow> ('s, 'x, 'a) prog" where
  "catchNet m h = (\<lambda>w. case m w of
       Some (Inl (Exn e), w') \<Rightarrow> h w'
     | r \<Rightarrow> r)"

text \<open>A counted loop without a result.\<close>

fun forA :: "nat \<Rightarrow> ('s, 'x, unit) prog \<Rightarrow> ('s, 'x, unit) prog" where
  "forA 0 m = ret ()"
| "forA (Suc n) m = andThen m (\<lambda>_. forA n m)"

text \<open>A loop over a list whose body says whether to go on.\<close>

fun foreachA :: "'b list \<Rightarrow> ('b \<Rightarrow> ('s, 'x, bool) prog) \<Rightarrow> ('s, 'x, bool) prog" where
  "foreachA [] f = ret True"
| "foreachA (b # bs) f = andThen (f b) (\<lambda>ok. if ok then foreachA bs f else ret False)"

lemma net_ret [act_simps]: "net (ret v) = ret v"
  by (rule ext) (auto simp: net_def ret_def)

lemma change_apply [act_simps]: "change f (s, x) = Some (Inr (fst (f x)), (s, snd (f x)))"
  by (simp add: change_def case_prod_beta)

lemma attempt_Inr [act_simps]: "f x = Inr (v, x') \<Longrightarrow> attempt f (s, x) = Some (Inr v, (s, x'))"
  by (simp add: attempt_def)

lemma attempt_Inl [act_simps]: "f x = Inl flt \<Longrightarrow> attempt f (s, x) = Some (Inl (Fault flt), (s, x))"
  by (simp add: attempt_def)

lemma net_Inr: "m s = Some (Inr v, s') \<Longrightarrow> net m (s, x) = Some (Inr v, (s', x))"
  by (simp add: net_def)

lemma net_Inl: "m s = Some (Inl e, s') \<Longrightarrow> net m (s, x) = Some (Inl (Exn e), (s', x))"
  by (simp add: net_def)

section \<open>Triples with program state\<close>

definition talks ::
  "('s \<Rightarrow> bytes) \<Rightarrow> ('s \<Rightarrow> bytes) \<Rightarrow> ('s \<Rightarrow> bool) \<Rightarrow> ('s, 'x, 'a) prog \<Rightarrow>
   'x \<Rightarrow> bytes \<Rightarrow> bytes \<Rightarrow> 'a \<Rightarrow> 'x \<Rightarrow> bool" where
  "talks inbox outbox up m x ins outs v x' \<longleftrightarrow>
     (\<forall>s rest. up s \<and> inbox s = ins @ rest \<longrightarrow>
        (\<exists>s'. m (s, x) = Some (Inr v, (s', x')) \<and> inbox s' = rest \<and>
          outbox s' = outbox s @ outs \<and> up s'))"

lemma talksD:
  "talks inbox outbox up m x ins outs v x' \<Longrightarrow> up s \<Longrightarrow> inbox s = ins @ rest \<Longrightarrow>
   \<exists>s'. m (s, x) = Some (Inr v, (s', x')) \<and> inbox s' = rest \<and> outbox s' = outbox s @ outs \<and> up s'"
  by (simp add: talks_def)

lemma talks_net:
  "transfers inbox outbox up m ins outs v \<Longrightarrow> talks inbox outbox up (net m) x ins outs v x"
  unfolding talks_def transfers_def by (meson net_Inr)

lemma talks_ret: "talks inbox outbox up (ret v) x [] [] v x"
  by (simp add: talks_def ret_def)

lemma talks_change: "f x = (v, x') \<Longrightarrow> talks inbox outbox up (change f) x [] [] v x'"
  by (simp add: talks_def act_simps)

lemma talks_attempt: "f x = Inr (v, x') \<Longrightarrow> talks inbox outbox up (attempt f) x [] [] v x'"
  by (simp add: talks_def act_simps)

lemma talks_andThen:
  assumes "talks inbox outbox up m x ins1 outs1 v x1"
    and "talks inbox outbox up (f v) x1 ins2 outs2 w x2"
  shows "talks inbox outbox up (andThen m f) x (ins1 @ ins2) (outs1 @ outs2) w x2"
  unfolding talks_def
proof (intro allI impI)
  fix s rest
  assume a: "up s \<and> inbox s = (ins1 @ ins2) @ rest"
  then obtain s1 where s1: "m (s, x) = Some (Inr v, (s1, x1))" "inbox s1 = ins2 @ rest"
    "outbox s1 = outbox s @ outs1" "up s1"
    using talksD [OF assms(1), of s "ins2 @ rest"] by auto
  then obtain s2 where "f v (s1, x1) = Some (Inr w, (s2, x2))" "inbox s2 = rest"
    "outbox s2 = outbox s1 @ outs2" "up s2"
    using talksD [OF assms(2), of s1 rest] by auto
  with s1 show "\<exists>s'. andThen m f (s, x) = Some (Inr w, (s', x2)) \<and> inbox s' = rest \<and>
      outbox s' = outbox s @ (outs1 @ outs2) \<and> up s'"
    by (simp add: andThen_Inr)
qed

lemma talks_step:
  "talks inbox outbox up m x ins1 [] v x1 \<Longrightarrow> talks inbox outbox up (f v) x1 ins2 outs w x2 \<Longrightarrow>
   ins = ins1 @ ins2 \<Longrightarrow> talks inbox outbox up (andThen m f) x ins outs w x2"
  using talks_andThen [of inbox outbox up m x ins1 "[]" v x1 f ins2 outs w x2] by simp

lemma talks_silent:
  "talks inbox outbox up m x [] [] v x1 \<Longrightarrow> talks inbox outbox up (f v) x1 ins outs w x2 \<Longrightarrow>
   talks inbox outbox up (andThen m f) x ins outs w x2"
  using talks_step [of inbox outbox up m x "[]" v x1 f ins outs w x2 ins] by simp

lemma talks_net_then:
  assumes "transfers inbox outbox up m ins1 [] v" and "talks inbox outbox up (f v) x ins2 outs w x'"
  shows "talks inbox outbox up (andThen (net m) f) x (ins1 @ ins2) outs w x'"
  by (rule talks_step [where f = f and v = v, OF talks_net [OF assms(1)] assms(2) refl])

lemma talks_change_then:
  assumes "f x = (v, x1)" and "talks inbox outbox up (g v) x1 ins outs w x2"
  shows "talks inbox outbox up (andThen (change f) g) x ins outs w x2"
  by (rule talks_silent [where f = g and v = v, OF talks_change [where f = f, OF assms(1)] assms(2)])

end
