(* ===== verification/Client_Manager.thy ===== *)
theory Client_Manager
  imports Client_Handler World
begin

text \<open>
  The client manager (\<open>include/server/clientmanager.hpp\<close>, \<open>src/server/clientmanager.cpp\<close>) and the
  threads of a client handler that call it (\<open>handleResponse\<close>, \<open>handleIssue\<close>, \<open>tryKeepAlive\<close>, \<open>stop\<close> of
  \<open>src/server/clienthandler.cpp\<close>). A handler is named by its client id, as in the manager's table.
  Blocking waits are guards: an operation that would wait returns \<open>None\<close> or is stated for a state in
  which the wait is over.
\<close>

named_theorems server_simps

section \<open>State\<close>

text \<open>\<open>client_map_mutex\<close> says whether the running thread holds the mutex exclusively.\<close>

record ClientManager =
  cm_server :: socket
  server_port :: int
  keepalive_time :: nat
  cm_active :: bool
  client_id_offset :: u32
  client_map :: "u32 \<rightharpoonup> ClientHandler"
  free_clients :: "u32 list"
  client_map_mutex :: bool

text \<open>The server object: the job queue and the manager that refers to it.\<close>

record Server =
  srv_queue :: JobQueue
  srv_clients :: ClientManager

definition ClientManager_new :: "int \<Rightarrow> nat \<Rightarrow> ClientManager" where
  "ClientManager_new port time =
     \<lparr>cm_server = Socket_new, server_port = port, keepalive_time = time, cm_active = False,
      client_id_offset = 0, client_map = Map.empty, free_clients = [], client_map_mutex = False\<rparr>"

definition handler :: "u32 \<Rightarrow> Server \<Rightarrow> ClientHandler option" where
  "handler i srv = client_map (srv_clients srv) i"

definition update_handler :: "u32 \<Rightarrow> (ClientHandler \<Rightarrow> ClientHandler) \<Rightarrow> Server \<Rightarrow> Server" where
  "update_handler i f srv =
     srv\<lparr>srv_clients := (srv_clients srv)\<lparr>client_map :=
       (client_map (srv_clients srv))(i := map_option f (handler i srv))\<rparr>\<rparr>"

definition update_queue :: "(JobQueue \<Rightarrow> JobQueue) \<Rightarrow> Server \<Rightarrow> Server" where
  "update_queue f srv = srv\<lparr>srv_queue := f (srv_queue srv)\<rparr>"

section \<open>Callbacks of the handlers\<close>

definition notifyUpdate :: "u32 \<Rightarrow> u32 \<Rightarrow> Server \<Rightarrow> Server" where
  "notifyUpdate job_id frame srv =
     (case findJob job_id (srv_queue srv) of
        None \<Rightarrow> srv
      | Some job \<Rightarrow>
          (let (job', finished) = frameRendered job;
               q' = (srv_queue srv)\<lparr>jobs := (jobs (srv_queue srv))(job_id \<mapsto> job')\<rparr>
           in srv\<lparr>srv_queue := if finished then finishJob job_id q' else q'\<rparr>))"

definition notifyFinish :: "u32 \<Rightarrow> Server \<Rightarrow> Server" where
  "notifyFinish client_id srv =
     srv\<lparr>srv_clients := (srv_clients srv)\<lparr>free_clients :=
       free_clients (srv_clients srv) @ [client_id]\<rparr>\<rparr>"

definition returnJobs :: "Task list \<Rightarrow> Server \<Rightarrow> Server" where
  "returnJobs tasks srv = update_queue (addTasks tasks) srv"

text \<open>
  \<open>removeClient\<close> takes the map mutex exclusively. It does not remove the client from the map: it
  hands its active tasks back to the queue.
\<close>

definition removeClient :: "u32 \<Rightarrow> Server \<Rightarrow> fault + unit \<times> Server" where
  "removeClient client_id srv =
     (if client_map_mutex (srv_clients srv) then Inl SelfDeadlock
      else (case handler client_id srv of
              None \<Rightarrow> Inl NullDeref
            | Some h \<Rightarrow>
                (case handlerJobs h of
                   Inl f \<Rightarrow> Inl f
                 | Inr tasks \<Rightarrow> Inr ((), returnJobs tasks srv))))"

section \<open>Stopping a handler\<close>

definition handler_socket :: "u32 \<Rightarrow> Server \<Rightarrow> socket" where
  "handler_socket i srv = (case handler i srv of None \<Rightarrow> None | Some h \<Rightarrow> ch_socket h)"

text \<open>An action on the socket of handler \<open>i\<close>, as it is when the action starts.\<close>

definition on_socket :: "u32 \<Rightarrow> (socket \<Rightarrow> ('s, net_error, 'a) act) \<Rightarrow> ('s, Server, 'a) prog" where
  "on_socket i f = (\<lambda>(s, srv). net (f (handler_socket i srv)) (s, srv))"

definition close_handler_socket :: "('ad, 's) posix \<Rightarrow> u32 \<Rightarrow> ('s, Server, unit) prog" where
  "close_handler_socket px i = (\<lambda>(s, srv).
     case Socket_close px (handler_socket i srv) s of (sock, s') \<Rightarrow>
       Some (Inr (), (s', update_handler i (\<lambda>h. h\<lparr>ch_socket := sock\<rparr>) srv)))"

definition ClientHandler_stop :: "('ad, 's) posix \<Rightarrow> u32 \<Rightarrow> ('s, Server, unit) prog" where
  "ClientHandler_stop px i =
     andThen (change (\<lambda>srv. ((), update_handler i (\<lambda>h. h\<lparr>ch_active := False\<rparr>) srv))) (\<lambda>_.
     andThen (close_handler_socket px i) (\<lambda>_.
     attempt (removeClient i)))"

section \<open>The thread that reads from a client\<close>

definition handler_active :: "u32 \<Rightarrow> Server \<Rightarrow> bool" where
  "handler_active i srv = (case handler i srv of None \<Rightarrow> False | Some h \<Rightarrow> ch_active h)"

definition response_update :: "('ad, 's) posix \<Rightarrow> u32 \<Rightarrow> ('s, Server, unit) prog" where
  "response_update px i =
     andThen (on_socket i (recv_u32 px)) (\<lambda>job_id.
     andThen (on_socket i (recv_u32 px)) (\<lambda>frame_id.
     change (\<lambda>srv. ((), notifyUpdate job_id frame_id srv))))"

definition set_capability :: "u32 \<Rightarrow> u64 \<Rightarrow> Server \<Rightarrow> Server" where
  "set_capability i time_per_frame srv =
     update_handler i (\<lambda>h. if has_received h
       then h\<lparr>job_capability := finish_capability time_per_frame\<rparr> else h) srv"

text \<open>One round of the loop of \<open>handleResponse\<close>: one packet of the client.\<close>

definition response_packet :: "('ad, 's) posix \<Rightarrow> u32 \<Rightarrow> ('s, Server, unit) prog" where
  "response_packet px i =
     andThen (on_socket i (recv_u8 px)) (\<lambda>id.
       case ClientPacketID_of id of
         None \<Rightarrow> ret ()
       | Some CliConnect \<Rightarrow> change (\<lambda>srv. ((), notifyFinish i srv))
       | Some CliKeepalive \<Rightarrow>
           change (\<lambda>srv. ((), update_handler i (\<lambda>h. h\<lparr>keepalive := True\<rparr>) srv))
       | Some CliUpdateJob \<Rightarrow>
           andThen (on_socket i (recv_u32 px)) (\<lambda>num_updates.
           andThen (forA (unat num_updates) (response_update px i)) (\<lambda>_.
           change (\<lambda>srv. ((), update_handler i (\<lambda>h. h\<lparr>has_received := True\<rparr>) srv))))
       | Some CliFinishJob \<Rightarrow>
           andThen (on_socket i (recv_u64 px)) (\<lambda>time_per_frame.
           change (\<lambda>srv. ((), notifyFinish i (set_capability i time_per_frame srv)))))"

partial_function (option) response_loop ::
  "('ad, 's) posix \<Rightarrow> u32 \<Rightarrow> 's \<times> Server \<Rightarrow> ((abort + unit) \<times> 's \<times> Server) option" where
  "response_loop px i w =
     (if \<not> handler_active i (snd w) then Some (Inr (), w)
      else (case response_packet px i w of
              None \<Rightarrow> None
            | Some (r, w') \<Rightarrow>
                (case r of Inl e \<Rightarrow> Some (Inl e, w') | Inr _ \<Rightarrow> response_loop px i w')))"

definition handleResponse :: "('ad, 's) posix \<Rightarrow> u32 \<Rightarrow> ('s, Server, unit) prog" where
  "handleResponse px i =
     andThen (catchNet (response_loop px i) (ret ())) (\<lambda>_.
     andThen (change (\<lambda>srv. ((), update_handler i (\<lambda>h. h\<lparr>ch_active := False\<rparr>) srv))) (\<lambda>_.
     ClientHandler_stop px i))"

section \<open>The thread that issues tasks\<close>

text \<open>
  One round of \<open>handleIssue\<close>, entered when the wait on \<open>job_update_cond\<close> is over. The round holds
  the task mutex; it says whether the loop goes on. A packet array that the copies overrun would be
  undefined behaviour; it is shown not to occur (\<open>issue_packet_eq\<close>), and is a fault here.
\<close>

definition send_request ::
  "('ad, 's) posix \<Rightarrow> (nat \<Rightarrow> byte) \<Rightarrow> u32 \<Rightarrow> JobRequest \<Rightarrow> ('s, Server, bool) prog" where
  "send_request px junk i r =
     (case issue_packet junk r of
        None \<Rightarrow> attempt (\<lambda>_. Inl NullDeref)
      | Some packet \<Rightarrow>
          andThen (on_socket i (\<lambda>sock. issueRequest px sock packet)) (\<lambda>ok.
            if ok then ret True
            else andThen (change (\<lambda>srv. ((), update_handler i (\<lambda>h. h\<lparr>active_tasks := []\<rparr>) srv)))
                   (\<lambda>_. andThen (ClientHandler_stop px i) (\<lambda>_. ret False))))"

definition handler_tasks :: "u32 \<Rightarrow> Server \<Rightarrow> Task list" where
  "handler_tasks i srv = (case handler i srv of None \<Rightarrow> [] | Some h \<Rightarrow> active_tasks h)"

definition lock_tasks :: "bool \<Rightarrow> u32 \<Rightarrow> Server \<Rightarrow> Server" where
  "lock_tasks b i srv = update_handler i (\<lambda>h. h\<lparr>task_mutex := b\<rparr>) srv"

definition start_issue :: "u32 \<Rightarrow> Server \<Rightarrow> Server" where
  "start_issue i srv = update_handler i (\<lambda>h.
     h\<lparr>new_jobs := False, rendered_frames := length (active_tasks h)\<rparr>) srv"

definition handleIssue_round ::
  "('ad, 's) posix \<Rightarrow> (nat \<Rightarrow> byte) \<Rightarrow> u32 \<Rightarrow> ('s, Server, bool) prog" where
  "handleIssue_round px junk i =
     andThen (change (\<lambda>srv. ((), lock_tasks True i srv))) (\<lambda>_.
     andThen (change (\<lambda>srv. (handler_active i srv, srv))) (\<lambda>active.
       if \<not> active then change (\<lambda>srv. (False, lock_tasks False i srv))
       else
         andThen (change (\<lambda>srv. ((), start_issue i srv))) (\<lambda>_.
         andThen (change (\<lambda>srv. (job_requests (handler_tasks i srv), srv))) (\<lambda>requests.
         andThen (foreachA requests (send_request px junk i)) (\<lambda>go_on.
         change (\<lambda>srv. (go_on, lock_tasks False i srv)))))))"

section \<open>Keepalive\<close>

text \<open>
  \<open>tryKeepAlive\<close>: the first part clears the flag and sends the packet; the second is the wait, which
  is over when the flag is set or the handler stopped.
\<close>

definition tryKeepAlive_send :: "('ad, 's) posix \<Rightarrow> u32 \<Rightarrow> ('s, Server, bool) prog" where
  "tryKeepAlive_send px i =
     andThen (change (\<lambda>srv. ((), update_handler i (\<lambda>h. h\<lparr>keepalive := False\<rparr>) srv))) (\<lambda>_.
     on_socket i (\<lambda>sock. issueRequest px sock [ServerPacketID_byte SrvKeepalive]))"

definition tryKeepAlive_wait :: "u32 \<Rightarrow> Server \<Rightarrow> bool option" where
  "tryKeepAlive_wait i srv =
     (case handler i srv of
        None \<Rightarrow> None
      | Some h \<Rightarrow> if keepalive h \<or> \<not> ch_active h then Some (keepalive h) else None)"

definition erase_client :: "u32 \<Rightarrow> Server \<Rightarrow> Server" where
  "erase_client i srv =
     srv\<lparr>srv_clients := (srv_clients srv)\<lparr>client_map :=
       (client_map (srv_clients srv))(i := None)\<rparr>\<rparr>"

text \<open>
  What \<open>handleKeepAlive\<close> does with a client whose keepalive failed: stop it, join its threads, free
  it (its destructor closes the socket) and erase it from the map.
\<close>

definition keepalive_failed :: "('ad, 's) posix \<Rightarrow> u32 \<Rightarrow> ('s, Server, unit) prog" where
  "keepalive_failed px i =
     andThen (ClientHandler_stop px i) (\<lambda>_.
     andThen (close_handler_socket px i) (\<lambda>_.
     change (\<lambda>srv. ((), erase_client i srv))))"

text \<open>
  The keepalive thread: one round of its loop asks every client in turn. \<open>waiting i\<close> is what the other
  threads do while it waits for client \<open>i\<close>; \<open>None\<close>, if the wait is not over then, is a thread that
  stays blocked and asks no other client any more.
\<close>

definition tryKeepAlive ::
  "('ad, 's) posix \<Rightarrow> (u32 \<Rightarrow> 's \<times> Server \<Rightarrow> 's \<times> Server) \<Rightarrow> u32 \<Rightarrow> ('s, Server, bool) prog" where
  "tryKeepAlive px waiting i =
     andThen (tryKeepAlive_send px i) (\<lambda>sent.
       if \<not> sent then ret False
       else (\<lambda>w. map_option (\<lambda>answered. (Inr answered, waiting i w)) (tryKeepAlive_wait i (snd (waiting i w)))))"

fun keepalive_clients ::
  "('ad, 's) posix \<Rightarrow> (u32 \<Rightarrow> 's \<times> Server \<Rightarrow> 's \<times> Server) \<Rightarrow> u32 list \<Rightarrow> ('s, Server, unit) prog" where
  "keepalive_clients px waiting [] = ret ()"
| "keepalive_clients px waiting (i # is) =
     andThen (tryKeepAlive px waiting i) (\<lambda>ok.
     andThen (if ok then ret () else keepalive_failed px i) (\<lambda>_.
     keepalive_clients px waiting is))"

text \<open>\<open>order\<close> is the order in which the map is walked; the sleep before the round is left out.\<close>

definition handleKeepAlive_round ::
  "('ad, 's) posix \<Rightarrow> (u32 \<Rightarrow> 's \<times> Server \<Rightarrow> 's \<times> Server) \<Rightarrow> u32 list \<Rightarrow> ('s, Server, unit) prog" where
  "handleKeepAlive_round px waiting order =
     andThen (change (\<lambda>srv. (filter (\<lambda>i. handler i srv \<noteq> None) order, srv))) (keepalive_clients px waiting)"

text \<open>One client that neither answers nor goes away blocks the thread, and with it all later clients.\<close>

lemma keepalive_blocks:
  assumes "tryKeepAlive_send px i w = Some (Inr True, w')" "tryKeepAlive_wait i (snd (waiting i w')) = None"
  shows "keepalive_clients px waiting (i # is) w = None"
  using assms by (simp add: tryKeepAlive_def andThen_def)

section \<open>Accepting clients\<close>

definition handleClient :: "socket \<Rightarrow> Server \<Rightarrow> Server" where
  "handleClient client srv =
     (let cm = srv_clients srv; client_id = client_id_offset cm
      in srv\<lparr>srv_clients := cm\<lparr>client_id_offset := client_id + 1,
           client_map := (client_map cm)(client_id \<mapsto>
             ClientHandler_run (ClientHandler_new client client_id))\<rparr>\<rparr>)"

text \<open>
  One round of \<open>handleClients\<close>: a failed \<open>accept\<close> ends the loop, and with it the activity of the
  manager.
\<close>

definition handleClients_round :: "('ad, 's) posix \<Rightarrow> ('s, Server, bool) prog" where
  "handleClients_round px = (\<lambda>(s, srv).
     case ServerSocket_accept px (cm_server (srv_clients srv)) s of
       (Inl e, s') \<Rightarrow>
         Some (Inr False, (s', srv\<lparr>srv_clients := (srv_clients srv)\<lparr>cm_active := False\<rparr>\<rparr>))
     | (Inr client, s') \<Rightarrow> Some (Inr True, (s', handleClient client srv)))"

definition ClientManager_run :: "('ad, 's) posix \<Rightarrow> ('s, Server, unit) prog" where
  "ClientManager_run px = (\<lambda>(s, srv).
     case ServerSocket_bind px (cm_server (srv_clients srv)) ''0.0.0.0''
            (server_port (srv_clients srv)) s of
       (Inl e, s') \<Rightarrow> Some (Inl (Exn e), (s', srv))
     | (Inr sock, s') \<Rightarrow>
         Some (Inr (), (s', srv\<lparr>srv_clients := (srv_clients srv)\<lparr>cm_server := sock,
                                  cm_active := True\<rparr>\<rparr>)))"

section \<open>Distributing tasks\<close>

text \<open>
  One round of \<open>handleJobDistribution\<close>, in the four critical sections of the code. Between them other
  threads run.
\<close>

datatype distribution = DistIdle | DistClient u32 | DistCapability u32 nat | DistTasks u32 "Task list"

definition dist_pick :: "Server \<Rightarrow> (distribution \<times> Server) option" where
  "dist_pick srv =
     (case free_clients (srv_clients srv) of
        [] \<Rightarrow> if cm_active (srv_clients srv) then None else Some (DistIdle, srv)
      | i # rest \<Rightarrow>
          Some (DistClient i, srv\<lparr>srv_clients := (srv_clients srv)\<lparr>free_clients := rest\<rparr>\<rparr>))"

definition dist_capability :: "u32 \<Rightarrow> Server \<Rightarrow> distribution" where
  "dist_capability i srv =
     (case handler i srv of None \<Rightarrow> DistIdle | Some h \<Rightarrow> DistCapability i (getJobCapability h))"

definition dist_fetch :: "u32 \<Rightarrow> nat \<Rightarrow> Server \<Rightarrow> (fault + distribution \<times> Server) option" where
  "dist_fetch i capability srv =
     (case getJobs capability (srv_queue srv) of
        None \<Rightarrow> None
      | Some (Inl f) \<Rightarrow> Some (Inl f)
      | Some (Inr (tasks, q)) \<Rightarrow> Some (Inr (DistTasks i tasks, srv\<lparr>srv_queue := q\<rparr>)))"

definition dist_submit :: "u32 \<Rightarrow> Task list \<Rightarrow> Server \<Rightarrow> Server" where
  "dist_submit i tasks srv =
     (case handler i srv of
        None \<Rightarrow> returnJobs tasks srv
      | Some h \<Rightarrow>
          (case submitTasks tasks h of
             (ok, h') \<Rightarrow> if ok then update_handler i (\<lambda>_. h') srv else returnJobs tasks srv))"

section \<open>Stopping the manager\<close>

fun stop_all :: "('ad, 's) posix \<Rightarrow> u32 list \<Rightarrow> ('s, Server, unit) prog" where
  "stop_all px [] = ret ()"
| "stop_all px (i # is) = andThen (ClientHandler_stop px i) (\<lambda>_. stop_all px is)"

definition close_server :: "('ad, 's) posix \<Rightarrow> ('s, Server, unit) prog" where
  "close_server px = (\<lambda>(s, srv).
     case ServerSocket_close px (cm_server (srv_clients srv)) s of (sock, s') \<Rightarrow>
       Some (Inr (), (s', srv\<lparr>srv_clients := (srv_clients srv)\<lparr>cm_server := sock\<rparr>\<rparr>)))"

text \<open>\<open>order\<close> is the order in which the map is walked.\<close>

definition ClientManager_stop :: "('ad, 's) posix \<Rightarrow> u32 list \<Rightarrow> ('s, Server, unit) prog" where
  "ClientManager_stop px order =
     andThen (change (\<lambda>srv. ((), srv\<lparr>srv_clients := (srv_clients srv)\<lparr>cm_active := False\<rparr>\<rparr>))) (\<lambda>_.
     andThen (close_server px) (\<lambda>_.
     stop_all px order))"

text \<open>The destructor holds the map mutex while it stops the handlers.\<close>

definition lock_map :: "bool \<Rightarrow> Server \<Rightarrow> Server" where
  "lock_map b srv = srv\<lparr>srv_clients := (srv_clients srv)\<lparr>client_map_mutex := b\<rparr>\<rparr>"

definition ClientManager_destroy :: "('ad, 's) posix \<Rightarrow> u32 list \<Rightarrow> ('s, Server, unit) prog" where
  "ClientManager_destroy px order =
     andThen (change (\<lambda>srv. ((), lock_map True srv))) (\<lambda>_.
     andThen (stop_all px order) (\<lambda>_.
     change (\<lambda>srv. ((), lock_map False srv))))"

section \<open>Lemmas: what the operations leave alone\<close>

lemma handler_update_same [server_simps]:
  "handler k (update_handler i f srv) = (if k = i then map_option f (handler i srv) else handler k srv)"
  by (simp add: handler_def update_handler_def)

lemma srv_queue_update_handler [server_simps]:
  "srv_queue (update_handler i f srv) = srv_queue srv"
  by (simp add: update_handler_def)

lemma update_handler_mutex [server_simps]:
  "client_map_mutex (srv_clients (update_handler i f srv)) = client_map_mutex (srv_clients srv)"
  "free_clients (srv_clients (update_handler i f srv)) = free_clients (srv_clients srv)"
  by (simp_all add: update_handler_def)

lemma notifyUpdate_clients [server_simps]: "srv_clients (notifyUpdate j f srv) = srv_clients srv"
  by (simp add: notifyUpdate_def Let_def case_prod_beta split: option.split)

lemma handler_notifyUpdate [server_simps]: "handler i (notifyUpdate j f srv) = handler i srv"
  by (simp add: handler_def server_simps)

lemma handler_notifyFinish [server_simps]: "handler i (notifyFinish k srv) = handler i srv"
  by (simp add: handler_def notifyFinish_def)

lemma srv_queue_notifyFinish [server_simps]: "srv_queue (notifyFinish k srv) = srv_queue srv"
  by (simp add: notifyFinish_def)

lemma notifyFinish_mutex [server_simps]:
  "client_map_mutex (srv_clients (notifyFinish k srv)) = client_map_mutex (srv_clients srv)"
  by (simp add: notifyFinish_def)

lemma handler_returnJobs [server_simps]: "handler i (returnJobs ts srv) = handler i srv"
  by (simp add: handler_def returnJobs_def update_queue_def)

section \<open>Packets of a client\<close>

datatype client_packet =
  PConnect | PKeepalive | PUpdate "(u32 \<times> u32) list" | PFinish u64

definition update_bytes :: "(u32 \<times> u32) list \<Rightarrow> bytes" where
  "update_bytes us = concat (map (\<lambda>(j, f). u32_bytes j @ u32_bytes f) us)"

fun packet_bytes :: "client_packet \<Rightarrow> bytes" where
  "packet_bytes PConnect = [ClientPacketID_byte CliConnect]"
| "packet_bytes PKeepalive = [ClientPacketID_byte CliKeepalive]"
| "packet_bytes (PUpdate us) =
     [ClientPacketID_byte CliUpdateJob] @ u32_bytes (of_nat (length us)) @ update_bytes us"
| "packet_bytes (PFinish t) = [ClientPacketID_byte CliFinishJob] @ u64_bytes t"

fun packet_ok :: "client_packet \<Rightarrow> bool" where
  "packet_ok (PUpdate us) \<longleftrightarrow> length us < 2 ^ 32"
| "packet_ok _ \<longleftrightarrow> True"

text \<open>What the server does on a packet of client \<open>i\<close>.\<close>

fun packet_effect :: "u32 \<Rightarrow> client_packet \<Rightarrow> Server \<Rightarrow> Server" where
  "packet_effect i PConnect srv = notifyFinish i srv"
| "packet_effect i PKeepalive srv = update_handler i (\<lambda>h. h\<lparr>keepalive := True\<rparr>) srv"
| "packet_effect i (PUpdate us) srv =
     update_handler i (\<lambda>h. h\<lparr>has_received := True\<rparr>)
       (fold (\<lambda>(j, f). notifyUpdate j f) us srv)"
| "packet_effect i (PFinish t) srv = notifyFinish i (set_capability i t srv)"

lemma handler_fold_notifyUpdate [server_simps]:
  "handler i (fold (\<lambda>(j, f). notifyUpdate j f) us srv) = handler i srv"
  by (induction us arbitrary: srv) (auto simp: server_simps)

lemma packet_effect_handler:
  "handler i srv = Some h \<Longrightarrow> \<exists>h'. handler i (packet_effect i p srv) = Some h' \<and>
      ch_socket h' = ch_socket h \<and> ch_active h' = ch_active h \<and>
      active_tasks h' = active_tasks h \<and> task_mutex h' = task_mutex h"
  by (cases p) (auto simp: server_simps set_capability_def)

lemma packet_effect_mutex:
  "client_map_mutex (srv_clients (packet_effect i p srv)) = client_map_mutex (srv_clients srv)"
proof -
  have "srv_clients (fold (\<lambda>(j, f). notifyUpdate j f) us srv) = srv_clients srv" for us
    by (induction us arbitrary: srv) (auto simp: server_simps)
  then show ?thesis
    by (cases p) (auto simp: server_simps set_capability_def)
qed

context tcp_stream
begin

abbreviation dialog :: "('s, 'x, 'a) prog \<Rightarrow> 'x \<Rightarrow> bytes \<Rightarrow> bytes \<Rightarrow> 'a \<Rightarrow> 'x \<Rightarrow> bool" where
  "dialog \<equiv> talks inbox outbox up"

lemma dialog_on_socket:
  "handler_socket i srv = Some fd \<Longrightarrow> moves (f (Some fd)) ins outs v \<Longrightarrow>
   dialog (on_socket i f) srv ins outs v srv"
  using talks_net [of inbox outbox up "f (Some fd)" ins outs v srv]
  by (simp add: talks_def on_socket_def)

lemma dialog_recv [intro]:
  assumes "handler_socket i srv = Some fd"
  shows dialog_recv_u8: "dialog (on_socket i (recv_u8 px)) srv [b] [] b srv"
    and dialog_recv_u32: "dialog (on_socket i (recv_u32 px)) srv (u32_bytes w) [] w srv"
    and dialog_recv_u64: "dialog (on_socket i (recv_u64 px)) srv (u64_bytes d) [] d srv"
  by (rule dialog_on_socket [OF assms]; rule moves_recv_u8 moves_recv_u32 moves_recv_u64)+

lemma dialog_then:
  assumes "handler_socket i srv = Some fd"
  shows dialog_u8_then: "dialog (f b) srv ins outs z srv' \<Longrightarrow>
      dialog (andThen (on_socket i (recv_u8 px)) f) srv (b # ins) outs z srv'"
    and dialog_u32_then: "dialog (g w) srv ins outs z srv' \<Longrightarrow>
      dialog (andThen (on_socket i (recv_u32 px)) g) srv (u32_bytes w @ ins) outs z srv'"
    and dialog_u64_then: "dialog (h d) srv ins outs z srv' \<Longrightarrow>
      dialog (andThen (on_socket i (recv_u64 px)) h) srv (u64_bytes d @ ins) outs z srv'"
  using talks_step [where f = f and v = b, OF dialog_recv_u8 [OF assms]]
    talks_step [where f = g and v = w, OF dialog_recv_u32 [OF assms]]
    talks_step [where f = h and v = d, OF dialog_recv_u64 [OF assms]] by fastforce+

lemma dialog_response_updates:
  "handler_socket i srv = Some fd \<Longrightarrow>
   dialog (forA (length us) (response_update px i)) srv (update_bytes us) [] ()
     (fold (\<lambda>(j, f). notifyUpdate j f) us srv)"
proof (induction us arbitrary: srv)
  case Nil
  then show ?case by (simp add: update_bytes_def talks_ret)
next
  case (Cons u us)
  obtain j f where u: "u = (j, f)" by (cases u)
  have "handler_socket i (notifyUpdate j f srv) = Some fd"
    using Cons.prems by (simp add: handler_socket_def server_simps)
  note IH = Cons.IH [OF this]
  have "dialog (change (\<lambda>srv. ((), notifyUpdate j f srv))) srv [] [] () (notifyUpdate j f srv)"
    by (rule talks_change) simp
  then have "dialog (response_update px i) srv (u32_bytes j @ u32_bytes f @ []) [] ()
      (notifyUpdate j f srv)"
    unfolding response_update_def by (intro dialog_then Cons.prems)
  from talks_step [where f = "\<lambda>_. forA (length us) (response_update px i)", OF this IH refl]
  show ?case by (simp add: u update_bytes_def)
qed

lemmas packet_select =
  ClientPacketID_of_byte option.case ClientPacketID.case packet_bytes.simps append_Cons append_Nil

lemma dialog_response_packet:
  assumes sock: "handler_socket i srv = Some fd" and "packet_ok p"
  shows "dialog (response_packet px i) srv (packet_bytes p) [] () (packet_effect i p srv)"
proof (cases p)
  case PConnect
  have "dialog (change (\<lambda>srv. ((), notifyFinish i srv))) srv [] [] () (notifyFinish i srv)"
    by (rule talks_change) simp
  then show ?thesis
    unfolding response_packet_def PConnect packet_bytes.simps packet_effect.simps
    by (intro dialog_u8_then [OF sock]) (simp only: packet_select)
next
  case PKeepalive
  have "dialog (change (\<lambda>srv. ((), update_handler i (\<lambda>h. h\<lparr>keepalive := True\<rparr>) srv))) srv [] [] ()
      (update_handler i (\<lambda>h. h\<lparr>keepalive := True\<rparr>) srv)"
    by (rule talks_change) simp
  then show ?thesis
    unfolding response_packet_def PKeepalive packet_bytes.simps packet_effect.simps
    by (intro dialog_u8_then [OF sock]) (simp only: packet_select)
next
  case (PUpdate us)
  let ?w = "of_nat (length us) :: u32"
  let ?set = "\<lambda>srv. ((), update_handler i (\<lambda>h. h\<lparr>has_received := True\<rparr>) srv)"
  have len: "unat ?w = length us"
    using assms(2) PUpdate by (simp add: unat_of_nat)
  have "dialog (andThen (forA (unat ?w) (response_update px i)) (\<lambda>_. change ?set)) srv
      (update_bytes us) [] () (packet_effect i p srv)"
    unfolding len PUpdate packet_effect.simps
    by (rule talks_step [OF dialog_response_updates [OF sock] talks_change]) simp_all
  then have "dialog (andThen (on_socket i (recv_u32 px)) (\<lambda>num_updates.
      andThen (forA (unat num_updates) (response_update px i)) (\<lambda>_. change ?set))) srv
      (u32_bytes ?w @ update_bytes us) [] () (packet_effect i p srv)"
    by (rule dialog_u32_then [OF sock])
  then show ?thesis
    unfolding response_packet_def PUpdate packet_bytes.simps append_Cons append_Nil
    by (intro dialog_u8_then [OF sock]) (simp only: packet_select)
next
  case (PFinish t)
  let ?fin = "\<lambda>time_per_frame. change (\<lambda>srv. ((), notifyFinish i (set_capability i time_per_frame srv)))"
  have "dialog (?fin t) srv [] [] () (packet_effect i p srv)"
    unfolding PFinish by (rule talks_change) simp
  then have "dialog (andThen (on_socket i (recv_u64 px)) ?fin) srv
      (u64_bytes t @ []) [] () (packet_effect i p srv)"
    by (rule dialog_u64_then [OF sock])
  then show ?thesis
    unfolding response_packet_def PFinish packet_bytes.simps append_Cons append_Nil append_Nil2
    by (intro dialog_u8_then [OF sock]) (simp only: packet_select)
qed

end

end
