(* ===== verification/Handler_Threads.thy ===== *)
theory Handler_Threads
  imports Client_Manager
begin

text \<open>
  The two threads of a client handler, run to completion on a connection: \<open>handleResponse\<close> reads
  every packet of the client, applies it, and on the end of the stream stops the handler and hands
  its tasks back; a round of \<open>handleIssue\<close> sends exactly the packets of its requests, or, when the
  first packet cannot be sent, blocks on its own mutex.
\<close>

section \<open>Stopping\<close>

definition handler_stopped :: "u32 \<Rightarrow> Server \<Rightarrow> Server" where
  "handler_stopped i srv =
     returnJobs (handler_tasks i srv)
       (update_handler i (\<lambda>h. h\<lparr>ch_active := False, ch_socket := map_option (\<lambda>_. -1) (ch_socket h)\<rparr>)
         srv)"

lemma Socket_close_result: "fst (Socket_close px sk s) = map_option (\<lambda>_. -1) sk"
  by (cases sk) (auto simp: Socket_close_def)

lemma update_handler_twice:
  "update_handler i f (update_handler i g srv) = update_handler i (\<lambda>h. f (g h)) srv"
  by (simp add: update_handler_def handler_def option.map_comp comp_def)

lemma stop_prefix:
  assumes "handler i srv = Some h"
  shows "\<exists>s'. ClientHandler_stop px i (s, srv) =
    attempt (removeClient i) (s', update_handler i
      (\<lambda>h. h\<lparr>ch_active := False, ch_socket := map_option (\<lambda>_. -1) (ch_socket h)\<rparr>) srv)"
proof -
  let ?s1 = "update_handler i (\<lambda>h. h\<lparr>ch_active := False\<rparr>) srv"
  obtain sock s' where c: "Socket_close px (handler_socket i ?s1) s = (sock, s')" by fastforce
  have "sock = map_option (\<lambda>_. -1) (ch_socket h)"
    using Socket_close_result [of px "handler_socket i ?s1" s] c assms
    by (simp add: handler_socket_def server_simps)
  then have "update_handler i (\<lambda>h. h\<lparr>ch_socket := sock\<rparr>) ?s1 = update_handler i
      (\<lambda>h. h\<lparr>ch_active := False, ch_socket := map_option (\<lambda>_. -1) (ch_socket h)\<rparr>) srv"
    using assms by (simp add: update_handler_def handler_def)
  with c show ?thesis
    by (auto simp: ClientHandler_stop_def andThen_def change_def close_handler_socket_def)
qed

lemma ClientHandler_stop_eq:
  assumes "handler i srv = Some h" and "\<not> task_mutex h"
    and "\<not> client_map_mutex (srv_clients srv)"
  shows "\<exists>s'. ClientHandler_stop px i (s, srv) = Some (Inr (), (s', handler_stopped i srv))"
proof -
  from stop_prefix [OF assms(1), of px s] obtain s' where
    "ClientHandler_stop px i (s, srv) = attempt (removeClient i) (s', update_handler i
      (\<lambda>h. h\<lparr>ch_active := False, ch_socket := map_option (\<lambda>_. -1) (ch_socket h)\<rparr>) srv)" ..
  with assms show ?thesis
    by (simp add: attempt_def removeClient_def server_simps handlerJobs_def handler_stopped_def
        handler_tasks_def)
qed

lemma ClientHandler_stop_deadlock:
  assumes "handler i srv = Some h" and "task_mutex h \<or> client_map_mutex (srv_clients srv)"
  shows "\<exists>s'. ClientHandler_stop px i (s, srv) = Some (Inl (Fault SelfDeadlock), (s',
    update_handler i (\<lambda>h. h\<lparr>ch_active := False, ch_socket := map_option (\<lambda>_. -1) (ch_socket h)\<rparr>)
      srv))"
proof -
  from stop_prefix [OF assms(1), of px s] obtain s' where
    "ClientHandler_stop px i (s, srv) = attempt (removeClient i) (s', update_handler i
      (\<lambda>h. h\<lparr>ch_active := False, ch_socket := map_option (\<lambda>_. -1) (ch_socket h)\<rparr>) srv)" ..
  with assms show ?thesis
    by (auto simp: attempt_def removeClient_def server_simps handlerJobs_def)
qed

lemma handler_stopped_handler:
  "handler i srv = Some h \<Longrightarrow> handler i (handler_stopped i srv) =
     Some (h\<lparr>ch_active := False, ch_socket := map_option (\<lambda>_. -1) (ch_socket h)\<rparr>)"
  by (simp add: handler_stopped_def server_simps)

lemma handler_stopped_queue:
  "srv_queue (handler_stopped i srv) = addTasks (handler_tasks i srv) (srv_queue srv)"
  by (simp add: handler_stopped_def returnJobs_def update_queue_def server_simps)

lemma handler_stopped_mutex:
  "client_map_mutex (srv_clients (handler_stopped i srv)) = client_map_mutex (srv_clients srv)"
  by (simp add: handler_stopped_def returnJobs_def update_queue_def server_simps)

section \<open>Reading a whole stream\<close>

definition packets_effect :: "u32 \<Rightarrow> client_packet list \<Rightarrow> Server \<Rightarrow> Server" where
  "packets_effect i ps srv = fold (packet_effect i) ps srv"

lemma packets_effect_handler:
  "handler i srv = Some h \<Longrightarrow> \<exists>h'. handler i (packets_effect i ps srv) = Some h' \<and>
      ch_socket h' = ch_socket h \<and> ch_active h' = ch_active h \<and>
      active_tasks h' = active_tasks h \<and> task_mutex h' = task_mutex h"
proof (induction ps arbitrary: srv h)
  case Nil
  then show ?case by (simp add: packets_effect_def)
next
  case (Cons p ps)
  from packet_effect_handler [OF Cons.prems, of p] obtain h1 where
    h1: "handler i (packet_effect i p srv) = Some h1" "ch_socket h1 = ch_socket h"
      "ch_active h1 = ch_active h" "active_tasks h1 = active_tasks h" "task_mutex h1 = task_mutex h"
    by blast
  from Cons.IH [OF h1(1)] h1 show ?case by (auto simp: packets_effect_def)
qed

lemma packets_effect_mutex:
  "client_map_mutex (srv_clients (packets_effect i ps srv)) = client_map_mutex (srv_clients srv)"
  unfolding packets_effect_def
  by (induction ps arbitrary: srv) (auto simp: packet_effect_mutex)

context tcp_stream
begin

lemma recv_u8_eof:
  assumes "up s" and "inbox s = []"
  shows "\<exists>s'. recv_u8 px (Some fd) s = Some (Inl (RecvIncomplete 0), s') \<and>
    inbox s' = [] \<and> outbox s' = outbox s \<and> up s'"
  using recvFully_eof [OF assms(1), of 1] assms(2) unfolding recv_u8_def
  by (auto simp: andThen_Inl)

lemma response_packet_eof:
  assumes "handler_socket i srv = Some fd" and "up s" and "inbox s = []"
  shows "\<exists>s'. response_packet px i (s, srv) = Some (Inl (Exn (RecvIncomplete 0)), (s', srv)) \<and>
    outbox s' = outbox s \<and> up s'"
proof -
  from recv_u8_eof [OF assms(2,3)] obtain s' where
    "recv_u8 px (Some fd) s = Some (Inl (RecvIncomplete 0), s')" "outbox s' = outbox s" "up s'"
    by blast
  with assms(1) show ?thesis
    unfolding response_packet_def by (auto simp: andThen_def on_socket_def net_def)
qed

lemma response_loop_stream:
  assumes "handler i srv = Some h" and "ch_socket h = Some fd" and "ch_active h"
    and "\<forall>p \<in> set ps. packet_ok p" and "up s" and "inbox s = concat (map packet_bytes ps)"
  shows "\<exists>s'. response_loop px i (s, srv) =
      Some (Inl (Exn (RecvIncomplete 0)), (s', packets_effect i ps srv)) \<and>
    outbox s' = outbox s \<and> up s'"
  using assms
proof (induction ps arbitrary: s srv h)
  case Nil
  then have "handler_socket i srv = Some fd" by (simp add: handler_socket_def)
  from response_packet_eof [OF this Nil.prems(5)] Nil.prems show ?case
    by (auto simp: response_loop.simps [of px i "(s, srv)"] handler_active_def packets_effect_def)
next
  case (Cons p ps)
  then have sock: "handler_socket i srv = Some fd" and ok: "packet_ok p"
    by (simp_all add: handler_socket_def)
  let ?srv = "packet_effect i p srv"
  from talksD [OF dialog_response_packet [OF sock ok] Cons.prems(5), of "concat (map packet_bytes ps)"]
    Cons.prems(6)
  obtain s1 where s1: "response_packet px i (s, srv) = Some (Inr (), (s1, ?srv))"
    "inbox s1 = concat (map packet_bytes ps)" "outbox s1 = outbox s" "up s1"
    by auto
  from packet_effect_handler [OF Cons.prems(1), of p] obtain h1 where
    h1: "handler i ?srv = Some h1" "ch_socket h1 = ch_socket h" "ch_active h1 = ch_active h"
    by blast
  have "response_loop px i (s, srv) = response_loop px i (s1, ?srv)"
    using s1(1) Cons.prems(1,3)
    by (subst response_loop.simps) (simp add: handler_active_def)
  with Cons.IH [OF h1(1) _ _ _ s1(4) s1(2)] h1 Cons.prems s1(3) show ?case
    by (auto simp: packets_effect_def)
qed

text \<open>
  The whole thread: it returns, the packets have been applied in order, and the handler is stopped
  with its active tasks handed back.
\<close>

lemma handleResponse_stream:
  assumes "handler i srv = Some h" and "ch_socket h = Some fd" and "ch_active h"
    and "\<not> task_mutex h" and "\<not> client_map_mutex (srv_clients srv)"
    and "\<forall>p \<in> set ps. packet_ok p" and "up s" and "inbox s = concat (map packet_bytes ps)"
  shows "\<exists>s'. handleResponse px i (s, srv) =
    Some (Inr (), (s', handler_stopped i (packets_effect i ps srv)))"
proof -
  let ?srv = "packets_effect i ps srv"
  let ?srv1 = "update_handler i (\<lambda>h. h\<lparr>ch_active := False\<rparr>) ?srv"
  from response_loop_stream [OF assms(1-3,6-8)] obtain s1 where
    s1: "response_loop px i (s, srv) = Some (Inl (Exn (RecvIncomplete 0)), (s1, ?srv))" by blast
  from packets_effect_handler [OF assms(1), of ps] obtain h1 where
    h1: "handler i ?srv = Some h1" "task_mutex h1 = task_mutex h" "active_tasks h1 = active_tasks h"
    by blast
  then have "handler i ?srv1 = Some (h1\<lparr>ch_active := False\<rparr>)" by (simp add: server_simps)
  from ClientHandler_stop_eq [OF this, of px s1] h1(2) assms(4,5) obtain s2 where
    "ClientHandler_stop px i (s1, ?srv1) = Some (Inr (), (s2, handler_stopped i ?srv1))"
    by (auto simp: server_simps packets_effect_mutex)
  moreover have "handler_stopped i ?srv1 = handler_stopped i ?srv"
    using h1 by (simp add: handler_stopped_def update_handler_twice handler_tasks_def server_simps)
  ultimately show ?thesis
    using s1 by (simp add: handleResponse_def catchNet_def andThen_def change_def ret_def)
qed

end

section \<open>Issuing\<close>

lemma job_requests_lengths:
  "r \<in> set (job_requests ts) \<Longrightarrow> length (rq_frames r) \<le> length ts"
  by (auto simp: job_requests_set request_of_def tasks_of_def)

lemma job_requests_Nil_iff: "job_requests ts = [] \<longleftrightarrow> ts = []"
proof
  assume "job_requests ts = []"
  with job_requests_set [of _ ts] have none: "tasks_of i ts = []" for i by auto
  show "ts = []"
  proof (cases ts)
    case (Cons t ts')
    with none [of "task_job t"] show ?thesis by (simp add: tasks_of_def)
  qed simp
qed (simp add: job_requests_def)

context tcp_stream
begin

lemma issueRequest_ok:
  "up s \<Longrightarrow> length bs < 2 ^ 64 \<Longrightarrow>
   \<exists>s'. issueRequest px (Some fd) bs s = Some (Inr True, s') \<and>
     outbox s' = outbox s @ bs \<and> inbox s' = inbox s \<and> up s'"
  using sendFully_ok [of s bs] by (auto simp: issueRequest_def)

lemma send_requests_ok:
  assumes "handler_socket i srv = Some fd" and "up s"
    and "\<forall>r \<in> set rs. length (rq_frames r) < 2 ^ 32 \<and> length (issue_bytes r) < 2 ^ 64"
  shows "\<exists>s'. foreachA rs (send_request px junk i) (s, srv) = Some (Inr True, (s', srv)) \<and>
    outbox s' = outbox s @ concat (map issue_bytes rs) \<and> inbox s' = inbox s \<and> up s'"
  using assms(2,3)
proof (induction rs arbitrary: s)
  case Nil
  then show ?case by (simp add: ret_def)
next
  case (Cons r rs)
  then obtain s1 where s1: "issueRequest px (Some fd) (issue_bytes r) s = Some (Inr True, s1)"
    "outbox s1 = outbox s @ issue_bytes r" "inbox s1 = inbox s" "up s1"
    using issueRequest_ok [of s "issue_bytes r"] by auto
  have "send_request px junk i r (s, srv) = Some (Inr True, (s1, srv))"
    using s1(1) assms(1) Cons.prems(2)
    by (simp add: send_request_def issue_packet_eq andThen_def on_socket_def net_def ret_def)
  with Cons.IH [OF s1(4)] Cons.prems(2) s1 show ?case
    by (auto simp: andThen_Inr)
qed

lemma handleIssue_round_ok:
  assumes "handler i srv = Some h" and "ch_socket h = Some fd" and "ch_active h" and "up s"
    and "\<forall>r \<in> set (job_requests (active_tasks h)).
      length (rq_frames r) < 2 ^ 32 \<and> length (issue_bytes r) < 2 ^ 64"
  shows "\<exists>s'. handleIssue_round px junk i (s, srv) =
      Some (Inr True, (s', lock_tasks False i (start_issue i srv))) \<and>
    outbox s' = outbox s @ concat (map issue_bytes (job_requests (active_tasks h))) \<and> up s'"
proof -
  let ?srv1 = "start_issue i (lock_tasks True i srv)"
  have "handler_socket i ?srv1 = Some fd" and t: "handler_tasks i ?srv1 = active_tasks h"
    using assms(1,2)
    by (simp_all add: handler_socket_def handler_tasks_def start_issue_def lock_tasks_def server_simps)
  from send_requests_ok [OF this(1) assms(4,5), of junk] obtain s' where
    s': "foreachA (job_requests (active_tasks h)) (send_request px junk i) (s, ?srv1) =
        Some (Inr True, (s', ?srv1))"
      "outbox s' = outbox s @ concat (map issue_bytes (job_requests (active_tasks h)))" "up s'"
    by blast
  have "lock_tasks False i ?srv1 = lock_tasks False i (start_issue i srv)"
    by (simp add: lock_tasks_def start_issue_def update_handler_twice)
  moreover have "handler_active i (lock_tasks True i srv)"
    using assms(1,3) by (simp add: handler_active_def lock_tasks_def server_simps)
  ultimately show ?thesis
    using s' t by (simp add: handleIssue_round_def andThen_def change_def)
qed

end

text \<open>A failed send: the thread, which holds the task mutex, stops its own handler.\<close>

lemma handleIssue_round_deadlock:
  assumes "handler i srv = Some h" and "ch_active h"
    and "job_requests (active_tasks h) = r # rs" and "length (rq_frames r) < 2 ^ 32"
    and "sendFully px (ch_socket h) (issue_bytes r) s = Some (Inl e, s1)"
  shows "\<exists>s' srv'. handleIssue_round px junk i (s, srv) =
      Some (Inl (Fault SelfDeadlock), (s', srv')) \<and>
    handler_tasks i srv' = [] \<and> srv_queue srv' = srv_queue srv"
proof -
  let ?srv1 = "start_issue i (lock_tasks True i srv)"
  let ?srv2 = "update_handler i (\<lambda>h. h\<lparr>active_tasks := []\<rparr>) ?srv1"
  have sock: "handler_socket i ?srv1 = ch_socket h" and t: "handler_tasks i ?srv1 = active_tasks h"
    and act: "handler_active i (lock_tasks True i srv)"
    using assms(1,2) by (simp_all add: handler_socket_def handler_tasks_def start_issue_def
        lock_tasks_def server_simps handler_active_def)
  have h2: "\<exists>h2. handler i ?srv2 = Some h2 \<and> task_mutex h2 \<and> active_tasks h2 = []"
    using assms(1) by (simp add: start_issue_def lock_tasks_def server_simps)
  then obtain h2 where h2: "handler i ?srv2 = Some h2" "task_mutex h2" "active_tasks h2 = []" by blast
  have "issueRequest px (ch_socket h) (issue_bytes r) s = Some (Inr False, s1)"
    using assms(5) by (simp add: issueRequest_def)
  moreover from ClientHandler_stop_deadlock [OF h2(1), of px s1] h2(2) obtain s2 where
    "ClientHandler_stop px i (s1, ?srv2) = Some (Inl (Fault SelfDeadlock), (s2,
      update_handler i (\<lambda>h. h\<lparr>ch_active := False, ch_socket := map_option (\<lambda>_. -1) (ch_socket h)\<rparr>)
        ?srv2))" by blast
  ultimately have "handleIssue_round px junk i (s, srv) =
      Some (Inl (Fault SelfDeadlock), (s2, update_handler i
        (\<lambda>h. h\<lparr>ch_active := False, ch_socket := map_option (\<lambda>_. -1) (ch_socket h)\<rparr>) ?srv2))"
    using t act sock assms(3,4)
    by (simp add: handleIssue_round_def andThen_def change_def send_request_def issue_packet_eq
        on_socket_def net_def)
  then show ?thesis
    using assms(1) by (simp add: handler_tasks_def server_simps start_issue_def lock_tasks_def)
qed

text \<open>A server with one connected client, for concrete runs.\<close>

definition demo_server :: "Task list \<Rightarrow> Server" where
  "demo_server ts =
     \<lparr>srv_queue = JobQueue_new,
      srv_clients = (ClientManager_new 4242 30)\<lparr>cm_active := True, client_id_offset := 1,
        client_map := [0 \<mapsto> (ClientHandler_run (ClientHandler_new (Some 3) 0))\<lparr>active_tasks := ts\<rparr>]\<rparr>\<rparr>"

lemma demo_server_handler:
  "handler 0 (demo_server ts) =
     Some ((ClientHandler_run (ClientHandler_new (Some 3) 0))\<lparr>active_tasks := ts\<rparr>)"
  "client_map_mutex (srv_clients (demo_server ts)) = False"
  by (simp_all add: demo_server_def handler_def ClientManager_new_def)

lemma demo_handler_fields [simp]:
  "ch_socket (ClientHandler_run (ClientHandler_new sk i)) = sk"
  "ch_active (ClientHandler_run (ClientHandler_new sk i))"
  "\<not> task_mutex (ClientHandler_run (ClientHandler_new sk i))"
  by (simp_all add: ClientHandler_run_def ClientHandler_new_def)

lemma ClientHandler_stop_queue:
  assumes "handler i srv = Some h" and "\<not> task_mutex h" and "\<not> client_map_mutex (srv_clients srv)"
  shows "\<exists>s'. ClientHandler_stop px i (s, srv) = Some (Inr (), (s', handler_stopped i srv)) \<and>
    task_queue (srv_queue (handler_stopped i srv)) = task_queue (srv_queue srv) @ active_tasks h"
  using ClientHandler_stop_eq [OF assms, of px s] assms(1)
  by (auto simp: handler_stopped_queue addTasks_def handler_tasks_def)

section \<open>Properties\<close>

text \<open>C12: The thread that reads from a client returns: it applies the packets of the stream one after the
  other, whatever the sizes in which they arrive, and when the stream ends it stops the handler,
  which closes the socket and hands the client's active tasks back to the queue.\<close>

theorem response_thread_applies_stream:
  assumes "tcp_stream px fd inbox outbox up" and "handler i srv = Some h" and "ch_socket h = Some fd"
    and "ch_active h" and "\<not> task_mutex h" and "\<not> client_map_mutex (srv_clients srv)"
    and "\<forall>p \<in> set ps. packet_ok p" and "up s" and "inbox s = concat (map packet_bytes ps)"
  shows "\<exists>s' srv'. handleResponse px i (s, srv) = Some (Inr (), (s', srv')) \<and>
    srv' = handler_stopped i (fold (packet_effect i) ps srv) \<and>
    handler_socket i srv' = Some (-1) \<and> \<not> handler_active i srv' \<and>
    srv_queue srv' = addTasks (active_tasks h) (srv_queue (fold (packet_effect i) ps srv))"
proof -
  let ?srv = "packets_effect i ps srv"
  from tcp_stream.handleResponse_stream [OF assms] obtain s' where
    run: "handleResponse px i (s, srv) = Some (Inr (), (s', handler_stopped i ?srv))" by blast
  from packets_effect_handler [OF assms(2), of ps] obtain h1 where
    h1: "handler i ?srv = Some h1" "ch_socket h1 = ch_socket h" "active_tasks h1 = active_tasks h"
    by blast
  from run handler_stopped_handler [OF h1(1)] h1 assms(3) show ?thesis
    by (auto simp: packets_effect_def handler_socket_def handler_active_def handler_stopped_queue
        handler_tasks_def)
qed

lemma response_thread_applies_stream_witness:
  "\<exists>s' srv'. handleResponse sim_posix 0
       (sim_with (packet_bytes PConnect @ packet_bytes PKeepalive) [1] [],
        demo_server [Task_new [1] 0 60 4 4 0]) = Some (Inr (), (s', srv')) \<and>
     handler_socket 0 srv' = Some (-1)"
  using response_thread_applies_stream [OF sim.tcp_stream_axioms, where i = 0
      and srv = "demo_server [Task_new [1] 0 60 4 4 0]" and ps = "[PConnect, PKeepalive]"
      and s = "sim_with (packet_bytes PConnect @ packet_bytes PKeepalive) [1] []",
      OF demo_server_handler(1)]
  by (auto simp: demo_server_handler(2))

text \<open>A round of the issuing thread on a working connection returns and has sent, in the order of the
  job ids, exactly the ISSUE_JOB packets of the batch; the handler keeps the batch as its active
  tasks and the task mutex is free again.\<close>

theorem issue_round_sends_batch:
  assumes "tcp_stream px fd inbox outbox up" and "handler i srv = Some h" and "ch_socket h = Some fd"
    and "ch_active h" and "up s"
    and "\<forall>r \<in> set (job_requests (active_tasks h)).
      length (rq_frames r) < 2 ^ 32 \<and> length (issue_bytes r) < 2 ^ 64"
  shows "\<exists>s' srv'. handleIssue_round px junk i (s, srv) = Some (Inr True, (s', srv')) \<and>
    outbox s' = outbox s @ concat (map issue_bytes (job_requests (active_tasks h))) \<and>
    handler i srv' = Some (h\<lparr>new_jobs := False, rendered_frames := length (active_tasks h),
      task_mutex := False\<rparr>) \<and> srv_queue srv' = srv_queue srv"
proof -
  from tcp_stream.handleIssue_round_ok [OF assms, of junk] obtain s' where
    "handleIssue_round px junk i (s, srv) = Some (Inr True, (s', lock_tasks False i (start_issue i srv)))"
    "outbox s' = outbox s @ concat (map issue_bytes (job_requests (active_tasks h)))" by blast
  with assms(2) show ?thesis
    by (simp add: lock_tasks_def start_issue_def server_simps)
qed

lemma issue_round_sends_batch_witness:
  "\<exists>s' srv'. handleIssue_round sim_posix (\<lambda>_. 0) 0
       (sim_with [] [2, 5] [], demo_server [Task_new [1] 7 60 4 4 0]) = Some (Inr True, (s', srv')) \<and>
     sim_out s' = issue_bytes (request_of 0 [Task_new [1] 7 60 4 4 0])"
proof -
  have one: "job_requests [Task_new [1] 7 60 4 4 0] = [request_of 0 [Task_new [1] 7 60 4 4 0]]"
    by (simp add: job_requests_def request_task_def request_of_def Task_new_def)
  then show ?thesis
    using issue_round_sends_batch [OF sim.tcp_stream_axioms
        demo_server_handler(1) [of "[Task_new [1] 7 60 4 4 0]"],
        where s = "sim_with [] [2, 5] []" and junk = "\<lambda>_. 0"]
    by (auto simp: issue_bytes_def request_of_def Task_new_def)
qed

text \<open>C13: When the first packet of a batch cannot be sent, the issuing thread blocks on its own mutex: it
  holds the task mutex while it stops its handler, and stopping asks for the active tasks under
  the same mutex. The batch, cleared before, is not handed back: its frames are lost.\<close>

theorem issue_failure_deadlocks:
  assumes "handler i srv = Some h" and "ch_active h" and "active_tasks h \<noteq> []"
    and "length (active_tasks h) < 2 ^ 32"
    and "sendFully px (ch_socket h) (issue_bytes (hd (job_requests (active_tasks h)))) s =
      Some (Inl e, s1)"
  shows "\<exists>s' srv'. handleIssue_round px junk i (s, srv) = Some (Inl (Fault SelfDeadlock), (s', srv')) \<and>
    handler_tasks i srv' = [] \<and> srv_queue srv' = srv_queue srv"
proof -
  obtain r rs where rs: "job_requests (active_tasks h) = r # rs"
    using assms(3) job_requests_Nil_iff by (cases "job_requests (active_tasks h)") auto
  then have "length (rq_frames r) < 2 ^ 32"
    using job_requests_lengths [of r "active_tasks h"] assms(4) by simp
  moreover have "sendFully px (ch_socket h) (issue_bytes r) s = Some (Inl e, s1)"
    using assms(5) rs by simp
  ultimately show ?thesis by (rule handleIssue_round_deadlock [OF assms(1,2) rs])
qed

lemma issue_failure_deadlocks_witness:
  "\<exists>s' srv'. handleIssue_round sim_posix (\<lambda>_. 0) 0
       (sim_with [] [] [], update_handler 0 (\<lambda>h. h\<lparr>ch_socket := Some (-1)\<rparr>)
         (demo_server [Task_new [1] 7 60 4 4 0])) = Some (Inl (Fault SelfDeadlock), (s', srv')) \<and>
     handler_tasks 0 srv' = []"
proof -
  let ?h = "(ClientHandler_run (ClientHandler_new (Some 3) 0))\<lparr>active_tasks := [Task_new [1] 7 60 4 4 0],
      ch_socket := Some (-1)\<rparr>"
  let ?srv = "update_handler 0 (\<lambda>h. h\<lparr>ch_socket := Some (-1)\<rparr>) (demo_server [Task_new [1] 7 60 4 4 0])"
  have h: "handler 0 ?srv = Some ?h" by (simp add: server_simps demo_server_handler)
  have "\<exists>e s1. sendFully sim_posix (Some (-1)) bs (sim_with [] [] []) = Some (Inl e, s1)"
    if "bs \<noteq> []" for bs
    using that by (simp add: sendFully_def sendFully_loop.simps Socket_send_def sim_posix_simps sim_send_def)
  moreover have "issue_bytes r \<noteq> []" for r by (simp add: issue_bytes_def)
  ultimately obtain e s1 where "sendFully sim_posix (ch_socket ?h)
      (issue_bytes (hd (job_requests (active_tasks ?h)))) (sim_with [] [] []) = Some (Inl e, s1)"
    by fastforce
  from issue_failure_deadlocks [OF h _ _ _ this, of "\<lambda>_. 0"] show ?thesis by auto
qed

text \<open>Stopping a handler twice hands its tasks back twice: the reading thread stops it at the end of
  the stream, and when the keepalive of the client then fails the manager stops it again before it
  erases it, so each of its frames is in the queue two times.\<close>

theorem keepalive_returns_tasks_again:
  assumes "handler i srv = Some h" and "\<not> task_mutex h" and "\<not> client_map_mutex (srv_clients srv)"
  shows "\<exists>s1 srv1 s2 srv2. ClientHandler_stop px i (s, srv) = Some (Inr (), (s1, srv1)) \<and>
    keepalive_failed px i (s1, srv1) = Some (Inr (), (s2, srv2)) \<and>
    task_queue (srv_queue srv2) = task_queue (srv_queue srv) @ active_tasks h @ active_tasks h \<and>
    handler i srv2 = None"
proof -
  from ClientHandler_stop_queue [OF assms, of px s] obtain s1 where
    first: "ClientHandler_stop px i (s, srv) = Some (Inr (), (s1, handler_stopped i srv))"
      "task_queue (srv_queue (handler_stopped i srv)) = task_queue (srv_queue srv) @ active_tasks h"
    by blast
  let ?srv1 = "handler_stopped i srv"
  have h1: "handler i ?srv1 = Some (h\<lparr>ch_active := False, ch_socket := map_option (\<lambda>_. -1) (ch_socket h)\<rparr>)"
    by (rule handler_stopped_handler [OF assms(1)])
  have "\<not> client_map_mutex (srv_clients ?srv1)"
    using assms(3) by (simp add: handler_stopped_mutex)
  from ClientHandler_stop_queue [OF h1 _ this, of px s1] assms(2) obtain s2 where
    second: "ClientHandler_stop px i (s1, ?srv1) = Some (Inr (), (s2, handler_stopped i ?srv1))"
      "task_queue (srv_queue (handler_stopped i ?srv1)) =
        task_queue (srv_queue ?srv1) @ active_tasks h" by auto
  with first show ?thesis
    by (auto simp: keepalive_failed_def andThen_def close_handler_socket_def change_def
        erase_client_def handler_def server_simps split: prod.split)
qed

lemma keepalive_returns_tasks_again_witness:
  "\<exists>s1 srv1 s2 srv2. ClientHandler_stop sim_posix 0 (sim_with [] [] [],
       demo_server [Task_new [1] 7 60 4 4 0]) = Some (Inr (), (s1, srv1)) \<and>
     keepalive_failed sim_posix 0 (s1, srv1) = Some (Inr (), (s2, srv2)) \<and>
     task_queue (srv_queue srv2) = [Task_new [1] 7 60 4 4 0, Task_new [1] 7 60 4 4 0]"
  using keepalive_returns_tasks_again [OF demo_server_handler(1) [of "[Task_new [1] 7 60 4 4 0]"],
      of sim_posix "sim_with [] [] []"]
  by (auto simp: demo_server_handler(2)) (simp add: demo_server_def JobQueue_new_def)

text \<open>The destructor of the client manager blocks on its own mutex as soon as there is a client: it
  holds the map mutex while it stops the handlers, and each of them locks it.\<close>

theorem manager_destructor_deadlocks:
  assumes "handler i srv = Some h"
  shows "\<exists>w. ClientManager_destroy px (i # is) (s, srv) = Some (Inl (Fault SelfDeadlock), w)"
proof -
  have "handler i (lock_map True srv) = Some h" "client_map_mutex (srv_clients (lock_map True srv))"
    using assms by (simp_all add: lock_map_def handler_def)
  from ClientHandler_stop_deadlock [OF this(1), of px s] this(2) show ?thesis
    by (auto simp: ClientManager_destroy_def andThen_def change_def)
qed

lemma manager_destructor_deadlocks_witness:
  "\<exists>w. ClientManager_destroy sim_posix [0] (sim_with [] [] [], demo_server []) =
     Some (Inl (Fault SelfDeadlock), w)"
  by (rule manager_destructor_deadlocks [OF demo_server_handler(1)])

end
