(* ===== verification/Server_System.thy ===== *)
theory Server_System
  imports Handler_Threads
begin

text \<open>
  The server as a whole: the job queue, the distribution loop and the client handlers, as a state
  machine whose steps are the critical sections of their threads, in any interleaving. Two ghost
  components record which frames the clients hold and which they have reported. In a run in which a
  client reports only frames it holds, and hands back only such frames, every frame of every job is
  in exactly one place: the bookkeeping of the queue cannot go wrong, and the access to the table
  of jobs in \<open>getJobs\<close> does not fail.
\<close>

named_theorems system_simps

section \<open>States and events\<close>

record System =
  sys_srv :: Server
  sys_dist :: distribution
  sys_out :: "(u32 \<times> u32) multiset"
  sys_reported :: "u32 \<Rightarrow> u32 multiset"

datatype event =
    EvUpload bytes u32 u32 u32 u32
  | EvStatus "u32 list"
  | EvAccept socket
  | EvPacket u32 client_packet
  | EvReport u32 u32
  | EvPick
  | EvCapability
  | EvFetch
  | EvSubmit
  | EvIssue u32
  | EvLose u32
  | EvErase u32

definition System_new :: "int \<Rightarrow> nat \<Rightarrow> System" where
  "System_new port time =
     \<lparr>sys_srv = \<lparr>srv_queue = JobQueue_new,
                 srv_clients = (ClientManager_new port time)\<lparr>cm_active := True\<rparr>\<rparr>,
      sys_dist = DistIdle, sys_out = {#}, sys_reported = (\<lambda>_. {#})\<rparr>"

definition frame_pairs :: "Task list \<Rightarrow> (u32 \<times> u32) multiset" where
  "frame_pairs ts = mset (map (\<lambda>t. (task_job t, task_frame t)) ts)"

fun held_tasks :: "distribution \<Rightarrow> Task list" where
  "held_tasks (DistTasks i ts) = ts"
| "held_tasks _ = []"

definition accepts :: "u32 \<Rightarrow> Server \<Rightarrow> bool" where
  "accepts i srv = handler_active i srv"

text \<open>
  One critical section. \<open>None\<close>: it is not enabled (a wait blocks, or the distribution loop is
  elsewhere). A packet of updates is a sequence of reports.
\<close>

fun sys_step :: "event \<Rightarrow> System \<Rightarrow> (fault + System) option" where
  "sys_step (EvUpload shader frames fps w h) S =
     (case addJob shader frames fps w h (srv_queue (sys_srv S)) of (i, q) \<Rightarrow>
        Some (Inr (S\<lparr>sys_srv := (sys_srv S)\<lparr>srv_queue := q\<rparr>,
                     sys_reported := (sys_reported S)(i := {#})\<rparr>)))"
| "sys_step (EvStatus order) S =
     Some (Inr (S\<lparr>sys_srv := update_queue (\<lambda>q. snd (getStatus order q)) (sys_srv S)\<rparr>))"
| "sys_step (EvAccept sock) S = Some (Inr (S\<lparr>sys_srv := handleClient sock (sys_srv S)\<rparr>))"
| "sys_step (EvPacket i p) S =
     (case p of PUpdate us \<Rightarrow> None
      | _ \<Rightarrow> Some (Inr (S\<lparr>sys_srv := packet_effect i p (sys_srv S)\<rparr>)))"
| "sys_step (EvReport j f) S =
     Some (Inr (S\<lparr>sys_srv := notifyUpdate j f (sys_srv S), sys_out := sys_out S - {#(j, f)#},
                  sys_reported := (sys_reported S)(j := add_mset f (sys_reported S j))\<rparr>))"
| "sys_step EvPick S =
     (case sys_dist S of
        DistIdle \<Rightarrow> (case dist_pick (sys_srv S) of None \<Rightarrow> None
          | Some (d, srv) \<Rightarrow> Some (Inr (S\<lparr>sys_srv := srv, sys_dist := d\<rparr>)))
      | _ \<Rightarrow> None)"
| "sys_step EvCapability S =
     (case sys_dist S of
        DistClient i \<Rightarrow> Some (Inr (S\<lparr>sys_dist := dist_capability i (sys_srv S)\<rparr>))
      | _ \<Rightarrow> None)"
| "sys_step EvFetch S =
     (case sys_dist S of
        DistCapability i n \<Rightarrow> (case dist_fetch i n (sys_srv S) of
            None \<Rightarrow> None
          | Some (Inl f) \<Rightarrow> Some (Inl f)
          | Some (Inr (d, srv)) \<Rightarrow> Some (Inr (S\<lparr>sys_srv := srv, sys_dist := d\<rparr>)))
      | _ \<Rightarrow> None)"
| "sys_step EvSubmit S =
     (case sys_dist S of
        DistTasks i ts \<Rightarrow> Some (Inr (S\<lparr>sys_srv := dist_submit i ts (sys_srv S), sys_dist := DistIdle,
          sys_out := (if accepts i (sys_srv S) then sys_out S + frame_pairs ts else sys_out S)\<rparr>))
      | _ \<Rightarrow> None)"
| "sys_step (EvIssue i) S =
     Some (Inr (S\<lparr>sys_srv := lock_tasks False i (start_issue i (sys_srv S))\<rparr>))"
| "sys_step (EvLose i) S =
     Some (Inr (S\<lparr>sys_srv := handler_stopped i (sys_srv S),
                  sys_out := sys_out S - frame_pairs (handler_tasks i (sys_srv S))\<rparr>))"
| "sys_step (EvErase i) S = Some (Inr (S\<lparr>sys_srv := erase_client i (sys_srv S)\<rparr>))"

fun sys_run :: "event list \<Rightarrow> System \<Rightarrow> (fault + System) option" where
  "sys_run [] S = Some (Inr S)"
| "sys_run (e # es) S =
     (case sys_step e S of Some (Inr S') \<Rightarrow> sys_run es S' | r \<Rightarrow> r)"

text \<open>
  What the clients owe: a report names a frame that a client holds, and a client that goes away
  hands back frames it still holds. An upload finds an unused id (ids repeat after \<open>2 ^ 32\<close> uploads).
\<close>

fun honest :: "System \<Rightarrow> event \<Rightarrow> bool" where
  "honest S (EvUpload shader frames fps w h) \<longleftrightarrow> fresh_offset (srv_queue (sys_srv S))"
| "honest S (EvReport j f) \<longleftrightarrow> (j, f) \<in># sys_out S"
| "honest S (EvLose i) \<longleftrightarrow> frame_pairs (handler_tasks i (sys_srv S)) \<subseteq># sys_out S"
| "honest S _ \<longleftrightarrow> True"

inductive honest_run :: "int \<Rightarrow> nat \<Rightarrow> System \<Rightarrow> bool" for port :: int and time :: nat where
  start: "honest_run port time (System_new port time)"
| step: "honest_run port time S \<Longrightarrow> honest S e \<Longrightarrow> sys_step e S = Some (Inr S') \<Longrightarrow>
    honest_run port time S'"

inductive_cases honest_runE: "honest_run port time S"

section \<open>The ledger\<close>

definition frame_pool :: "System \<Rightarrow> (u32 \<times> u32) multiset" where
  "frame_pool S =
     frame_pairs (pending (srv_queue (sys_srv S))) + frame_pairs (held_tasks (sys_dist S)) + sys_out S"

definition frames_at :: "u32 \<Rightarrow> (u32 \<times> u32) multiset \<Rightarrow> u32 multiset" where
  "frames_at j M = image_mset snd (filter_mset (\<lambda>p. fst p = j) M)"

definition all_frames :: "u32 \<Rightarrow> u32 multiset" where
  "all_frames n = mset (map of_nat [0 ..< unat n])"

text \<open>A job that waits in the queue has frames to hand out, or never had any.\<close>

definition live_queue :: "JobQueue \<Rightarrow> bool" where
  "live_queue q \<longleftrightarrow>
     (\<forall>i \<in> set (job_queue q). \<exists>j. jobs q i = Some j \<and> (hasTasks j \<or> total_frames j = 0))"

definition job_ledger :: "u32 multiset \<Rightarrow> u32 multiset \<Rightarrow> Job \<Rightarrow> bool" where
  "job_ledger reported pool job \<longleftrightarrow>
     reported + pool = all_frames (total_frames job) \<and>
     unat (frames_rendered job) = size reported \<and>
     (total_frames job \<noteq> 0 \<longrightarrow> frames_rendered job \<noteq> total_frames job)"

definition ledger :: "System \<Rightarrow> bool" where
  "ledger S \<longleftrightarrow>
     (let q = srv_queue (sys_srv S) in
      queue_inv q \<and> live_queue q \<and>
      (\<forall>j job. jobs q j = Some job \<longrightarrow>
         job_ledger (sys_reported S j) (frames_at j (frame_pool S)) job) \<and>
      (\<forall>p \<in># frame_pool S. fst p \<in> dom (jobs q)))"

lemma frame_pairs_append [simp]: "frame_pairs (ts @ us) = frame_pairs ts + frame_pairs us"
  by (simp add: frame_pairs_def)

lemma frame_pairs_Nil [simp]: "frame_pairs [] = {#}"
  by (simp add: frame_pairs_def)

lemma frames_at_add [simp]: "frames_at j (M + N) = frames_at j M + frames_at j N"
  by (simp add: frames_at_def)

lemma frames_at_empty: "\<forall>p \<in># M. fst p \<noteq> j \<Longrightarrow> frames_at j M = {#}"
  by (auto simp: frames_at_def filter_mset_eq_conv)

lemma frames_at_add_mset:
  "frames_at j (add_mset (k, f) M) = (if k = j then add_mset f (frames_at j M) else frames_at j M)"
  by (simp add: frames_at_def)

lemma size_all_frames [simp]: "size (all_frames n) = unat n"
  by (simp add: all_frames_def)

lemma frames_at_empty_conv: "frames_at j M = {#} \<longleftrightarrow> (\<forall>p \<in># M. fst p \<noteq> j)"
  by (auto simp: frames_at_def simp flip: set_mset_eq_empty_iff)

lemma same_progress_job:
  assumes "same_progress q q'" and "jobs q j = Some job"
  shows "\<exists>job'. jobs q' j = Some job' \<and> total_frames job' = total_frames job \<and>
    frames_rendered job' = frames_rendered job"
proof -
  from assms obtain job' where job': "jobs q' j = Some job'"
    unfolding same_progress_def by (metis domD domI)
  moreover from assms job' have "map_option frames_rendered (Some job') = Some (frames_rendered job)"
    "map_option total_frames (Some job') = Some (total_frames job)"
    unfolding same_progress_def by (metis option.simps(9))+
  ultimately show ?thesis by simp
qed

text \<open>Most steps only move tasks about.\<close>

lemma ledger_moved:
  assumes "ledger S"
    and "queue_inv (srv_queue (sys_srv S'))" and "live_queue (srv_queue (sys_srv S'))"
    and "same_progress (srv_queue (sys_srv S)) (srv_queue (sys_srv S'))"
    and "frame_pool S' = frame_pool S" and "sys_reported S' = sys_reported S"
  shows "ledger S'"
proof -
  let ?q = "srv_queue (sys_srv S)" and ?q' = "srv_queue (sys_srv S')"
  have "job_ledger (sys_reported S' j) (frames_at j (frame_pool S')) job'"
    if "jobs ?q' j = Some job'" for j job'
  proof -
    from assms(4) that obtain job where job: "jobs ?q j = Some job"
      unfolding same_progress_def by (metis domD domI)
    with assms(4) that have "frames_rendered job' = frames_rendered job"
      "total_frames job' = total_frames job"
      unfolding same_progress_def by (metis option.inject option.simps(9))+
    with assms(1,5,6) job show ?thesis
      by (simp add: ledger_def Let_def job_ledger_def)
  qed
  moreover have "dom (jobs ?q') = dom (jobs ?q)" using assms(4) by (simp add: same_progress_def)
  ultimately show ?thesis using assms by (simp add: ledger_def Let_def)
qed

lemma ledger_queue:
  "ledger S \<Longrightarrow> queue_inv (srv_queue (sys_srv S)) \<and> live_queue (srv_queue (sys_srv S))"
  by (simp add: ledger_def Let_def)

lemma ledger_same_queue:
  assumes "ledger S" and "srv_queue (sys_srv S') = srv_queue (sys_srv S)"
    and "frame_pool S' = frame_pool S" and "sys_reported S' = sys_reported S"
  shows "ledger S'"
  using assms ledger_queue [OF assms(1)] by (intro ledger_moved [OF assms(1)]) simp_all

lemma takeJobs_live:
  "live_queue q \<Longrightarrow> takeJobs m res q = Inr (r, q') \<Longrightarrow> distinct (job_queue q) \<Longrightarrow> live_queue q'"
proof (induction m res q rule: takeJobs.induct)
  case (1 m res q)
  show ?case
  proof (cases "job_queue q \<noteq> [] \<and> length res < m")
    case False
    with "1.prems" show ?thesis by (simp add: takeJobs_stop)
  next
    case True
    then obtain i js where js: "job_queue q = i # js" by (cases "job_queue q") auto
    with "1.prems"(1) obtain j where j: "jobs q i = Some j" by (auto simp: live_queue_def)
    define res' where "res' = fst (takeFrames m i res j)"
    define j' where "j' = snd (takeFrames m i res j)"
    define q1 where "q1 = q\<lparr>jobs := (jobs q)(i \<mapsto> j')\<rparr>"
    define q2 where "q2 = (if \<not> hasTasks j' then q1\<lparr>job_queue := tl (job_queue q1)\<rparr> else q1)"
    have step: "takeJobs m res q = takeJobs m res' q2"
      using True js j
      by (simp add: takeJobs.simps [of m res q] q2_def q1_def j'_def res'_def case_prod_beta Let_def)
    have "live_queue q2" "distinct (job_queue q2)"
      using "1.prems" js by (auto simp: live_queue_def q2_def q1_def)
    moreover have "takeJobs m res' q2 = Inr (r, q')" using step "1.prems"(2) by simp
    ultimately show ?thesis
      using "1.IH" [OF True refl, of j "takeFrames m i res j" res' j' q1] js j
      by (simp add: res'_def j'_def q1_def q2_def)
  qed
qed

lemma getJobs_live:
  assumes "queue_inv q" and "live_queue q" and "getJobs n q = Some (Inr (ts, q'))"
  shows "live_queue q'"
proof -
  have "takeJobs n (take n (task_queue q)) (q\<lparr>task_queue := drop n (task_queue q)\<rparr>) = Inr (ts, q')"
    using assms(3) by (simp add: getJobs_def takeTasks_eq split: if_splits)
  moreover have "live_queue (q\<lparr>task_queue := drop n (task_queue q)\<rparr>)"
    using assms(2) by (simp add: live_queue_def)
  ultimately show ?thesis
    using takeJobs_live assms(1) by (fastforce simp: queue_inv_def)
qed

section \<open>Every step keeps the ledger\<close>

lemma frame_pool_EvUpload:
  assumes "queue_inv q" and "fresh_offset q" and "addJob shader frames fps w h q = (i, q')"
  shows "i = job_offset q"
    and "frame_pairs (pending q') = frame_pairs (pending q) + image_mset (Pair i) (all_frames frames)"
proof -
  show i: "i = job_offset q" using assms(3) by (simp add: addJob_def Let_def)
  have "pending q' = pending q @
      map (\<lambda>k. Task_new shader (of_nat k) fps w h (job_offset q)) [0 ..< unat frames]"
    using addJob_pending [OF assms(1,2), of shader frames fps w h] assms(3) by simp
  then show "frame_pairs (pending q') =
      frame_pairs (pending q) + image_mset (Pair i) (all_frames frames)"
    by (simp add: frame_pairs_def all_frames_def Task_new_def i comp_def mset_map [symmetric]
        del: mset_map)
qed

lemma frames_at_Pair: "frames_at j (image_mset (Pair i) M) = (if j = i then M else {#})"
  by (simp add: frames_at_def filter_mset_image_mset image_mset.compositionality comp_def)

lemma addJob_live:
  assumes "live_queue q" and "fresh_offset q" and "queue_inv q"
    and "addJob shader frames fps w h q = (i, q')"
  shows "live_queue q'"
proof -
  have "job_offset q \<notin> set (job_queue q)"
    using assms(2,3) by (auto simp: queue_inv_def fresh_offset_def)
  with assms(1,4) show ?thesis
    by (auto simp: live_queue_def addJob_def Let_def Job_new_def hasTasks_def word_neq_0_conv)
qed

lemma ledger_EvUpload:
  assumes "ledger S" and "honest S (EvUpload shader frames fps w h)"
    and "sys_step (EvUpload shader frames fps w h) S = Some (Inr S')"
  shows "ledger S'"
proof -
  define q where "q = srv_queue (sys_srv S)"
  obtain i q' where add: "addJob shader frames fps w h q = (i, q')" by fastforce
  have fresh: "fresh_offset q" and inv: "queue_inv q" and live: "live_queue q"
    using assms(1,2) ledger_queue by (auto simp: q_def)
  note pool = frame_pool_EvUpload [OF inv fresh add]
  have S': "srv_queue (sys_srv S') = q'" "frame_pool S' = frame_pool S + image_mset (Pair i) (all_frames frames)"
    "sys_reported S' = (sys_reported S)(i := {#})"
    using assms(3) add pool(2) by (auto simp: q_def frame_pool_def)
  have jobs': "jobs q' = (jobs q)(i \<mapsto> Job_new shader frames fps w h)" and "jobs q i = None"
    using add fresh by (auto simp: addJob_def Let_def fresh_offset_def)
  with assms(1) have "\<forall>p \<in># frame_pool S. fst p \<noteq> i"
    by (auto simp: ledger_def Let_def q_def)
  then have none: "frames_at i (frame_pool S) = {#}" by (simp add: frames_at_empty)
  have "job_ledger (sys_reported S' j) (frames_at j (frame_pool S')) job"
    if "jobs q' j = Some job" for j job
    using that assms(1) none S' jobs'
    by (auto simp: ledger_def Let_def q_def frames_at_Pair job_ledger_def Job_new_def
        split: if_splits)
  moreover have "queue_inv q'"
    using addJob_inv [OF inv fresh, of shader frames fps w h] add by simp
  moreover have "live_queue q'" by (rule addJob_live [OF live fresh inv add])
  moreover have "\<forall>p \<in># frame_pool S'. fst p \<in> dom (jobs q')"
    using assms(1) S' jobs' by (auto simp: ledger_def Let_def q_def)
  ultimately show ?thesis by (simp add: ledger_def Let_def S'(1))
qed

lemma ledger_job:
  "ledger S \<Longrightarrow> jobs (srv_queue (sys_srv S)) j = Some job \<Longrightarrow>
   job_ledger (sys_reported S j) (frames_at j (frame_pool S)) job"
  by (simp add: ledger_def Let_def)

text \<open>A report: the job is known, and it finishes exactly when nothing of it is left.\<close>

lemma report_job:
  assumes "ledger S" and "(j, f) \<in># sys_out S"
  obtains job where "jobs (srv_queue (sys_srv S)) j = Some job"
    "size (frames_at j (frame_pool S)) = unat (total_frames job) - unat (frames_rendered job)"
    "frames_rendered job < total_frames job" "f \<in># frames_at j (frame_pool S)"
proof -
  have mem: "(j, f) \<in># frame_pool S" using assms(2) by (simp add: frame_pool_def)
  with assms(1) obtain job where job: "jobs (srv_queue (sys_srv S)) j = Some job"
    by (auto simp: ledger_def Let_def)
  with assms(1) have l: "job_ledger (sys_reported S j) (frames_at j (frame_pool S)) job"
    by (simp add: ledger_def Let_def)
  have f: "f \<in># frames_at j (frame_pool S)" using mem by (force simp: frames_at_def)
  have "size (sys_reported S j) + size (frames_at j (frame_pool S)) = unat (total_frames job)"
    using l unfolding job_ledger_def by (metis size_union size_all_frames)
  moreover from this f have "size (frames_at j (frame_pool S)) > 0"
    by (metis gr0I size_eq_0_iff_empty empty_iff set_mset_empty)
  ultimately show thesis
    using l job f by (intro that [of job]) (auto simp: job_ledger_def word_less_nat_alt)
qed

lemma queued_pending:
  assumes "i \<in> set (job_queue q)" and "jobs q i = Some job" and "hasTasks job"
  shows "frames_at i (frame_pairs (pending q)) \<noteq> {#}"
proof -
  from assms(3) obtain t where t: "t \<in> set (remaining_tasks i job)"
    using hasTasks_iff_remaining [of job i] by (cases "remaining_tasks i job") auto
  then have "task_job t = i" by (auto simp: remaining_tasks_def)
  moreover have "t \<in> set (pending q)"
    using t assms by (auto simp: pending_def regular_def job_tasks_def intro!: bexI [of _ i])
  ultimately show ?thesis by (auto simp: frames_at_empty_conv frame_pairs_def)
qed

definition reported_queue :: "u32 \<Rightarrow> Job \<Rightarrow> JobQueue \<Rightarrow> JobQueue" where
  "reported_queue j job q =
     (if frames_rendered job + 1 = total_frames job
      then q\<lparr>jobs := (jobs q)(j := None), finished_jobs := finished_jobs q @ [j]\<rparr>
      else q\<lparr>jobs := (jobs q)(j \<mapsto> fst (frameRendered job))\<rparr>)"

lemma notifyUpdate_queue:
  "jobs (srv_queue srv) j = Some job \<Longrightarrow>
   srv_queue (notifyUpdate j f srv) = reported_queue j job (srv_queue srv)"
  by (simp add: notifyUpdate_def findJob_def case_prod_beta finishJob_def reported_queue_def Let_def)

lemma pending_reported:
  assumes "jobs q j = Some job" and "j \<notin> set (job_queue q) \<or> frames_rendered job + 1 \<noteq> total_frames job"
  shows "pending (reported_queue j job q) = pending q"
  using assms
  by (auto simp: pending_def regular_def reported_queue_def job_tasks_def fun_eq_iff
      intro!: arg_cong [where f = concat] map_cong)

lemma reported_queue_inv:
  assumes "queue_inv q" and "live_queue q" and "jobs q j = Some job"
    and "j \<notin> set (job_queue q) \<or> frames_rendered job + 1 \<noteq> total_frames job"
  shows "queue_inv (reported_queue j job q) \<and> live_queue (reported_queue j job q)"
  using assms by (auto simp: queue_inv_def live_queue_def reported_queue_def)

lemma finished_not_queued:
  assumes "ledger S" and "(j, f) \<in># sys_out S" and "jobs (srv_queue (sys_srv S)) j = Some job"
    and "frames_rendered job + 1 = total_frames job"
  shows "j \<notin> set (job_queue (srv_queue (sys_srv S)))"
proof
  let ?q = "srv_queue (sys_srv S)"
  assume queued: "j \<in> set (job_queue ?q)"
  obtain job' where "jobs ?q j = Some job'"
    and n: "size (frames_at j (frame_pool S)) = unat (total_frames job') - unat (frames_rendered job')"
    and less: "frames_rendered job' < total_frames job'"
    using report_job [OF assms(1,2)] by metis
  with assms(3) have job': "job' = job" by simp
  have "unat (total_frames job) = Suc (unat (frames_rendered job))"
    using unat_inc [OF less] assms(4) job' by simp
  with n job' have one: "size (frames_at j (frame_pool S)) = 1" by simp
  have "live_queue ?q" using ledger_queue [OF assms(1)] by simp
  with queued assms(3) less job' have "hasTasks job" by (auto simp: live_queue_def)
  with queued_pending [OF queued assms(3)] have "0 < size (frames_at j (frame_pairs (pending ?q)))"
    by (simp add: nonempty_has_size)
  moreover have "0 < size (frames_at j (sys_out S))"
    using assms(2) by (force simp: frames_at_empty_conv nonempty_has_size [symmetric])
  ultimately show False using one by (simp add: frame_pool_def)
qed

lemma job_ledger_report:
  assumes "job_ledger reported (add_mset f pool) job"
    and "frames_rendered job < total_frames job" and "frames_rendered job + 1 \<noteq> total_frames job"
  shows "job_ledger (add_mset f reported) pool (fst (frameRendered job))"
  using assms unat_inc [OF assms(2)] by (auto simp: job_ledger_def)

lemma ledger_EvReport:
  assumes "ledger S" and "honest S (EvReport j f)" and "sys_step (EvReport j f) S = Some (Inr S')"
  shows "ledger S'"
proof -
  define q where "q = srv_queue (sys_srv S)"
  from assms(2) have out: "(j, f) \<in># sys_out S" by simp
  from report_job [OF assms(1) out] obtain job where job: "jobs q j = Some job"
    and less: "frames_rendered job < total_frames job"
    and n: "size (frames_at j (frame_pool S)) = unat (total_frames job) - unat (frames_rendered job)"
    unfolding q_def by metis
  let ?q' = "reported_queue j job q" and ?last = "frames_rendered job + 1 = total_frames job"
  have S': "srv_queue (sys_srv S') = ?q'"
    "sys_reported S' = (sys_reported S)(j := add_mset f (sys_reported S j))"
    using assms(3) notifyUpdate_queue [of "sys_srv S" j job f] job by (auto simp: q_def)
  have nq: "j \<notin> set (job_queue q) \<or> \<not> ?last"
    using finished_not_queued [OF assms(1) out] job by (auto simp: q_def)
  have pool: "frame_pool S = add_mset (j, f) (frame_pool S')"
    using assms(3) out S'(1) pending_reported [OF job nq] by (auto simp: frame_pool_def q_def)
  have inv: "queue_inv ?q' \<and> live_queue ?q'"
    using reported_queue_inv [OF _ _ job nq] ledger_queue [OF assms(1)] by (simp add: q_def)
  have last: "frames_at j (frame_pool S') = {#}" if ?last
  proof -
    have "unat (total_frames job) = Suc (unat (frames_rendered job))"
      using unat_inc [OF less] that by simp
    then show ?thesis using n by (simp add: pool frames_at_add_mset)
  qed
  have "job_ledger (sys_reported S' k) (frames_at k (frame_pool S')) job'"
    if "jobs ?q' k = Some job'" for k job'
  proof (cases "k = j")
    case True
    with that have job': "job' = fst (frameRendered job)" and "\<not> ?last"
      by (auto simp: reported_queue_def split: if_splits)
    moreover have "job_ledger (sys_reported S j) (frames_at j (frame_pool S)) job"
      using ledger_job [OF assms(1)] job by (simp add: q_def)
    then have "job_ledger (sys_reported S j) (add_mset f (frames_at j (frame_pool S'))) job"
      by (simp add: pool frames_at_add_mset)
    ultimately show ?thesis using job_ledger_report less True S'(2) by simp
  next
    case False
    with that have "jobs q k = Some job'" by (simp add: reported_queue_def split: if_splits)
    then have "job_ledger (sys_reported S k) (frames_at k (frame_pool S)) job'"
      using ledger_job [OF assms(1)] by (simp add: q_def)
    with False S'(2) show ?thesis by (simp add: pool frames_at_add_mset)
  qed
  moreover have "\<forall>p \<in># frame_pool S'. fst p \<in> dom (jobs ?q')"
    using assms(1) last job
    by (auto simp: ledger_def Let_def q_def pool reported_queue_def frames_at_empty_conv)
  ultimately show ?thesis using inv by (simp add: ledger_def Let_def S'(1))
qed

lemma update_queue_clients [system_simps]:
  "srv_queue (update_queue g srv) = g (srv_queue srv)"
  "srv_clients (update_queue g srv) = srv_clients srv"
  by (simp_all add: update_queue_def)

lemma handleClient_queue [system_simps]: "srv_queue (handleClient sock srv) = srv_queue srv"
  by (simp add: handleClient_def Let_def)

lemma erase_client_queue [system_simps]: "srv_queue (erase_client i srv) = srv_queue srv"
  by (simp add: erase_client_def)

lemma packet_effect_queue:
  "\<forall>us. p \<noteq> PUpdate us \<Longrightarrow> srv_queue (packet_effect i p srv) = srv_queue srv"
  by (cases p) (simp_all add: server_simps set_capability_def)

lemma addTasks_pairs:
  "frame_pairs (pending (addTasks ts q)) = frame_pairs (pending q) + frame_pairs ts"
  by (simp add: pending_def addTasks_def)

lemma addTasks_ledger [system_simps]:
  "queue_inv (addTasks ts q) = queue_inv q"
  "live_queue (addTasks ts q) = live_queue q"
  "same_progress q (addTasks ts q)"
  by (simp_all add: addTasks_def live_queue_def same_progress_def)

lemma dist_submit_queue:
  "srv_queue (dist_submit i ts srv) =
     (if accepts i srv then srv_queue srv else addTasks ts (srv_queue srv))"
  by (auto simp: dist_submit_def accepts_def handler_active_def submitTasks_def returnJobs_def
      server_simps system_simps split: option.splits)

lemma dist_pick_queue:
  "dist_pick srv = Some (d, srv') \<Longrightarrow> srv_queue srv' = srv_queue srv \<and> held_tasks d = []"
  by (auto simp: dist_pick_def split: list.splits if_splits)

lemma dist_capability_held: "held_tasks (dist_capability i srv) = []"
  by (simp add: dist_capability_def split: option.split)

lemma ledger_EvStatus:
  assumes "ledger S"
  shows "ledger (S\<lparr>sys_srv := update_queue (\<lambda>q. snd (getStatus order q)) (sys_srv S)\<rparr>)"
proof -
  let ?q = "srv_queue (sys_srv S)"
  have "pending (?q\<lparr>finished_jobs := []\<rparr>) = pending ?q" by (simp add: pending_def)
  with assms show ?thesis
    by (simp add: ledger_def Let_def getStatus_def system_simps live_queue_def frame_pool_def)
qed

lemma ledger_EvFetch:
  assumes "ledger S" and "sys_dist S = DistCapability i n"
    and "dist_fetch i n (sys_srv S) = Some (Inr (d, srv))"
  shows "ledger (S\<lparr>sys_srv := srv, sys_dist := d\<rparr>)"
proof -
  from assms(3) obtain ts q' where get: "getJobs n (srv_queue (sys_srv S)) = Some (Inr (ts, q'))"
    and d: "d = DistTasks i ts" "srv_queue srv = q'"
    by (auto simp: dist_fetch_def split: option.splits sum.splits)
  have inv: "queue_inv (srv_queue (sys_srv S))" and live: "live_queue (srv_queue (sys_srv S))"
    using ledger_queue [OF assms(1)] by auto
  from getJobs_result [OF inv get] have q': "ts = take n (pending (srv_queue (sys_srv S)))"
    "pending q' = drop n (pending (srv_queue (sys_srv S)))" "queue_inv q'"
    "same_progress (srv_queue (sys_srv S)) q'"
    by (metis sum.inject(2) prod.inject)+
  moreover have "live_queue q'" by (rule getJobs_live [OF inv live get])
  moreover have "frame_pairs (pending (srv_queue (sys_srv S))) = frame_pairs ts + frame_pairs (pending q')"
    unfolding q' by (metis append_take_drop_id frame_pairs_append)
  ultimately show ?thesis
    using d assms(2) by (intro ledger_moved [OF assms(1)]) (simp_all add: frame_pool_def)
qed

lemma ledger_EvSubmit:
  assumes "ledger S" and "sys_dist S = DistTasks i ts"
    and "sys_step EvSubmit S = Some (Inr S')"
  shows "ledger S'"
  using assms ledger_queue [OF assms(1)]
  by (intro ledger_moved [OF assms(1)])
    (auto simp: dist_submit_queue system_simps frame_pool_def addTasks_pairs)

lemma ledger_EvLose:
  assumes "ledger S" and "honest S (EvLose i)" and "sys_step (EvLose i) S = Some (Inr S')"
  shows "ledger S'"
  using assms ledger_queue [OF assms(1)]
  by (intro ledger_moved [OF assms(1)])
    (auto simp: handler_stopped_queue system_simps frame_pool_def addTasks_pairs)

lemma ledger_step:
  assumes "ledger S" and "honest S e" and "sys_step e S = Some (Inr S')"
  shows "ledger S'"
proof (cases e)
  case (EvPacket i p)
  with assms(3) have "S' = S\<lparr>sys_srv := packet_effect i p (sys_srv S)\<rparr>" and "\<forall>us. p \<noteq> PUpdate us"
    by (auto split: client_packet.splits)
  then show ?thesis
    by (intro ledger_same_queue [OF assms(1)]) (simp_all add: packet_effect_queue frame_pool_def)
next
  case EvPick
  with assms(3) obtain d srv where d: "sys_dist S = DistIdle" "dist_pick (sys_srv S) = Some (d, srv)"
    "S' = S\<lparr>sys_srv := srv, sys_dist := d\<rparr>"
    by (auto split: distribution.splits option.splits)
  from dist_pick_queue [OF d(2)] d show ?thesis
    by (intro ledger_same_queue [OF assms(1)]) (simp_all add: frame_pool_def)
next
  case EvCapability
  with assms(3) obtain i where "sys_dist S = DistClient i"
    "S' = S\<lparr>sys_dist := dist_capability i (sys_srv S)\<rparr>"
    by (auto split: distribution.splits)
  then show ?thesis
    by (intro ledger_same_queue [OF assms(1)]) (simp_all add: frame_pool_def dist_capability_held)
next
  case EvFetch
  with assms(3) obtain i n d srv where "sys_dist S = DistCapability i n"
    "dist_fetch i n (sys_srv S) = Some (Inr (d, srv))" "S' = S\<lparr>sys_srv := srv, sys_dist := d\<rparr>"
    by (auto split: distribution.splits option.splits sum.splits)
  then show ?thesis using ledger_EvFetch [OF assms(1)] by simp
next
  case EvSubmit
  with assms(3) obtain i ts where "sys_dist S = DistTasks i ts"
    by (auto split: distribution.splits)
  with EvSubmit assms(3) show ?thesis using ledger_EvSubmit [OF assms(1)] by blast
next
  case (EvUpload shader frames fps w h)
  with assms show ?thesis using ledger_EvUpload by blast
next
  case (EvReport j f)
  with assms show ?thesis using ledger_EvReport by blast
next
  case (EvLose i)
  with assms show ?thesis using ledger_EvLose by blast
next
  case (EvStatus order)
  with assms(1,3) show ?thesis using ledger_EvStatus by auto
next
  case (EvAccept sock)
  with assms(3) show ?thesis
    by (intro ledger_same_queue [OF assms(1)]) (auto simp: system_simps frame_pool_def)
next
  case (EvIssue i)
  with assms(3) show ?thesis
    by (intro ledger_same_queue [OF assms(1)])
      (auto simp: start_issue_def lock_tasks_def server_simps frame_pool_def)
next
  case (EvErase i)
  with assms(3) show ?thesis
    by (intro ledger_same_queue [OF assms(1)]) (auto simp: system_simps frame_pool_def)
qed

lemma ledger_new: "ledger (System_new port time)"
proof -
  have "job_queue JobQueue_new = []" and "jobs JobQueue_new = Map.empty"
    by (simp_all add: JobQueue_new_def)
  then show ?thesis
    by (simp add: ledger_def Let_def System_new_def live_queue_def frame_pool_def)
qed

lemma honest_run_ledger: "honest_run port time S \<Longrightarrow> ledger S"
  by (induction rule: honest_run.induct) (auto simp: ledger_new intro: ledger_step)

section \<open>What follows from the ledger\<close>



text \<open>Only a report changes the progress of a job.\<close>

lemma step_job:
  assumes "ledger S" and "honest S e" and "sys_step e S = Some (Inr S')"
    and "jobs (srv_queue (sys_srv S)) j = Some job" and "\<forall>f. e \<noteq> EvReport j f"
  shows "\<exists>job'. jobs (srv_queue (sys_srv S')) j = Some job' \<and>
    total_frames job' = total_frames job \<and> frames_rendered job' = frames_rendered job"
proof (cases e)
  case (EvUpload shader frames fps w h)
  with assms show ?thesis by (auto simp: addJob_def Let_def fresh_offset_def)
next
  case (EvReport k f)
  from report_job [OF assms(1), of k f] EvReport assms(2) obtain job' where
    "jobs (srv_queue (sys_srv S)) k = Some job'" by auto
  moreover have "k \<noteq> j" using EvReport assms(5) by auto
  ultimately show ?thesis
    using assms(3,4) EvReport notifyUpdate_queue [of "sys_srv S" k job' f]
    by (auto simp: reported_queue_def)
next
  case EvFetch
  with assms(3) obtain n ts q' where get: "getJobs n (srv_queue (sys_srv S)) = Some (Inr (ts, q'))"
    and q': "srv_queue (sys_srv S') = q'"
    by (auto simp: dist_fetch_def split: distribution.splits option.splits sum.splits)
  have "same_progress (srv_queue (sys_srv S)) q'"
    using getJobs_result [OF _ get] ledger_queue [OF assms(1)] by (metis sum.inject(2) prod.inject)
  with assms(4) q' show ?thesis
    by (simp add: same_progress_job)
next
  case (EvPacket i p)
  with assms(3) have "srv_queue (sys_srv S') = srv_queue (sys_srv S)"
    by (auto split: client_packet.splits simp: server_simps set_capability_def)
  with assms(4) show ?thesis by simp
next
  case EvPick
  with assms(3) have "srv_queue (sys_srv S') = srv_queue (sys_srv S)"
    by (auto split: distribution.splits option.splits dest: dist_pick_queue)
  with assms(4) show ?thesis by simp
next
  case (EvStatus order)
  with assms(3,4) show ?thesis by (auto simp: system_simps getStatus_def)
next
  case EvSubmit
  with assms(3,4) show ?thesis
    by (auto simp: dist_submit_queue addTasks_def split: distribution.splits)
next
  case (EvLose i)
  with assms(3,4) show ?thesis by (auto simp: handler_stopped_queue addTasks_def)
qed (use assms(3,4) in \<open>auto simp: system_simps start_issue_def lock_tasks_def server_simps
    split: distribution.splits\<close>)

lemmas trace_simps =
  System_new_def ClientManager_new_def JobQueue_new_def addJob_def getJobs_def takeTasks_eq
  BASE_JOB_CAPABILITY_def MIN_JOB_CAPABILITY_def takeJobs.simps takeFrames.simps Job_new_def
  hasTasks_def getNextTask_def Task_new_def Let_def addTasks_def finishJob_def findJob_def
  frameRendered_def handleClient_def ClientHandler_new_def ClientHandler_run_def notifyFinish_def
  dist_pick_def dist_capability_def handler_def getJobCapability_def dist_fetch_def
  dist_submit_def accepts_def handler_active_def submitTasks_def start_issue_def lock_tasks_def
  update_handler_def handler_stopped_def handler_tasks_def returnJobs_def update_queue_def
  set_capability_def notifyUpdate_def

text \<open>The events of one assignment to client \<open>i\<close>, after the packet that asks for it.\<close>

definition assignment :: "u32 \<Rightarrow> client_packet \<Rightarrow> event list" where
  "assignment i p = [EvPacket i p, EvPick, EvCapability, EvFetch, EvSubmit]"

text \<open>Runs that can be evaluated.\<close>

fun all_honest :: "event list \<Rightarrow> System \<Rightarrow> bool" where
  "all_honest [] S \<longleftrightarrow> True"
| "all_honest (e # es) S \<longleftrightarrow>
     honest S e \<and> (case sys_step e S of Some (Inr S') \<Rightarrow> all_honest es S' | _ \<Rightarrow> True)"

lemma honest_run_exec:
  "honest_run port time S \<Longrightarrow> all_honest es S \<Longrightarrow> sys_run es S = Some (Inr S') \<Longrightarrow>
   honest_run port time S'"
  by (induction es arbitrary: S) (auto split: option.splits sum.splits intro: honest_run.step)

definition small_events :: "event list" where
  "small_events =
     [EvUpload [1] 2 60 4 4, EvUpload [1] 0 60 4 4, EvAccept (Some 3)] @
     assignment 0 PConnect @ [EvIssue 0, EvReport 0 1]"

lemma small_run:
  "\<exists>S. honest_run 4242 10000 S \<and> (0, 0) \<in># sys_out S \<and>
     jobs (srv_queue (sys_srv S)) 0 =
       Some \<lparr>job_shader = [1], total_frames = 2, job_fps = 60, job_width = 4, job_height = 4,
             frames_submitted = 2, frames_rendered = 1\<rparr> \<and>
     jobs (srv_queue (sys_srv S)) 1 = Some (Job_new [1] 0 60 4 4)"
proof -
  have "all_honest small_events (System_new 4242 10000)"
    by (simp add: small_events_def assignment_def trace_simps fresh_offset_def frame_pairs_def)
  moreover have "\<exists>S. sys_run small_events (System_new 4242 10000) = Some (Inr S) \<and>
     (0, 0) \<in># sys_out S \<and>
     jobs (srv_queue (sys_srv S)) 0 =
       Some \<lparr>job_shader = [1], total_frames = 2, job_fps = 60, job_width = 4, job_height = 4,
             frames_submitted = 2, frames_rendered = 1\<rparr> \<and>
     jobs (srv_queue (sys_srv S)) 1 = Some (Job_new [1] 0 60 4 4)"
    by (simp add: small_events_def assignment_def trace_simps frame_pairs_def)
  ultimately show ?thesis using honest_run_exec [OF honest_run.start] by blast
qed

section \<open>Properties\<close>









definition overwrite_events :: "event list" where
  "overwrite_events =
     [EvUpload [1] 8 60 4 4, EvAccept (Some 3)] @ assignment 0 (PFinish 5) @ assignment 0 (PFinish 5)"

text \<open>A client that asks twice before the first batch is issued, as it does when a batch holds
  the last two jobs of its queue, loses tasks: the second batch overwrites the first, whose frames
  are then neither in the queue nor with the handler, so the job can not finish.\<close>

theorem overwritten_batch_lost:
  "\<exists>S. sys_run overwrite_events (System_new 4242 10000) = Some (Inr S) \<and>
     pending (srv_queue (sys_srv S)) = [] \<and> held_tasks (sys_dist S) = [] \<and>
     map task_frame (handler_tasks 0 (sys_srv S)) = [4, 5, 6, 7] \<and>
     map_option total_frames (jobs (srv_queue (sys_srv S)) 0) = Some 8"
  by (simp add: overwrite_events_def assignment_def trace_simps pending_def regular_def)

text \<open>A job without frames is accepted but never finishes: in a run of honest clients no step
  removes it from the table.\<close>

theorem empty_job_never_finishes:
  assumes "honest_run port time S" and "jobs (srv_queue (sys_srv S)) j = Some job"
    and "total_frames job = 0" and "honest S e" and "sys_step e S = Some (Inr S')"
  shows "\<exists>job'. jobs (srv_queue (sys_srv S')) j = Some job' \<and> total_frames job' = 0"
proof (cases "\<exists>f. e = EvReport j f")
  case True
  then obtain f where "(j, f) \<in># sys_out S" using assms(4) by auto
  from report_job [OF honest_run_ledger [OF assms(1)] this] assms(2,3) show ?thesis
    by (metis option.inject word_not_simps(1))
next
  case False
  with step_job [OF honest_run_ledger [OF assms(1)] assms(4,5,2)] assms(3) show ?thesis by auto
qed

lemma empty_job_never_finishes_witness:
  "\<exists>S S' job. honest_run 4242 10000 S \<and> sys_step (EvStatus []) S = Some (Inr S') \<and>
     jobs (srv_queue (sys_srv S')) 1 = Some job"
proof -
  from small_run obtain S where S: "honest_run 4242 10000 S"
    "jobs (srv_queue (sys_srv S)) 1 = Some (Job_new [1] 0 60 4 4)" by blast
  obtain S' where S': "sys_step (EvStatus []) S = Some (Inr S')" by simp
  from empty_job_never_finishes [OF S _ _ S'] S(1) S' show ?thesis by (fastforce simp: Job_new_def)
qed

definition empty_job_events :: "event list" where
  "empty_job_events = [EvUpload [1] 0 60 4 4, EvAccept (Some 3)] @ assignment 0 PConnect"

text \<open>Such a job still costs a client: it is handed out as an empty batch, which takes the client
  that asked for work out of the list of free clients, and its status, zero of zero, is the one of
  a finished job.\<close>

theorem empty_job_takes_client:
  "\<exists>S. sys_run empty_job_events (System_new 4242 10000) = Some (Inr S) \<and>
     handler_tasks 0 (sys_srv S) = [] \<and> free_clients (srv_clients (sys_srv S)) = [] \<and>
     fst (getStatus [0] (srv_queue (sys_srv S))) = [finished_status 0]"
  by (simp add: empty_job_events_def assignment_def trace_simps getStatus_def map_filter_def
      status_of_def finished_status_def getRenderedFrames_def getTotalFrames_def)

end
