(* ===== verification/Render_Client.thy ===== *)
theory Render_Client
  imports World
begin

text \<open>
  The network side of a render worker (\<open>include/client/client.hpp\<close>, \<open>src/client/client.cpp\<close>) and the
  queue between it and the renderer (\<open>include/client/renderqueue.hpp\<close>,
  \<open>src/client/renderqueue.cpp\<close>, \<open>include/client/rendertask.hpp\<close>).
\<close>

section \<open>The render queue\<close>

record RenderTaskInfo =
  kernel_source :: bytes
  timestamps :: "u32 list"
  ti_job_id :: u32
  ti_fps :: u32
  image_width :: u32
  image_height :: u32

type_synonym RenderQueue = "RenderTaskInfo list"

definition addTask :: "RenderTaskInfo \<Rightarrow> RenderQueue \<Rightarrow> RenderQueue" where
  "addTask task q = q @ [task]"

text \<open>
  \<open>getTask\<close>: \<open>None\<close> while the wait blocks; otherwise the task, the remaining queue, and whether the
  callback that asks for more jobs is called.
\<close>

definition getTask :: "RenderQueue \<Rightarrow> (RenderTaskInfo \<times> RenderQueue \<times> bool) option" where
  "getTask q = (case q of [] \<Rightarrow> None | result # rest \<Rightarrow> Some (result, rest, rest = []))"

section \<open>The client\<close>

record ClientPacket =
  cp_job_id :: u32
  cp_frame_id :: u32

record Client =
  cl_socket :: socket
  cl_active :: bool
  processing_time :: u64
  send_queue :: "ClientPacket list"
  render_queue :: RenderQueue

text \<open>The constructor connects; the members it does not initialise are arguments.\<close>

definition Client_new ::
  "('ad, 's) posix \<Rightarrow> bool \<Rightarrow> string \<Rightarrow> int \<Rightarrow> 's \<Rightarrow> (net_error + Client) \<times> 's" where
  "Client_new px junk_active host port s =
     (case Socket_connect px Socket_new host port s of
        (Inl e, s') \<Rightarrow> (Inl e, s')
      | (Inr sock, s') \<Rightarrow>
          (Inr \<lparr>cl_socket = sock, cl_active = junk_active, processing_time = 0, send_queue = [],
                render_queue = []\<rparr>, s'))"

definition on_client :: "(socket \<Rightarrow> ('s, net_error, 'a) act) \<Rightarrow> ('s, Client, 'a) prog" where
  "on_client f = (\<lambda>(s, c). net (f (cl_socket c)) (s, c))"

definition Client_stop :: "('ad, 's) posix \<Rightarrow> ('s, Client, unit) prog" where
  "Client_stop px = (\<lambda>(s, c).
     case Socket_close px (cl_socket c) s of (sock, s') \<Rightarrow>
       Some (Inr (), (s', c\<lparr>cl_active := False, cl_socket := sock\<rparr>)))"

text \<open>Here the write mutex is held for the whole of the send.\<close>

definition Client_issueRequest ::
  "('ad, 's) posix \<Rightarrow> bytes \<Rightarrow> socket \<Rightarrow> ('s, net_error, bool) act" where
  "Client_issueRequest px data sock s =
     (case sendFully px sock data s of
        None \<Rightarrow> None
      | Some (r, s') \<Rightarrow> Some (Inr (case r of Inl _ \<Rightarrow> False | Inr _ \<Rightarrow> True), s'))"

definition Client_start :: "('ad, 's) posix \<Rightarrow> ('s, Client, unit) prog" where
  "Client_start px =
     andThen (change (\<lambda>c. ((), c\<lparr>cl_active := True\<rparr>))) (\<lambda>_.
     andThen (on_client (Client_issueRequest px [ClientPacketID_byte CliConnect])) (\<lambda>_. ret ()))"

subsection \<open>Receiving from the server\<close>

definition recv_job :: "('ad, 's) posix \<Rightarrow> ('s, Client, unit) prog" where
  "recv_job px =
     andThen (on_client (recv_u32 px)) (\<lambda>job_id.
     andThen (on_client (recv_u32 px)) (\<lambda>fps.
     andThen (on_client (recv_u32 px)) (\<lambda>width.
     andThen (on_client (recv_u32 px)) (\<lambda>height.
     andThen (on_client (recv_u64 px)) (\<lambda>shader_source_size.
     andThen (on_client (\<lambda>sock. recvFully px sock (unat shader_source_size))) (\<lambda>source.
     andThen (on_client (recv_u32 px)) (\<lambda>frame_count.
     andThen (on_client (\<lambda>sock. recvFully px sock (unat frame_count * 4))) (\<lambda>stamps.
     change (\<lambda>c. ((), c\<lparr>render_queue := addTask
       \<lparr>kernel_source = source, timestamps = u32s_of_bytes stamps, ti_job_id = job_id,
        ti_fps = fps, image_width = width, image_height = height\<rparr> (render_queue c)\<rparr>))))))))))"

definition recv_packet :: "('ad, 's) posix \<Rightarrow> ('s, Client, unit) prog" where
  "recv_packet px =
     andThen (on_client (recv_u8 px)) (\<lambda>id.
       case ServerPacketID_of id of
         None \<Rightarrow> ret ()
       | Some SrvKeepalive \<Rightarrow>
           andThen (on_client (Client_issueRequest px [ClientPacketID_byte CliKeepalive])) (\<lambda>_. ret ())
       | Some SrvIssueJob \<Rightarrow> recv_job px)"

partial_function (option) recv_loop ::
  "('ad, 's) posix \<Rightarrow> 's \<times> Client \<Rightarrow> ((abort + unit) \<times> 's \<times> Client) option" where
  "recv_loop px w =
     (if \<not> cl_active (snd w) then Some (Inr (), w)
      else (case recv_packet px w of
              None \<Rightarrow> None
            | Some (r, w') \<Rightarrow>
                (case r of Inl e \<Rightarrow> Some (Inl e, w') | Inr _ \<Rightarrow> recv_loop px w')))"

definition handleRecv :: "('ad, 's) posix \<Rightarrow> ('s, Client, unit) prog" where
  "handleRecv px = andThen (catchNet (recv_loop px) (ret ())) (\<lambda>_. Client_stop px)"

subsection \<open>Reporting to the server\<close>

text \<open>
  The UPDATE_JOB packet. A \<open>ClientPacket\<close> is two adjacent words in memory; the count is a
  \<open>uint32_t\<close>, which bounds the loop as well.
\<close>

definition packet_copies :: "ClientPacket list \<Rightarrow> (nat \<times> bytes) list" where
  "packet_copies q =
     map (\<lambda>i. (1 + 4 + i * 4 * 2, u32_bytes (cp_job_id (q ! i)) @ u32_bytes (cp_frame_id (q ! i))))
       [0 ..< length q]"

definition update_packet :: "(nat \<Rightarrow> byte) \<Rightarrow> ClientPacket list \<Rightarrow> bytes option" where
  "update_packet junk q =
     (let request_size = 1 + 4 * (2 * length q + 1);
          send_queue_size = (of_nat (length q) :: u32)
      in memcpys
           ([(0, [ClientPacketID_byte CliUpdateJob]), (1, u32_bytes send_queue_size)] @
            packet_copies (take (unat send_queue_size) q))
           (new_array junk request_size))"

text \<open>
  One round of \<open>handleUpdate\<close>, entered when the wait is over: the queue is not empty or the client
  is stopped. A failed send stops the client.
\<close>

definition handleUpdate_round :: "('ad, 's) posix \<Rightarrow> (nat \<Rightarrow> byte) \<Rightarrow> ('s, Client, unit) prog" where
  "handleUpdate_round px junk =
     andThen (change (\<lambda>c. (send_queue c, c))) (\<lambda>q.
       if q = [] then ret ()
       else (case update_packet junk q of
               None \<Rightarrow> attempt (\<lambda>_. Inl NullDeref)
             | Some request \<Rightarrow>
                 andThen (change (\<lambda>c. ((), c\<lparr>send_queue := []\<rparr>))) (\<lambda>_.
                 andThen (on_client (Client_issueRequest px request)) (\<lambda>ok.
                 if ok then ret () else Client_stop px))))"

definition updateServer :: "u32 \<Rightarrow> u32 list \<Rightarrow> u64 \<Rightarrow> Client \<Rightarrow> Client" where
  "updateServer job_id frames time c =
     c\<lparr>processing_time := time,
       send_queue := send_queue c @ map (\<lambda>f. \<lparr>cp_job_id = job_id, cp_frame_id = f\<rparr>) frames\<rparr>"

text \<open>
  \<open>requestMoreJobs\<close>: \<open>False\<close> means that it stopped the client and threw \<open>NoJobsAvailableException\<close>.
\<close>

definition finish_packet :: "(nat \<Rightarrow> byte) \<Rightarrow> u64 \<Rightarrow> bytes option" where
  "finish_packet junk timing =
     memcpys [(0, [ClientPacketID_byte CliFinishJob]), (1, u64_bytes timing)] (new_array junk (8 + 1))"

definition requestMoreJobs :: "('ad, 's) posix \<Rightarrow> (nat \<Rightarrow> byte) \<Rightarrow> ('s, Client, bool) prog" where
  "requestMoreJobs px junk =
     andThen (change (\<lambda>c. (processing_time c, c))) (\<lambda>timing.
       case finish_packet junk timing of
         None \<Rightarrow> attempt (\<lambda>_. Inl NullDeref)
       | Some data \<Rightarrow>
           andThen (on_client (Client_issueRequest px data)) (\<lambda>ok.
             if ok then ret True else andThen (Client_stop px) (\<lambda>_. ret False)))"

section \<open>One round of the program's main loop\<close>

text \<open>
  \<open>render\<close> is the renderer: an error message, or the average time per frame. The round ends the
  program (\<open>Inl\<close>, with the message written to the log) when more jobs cannot be asked for or the
  rendering fails; in the latter case the client is stopped first.
\<close>

datatype round_end = NoJobsAvailable string | RenderFailed string

definition client_round ::
  "('ad, 's) posix \<Rightarrow> (nat \<Rightarrow> byte) \<Rightarrow> (RenderTaskInfo \<Rightarrow> string + u64) \<Rightarrow>
   ('s, Client, round_end + unit) prog" where
  "client_round px junk render = (\<lambda>(s, c).
     case getTask (render_queue c) of
       None \<Rightarrow> None
     | Some (task, rest, ask) \<Rightarrow>
         andThen (if ask then requestMoreJobs px junk else ret True) (\<lambda>ok.
           if \<not> ok then ret (Inl (NoJobsAvailable ''Failed to send a request for more jobs to the client''))
           else (case render task of
                   Inl msg \<Rightarrow> andThen (Client_stop px) (\<lambda>_. ret (Inl (RenderFailed msg)))
                 | Inr time \<Rightarrow>
                     change (\<lambda>c. (Inr (), updateServer (ti_job_id task) (timestamps task) time c))))
           (s, c\<lparr>render_queue := rest\<rparr>))"

end
