(* ===== verification/Client_Protocol.thy ===== *)
theory Client_Protocol
  imports Render_Client Handler_Threads
begin

text \<open>
  The two ends of the connection between the server and a render worker, put together: the packets
  the worker builds are the packets the server reads, and the other way round. \<open>server_packet\<close> is the
  abstract content of what the server sends; \<open>client_effect\<close> and \<open>client_reply\<close> say what one packet
  does to the worker and what it answers.
\<close>

section \<open>Packets built by the worker\<close>

definition queue_pairs :: "ClientPacket list \<Rightarrow> (u32 \<times> u32) list" where
  "queue_pairs q = map (\<lambda>p. (cp_job_id p, cp_frame_id p)) q"

lemma contiguous_packet_copies: "contiguous 5 (packet_copies q)"
proof -
  have "contiguous (5 + 8 * k) (map (\<lambda>i. (1 + 4 + i * 4 * 2,
      u32_bytes (cp_job_id (q ! i)) @ u32_bytes (cp_frame_id (q ! i)))) [k ..< n])" for k n
  proof (induction "n - k" arbitrary: k)
    case 0
    then show ?case by simp
  next
    case (Suc d)
    then have "d = n - Suc k" and less: "k < n" by auto
    from Suc.hyps(1) [OF this(1)] less show ?case
      by (simp add: upt_conv_Cons algebra_simps del: upt_Suc)
  qed
  from this [of 0] show ?thesis by (simp add: packet_copies_def)
qed

lemma packet_copies_bytes: "concat (map snd (packet_copies q)) = update_bytes (queue_pairs q)"
proof -
  have "map snd (packet_copies q) =
      map (\<lambda>i. (\<lambda>p. u32_bytes (cp_job_id p) @ u32_bytes (cp_frame_id p)) (q ! i)) [0 ..< length q]"
    by (simp add: packet_copies_def)
  also have "\<dots> = map (\<lambda>p. u32_bytes (cp_job_id p) @ u32_bytes (cp_frame_id p)) q"
    by (metis (no_types, lifting) map_eq_conv map_nth list.map_comp comp_apply)
  finally show ?thesis by (simp add: update_bytes_def queue_pairs_def comp_def)
qed

lemma length_update_bytes: "length (update_bytes us) = 8 * length us"
  by (induction us) (auto simp: update_bytes_def)

lemma update_packet_eq:
  assumes "length q < 2 ^ 32"
  shows "update_packet junk q = Some (packet_bytes (PUpdate (queue_pairs q)))"
proof -
  have "unat (of_nat (length q) :: u32) = length q"
    using assms by (simp add: unat_of_nat)
  then show ?thesis
    unfolding update_packet_def Let_def
    by (subst memcpys_contiguous [where off = 0])
      (simp_all add: contiguous_packet_copies packet_copies_bytes length_update_bytes queue_pairs_def)
qed

lemma finish_packet_eq: "finish_packet junk t = Some (packet_bytes (PFinish t))"
  unfolding finish_packet_def
  by (subst memcpys_contiguous [where off = 0]) simp_all

lemma packet_bytes_length: "packet_ok p \<Longrightarrow> length (packet_bytes p) < 2 ^ 64"
  by (cases p) (simp_all add: length_update_bytes)

section \<open>Packets of the server\<close>

datatype server_packet = SKeepalive | SIssue JobRequest

fun server_bytes :: "server_packet \<Rightarrow> bytes" where
  "server_bytes SKeepalive = [ServerPacketID_byte SrvKeepalive]"
| "server_bytes (SIssue r) = issue_bytes r"

definition request_ok :: "JobRequest \<Rightarrow> bool" where
  "request_ok r \<longleftrightarrow> length (rq_shader r) < 2 ^ 64 \<and> length (rq_frames r) < 2 ^ 32"

fun server_ok :: "server_packet \<Rightarrow> bool" where
  "server_ok SKeepalive \<longleftrightarrow> True"
| "server_ok (SIssue r) \<longleftrightarrow> request_ok r"

text \<open>The render task that a request arrives as.\<close>

definition task_info :: "JobRequest \<Rightarrow> RenderTaskInfo" where
  "task_info r =
     \<lparr>kernel_source = rq_shader r, timestamps = rq_frames r, ti_job_id = rq_job_id r,
      ti_fps = rq_fps r, image_width = rq_image_width r, image_height = rq_image_height r\<rparr>"

fun client_effect :: "server_packet \<Rightarrow> Client \<Rightarrow> Client" where
  "client_effect SKeepalive c = c"
| "client_effect (SIssue r) c = c\<lparr>render_queue := render_queue c @ [task_info r]\<rparr>"

fun client_reply :: "server_packet \<Rightarrow> bytes" where
  "client_reply SKeepalive = packet_bytes PKeepalive"
| "client_reply (SIssue r) = []"

lemma client_effect_fields [simp]:
  "cl_socket (client_effect p c) = cl_socket c"
  "cl_active (client_effect p c) = cl_active c"
  by (cases p; simp)+

lemma fold_client_effect:
  "cl_socket (fold client_effect ps c) = cl_socket c"
  "cl_active (fold client_effect ps c) = cl_active c"
  by (induction ps arbitrary: c) auto

lemma fold_issue:
  "fold client_effect (map SIssue rs) c =
     c\<lparr>render_queue := render_queue c @ map task_info rs\<rparr>"
  by (induction rs arbitrary: c) auto

lemma Client_issueRequest_eq: "Client_issueRequest px bs sk = issueRequest px sk bs"
  by (simp add: Client_issueRequest_def issueRequest_def fun_eq_iff)

context tcp_stream
begin

lemma dialog_on_client:
  "cl_socket c = Some fd \<Longrightarrow> moves (f (Some fd)) ins outs v \<Longrightarrow>
   talks inbox outbox up (on_client f) c ins outs v c"
  using talks_net [of inbox outbox up "f (Some fd)" ins outs v c]
  by (simp add: talks_def on_client_def)

lemma moves_issueRequest:
  "length bs < 2 ^ 64 \<Longrightarrow> moves (issueRequest px (Some fd) bs) [] bs True"
  using issueRequest_ok by (intro transfersI) fastforce

lemma client_sends:
  "cl_socket c = Some fd \<Longrightarrow> length bs < 2 ^ 64 \<Longrightarrow>
   talks inbox outbox up (on_client (Client_issueRequest px bs)) c [] bs True c"
  by (rule dialog_on_client) (simp_all add: Client_issueRequest_eq moves_issueRequest)

lemma on_client_then:
  assumes "cl_socket c = Some fd" and "moves (f (Some fd)) ins1 [] v"
    and "talks inbox outbox up (g v) c ins outs z c'"
  shows "talks inbox outbox up (andThen (on_client f) g) c (ins1 @ ins) outs z c'"
  by (rule talks_step [where f = g and v = v, OF dialog_on_client [where f = f, OF assms(1,2)] assms(3) refl])

lemma on_client_recv_then:
  assumes sock: "cl_socket c = Some fd"
  shows client_u8_then: "talks inbox outbox up (f b) c ins outs z c' \<Longrightarrow>
      talks inbox outbox up (andThen (on_client (recv_u8 px)) f) c (b # ins) outs z c'"
    and client_u32_then: "talks inbox outbox up (g w) c ins outs z c' \<Longrightarrow>
      talks inbox outbox up (andThen (on_client (recv_u32 px)) g) c (u32_bytes w @ ins) outs z c'"
    and client_u64_then: "talks inbox outbox up (h d) c ins outs z c' \<Longrightarrow>
      talks inbox outbox up (andThen (on_client (recv_u64 px)) h) c (u64_bytes d @ ins) outs z c'"
  using on_client_then [where f = "recv_u8 px" and g = f and v = b, OF sock moves_recv_u8]
    on_client_then [where f = "recv_u32 px" and g = g and v = w, OF sock moves_recv_u32]
    on_client_then [where f = "recv_u64 px" and g = h and v = d, OF sock moves_recv_u64]
  by fastforce+

lemma client_bytes_then:
  assumes "cl_socket c = Some fd" and "length bs < 2 ^ 64" and "n = length bs"
    and "talks inbox outbox up (f bs) c ins outs z c'"
  shows "talks inbox outbox up (andThen (on_client (\<lambda>sock. recvFully px sock n)) f) c
    (bs @ ins) outs z c'"
  by (rule on_client_then [where f = "\<lambda>sock. recvFully px sock n" and g = f and v = bs,
        OF assms(1) moves_recvFully [OF assms(2,3)] assms(4)])

lemma talks_recv_job:
  assumes sock: "cl_socket c = Some fd" and ok: "request_ok r"
  shows "talks inbox outbox up (recv_job px) c
    (u32_bytes (rq_job_id r) @ u32_bytes (rq_fps r) @ u32_bytes (rq_image_width r) @
     u32_bytes (rq_image_height r) @ u64_bytes (of_nat (length (rq_shader r))) @ rq_shader r @
     u32_bytes (of_nat (length (rq_frames r))) @ u32s_bytes (rq_frames r)) [] ()
    (client_effect (SIssue r) c)"
proof -
  let ?n = "of_nat (length (rq_shader r)) :: u64" and ?m = "of_nat (length (rq_frames r)) :: u32"
  let ?add = "\<lambda>source stamps. change (\<lambda>c. ((), c\<lparr>render_queue := addTask
       \<lparr>kernel_source = source, timestamps = u32s_of_bytes stamps, ti_job_id = rq_job_id r,
        ti_fps = rq_fps r, image_width = rq_image_width r, image_height = rq_image_height r\<rparr>
       (render_queue c)\<rparr>))"
  have n: "unat ?n = length (rq_shader r)" and m: "unat ?m = length (rq_frames r)"
    using ok by (simp_all add: request_ok_def unat_of_nat)
  have "talks inbox outbox up (?add (rq_shader r) (u32s_bytes (rq_frames r))) c [] [] () (client_effect (SIssue r) c)"
    by (rule talks_change) (simp add: addTask_def task_info_def)
  then have "talks inbox outbox up
      (andThen (on_client (\<lambda>sock. recvFully px sock (unat ?m * 4))) (?add (rq_shader r))) c
      (u32s_bytes (rq_frames r) @ []) [] () (client_effect (SIssue r) c)"
    using ok by (intro client_bytes_then [OF sock]) (simp_all add: m request_ok_def)
  then have "talks inbox outbox up
      (andThen (on_client (recv_u32 px)) (\<lambda>frame_count.
       andThen (on_client (\<lambda>sock. recvFully px sock (unat frame_count * 4))) (?add (rq_shader r)))) c
      (u32_bytes ?m @ u32s_bytes (rq_frames r)) [] () (client_effect (SIssue r) c)"
    by (intro client_u32_then [OF sock]) simp
  then have tail: "talks inbox outbox up
      (andThen (on_client (\<lambda>sock. recvFully px sock (unat ?n))) (\<lambda>source.
       andThen (on_client (recv_u32 px)) (\<lambda>frame_count.
       andThen (on_client (\<lambda>sock. recvFully px sock (unat frame_count * 4))) (?add source)))) c
      (rq_shader r @ u32_bytes ?m @ u32s_bytes (rq_frames r)) [] () (client_effect (SIssue r) c)"
    using ok n by (intro client_bytes_then [OF sock]) (simp_all add: request_ok_def)
  show ?thesis
    unfolding recv_job_def
    by (intro client_u32_then [OF sock] client_u64_then [OF sock] tail)
qed

lemmas server_select =
  ServerPacketID_of_byte option.case ServerPacketID.case

lemma talks_recv_packet:
  assumes sock: "cl_socket c = Some fd" and "server_ok p"
  shows "talks inbox outbox up (recv_packet px) c (server_bytes p) (client_reply p) ()
    (client_effect p c)"
proof (cases p)
  case SKeepalive
  have "talks inbox outbox up (on_client (Client_issueRequest px [ClientPacketID_byte CliKeepalive])) c
      [] [ClientPacketID_byte CliKeepalive] True c"
    by (rule client_sends [OF sock]) simp
  from talks_andThen [where f = "\<lambda>_. ret ()", OF this talks_ret]
  have "talks inbox outbox up (andThen (on_client (Client_issueRequest px
      [ClientPacketID_byte CliKeepalive])) (\<lambda>_. ret ())) c [] (client_reply p) () c"
    by (simp add: SKeepalive)
  then have "talks inbox outbox up (recv_packet px) c ([ServerPacketID_byte SrvKeepalive] @ [])
      (client_reply p) () c"
    unfolding recv_packet_def append_Cons append_Nil
    by (intro client_u8_then [OF sock]) (simp only: server_select)
  then show ?thesis by (simp add: SKeepalive)
next
  case (SIssue r)
  with assms(2) have "request_ok r" by simp
  note talks_recv_job [OF sock this]
  then show ?thesis
    unfolding recv_packet_def SIssue server_bytes.simps issue_bytes_def client_reply.simps
      append_Cons append_Nil
    by (intro client_u8_then [OF sock]) (simp only: server_select)
qed

lemma recv_packet_eof:
  assumes "cl_socket c = Some fd" and "up s" and "inbox s = []"
  shows "\<exists>s'. recv_packet px (s, c) = Some (Inl (Exn (RecvIncomplete 0)), (s', c)) \<and>
    outbox s' = outbox s \<and> up s'"
proof -
  from recv_u8_eof [OF assms(2,3)] obtain s' where
    "recv_u8 px (Some fd) s = Some (Inl (RecvIncomplete 0), s')" "outbox s' = outbox s" "up s'"
    by blast
  with assms(1) show ?thesis
    unfolding recv_packet_def by (auto simp: andThen_def on_client_def net_def)
qed

lemma recv_loop_stream:
  assumes "cl_socket c = Some fd" and "cl_active c" and "\<forall>p \<in> set ps. server_ok p"
    and "up s" and "inbox s = concat (map server_bytes ps)"
  shows "\<exists>s'. recv_loop px (s, c) =
      Some (Inl (Exn (RecvIncomplete 0)), (s', fold client_effect ps c)) \<and>
    outbox s' = outbox s @ concat (map client_reply ps) \<and> up s'"
  using assms
proof (induction ps arbitrary: s c)
  case Nil
  with recv_packet_eof [of c s] show ?case
    by (auto simp: recv_loop.simps [of px "(s, c)"])
next
  case (Cons p ps)
  then have sock: "cl_socket c = Some fd" and ok: "server_ok p" by simp_all
  from talksD [OF talks_recv_packet [OF sock ok] Cons.prems(4), of "concat (map server_bytes ps)"]
    Cons.prems(5)
  obtain s1 where s1: "recv_packet px (s, c) = Some (Inr (), (s1, client_effect p c))"
    "inbox s1 = concat (map server_bytes ps)" "outbox s1 = outbox s @ client_reply p" "up s1"
    by auto
  have "recv_loop px (s, c) = recv_loop px (s1, client_effect p c)"
    using s1(1) Cons.prems(2) by (subst recv_loop.simps) simp
  with Cons.IH [of "client_effect p c" s1] Cons.prems s1 show ?case by auto
qed

text \<open>The whole receiving thread: every packet is applied, then the client is stopped.\<close>

lemma handleRecv_stream:
  assumes "cl_socket c = Some fd" and "cl_active c" and "\<forall>p \<in> set ps. server_ok p"
    and "up s" and "inbox s = concat (map server_bytes ps)"
  shows "\<exists>s'. handleRecv px (s, c) =
    Some (Inr (), (s', (fold client_effect ps c)\<lparr>cl_active := False, cl_socket := Some (-1)\<rparr>))"
proof -
  from recv_loop_stream [OF assms] obtain s1 where
    s1: "recv_loop px (s, c) = Some (Inl (Exn (RecvIncomplete 0)), (s1, fold client_effect ps c))"
    by blast
  obtain sock s2 where c: "Socket_close px (Some fd) s1 = (sock, s2)" by fastforce
  then have "sock = Some (-1)" using Socket_close_result [of px "Some fd" s1] by simp
  with s1 c assms(1) show ?thesis
    by (auto simp: handleRecv_def catchNet_def andThen_def ret_def Client_stop_def
        fold_client_effect)
qed

lemma talks_handleUpdate:
  assumes sock: "cl_socket c = Some fd" and len: "length (send_queue c) < 2 ^ 32"
    and ne: "send_queue c \<noteq> []"
  shows "talks inbox outbox up (handleUpdate_round px junk) c []
    (packet_bytes (PUpdate (queue_pairs (send_queue c)))) () (c\<lparr>send_queue := []\<rparr>)"
proof -
  let ?c = "c\<lparr>send_queue := []\<rparr>" and ?p = "PUpdate (queue_pairs (send_queue c))"
  have "packet_ok ?p" using len by (simp add: queue_pairs_def)
  then have "talks inbox outbox up (on_client (Client_issueRequest px (packet_bytes ?p))) ?c []
      (packet_bytes ?p) True ?c"
    using sock by (intro client_sends packet_bytes_length) simp_all
  from talks_andThen [where f = "\<lambda>ok. if ok then ret () else Client_stop px", OF this]
  have "talks inbox outbox up (andThen (on_client (Client_issueRequest px (packet_bytes ?p)))
      (\<lambda>ok. if ok then ret () else Client_stop px)) ?c [] (packet_bytes ?p) () ?c"
    using talks_ret by fastforce
  then have tail: "talks inbox outbox up (andThen (change (\<lambda>c. ((), c\<lparr>send_queue := []\<rparr>))) (\<lambda>_.
      andThen (on_client (Client_issueRequest px (packet_bytes ?p)))
      (\<lambda>ok. if ok then ret () else Client_stop px))) c [] (packet_bytes ?p) () ?c"
    by (intro talks_change_then) simp_all
  show ?thesis
    unfolding handleUpdate_round_def
    by (rule talks_change_then [where f = "\<lambda>c. (send_queue c, c)" and v = "send_queue c"], simp)
      (simp only: ne if_False update_packet_eq [OF len] option.case tail)
qed

lemma talks_requestMoreJobs:
  assumes sock: "cl_socket c = Some fd"
  shows "talks inbox outbox up (requestMoreJobs px junk) c []
    (packet_bytes (PFinish (processing_time c))) True c"
proof -
  let ?p = "PFinish (processing_time c)"
  have "talks inbox outbox up (on_client (Client_issueRequest px (packet_bytes ?p))) c []
      (packet_bytes ?p) True c"
    using sock by (intro client_sends packet_bytes_length) simp_all
  from talks_andThen [where f = "\<lambda>ok. if ok then ret True else andThen (Client_stop px) (\<lambda>_. ret False)",
      OF this]
  have tail: "talks inbox outbox up (andThen (on_client (Client_issueRequest px (packet_bytes ?p)))
      (\<lambda>ok. if ok then ret True else andThen (Client_stop px) (\<lambda>_. ret False))) c []
      (packet_bytes ?p) True c"
    using talks_ret by fastforce
  show ?thesis
    unfolding requestMoreJobs_def
    by (rule talks_change_then [where f = "\<lambda>c. (processing_time c, c)" and v = "processing_time c"], simp)
      (simp only: finish_packet_eq option.case tail)
qed

end

definition info_pairs :: "RenderTaskInfo list \<Rightarrow> (u32 \<times> u32) multiset" where
  "info_pairs ts = mset (concat (map (\<lambda>t. map (Pair (ti_job_id t)) (timestamps t)) ts))"

lemma info_pairs_requests:
  "info_pairs (map task_info rs) = mset (concat (map request_pairs rs))"
  by (simp add: info_pairs_def task_info_def request_pairs_def [abs_def] comp_def)

definition demo_client :: "RenderTaskInfo list \<Rightarrow> ClientPacket list \<Rightarrow> Client" where
  "demo_client ts q =
     \<lparr>cl_socket = Some 3, cl_active = True, processing_time = 1000, send_queue = q, render_queue = ts\<rparr>"

lemma demo_client_fields [simp]:
  "cl_socket (demo_client ts q) = Some 3" "cl_active (demo_client ts q)"
  "processing_time (demo_client ts q) = 1000" "send_queue (demo_client ts q) = q"
  "render_queue (demo_client ts q) = ts"
  by (simp_all add: demo_client_def)

section \<open>Properties\<close>

text \<open>C9: A batch issued by the server arrives: when the worker's receiving thread reads what a round of
  the server's issuing thread has sent, it appends to its render queue one render task per job of the
  batch, and their frames are exactly those of the batch's tasks.\<close>

theorem issued_batch_arrives:
  assumes server: "tcp_stream pxs fds inboxs outboxs ups" "handler i srv = Some h"
      "ch_socket h = Some fds" "ch_active h" "ups s"
    and worker: "tcp_stream px fd inbox outbox up" "cl_socket c = Some fd" "cl_active c" "up t"
    and sizes: "\<forall>r \<in> set (job_requests (active_tasks h)).
      length (rq_frames r) < 2 ^ 32 \<and> length (issue_bytes r) < 2 ^ 64"
    and round: "handleIssue_round pxs junk i (s, srv) = Some (r, (s', srv'))"
    and wire: "inbox t = drop (length (outboxs s)) (outboxs s')"
  shows "\<exists>t' c' new. handleRecv px (t, c) = Some (Inr (), (t', c')) \<and>
    render_queue c' = render_queue c @ new \<and>
    new = map task_info (job_requests (active_tasks h)) \<and>
    info_pairs new = mset (map (\<lambda>t. (task_job t, task_frame t)) (active_tasks h))"
proof -
  let ?rs = "job_requests (active_tasks h)"
  from tcp_stream.handleIssue_round_ok [OF server sizes, of junk] round
  have "outboxs s' = outboxs s @ concat (map issue_bytes ?rs)" by auto
  with wire have inbox: "inbox t = concat (map server_bytes (map SIssue ?rs))"
    by (simp add: comp_def)
  have "length (rq_shader r) < 2 ^ 64" if "length (issue_bytes r) < 2 ^ 64" for r
    using that by (simp add: issue_bytes_def)
  then have "\<forall>p \<in> set (map SIssue ?rs). server_ok p"
    using sizes by (auto simp: request_ok_def)
  from tcp_stream.handleRecv_stream [OF worker(1-3) this worker(4) inbox] show ?thesis
    by (auto simp: fold_issue info_pairs_requests job_requests_pairs)
qed

lemma issued_batch_arrives_witness:
  "\<exists>s' srv' t' c'. handleIssue_round sim_posix (\<lambda>_. 0) 0
       (sim_with [] [2, 5] [], demo_server [Task_new [1] 7 60 4 4 0]) = Some (Inr True, (s', srv')) \<and>
     handleRecv sim_posix (sim_with (sim_out s') [3] [], demo_client [] []) = Some (Inr (), (t', c')) \<and>
     info_pairs (render_queue c') = {#(0, 7)#}"
proof -
  let ?ts = "[Task_new [1] 7 60 4 4 0]" and ?s = "sim_with [] [2, 5] []"
  have sizes: "\<forall>r \<in> set (job_requests ?ts). length (rq_frames r) < 2 ^ 32 \<and> length (issue_bytes r) < 2 ^ 64"
    by (simp add: job_requests_def request_task_def Task_new_def issue_bytes_def)
  from sim.handleIssue_round_ok [OF demo_server_handler(1) [of ?ts], where s = ?s and junk = "\<lambda>_. 0"]
    sizes
  obtain s' srv' where run: "handleIssue_round sim_posix (\<lambda>_. 0) 0 (?s, demo_server ?ts) =
      Some (Inr True, (s', srv'))" by auto
  have "handleIssue_round sim_posix (\<lambda>_. 0) 0 (?s, demo_server ?ts) = Some (Inr True, (s', srv')) \<and>
      (\<exists>t' c'. handleRecv sim_posix (sim_with (sim_out s') [3] [], demo_client [] []) =
        Some (Inr (), (t', c')) \<and> info_pairs (render_queue c') = {#(0, 7)#})"
    using issued_batch_arrives [OF sim.tcp_stream_axioms demo_server_handler(1) [of ?ts] _ _ _
        sim.tcp_stream_axioms, where c = "demo_client [] []" and t = "sim_with (sim_out s') [3] []",
        OF _ _ _ _ _ _ _ run] sizes run
    by (auto simp: Task_new_def)
  then show ?thesis by blast
qed

text \<open>C10: A finished render task is reported: the round of the worker's update thread that sends the
  queued packets empties the send queue, and the server, reading what was sent, notifies the job of
  every one of the frames, in the order of the queue.\<close>

theorem updates_arrive:
  assumes worker: "tcp_stream px fd inbox outbox up" "cl_socket c = Some fd" "up t"
    and queue: "send_queue c \<noteq> []" "length (send_queue c) < 2 ^ 32"
    and server: "tcp_stream pxs fds inboxs outboxs ups" "handler_socket i srv = Some fds" "ups s"
    and round: "handleUpdate_round px junk (t, c) = Some (r, (t', c'))"
    and wire: "inboxs s = drop (length (outbox t)) (outbox t')"
  shows "send_queue c' = [] \<and>
    (\<exists>s'. response_packet pxs i (s, srv) = Some (Inr (), (s',
       update_handler i (\<lambda>h. h\<lparr>has_received := True\<rparr>)
         (fold (\<lambda>(j, f). notifyUpdate j f) (queue_pairs (send_queue c)) srv))))"
proof -
  let ?p = "PUpdate (queue_pairs (send_queue c))"
  from talksD [OF tcp_stream.talks_handleUpdate [OF worker(1,2) queue(2,1)] worker(3),
      of "inbox t" junk] round
  have out: "outbox t' = outbox t @ packet_bytes ?p" "send_queue c' = []" by auto
  have "packet_ok ?p" using queue(2) by (simp add: queue_pairs_def)
  from talksD [OF tcp_stream.dialog_response_packet [OF server(1,2) this] server(3), of "[]"]
    wire out show ?thesis by auto
qed

lemma updates_arrive_witness:
  "\<exists>t' c' s'. handleUpdate_round sim_posix (\<lambda>_. 0)
       (sim_with [] [3] [], demo_client [] [\<lparr>cp_job_id = 5, cp_frame_id = 6\<rparr>]) = Some (Inr (), (t', c')) \<and>
     response_packet sim_posix 0 (sim_with (sim_out t') [] [], demo_server []) = Some (Inr (), (s',
       update_handler 0 (\<lambda>h. h\<lparr>has_received := True\<rparr>) (notifyUpdate 5 6 (demo_server []))))"
proof -
  let ?c = "demo_client [] [\<lparr>cp_job_id = 5, cp_frame_id = 6\<rparr>]" and ?t = "sim_with [] [3] []"
  from talksD [OF sim.talks_handleUpdate [of ?c], of ?t "[]" "\<lambda>_. 0"] obtain t' c' where
    run: "handleUpdate_round sim_posix (\<lambda>_. 0) (?t, ?c) = Some (Inr (), (t', c'))" by auto
  have sock: "handler_socket 0 (demo_server []) = Some 3"
    by (simp add: handler_socket_def demo_server_handler)
  from updates_arrive [OF sim.tcp_stream_axioms _ _ _ _ sim.tcp_stream_axioms sock _ run,
      where s = "sim_with (sim_out t') [] []"] run
  show ?thesis by (auto simp: queue_pairs_def)
qed

text \<open>When a worker asks for more work, the server puts it into the list of free clients and, if it
  has reported frames before, derives its capability from the time per frame that it sent.\<close>

theorem request_for_work_arrives:
  assumes worker: "tcp_stream px fd inbox outbox up" "cl_socket c = Some fd" "up t"
    and server: "tcp_stream pxs fds inboxs outboxs ups" "handler i srv = Some h"
      "ch_socket h = Some fds" "ups s"
    and round: "requestMoreJobs px junk (t, c) = Some (r, (t', c'))"
    and wire: "inboxs s = drop (length (outbox t)) (outbox t')"
  shows "r = Inr True \<and> (\<exists>s' srv' h'. response_packet pxs i (s, srv) = Some (Inr (), (s', srv')) \<and>
    handler i srv' = Some h' \<and> free_clients (srv_clients srv') = free_clients (srv_clients srv) @ [i] \<and>
    job_capability h' = (if has_received h then finish_capability (processing_time c)
      else job_capability h))"
proof -
  let ?p = "PFinish (processing_time c)"
  from talksD [OF tcp_stream.talks_requestMoreJobs [OF worker(1,2)] worker(3), of "inbox t" junk] round
  have out: "outbox t' = outbox t @ packet_bytes ?p" "r = Inr True" by auto
  have "handler_socket i srv = Some fds" "packet_ok ?p"
    using server(2,3) by (simp_all add: handler_socket_def)
  from talksD [OF tcp_stream.dialog_response_packet [OF server(1) this] server(4), of "[]"] wire out
  obtain s' where "response_packet pxs i (s, srv) = Some (Inr (), (s', packet_effect i ?p srv))"
    by auto
  moreover have "free_clients (srv_clients (packet_effect i ?p srv)) =
      free_clients (srv_clients srv) @ [i]"
    by (simp add: notifyFinish_def set_capability_def server_simps)
  moreover have "\<exists>h'. handler i (packet_effect i ?p srv) = Some h' \<and>
      job_capability h' = (if has_received h then finish_capability (processing_time c)
        else job_capability h)"
    using server(2) by (simp add: set_capability_def server_simps)
  ultimately show ?thesis using out(2) by blast
qed

lemma request_for_work_arrives_witness:
  "\<exists>t' c' s' srv'. requestMoreJobs sim_posix (\<lambda>_. 0) (sim_with [] [3] [], demo_client [] []) =
       Some (Inr True, (t', c')) \<and>
     response_packet sim_posix 0 (sim_with (sim_out t') [] [], demo_server []) = Some (Inr (), (s', srv')) \<and>
     free_clients (srv_clients srv') = [0]"
proof -
  let ?c = "demo_client [] []" and ?t = "sim_with [] [3] []"
  from talksD [OF sim.talks_requestMoreJobs [of ?c], of ?t "[]" "\<lambda>_. 0"] obtain t' c' where
    run: "requestMoreJobs sim_posix (\<lambda>_. 0) (?t, ?c) = Some (Inr True, (t', c'))" by auto
  have "free_clients (srv_clients (demo_server [])) = []"
    by (simp add: demo_server_def ClientManager_new_def)
  with request_for_work_arrives [OF sim.tcp_stream_axioms _ _ sim.tcp_stream_axioms
      demo_server_handler(1) [of "[]"] _ _ run, where s = "sim_with (sim_out t') [] []"] run
  show ?thesis by auto
qed

text \<open>C11: A keepalive is answered: the server sends the packet, the worker's receiving thread answers it,
  and when the server has read the answer the wait of \<open>tryKeepAlive\<close> is over with success.\<close>

theorem keepalive_answered:
  assumes server: "tcp_stream pxs fds inboxs outboxs ups" "handler i srv = Some h"
      "ch_socket h = Some fds" "ups s"
    and worker: "tcp_stream px fd inbox outbox up" "cl_socket c = Some fd" "up t"
    and sent: "tryKeepAlive_send pxs i (s, srv) = Some (r, (s1, srv1))"
    and wire: "inbox t = drop (length (outboxs s)) (outboxs s1)"
    and reply: "recv_packet px (t, c) = Some (r', (t1, c1))"
    and ack: "ups s2" "inboxs s2 = drop (length (outbox t)) (outbox t1)"
  shows "r = Inr True \<and> (\<exists>s3 srv3. response_packet pxs i (s2, srv1) = Some (Inr (), (s3, srv3)) \<and>
    tryKeepAlive_wait i srv3 = Some True)"
proof -
  let ?srv1 = "update_handler i (\<lambda>h. h\<lparr>keepalive := False\<rparr>) srv"
  have sock: "handler_socket i ?srv1 = Some fds"
    using server(2,3) by (simp add: handler_socket_def server_simps)
  from tcp_stream.issueRequest_ok [OF server(1,4), of "[ServerPacketID_byte SrvKeepalive]"] sock sent
  have s1: "r = Inr True" "srv1 = ?srv1" "outboxs s1 = outboxs s @ server_bytes SKeepalive"
    by (auto simp: tryKeepAlive_send_def andThen_def change_def on_socket_def net_def)
  have "server_ok SKeepalive" by simp
  from talksD [OF tcp_stream.talks_recv_packet [OF worker(1,2) this] worker(3), of "[]"] wire reply s1
  have "outbox t1 = outbox t @ packet_bytes PKeepalive" by auto
  moreover have "packet_ok PKeepalive" by simp
  ultimately obtain s3 where "response_packet pxs i (s2, ?srv1) =
      Some (Inr (), (s3, packet_effect i PKeepalive ?srv1))"
    using talksD [OF tcp_stream.dialog_response_packet [OF server(1) sock, of PKeepalive] ack(1), of "[]"]
      ack(2) by auto
  with s1 server(2) show ?thesis
    by (auto simp: tryKeepAlive_wait_def server_simps)
qed

lemma keepalive_answered_witness:
  "\<exists>s1 srv1 t1 c1 s3 srv3.
     tryKeepAlive_send sim_posix 0 (sim_with [] [] [], demo_server []) = Some (Inr True, (s1, srv1)) \<and>
     recv_packet sim_posix (sim_with (sim_out s1) [] [], demo_client [] []) = Some (Inr (), (t1, c1)) \<and>
     response_packet sim_posix 0 (sim_with (sim_out t1) [] [], srv1) = Some (Inr (), (s3, srv3)) \<and>
     tryKeepAlive_wait 0 srv3 = Some True"
proof -
  let ?s = "sim_with [] [] []" and ?c = "demo_client [] []"
  from sim.issueRequest_ok [where s = ?s and bs = "[ServerPacketID_byte SrvKeepalive]"] obtain s1 srv1 where
    sent: "tryKeepAlive_send sim_posix 0 (?s, demo_server []) = Some (Inr True, (s1, srv1))"
      "sim_out s1 = server_bytes SKeepalive"
    by (auto simp: tryKeepAlive_send_def andThen_def change_def on_socket_def net_def
        handler_socket_def server_simps demo_server_handler)
  let ?t = "sim_with (sim_out s1) [] []"
  from talksD [OF sim.talks_recv_packet [of ?c SKeepalive], of ?t "[]"] sent(2) obtain t1 c1 where
    reply: "recv_packet sim_posix (?t, ?c) = Some (Inr (), (t1, c1))" by auto
  from keepalive_answered [OF sim.tcp_stream_axioms demo_server_handler(1) [of "[]"] _ _
      sim.tcp_stream_axioms _ _ sent(1) _ reply, where ?s2.0 = "sim_with (sim_out t1) [] []"]
    sent(1) reply
  show ?thesis by auto
qed

text \<open>A round of the worker's main loop on a working connection: the request for more work goes out
  before the rendering of the last task starts, with the time of the rendering before it; then the
  frames of the task are queued for the server and the time is recorded. A renderer that fails
  stops the client and ends the loop with its message.\<close>

theorem client_round_outcome:
  assumes "tcp_stream px fd inbox outbox up" and "cl_socket c = Some fd" and "up s"
    and "render_queue c = task # rest"
  shows "\<exists>s'. outbox s' = outbox s @ (if rest = [] then packet_bytes (PFinish (processing_time c)) else []) \<and>
    client_round px junk render (s, c) = (case render task of
       Inr time \<Rightarrow> Some (Inr (Inr ()), (s', updateServer (ti_job_id task) (timestamps task) time
         (c\<lparr>render_queue := rest\<rparr>)))
     | Inl msg \<Rightarrow> Some (Inr (Inl (RenderFailed msg)), (snd (Socket_close px (Some fd) s'),
         c\<lparr>render_queue := rest, cl_active := False, cl_socket := Some (-1)\<rparr>)))"
proof -
  let ?c = "c\<lparr>render_queue := rest\<rparr>"
  let ?ask = "if rest = [] then requestMoreJobs px junk else ret True"
  have "\<exists>s'. ?ask (s, ?c) = Some (Inr True, (s', ?c)) \<and>
      outbox s' = outbox s @ (if rest = [] then packet_bytes (PFinish (processing_time c)) else [])"
  proof (cases "rest = []")
    case True
    have "cl_socket ?c = Some fd" using assms(2) by simp
    from talksD [OF tcp_stream.talks_requestMoreJobs [OF assms(1) this] assms(3), of "inbox s" junk]
    show ?thesis using True by auto
  next
    case False
    then show ?thesis by (simp add: ret_def)
  qed
  then obtain s' where s': "?ask (s, ?c) = Some (Inr True, (s', ?c))"
    "outbox s' = outbox s @ (if rest = [] then packet_bytes (PFinish (processing_time c)) else [])"
    by blast
  have "fst (Socket_close px (Some fd) s') = Some (-1)" by (simp add: Socket_close_result)
  then obtain s2 where close: "Socket_close px (Some fd) s' = (Some (-1), s2)"
    by (metis prod.collapse)
  have "client_round px junk render (s, c) = andThen ?ask (\<lambda>ok.
      if \<not> ok then ret (Inl (NoJobsAvailable ''Failed to send a request for more jobs to the client''))
      else (case render task of
              Inl msg \<Rightarrow> andThen (Client_stop px) (\<lambda>_. ret (Inl (RenderFailed msg)))
            | Inr time \<Rightarrow>
                change (\<lambda>c. (Inr (), updateServer (ti_job_id task) (timestamps task) time c)))) (s, ?c)"
    using assms(4) by (simp add: client_round_def getTask_def)
  also have "\<dots> = (case render task of
       Inr time \<Rightarrow> Some (Inr (Inr ()), (s', updateServer (ti_job_id task) (timestamps task) time ?c))
     | Inl msg \<Rightarrow> Some (Inr (Inl (RenderFailed msg)), (s2, ?c\<lparr>cl_active := False, cl_socket := Some (-1)\<rparr>)))"
    using s'(1) close assms(2)
    by (simp add: andThen_def change_def Client_stop_def ret_def split: sum.split)
  finally show ?thesis
    using s'(2) by (intro exI [of _ s']) (simp add: close split: sum.split)
qed

lemma client_round_outcome_witness:
  "\<exists>s' c'. client_round sim_posix (\<lambda>_. 0) (\<lambda>_. Inr 77)
       (sim_with [] [] [], demo_client [task_info (request_of 5 [Task_new [1] 7 60 4 4 5])] []) =
       Some (Inr (Inr ()), (s', c')) \<and>
     sim_out s' = packet_bytes (PFinish 1000) \<and> processing_time c' = 77 \<and>
     queue_pairs (send_queue c') = [(5, 7)]"
  using client_round_outcome [OF sim.tcp_stream_axioms, where s = "sim_with [] [] []"
      and c = "demo_client [task_info (request_of 5 [Task_new [1] 7 60 4 4 5])] []" and rest = "[]"
      and task = "task_info (request_of 5 [Task_new [1] 7 60 4 4 5])" and junk = "\<lambda>_. 0"
      and render = "\<lambda>_. Inr 77"]
  by (auto simp: updateServer_def queue_pairs_def task_info_def request_of_def Task_new_def)

end
