(* ===== verification/Arg_Parse.thy ===== *)
theory Arg_Parse
  imports Prelude "HOL-Library.Char_ord"
begin

text \<open>
  Numbers as text: the decimal output of the streams, \<open>std::from_chars\<close> for the unsigned types, and
  the argument parsers of \<open>include/utils/argparse.hpp\<close> and \<open>src/utils/argparse.cpp\<close>. A C string is
  the list of its characters up to the terminator.
\<close>

section \<open>Decimal output\<close>

definition digit_char :: "nat \<Rightarrow> char" where
  "digit_char d = char_of (48 + d)"

definition is_digit :: "char \<Rightarrow> bool" where
  "is_digit c \<longleftrightarrow> 48 \<le> (of_char c :: nat) \<and> (of_char c :: nat) \<le> 57"

definition digit_value :: "char \<Rightarrow> nat" where
  "digit_value c = of_char c - 48"

fun show_nat :: "nat \<Rightarrow> string" where
  "show_nat n = (if n < 10 then [digit_char n] else show_nat (n div 10) @ [digit_char (n mod 10)])"

declare show_nat.simps [simp del]

definition show_word :: "'a::len word \<Rightarrow> string" where
  "show_word w = show_nat (unat w)"

definition read_digits :: "string \<Rightarrow> nat" where
  "read_digits ds = foldl (\<lambda>n c. 10 * n + digit_value c) 0 ds"

section \<open>\<open>std::from_chars\<close> for an unsigned type\<close>

text \<open>
  The longest prefix of digits is converted (a sign is not part of the pattern for an unsigned type).
  The result is the number of characters consumed, the error code and the value stored, \<open>None\<close> when
  the object is left as it was.
\<close>

datatype errc = NoError | InvalidArgument | ResultOutOfRange

definition from_chars :: "string \<Rightarrow> nat \<times> errc \<times> 'a::len word option" where
  "from_chars s =
     (let ds = takeWhile is_digit s
      in if ds = [] then (0, InvalidArgument, None)
         else if read_digits ds < 2 ^ LENGTH('a)
         then (length ds, NoError, Some (of_nat (read_digits ds)))
         else (length ds, ResultOutOfRange, None))"

section \<open>The argument parsers\<close>

text \<open>Each takes the old values of its reference arguments and returns the new ones with the verdict.\<close>

definition parseIntArg :: "string \<Rightarrow> 'a::len word \<Rightarrow> bool \<times> 'a word" where
  "parseIntArg arg old =
     (case from_chars arg of (end', err, v) \<Rightarrow>
        (\<not> (err \<noteq> NoError \<or> end' \<noteq> length arg), case v of None \<Rightarrow> old | Some x \<Rightarrow> x))"

definition strchr :: "string \<Rightarrow> char \<Rightarrow> nat option" where
  "strchr s c = (if c \<in> set s then Some (length (takeWhile (\<lambda>d. d \<noteq> c) s)) else None)"

definition parseDimArg :: "string \<Rightarrow> u32 \<Rightarrow> u32 \<Rightarrow> bool \<times> u32 \<times> u32" where
  "parseDimArg arg w h =
     (case strchr arg (CHR ''x'') of
        None \<Rightarrow> (False, w, h)
      | Some x \<Rightarrow>
          (case from_chars (take x arg) of (wend, werr, wv) \<Rightarrow>
             (let w' = (case wv of None \<Rightarrow> w | Some v \<Rightarrow> v)
              in if werr \<noteq> NoError \<or> wend \<noteq> x then (False, w', h)
                 else (case from_chars (drop (x + 1) arg) of (hend, herr, hv) \<Rightarrow>
                         (let h' = (case hv of None \<Rightarrow> h | Some v \<Rightarrow> v)
                          in (\<not> (herr \<noteq> NoError \<or> x + 1 + hend \<noteq> length arg), w', h'))))))"

section \<open>Lemmas\<close>

lemma of_char_digit [simp]: "d < 10 \<Longrightarrow> (of_char (digit_char d) :: nat) = 48 + d"
  by (simp add: digit_char_def)

lemma is_digit_digit [simp]: "d < 10 \<Longrightarrow> is_digit (digit_char d)"
  by (simp add: is_digit_def)

lemma digit_value_digit [simp]: "d < 10 \<Longrightarrow> digit_value (digit_char d) = d"
  by (simp add: digit_value_def)

lemma show_nat_nonempty [simp]: "show_nat n \<noteq> []"
  by (subst show_nat.simps) simp

lemma show_nat_digits: "c \<in> set (show_nat n) \<Longrightarrow> is_digit c"
proof (induction n rule: show_nat.induct)
  case (1 n)
  then show ?case
    by (cases "n < 10") (auto simp: show_nat.simps [of n])
qed

lemma read_digits_append: "read_digits (ds @ [c]) = 10 * read_digits ds + digit_value c"
  by (simp add: read_digits_def)

lemma read_show_nat [simp]: "read_digits (show_nat n) = n"
proof (induction n rule: show_nat.induct)
  case (1 n)
  show ?case
  proof (cases "n < 10")
    case True
    then show ?thesis by (simp add: show_nat.simps [of n] read_digits_def)
  next
    case False
    with 1 show ?thesis by (simp add: show_nat.simps [of n] read_digits_append)
  qed
qed

lemma takeWhile_show_nat: "takeWhile is_digit (show_nat n @ rest) = show_nat n @ takeWhile is_digit rest"
  by (rule takeWhile_append2) (rule show_nat_digits)

lemma x_not_digit [simp]: "\<not> is_digit (CHR ''x'')"
  by (simp add: is_digit_def)

lemma length_takeWhile_iff: "length (takeWhile P xs) = length xs \<longleftrightarrow> (\<forall>x \<in> set xs. P x)"
  by (induction xs) auto

lemma from_chars_all:
  assumes "\<forall>c \<in> set s. is_digit c"
  shows "from_chars s =
     (if s = [] then (0, InvalidArgument, None)
      else if read_digits s < 2 ^ LENGTH('a::len)
      then (length s, NoError, Some (of_nat (read_digits s) :: 'a word))
      else (length s, ResultOutOfRange, None))"
proof -
  have "takeWhile is_digit s = s" using assms by simp
  then show ?thesis by (simp only: from_chars_def Let_def)
qed

lemma from_chars_show:
  fixes w :: "'a::len word"
  shows "from_chars (show_word w) = (length (show_word w), NoError, Some w)"
  by (subst from_chars_all) (auto simp: show_word_def show_nat_digits)

text \<open>The integer parser accepts exactly the digit strings whose value the type can hold.\<close>

lemma parseIntArg_iff:
  fixes old :: "'a::len word"
  shows "fst (parseIntArg arg old) \<longleftrightarrow>
    arg \<noteq> [] \<and> (\<forall>c \<in> set arg. is_digit c) \<and> read_digits arg < 2 ^ LENGTH('a)"
proof (cases "\<forall>c \<in> set arg. is_digit c")
  case True
  then show ?thesis by (simp add: parseIntArg_def from_chars_all)
next
  case False
  then have "length (takeWhile is_digit arg) \<noteq> length arg"
    by (simp add: length_takeWhile_iff)
  with False show ?thesis by (auto simp: parseIntArg_def from_chars_def Let_def)
qed

lemma parseIntArg_value:
  fixes old :: "'a::len word"
  assumes "fst (parseIntArg arg old)"
  shows "unat (snd (parseIntArg arg old)) = read_digits arg"
  using assms unfolding parseIntArg_iff
  by (simp add: parseIntArg_def from_chars_all unat_of_nat)

lemma parseIntArg_show: "parseIntArg (show_word w) old = (True, w)"
  by (simp add: parseIntArg_def from_chars_show)

lemma x_notin_show: "CHR ''x'' \<notin> set (show_word w)"
  using show_nat_digits [of "CHR ''x''" "unat w"] by (auto simp: show_word_def)

lemma strchr_show: "strchr (show_word w @ CHR ''x'' # rest) (CHR ''x'') = Some (length (show_word w))"
proof -
  have "takeWhile (\<lambda>d. d \<noteq> CHR ''x'') (show_word w @ CHR ''x'' # rest) = show_word w"
    using x_notin_show [of w] by (subst takeWhile_append2) auto
  then show ?thesis by (simp add: strchr_def)
qed

lemma parseDimArg_show:
  "parseDimArg (show_word w @ CHR ''x'' # show_word h) w0 h0 = (True, w, h)"
  by (simp add: parseDimArg_def strchr_show from_chars_show Let_def)

text \<open>What the dimension parser accepts is the two numbers around the first \<open>x\<close>.\<close>

lemma parseDimArg_split:
  assumes "parseDimArg arg w0 h0 = (True, w, h)"
  shows "\<exists>ws hs. arg = ws @ CHR ''x'' # hs \<and> CHR ''x'' \<notin> set ws \<and>
    parseIntArg ws w0 = (True, w) \<and> parseIntArg hs h0 = (True, h)"
proof -
  from assms obtain x where x: "strchr arg (CHR ''x'') = Some x"
    by (auto simp: parseDimArg_def split: option.splits)
  define ws where "ws = takeWhile (\<lambda>d. d \<noteq> CHR ''x'') arg"
  from x have mem: "CHR ''x'' \<in> set arg" and xlen: "x = length ws"
    by (auto simp: strchr_def ws_def split: if_splits)
  from mem have "dropWhile (\<lambda>d. d \<noteq> CHR ''x'') arg \<noteq> []"
    by auto
  then obtain hs where "dropWhile (\<lambda>d. d \<noteq> CHR ''x'') arg = CHR ''x'' # hs"
    using hd_dropWhile [of "\<lambda>d. d \<noteq> CHR ''x''" arg]
    by (cases "dropWhile (\<lambda>d. d \<noteq> CHR ''x'') arg") auto
  then have arg: "arg = ws @ CHR ''x'' # hs"
    using takeWhile_dropWhile_id [of "\<lambda>d. d \<noteq> CHR ''x''" arg] by (simp add: ws_def)
  have notin: "CHR ''x'' \<notin> set ws" using set_takeWhileD [of "CHR ''x''"] by (auto simp: ws_def)
  have parts: "take x arg = ws" "drop (x + 1) arg = hs" "length arg = x + 1 + length hs"
    by (simp_all only: arg xlen) simp_all
  from assms have "parseIntArg ws w0 = (True, w)" and "parseIntArg hs h0 = (True, h)"
    unfolding parseDimArg_def x option.case parts parseIntArg_def
    by (auto simp: xlen Let_def parts(3) split: prod.splits if_splits)
  with arg notin show ?thesis by blast
qed

section \<open>Properties\<close>

text \<open>\<open>parseIntArg\<close> accepts exactly the nonempty strings of decimal digits whose value the type can
  hold, without sign, blanks or trailing text, and then stores that value.\<close>

theorem parseIntArg_accepts:
  fixes w :: "'a::len word"
  shows "parseIntArg arg old = (True, w) \<longleftrightarrow>
    arg \<noteq> [] \<and> list_all is_digit arg \<and> read_digits arg = unat w"
proof
  assume "parseIntArg arg old = (True, w)"
  with parseIntArg_iff [of arg old] parseIntArg_value [of arg old]
  show "arg \<noteq> [] \<and> list_all is_digit arg \<and> read_digits arg = unat w"
    by (simp add: list_all_iff)
next
  assume *: "arg \<noteq> [] \<and> list_all is_digit arg \<and> read_digits arg = unat w"
  moreover have "unat w < 2 ^ LENGTH('a)" by (rule unsigned_less)
  ultimately have ok: "fst (parseIntArg arg old)"
    unfolding parseIntArg_iff by (simp add: list_all_iff)
  with * have "snd (parseIntArg arg old) = w"
    using parseIntArg_value [OF ok] by (simp add: unat_eq_iff)
  with ok show "parseIntArg arg old = (True, w)" by (simp add: prod_eq_iff)
qed

text \<open>\<open>parseDimArg\<close> accepts exactly two numbers, each acceptable to \<open>parseIntArg\<close>, around the first
  \<open>x\<close> of its argument, so that a dimension printed as \<open><w>x<h>\<close> is read back.\<close>

theorem parseDimArg_accepts:
  "(parseDimArg arg w0 h0 = (True, w, h) \<longleftrightarrow>
      (\<exists>ws hs. arg = ws @ CHR ''x'' # hs \<and> CHR ''x'' \<notin> set ws \<and>
        parseIntArg ws w0 = (True, w) \<and> parseIntArg hs h0 = (True, h))) \<and>
   parseDimArg (show_word v @ CHR ''x'' # show_word u) w0 h0 = (True, v, u)"
proof -
  have "parseDimArg (ws @ CHR ''x'' # hs) w0 h0 = (True, w, h)"
    if "CHR ''x'' \<notin> set ws" "parseIntArg ws w0 = (True, w)" "parseIntArg hs h0 = (True, h)" for ws hs
  proof -
    have "takeWhile (\<lambda>d. d \<noteq> CHR ''x'') (ws @ CHR ''x'' # hs) = ws"
      using that(1) by (subst takeWhile_append2) auto
    then have "strchr (ws @ CHR ''x'' # hs) (CHR ''x'') = Some (length ws)" by (simp add: strchr_def)
    with that(2,3) show ?thesis
      by (auto simp: parseDimArg_def parseIntArg_def Let_def split: prod.splits)
  qed
  with parseDimArg_split [of arg w0 h0 w h] parseDimArg_show show ?thesis by blast
qed

end
