(* ===== verification/Cli_Manager.thy ===== *)
theory Cli_Manager
  imports World
begin

text \<open>
  The server's side of the command line protocol (\<open>include/server/climanager.hpp\<close>,
  \<open>src/server/climanager.cpp\<close>): one connection, one request, an upload or a status query.
\<close>

section \<open>Requests\<close>

definition handleUpload :: "('ad, 's) posix \<Rightarrow> socket \<Rightarrow> ('s, JobQueue, unit) prog" where
  "handleUpload px sock =
     andThen (net (recv_u32 px sock)) (\<lambda>fps.
     andThen (net (recv_u32 px sock)) (\<lambda>frames.
     andThen (net (recv_u32 px sock)) (\<lambda>width.
     andThen (net (recv_u32 px sock)) (\<lambda>height.
     andThen (net (recv_u32 px sock)) (\<lambda>shader_size.
     andThen (net (recvFully px sock (unat shader_size))) (\<lambda>shader_source.
     andThen (change (addJob shader_source frames fps width height)) (\<lambda>job_id.
     net (sendFully px sock (u32_bytes job_id)))))))))"

text \<open>The status packet: an array of words, filled index by index.\<close>

fun fill_status :: "nat \<Rightarrow> JobStatus list \<Rightarrow> u32 list \<Rightarrow> u32 list" where
  "fill_status i [] packet = packet"
| "fill_status i (s # ss) packet =
     fill_status (Suc i) ss
       (packet[3 * i + 1 := st_job_id s, 3 * i + 2 := st_frames_rendered s,
               3 * i + 3 := st_frames_total s])"

definition status_packet :: "(nat \<Rightarrow> u32) \<Rightarrow> JobStatus list \<Rightarrow> u32 list" where
  "status_packet junk status =
     (let packet_size = 1 + 3 * length status;
          packet = map junk [0 ..< packet_size]
      in fill_status 0 status (packet[0 := of_nat (length status)]))"

definition handleStatus ::
  "('ad, 's) posix \<Rightarrow> (nat \<Rightarrow> u32) \<Rightarrow> u32 list \<Rightarrow> socket \<Rightarrow> ('s, JobQueue, unit) prog" where
  "handleStatus px junk order sock =
     andThen (change (getStatus order)) (\<lambda>status.
     net (sendFully px sock (u32s_bytes (status_packet junk status))))"

definition handleSocket ::
  "('ad, 's) posix \<Rightarrow> (nat \<Rightarrow> u32) \<Rightarrow> u32 list \<Rightarrow> socket \<Rightarrow> ('s, JobQueue, unit) prog" where
  "handleSocket px junk order sock =
     andThen (net (recv_u8 px sock)) (\<lambda>command.
       case CLIRequestID_of command of
         None \<Rightarrow> ret ()
       | Some ReqUpload \<Rightarrow> handleUpload px sock
       | Some ReqStatus \<Rightarrow> handleStatus px junk order sock)"

section \<open>The server thread\<close>

record CLIManager =
  cli_socket :: socket
  cli_port :: int
  cli_active :: bool

definition CLIManager_new :: "int \<Rightarrow> CLIManager" where
  "CLIManager_new port = \<lparr>cli_socket = Socket_new, cli_port = port, cli_active = False\<rparr>"

definition CLIManager_run ::
  "('ad, 's) posix \<Rightarrow> ('s, CLIManager \<times> JobQueue, unit) prog" where
  "CLIManager_run px = (\<lambda>(s, (cm, q)).
     case ServerSocket_bind px (cli_socket cm) ''0.0.0.0'' (cli_port cm) s of
       (Inl e, s') \<Rightarrow> Some (Inl (Exn e), (s', (cm, q)))
     | (Inr sock, s') \<Rightarrow> Some (Inr (), (s', (cm\<lparr>cli_socket := sock, cli_active := True\<rparr>, q))))"

definition CLIManager_stop ::
  "('ad, 's) posix \<Rightarrow> ('s, CLIManager \<times> JobQueue, unit) prog" where
  "CLIManager_stop px = (\<lambda>(s, (cm, q)).
     case ServerSocket_close px (cli_socket cm) s of (sock, s') \<Rightarrow>
       Some (Inr (), (s', (cm\<lparr>cli_active := False, cli_socket := sock\<rparr>, q))))"

text \<open>
  One round of the server thread: a network exception, of \<open>accept\<close> or of the request, is dropped;
  the accepted socket is destroyed at the end of the round.
\<close>

definition serverThread_round ::
  "('ad, 's) posix \<Rightarrow> (nat \<Rightarrow> u32) \<Rightarrow> u32 list \<Rightarrow> ('s, CLIManager \<times> JobQueue, unit) prog" where
  "serverThread_round px junk order = (\<lambda>(s, (cm, q)).
     case ServerSocket_accept px (cli_socket cm) s of
       (Inl e, s') \<Rightarrow> Some (Inr (), (s', (cm, q)))
     | (Inr sock, s1) \<Rightarrow>
         (case handleSocket px junk order sock (s1, q) of
            None \<Rightarrow> None
          | Some (r, (s2, q')) \<Rightarrow>
              Some (case r of Inl (Fault f) \<Rightarrow> Inl (Fault f) | _ \<Rightarrow> Inr (),
                    (Socket_destroy px sock s2, (cm, q')))))"

section \<open>Lemmas\<close>

definition status_words :: "JobStatus list \<Rightarrow> u32 list" where
  "status_words status =
     of_nat (length status) #
       concat (map (\<lambda>s. [st_job_id s, st_frames_rendered s, st_frames_total s]) status)"

lemma list_update_three:
  "length xs = n \<Longrightarrow>
   (xs @ [a, b, c] @ ys)[n := x, Suc n := y, Suc (Suc n) := z] = xs @ [x, y, z] @ ys"
  by (simp add: list_update_append)

lemma fill_status_eq:
  assumes "length packet = 1 + 3 * i + 3 * length ss"
  shows "fill_status i ss packet =
    take (1 + 3 * i) packet @
      concat (map (\<lambda>s. [st_job_id s, st_frames_rendered s, st_frames_total s]) ss)"
  using assms
proof (induction ss arbitrary: i packet)
  case Nil
  then show ?case by simp
next
  case (Cons s ss)
  define xs where "xs = take (1 + 3 * i) packet"
  define rest where "rest = drop (1 + 3 * i) packet"
  have packet: "packet = xs @ rest" and xs: "length xs = 1 + 3 * i"
    using Cons.prems by (simp_all add: xs_def rest_def)
  have "length rest = 3 + 3 * length ss" using Cons.prems by (simp add: rest_def)
  then obtain a b c ys where rest: "rest = [a, b, c] @ ys" and ys: "length ys = 3 * length ss"
    by (auto simp: numeral_3_eq_3 length_Suc_conv)
  let ?p = "packet[3 * i + 1 := st_job_id s, 3 * i + 2 := st_frames_rendered s,
               3 * i + 3 := st_frames_total s]"
  have p: "?p = xs @ [st_job_id s, st_frames_rendered s, st_frames_total s] @ ys"
    using list_update_three [of xs "3 * i + 1"] xs
    by (simp add: packet rest numeral_eq_Suc)
  have "fill_status (Suc i) ss ?p = take (1 + 3 * Suc i) ?p @
      concat (map (\<lambda>s. [st_job_id s, st_frames_rendered s, st_frames_total s]) ss)"
    by (rule Cons.IH) (simp add: Cons.prems)
  moreover have "take (1 + 3 * Suc i) ?p = xs @ [st_job_id s, st_frames_rendered s, st_frames_total s]"
    unfolding p using xs by simp
  ultimately show ?case
    by (simp only: fill_status.simps list.map concat.simps append_assoc xs_def)
qed

lemma status_packet_eq: "status_packet junk status = status_words status"
proof -
  have "fill_status 0 status ((map junk [0 ..< 1 + 3 * length status])[0 := of_nat (length status)]) =
      take 1 ((map junk [0 ..< 1 + 3 * length status])[0 := of_nat (length status)]) @
      concat (map (\<lambda>s. [st_job_id s, st_frames_rendered s, st_frames_total s]) status)"
    using fill_status_eq [of "(map junk [0 ..< 1 + 3 * length status])[0 := of_nat (length status)]" 0]
    by simp
  moreover have "take 1 ((map junk [0 ..< 1 + 3 * length status])[0 := of_nat (length status)]) =
      [of_nat (length status)]"
    by (simp add: upt_conv_Cons del: upt_Suc)
  ultimately show ?thesis by (simp add: status_packet_def status_words_def Let_def)
qed

definition upload_bytes :: "bytes \<Rightarrow> u32 \<Rightarrow> u32 \<Rightarrow> u32 \<Rightarrow> u32 \<Rightarrow> bytes" where
  "upload_bytes shader frames fps width height =
     [CLIRequestID_byte ReqUpload] @ u32_bytes fps @ u32_bytes frames @ u32_bytes width @
     u32_bytes height @ u32_bytes (of_nat (length shader)) @ shader"

context tcp_stream
begin

lemma talks_handleUpload:
  assumes "length shader < 2 ^ 32" and "addJob shader frames fps width height q = (job_id, q')"
  shows "talks inbox outbox up (handleUpload px (Some fd)) q
    (u32_bytes fps @ u32_bytes frames @ u32_bytes width @ u32_bytes height @
     u32_bytes (of_nat (length shader)) @ shader) (u32_bytes job_id) () q'"
proof -
  have len: "unat (of_nat (length shader) :: u32) = length shader"
    using assms(1) by (simp add: unat_of_nat)
  have "moves (recvFully px (Some fd) (unat (of_nat (length shader) :: u32))) shader [] shader"
    using assms(1) len by (intro moves_recvFully) auto
  moreover have "talks inbox outbox up (net (sendFully px (Some fd) (u32_bytes job_id))) q'
      [] (u32_bytes job_id) () q'"
    by (rule talks_net [OF moves_sendFully]) simp
  then have "talks inbox outbox up (andThen (change (addJob shader frames fps width height))
      (\<lambda>job_id. net (sendFully px (Some fd) (u32_bytes job_id)))) q [] (u32_bytes job_id) () q'"
    by (rule talks_change_then [where f = "addJob shader frames fps width height", OF assms(2)])
  ultimately have "talks inbox outbox up
      (andThen (net (recvFully px (Some fd) (unat (of_nat (length shader) :: u32)))) (\<lambda>shader_source.
       andThen (change (addJob shader_source frames fps width height))
         (\<lambda>job_id. net (sendFully px (Some fd) (u32_bytes job_id))))) q
      (shader @ []) (u32_bytes job_id) () q'"
    by (rule talks_net_then)
  note tail = this [unfolded append_Nil2]
  show ?thesis
    unfolding handleUpload_def
    by (rule tail talks_net_then [OF moves_recv_u32])+
qed

lemma talks_handleStatus:
  assumes "getStatus order q = (status, q')" and "length status < 2 ^ 32"
  shows "talks inbox outbox up (handleStatus px junk order (Some fd)) q
    [] (u32s_bytes (status_words status)) () q'"
proof -
  have "length (concat (map (\<lambda>s. [st_job_id s, st_frames_rendered s, st_frames_total s]) status)) =
      3 * length status"
    by (simp add: length_concat comp_def sum_list_triv)
  then have "length (u32s_bytes (status_words status)) < 2 ^ 64"
    using assms(2) by (simp add: status_words_def)
  then have "talks inbox outbox up
      (net (sendFully px (Some fd) (u32s_bytes (status_packet junk status)))) q'
      [] (u32s_bytes (status_words status)) () q'"
    unfolding status_packet_eq by (intro talks_net moves_sendFully)
  then show ?thesis
    unfolding handleStatus_def by (rule talks_change_then [where f = "getStatus order", OF assms(1)])
qed

lemma talks_handleSocket_upload:
  assumes "length shader < 2 ^ 32" and "addJob shader frames fps width height q = (job_id, q')"
  shows "talks inbox outbox up (handleSocket px junk order (Some fd)) q
    (upload_bytes shader frames fps width height) (u32_bytes job_id) () q'"
  unfolding handleSocket_def upload_bytes_def
  by (rule talks_net_then [OF moves_recv_u8])
    (simp only: CLIRequestID_of_byte option.case CLIRequestID.case talks_handleUpload [OF assms])

lemma talks_handleSocket_status:
  assumes "getStatus order q = (status, q')" and "length status < 2 ^ 32"
  shows "talks inbox outbox up (handleSocket px junk order (Some fd)) q
    [CLIRequestID_byte ReqStatus] (u32s_bytes (status_words status)) () q'"
proof -
  have "talks inbox outbox up (handleSocket px junk order (Some fd)) q
      ([CLIRequestID_byte ReqStatus] @ []) (u32s_bytes (status_words status)) () q'"
    unfolding handleSocket_def
    by (rule talks_net_then [OF moves_recv_u8])
      (simp only: CLIRequestID_of_byte option.case CLIRequestID.case talks_handleStatus [OF assms])
  then show ?thesis by (simp only: append_Nil2)
qed

lemma returns_net: "returns up m \<Longrightarrow> returns (\<lambda>w. up (fst w)) (net m)"
  unfolding returns_def net_def by (fastforce split: sum.splits)

lemma returns_change: "returns (\<lambda>w. up (fst w)) (change f)"
  by (auto simp: returns_def change_def split: prod.splits)

text \<open>
  A request handler returns whatever the peer sends and wherever it stops, as long as a status
  report fits the address space.
\<close>

lemma returns_handleUpload: "returns (\<lambda>w. up (fst w)) (handleUpload px (Some fd))"
proof -
  have size: "unat w < 2 ^ 64" for w :: u32
    by (rule less_trans [OF unsigned_less]) simp
  show ?thesis
    unfolding handleUpload_def
    by (intro returns_andThen returns_net returns_change returns_recv returns_recvFully
        returns_sendFully size) simp
qed

lemma handleSocket_returns:
  assumes "up s" and "length (fst (getStatus order q)) < 2 ^ 32"
  shows "\<exists>r s' q'. handleSocket px junk order (Some fd) (s, q) = Some (r, (s', q')) \<and> up s'"
proof -
  from returns_recv(1) assms(1) obtain r s1 where s1: "recv_u8 px (Some fd) s = Some (r, s1)" "up s1"
    unfolding returns_def by blast
  show ?thesis
  proof (cases r)
    case (Inl e)
    with s1 show ?thesis by (simp add: handleSocket_def andThen_def net_def)
  next
    case (Inr c)
    let ?k = "case CLIRequestID_of c of None \<Rightarrow> ret ()
      | Some ReqUpload \<Rightarrow> handleUpload px (Some fd)
      | Some ReqStatus \<Rightarrow> handleStatus px junk order (Some fd)"
    have run: "handleSocket px junk order (Some fd) (s, q) = ?k (s1, q)"
      using s1 Inr by (simp add: handleSocket_def andThen_def net_def)
    obtain status q' where st: "getStatus order q = (status, q')" by fastforce
    have "\<exists>r s' q'. ?k (s1, q) = Some (r, (s', q')) \<and> up s'"
    proof (cases "CLIRequestID_of c")
      case None
      with s1 show ?thesis by (simp add: ret_def)
    next
      case (Some id)
      show ?thesis
      proof (cases id)
        case ReqUpload
        with Some returns_handleUpload s1(2) show ?thesis
          unfolding returns_def by (fastforce dest: spec [of _ "(s1, q)"])
      next
        case ReqStatus
        with Some talksD [OF talks_handleStatus [OF st], of s1 "inbox s1" junk] s1(2) assms(2) st
        show ?thesis by fastforce
      qed
    qed
    with run show ?thesis by simp
  qed
qed

end

end
