(* ===== verification/Cli_Main.thy ===== *)
theory Cli_Main
  imports Arg_Parse Cli_Manager
begin

text \<open>
  The command line program (\<open>src/cli/main.cpp\<close>): the two requests it sends, the printing of the
  answers, and the handling of its arguments. Text written to the standard streams is part of the
  result; the file system is a parameter.
\<close>

section \<open>Submitting a job\<close>

definition submit_packet ::
  "(nat \<Rightarrow> byte) \<Rightarrow> bytes \<Rightarrow> u32 \<Rightarrow> u32 \<Rightarrow> u32 \<Rightarrow> u32 \<Rightarrow> bytes option" where
  "submit_packet junk shader frames fps width height =
     (let shader_size = (of_nat (length shader) :: u32);
          buffer_size = 1 + 5 * 4 + length shader
      in memcpys
           [(0, [CLIRequestID_byte ReqUpload]),
            (1, u32_bytes fps),
            (5, u32_bytes frames),
            (9, u32_bytes width),
            (13, u32_bytes height),
            (17, u32_bytes shader_size),
            (21, take (unat shader_size) shader)]
           (new_array junk buffer_size))"

text \<open>The outer \<open>option\<close> of the packet is a copy out of bounds; it does not happen (\<open>submit_packet_eq\<close>).\<close>

definition submit_job ::
  "('ad, 's) posix \<Rightarrow> (nat \<Rightarrow> byte) \<Rightarrow> socket \<Rightarrow> bytes \<Rightarrow> u32 \<Rightarrow> u32 \<Rightarrow> u32 \<Rightarrow> u32 \<Rightarrow>
   ('s, net_error, u32) act" where
  "submit_job px junk sock shader frames fps width height =
     (case submit_packet junk shader frames fps width height of
        None \<Rightarrow> throw NullSocket
      | Some buffer \<Rightarrow> andThen (sendFully px sock buffer) (\<lambda>_. recv_u32 px sock))"

section \<open>Querying the status\<close>

definition recv_status :: "('ad, 's) posix \<Rightarrow> socket \<Rightarrow> ('s, net_error, JobStatus) act" where
  "recv_status px sock =
     andThen (recv_u32 px sock) (\<lambda>id.
     andThen (recv_u32 px sock) (\<lambda>rendered.
     andThen (recv_u32 px sock) (\<lambda>total.
     ret \<lparr>st_job_id = id, st_frames_rendered = rendered, st_frames_total = total\<rparr>)))"

definition query_status :: "('ad, 's) posix \<Rightarrow> socket \<Rightarrow> ('s, net_error, JobStatus list) act" where
  "query_status px sock =
     andThen (sendFully px sock [CLIRequestID_byte ReqStatus]) (\<lambda>_.
     andThen (recv_u32 px sock) (\<lambda>num_jobs.
     repeatA (unat num_jobs) (recv_status px sock)))"

definition status_line :: "JobStatus \<Rightarrow> string" where
  "status_line s =
     show_word (st_job_id s) @ '': '' @
     (if st_frames_rendered s = 0 \<and> st_frames_total s = 0 then '' finished''
      else show_word (st_frames_rendered s) @ ''/'' @ show_word (st_frames_total s)) @ ''\<newline>''"

definition query :: "('ad, 's) posix \<Rightarrow> socket \<Rightarrow> ('s, net_error, string) act" where
  "query px sock = andThen (query_status px sock) (\<lambda>ss. ret (concat (map status_line ss)))"

section \<open>Arguments\<close>

record cli_options =
  query_opt :: bool
  host_opt :: "string option"
  port_opt :: "string option"
  submit_opt :: "string option"
  frames_opt :: "string option"
  dim_opt :: "string option"
  fps_opt :: "string option"

definition no_options :: cli_options where
  "no_options = \<lparr>query_opt = False, host_opt = None, port_opt = None, submit_opt = None,
                 frames_opt = None, dim_opt = None, fps_opt = None\<rparr>"

datatype cli_error =
    UnknownOption string
  | ExpectedArgument string
  | MissingHost
  | SubmitOrQueryRequired
  | MutuallyExclusive
  | SubmitRequiresFrames
  | SubmitRequiresDim
  | InvalidValue string string

text \<open>The loop over the arguments: \<open>Inl None\<close> is the help text, which ends the program well.\<close>

definition set_option :: "string \<Rightarrow> (string \<Rightarrow> cli_options \<Rightarrow> cli_options) option" where
  "set_option option =
     (if option = ''--host'' then Some (\<lambda>v o'. o'\<lparr>host_opt := Some v\<rparr>)
      else if option = ''--port'' then Some (\<lambda>v o'. o'\<lparr>port_opt := Some v\<rparr>)
      else if option = ''--submit'' then Some (\<lambda>v o'. o'\<lparr>submit_opt := Some v\<rparr>)
      else if option = ''--frames'' then Some (\<lambda>v o'. o'\<lparr>frames_opt := Some v\<rparr>)
      else if option = ''--dim'' then Some (\<lambda>v o'. o'\<lparr>dim_opt := Some v\<rparr>)
      else if option = ''--fps'' then Some (\<lambda>v o'. o'\<lparr>fps_opt := Some v\<rparr>)
      else None)"

function parse_options :: "string list \<Rightarrow> cli_options \<Rightarrow> cli_error option + cli_options" where
  "parse_options args opts =
     (case args of
        [] \<Rightarrow> Inr opts
      | option # rest \<Rightarrow>
          if option = ''--query'' then parse_options rest (opts\<lparr>query_opt := True\<rparr>)
          else if option = ''-h'' \<or> option = ''--help'' then Inl None
          else (case set_option option of
                  None \<Rightarrow> Inl (Some (UnknownOption option))
                | Some upd \<Rightarrow>
                    (case rest of
                       [] \<Rightarrow> Inl (Some (ExpectedArgument option))
                     | v # rest' \<Rightarrow> parse_options rest' (upd v opts))))"
  by pat_completeness auto
termination
  by (relation "measure (\<lambda>(args, opts). length args)") auto

declare parse_options.simps [simp del]

definition check_options :: "cli_options \<Rightarrow> cli_error option" where
  "check_options opts =
     (if host_opt opts = None then Some MissingHost
      else if submit_opt opts = None \<and> \<not> query_opt opts then Some SubmitOrQueryRequired
      else if submit_opt opts \<noteq> None \<and> query_opt opts then Some MutuallyExclusive
      else if submit_opt opts \<noteq> None \<and> frames_opt opts = None then Some SubmitRequiresFrames
      else if submit_opt opts \<noteq> None \<and> dim_opt opts = None then Some SubmitRequiresDim
      else None)"

text \<open>What the program does once its arguments are read.\<close>

datatype cli_request =
    Query
  | Submit (req_kernel: string) (req_frames: u32) (req_fps: u32) (req_width: u32) (req_height: u32)

text \<open>
  The numeric options, in the order of the code. \<open>frames\<close>, \<open>w\<close> and \<open>h\<close> are uninitialised until their
  option is parsed (\<open>junk\<close>); they are used by a submission only, which has required both options.
\<close>

definition optional_int :: "string option \<Rightarrow> 'a::len word \<Rightarrow> string \<Rightarrow> cli_error + 'a word" where
  "optional_int arg old name =
     (case arg of
        None \<Rightarrow> Inr old
      | Some a \<Rightarrow> (case parseIntArg a old of (ok, v) \<Rightarrow>
          if ok then Inr v else Inl (InvalidValue a name)))"

definition optional_dim :: "string option \<Rightarrow> u32 \<times> u32 \<Rightarrow> cli_error + u32 \<times> u32" where
  "optional_dim arg old =
     (case arg of
        None \<Rightarrow> Inr old
      | Some a \<Rightarrow> (case parseDimArg a (fst old) (snd old) of (ok, w, h) \<Rightarrow>
          if ok then Inr (w, h) else Inl (InvalidValue a ''--dim'')))"

definition read_options ::
  "u32 \<Rightarrow> cli_options \<Rightarrow> cli_error + string \<times> u16 \<times> cli_request" where
  "read_options junk opts =
     (case check_options opts of
        Some e \<Rightarrow> Inl e
      | None \<Rightarrow>
     (case optional_int (port_opt opts) (4243 :: u16) ''--port'' of
        Inl e \<Rightarrow> Inl e
      | Inr port \<Rightarrow>
     (case optional_int (frames_opt opts) junk ''--frames'' of
        Inl e \<Rightarrow> Inl e
      | Inr frames \<Rightarrow>
     (case optional_int (fps_opt opts) (60 :: u32) ''--fps'' of
        Inl e \<Rightarrow> Inl e
      | Inr fps \<Rightarrow>
     (case optional_dim (dim_opt opts) (junk, junk) of
        Inl e \<Rightarrow> Inl e
      | Inr (w, h) \<Rightarrow>
          Inr (the (host_opt opts), port,
               if query_opt opts then Query
               else Submit (the (submit_opt opts)) frames fps w h))))))"

definition cli_help :: "string \<Rightarrow> string" where
  "cli_help prog =
     ''Usage: '' @
     prog @
     '' [options...]\<newline>'' @
     ''options:\<newline>'' @
     ''--host <addr>       Echidna server to connect to\<newline>'' @
     ''--port <port>       Port to connect to (default: 4243)\<newline>'' @
     ''--submit <kernel>   Submit file <kernel> to be rendered. This also requires\<newline>'' @
     ''                     arguments --frames, --dim and optionally --fps. This\<newline>'' @
     ''                     option is incompatible with --query\<newline>'' @
     ''--frames <amt>      Render <amt> frames in total\<newline>'' @
     ''--dim <w>x<h>       Render frames of <w>x<h>\<newline>'' @
     ''--fps <amt>         Render <fps> frames per second (default: 60)\<newline>'' @
     ''--query             Query Echidna status. This option is incompatible\<newline>'' @
     ''                    with --submit\<newline>''"

definition error_text :: "cli_error \<Rightarrow> string" where
  "error_text e =
     ''Error: '' @
     (case e of
        UnknownOption o' \<Rightarrow> ''Unknown option '' @ [CHR 39] @ o' @ [CHR 39]
      | ExpectedArgument o' \<Rightarrow> ''Expected argument to '' @ o'
      | MissingHost \<Rightarrow> ''Missing required argument --host''
      | SubmitOrQueryRequired \<Rightarrow> ''Either --submit or --query is required''
      | MutuallyExclusive \<Rightarrow> ''--submit and --query are mutually exclusive''
      | SubmitRequiresFrames \<Rightarrow> ''--submit requires --frames''
      | SubmitRequiresDim \<Rightarrow> ''--submit requires --dim''
      | InvalidValue a n \<Rightarrow> ''Invalid value '' @ [CHR 39] @ a @ [CHR 39] @ '' for '' @ n) @ ''\<newline>''"

section \<open>The program\<close>

text \<open>
  How a run ends: with an exit code and the text on the two streams, or by an exception that leaves
  \<open>main\<close>. The connection is inside a handler, the requests are not.
\<close>

datatype cli_outcome =
    Exit bool (stdout: string) (stderr: string)
  | Uncaught net_error (stdout: string)

definition run_request ::
  "('ad, 's) posix \<Rightarrow> (nat \<Rightarrow> byte) \<Rightarrow> (string \<Rightarrow> bytes option) \<Rightarrow> socket \<Rightarrow> cli_request \<Rightarrow>
   ('s, net_error, bool \<times> string \<times> string) act" where
  "run_request px junk read_file sock req =
     (case req of
        Query \<Rightarrow> andThen (query px sock) (\<lambda>out. ret (True, out, ''''))
      | Submit file frames fps w h \<Rightarrow>
          (case read_file file of
             None \<Rightarrow> ret (False, '''', ''Error: Cannot open file '' @ [CHR 39] @ file @ [CHR 39] @ ''\<newline>'')
           | Some source \<Rightarrow>
               andThen (submit_job px junk sock source frames fps w h) (\<lambda>job.
               ret (True, ''Submitted job with id '' @ show_word job @ ''\<newline>'', ''''))))"

definition cli_main ::
  "('ad, 's) posix \<Rightarrow> (nat \<Rightarrow> byte) \<Rightarrow> (string \<Rightarrow> bytes option) \<Rightarrow> (net_error \<Rightarrow> string) \<Rightarrow>
   string \<Rightarrow> u32 \<Rightarrow> string list \<Rightarrow> 's \<Rightarrow> (cli_outcome \<times> 's) option" where
  "cli_main px junk read_file what prog uninit args s =
     (case parse_options args no_options of
        Inl None \<Rightarrow> Some (Exit True '''' (cli_help prog), s)
      | Inl (Some e) \<Rightarrow> Some (Exit False '''' (error_text e), s)
      | Inr opts \<Rightarrow>
     (case read_options uninit opts of
        Inl e \<Rightarrow> Some (Exit False '''' (error_text e), s)
      | Inr (host, port, req) \<Rightarrow>
          (let hello = ''Connecting to host '' @ host @ '':'' @ show_word port @ ''\<newline>''
           in case Socket_connect px Socket_new host (int (unat port)) s of
                (Inl e, s1) \<Rightarrow> Some (Exit False hello (''Error: '' @ what e @ ''\<newline>''), s1)
              | (Inr sock, s1) \<Rightarrow>
                  (case run_request px junk read_file sock req s1 of
                     None \<Rightarrow> None
                   | Some (Inl e, s2) \<Rightarrow> Some (Uncaught e hello, s2)
                   | Some (Inr (ok, out, err), s2) \<Rightarrow>
                       Some (Exit ok (hello @ out) err, Socket_destroy px sock s2)))))"

section \<open>Lemmas: the requests\<close>

lemma submit_packet_eq:
  assumes "length shader < 2 ^ 32"
  shows "submit_packet junk shader frames fps width height =
    Some (upload_bytes shader frames fps width height)"
proof -
  have "unat (of_nat (length shader) :: u32) = length shader"
    using assms by (simp add: unat_of_nat)
  then show ?thesis
    unfolding submit_packet_def Let_def
    by (subst memcpys_contiguous [where off = 0]) (simp_all add: upload_bytes_def)
qed

context tcp_stream
begin

lemma moves_submit_job:
  assumes "length shader < 2 ^ 32"
  shows "moves (submit_job px junk (Some fd) shader frames fps width height)
    (u32_bytes job_id) (upload_bytes shader frames fps width height) job_id"
proof -
  have "length (upload_bytes shader frames fps width height) < 2 ^ 64"
    using assms by (simp add: upload_bytes_def)
  from transfers_andThen [where f = "\<lambda>_. recv_u32 px (Some fd)",
      OF moves_sendFully [OF this] moves_recv_u32, of job_id]
  show ?thesis
    by (simp add: submit_job_def submit_packet_eq [OF assms])
qed

lemma moves_recv_then:
  assumes "moves (f w) ins outs v"
  shows "moves (andThen (recv_u32 px (Some fd)) f) (u32_bytes w @ ins) outs v"
  by (rule transfers_cons_andThen [where f = f, OF moves_recv_u32 assms])

lemma moves_recv_status:
  "moves (recv_status px (Some fd))
     (u32s_bytes [st_job_id st, st_frames_rendered st, st_frames_total st]) [] st"
  unfolding recv_status_def u32s_bytes_Cons u32s_bytes_Nil
  by (intro moves_recv_then) (cases st, simp add: transfers_ret)

lemma moves_repeat_status:
  "moves (repeatA (length ss) (recv_status px (Some fd)))
     (u32s_bytes (concat (map (\<lambda>s. [st_job_id s, st_frames_rendered s, st_frames_total s]) ss))) [] ss"
proof (induction ss)
  case Nil
  then show ?case by (simp add: transfers_ret)
next
  case (Cons st ss)
  have "moves (andThen (repeatA (length ss) (recv_status px (Some fd))) (\<lambda>xs. ret (st # xs)))
     (u32s_bytes (concat (map (\<lambda>s. [st_job_id s, st_frames_rendered s, st_frames_total s]) ss)) @ [])
     [] (st # ss)"
    by (rule transfers_cons_andThen [where f = "\<lambda>xs. ret (st # xs)", OF Cons.IH transfers_ret])
  from transfers_cons_andThen [where f = "\<lambda>x. andThen (repeatA (length ss) (recv_status px (Some fd)))
      (\<lambda>xs. ret (x # xs))", OF moves_recv_status this]
  show ?case by simp
qed

lemma moves_query_status:
  assumes "length ss < 2 ^ 32"
  shows "moves (query_status px (Some fd)) (u32s_bytes (status_words ss))
    [CLIRequestID_byte ReqStatus] ss"
proof -
  have "unat (of_nat (length ss) :: u32) = length ss"
    using assms by (simp add: unat_of_nat)
  with moves_repeat_status [of ss] have
    "moves (repeatA (unat (of_nat (length ss) :: u32)) (recv_status px (Some fd)))
      (u32s_bytes (concat (map (\<lambda>s. [st_job_id s, st_frames_rendered s, st_frames_total s]) ss)))
      [] ss" by simp
  from moves_recv_then [where f = "\<lambda>n. repeatA (unat n) (recv_status px (Some fd))", OF this]
  have "moves (andThen (recv_u32 px (Some fd)) (\<lambda>n. repeatA (unat n) (recv_status px (Some fd))))
      (u32s_bytes (status_words ss)) [] ss"
    by (simp add: status_words_def)
  from transfers_andThen [where f = "\<lambda>_. andThen (recv_u32 px (Some fd))
      (\<lambda>n. repeatA (unat n) (recv_status px (Some fd)))", OF moves_sendFully this,
      of "[CLIRequestID_byte ReqStatus]"]
  show ?thesis by (simp add: query_status_def)
qed

end

section \<open>Lemmas: the arguments\<close>

text \<open>The arguments that spell out a set of options.\<close>

definition option_args :: "string \<Rightarrow> string option \<Rightarrow> string list" where
  "option_args name v = (case v of None \<Rightarrow> [] | Some a \<Rightarrow> [name, a])"

definition args_of :: "cli_options \<Rightarrow> string list" where
  "args_of opts =
     (if query_opt opts then [''--query''] else []) @
     option_args ''--host'' (host_opt opts) @ option_args ''--port'' (port_opt opts) @
     option_args ''--submit'' (submit_opt opts) @ option_args ''--frames'' (frames_opt opts) @
     option_args ''--dim'' (dim_opt opts) @ option_args ''--fps'' (fps_opt opts)"

lemma parse_options_Nil: "parse_options [] opts = Inr opts"
  by (simp add: parse_options.simps [of "[]"])

lemma parse_options_query:
  "parse_options (''--query'' # rest) opts = parse_options rest (opts\<lparr>query_opt := True\<rparr>)"
  by (simp add: parse_options.simps [of "''--query'' # rest"])

lemma parse_options_set:
  assumes "set_option name = Some upd"
  shows "parse_options (name # v # rest) opts = parse_options rest (upd v opts)"
proof -
  have "name \<noteq> ''--query'' \<and> name \<noteq> ''-h'' \<and> name \<noteq> ''--help''"
    using assms by (auto simp: set_option_def)
  with assms show ?thesis by (simp add: parse_options.simps [of "name # v # rest"])
qed

lemma parse_option_args:
  assumes "set_option name = Some upd"
  shows "parse_options (option_args name v @ rest) opts =
    parse_options rest (case v of None \<Rightarrow> opts | Some a \<Rightarrow> upd a opts)"
  using assms by (cases v) (simp_all add: option_args_def parse_options_set)

lemma parse_args_of_aux: "parse_options (args_of opts) no_options = Inr opts"
proof -
  have q: "parse_options ((if b then [''--query''] else []) @ rest) o' =
      parse_options rest (if b then o'\<lparr>query_opt := True\<rparr> else o')" for b rest o'
    by (simp add: parse_options_query)
  have last: "parse_options (option_args ''--fps'' v) o' =
      Inr (case v of None \<Rightarrow> o' | Some a \<Rightarrow> o'\<lparr>fps_opt := Some a\<rparr>)" for v o'
    using parse_option_args [of "''--fps''" _ v "[]" o'] by (simp add: set_option_def parse_options_Nil)
  show ?thesis
    unfolding args_of_def q
    by (cases opts)
      (simp add: parse_option_args set_option_def last no_options_def split: option.split)
qed

text \<open>The arguments that ask for one submission.\<close>

definition submission_options ::
  "string \<Rightarrow> u16 \<Rightarrow> string \<Rightarrow> u32 \<Rightarrow> u32 \<Rightarrow> u32 \<Rightarrow> u32 \<Rightarrow> cli_options" where
  "submission_options host port file frames fps w h =
     \<lparr>query_opt = False, host_opt = Some host, port_opt = Some (show_word port),
      submit_opt = Some file, frames_opt = Some (show_word frames),
      dim_opt = Some (show_word w @ CHR ''x'' # show_word h), fps_opt = Some (show_word fps)\<rparr>"

section \<open>Properties\<close>

text \<open>C24: The argument parser reads back every set of options from the arguments that spell it out,
  and the arguments of a submission give exactly its host, port, file and numbers, whatever the
  uninitialised variables held.\<close>

theorem cli_arguments_roundtrip:
  "parse_options (args_of opts) no_options = Inr opts \<and>
   read_options uninit (submission_options host port file frames fps w h) =
     Inr (host, port, Submit file frames fps w h)"
proof -
  have "read_options uninit (submission_options host port file frames fps w h) =
      Inr (host, port, Submit file frames fps w h)"
    by (simp add: read_options_def submission_options_def check_options_def optional_int_def
        optional_dim_def parseIntArg_show parseDimArg_show)
  with parse_args_of_aux show ?thesis by blast
qed

text \<open>C23: An upload arrives: the server, reading what \<open>submit_job\<close> sends, adds a job with exactly the
  shader and the numbers of the submission, and \<open>submit_job\<close>, reading the answer, returns the id
  under which the queue holds it.\<close>

theorem upload_arrives:
  assumes client: "tcp_stream px fd inbox outbox up" "up t" "inbox t = u32_bytes (job_offset q)"
    and server: "tcp_stream pxs fds inboxs outboxs ups" "ups s"
    and size: "length shader < 2 ^ 32"
    and submit: "submit_job px junk (Some fd) shader frames fps width height t = Some (r, t')"
    and wire: "inboxs s = drop (length (outbox t)) (outbox t')"
  shows "r = Inr (job_offset q) \<and>
    (\<exists>s'. handleSocket pxs junk' order (Some fds) (s, q) =
        Some (Inr (), (s', snd (addJob shader frames fps width height q))) \<and>
      outboxs s' = outboxs s @ u32_bytes (job_offset q))"
proof -
  from transfersD [OF tcp_stream.moves_submit_job [OF client(1) size, where junk = junk
        and frames = frames and fps = fps and width = width and height = height
        and job_id = "job_offset q"] client(2), of "[]"] client(3) submit
  have out: "r = Inr (job_offset q)" "outbox t' = outbox t @ upload_bytes shader frames fps width height"
    by auto
  have "addJob shader frames fps width height q =
      (job_offset q, snd (addJob shader frames fps width height q))"
    by (simp add: addJob_def Let_def)
  from talksD [OF tcp_stream.talks_handleSocket_upload [OF server(1) size this] server(2), of "[]"]
    wire out show ?thesis by auto
qed

lemma upload_arrives_witness:
  "\<exists>t' s'. submit_job sim_posix (\<lambda>_. 0) (Some 3) [9, 9] 24 60 4 4
       (sim_with (u32_bytes 0) [2] []) = Some (Inr 0, t') \<and>
     handleSocket sim_posix (\<lambda>_. 0) [] (Some 3) (sim_with (sim_out t') [1] [], JobQueue_new) =
       Some (Inr (), (s', snd (addJob [9, 9] 24 60 4 4 JobQueue_new)))"
proof -
  let ?t = "sim_with (u32_bytes 0) [2] []"
  have size: "length [9, 9 :: byte] < 2 ^ 32" by simp
  have off: "job_offset JobQueue_new = 0" by (simp add: JobQueue_new_def)
  from transfersD [OF sim.moves_submit_job [OF size, where junk = "\<lambda>_. 0" and frames = 24
        and fps = 60 and width = 4 and height = 4 and job_id = 0], of ?t "[]"]
  obtain t' where run: "submit_job sim_posix (\<lambda>_. 0) (Some 3) [9, 9] 24 60 4 4 ?t = Some (Inr 0, t')"
    by auto
  from upload_arrives [OF sim.tcp_stream_axioms _ _ sim.tcp_stream_axioms _ size run,
      where s = "sim_with (sim_out t') [1] []" and q = JobQueue_new] run off
  show ?thesis by auto
qed

text \<open>A status query arrives: the server answers with the report of the queue, which clears the
  list of finished jobs, and the program, reading the answer, prints one line per entry of the
  report, in its order.\<close>

theorem status_arrives:
  assumes server: "tcp_stream pxs fds inboxs outboxs ups" "ups s"
      "inboxs s = [CLIRequestID_byte ReqStatus]"
    and client: "tcp_stream px fd inbox outbox up" "up t"
    and size: "length (fst (getStatus order q)) < 2 ^ 32"
    and serve: "handleSocket pxs junk order (Some fds) (s, q) = Some (r, (s', q'))"
    and wire: "inbox t = drop (length (outboxs s)) (outboxs s')"
  shows "q' = q\<lparr>finished_jobs := []\<rparr> \<and>
    (\<exists>t'. query px (Some fd) t = Some (Inr (concat (map status_line (fst (getStatus order q)))), t') \<and>
      outbox t' = outbox t @ [CLIRequestID_byte ReqStatus])"
proof -
  have st: "getStatus order q = (fst (getStatus order q), q\<lparr>finished_jobs := []\<rparr>)"
    by (simp add: getStatus_def)
  from talksD [OF tcp_stream.talks_handleSocket_status [OF server(1) st size] server(2),
      of "[]" junk] server(3) serve
  have "q' = q\<lparr>finished_jobs := []\<rparr>"
    and out: "outboxs s' = outboxs s @ u32s_bytes (status_words (fst (getStatus order q)))" by auto
  with transfersD [OF tcp_stream.moves_query_status [OF client(1) size] client(2), of "[]"] wire
  show ?thesis by (auto simp: query_def andThen_def ret_def)
qed

lemma status_arrives_witness:
  "\<exists>s' q' t'. handleSocket sim_posix (\<lambda>_. 0) [] (Some 3)
       (sim_with [CLIRequestID_byte ReqStatus] [] [], JobQueue_new\<lparr>finished_jobs := [4]\<rparr>) =
       Some (Inr (), (s', q')) \<and>
     query sim_posix (Some 3) (sim_with (sim_out s') [1, 2, 3] []) =
       Some (Inr (status_line (finished_status 4)), t')"
proof -
  let ?s = "sim_with [CLIRequestID_byte ReqStatus] [] []" and ?q = "JobQueue_new\<lparr>finished_jobs := [4]\<rparr>"
  have st: "getStatus [] ?q = ([finished_status 4], ?q\<lparr>finished_jobs := []\<rparr>)"
    by (simp add: getStatus_def map_filter_def)
  from talksD [OF sim.talks_handleSocket_status [OF st], of ?s "[]" "\<lambda>_. 0"] obtain s' q' where
    run: "handleSocket sim_posix (\<lambda>_. 0) [] (Some 3) (?s, ?q) = Some (Inr (), (s', q'))" by auto
  from status_arrives [OF sim.tcp_stream_axioms _ _ sim.tcp_stream_axioms _ _ run,
      where t = "sim_with (sim_out s') [1, 2, 3] []"] run st
  show ?thesis by auto
qed

text \<open>The handling of a request returns, whatever bytes the peer sends and wherever it stops: with
  an answer, by an exception for a request that ends early, or silently for an unknown one.\<close>

theorem request_handling_returns:
  assumes "tcp_stream px fd inbox outbox up" and "up s"
    and "length (fst (getStatus order q)) < 2 ^ 32"
  shows "\<exists>r s' q'. handleSocket px junk order (Some fd) (s, q) = Some (r, (s', q'))"
  using tcp_stream.handleSocket_returns [OF assms] by blast

lemma request_handling_returns_witness:
  "\<exists>r s' q'. handleSocket sim_posix (\<lambda>_. 0) [] (Some 3) (sim_with [0, 1] [1] [], JobQueue_new) =
     Some (r, (s', q'))"
  by (rule request_handling_returns [OF sim.tcp_stream_axioms])
    (simp_all add: getStatus_def map_filter_def JobQueue_new_def)

end
