(* ===== verification/Thread_Pool.thy ===== *)
theory Thread_Pool
  imports Main "HOL-Library.Multiset"
begin

text \<open>
  The thread pool that compresses rendered images (\<open>include/utils/threadpool.hpp\<close>,
  \<open>src/utils/threadpool.cpp\<close>), as a state machine whose steps are the critical sections of the
  worker threads, of the callers of \<open>schedule\<close> and of the destructor (\<open>drain\<close>, \<open>stop\<close>, \<open>join\<close>).
  A wait on the condition variable is two steps, because \<open>stop\<close> writes the flag it tests and
  notifies without holding the mutex: a worker that found nothing to do is \<open>Committed\<close>, still
  holding the mutex, before it is \<open>Waiting\<close>. Wake-ups without a notification are steps too.
\<close>

section \<open>State\<close>

datatype 'j worker = Ready | Committed | Waiting | Running 'j | Exited

text \<open>How far the destructor has come.\<close>

datatype dtor = Alive | DrainReady | DrainWaiting | Drained | StopStored | StopNotified | Joined

text \<open>The last three components are ghosts: the jobs scheduled, taken and completed so far, in order.\<close>

record 'j pool =
  pool_queue :: "'j list"
  pool_active :: bool
  pool_workers :: "'j worker list"
  pool_dtor :: dtor
  pool_scheduled :: "'j list"
  pool_started :: "'j list"
  pool_completed :: "'j list"

definition ThreadPool_new :: "nat \<Rightarrow> 'j pool" where
  "ThreadPool_new num_threads =
     \<lparr>pool_queue = [], pool_active = True, pool_workers = replicate num_threads Ready,
      pool_dtor = Alive, pool_scheduled = [], pool_started = [], pool_completed = []\<rparr>"

section \<open>Operations\<close>

definition mutex_free :: "'j pool \<Rightarrow> bool" where
  "mutex_free p \<longleftrightarrow> Committed \<notin> set (pool_workers p)"

definition set_worker :: "nat \<Rightarrow> 'j worker \<Rightarrow> 'j pool \<Rightarrow> 'j pool" where
  "set_worker i w p = p\<lparr>pool_workers := (pool_workers p)[i := w]\<rparr>"

text \<open>A worker's critical section in \<open>threadCallback\<close>.\<close>

definition threadCallback :: "nat \<Rightarrow> 'j pool \<Rightarrow> 'j pool" where
  "threadCallback i p =
     (if \<not> (pool_queue p \<noteq> [] \<or> \<not> pool_active p) then set_worker i Committed p
      else if \<not> pool_active p \<and> pool_queue p = [] then set_worker i Exited p
      else set_worker i (Running (hd (pool_queue p)))
             (p\<lparr>pool_queue := tl (pool_queue p),
                pool_started := pool_started p @ [hd (pool_queue p)]\<rparr>))"

definition schedule :: "'j \<Rightarrow> 'j pool \<Rightarrow> 'j pool" where
  "schedule j p = p\<lparr>pool_queue := pool_queue p @ [j], pool_scheduled := pool_scheduled p @ [j]\<rparr>"

fun wake :: "'j worker \<Rightarrow> 'j worker" where
  "wake Waiting = Ready"
| "wake w = w"

definition notify_all :: "'j pool \<Rightarrow> 'j pool" where
  "notify_all p = p\<lparr>pool_workers := map wake (pool_workers p)\<rparr>"

text \<open>\<open>drain\<close>: the predicate of its wait.\<close>

definition drain_check :: "'j pool \<Rightarrow> 'j pool" where
  "drain_check p = p\<lparr>pool_dtor := if pool_queue p = [] then Drained else DrainWaiting\<rparr>"

section \<open>Steps\<close>

inductive pool_step :: "'j pool \<Rightarrow> 'j pool \<Rightarrow> bool" where
  worker: "i < length (pool_workers p) \<Longrightarrow> pool_workers p ! i = Ready \<Longrightarrow> mutex_free p \<Longrightarrow>
    pool_step p (threadCallback i p)"
| block: "i < length (pool_workers p) \<Longrightarrow> pool_workers p ! i = Committed \<Longrightarrow>
    pool_step p (set_worker i Waiting p)"
| run: "i < length (pool_workers p) \<Longrightarrow> pool_workers p ! i = Running j \<Longrightarrow>
    pool_step p (set_worker i Ready (p\<lparr>pool_completed := pool_completed p @ [j]\<rparr>))"
| sched_none: "pool_dtor p = Alive \<Longrightarrow> mutex_free p \<Longrightarrow> Waiting \<notin> set (pool_workers p) \<Longrightarrow>
    pool_step p (schedule j p)"
| sched_one: "pool_dtor p = Alive \<Longrightarrow> mutex_free p \<Longrightarrow> i < length (pool_workers p) \<Longrightarrow>
    pool_workers p ! i = Waiting \<Longrightarrow> pool_step p (set_worker i Ready (schedule j p))"
| destroy: "pool_dtor p = Alive \<Longrightarrow> pool_step p (p\<lparr>pool_dtor := DrainReady\<rparr>)"
| drain: "pool_dtor p = DrainReady \<Longrightarrow> mutex_free p \<Longrightarrow> pool_step p (drain_check p)"
| stop_store: "pool_dtor p = Drained \<Longrightarrow>
    pool_step p (p\<lparr>pool_active := False, pool_dtor := StopStored\<rparr>)"
| stop_notify: "pool_dtor p = StopStored \<Longrightarrow>
    pool_step p (notify_all (p\<lparr>pool_dtor := StopNotified\<rparr>))"
| join: "pool_dtor p = StopNotified \<Longrightarrow> set (pool_workers p) \<subseteq> {Exited} \<Longrightarrow>
    pool_step p (p\<lparr>pool_dtor := Joined\<rparr>)"

text \<open>A wait may end without a notification.\<close>

inductive spurious_step :: "'j pool \<Rightarrow> 'j pool \<Rightarrow> bool" where
  worker_wakes: "i < length (pool_workers p) \<Longrightarrow> pool_workers p ! i = Waiting \<Longrightarrow>
    spurious_step p (set_worker i Ready p)"
| drain_wakes: "pool_dtor p = DrainWaiting \<Longrightarrow> spurious_step p (p\<lparr>pool_dtor := DrainReady\<rparr>)"

inductive pool_reach :: "nat \<Rightarrow> 'j pool \<Rightarrow> bool" for n :: nat where
  new: "pool_reach n (ThreadPool_new n)"
| next_step: "pool_reach n p \<Longrightarrow> pool_step p p' \<Longrightarrow> pool_reach n p'"
| next_wake: "pool_reach n p \<Longrightarrow> spurious_step p p' \<Longrightarrow> pool_reach n p'"

inductive_cases pool_stepE: "pool_step p p'"
inductive_cases spurious_stepE: "spurious_step p p'"

text \<open>Nothing can happen any more, unless a wait ends without a notification.\<close>

definition stuck :: "'j pool \<Rightarrow> bool" where
  "stuck p \<longleftrightarrow> (\<forall>p'. \<not> pool_step p p')"

section \<open>Lemmas\<close>

fun running :: "'j worker \<Rightarrow> 'j multiset" where
  "running (Running j) = {#j#}"
| "running _ = {#}"

definition pool_running :: "'j pool \<Rightarrow> 'j multiset" where
  "pool_running p = sum_list (map running (pool_workers p))"

lemma running_update:
  "i < length ws \<Longrightarrow> sum_list (map running (ws[i := w])) + running (ws ! i) =
     sum_list (map running ws) + running w"
proof (induction ws arbitrary: i)
  case Nil
  then show ?case by simp
next
  case (Cons v ws)
  then show ?case by (cases i) (auto simp: ac_simps)
qed

lemma pool_running_set:
  assumes "i < length (pool_workers p)"
  shows "pool_running (set_worker i w p) + running (pool_workers p ! i) = pool_running p + running w"
  using running_update [OF assms, of w] by (simp add: pool_running_def set_worker_def)

lemma wake_Exited: "Exited = wake w \<longleftrightarrow> w = Exited"
  by (cases w) auto

lemma running_wake: "running (wake w) = running w"
  by (cases w) auto

text \<open>
  The invariant: jobs are taken in the order of the queue, a taken job is running or completed, a
  worker exits only after the stop, with nothing left in the queue, and the flag follows the
  destructor.
\<close>

definition pool_inv :: "nat \<Rightarrow> 'j pool \<Rightarrow> bool" where
  "pool_inv n p \<longleftrightarrow>
     pool_started p @ pool_queue p = pool_scheduled p \<and>
     mset (pool_completed p) + pool_running p = mset (pool_started p) \<and>
     length (pool_workers p) = n \<and>
     (pool_active p \<longleftrightarrow> pool_dtor p \<in> {Alive, DrainReady, DrainWaiting, Drained}) \<and>
     (pool_dtor p \<in> {Drained, StopStored, StopNotified, Joined} \<longrightarrow> pool_queue p = []) \<and>
     (Exited \<in> set (pool_workers p) \<longrightarrow> \<not> pool_active p) \<and>
     (pool_dtor p = Joined \<longrightarrow> set (pool_workers p) \<subseteq> {Exited})"

lemma pool_running_simps [simp]:
  "pool_running (p\<lparr>pool_queue := q\<rparr>) = pool_running p"
  "pool_running (p\<lparr>pool_completed := c\<rparr>) = pool_running p"
  "pool_running (p\<lparr>pool_dtor := d\<rparr>) = pool_running p"
  "pool_running (p\<lparr>pool_active := b, pool_dtor := d\<rparr>) = pool_running p"
  "pool_running (p\<lparr>pool_active := b\<rparr>) = pool_running p"
  "pool_running (p\<lparr>pool_queue := q, pool_started := t\<rparr>) = pool_running p"
  "pool_running (schedule j p) = pool_running p"
  "pool_running (notify_all p) = pool_running p"
  by (simp_all add: pool_running_def schedule_def notify_all_def running_wake comp_def)

lemma set_worker_simps [simp]:
  "pool_queue (set_worker i w p) = pool_queue p"
  "pool_active (set_worker i w p) = pool_active p"
  "pool_dtor (set_worker i w p) = pool_dtor p"
  "pool_scheduled (set_worker i w p) = pool_scheduled p"
  "pool_started (set_worker i w p) = pool_started p"
  "pool_completed (set_worker i w p) = pool_completed p"
  "pool_workers (set_worker i w p) = (pool_workers p)[i := w]"
  by (simp_all add: set_worker_def)

lemma in_set_update: "x \<in> set (ws[i := w]) \<Longrightarrow> x \<noteq> w \<Longrightarrow> x \<in> set ws"
  using set_update_subset_insert [of ws i w] by blast

lemma running_set_idle:
  "i < length (pool_workers p) \<Longrightarrow> running (pool_workers p ! i) = {#} \<Longrightarrow> running w = {#} \<Longrightarrow>
   pool_running (set_worker i w p) = pool_running p"
  using pool_running_set [of i p w] by simp

lemma exited_update:
  "w \<noteq> Exited \<Longrightarrow> Exited \<in> set (ws[i := w]) \<Longrightarrow> Exited \<in> set ws"
  by (rule in_set_update) auto

lemma inv_worker:
  assumes inv: "pool_inv n p" and i: "i < length (pool_workers p)" "pool_workers p ! i = Ready"
  shows "pool_inv n (threadCallback i p)"
proof -
  have joined: "pool_dtor p \<noteq> Joined"
    using inv i nth_mem [OF i(1)] by (auto simp: pool_inv_def)
  consider "pool_queue p = []" "pool_active p" | "pool_queue p = []" "\<not> pool_active p"
    | j js where "pool_queue p = j # js" by (cases "pool_queue p") auto
  then show ?thesis
  proof cases
    case 1
    with inv i joined exited_update [of Committed "pool_workers p" i] show ?thesis
      by (auto simp: pool_inv_def threadCallback_def running_set_idle)
  next
    case 2
    with inv i joined show ?thesis
      by (auto simp: pool_inv_def threadCallback_def running_set_idle)
  next
    case 3
    let ?p = "p\<lparr>pool_queue := js, pool_started := pool_started p @ [j]\<rparr>"
    have "pool_running (set_worker i (Running j) ?p) = pool_running p + {#j#}"
      using pool_running_set [of i ?p "Running j"] i by simp
    with 3 inv i joined exited_update [of "Running j" "pool_workers p" i] show ?thesis
      by (auto simp: pool_inv_def threadCallback_def)
  qed
qed

lemma inv_run:
  assumes inv: "pool_inv n p" and i: "i < length (pool_workers p)" "pool_workers p ! i = Running j"
  shows "pool_inv n (set_worker i Ready (p\<lparr>pool_completed := pool_completed p @ [j]\<rparr>))"
proof -
  let ?p = "set_worker i Ready (p\<lparr>pool_completed := pool_completed p @ [j]\<rparr>)"
  have "pool_running ?p + {#j#} = pool_running p"
    using pool_running_set [of i "p\<lparr>pool_completed := pool_completed p @ [j]\<rparr>" Ready] i by simp
  then have "mset (pool_completed p) + (pool_running ?p + {#j#}) = mset (pool_started p)"
    using inv by (simp only: pool_inv_def)
  then have "mset (pool_completed ?p) + pool_running ?p = mset (pool_started p)"
    by (simp add: ac_simps)
  moreover have "pool_dtor p \<noteq> Joined"
    using inv i nth_mem [OF i(1)] by (auto simp: pool_inv_def)
  ultimately show ?thesis
    using inv exited_update [of Ready "pool_workers p" i] by (auto simp: pool_inv_def)
qed

lemma inv_idle:
  assumes "pool_inv n p" and "i < length (pool_workers p)" and "running (pool_workers p ! i) = {#}"
    and "running w = {#}" and "w \<noteq> Exited" and "pool_workers p ! i \<noteq> Exited"
  shows "pool_inv n (set_worker i w p)"
proof -
  have "pool_dtor p \<noteq> Joined"
    using assms(1,6) nth_mem [OF assms(2)] by (auto simp: pool_inv_def)
  with assms show ?thesis
    using exited_update [OF assms(5), of "pool_workers p" i]
    by (auto simp: pool_inv_def running_set_idle)
qed

lemma pool_inv_step: "pool_step p p' \<Longrightarrow> pool_inv n p \<Longrightarrow> pool_inv n p'"
proof (induction rule: pool_step.induct)
  case (worker i p)
  then show ?case by (simp add: inv_worker)
next
  case (block i p)
  then show ?case by (intro inv_idle) simp_all
next
  case (run i p j)
  then show ?case by (simp add: inv_run)
next
  case (sched_none p j)
  then show ?case by (simp add: pool_inv_def) (auto simp: schedule_def)
next
  case (sched_one p i j)
  then have "pool_inv n (schedule j p)" by (simp add: pool_inv_def) (auto simp: schedule_def)
  with sched_one show ?case by (intro inv_idle) (simp_all add: schedule_def)
next
  case (stop_notify p)
  have "Exited \<in> set (map wake ws) \<longleftrightarrow> Exited \<in> set ws" for ws :: "'a worker list"
    by (induction ws) (auto simp: wake_Exited)
  with stop_notify show ?case by (simp add: pool_inv_def) (auto simp: notify_all_def)
qed (auto simp: pool_inv_def drain_check_def)

lemma pool_inv_wake: "spurious_step p p' \<Longrightarrow> pool_inv n p \<Longrightarrow> pool_inv n p'"
proof (induction rule: spurious_step.induct)
  case (worker_wakes i p)
  then show ?case by (intro inv_idle) simp_all
qed (auto simp: pool_inv_def)

lemma pool_inv_new: "pool_inv n (ThreadPool_new n)"
proof -
  have "sum_list (map running (replicate n Ready)) = {#}" by (induction n) auto
  then show ?thesis by (simp add: pool_inv_def ThreadPool_new_def pool_running_def)
qed

lemma pool_reach_inv: "pool_reach n p \<Longrightarrow> pool_inv n p"
  by (induction rule: pool_reach.induct) (auto simp: pool_inv_new intro: pool_inv_step pool_inv_wake)

lemma running_exited: "set ws \<subseteq> {Exited} \<Longrightarrow> sum_list (map running ws) = {#}"
  by (induction ws) auto

text \<open>Runs of a pool with one worker.\<close>

definition one_pool :: "'j list \<Rightarrow> bool \<Rightarrow> 'j worker \<Rightarrow> dtor \<Rightarrow> 'j list \<Rightarrow> 'j list \<Rightarrow> 'j list \<Rightarrow> 'j pool" where
  "one_pool q a w d sch st c =
     \<lparr>pool_queue = q, pool_active = a, pool_workers = [w], pool_dtor = d, pool_scheduled = sch,
      pool_started = st, pool_completed = c\<rparr>"

lemma one_new: "ThreadPool_new 1 = one_pool [] True Ready Alive [] [] []"
  by (simp add: ThreadPool_new_def one_pool_def)

lemma one_worker:
  "pool_step (one_pool q a Ready d sch st c) (threadCallback 0 (one_pool q a Ready d sch st c))"
  by (rule pool_step.worker) (simp_all add: one_pool_def mutex_free_def)

lemma one_block:
  "pool_step (one_pool q a Committed d sch st c) (one_pool q a Waiting d sch st c)"
  using pool_step.block [of 0 "one_pool q a Committed d sch st c"]
  by (simp add: one_pool_def set_worker_def)

lemma one_run:
  "pool_step (one_pool q a (Running j) d sch st c) (one_pool q a Ready d sch st (c @ [j]))"
  using pool_step.run [of 0 "one_pool q a (Running j) d sch st c" j]
  by (simp add: one_pool_def set_worker_def)

lemma one_schedule:
  "pool_step (one_pool q a Ready Alive sch st c) (one_pool (q @ [j]) a Ready Alive (sch @ [j]) st c)"
  using pool_step.sched_none [of "one_pool q a Ready Alive sch st c" j]
  by (simp add: one_pool_def schedule_def mutex_free_def)

lemma one_destroy:
  "pool_step (one_pool q a w Alive sch st c) (one_pool q a w DrainReady sch st c)"
  using pool_step.destroy [of "one_pool q a w Alive sch st c"] by (simp add: one_pool_def)

lemma one_drain:
  "pool_step (one_pool q a Ready DrainReady sch st c)
     (one_pool q a Ready (if q = [] then Drained else DrainWaiting) sch st c)"
  using pool_step.drain [of "one_pool q a Ready DrainReady sch st c"]
  by (simp add: one_pool_def mutex_free_def drain_check_def)

lemma one_stop:
  "pool_step (one_pool q a w Drained sch st c) (one_pool q False w StopStored sch st c)"
  using pool_step.stop_store [of "one_pool q a w Drained sch st c"] by (simp add: one_pool_def)

lemma one_notify:
  "pool_step (one_pool q a w StopStored sch st c) (one_pool q a (wake w) StopNotified sch st c)"
  using pool_step.stop_notify [of "one_pool q a w StopStored sch st c"]
  by (simp add: one_pool_def notify_all_def)

lemma one_stuck:
  assumes "d = DrainWaiting \<or> d = StopNotified"
  shows "stuck (one_pool q a Waiting d sch st c)"
  unfolding stuck_def
proof (intro allI notI)
  fix p' assume "pool_step (one_pool q a Waiting d sch st c) p'"
  then show False using assms by cases (auto simp: one_pool_def)
qed

lemma drain_hangs:
  "pool_reach 1 (one_pool [] True Waiting DrainWaiting [j] [j] [j])"
proof -
  have "pool_reach 1 (one_pool [] True Ready Alive [] [] [] :: 'a pool)"
    using pool_reach.new [of 1] by (simp only: one_new)
  from pool_reach.next_step [OF this one_schedule [of _ _ _ _ _ j]]
  have "pool_reach 1 (one_pool [j] True Ready Alive [j] [] [])" by simp
  from pool_reach.next_step [OF this one_destroy]
  have "pool_reach 1 (one_pool [j] True Ready DrainReady [j] [] [])" .
  from pool_reach.next_step [OF this one_drain]
  have "pool_reach 1 (one_pool [j] True Ready DrainWaiting [j] [] [])" by simp
  from pool_reach.next_step [OF this one_worker]
  have "pool_reach 1 (one_pool [] True (Running j) DrainWaiting [j] [j] [])"
    by (simp add: threadCallback_def one_pool_def set_worker_def)
  from pool_reach.next_step [OF this one_run]
  have "pool_reach 1 (one_pool [] True Ready DrainWaiting [j] [j] [j])" by simp
  from pool_reach.next_step [OF this one_worker]
  have "pool_reach 1 (one_pool [] True Committed DrainWaiting [j] [j] [j])"
    by (simp add: threadCallback_def one_pool_def set_worker_def)
  from pool_reach.next_step [OF this one_block] show ?thesis .
qed

lemma stop_hangs:
  "pool_reach 1 (one_pool [] False Waiting StopNotified [] [] [] :: 'j pool)"
proof -
  have "pool_reach 1 (one_pool [] True Ready Alive [] [] [] :: 'j pool)"
    using pool_reach.new [of 1] by (simp only: one_new)
  from pool_reach.next_step [OF this one_destroy]
  have "pool_reach 1 (one_pool [] True Ready DrainReady [] [] [] :: 'j pool)" .
  from pool_reach.next_step [OF this one_drain]
  have "pool_reach 1 (one_pool [] True Ready Drained [] [] [] :: 'j pool)" by simp
  from pool_reach.next_step [OF this one_worker]
  have "pool_reach 1 (one_pool [] True Committed Drained [] [] [] :: 'j pool)"
    by (simp add: threadCallback_def one_pool_def set_worker_def)
  from pool_reach.next_step [OF this one_stop]
  have "pool_reach 1 (one_pool [] False Committed StopStored [] [] [] :: 'j pool)" .
  from pool_reach.next_step [OF this one_notify]
  have "pool_reach 1 (one_pool [] False Committed StopNotified [] [] [] :: 'j pool)" by simp
  from pool_reach.next_step [OF this one_block] show ?thesis .
qed

section \<open>Properties\<close>

text \<open>C25: In every interleaving of the workers, the callers and the destructor, jobs are taken in the
  order in which they were scheduled, each once, and a taken job is either running or completed.\<close>

theorem pool_jobs_in_order_once:
  assumes "pool_reach n p"
  shows "pool_started p @ pool_queue p = pool_scheduled p \<and>
    mset (pool_completed p) + pool_running p = mset (pool_started p)"
  using pool_reach_inv [OF assms] by (simp add: pool_inv_def)

lemma pool_jobs_in_order_once_witness:
  "pool_reach 1 (one_pool [] True Waiting DrainWaiting [7 :: nat] [7] [7]) \<and>
   pool_running (one_pool [] True Waiting DrainWaiting [7 :: nat] [7] [7]) = {#}"
  using pool_jobs_in_order_once [OF drain_hangs [of "7 :: nat"]] drain_hangs [of "7 :: nat"]
  by (simp add: one_pool_def)

text \<open>C26: When the destructor returns, every job that was ever scheduled has been completed.\<close>

theorem pool_destroyed_all_completed:
  assumes "pool_reach n p" and "pool_dtor p = Joined"
  shows "mset (pool_completed p) = mset (pool_scheduled p) \<and> pool_queue p = []"
proof -
  have inv: "pool_inv n p" by (rule pool_reach_inv [OF assms(1)])
  with assms(2) have exited: "set (pool_workers p) \<subseteq> {Exited}" by (simp add: pool_inv_def)
  then have "sum_list (map running (pool_workers p)) = {#}"
    by (rule running_exited)
  with inv assms(2) show ?thesis by (auto simp: pool_inv_def pool_running_def)
qed

lemma pool_destroyed_all_completed_witness:
  "\<exists>p :: nat pool. pool_reach 0 p \<and> pool_dtor p = Joined \<and> mset (pool_completed p) = mset (pool_scheduled p)"
proof -
  let ?p = "ThreadPool_new 0 :: nat pool"
  have 0: "pool_workers ?p = []" "pool_queue ?p = []" "pool_dtor ?p = Alive"
    by (simp_all add: ThreadPool_new_def)
  have "pool_reach 0 ?p" by (rule pool_reach.new)
  from pool_reach.next_step [OF this pool_step.destroy [OF 0(3)]]
  have "pool_reach 0 (?p\<lparr>pool_dtor := DrainReady\<rparr>)" .
  from pool_reach.next_step [OF this pool_step.drain]
  have "pool_reach 0 (?p\<lparr>pool_dtor := Drained\<rparr>)" by (simp add: 0 mutex_free_def drain_check_def)
  from pool_reach.next_step [OF this pool_step.stop_store]
  have "pool_reach 0 (?p\<lparr>pool_active := False, pool_dtor := StopStored\<rparr>)" by simp
  from pool_reach.next_step [OF this pool_step.stop_notify]
  have "pool_reach 0 (?p\<lparr>pool_active := False, pool_dtor := StopNotified\<rparr>)"
    by (simp add: notify_all_def ThreadPool_new_def)
  from pool_reach.next_step [OF this pool_step.join]
  have "pool_reach 0 (?p\<lparr>pool_active := False, pool_dtor := Joined\<rparr>)" by (simp add: 0)
  from pool_destroyed_all_completed [OF this] this show ?thesis by auto
qed

text \<open>C27: The destructor can hang in two ways. If it drains while a job is queued, nobody wakes it when
  the workers have emptied the queue, for they do not notify. And if it stops the pool while a
  worker has found nothing to do but is not yet waiting, the notification is lost, because the flag
  is written without the mutex. In both states nothing can happen any more.\<close>

theorem pool_destructor_hangs:
  "(\<exists>p. pool_reach 1 p \<and> stuck p \<and> pool_dtor p = DrainWaiting \<and> pool_queue p = [] \<and>
      pool_completed p = [j]) \<and>
   (\<exists>p :: 'j pool. pool_reach 1 p \<and> stuck p \<and> pool_dtor p = StopNotified \<and> \<not> pool_active p \<and>
      pool_workers p = [Waiting])"
proof
  show "\<exists>p. pool_reach 1 p \<and> stuck p \<and> pool_dtor p = DrainWaiting \<and> pool_queue p = [] \<and>
      pool_completed p = [j]"
    using drain_hangs [of j] one_stuck by (fastforce simp: one_pool_def)
  show "\<exists>p :: 'j pool. pool_reach 1 p \<and> stuck p \<and> pool_dtor p = StopNotified \<and> \<not> pool_active p \<and>
      pool_workers p = [Waiting]"
    using stop_hangs one_stuck by (fastforce simp: one_pool_def)
qed

end
