(* ===== verification/Png_Base.thy ===== *)
theory Png_Base
  imports Wire
begin

unbundle bit_operations_syntax

text \<open>
  The common tools of \<open>subprojects/lodepng/lodepng.cpp\<close>: the overflow-checked arithmetic on
  \<open>size_t\<close>, and the big-endian integers of the PNG format. In the Png theories an error is the
  number lodepng returns for it, on the left of a sum; a buffer is the list of its bytes; and
  allocation does not fail, so error 83 does not occur.
\<close>

type_synonym 'a png = "nat + 'a"

section \<open>Checked arithmetic\<close>

text \<open>The flag says that the result overflowed; the wrapped result is stored in any case.\<close>

definition lodepng_addofl :: "u64 \<Rightarrow> u64 \<Rightarrow> bool \<times> u64" where
  "lodepng_addofl a b = (let result = a + b in (result < a, result))"

definition lodepng_mulofl :: "u64 \<Rightarrow> u64 \<Rightarrow> bool \<times> u64" where
  "lodepng_mulofl a b = (let result = a * b in (a \<noteq> 0 \<and> result div a \<noteq> b, result))"

definition lodepng_gtofl :: "u64 \<Rightarrow> u64 \<Rightarrow> u64 \<Rightarrow> bool" where
  "lodepng_gtofl a b c = (case lodepng_addofl a b of (ofl, d) \<Rightarrow> if ofl then True else d > c)"

lemma unat64_less: "unat (a :: u64) < 2 ^ 64"
  using unsigned_less [of a] by simp

lemma lodepng_addofl_iff: "fst (lodepng_addofl a b) \<longleftrightarrow> unat a + unat b \<ge> 2 ^ 64"
proof -
  have a: "unat a < 2 ^ 64" and b: "unat b < 2 ^ 64"
    by (rule unat64_less)+
  have "fst (lodepng_addofl a b) \<longleftrightarrow> (unat a + unat b) mod 2 ^ 64 < unat a"
    by (simp add: lodepng_addofl_def Let_def word_less_nat_alt unat_word_ariths)
  also have "\<dots> \<longleftrightarrow> unat a + unat b \<ge> 2 ^ 64"
  proof (cases "unat a + unat b < 2 ^ 64")
    case True
    then show ?thesis by simp
  next
    case False
    then have "(unat a + unat b) mod 2 ^ 64 = unat a + unat b - 2 ^ 64"
      using a b by (simp add: le_mod_geq)
    then show ?thesis using False a b by simp
  qed
  finally show ?thesis .
qed

lemma lodepng_addofl_ok: "\<not> fst (lodepng_addofl a b) \<Longrightarrow>
    unat (snd (lodepng_addofl a b)) = unat a + unat b"
  by (subst (asm) lodepng_addofl_iff)
    (simp add: lodepng_addofl_def Let_def unat_word_ariths)

lemma lodepng_mulofl_iff: "fst (lodepng_mulofl a b) \<longleftrightarrow> unat a * unat b \<ge> 2 ^ 64"
proof (cases "a = 0")
  case True
  then show ?thesis by (simp add: lodepng_mulofl_def Let_def)
next
  case False
  then have a: "unat a > 0" by (simp add: unat_gt_0)
  have b: "unat b < 2 ^ 64" by (rule unat64_less)
  have *: "fst (lodepng_mulofl a b) \<longleftrightarrow> (unat a * unat b) mod 2 ^ 64 div unat a \<noteq> unat b"
    using False
    by (simp add: lodepng_mulofl_def Let_def unat_eq_iff [symmetric] unat_div unat_word_ariths)
  show ?thesis
  proof (cases "unat a * unat b < 2 ^ 64")
    case True
    then show ?thesis using * a by simp
  next
    case False
    have "(unat a * unat b) mod 2 ^ 64 < unat a * unat b"
      by (rule less_le_trans [of _ "2 ^ 64"]) (use False in simp_all)
    then have "(unat a * unat b) mod 2 ^ 64 div unat a < unat b"
      by (simp add: less_mult_imp_div_less mult.commute)
    then show ?thesis using * False by simp
  qed
qed

lemma lodepng_mulofl_ok: "\<not> fst (lodepng_mulofl a b) \<Longrightarrow>
    unat (snd (lodepng_mulofl a b)) = unat a * unat b"
  by (subst (asm) lodepng_mulofl_iff)
    (simp add: lodepng_mulofl_def Let_def unat_word_ariths)

lemma lodepng_gtofl_iff: "lodepng_gtofl a b c \<longleftrightarrow> unat a + unat b > unat c"
proof (cases "fst (lodepng_addofl a b)")
  case True
  then have "unat a + unat b \<ge> 2 ^ 64" by (simp add: lodepng_addofl_iff)
  moreover have "unat c < 2 ^ 64" by (rule unat64_less)
  ultimately have "unat a + unat b > unat c" by linarith
  then show ?thesis using True by (simp add: lodepng_gtofl_def split_beta)
next
  case False
  then show ?thesis
    using lodepng_addofl_ok [OF False]
    by (simp add: lodepng_gtofl_def split_beta word_less_nat_alt)
qed

section \<open>Big-endian integers\<close>

definition lodepng_read32bitInt :: "bytes \<Rightarrow> u32" where
  "lodepng_read32bitInt buffer =
     (push_bit 24 (ucast (buffer ! 0)) OR push_bit 16 (ucast (buffer ! 1)) OR
      push_bit 8 (ucast (buffer ! 2)) OR ucast (buffer ! 3))"

text \<open>The four bytes the function stores at the address it gets.\<close>

definition lodepng_set32bitInt :: "u32 \<Rightarrow> bytes" where
  "lodepng_set32bitInt value =
     [ucast (drop_bit 24 value AND 0xff), ucast (drop_bit 16 value AND 0xff),
      ucast (drop_bit 8 value AND 0xff), ucast (value AND 0xff)]"

lemma length_set32bitInt [simp]: "length (lodepng_set32bitInt v) = 4"
  by (simp add: lodepng_set32bitInt_def)

lemma ucast_and_0xff: "(ucast (w AND 0xff) :: byte) = ucast (w :: u32)"
proof -
  have m: "(0xff :: u32) = mask 8" by (simp add: mask_eq_exp_minus_1)
  show ?thesis
    unfolding m by (rule bit_word_eqI) (simp add: bit_ucast_iff bit_and_iff bit_mask_iff)
qed

lemma set32_le_bytes: "lodepng_set32bitInt v = rev (u32_bytes v)"
  by (simp add: lodepng_set32bitInt_def ucast_and_0xff u32_bytes_expand)

lemma read32_le_word: "lodepng_read32bitInt (a # b # c # d # rest) = le_word [d, c, b, a]"
  by (simp add: lodepng_read32bitInt_def or.assoc or.commute or.left_commute)

lemma read32_set32 [simp]: "lodepng_read32bitInt (lodepng_set32bitInt v @ rest) = v"
  using le_word_u32_bytes [of v]
  by (simp add: lodepng_set32bitInt_def read32_le_word ucast_and_0xff u32_bytes_expand
      del: le_word_u32_bytes le_word.simps)

text \<open>The bits of a little-endian integer are those of its bytes, in their order.\<close>

lemma bit_le_word:
  "bit (le_word bs :: 'a::len word) n \<longleftrightarrow>
     n < LENGTH('a) \<and> n div 8 < length bs \<and> bit (bs ! (n div 8)) (n mod 8)"
proof (induction bs arbitrary: n)
  case Nil
  then show ?case by simp
next
  case (Cons b bs)
  show ?case
  proof (cases "n < 8")
    case True
    then show ?thesis
      by (auto simp: bit_or_iff bit_push_bit_iff bit_ucast_iff dest: bit_imp_le_length)
  next
    case False
    then have d: "n div 8 = Suc ((n - 8) div 8)" "n mod 8 = (n - 8) mod 8"
      by (simp_all add: le_div_geq le_mod_geq)
    have "\<not> bit b n" using False by (auto dest: bit_imp_le_length)
    then show ?thesis
      using False by (auto simp: bit_or_iff bit_push_bit_iff bit_ucast_iff Cons.IH d)
  qed
qed

lemma nth_le_bytes: "i < n \<Longrightarrow> le_bytes n w ! i = ucast (drop_bit (8 * i) w)"
proof (induction n arbitrary: w i)
  case 0
  then show ?case by simp
next
  case (Suc n)
  then show ?case by (cases i) (simp_all add: add.commute)
qed

lemma le_bytes_le_word:
  assumes "length bs = m" and "8 * m \<le> LENGTH('a::len)"
  shows "le_bytes m (le_word bs :: 'a word) = bs"
proof (rule nth_equalityI)
  fix i assume i: "i < length (le_bytes m (le_word bs :: 'a word))"
  show "le_bytes m (le_word bs :: 'a word) ! i = bs ! i"
  proof (rule bit_word_eqI)
    fix n assume "n < LENGTH(8)"
    then have n: "n < 8" by simp
    have "8 * i + n < LENGTH('a)" using i n assms by simp
    then show "bit (le_bytes m (le_word bs :: 'a word) ! i) n \<longleftrightarrow> bit (bs ! i) n"
      using i n assms(1) by (simp add: nth_le_bytes bit_ucast_iff bit_drop_bit_eq bit_le_word)
  qed
qed (simp add: assms(1))

lemma set32_read32: "length bs = 4 \<Longrightarrow> lodepng_set32bitInt (lodepng_read32bitInt bs) = bs"
proof -
  assume l: "length bs = 4"
  then obtain a b c d where bs: "bs = [a, b, c, d]"
    by (auto simp: numeral_eq_Suc length_Suc_conv)
  have "u32_bytes (le_word [d, c, b, a] :: u32) = [d, c, b, a]"
    by (rule le_bytes_le_word) simp_all
  then show ?thesis
    by (simp add: bs set32_le_bytes read32_le_word del: le_word.simps le_bytes.simps)
qed

end
