(* ===== verification/Png_Bits.thy ===== *)
theory Png_Bits
  imports Png_Base
begin

unbundle bit_operations_syntax

text \<open>
  The bit streams of deflate in \<open>lodepng.cpp\<close>: the writer, which appends single bits, the reader,
  which looks ahead into a 32-bit buffer, and \<open>reverseBits\<close>. Bits fill each byte from the least
  significant end. The first lemmas describe a byte string by its bits (\<open>sbit\<close>); then the four
  look-ahead functions are shown to load the same bits on their fast and their slow path, and the
  reader to return what the writer wrote.
\<close>

section \<open>The bits of a byte string\<close>

definition sbit :: "bytes \<Rightarrow> nat \<Rightarrow> bool" where
  "sbit data k = (k div 8 < length data \<and> bit (data ! (k div 8)) (k mod 8))"

definition sbits :: "bytes \<Rightarrow> nat \<Rightarrow> nat \<Rightarrow> bool list" where
  "sbits data p n = map (\<lambda>i. sbit data (p + i)) [0 ..< n]"

abbreviation bits_val :: "bool list \<Rightarrow> nat" where
  "bits_val \<equiv> horner_sum of_bool 2"

lemma length_sbits [simp]: "length (sbits data p n) = n"
  by (simp add: sbits_def)

lemma nth_sbits [simp]: "i < n \<Longrightarrow> sbits data p n ! i = sbit data (p + i)"
  by (simp add: sbits_def)

lemma sbit_append: "sbit (xs @ ys) k =
    (if k < 8 * length xs then sbit xs k else sbit ys (k - 8 * length xs))"
proof (cases "k < 8 * length xs")
  case True
  then have "k div 8 < length xs" by (simp add: less_mult_imp_div_less mult.commute)
  then show ?thesis using True by (simp add: sbit_def nth_append)
next
  case False
  then obtain j where "k = j + length xs * 8"
    by (metis add.commute le_Suc_ex linorder_not_less mult.commute)
  then show ?thesis by (simp add: sbit_def nth_append)
qed

lemma sbits_append: "sbits data p (m + n) = sbits data p m @ sbits data (p + m) n"
  by (rule nth_equalityI) (auto simp: nth_append)

lemma take_bit_unat_bits: "unat (take_bit n w) = bits_val (map (bit w) [0 ..< n])"
proof -
  have "map (bit w) [0 ..< n] = map (bit (unat w)) [0 ..< n]"
    by (simp add: bit_unsigned_iff)
  then show ?thesis by (simp only: unsigned_take_bit_eq horner_sum_bit_eq_take_bit)
qed

section \<open>The writer\<close>

record LodePNGBitWriter =
  wr_data :: bytes
  wr_bp :: byte

definition LodePNGBitWriter_init :: "bytes \<Rightarrow> LodePNGBitWriter" where
  "LodePNGBitWriter_init data = \<lparr>wr_data = data, wr_bp = 0\<rparr>"

definition WRITEBIT :: "u32 \<Rightarrow> LodePNGBitWriter \<Rightarrow> LodePNGBitWriter" where
  "WRITEBIT b w =
     (let data = (if wr_bp w AND 7 = 0 then wr_data w @ [0] else wr_data w);
          l = length data - 1 in
      \<lparr>wr_data = data[l := data ! l OR ucast (push_bit (unat (wr_bp w AND 7)) b)],
       wr_bp = wr_bp w + 1\<rparr>)"

definition writeBits :: "LodePNGBitWriter \<Rightarrow> u32 \<Rightarrow> nat \<Rightarrow> LodePNGBitWriter" where
  "writeBits w val nbits =
     (if nbits = 1 then WRITEBIT val w
      else fold (\<lambda>i. WRITEBIT (drop_bit i val AND 1)) [0 ..< nbits] w)"

definition writeBitsReversed :: "LodePNGBitWriter \<Rightarrow> u32 \<Rightarrow> nat \<Rightarrow> LodePNGBitWriter" where
  "writeBitsReversed w val nbits =
     fold (\<lambda>i. WRITEBIT (drop_bit (nbits - 1 - i) val AND 1)) [0 ..< nbits] w"

text \<open>
  What has been written: all bits of the full bytes and the low bits of the last byte, whose other
  bits are still zero.
\<close>

definition wr_nbits :: "LodePNGBitWriter \<Rightarrow> nat" where
  "wr_nbits w =
     (let r = unat (wr_bp w) mod 8 in
      if r = 0 then 8 * length (wr_data w) else 8 * (length (wr_data w) - 1) + r)"

definition wr_bits :: "LodePNGBitWriter \<Rightarrow> bool list" where
  "wr_bits w = sbits (wr_data w) 0 (wr_nbits w)"

definition wr_ok :: "LodePNGBitWriter \<Rightarrow> bool" where
  "wr_ok w \<longleftrightarrow> (unat (wr_bp w) mod 8 \<noteq> 0 \<longrightarrow> wr_data w \<noteq> []) \<and>
     (\<forall>k < 8 * length (wr_data w). wr_nbits w \<le> k \<longrightarrow> \<not> sbit (wr_data w) k)"

lemma wr_init: "wr_ok (LodePNGBitWriter_init data)"
    "wr_bits (LodePNGBitWriter_init data) = sbits data 0 (8 * length data)"
  by (simp_all add: wr_ok_def wr_bits_def wr_nbits_def LodePNGBitWriter_init_def)

lemma unat_and_7: "unat (x AND 7 :: byte) = unat x mod 8"
proof -
  have m: "(7 :: byte) = mask 3" by (simp add: mask_eq_exp_minus_1)
  show ?thesis
    unfolding m by (simp add: unsigned_take_bit_eq take_bit_eq_mod unat_mod flip: take_bit_eq_mask)
qed

lemma and_7_eq_0: "(x AND 7 :: byte) = 0 \<longleftrightarrow> unat x mod 8 = 0"
  by (simp add: unat_and_7 flip: unat_eq_iff)

lemma unat_bp_Suc: "unat (x + 1 :: byte) mod 8 = Suc (unat x) mod 8"
  by (simp add: unat_word_ariths mod_mod_cancel)

text \<open>One bit: the byte it goes into is the last one, or a new zero byte.\<close>

lemma wr_split:
  assumes "wr_ok w"
  defines "r \<equiv> unat (wr_bp w) mod 8"
  obtains xs y where
    "(if wr_bp w AND 7 = 0 then wr_data w @ [0] else wr_data w) = xs @ [y]"
    "wr_nbits w = 8 * length xs + r"
    "\<And>k. k < wr_nbits w \<Longrightarrow> sbit (wr_data w) k = sbit (xs @ [y]) k"
    "\<And>i. r \<le> i \<Longrightarrow> \<not> bit y i"
proof (cases "r = 0")
  case True
  show thesis
    by (rule that [of "wr_data w" 0])
      (use True in \<open>simp_all add: and_7_eq_0 r_def wr_nbits_def sbit_append\<close>)
next
  case False
  then obtain xs y where w: "wr_data w = xs @ [y]"
    using assms by (cases "wr_data w" rule: rev_cases) (auto simp: wr_ok_def)
  have n: "wr_nbits w = 8 * length xs + r"
    using False w by (simp add: wr_nbits_def r_def Let_def)
  have "\<not> bit y i" if "r \<le> i" for i
  proof (cases "i < 8")
    case True
    then have "\<not> sbit (wr_data w) (8 * length xs + i)"
      using assms(1) n that unfolding wr_ok_def by (simp add: w)
    then show ?thesis using True by (simp add: w sbit_append) (simp add: sbit_def)
  qed (auto dest: bit_imp_le_length)
  then show thesis
    using False w n by (intro that [of xs y]) (simp_all add: and_7_eq_0 r_def)
qed

lemma WRITEBIT_bits:
  assumes ok: "wr_ok w" and b: "b = of_bool c"
  shows "wr_ok (WRITEBIT b w)" (is ?ok)
    and "wr_bits (WRITEBIT b w) = wr_bits w @ [c]" (is ?bits)
    and "wr_nbits (WRITEBIT b w) = Suc (wr_nbits w)" (is ?nbits)
proof -
  define r where "r = unat (wr_bp w) mod 8"
  have r: "r < 8" by (simp add: r_def)
  from wr_split [OF ok, folded r_def] obtain xs y where
    d: "(if wr_bp w AND 7 = 0 then wr_data w @ [0] else wr_data w) = xs @ [y]"
    and n: "wr_nbits w = 8 * length xs + r"
    and old: "\<And>k. k < wr_nbits w \<Longrightarrow> sbit (wr_data w) k = sbit (xs @ [y]) k"
    and y: "\<And>i. r \<le> i \<Longrightarrow> \<not> bit y i" by blast
  define y' where "y' = y OR ucast (push_bit r b)"
  have w': "WRITEBIT b w = \<lparr>wr_data = xs @ [y'], wr_bp = wr_bp w + 1\<rparr>"
    unfolding WRITEBIT_def d by (simp add: Let_def y'_def unat_and_7 r_def)
  have n': "wr_nbits (WRITEBIT b w) = Suc (wr_nbits w)"
    unfolding w' n by (auto simp: wr_nbits_def Let_def unat_bp_Suc r_def mod_Suc)
  have y'_bit: "bit y' i \<longleftrightarrow> (if i < r then bit y i else i = r \<and> c)" if "i < 8" for i
    using that y [of i] by (auto simp: y'_def b bit_or_iff bit_ucast_iff bit_push_bit_iff bit_1_iff)
  show ?nbits by (rule n')
  show ?ok
    unfolding wr_ok_def n' using n w' by (auto simp: sbit_append) (auto simp: sbit_def y'_bit split: if_splits)
  show ?bits
  proof (rule nth_equalityI)
    show "length (wr_bits (WRITEBIT b w)) = length (wr_bits w @ [c])"
      by (simp add: wr_bits_def n')
    fix i assume "i < length (wr_bits (WRITEBIT b w))"
    then have i: "i < Suc (wr_nbits w)" by (simp add: wr_bits_def n')
    have new: "wr_bits (WRITEBIT b w) ! i = sbit (xs @ [y']) i"
      using i unfolding wr_bits_def n' by (simp add: w')
    show "wr_bits (WRITEBIT b w) ! i = (wr_bits w @ [c]) ! i"
    proof (cases "i < wr_nbits w")
      case True
      then have "(wr_bits w @ [c]) ! i = sbit (xs @ [y]) i"
        by (simp add: wr_bits_def nth_append old)
      moreover have "sbit (xs @ [y']) i = sbit (xs @ [y]) i"
      proof (cases "i < 8 * length xs")
        case False
        then have "i - 8 * length xs < r" using True n by simp
        then show ?thesis using False r by (simp add: sbit_append) (simp add: sbit_def y'_bit)
      qed (simp add: sbit_append)
      ultimately show ?thesis by (simp add: new)
    next
      case False
      then have "i = 8 * length xs + r" and "(wr_bits w @ [c]) ! i = c"
        using i n by (simp_all add: wr_bits_def nth_append)
      then show ?thesis
        unfolding new using r by (simp add: sbit_append) (simp add: sbit_def y'_bit)
    qed
  qed
qed

lemma bit_of_word: "drop_bit i v AND 1 = of_bool (bit (v :: u32) i)"
  by (simp add: and_one_eq mod2_eq_if bit_iff_odd_drop_bit)

lemma fold_WRITEBIT:
  assumes "wr_ok w"
  shows "wr_ok (fold (\<lambda>i. WRITEBIT (of_bool (f i))) is w) \<and>
    wr_bits (fold (\<lambda>i. WRITEBIT (of_bool (f i))) is w) = wr_bits w @ map f is"
  using assms
proof (induction "is" arbitrary: w)
  case Nil
  then show ?case by simp
next
  case (Cons i "is")
  show ?case using Cons.IH [OF WRITEBIT_bits(1) [OF Cons.prems refl]]
    by (simp add: WRITEBIT_bits(2) [OF Cons.prems refl])
qed

lemma writeBits_bits:
  assumes ok: "wr_ok w" and small: "nbits = 1 \<Longrightarrow> val \<le> 1"
  shows "wr_ok (writeBits w val nbits)"
    and "wr_bits (writeBits w val nbits) = wr_bits w @ map (bit val) [0 ..< nbits]"
proof -
  have "wr_ok (writeBits w val nbits) \<and>
    wr_bits (writeBits w val nbits) = wr_bits w @ map (bit val) [0 ..< nbits]"
  proof (cases "nbits = 1")
    case True
    then have "unat val \<le> 1" using small by (simp add: word_le_nat_alt)
    then have "val = 0 \<or> val = 1" by (auto simp: le_Suc_eq simp flip: unat_eq_iff)
    then have "val = of_bool (bit val 0)" by (auto simp: bit_1_iff)
    then show ?thesis using WRITEBIT_bits [OF ok, of val "bit val 0"] True
      by (simp add: writeBits_def)
  next
    case False
    then show ?thesis
      using fold_WRITEBIT [OF ok, of "bit val" "[0 ..< nbits]"]
      by (simp add: writeBits_def bit_of_word)
  qed
  then show "wr_ok (writeBits w val nbits)"
    and "wr_bits (writeBits w val nbits) = wr_bits w @ map (bit val) [0 ..< nbits]" by auto
qed

lemma writeBitsReversed_bits:
  assumes ok: "wr_ok w"
  shows "wr_ok (writeBitsReversed w val nbits)"
    and "wr_bits (writeBitsReversed w val nbits) = wr_bits w @ rev (map (bit val) [0 ..< nbits])"
proof -
  have "map (\<lambda>i. bit val (nbits - 1 - i)) [0 ..< nbits] = rev (map (bit val) [0 ..< nbits])"
    by (rule nth_equalityI) (simp_all add: rev_nth)
  then show "wr_ok (writeBitsReversed w val nbits)"
    and "wr_bits (writeBitsReversed w val nbits) = wr_bits w @ rev (map (bit val) [0 ..< nbits])"
    using fold_WRITEBIT [OF ok, of "\<lambda>i. bit val (nbits - 1 - i)" "[0 ..< nbits]"]
    by (simp_all add: writeBitsReversed_def bit_of_word)
qed

section \<open>The reader\<close>

record LodePNGBitReader =
  rd_data :: bytes
  rd_size :: nat
  rd_bitsize :: nat
  rd_bp :: nat
  rd_buffer :: u32

definition LodePNGBitReader_init :: "bytes \<Rightarrow> LodePNGBitReader png" where
  "LodePNGBitReader_init data =
     (let size = word_of_nat (length data);
          (ofl, bitsize) = lodepng_mulofl size 8 in
      if ofl then Inl 105
      else if fst (lodepng_addofl bitsize 64) then Inl 105
      else Inr \<lparr>rd_data = data, rd_size = length data, rd_bitsize = unat bitsize,
                rd_bp = 0, rd_buffer = 0\<rparr>)"

text \<open>The byte at \<open>i\<close>, shifted to its place in the buffer.\<close>

definition data_at :: "LodePNGBitReader \<Rightarrow> nat \<Rightarrow> nat \<Rightarrow> u32" where
  "data_at r i sh = push_bit sh (ucast (rd_data r ! i))"

definition ensureBits9 :: "LodePNGBitReader \<Rightarrow> nat \<Rightarrow> bool \<times> LodePNGBitReader" where
  "ensureBits9 r nbits =
     (let start = rd_bp r div 8; size = rd_size r; s = rd_bp r mod 8 in
      if start + 1 < size then
        (let b = data_at r start 0 OR data_at r (start + 1) 8 in
         (True, r\<lparr>rd_buffer := drop_bit s b\<rparr>))
      else
        (let b = 0;
             b = (if start + 0 < size then b OR data_at r start 0 else b) in
         (rd_bp r + nbits \<le> rd_bitsize r, r\<lparr>rd_buffer := drop_bit s b\<rparr>)))"

definition ensureBits17 :: "LodePNGBitReader \<Rightarrow> nat \<Rightarrow> bool \<times> LodePNGBitReader" where
  "ensureBits17 r nbits =
     (let start = rd_bp r div 8; size = rd_size r; s = rd_bp r mod 8 in
      if start + 2 < size then
        (let b = data_at r start 0 OR data_at r (start + 1) 8 OR data_at r (start + 2) 16 in
         (True, r\<lparr>rd_buffer := drop_bit s b\<rparr>))
      else
        (let b = 0;
             b = (if start + 0 < size then b OR data_at r start 0 else b);
             b = (if start + 1 < size then b OR data_at r (start + 1) 8 else b) in
         (rd_bp r + nbits \<le> rd_bitsize r, r\<lparr>rd_buffer := drop_bit s b\<rparr>)))"

definition ensureBits25 :: "LodePNGBitReader \<Rightarrow> nat \<Rightarrow> bool \<times> LodePNGBitReader" where
  "ensureBits25 r nbits =
     (let start = rd_bp r div 8; size = rd_size r; s = rd_bp r mod 8 in
      if start + 3 < size then
        (let b = data_at r start 0 OR data_at r (start + 1) 8 OR
                 data_at r (start + 2) 16 OR data_at r (start + 3) 24 in
         (True, r\<lparr>rd_buffer := drop_bit s b\<rparr>))
      else
        (let b = 0;
             b = (if start + 0 < size then b OR data_at r start 0 else b);
             b = (if start + 1 < size then b OR data_at r (start + 1) 8 else b);
             b = (if start + 2 < size then b OR data_at r (start + 2) 16 else b) in
         (rd_bp r + nbits \<le> rd_bitsize r, r\<lparr>rd_buffer := drop_bit s b\<rparr>)))"

definition ensureBits32 :: "LodePNGBitReader \<Rightarrow> nat \<Rightarrow> bool \<times> LodePNGBitReader" where
  "ensureBits32 r nbits =
     (let start = rd_bp r div 8; size = rd_size r; s = rd_bp r mod 8 in
      if start + 4 < size then
        (let b = data_at r start 0 OR data_at r (start + 1) 8 OR
                 data_at r (start + 2) 16 OR data_at r (start + 3) 24;
             b = drop_bit s b OR push_bit (8 - s) (data_at r (start + 4) 24) in
         (True, r\<lparr>rd_buffer := b\<rparr>))
      else
        (let b = 0;
             b = (if start + 0 < size then b OR data_at r start 0 else b);
             b = (if start + 1 < size then b OR data_at r (start + 1) 8 else b);
             b = (if start + 2 < size then b OR data_at r (start + 2) 16 else b);
             b = (if start + 3 < size then b OR data_at r (start + 3) 24 else b) in
         (rd_bp r + nbits \<le> rd_bitsize r, r\<lparr>rd_buffer := drop_bit s b\<rparr>)))"

definition peekBits :: "LodePNGBitReader \<Rightarrow> nat \<Rightarrow> u32" where
  "peekBits r nbits = rd_buffer r AND (push_bit nbits 1 - 1)"

definition advanceBits :: "LodePNGBitReader \<Rightarrow> nat \<Rightarrow> LodePNGBitReader" where
  "advanceBits r nbits =
     r\<lparr>rd_buffer := drop_bit nbits (rd_buffer r), rd_bp := rd_bp r + nbits\<rparr>"

definition readBits :: "LodePNGBitReader \<Rightarrow> nat \<Rightarrow> u32 \<times> LodePNGBitReader" where
  "readBits r nbits = (let result = peekBits r nbits in (result, advanceBits r nbits))"

text \<open>The test of the reader: the bits of several steps, or nothing when they run out.\<close>

fun bitreader_steps :: "nat list \<Rightarrow> LodePNGBitReader \<Rightarrow> u32 list option" where
  "bitreader_steps [] r = Some []"
| "bitreader_steps (step # steps) r =
     (let (ok, r) =
        (if step > 25 then ensureBits32 r step
         else if step > 17 then ensureBits25 r step
         else if step > 9 then ensureBits17 r step
         else ensureBits9 r step) in
      if \<not> ok then None
      else case readBits r step of (v, r) \<Rightarrow>
        (case bitreader_steps steps r of None \<Rightarrow> None | Some vs \<Rightarrow> Some (v # vs)))"

definition lode_png_test_bitreader :: "bytes \<Rightarrow> nat list \<Rightarrow> u32 list option" where
  "lode_png_test_bitreader data steps =
     (case LodePNGBitReader_init data of Inl e \<Rightarrow> None | Inr r \<Rightarrow> bitreader_steps steps r)"

text \<open>The deflate alphabet's codes are stored with their most significant bit first.\<close>

definition reverseBits :: "u32 \<Rightarrow> nat \<Rightarrow> u32" where
  "reverseBits bits num =
     fold (\<lambda>i result. result OR push_bit i (drop_bit (num - i - 1) bits AND 1)) [0 ..< num] 0"

section \<open>What the reader returns\<close>

text \<open>
  The reader of a byte string of bounded size, and what it means that its buffer has the next \<open>n\<close>
  bits.
\<close>

definition rd_ok :: "LodePNGBitReader \<Rightarrow> bool" where
  "rd_ok r \<longleftrightarrow> rd_size r = length (rd_data r) \<and> rd_bitsize r = 8 * length (rd_data r)"

definition holds_bits :: "LodePNGBitReader \<Rightarrow> nat \<Rightarrow> bool" where
  "holds_bits r n \<longleftrightarrow> (\<forall>i < n. bit (rd_buffer r) i = sbit (rd_data r) (rd_bp r + i))"

lemma LodePNGBitReader_init_ok:
  "8 * length data + 64 < 2 ^ 64 \<Longrightarrow> LodePNGBitReader_init data =
     Inr \<lparr>rd_data = data, rd_size = length data, rd_bitsize = 8 * length data,
          rd_bp = 0, rd_buffer = 0\<rparr>"
proof -
  assume l: "8 * length data + 64 < 2 ^ 64"
  let ?n = "word_of_nat (length data) :: u64"
  have n: "unat ?n = length data" using l by (simp add: unat_of_nat)
  have m: "\<not> fst (lodepng_mulofl ?n 8)" using l by (simp add: lodepng_mulofl_iff n)
  note m' = lodepng_mulofl_ok [OF m]
  have a: "\<not> fst (lodepng_addofl (snd (lodepng_mulofl ?n 8)) 64)"
    using l by (simp add: lodepng_addofl_iff m' n)
  show ?thesis
    using m a m' by (simp add: LodePNGBitReader_init_def split_beta n)
qed

lemma bit_data_at:
  "bit (data_at r k sh) i \<longleftrightarrow> i < 32 \<and> sh \<le> i \<and> i < sh + 8 \<and> bit (rd_data r ! k) (i - sh)"
  by (auto simp: data_at_def bit_push_bit_iff bit_ucast_iff dest: bit_imp_le_length)

text \<open>
  The two ways of filling the buffer give the same bits: those of the string from the bit pointer
  on. Only the byte that holds a given bit matters.
\<close>

lemma sbit_ahead:
  assumes "i + p mod 8 = 8 * j + m" "m < 8"
  shows "sbit data (p + i) \<longleftrightarrow> p div 8 + j < length data \<and> bit (data ! (p div 8 + j)) m"
proof -
  have "p + i = 8 * (p div 8) + (i + p mod 8)"
    by (simp add: add.commute add.left_commute)
  then have p: "p + i = m + (p div 8 + j) * 8"
    by (simp only: assms(1)) (simp add: algebra_simps)
  have "(p + i) div 8 = p div 8 + j" "(p + i) mod 8 = m"
    unfolding p using assms(2)
    by (simp_all del: distrib_right_numeral)
  then show ?thesis by (simp add: sbit_def)
qed

lemma ahead_split:
  fixes i p k :: nat
  assumes "i + p mod 8 < 8 * k"
  obtains j m where "i + p mod 8 = 8 * j + m" "m < 8" "j < k"
proof (rule that [of "(i + p mod 8) div 8" "(i + p mod 8) mod 8"])
  show "(i + p mod 8) div 8 < k" using assms by (simp add: less_mult_imp_div_less mult.commute)
qed simp_all

lemma bit_beyond_byte [simp]: "8 \<le> i \<Longrightarrow> \<not> bit (b :: byte) i"
  by (auto dest: bit_imp_le_length)

lemma holds_bitsI:
  assumes k: "n + 7 \<le> 8 * k"
    and b: "\<And>i j m. i < n \<Longrightarrow> i + rd_bp r mod 8 = 8 * j + m \<Longrightarrow> m < 8 \<Longrightarrow> j < k \<Longrightarrow>
      bit (rd_buffer r) i \<longleftrightarrow>
        rd_bp r div 8 + j < length (rd_data r) \<and> bit (rd_data r ! (rd_bp r div 8 + j)) m"
  shows "holds_bits r n"
  unfolding holds_bits_def
proof (intro allI impI)
  fix i assume i: "i < n"
  have "rd_bp r mod 8 \<le> 7" by simp
  then have "i + rd_bp r mod 8 < 8 * k" using i k by linarith
  then obtain j m where jm: "i + rd_bp r mod 8 = 8 * j + m" "m < 8" "j < k"
    by (rule ahead_split)
  show "bit (rd_buffer r) i \<longleftrightarrow> sbit (rd_data r) (rd_bp r + i)"
    unfolding sbit_ahead [OF jm(1,2)] by (rule b [OF i jm])
qed

text \<open>The answer of each function is whether that many bits are left.\<close>

lemma bp_split: "rd_bp r = 8 * (rd_bp r div 8) + rd_bp r mod 8" "rd_bp r mod 8 < 8"
  by simp_all

lemma bit_data_at_over:
  assumes "s < 8"
  shows "bit (push_bit (8 - s) (data_at r k 24)) i \<longleftrightarrow>
    i < 32 \<and> 32 \<le> s + i \<and> bit (rd_data r ! k) (s + i - 32)"
proof -
  have "i - (8 - s) - 24 = s + i - 32" using assms by linarith
  then show ?thesis using assms by (auto simp: bit_push_bit_iff bit_data_at)
qed

lemma byte_bounds:
  fixes m :: nat
  assumes "m < 8"
  shows "m < 16" "m < 24" "m < 32" "m < 40" "\<not> 8 \<le> m" "\<not> 16 \<le> m" "\<not> 24 \<le> m" "\<not> 32 \<le> m"
  using assms by simp_all

lemmas ahead_simps = bit_drop_bit_eq bit_or_iff bit_data_at bit_data_at_over

lemma ensureBits9_ahead:
  assumes ok: "rd_ok r" and n: "nbits \<le> 9"
  shows "fst (ensureBits9 r nbits) \<longleftrightarrow> rd_bp r + nbits \<le> rd_bitsize r"
    and "\<exists>b. snd (ensureBits9 r nbits) = r\<lparr>rd_buffer := b\<rparr>"
    and "holds_bits (snd (ensureBits9 r nbits)) nbits"
proof -
  have size: "rd_size r = length (rd_data r)" "rd_bitsize r = 8 * length (rd_data r)"
    using ok by (simp_all add: rd_ok_def)
  show "fst (ensureBits9 r nbits) \<longleftrightarrow> rd_bp r + nbits \<le> rd_bitsize r"
    using n bp_split [of r] by (auto simp: ensureBits9_def Let_def size)
  show upd: "\<exists>b. snd (ensureBits9 r nbits) = r\<lparr>rd_buffer := b\<rparr>"
    by (rule exI [of _ "rd_buffer (snd (ensureBits9 r nbits))"]) (simp add: ensureBits9_def Let_def)
  show "holds_bits (snd (ensureBits9 r nbits)) nbits"
  proof (rule holds_bitsI [where k = 2])
    fix i j m
    let ?r = "snd (ensureBits9 r nbits)"
    assume i: "i < nbits" and "i + rd_bp ?r mod 8 = 8 * j + m" and m: "m < 8" and "j < 2"
    then have e: "rd_bp r mod 8 + i = 8 * j + m"
      using upd by (auto simp: add.commute)
    have i: "i < 32" using i n by simp
    from \<open>j < 2\<close> consider "j = 0" | "j = 1" by linarith
    then show "bit (rd_buffer ?r) i \<longleftrightarrow>
        rd_bp ?r div 8 + j < length (rd_data ?r) \<and> bit (rd_data ?r ! (rd_bp ?r div 8 + j)) m"
      by cases (simp_all add: ensureBits9_def Let_def ahead_simps size e m byte_bounds [OF m] i)
  qed (use n in simp)
qed

lemma ensureBits17_ahead:
  assumes ok: "rd_ok r" and n: "nbits \<le> 17"
  shows "fst (ensureBits17 r nbits) \<longleftrightarrow> rd_bp r + nbits \<le> rd_bitsize r"
    and "\<exists>b. snd (ensureBits17 r nbits) = r\<lparr>rd_buffer := b\<rparr>"
    and "holds_bits (snd (ensureBits17 r nbits)) nbits"
proof -
  have size: "rd_size r = length (rd_data r)" "rd_bitsize r = 8 * length (rd_data r)"
    using ok by (simp_all add: rd_ok_def)
  show "fst (ensureBits17 r nbits) \<longleftrightarrow> rd_bp r + nbits \<le> rd_bitsize r"
    using n bp_split [of r] by (auto simp: ensureBits17_def Let_def size)
  show upd: "\<exists>b. snd (ensureBits17 r nbits) = r\<lparr>rd_buffer := b\<rparr>"
    by (rule exI [of _ "rd_buffer (snd (ensureBits17 r nbits))"]) (simp add: ensureBits17_def Let_def)
  show "holds_bits (snd (ensureBits17 r nbits)) nbits"
  proof (rule holds_bitsI [where k = 3])
    fix i j m
    let ?r = "snd (ensureBits17 r nbits)"
    assume i: "i < nbits" and "i + rd_bp ?r mod 8 = 8 * j + m" and m: "m < 8" and "j < 3"
    then have e: "rd_bp r mod 8 + i = 8 * j + m"
      using upd by (auto simp: add.commute)
    have i: "i < 32" using i n by simp
    from \<open>j < 3\<close> consider "j = 0" | "j = 1" | "j = 2" by linarith
    then show "bit (rd_buffer ?r) i \<longleftrightarrow>
        rd_bp ?r div 8 + j < length (rd_data ?r) \<and> bit (rd_data ?r ! (rd_bp ?r div 8 + j)) m"
      by cases (simp_all add: ensureBits17_def Let_def ahead_simps size e m byte_bounds [OF m] i)
  qed (use n in simp)
qed

lemma ensureBits25_ahead:
  assumes ok: "rd_ok r" and n: "nbits \<le> 25"
  shows "fst (ensureBits25 r nbits) \<longleftrightarrow> rd_bp r + nbits \<le> rd_bitsize r"
    and "\<exists>b. snd (ensureBits25 r nbits) = r\<lparr>rd_buffer := b\<rparr>"
    and "holds_bits (snd (ensureBits25 r nbits)) nbits"
proof -
  have size: "rd_size r = length (rd_data r)" "rd_bitsize r = 8 * length (rd_data r)"
    using ok by (simp_all add: rd_ok_def)
  show "fst (ensureBits25 r nbits) \<longleftrightarrow> rd_bp r + nbits \<le> rd_bitsize r"
    using n bp_split [of r] by (auto simp: ensureBits25_def Let_def size)
  show upd: "\<exists>b. snd (ensureBits25 r nbits) = r\<lparr>rd_buffer := b\<rparr>"
    by (rule exI [of _ "rd_buffer (snd (ensureBits25 r nbits))"]) (simp add: ensureBits25_def Let_def)
  show "holds_bits (snd (ensureBits25 r nbits)) nbits"
  proof (rule holds_bitsI [where k = 4])
    fix i j m
    let ?r = "snd (ensureBits25 r nbits)"
    assume i: "i < nbits" and "i + rd_bp ?r mod 8 = 8 * j + m" and m: "m < 8" and "j < 4"
    then have e: "rd_bp r mod 8 + i = 8 * j + m"
      using upd by (auto simp: add.commute)
    have i: "i < 32" using i n by simp
    from \<open>j < 4\<close> consider "j = 0" | "j = 1" | "j = 2" | "j = 3" by linarith
    then show "bit (rd_buffer ?r) i \<longleftrightarrow>
        rd_bp ?r div 8 + j < length (rd_data ?r) \<and> bit (rd_data ?r ! (rd_bp ?r div 8 + j)) m"
      by cases (simp_all add: ensureBits25_def Let_def ahead_simps size e m byte_bounds [OF m] i)
  qed (use n in simp)
qed

lemma ensureBits32_ahead:
  assumes ok: "rd_ok r" and n: "nbits \<le> 32"
  shows "fst (ensureBits32 r nbits) \<longleftrightarrow> rd_bp r + nbits \<le> rd_bitsize r"
    and "\<exists>b. snd (ensureBits32 r nbits) = r\<lparr>rd_buffer := b\<rparr>"
    and "holds_bits (snd (ensureBits32 r nbits)) nbits"
proof -
  have size: "rd_size r = length (rd_data r)" "rd_bitsize r = 8 * length (rd_data r)"
    using ok by (simp_all add: rd_ok_def)
  show "fst (ensureBits32 r nbits) \<longleftrightarrow> rd_bp r + nbits \<le> rd_bitsize r"
    using n bp_split [of r] by (auto simp: ensureBits32_def Let_def size)
  show upd: "\<exists>b. snd (ensureBits32 r nbits) = r\<lparr>rd_buffer := b\<rparr>"
    by (rule exI [of _ "rd_buffer (snd (ensureBits32 r nbits))"]) (simp add: ensureBits32_def Let_def)
  show "holds_bits (snd (ensureBits32 r nbits)) nbits"
  proof (rule holds_bitsI [where k = 5])
    fix i j m
    let ?r = "snd (ensureBits32 r nbits)"
    assume i: "i < nbits" and "i + rd_bp ?r mod 8 = 8 * j + m" and m: "m < 8" and "j < 5"
    then have e: "rd_bp r mod 8 + i = 8 * j + m"
      using upd by (auto simp: add.commute)
    have i: "i < 32" using i n by simp
    from \<open>j < 5\<close> consider "j = 0" | "j = 1" | "j = 2" | "j = 3" | "j = 4" by linarith
    then show "bit (rd_buffer ?r) i \<longleftrightarrow>
        rd_bp ?r div 8 + j < length (rd_data ?r) \<and> bit (rd_data ?r ! (rd_bp ?r div 8 + j)) m"
      by cases (simp_all add: ensureBits32_def Let_def ahead_simps size e m byte_bounds [OF m] i)
  qed (use n in simp)
qed

lemma ensureBits_buffer:
  "snd (ensureBits9 r n) = r\<lparr>rd_buffer := rd_buffer (snd (ensureBits9 r n))\<rparr>"
  "snd (ensureBits17 r n) = r\<lparr>rd_buffer := rd_buffer (snd (ensureBits17 r n))\<rparr>"
  "snd (ensureBits25 r n) = r\<lparr>rd_buffer := rd_buffer (snd (ensureBits25 r n))\<rparr>"
  "snd (ensureBits32 r n) = r\<lparr>rd_buffer := rd_buffer (snd (ensureBits32 r n))\<rparr>"
  by (simp_all add: ensureBits9_def ensureBits17_def ensureBits25_def ensureBits32_def Let_def)

subsection \<open>The interface of the look-ahead functions\<close>

text \<open>
  What the decoder relies on: up to \<open>cap\<close> bits are in the buffer afterwards, the answer says
  whether they are all inside the string, and nothing but the buffer changes.
\<close>

locale lookahead =
  fixes ensure :: "LodePNGBitReader \<Rightarrow> nat \<Rightarrow> bool \<times> LodePNGBitReader" and cap :: nat
  assumes answer: "rd_ok r \<Longrightarrow> n \<le> cap \<Longrightarrow> fst (ensure r n) \<longleftrightarrow> rd_bp r + n \<le> rd_bitsize r"
    and only_buffer: "rd_ok r \<Longrightarrow> n \<le> cap \<Longrightarrow> \<exists>b. snd (ensure r n) = r\<lparr>rd_buffer := b\<rparr>"
    and ahead: "rd_ok r \<Longrightarrow> n \<le> cap \<Longrightarrow> holds_bits (snd (ensure r n)) n"
begin

lemma kept:
  assumes "rd_ok r" "n \<le> cap"
  shows "rd_data (snd (ensure r n)) = rd_data r" "rd_bp (snd (ensure r n)) = rd_bp r"
    "rd_bitsize (snd (ensure r n)) = rd_bitsize r" "rd_size (snd (ensure r n)) = rd_size r"
    "rd_ok (snd (ensure r n))"
proof -
  from only_buffer [OF assms] obtain b where b: "snd (ensure r n) = r\<lparr>rd_buffer := b\<rparr>" by blast
  show "rd_data (snd (ensure r n)) = rd_data r" "rd_bp (snd (ensure r n)) = rd_bp r"
    "rd_bitsize (snd (ensure r n)) = rd_bitsize r" "rd_size (snd (ensure r n)) = rd_size r"
    "rd_ok (snd (ensure r n))"
    using assms(1) by (simp_all add: b rd_ok_def)
qed

end

interpretation la9: lookahead ensureBits9 9
  by unfold_locales (simp_all add: ensureBits9_ahead)

interpretation la17: lookahead ensureBits17 17
  by unfold_locales (simp_all add: ensureBits17_ahead)

interpretation la25: lookahead ensureBits25 25
  by unfold_locales (simp_all add: ensureBits25_ahead)

interpretation la32: lookahead ensureBits32 32
  by unfold_locales (simp_all add: ensureBits32_ahead)

text \<open>Reading from a buffer that holds enough bits.\<close>

lemma peekBits_take: "peekBits r n = take_bit n (rd_buffer r)"
  by (simp add: peekBits_def take_bit_eq_mask mask_eq_exp_minus_1 push_bit_eq_mult)

lemma holds_bits_mono: "holds_bits r n \<Longrightarrow> m \<le> n \<Longrightarrow> holds_bits r m"
  by (simp add: holds_bits_def)

lemma peekBits_val:
  "holds_bits r n \<Longrightarrow> unat (peekBits r n) = bits_val (sbits (rd_data r) (rd_bp r) n)"
proof -
  assume "holds_bits r n"
  then have "map (bit (rd_buffer r)) [0 ..< n] = sbits (rd_data r) (rd_bp r) n"
    by (simp add: holds_bits_def sbits_def)
  then show ?thesis by (simp add: peekBits_take take_bit_unat_bits)
qed

lemma advanceBits_simps [simp]:
  "rd_data (advanceBits r n) = rd_data r" "rd_bp (advanceBits r n) = rd_bp r + n"
  "rd_bitsize (advanceBits r n) = rd_bitsize r" "rd_size (advanceBits r n) = rd_size r"
  "rd_ok (advanceBits r n) = rd_ok r"
  by (simp_all add: advanceBits_def rd_ok_def)

lemma advanceBits_holds: "holds_bits r n \<Longrightarrow> holds_bits (advanceBits r m) (n - m)"
  by (simp add: holds_bits_def advanceBits_def bit_drop_bit_eq add.assoc)

lemma readBits_val:
  assumes "holds_bits r n" "m \<le> n"
  shows "unat (fst (readBits r m)) = bits_val (sbits (rd_data r) (rd_bp r) m)"
  using peekBits_val [OF holds_bits_mono [OF assms]] by (simp add: readBits_def)

lemma readBits_snd [simp]: "snd (readBits r m) = advanceBits r m"
  by (simp add: readBits_def Let_def)

text \<open>The reference for the test function: the values of consecutive groups of bits.\<close>

fun bit_groups :: "bytes \<Rightarrow> nat \<Rightarrow> nat list \<Rightarrow> nat list" where
  "bit_groups data p [] = []"
| "bit_groups data p (n # ns) = bits_val (sbits data p n) # bit_groups data (p + n) ns"

definition ensure_step :: "LodePNGBitReader \<Rightarrow> nat \<Rightarrow> bool \<times> LodePNGBitReader" where
  "ensure_step r step =
     (if step > 25 then ensureBits32 r step
      else if step > 17 then ensureBits25 r step
      else if step > 9 then ensureBits17 r step
      else ensureBits9 r step)"

interpretation la: lookahead ensure_step 32
proof unfold_locales
  fix r :: LodePNGBitReader and n :: nat
  assume r: "rd_ok r" and n: "n \<le> 32"
  show "fst (ensure_step r n) \<longleftrightarrow> rd_bp r + n \<le> rd_bitsize r"
    using r n by (simp add: ensure_step_def la9.answer la17.answer la25.answer la32.answer)
  show "\<exists>b. snd (ensure_step r n) = r\<lparr>rd_buffer := b\<rparr>"
    using r n by (simp add: ensure_step_def la9.only_buffer la17.only_buffer la25.only_buffer
        la32.only_buffer)
  show "holds_bits (snd (ensure_step r n)) n"
    using r n by (simp add: ensure_step_def la9.ahead la17.ahead la25.ahead la32.ahead)
qed

lemma bitreader_steps_Cons:
  "bitreader_steps (step # steps) r =
     (if \<not> fst (ensure_step r step) then None
      else map_option ((#) (fst (readBits (snd (ensure_step r step)) step)))
             (bitreader_steps steps (advanceBits (snd (ensure_step r step)) step)))"
  by (simp add: ensure_step_def [symmetric] split_beta split: option.split)

lemma bitreader_steps_groups:
  assumes "rd_ok r" "\<forall>n \<in> set steps. n \<le> 32"
  shows "map_option (map unat) (bitreader_steps steps r) =
    (if steps = [] \<or> rd_bp r + sum_list steps \<le> rd_bitsize r
     then Some (bit_groups (rd_data r) (rd_bp r) steps) else None)"
  using assms
proof (induction steps arbitrary: r)
  case Nil
  then show ?case by simp
next
  case (Cons n ns)
  let ?r = "snd (ensure_step r n)"
  have n: "n \<le> 32" using Cons.prems by simp
  note k = la.kept [OF Cons.prems(1) n]
  have v: "unat (fst (readBits ?r n)) = bits_val (sbits (rd_data r) (rd_bp r) n)"
    using readBits_val [OF la.ahead [OF Cons.prems(1) n] order_refl] by (simp add: k)
  have "map_option (map unat) (bitreader_steps ns (advanceBits ?r n)) =
    (if ns = [] \<or> rd_bp r + n + sum_list ns \<le> rd_bitsize r
     then Some (bit_groups (rd_data r) (rd_bp r + n) ns) else None)"
    using Cons.IH [of "advanceBits ?r n"] Cons.prems k by simp
  then show ?case
    using la.answer [OF Cons.prems(1) n] v
    by (cases "bitreader_steps ns (advanceBits ?r n)")
      (auto simp: bitreader_steps_Cons simp del: bitreader_steps.simps(2) split: if_splits)
qed

lemma bitreader_groups:
  assumes "\<forall>n \<in> set steps. n \<le> 31" and "8 * length data + 64 < 2 ^ 64"
  shows "map_option (map unat) (lode_png_test_bitreader data steps) =
    (if sum_list steps \<le> 8 * length data then Some (bit_groups data 0 steps) else None)"
proof -
  let ?r = "\<lparr>rd_data = data, rd_size = length data, rd_bitsize = 8 * length data, rd_bp = 0,
    rd_buffer = 0\<rparr>"
  have "rd_ok ?r" by (simp add: rd_ok_def)
  moreover have "\<forall>n \<in> set steps. n \<le> 32" using assms(1) by fastforce
  ultimately show ?thesis
    using bitreader_steps_groups [of ?r steps]
    by (auto simp: lode_png_test_bitreader_def LodePNGBitReader_init_ok [OF assms(2)])
qed

text \<open>C36: 
  The test of the bit reader, for groups of at most 31 bits, gives the bits of the data cut into
  groups of the given sizes, least significant bit first, and fails exactly when the groups have
  more bits than the data: the look-ahead buffer of the four \<open>ensureBits\<close> never shows,
  also within the last bytes, where the code has a second branch.
\<close>

theorem bitreader_reads_groups:
  assumes "\<forall>n \<in> set steps. n \<le> 31" and "8 * length data + 64 < 2 ^ 64"
  shows "map_option (map unat) (lode_png_test_bitreader data steps) =
    (if sum_list steps \<le> 8 * length data then Some (bit_groups data 0 steps) else None)"
  by (rule bitreader_groups [OF assms])

lemma bitreader_reads_groups_witness:
  "map_option (map unat) (lode_png_test_bitreader [0xb5, 0x03] [3, 9, 2]) =
     Some (bit_groups [0xb5, 0x03] 0 [3, 9, 2]) \<and>
   map_option (map unat) (lode_png_test_bitreader [0xb5, 0x03] [3, 9, 5]) = None"
proof (intro conjI)
  show "map_option (map unat) (lode_png_test_bitreader [0xb5, 0x03] [3, 9, 2]) =
     Some (bit_groups [0xb5, 0x03] 0 [3, 9, 2])"
    by (subst bitreader_reads_groups) (simp_all del: bit_groups.simps)
  show "map_option (map unat) (lode_png_test_bitreader [0xb5, 0x03] [3, 9, 5]) = None"
    by (subst bitreader_reads_groups) (simp_all del: bit_groups.simps)
qed

subsection \<open>The reader returns what the writer wrote\<close>

lemma wr_nbits_le: "wr_ok w \<Longrightarrow> wr_nbits w \<le> 8 * length (wr_data w)"
proof -
  assume "wr_ok w"
  moreover have "unat (wr_bp w) mod 8 < 8" by simp
  ultimately show ?thesis
    by (cases "wr_data w") (auto simp: wr_ok_def wr_nbits_def Let_def)
qed

lemma bit_groups_concat:
  "sbits data p (length (concat bss)) = concat bss \<Longrightarrow>
    bit_groups data p (map length bss) = map bits_val bss"
proof (induction bss arbitrary: p)
  case Nil
  then show ?case by simp
next
  case (Cons b bss)
  then have "sbits data p (length b) @ sbits data (p + length b) (length (concat bss)) =
    b @ concat bss"
    by (simp add: sbits_append)
  then have "sbits data p (length b) = b"
    and "sbits data (p + length b) (length (concat bss)) = concat bss"
    by simp_all
  then show ?case using Cons.IH by simp
qed

definition write_all :: "(u32 \<times> nat) list \<Rightarrow> LodePNGBitWriter" where
  "write_all vs = fold (\<lambda>(v, n) w. writeBits w v n) vs (LodePNGBitWriter_init [])"

lemma write_all_bits:
  assumes "wr_ok w" "\<forall>(v, n) \<in> set vs. n = 1 \<longrightarrow> v \<le> 1"
  shows "wr_ok (fold (\<lambda>(v, n) w. writeBits w v n) vs w) \<and>
    wr_bits (fold (\<lambda>(v, n) w. writeBits w v n) vs w) =
      wr_bits w @ concat (map (\<lambda>(v, n). map (bit v) [0 ..< n]) vs)"
  using assms
proof (induction vs arbitrary: w)
  case Nil
  then show ?case by simp
next
  case (Cons a vs)
  obtain v n where a: "a = (v, n)" by fastforce
  have n: "n = 1 \<Longrightarrow> v \<le> 1" using Cons.prems(2) a by auto
  note wb = writeBits_bits [OF Cons.prems(1) n]
  show ?case
    using Cons.IH [OF wb(1)] Cons.prems(2) by (simp add: a wb(2))
qed

text \<open>
  What the bit writer writes in groups of bits, the bit reader reads back in the same groups, each
  value reduced to its number of bits (a single bit must be 0 or 1, since \<open>writeBits\<close>
  does not mask it).
\<close>

theorem written_bits_read_back:
  assumes "\<forall>(v, n) \<in> set vs. n \<le> 31 \<and> (n = 1 \<longrightarrow> v \<le> 1)"
    and "8 * length (wr_data (write_all vs)) + 64 < 2 ^ 64"
  shows "lode_png_test_bitreader (wr_data (write_all vs)) (map snd vs) =
    Some (map (\<lambda>(v, n). take_bit n v) vs)"
proof -
  let ?w = "write_all vs" and ?bss = "map (\<lambda>(v, n). map (bit v) [0 ..< n]) vs"
  have w: "wr_ok ?w" "wr_bits ?w = concat ?bss"
    using write_all_bits [of "LodePNGBitWriter_init []" vs] assms(1)
    by (auto simp: write_all_def wr_init sbits_def)
  then have "sbits (wr_data ?w) 0 (length (concat ?bss)) = concat ?bss"
    by (metis length_sbits wr_bits_def)
  then have "bit_groups (wr_data ?w) 0 (map length ?bss) = map bits_val ?bss"
    by (rule bit_groups_concat)
  moreover have "map length ?bss = map snd vs" by (simp add: split_beta)
  moreover have "map bits_val ?bss = map unat (map (\<lambda>(v, n). take_bit n v) vs)"
    by (simp add: split_beta take_bit_unat_bits)
  ultimately have g: "bit_groups (wr_data ?w) 0 (map snd vs) =
      map unat (map (\<lambda>(v, n). take_bit n v) vs)" by (simp only:)
  have "sum_list (map snd vs) = length (concat ?bss)"
    by (simp add: length_concat split_beta comp_def)
  also have "\<dots> = wr_nbits ?w" by (metis length_sbits w(2) wr_bits_def)
  also have "\<dots> \<le> 8 * length (wr_data ?w)" by (rule wr_nbits_le [OF w(1)])
  finally have "map_option (map unat) (lode_png_test_bitreader (wr_data ?w) (map snd vs)) =
      Some (map unat (map (\<lambda>(v, n). take_bit n v) vs))"
    using bitreader_groups [of "map snd vs", OF _ assms(2)] assms(1) g by fastforce
  then obtain z where z: "lode_png_test_bitreader (wr_data ?w) (map snd vs) = Some z"
    "map unat z = map unat (map (\<lambda>(v, n). take_bit n v) vs)"
    by (auto simp del: map_map)
  moreover have "inj (unat :: u32 \<Rightarrow> nat)" by (rule injI) (simp add: unat_eq_iff)
  ultimately show ?thesis using map_injective [OF z(2)] by simp
qed

lemma written_bits_read_back_witness:
  "lode_png_test_bitreader (wr_data (write_all [(1, 1), (5, 3)])) [1, 3] = Some [1, 5]"
proof -
  have 1: "writeBits (LodePNGBitWriter_init []) 1 1 = \<lparr>wr_data = [1], wr_bp = 1\<rparr>"
    by (simp add: writeBits_def WRITEBIT_def LodePNGBitWriter_init_def)
  have "writeBits \<lparr>wr_data = [1], wr_bp = 1\<rparr> 5 3 = \<lparr>wr_data = [11], wr_bp = 4\<rparr>"
    by (simp add: writeBits_def WRITEBIT_def upt_conv_Cons)
  then have "write_all [(1, 1), (5, 3)] = \<lparr>wr_data = [11], wr_bp = 4\<rparr>"
    by (simp only: write_all_def fold_simps split 1 id_apply)
  then show ?thesis
    using written_bits_read_back [of "[(1, 1), (5, 3)]"] by simp
qed

section \<open>Reversing a code\<close>

lemma bit_reverseBits:
  "bit (reverseBits b n) i \<longleftrightarrow> i < n \<and> i < 32 \<and> bit b (n - 1 - i)"
proof -
  let ?f = "\<lambda>i result. result OR push_bit i (drop_bit (n - i - 1) b AND 1)"
  have step: "bit (?f i a) k \<longleftrightarrow> bit a k \<or> (k = i \<and> k < 32 \<and> bit b (n - k - 1))"
    for i k and a :: u32
    by (auto simp: bit_of_word bit_or_iff bit_push_bit_iff bit_1_iff)
  have "bit (fold ?f is a) k \<longleftrightarrow> bit a k \<or> (k \<in> set is \<and> k < 32 \<and> bit b (n - k - 1))"
    for "is" k and a :: u32
  proof (induction "is" arbitrary: a)
    case (Cons i "is")
    show ?case by (simp only: fold_simps Cons.IH step list.set) auto
  qed simp
  then show ?thesis by (auto simp: reverseBits_def)
qed

lemma reverseBits_involution: "n \<le> 32 \<Longrightarrow> reverseBits (reverseBits b n) n = take_bit n b"
  by (rule bit_word_eqI) (auto simp: bit_reverseBits bit_take_bit_iff)

end
