(* ===== verification/Png_Huffman.thy ===== *)
theory Png_Huffman
  imports Png_Bits
begin

unbundle bit_operations_syntax

text \<open>
  The Huffman trees of \<open>lodepng.cpp\<close> as the decoder builds them: the canonical codes of a list of
  code lengths, the two-level lookup table, the two fixed trees, and the decoding of a symbol.
  Lengths and table entries are natural numbers (they are at most 15 and below 33281 in the code's
  \<open>unsigned\<close>, \<open>unsigned char\<close> and \<open>unsigned short\<close> arrays); codes are \<open>unsigned\<close>. Array elements
  that the code leaves uninitialised are zero here; it reads none of them before setting it, except
  for the code of an absent symbol, whose value it does not use.
\<close>

section \<open>The alphabets\<close>

abbreviation (input) FIRST_LENGTH_CODE_INDEX :: nat where "FIRST_LENGTH_CODE_INDEX \<equiv> 257"
abbreviation (input) LAST_LENGTH_CODE_INDEX :: nat where "LAST_LENGTH_CODE_INDEX \<equiv> 285"
abbreviation (input) NUM_DEFLATE_CODE_SYMBOLS :: nat where "NUM_DEFLATE_CODE_SYMBOLS \<equiv> 288"
abbreviation (input) NUM_DISTANCE_SYMBOLS :: nat where "NUM_DISTANCE_SYMBOLS \<equiv> 32"
abbreviation (input) NUM_CODE_LENGTH_CODES :: nat where "NUM_CODE_LENGTH_CODES \<equiv> 19"
abbreviation (input) FIRSTBITS :: nat where "FIRSTBITS \<equiv> 9"
abbreviation (input) INVALIDSYMBOL :: nat where "INVALIDSYMBOL \<equiv> 65535"

definition LENGTHBASE :: "nat list" where
  "LENGTHBASE = [3, 4, 5, 6, 7, 8, 9, 10, 11, 13, 15, 17, 19, 23, 27, 31, 35, 43, 51, 59,
     67, 83, 99, 115, 131, 163, 195, 227, 258]"

definition LENGTHEXTRA :: "nat list" where
  "LENGTHEXTRA = [0, 0, 0, 0, 0, 0, 0, 0, 1, 1, 1, 1, 2, 2, 2, 2, 3, 3, 3, 3,
     4, 4, 4, 4, 5, 5, 5, 5, 0]"

definition DISTANCEBASE :: "nat list" where
  "DISTANCEBASE = [1, 2, 3, 4, 5, 7, 9, 13, 17, 25, 33, 49, 65, 97, 129, 193, 257, 385, 513,
     769, 1025, 1537, 2049, 3073, 4097, 6145, 8193, 12289, 16385, 24577]"

definition DISTANCEEXTRA :: "nat list" where
  "DISTANCEEXTRA = [0, 0, 0, 0, 1, 1, 2, 2, 3, 3, 4, 4, 5, 5, 6, 6, 7, 7, 8,
     8, 9, 9, 10, 10, 11, 11, 12, 12, 13, 13]"

definition CLCL_ORDER :: "nat list" where
  "CLCL_ORDER = [16, 17, 18, 0, 8, 7, 9, 6, 10, 5, 11, 4, 12, 3, 13, 2, 14, 1, 15]"

section \<open>The tree\<close>

record HuffmanTree =
  codes :: "u32 list"
  lengths :: "nat list"
  maxbitlen :: nat
  numcodes :: nat
  table_len :: "nat list"
  table_value :: "nat list"

definition HuffmanTree_init :: HuffmanTree where
  "HuffmanTree_init = \<lparr>codes = [], lengths = [], maxbitlen = 0, numcodes = 0,
     table_len = [], table_value = []\<rparr>"

subsection \<open>The lookup table\<close>

text \<open>
  For every index of the first table, the longest code with these first bits, if longer than
  \<open>FIRSTBITS\<close>.
\<close>

definition table_maxlens :: "HuffmanTree \<Rightarrow> nat list" where
  "table_maxlens tree =
     fold (\<lambda>i maxlens.
         (let symbol = codes tree ! i; l = lengths tree ! i in
          if l \<le> FIRSTBITS then maxlens
          else (let index = unat (reverseBits (drop_bit (l - FIRSTBITS) symbol) FIRSTBITS) in
                maxlens[index := max (maxlens ! index) l])))
       [0 ..< numcodes tree] (replicate (2 ^ FIRSTBITS) 0)"

definition table_size :: "nat list \<Rightarrow> nat" where
  "table_size maxlens =
     fold (\<lambda>l size. if l > FIRSTBITS then size + 2 ^ (l - FIRSTBITS) else size) maxlens
       (2 ^ FIRSTBITS)"

text \<open>Lengths and values of the table; 16 marks an unused entry.\<close>

type_synonym table = "nat list \<times> nat list"

definition table_pointers :: "nat list \<Rightarrow> table \<Rightarrow> table" where
  "table_pointers maxlens t =
     snd (fold (\<lambda>i (pointer, tlen, tval).
         (let l = maxlens ! i in
          if l \<le> FIRSTBITS then (pointer, tlen, tval)
          else (pointer + 2 ^ (l - FIRSTBITS), tlen[i := l], tval[i := pointer])))
       [0 ..< 2 ^ FIRSTBITS] (2 ^ FIRSTBITS, t))"

fun fill_short :: "nat \<Rightarrow> u32 \<Rightarrow> nat \<Rightarrow> nat list \<Rightarrow> table \<Rightarrow> table png" where
  "fill_short i reverse l [] t = Inr t"
| "fill_short i reverse l (j # js) (tlen, tval) =
     (let index = unat (reverse OR push_bit l (word_of_nat j)) in
      if tlen ! index \<noteq> 16 then Inl 55
      else fill_short i reverse l js (tlen[index := l], tval[index := i]))"

definition fill_long :: "nat \<Rightarrow> u32 \<Rightarrow> nat \<Rightarrow> table \<Rightarrow> table png" where
  "fill_long i reverse l t =
     (case t of (tlen, tval) \<Rightarrow>
       (let index = unat (reverse AND (2 ^ FIRSTBITS - 1));
            maxlen = tlen ! index;
            tablelen = maxlen - FIRSTBITS;
            start = tval ! index;
            num = 2 ^ (tablelen - (l - FIRSTBITS)) in
        if maxlen < l then Inl 55
        else Inr (fold (\<lambda>j (tlen, tval).
            (let reverse2 = drop_bit FIRSTBITS reverse;
                 index2 = start + unat (reverse2 OR push_bit (l - FIRSTBITS) (word_of_nat j)) in
             (tlen[index2 := l], tval[index2 := i])))
          [0 ..< num] (tlen, tval))))"

fun fill_symbols :: "HuffmanTree \<Rightarrow> nat list \<Rightarrow> nat \<Rightarrow> table \<Rightarrow> (nat \<times> table) png" where
  "fill_symbols tree [] numpresent t = Inr (numpresent, t)"
| "fill_symbols tree (i # is) numpresent t =
     (let l = lengths tree ! i;
          symbol = codes tree ! i;
          reverse = reverseBits symbol l in
      if l = 0 then fill_symbols tree is numpresent t
      else
        (case (if l \<le> FIRSTBITS then fill_short i reverse l [0 ..< 2 ^ (FIRSTBITS - l)] t
               else fill_long i reverse l t) of
           Inl e \<Rightarrow> Inl e
         | Inr t' \<Rightarrow> fill_symbols tree is (numpresent + 1) t'))"

definition table_finish :: "nat \<Rightarrow> nat \<Rightarrow> table \<Rightarrow> table png" where
  "table_finish numpresent sz t =
     (case t of (tlen, tval) \<Rightarrow>
       if numpresent < 2 then
         Inr (fold (\<lambda>i (tlen, tval).
             (if tlen ! i = 16
              then (tlen[i := if i < 2 ^ FIRSTBITS then 1 else FIRSTBITS + 1], tval[i := INVALIDSYMBOL])
              else (tlen, tval)))
           [0 ..< sz] (tlen, tval))
       else if list_ex (\<lambda>i. tlen ! i = 16) [0 ..< sz] then Inl 55
       else Inr (tlen, tval))"

definition HuffmanTree_makeTable :: "HuffmanTree \<Rightarrow> HuffmanTree png" where
  "HuffmanTree_makeTable tree =
     (let maxlens = table_maxlens tree;
          sz = table_size maxlens;
          t = table_pointers maxlens (replicate sz 16, replicate sz 0) in
      case fill_symbols tree [0 ..< numcodes tree] 0 t of
        Inl e \<Rightarrow> Inl e
      | Inr (numpresent, t) \<Rightarrow>
          (case table_finish numpresent sz t of
             Inl e \<Rightarrow> Inl e
           | Inr (tlen, tval) \<Rightarrow> Inr (tree\<lparr>table_len := tlen, table_value := tval\<rparr>)))"

subsection \<open>Codes from lengths\<close>

definition count_lengths :: "nat list \<Rightarrow> nat \<Rightarrow> u32 list" where
  "count_lengths ls maxlen = fold (\<lambda>l blcount. blcount[l := blcount ! l + 1]) ls
     (replicate (maxlen + 1) 0)"

definition next_codes :: "u32 list \<Rightarrow> nat \<Rightarrow> u32 list" where
  "next_codes blcount maxlen =
     fold (\<lambda>bits nextcode.
         nextcode[bits := push_bit 1 (nextcode ! (bits - 1) + blcount ! (bits - 1))])
       [1 ..< maxlen + 1] (replicate (maxlen + 1) 0)"

definition assign_codes :: "nat list \<Rightarrow> u32 list \<Rightarrow> u32 list" where
  "assign_codes ls nextcode =
     fst (fold (\<lambda>n (cs, nextcode).
         (let l = ls ! n in
          if l \<noteq> 0
          then (cs[n := nextcode ! l AND (push_bit l 1 - 1)], nextcode[l := nextcode ! l + 1])
          else (cs, nextcode)))
       [0 ..< length ls] (replicate (length ls) 0, nextcode))"

definition HuffmanTree_makeFromLengths2 :: "HuffmanTree \<Rightarrow> HuffmanTree png" where
  "HuffmanTree_makeFromLengths2 tree =
     (let blcount = count_lengths (lengths tree) (maxbitlen tree);
          nextcode = next_codes blcount (maxbitlen tree) in
      HuffmanTree_makeTable (tree\<lparr>codes := assign_codes (lengths tree) nextcode\<rparr>))"

definition HuffmanTree_makeFromLengths ::
  "HuffmanTree \<Rightarrow> nat list \<Rightarrow> nat \<Rightarrow> nat \<Rightarrow> HuffmanTree png" where
  "HuffmanTree_makeFromLengths tree bitlen n maxlen =
     HuffmanTree_makeFromLengths2
       (tree\<lparr>lengths := take n bitlen, numcodes := n, maxbitlen := maxlen\<rparr>)"

definition generateFixedLitLenTree :: "HuffmanTree \<Rightarrow> HuffmanTree png" where
  "generateFixedLitLenTree tree =
     (let bitlen = replicate 144 8 @ replicate 112 9 @ replicate 24 7 @ replicate 8 8 in
      HuffmanTree_makeFromLengths tree bitlen NUM_DEFLATE_CODE_SYMBOLS 15)"

definition generateFixedDistanceTree :: "HuffmanTree \<Rightarrow> HuffmanTree png" where
  "generateFixedDistanceTree tree =
     HuffmanTree_makeFromLengths tree (replicate NUM_DISTANCE_SYMBOLS 5) NUM_DISTANCE_SYMBOLS 15"

section \<open>Decoding\<close>

definition huffmanDecodeSymbol :: "LodePNGBitReader \<Rightarrow> HuffmanTree \<Rightarrow> nat \<times> LodePNGBitReader" where
  "huffmanDecodeSymbol r tree =
     (let code = unat (peekBits r FIRSTBITS);
          l = table_len tree ! code;
          v = table_value tree ! code in
      if l \<le> FIRSTBITS then (v, advanceBits r l)
      else
        (let r = advanceBits r FIRSTBITS;
             index2 = v + unat (peekBits r (l - FIRSTBITS));
             r = advanceBits r (table_len tree ! index2 - FIRSTBITS) in
         (table_value tree ! index2, r)))"

section \<open>Every symbol takes at least one bit\<close>

text \<open>
  The lookup table of a tree that has been built has no entry of length zero in its first half, so
  decoding always advances; this is what makes the loops of the decompressor end.
\<close>

definition lens_positive :: "nat \<Rightarrow> table \<Rightarrow> bool" where
  "lens_positive n t \<longleftrightarrow> length (fst t) = n \<and> list_all (\<lambda>l. 0 < l) (fst t)"

lemma list_all_update: "list_all P xs \<Longrightarrow> P x \<Longrightarrow> list_all P (xs[i := x])"
  using set_update_subset_insert [of xs i x] by (auto simp: list_all_iff)

lemma lens_positive_upd:
  "lens_positive n (tlen, tval) \<Longrightarrow> 0 < l \<Longrightarrow> lens_positive n (tlen[i := l], tval')"
  by (simp add: lens_positive_def list_all_update)

lemma fold_invariant2:
  assumes "P s" and "\<And>x s. x \<in> set xs \<Longrightarrow> P s \<Longrightarrow> P (f x s)"
  shows "P (fold f xs s)"
  using assms by (induction xs arbitrary: s) auto

lemma table_pointers_positive:
  assumes "lens_positive n t"
  shows "lens_positive n (table_pointers maxlens t)"
proof -
  have "lens_positive n (snd (fold (\<lambda>i (pointer, tlen, tval).
         (let l = maxlens ! i in
          if l \<le> FIRSTBITS then (pointer, tlen, tval)
          else (pointer + 2 ^ (l - FIRSTBITS), tlen[i := l], tval[i := pointer])))
       [0 ..< 2 ^ FIRSTBITS] (2 ^ FIRSTBITS, t)))"
    by (rule fold_invariant2 [where P = "\<lambda>s. lens_positive n (snd s)"])
      (use assms in \<open>auto simp: Let_def intro!: lens_positive_upd\<close>)
  then show ?thesis by (simp only: table_pointers_def)
qed

lemma fill_short_positive:
  "fill_short i reverse l js t = Inr t' \<Longrightarrow> lens_positive n t \<Longrightarrow> 0 < l \<Longrightarrow> lens_positive n t'"
proof (induction i reverse l js t rule: fill_short.induct)
  case (2 i reverse l j js tlen tval)
  then show ?case by (simp add: Let_def lens_positive_upd split: if_splits)
qed simp

lemma fill_long_positive:
  assumes "fill_long i reverse l t = Inr t'" "lens_positive n t" "\<not> l \<le> FIRSTBITS"
  shows "lens_positive n t'"
proof -
  obtain tlen tval where t: "t = (tlen, tval)" by (cases t)
  have l: "0 < l" using assms(3) by simp
  show ?thesis
    using assms(1) unfolding fill_long_def t Let_def
    by (auto split: if_splits intro!: fold_invariant2 [where P = "lens_positive n"] lens_positive_upd
        l simp: assms(2) [unfolded t])
qed

lemma fill_symbols_positive:
  "fill_symbols tree is k t = Inr (k', t') \<Longrightarrow> lens_positive n t \<Longrightarrow> lens_positive n t'"
proof (induction "is" arbitrary: k t)
  case (Cons i "is")
  then show ?case
    by (auto simp: Let_def split: if_splits sum.splits)
      (blast dest: fill_short_positive, blast dest: fill_long_positive)
qed simp

lemma table_finish_positive:
  assumes "table_finish k sz t = Inr t'" "lens_positive n t"
  shows "lens_positive n t'"
proof -
  obtain tlen tval where t: "t = (tlen, tval)" by (cases t)
  show ?thesis
    using assms(1) unfolding table_finish_def t
    by (auto split: if_splits intro!: fold_invariant2 [where P = "lens_positive n"] lens_positive_upd
        simp: assms(2) [unfolded t])
qed

lemma table_size_ge: "2 ^ FIRSTBITS \<le> table_size maxlens"
  unfolding table_size_def
  by (rule fold_invariant2 [where P = "\<lambda>s. 2 ^ FIRSTBITS \<le> s"]) auto

definition tree_advances :: "HuffmanTree \<Rightarrow> bool" where
  "tree_advances tree \<longleftrightarrow>
     2 ^ FIRSTBITS \<le> length (table_len tree) \<and> list_all (\<lambda>l. 0 < l) (table_len tree)"

lemma makeTable_advances:
  assumes "HuffmanTree_makeTable tree = Inr tree'"
  shows "tree_advances tree'"
proof -
  let ?m = "table_maxlens tree"
  let ?t = "table_pointers ?m (replicate (table_size ?m) 16, replicate (table_size ?m) 0)"
  obtain k t tlen tval where t: "fill_symbols tree [0 ..< numcodes tree] 0 ?t = Inr (k, t)"
    "table_finish k (table_size ?m) t = Inr (tlen, tval)"
    "tree' = tree\<lparr>table_len := tlen, table_value := tval\<rparr>"
    using assms by (auto simp: HuffmanTree_makeTable_def Let_def split: sum.splits)
  have "lens_positive (table_size ?m) (replicate (table_size ?m) 16, replicate (table_size ?m) (0::nat))"
    by (simp add: lens_positive_def list_all_length)
  then have "lens_positive (table_size ?m) (tlen, tval)"
    by (intro table_finish_positive [OF t(2)] fill_symbols_positive [OF t(1)]
        table_pointers_positive)
  then show ?thesis
    using table_size_ge [of ?m] by (simp add: tree_advances_def lens_positive_def t(3))
qed

lemma makeFromLengths_advances:
  "HuffmanTree_makeFromLengths tree bitlen n maxlen = Inr tree' \<Longrightarrow> tree_advances tree'"
  by (simp add: HuffmanTree_makeFromLengths_def HuffmanTree_makeFromLengths2_def Let_def
      makeTable_advances)

text \<open>Reading moves the bit pointer forward and leaves the string alone.\<close>

definition reads_on :: "LodePNGBitReader \<Rightarrow> LodePNGBitReader \<Rightarrow> bool" where
  "reads_on r r' \<longleftrightarrow> rd_data r' = rd_data r \<and> rd_size r' = rd_size r \<and>
     rd_bitsize r' = rd_bitsize r \<and> rd_bp r \<le> rd_bp r'"

lemma reads_on_refl [simp]: "reads_on r r"
  by (simp add: reads_on_def)

lemma reads_on_trans [trans]: "reads_on r r' \<Longrightarrow> reads_on r' r'' \<Longrightarrow> reads_on r r''"
  by (simp add: reads_on_def)

lemma reads_on_buffer [simp]: "reads_on r (r\<lparr>rd_buffer := b\<rparr>)"
  by (simp add: reads_on_def)

lemma reads_on_ensure [simp]:
  "reads_on r (snd (ensureBits9 r n))" "reads_on r (snd (ensureBits17 r n))"
  "reads_on r (snd (ensureBits25 r n))" "reads_on r (snd (ensureBits32 r n))"
  by (subst ensureBits_buffer, simp)+

lemma ensure_bp [simp]:
  "rd_bp (snd (ensureBits9 r n)) = rd_bp r" "rd_bp (snd (ensureBits17 r n)) = rd_bp r"
  "rd_bp (snd (ensureBits25 r n)) = rd_bp r" "rd_bp (snd (ensureBits32 r n)) = rd_bp r"
  by (subst ensureBits_buffer, simp)+

lemma reads_on_advance [simp]: "reads_on r (advanceBits r n)"
  by (simp add: reads_on_def)

lemma huffmanDecodeSymbol_reads_on: "reads_on r (snd (huffmanDecodeSymbol r tree))"
  by (auto simp: huffmanDecodeSymbol_def Let_def reads_on_def)

lemma peekBits_less: "n < 32 \<Longrightarrow> unat (peekBits r n) < 2 ^ n"
  by (simp add: peekBits_take unsigned_take_bit_eq)

lemma huffmanDecodeSymbol_advances:
  assumes "tree_advances tree"
  shows "rd_bp r < rd_bp (snd (huffmanDecodeSymbol r tree))"
proof -
  have "unat (peekBits r FIRSTBITS) < length (table_len tree)"
    using peekBits_less [of FIRSTBITS r] assms by (simp add: tree_advances_def)
  then have "0 < table_len tree ! unat (peekBits r FIRSTBITS)"
    using assms by (simp add: tree_advances_def list_all_length)
  then show ?thesis by (simp add: huffmanDecodeSymbol_def Let_def)
qed

end
