(* ===== verification/Png_Inflate.thy ===== *)
theory Png_Inflate
  imports Png_Huffman
begin

unbundle bit_operations_syntax

text \<open>
  The decompressor of \<open>lodepng.cpp\<close>: the trees of a dynamic block, the blocks with Huffman codes,
  the stored blocks, and the loop over the blocks. The two loops that read symbols and blocks until
  the stream says so are partial functions: \<open>None\<close> is a run that never ends. An error leaves the
  number of bytes that have been decompressed by then, which the readers of compressed text compare
  with their limit.
\<close>

text \<open>An error with the size of the output at that time.\<close>

type_synonym 'a sized = "(nat \<times> nat) + 'a"

section \<open>Settings\<close>

text \<open>
  A custom decompressor gets the output so far and the input, and returns its error and the output.
\<close>

record LodePNGDecompressSettings =
  ignore_adler32 :: bool
  ignore_nlen :: bool
  max_output_size :: nat
  custom_zlib :: "(bytes \<Rightarrow> bytes \<Rightarrow> nat \<times> bytes) option"
  custom_inflate :: "(bytes \<Rightarrow> bytes \<Rightarrow> nat \<times> bytes) option"

definition lodepng_decompress_settings_init :: LodePNGDecompressSettings where
  "lodepng_decompress_settings_init =
     \<lparr>ignore_adler32 = False, ignore_nlen = False, max_output_size = 0,
      custom_zlib = None, custom_inflate = None\<rparr>"

section \<open>The trees of a block\<close>

definition getTreeInflateFixed :: "(HuffmanTree \<times> HuffmanTree) png" where
  "getTreeInflateFixed =
     (case generateFixedLitLenTree HuffmanTree_init of
        Inl e \<Rightarrow> Inl e
      | Inr tree_ll \<Rightarrow>
          (case generateFixedDistanceTree HuffmanTree_init of
             Inl e \<Rightarrow> Inl e | Inr tree_d \<Rightarrow> Inr (tree_ll, tree_d)))"

text \<open>The lengths of the code length code: three bits each, in the order of \<open>CLCL_ORDER\<close>.\<close>

definition read_clcl :: "nat \<Rightarrow> LodePNGBitReader \<Rightarrow> nat list \<times> LodePNGBitReader" where
  "read_clcl HCLEN r =
     (let (bitlen_cl, r) =
        fold (\<lambda>i (bitlen_cl, r).
            (let r = snd (ensureBits9 r 3); (v, r) = readBits r 3 in
             (bitlen_cl[CLCL_ORDER ! i := unat v], r)))
          [0 ..< HCLEN] (replicate NUM_CODE_LENGTH_CODES 0, r) in
      (fold (\<lambda>i bitlen_cl. bitlen_cl[CLCL_ORDER ! i := 0]) [HCLEN ..< NUM_CODE_LENGTH_CODES] bitlen_cl,
       r))"

type_synonym bitlens = "nat list \<times> nat list"

text \<open>The length number \<open>i\<close>: of a literal or length symbol, or of a distance symbol.\<close>

definition set_bitlen :: "nat \<Rightarrow> nat \<Rightarrow> nat \<Rightarrow> bitlens \<Rightarrow> bitlens" where
  "set_bitlen HLIT i v b =
     (case b of (ll, d) \<Rightarrow> if i < HLIT then (ll[i := v], d) else (ll, d[i - HLIT := v]))"

text \<open>Repeating a length; the error is the one for running past the last symbol (zero: none).\<close>

fun repeat_bitlen :: "nat \<Rightarrow> nat \<Rightarrow> nat \<Rightarrow> nat \<Rightarrow> nat \<Rightarrow> nat \<Rightarrow> bitlens \<Rightarrow> nat \<times> nat \<times> bitlens" where
  "repeat_bitlen HLIT HDIST err v 0 i b = (0, i, b)"
| "repeat_bitlen HLIT HDIST err v (Suc n) i b =
     (if i \<ge> HLIT + HDIST then (err, i, b)
      else repeat_bitlen HLIT HDIST err v n (i + 1) (set_bitlen HLIT i v b))"

lemma repeat_bitlen_le: "i \<le> fst (snd (repeat_bitlen HLIT HDIST err v n i b))"
proof (induction n arbitrary: i b)
  case (Suc n)
  then show ?case using Suc_leD [of i] by fastforce
qed simp

lemma repeat_bitlen_less:
  "i < HLIT + HDIST \<Longrightarrow> 0 < n \<Longrightarrow> i < fst (snd (repeat_bitlen HLIT HDIST err v n i b))"
  using repeat_bitlen_le [of "i + 1"] by (cases n) (auto simp: less_eq_Suc_le)

text \<open>
  One code of the compressed lengths: the error it ends with, the next symbol to set, the lengths
  and the reader. Error 0 goes on. A repeat that runs past the last symbol ends the loop because
  all symbols are set; its error gives way to error 50 when the bit pointer has run past the end.
\<close>

definition bitlen_checked ::
  "LodePNGBitReader \<Rightarrow> nat \<times> nat \<times> bitlens \<Rightarrow> (nat \<times> nat \<times> bitlens \<times> LodePNGBitReader) png" where
  "bitlen_checked r x =
     (case x of (e, i, b) \<Rightarrow> if rd_bp r > rd_bitsize r then Inl 50 else Inr (e, i, b, r))"

definition read_bitlen ::
  "HuffmanTree \<Rightarrow> nat \<Rightarrow> nat \<Rightarrow> nat \<Rightarrow> bitlens \<Rightarrow> LodePNGBitReader \<Rightarrow>
   (nat \<times> nat \<times> bitlens \<times> LodePNGBitReader) png" where
  "read_bitlen tree_cl HLIT HDIST i b r =
     (let r = snd (ensureBits25 r 22);
          (code, r) = huffmanDecodeSymbol r tree_cl in
      if code \<le> 15 then bitlen_checked r (0, i + 1, set_bitlen HLIT i code b)
      else if code = 16 then
        (if i = 0 then Inl 54
         else
           (let (x, r) = readBits r 2;
                v = (if i < HLIT + 1 then fst b ! (i - 1) else snd b ! (i - HLIT - 1)) in
            bitlen_checked r (repeat_bitlen HLIT HDIST 13 v (3 + unat x) i b)))
      else if code = 17 then
        (let (x, r) = readBits r 3 in
         bitlen_checked r (repeat_bitlen HLIT HDIST 14 0 (3 + unat x) i b))
      else if code = 18 then
        (let (x, r) = readBits r 7 in
         bitlen_checked r (repeat_bitlen HLIT HDIST 15 0 (11 + unat x) i b))
      else Inl 16)"

lemma bitlen_checked_less:
  "bitlen_checked r x = Inr (e, i', b', r') \<Longrightarrow> i < fst (snd x) \<Longrightarrow> i < i'"
  by (auto simp: bitlen_checked_def split: prod.splits if_splits)

lemma read_bitlen_less:
  "read_bitlen tree_cl HLIT HDIST i b r = Inr (e, i', b', r') \<Longrightarrow> i < HLIT + HDIST \<Longrightarrow> i < i'"
  unfolding read_bitlen_def Let_def split_beta
  by (auto split: if_splits elim!: bitlen_checked_less intro!: repeat_bitlen_less)

function read_bitlens ::
  "HuffmanTree \<Rightarrow> nat \<Rightarrow> nat \<Rightarrow> nat \<Rightarrow> bitlens \<Rightarrow> LodePNGBitReader \<Rightarrow>
   (bitlens \<times> LodePNGBitReader) png" where
  "read_bitlens tree_cl HLIT HDIST i b r =
     (if i < HLIT + HDIST then
        (case read_bitlen tree_cl HLIT HDIST i b r of
           Inl e \<Rightarrow> Inl e
         | Inr (e, i', b', r') \<Rightarrow>
             if e \<noteq> 0 then Inl e
             else read_bitlens tree_cl HLIT HDIST i' b' r')
      else Inr (b, r))"
  by pat_completeness auto
termination
  by (relation "measure (\<lambda>(tree_cl, HLIT, HDIST, i, b, r). HLIT + HDIST - i)")
    (auto dest!: read_bitlen_less)

declare read_bitlens.simps [simp del]

definition getTreeInflateDynamic ::
  "LodePNGBitReader \<Rightarrow> (HuffmanTree \<times> HuffmanTree \<times> LodePNGBitReader) png" where
  "getTreeInflateDynamic r =
     (let (ok, r) = ensureBits17 r 14 in
      if \<not> ok then Inl 49
      else
        (let (x, r) = readBits r 5; HLIT = unat x + 257;
             (x, r) = readBits r 5; HDIST = unat x + 1;
             (x, r) = readBits r 4; HCLEN = unat x + 4 in
         if lodepng_gtofl (word_of_nat (rd_bp r)) (word_of_nat (HCLEN * 3)) (word_of_nat (rd_bitsize r))
         then Inl 50
         else
           (let (bitlen_cl, r) = read_clcl HCLEN r in
            case HuffmanTree_makeFromLengths HuffmanTree_init bitlen_cl NUM_CODE_LENGTH_CODES 7 of
              Inl e \<Rightarrow> Inl e
            | Inr tree_cl \<Rightarrow>
                (case read_bitlens tree_cl HLIT HDIST 0
                        (replicate NUM_DEFLATE_CODE_SYMBOLS 0, replicate NUM_DISTANCE_SYMBOLS 0) r of
                   Inl e \<Rightarrow> Inl e
                 | Inr ((bitlen_ll, bitlen_d), r) \<Rightarrow>
                     if bitlen_ll ! 256 = 0 then Inl 64
                     else
                       (case HuffmanTree_makeFromLengths HuffmanTree_init bitlen_ll
                               NUM_DEFLATE_CODE_SYMBOLS 15 of
                          Inl e \<Rightarrow> Inl e
                        | Inr tree_ll \<Rightarrow>
                            (case HuffmanTree_makeFromLengths HuffmanTree_init bitlen_d
                                    NUM_DISTANCE_SYMBOLS 15 of
                               Inl e \<Rightarrow> Inl e
                             | Inr tree_d \<Rightarrow> Inr (tree_ll, tree_d, r)))))))"

section \<open>Blocks\<close>

text \<open>
  Copying an earlier part of the output to its end: the first \<open>distance\<close> bytes at once, the rest, if
  the match overlaps itself, byte by byte.
\<close>

definition copy_match :: "bytes \<Rightarrow> nat \<Rightarrow> nat \<Rightarrow> bytes" where
  "copy_match out distance len =
     (let start = length out; backward = start - distance in
      if distance < len then
        fold (\<lambda>k out. out @ [out ! (backward + k)]) [0 ..< len - distance]
          (out @ take distance (drop backward out))
      else out @ take len (drop backward out))"

text \<open>
  One symbol of a block: \<open>Inl\<close> an error, otherwise whether it was the end code, the output and the
  reader.
\<close>

definition inflate_symbol ::
  "HuffmanTree \<Rightarrow> HuffmanTree \<Rightarrow> nat \<Rightarrow> bytes \<Rightarrow> LodePNGBitReader \<Rightarrow>
   (bool \<times> bytes \<times> LodePNGBitReader) sized" where
  "inflate_symbol tree_ll tree_d max_size out r =
     (let checked = (\<lambda>out r.
            if rd_bp r > rd_bitsize r then Inl (51, length out)
            else if max_size \<noteq> 0 \<and> length out > max_size then Inl (109, length out)
            else Inr (False, out, r));
          r = snd (ensureBits25 r 20);
          (code_ll, r) = huffmanDecodeSymbol r tree_ll in
      if code_ll \<le> 255 then checked (out @ [word_of_nat code_ll]) r
      else if FIRST_LENGTH_CODE_INDEX \<le> code_ll \<and> code_ll \<le> LAST_LENGTH_CODE_INDEX then
        (let len = LENGTHBASE ! (code_ll - FIRST_LENGTH_CODE_INDEX);
             numextrabits_l = LENGTHEXTRA ! (code_ll - FIRST_LENGTH_CODE_INDEX);
             (len, r) = (if numextrabits_l \<noteq> 0
                         then (case readBits r numextrabits_l of (x, r) \<Rightarrow> (len + unat x, r))
                         else (len, r));
             r = snd (ensureBits32 r 28);
             (code_d, r) = huffmanDecodeSymbol r tree_d in
         if code_d > 29 then Inl (if code_d \<le> 31 then 18 else 16, length out)
         else
           (let distance = DISTANCEBASE ! code_d;
                numextrabits_d = DISTANCEEXTRA ! code_d;
                (distance, r) = (if numextrabits_d \<noteq> 0
                   then (case readBits r numextrabits_d of (x, r) \<Rightarrow> (distance + unat x, r))
                   else (distance, r)) in
            if distance > length out then Inl (52, length out)
            else checked (copy_match out distance len) r))
      else if code_ll = 256 then Inr (True, out, r)
      else Inl (16, length out))"

partial_function (option) inflate_symbols ::
  "HuffmanTree \<Rightarrow> HuffmanTree \<Rightarrow> nat \<Rightarrow> bytes \<Rightarrow> LodePNGBitReader \<Rightarrow>
   (bytes \<times> LodePNGBitReader) sized option" where
  "inflate_symbols tree_ll tree_d max_size out r =
     (case inflate_symbol tree_ll tree_d max_size out r of
        Inl e \<Rightarrow> Some (Inl e)
      | Inr (done_, out', r') \<Rightarrow>
          if done_ then Some (Inr (out', r')) else inflate_symbols tree_ll tree_d max_size out' r')"

definition inflateHuffmanBlock ::
  "bytes \<Rightarrow> LodePNGBitReader \<Rightarrow> nat \<Rightarrow> nat \<Rightarrow> (bytes \<times> LodePNGBitReader) sized option" where
  "inflateHuffmanBlock out r btype max_size =
     (if btype = 1 then
        (case getTreeInflateFixed of
           Inl e \<Rightarrow> Some (Inl (e, length out))
         | Inr (tree_ll, tree_d) \<Rightarrow> inflate_symbols tree_ll tree_d max_size out r)
      else
        (case getTreeInflateDynamic r of
           Inl e \<Rightarrow> Some (Inl (e, length out))
         | Inr (tree_ll, tree_d, r) \<Rightarrow> inflate_symbols tree_ll tree_d max_size out r))"

definition inflateNoCompression ::
  "bytes \<Rightarrow> LodePNGBitReader \<Rightarrow> LodePNGDecompressSettings \<Rightarrow> (bytes \<times> LodePNGBitReader) sized" where
  "inflateNoCompression out r settings =
     (let sz = rd_size r; data = rd_data r;
          bytepos = (rd_bp r + 7) div 8 in
      if bytepos + 4 \<ge> sz then Inl (52, length out)
      else
        (let LEN = unat (data ! bytepos) + 256 * unat (data ! (bytepos + 1));
             bytepos = bytepos + 2;
             NLEN = unat (data ! bytepos) + 256 * unat (data ! (bytepos + 1));
             bytepos = bytepos + 2 in
         if \<not> ignore_nlen settings \<and> LEN + NLEN \<noteq> 65535 then Inl (21, length out)
         else if bytepos + LEN > sz then Inl (23, length out + LEN)
         else Inr (out @ take LEN (drop bytepos data), r\<lparr>rd_bp := (bytepos + LEN) * 8\<rparr>)))"

partial_function (option) inflate_blocks ::
  "LodePNGDecompressSettings \<Rightarrow> bytes \<Rightarrow> LodePNGBitReader \<Rightarrow> bytes sized option" where
  "inflate_blocks settings out r =
     (let (ok, r) = ensureBits9 r 3 in
      if \<not> ok then Some (Inl (52, length out))
      else
        (let (BFINAL, r) = readBits r 1; (BTYPE, r) = readBits r 2 in
         if BTYPE = 3 then Some (Inl (20, length out))
         else
           (case (if BTYPE = 0 then Some (inflateNoCompression out r settings)
                  else inflateHuffmanBlock out r (unat BTYPE) (max_output_size settings)) of
              None \<Rightarrow> None
            | Some (Inl e) \<Rightarrow> Some (Inl e)
            | Some (Inr (out', r')) \<Rightarrow>
                if max_output_size settings \<noteq> 0 \<and> length out' > max_output_size settings
                then Some (Inl (109, length out'))
                else if BFINAL \<noteq> 0 then Some (Inr out')
                else inflate_blocks settings out' r')))"

definition lodepng_inflatev ::
  "bytes \<Rightarrow> bytes \<Rightarrow> LodePNGDecompressSettings \<Rightarrow> bytes sized option" where
  "lodepng_inflatev out input settings =
     (case LodePNGBitReader_init input of
        Inl e \<Rightarrow> Some (Inl (e, length out))
      | Inr r \<Rightarrow> inflate_blocks settings out r)"

definition inflatev ::
  "bytes \<Rightarrow> bytes \<Rightarrow> LodePNGDecompressSettings \<Rightarrow> bytes sized option" where
  "inflatev out input settings =
     (case custom_inflate settings of
        Some f \<Rightarrow>
          (let (e, out') = f out input in
           Some (if e = 0 then Inr out'
                 else if max_output_size settings \<noteq> 0 \<and> length out' > max_output_size settings
                 then Inl (109, length out') else Inl (110, length out')))
      | None \<Rightarrow> lodepng_inflatev out input settings)"

section \<open>The decompressor returns\<close>

lemma snd_readBits_reads_on: "reads_on r (snd (readBits r n))"
  by simp

lemma reads_on_bp: "reads_on r r' \<Longrightarrow> rd_bp r \<le> rd_bp r'"
  by (simp add: reads_on_def)

lemma reads_on_bitsize: "reads_on r r' \<Longrightarrow> rd_bitsize r' = rd_bitsize r"
  by (simp add: reads_on_def)

lemma read_clcl_reads_on: "reads_on r (snd (read_clcl n r))"
proof -
  have step: "reads_on r (advanceBits (snd (ensureBits9 r' 3)) 3)" if "reads_on r r'" for r'
    by (rule reads_on_trans [OF that reads_on_trans [OF reads_on_ensure(1) reads_on_advance]])
  have "reads_on r (snd (fold (\<lambda>i (bitlen_cl, r).
            (let r = snd (ensureBits9 r 3); (v, r) = readBits r 3 in
             (bitlen_cl[CLCL_ORDER ! i := unat v], r))) [0 ..< n]
            (replicate NUM_CODE_LENGTH_CODES 0, r)))"
    by (rule fold_invariant2 [where P = "\<lambda>s. reads_on r (snd s)"])
      (auto simp: Let_def split_beta step)
  then show ?thesis by (simp add: read_clcl_def Let_def split_beta)
qed

lemma bitlen_checked_Inr: "bitlen_checked r x = Inr (e, i', b', r') \<Longrightarrow> r' = r"
  by (auto simp: bitlen_checked_def split: prod.splits if_splits)

lemma read_bitlen_reads_on:
  assumes "read_bitlen tree_cl HLIT HDIST i b r = Inr (e, i', b', r')"
  shows "reads_on r r'"
proof -
  let ?r = "snd (huffmanDecodeSymbol (snd (ensureBits25 r 22)) tree_cl)"
  have r: "reads_on r ?r"
    by (rule reads_on_trans [OF reads_on_ensure(3) huffmanDecodeSymbol_reads_on])
  have "r' = ?r \<or> (\<exists>n. r' = advanceBits ?r n)"
    using assms unfolding read_bitlen_def Let_def split_beta
    by (auto split: if_splits dest!: bitlen_checked_Inr)
  then show ?thesis using r reads_on_trans [OF r reads_on_advance] by auto
qed

lemma read_bitlens_reads_on:
  "read_bitlens tree_cl HLIT HDIST i b r = Inr (b', r') \<Longrightarrow> reads_on r r'"
proof (induction tree_cl HLIT HDIST i b r rule: read_bitlens.induct)
  case (1 tree_cl HLIT HDIST i b r)
  show ?case
  proof (cases "i < HLIT + HDIST")
    case True
    then obtain i'' b'' r'' where
      s: "read_bitlen tree_cl HLIT HDIST i b r = Inr (0, i'', b'', r'')"
      and rec: "read_bitlens tree_cl HLIT HDIST i'' b'' r'' = Inr (b', r')"
      using 1(2) by (subst (asm) read_bitlens.simps) (auto split: sum.splits if_splits)
    have "reads_on r'' r'" using True s rec by (intro 1(1)) simp_all
    with read_bitlen_reads_on [OF s] show ?thesis by (rule reads_on_trans)
  next
    case False
    then show ?thesis using 1(2) by (subst (asm) read_bitlens.simps) simp
  qed
qed

lemma getTreeInflateDynamic_Inr:
  assumes "getTreeInflateDynamic r = Inr (tree_ll, tree_d, r')"
  shows "tree_advances tree_ll" "tree_advances tree_d" "reads_on r r'"
proof -
  let ?r0 = "snd (ensureBits17 r 14)"
  let ?r3 = "advanceBits (advanceBits (advanceBits ?r0 5) 5) 4"
  obtain n ll d cl tree_cl HLIT HDIST where
    "tree_advances tree_ll" "tree_advances tree_d"
    and "read_bitlens tree_cl HLIT HDIST 0 cl (snd (read_clcl n ?r3)) = Inr ((ll, d), r')"
    using assms unfolding getTreeInflateDynamic_def Let_def split_beta
    by (auto split: if_splits sum.splits dest!: makeFromLengths_advances)
  moreover have "reads_on r (snd (read_clcl n ?r3))"
    by (intro reads_on_trans [OF reads_on_ensure(2) reads_on_trans [OF reads_on_advance
        reads_on_trans [OF reads_on_advance reads_on_trans [OF reads_on_advance
        read_clcl_reads_on]]]])
  ultimately show "tree_advances tree_ll" "tree_advances tree_d" "reads_on r r'"
    by (auto intro: reads_on_trans read_bitlens_reads_on)
qed

lemma getTreeInflateFixed_Inr:
  "getTreeInflateFixed = Inr (tree_ll, tree_d) \<Longrightarrow> tree_advances tree_ll \<and> tree_advances tree_d"
  by (auto simp: getTreeInflateFixed_def generateFixedLitLenTree_def generateFixedDistanceTree_def
      Let_def split: sum.splits dest: makeFromLengths_advances)

lemma inflate_symbol_Inr:
  assumes "inflate_symbol tree_ll tree_d max_size out r = Inr (d, out', r')"
    and "tree_advances tree_ll"
  shows "reads_on r r'" "rd_bp r < rd_bp r'" "\<not> d \<Longrightarrow> rd_bp r' \<le> rd_bitsize r"
proof -
  let ?r1 = "snd (huffmanDecodeSymbol (snd (ensureBits25 r 20)) tree_ll)"
  have r1: "reads_on r ?r1"
    by (rule reads_on_trans [OF reads_on_ensure(3) huffmanDecodeSymbol_reads_on])
  have adv: "rd_bp r < rd_bp ?r1"
    using huffmanDecodeSymbol_advances [OF assms(2), of "snd (ensureBits25 r 20)"] by simp
  let ?r2 = "\<lambda>n. snd (huffmanDecodeSymbol (snd (ensureBits32 (advanceBits ?r1 n) 28)) tree_d)"
  let ?r3 = "snd (huffmanDecodeSymbol (snd (ensureBits32 ?r1 28)) tree_d)"
  have r2: "reads_on ?r1 (?r2 n)" for n
    by (rule reads_on_trans [OF reads_on_advance
          reads_on_trans [OF reads_on_ensure(4) huffmanDecodeSymbol_reads_on]])
  have r3: "reads_on ?r1 ?r3"
    by (rule reads_on_trans [OF reads_on_ensure(4) huffmanDecodeSymbol_reads_on])
  have "r' = ?r1 \<or> (\<exists>n. r' = ?r2 n) \<or> (\<exists>n m. r' = advanceBits (?r2 n) m) \<or>
      r' = ?r3 \<or> (\<exists>m. r' = advanceBits ?r3 m)"
    and fin: "\<not> d \<Longrightarrow> \<not> rd_bp r' > rd_bitsize r'"
    using assms(1) unfolding inflate_symbol_def Let_def split_beta
    by (auto split: if_splits)
  then have "reads_on ?r1 r'"
    using r2 r3 by (auto intro: reads_on_trans [OF _ reads_on_advance])
  with r1 show on: "reads_on r r'" by (rule reads_on_trans)
  show "rd_bp r < rd_bp r'" using adv reads_on_bp [OF \<open>reads_on ?r1 r'\<close>] by simp
  show "\<not> d \<Longrightarrow> rd_bp r' \<le> rd_bitsize r" using fin reads_on_bitsize [OF on] by simp
qed

lemma inflate_symbols_returns:
  assumes "tree_advances tree_ll"
  shows "\<exists>y. inflate_symbols tree_ll tree_d max_size out r = Some y \<and>
    (\<forall>out' r'. y = Inr (out', r') \<longrightarrow> reads_on r r')"
proof (induction "rd_bitsize r + 1 - rd_bp r" arbitrary: out r rule: less_induct)
  case less
  show ?case
  proof (cases "inflate_symbol tree_ll tree_d max_size out r")
    case (Inl e)
    then show ?thesis by (subst inflate_symbols.simps) simp
  next
    case (Inr x)
    then obtain d out' r' where x: "inflate_symbol tree_ll tree_d max_size out r = Inr (d, out', r')"
      by (cases x) auto
    note step = inflate_symbol_Inr [OF x assms]
    show ?thesis
    proof (cases d)
      case True
      then show ?thesis by (subst inflate_symbols.simps) (simp add: x step(1))
    next
      case False
      have "rd_bitsize r' + 1 - rd_bp r' < rd_bitsize r + 1 - rd_bp r"
        using step(2) step(3) [OF False] reads_on_bitsize [OF step(1)] by linarith
      from less [OF this, of out'] show ?thesis
        using False reads_on_trans [OF step(1)]
        by (subst inflate_symbols.simps) (auto simp: x)
    qed
  qed
qed

lemma inflateHuffmanBlock_returns:
  "\<exists>y. inflateHuffmanBlock out r btype max_size = Some y \<and>
    (\<forall>out' r'. y = Inr (out', r') \<longrightarrow> reads_on r r')"
proof (cases "btype = 1")
  case True
  then show ?thesis
    using inflate_symbols_returns
    by (auto simp: inflateHuffmanBlock_def split: sum.split dest: getTreeInflateFixed_Inr)
next
  case False
  show ?thesis
  proof (cases "getTreeInflateDynamic r")
    case (Inl e)
    then show ?thesis using False by (simp add: inflateHuffmanBlock_def)
  next
    case (Inr x)
    then obtain tree_ll tree_d r1 where x: "getTreeInflateDynamic r = Inr (tree_ll, tree_d, r1)"
      by (cases x) auto
    note dyn = getTreeInflateDynamic_Inr [OF x]
    from inflate_symbols_returns [OF dyn(1), of tree_d max_size out r1] show ?thesis
      using False reads_on_trans [OF dyn(3)] by (auto simp: inflateHuffmanBlock_def x)
  qed
qed

lemma round_up_8: "p \<le> (p + 7) div 8 * (8::nat)"
  by presburger

lemma inflateNoCompression_reads_on:
  "inflateNoCompression out r settings = Inr (out', r') \<Longrightarrow> reads_on r r'"
  using round_up_8 [of "rd_bp r"]
  by (auto simp: inflateNoCompression_def Let_def reads_on_def split: if_splits)

lemma if_returns: "\<exists>y. a = Some y \<Longrightarrow> \<exists>y. b = Some y \<Longrightarrow> \<exists>y. (if c then a else b) = Some y"
  by simp

lemma inflate_blocks_returns: "rd_ok r \<Longrightarrow> \<exists>y. inflate_blocks settings out r = Some y"
proof (induction "rd_bitsize r + 1 - rd_bp r" arbitrary: out r rule: less_induct)
  case less
  let ?e = "ensureBits9 r 3"
  let ?r = "advanceBits (advanceBits (snd ?e) 1) 2"
  let ?BTYPE = "fst (readBits (advanceBits (snd ?e) 1) 2)"
  let ?block = "if ?BTYPE = 0 then Some (inflateNoCompression out ?r settings)
    else inflateHuffmanBlock out ?r (unat ?BTYPE) (max_output_size settings)"
  have "\<exists>y. ?block = Some y \<and> (\<forall>out' r'. y = Inr (out', r') \<longrightarrow> reads_on ?r r')"
    using inflateHuffmanBlock_returns inflateNoCompression_reads_on by simp
  then obtain y where y: "?block = Some y" "\<And>out' r'. y = Inr (out', r') \<Longrightarrow> reads_on ?r r'"
    by blast
  show ?case
  proof (cases "fst ?e")
    case False
    then show ?thesis by (subst inflate_blocks.simps) (simp add: split_beta)
  next
    case ok: True
    then have bp: "rd_bp r + 3 \<le> rd_bitsize r" using la9.answer [OF less(2)] by simp
    show ?thesis
    proof (cases y)
      case (Inl e)
      then show ?thesis
        using ok y(1)
        by (subst inflate_blocks.simps, cases "?BTYPE = 3")
          (simp_all add: split_beta Let_def del: One_nat_def split del: if_split)
    next
      case (Inr z)
      then obtain out' r' where z: "y = Inr (out', r')" by (cases z) auto
      have on: "reads_on ?r r'" by (rule y(2) [OF z])
      then have r': "rd_bitsize r' = rd_bitsize r" "rd_bp r + 3 \<le> rd_bp r'" "rd_ok r'"
        using less(2) ensureBits_buffer(1) [of r 3]
        by (auto simp: reads_on_def rd_ok_def la9.kept [OF less(2)])
      have "\<exists>y. inflate_blocks settings out' r' = Some y"
        by (rule less(1)) (use r' bp in auto)
      then show ?thesis
        using ok y(1) z
        by (subst inflate_blocks.simps, cases "?BTYPE = 3")
          (simp_all add: split_beta Let_def if_returns del: One_nat_def split del: if_split)
    qed
  qed
qed

lemma LodePNGBitReader_init_Inr:
  assumes "LodePNGBitReader_init input = Inr r" "length input < 2 ^ 64"
  shows "rd_ok r"
proof -
  let ?n = "word_of_nat (length input) :: u64"
  have m: "\<not> fst (lodepng_mulofl ?n 8)" and
    r: "r = \<lparr>rd_data = input, rd_size = length input,
        rd_bitsize = unat (snd (lodepng_mulofl ?n 8)), rd_bp = 0, rd_buffer = 0\<rparr>"
    using assms(1) by (auto simp: LodePNGBitReader_init_def Let_def split_beta split: if_splits)
  have "unat ?n = length input" using assms(2) by (simp add: unat_of_nat)
  then show ?thesis using lodepng_mulofl_ok [OF m] by (simp add: rd_ok_def r)
qed

text \<open>
  The decompressor returns, with output or with an error, on every input shorter than \<open>2 ^ 64\<close> bytes:
  every symbol takes at least one bit and the bit pointer may not pass the end.
\<close>

lemma inflate_returns:
  assumes "length input < 2 ^ 64"
  shows "\<exists>y. lodepng_inflatev out input settings = Some y"
proof (cases "LodePNGBitReader_init input")
  case (Inl e)
  then show ?thesis by (simp add: lodepng_inflatev_def)
next
  case (Inr r)
  then show ?thesis
    using inflate_blocks_returns [OF LodePNGBitReader_init_Inr [OF Inr assms], of settings out]
    by (simp add: lodepng_inflatev_def)
qed

end
