(* ===== verification/Png_Deflate.thy ===== *)
theory Png_Deflate
  imports Png_Inflate
begin

unbundle bit_operations_syntax

text \<open>
  Parts of the compressor of \<open>lodepng.cpp\<close>: the search for the code of a length or a distance, the
  four numbers that stand for a match, their output with given trees, and the stored blocks. The
  codes found are shown to be the ones from which the decompressor recovers the length and the
  distance, and what \<open>deflateNoCompression\<close> writes is shown to decompress to the same bytes.
\<close>

section \<open>Length and distance codes\<close>

text \<open>
  The binary search keeps the end of the range as one past \<open>right\<close>, so that \<open>right = mid - 1\<close> has no
  borrow; \<open>left\<close> starts at 1, so the code has none either.
\<close>

function search_loop :: "nat list \<Rightarrow> nat \<Rightarrow> nat \<Rightarrow> nat \<Rightarrow> nat" where
  "search_loop array v left right1 =
     (if left < right1 then
        (let mid = (left + (right1 - 1)) div 2 in
         if array ! mid \<ge> v then search_loop array v left mid
         else search_loop array v (mid + 1) right1)
      else left)"
  by pat_completeness auto
termination
  by (relation "measure (\<lambda>(array, v, left, right1). right1 - left)") auto

declare search_loop.simps [simp del]

definition searchCodeIndex :: "nat list \<Rightarrow> nat \<Rightarrow> nat \<Rightarrow> nat" where
  "searchCodeIndex array array_size v =
     (let left = search_loop array v 1 array_size in
      if left \<ge> array_size \<or> array ! left > v then left - 1 else left)"

definition addLengthDistance :: "nat list \<Rightarrow> nat \<Rightarrow> nat \<Rightarrow> nat list" where
  "addLengthDistance vals len distance =
     (let length_code = searchCodeIndex LENGTHBASE 29 len;
          extra_length = len - LENGTHBASE ! length_code;
          dist_code = searchCodeIndex DISTANCEBASE 30 distance;
          extra_distance = distance - DISTANCEBASE ! dist_code in
      vals @ [length_code + FIRST_LENGTH_CODE_INDEX, extra_length, dist_code, extra_distance])"

lemma search_loop_bounds:
  assumes "sorted array" "left \<le> right1" "right1 \<le> length array"
    and "\<forall>i < left. 0 < i \<longrightarrow> array ! i < v"
    and "\<forall>i. right1 \<le> i \<and> i < length array \<longrightarrow> v \<le> array ! i"
  shows "left \<le> search_loop array v left right1 \<and> search_loop array v left right1 \<le> right1 \<and>
    (\<forall>i < search_loop array v left right1. 0 < i \<longrightarrow> array ! i < v) \<and>
    (\<forall>i. search_loop array v left right1 \<le> i \<and> i < length array \<longrightarrow> v \<le> array ! i)"
  using assms
proof (induction array v left right1 rule: search_loop.induct)
  case (1 array v left right1)
  show ?case
  proof (cases "left < right1")
    case False
    then show ?thesis using 1(3-) by (subst (1 2 3 4) search_loop.simps) auto
  next
    case True
    define mid where "mid = (left + (right1 - 1)) div 2"
    have mid: "left \<le> mid" "mid < right1" using True by (auto simp: mid_def)
    show ?thesis
    proof (cases "array ! mid \<ge> v")
      case ge: True
      have "\<forall>i. mid \<le> i \<and> i < length array \<longrightarrow> v \<le> array ! i"
        using ge sorted_nth_mono [OF 1(3)] order_trans by blast
      then have "left \<le> search_loop array v left mid \<and> search_loop array v left mid \<le> mid \<and>
        (\<forall>i < search_loop array v left mid. 0 < i \<longrightarrow> array ! i < v) \<and>
        (\<forall>i. search_loop array v left mid \<le> i \<and> i < length array \<longrightarrow> v \<le> array ! i)"
        using 1(3-7) mid by (intro 1(1) [OF True mid_def ge]) auto
      moreover have "search_loop array v left right1 = search_loop array v left mid"
        using True ge by (subst search_loop.simps) (simp add: mid_def)
      ultimately show ?thesis using mid by simp
    next
      case lt: False
      have "array ! i < v" if "i < mid + 1" for i
        using sorted_nth_mono [OF 1(3), of i mid] that mid 1(5) lt by simp
      then have "mid + 1 \<le> search_loop array v (mid + 1) right1 \<and>
        search_loop array v (mid + 1) right1 \<le> right1 \<and>
        (\<forall>i < search_loop array v (mid + 1) right1. 0 < i \<longrightarrow> array ! i < v) \<and>
        (\<forall>i. search_loop array v (mid + 1) right1 \<le> i \<and> i < length array \<longrightarrow> v \<le> array ! i)"
        using 1(3-7) mid by (intro 1(2) [OF True mid_def lt]) auto
      moreover have "search_loop array v left right1 = search_loop array v (mid + 1) right1"
        using True lt by (subst search_loop.simps) (simp add: mid_def)
      ultimately show ?thesis using mid by simp
    qed
  qed
qed

text \<open>The index found is that of the largest entry not above the value.\<close>

lemma searchCodeIndex_max:
  assumes "sorted array" "distinct array" "length array = n" "1 \<le> n" "array ! 0 \<le> v"
  defines "k \<equiv> searchCodeIndex array n v"
  shows "k < n" "array ! k \<le> v" "k + 1 < n \<Longrightarrow> v < array ! (k + 1)"
proof -
  define l where "l = search_loop array v 1 n"
  have l: "1 \<le> l" "l \<le> n" "\<forall>i < l. 0 < i \<longrightarrow> array ! i < v"
    "\<forall>i. l \<le> i \<and> i < length array \<longrightarrow> v \<le> array ! i"
    unfolding l_def using search_loop_bounds [OF assms(1), of 1 n v] assms(3,4) by auto
  have k: "k = (if l \<ge> n \<or> array ! l > v then l - 1 else l)"
    by (simp add: k_def searchCodeIndex_def l_def Let_def)
  have less: "array ! i < array ! j" if "i < j" "j < n" for i j
    using sorted_nth_mono [OF assms(1), of i j] nth_eq_iff_index_eq [OF assms(2), of i j] that assms(3)
    by fastforce
  show "k < n" using k l(1,2) assms(4) by (auto split: if_splits)
  have "array ! (l - 1) \<le> v"
  proof (cases "l = 1")
    case False
    then have "l - 1 < l" "0 < l - 1" using l(1) by simp_all
    then show ?thesis using l(3) less_imp_le by blast
  qed (use assms(5) in simp)
  then show "array ! k \<le> v" using k by (auto split: if_splits)
  assume n: "k + 1 < n"
  show "v < array ! (k + 1)"
  proof (cases "l \<ge> n \<or> array ! l > v")
    case True
    then have "k + 1 = l" using k l(1) by simp
    then show ?thesis using True n by simp
  next
    case False
    then have "k = l" "v \<le> array ! l" using k l(4) assms(3) by auto
    then show ?thesis using less [of l "l + 1"] n by simp
  qed
qed

text \<open>The gaps between the bases are what the extra bits can express.\<close>

lemma bases_sorted:
  "sorted LENGTHBASE" "distinct LENGTHBASE" "length LENGTHBASE = 29"
  "sorted DISTANCEBASE" "distinct DISTANCEBASE" "length DISTANCEBASE = 30"
  by (simp_all add: LENGTHBASE_def DISTANCEBASE_def)

lemma base_gaps:
  "list_all (\<lambda>i. LENGTHBASE ! (i + 1) \<le> LENGTHBASE ! i + 2 ^ (LENGTHEXTRA ! i)) [0 ..< 28]"
  "list_all (\<lambda>i. DISTANCEBASE ! (i + 1) \<le> DISTANCEBASE ! i + 2 ^ (DISTANCEEXTRA ! i)) [0 ..< 29]"
  by (simp_all add: LENGTHBASE_def DISTANCEBASE_def LENGTHEXTRA_def DISTANCEEXTRA_def upt_conv_Cons)

text \<open>
  A match of a length of 3 to 258 and a distance of up to 32768 is stored as four values: a length
  code, its extra bits, a distance code and its extra bits, all in range, from which base plus extra
  bits give back the length and the distance.
\<close>

theorem addLengthDistance_codes:
  assumes "3 \<le> len" "len \<le> 258" "1 \<le> distance" "distance \<le> 32768"
  shows "\<exists>lc el dc ed. addLengthDistance vals len distance = vals @ [lc + 257, el, dc, ed] \<and>
    lc < 29 \<and> LENGTHBASE ! lc + el = len \<and> el < 2 ^ (LENGTHEXTRA ! lc) \<and>
    dc < 30 \<and> DISTANCEBASE ! dc + ed = distance \<and> ed < 2 ^ (DISTANCEEXTRA ! dc)"
proof -
  define lc where "lc = searchCodeIndex LENGTHBASE 29 len"
  define dc where "dc = searchCodeIndex DISTANCEBASE 30 distance"
  have "LENGTHBASE ! 0 \<le> len" "DISTANCEBASE ! 0 \<le> distance"
    using assms by (simp_all add: LENGTHBASE_def DISTANCEBASE_def)
  note l = searchCodeIndex_max [OF bases_sorted(1-3) _ this(1), folded lc_def]
    and d = searchCodeIndex_max [OF bases_sorted(4-6) _ this(2), folded dc_def]
  have "len - LENGTHBASE ! lc < 2 ^ (LENGTHEXTRA ! lc)"
  proof (cases "lc = 28")
    case True
    then show ?thesis using assms(2) by (simp add: LENGTHBASE_def LENGTHEXTRA_def)
  next
    case False
    then have lt: "lc < 28" using l(1) by simp
    then have "LENGTHBASE ! (lc + 1) \<le> LENGTHBASE ! lc + 2 ^ (LENGTHEXTRA ! lc)"
      using base_gaps(1) by (simp only: list_all_iff set_upt atLeastLessThan_iff) auto
    then show ?thesis using l(2,3) lt by simp
  qed
  moreover have "distance - DISTANCEBASE ! dc < 2 ^ (DISTANCEEXTRA ! dc)"
  proof (cases "dc = 29")
    case True
    then show ?thesis using assms(4) by (simp add: DISTANCEBASE_def DISTANCEEXTRA_def)
  next
    case False
    then have lt: "dc < 29" using d(1) by simp
    then have "DISTANCEBASE ! (dc + 1) \<le> DISTANCEBASE ! dc + 2 ^ (DISTANCEEXTRA ! dc)"
      using base_gaps(2) by (simp only: list_all_iff set_upt atLeastLessThan_iff) auto
    then show ?thesis using d(2,3) lt by simp
  qed
  ultimately show ?thesis
    using l(1,2) d(1,2)
    by (intro exI [of _ lc] exI [of _ "len - LENGTHBASE ! lc"] exI [of _ dc]
        exI [of _ "distance - DISTANCEBASE ! dc"])
      (simp add: addLengthDistance_def Let_def lc_def dc_def)
qed

lemma addLengthDistance_codes_witness:
  "\<exists>lc el dc ed. addLengthDistance [] 258 32768 = [] @ [lc + 257, el, dc, ed] \<and>
    lc < 29 \<and> LENGTHBASE ! lc + el = 258 \<and> el < 2 ^ (LENGTHEXTRA ! lc) \<and>
    dc < 30 \<and> DISTANCEBASE ! dc + ed = 32768 \<and> ed < 2 ^ (DISTANCEEXTRA ! dc)"
  by (rule addLengthDistance_codes) simp_all

section \<open>Stored blocks\<close>

text \<open>
  The loop over the blocks; \<open>datapos\<close> and \<open>LEN\<close> are \<open>unsigned\<close>, so they wrap for four gigabytes of
  data and more.
\<close>

definition deflateNoCompression :: "bytes \<Rightarrow> bytes \<Rightarrow> bytes" where
  "deflateNoCompression out data =
     (let datasize = length data; numdeflateblocks = (datasize + 65534) div 65535 in
      fst (fold (\<lambda>i (out, datapos :: u32).
          (let BFINAL = (if i = numdeflateblocks - 1 then 1 else 0);
               LEN = (if datasize - unat datapos < 65535 then word_of_nat datasize - datapos
                      else 65535) :: u32;
               NLEN = 65535 - LEN;
               firstbyte = BFINAL :: byte in
           (out @ [firstbyte, ucast (LEN AND 255), ucast (drop_bit 8 LEN),
                   ucast (NLEN AND 255), ucast (drop_bit 8 NLEN)] @
              take (unat LEN) (drop (unat datapos) data),
            datapos + LEN)))
        [0 ..< numdeflateblocks] (out, 0)))"

text \<open>The same output as a recursion over the data.\<close>

definition stored_block :: "byte \<Rightarrow> bytes \<Rightarrow> bytes" where
  "stored_block bfinal xs =
     [bfinal, word_of_nat (length xs mod 256), word_of_nat (length xs div 256),
      word_of_nat ((65535 - length xs) mod 256), word_of_nat ((65535 - length xs) div 256)] @ xs"

function stored :: "bytes \<Rightarrow> bytes" where
  "stored data =
     (if data = [] then []
      else if length data \<le> 65535 then stored_block 1 data
      else stored_block 0 (take 65535 data) @ stored (drop 65535 data))"
  by pat_completeness auto
termination
  by (relation "measure length") auto

declare stored.simps [simp del]

lemma len_bytes:
  assumes "n \<le> 65535"
  shows "(ucast (word_of_nat n AND 255 :: u32) :: byte) = word_of_nat (n mod 256)"
    and "(ucast (drop_bit 8 (word_of_nat n :: u32)) :: byte) = word_of_nat (n div 256)"
proof -
  have n: "unat (word_of_nat n :: u32) = n" using assms by (simp add: unat_of_nat)
  show "(ucast (word_of_nat n AND 255 :: u32) :: byte) = word_of_nat (n mod 256)"
    by (simp add: ucast_and_0xff)
      (use assms in \<open>simp flip: unat_eq_iff add: unat_of_nat n unsigned_ucast_eq take_bit_eq_mod\<close>)
  have "n div 256 < 256" using assms by (simp add: less_mult_imp_div_less)
  then show "(ucast (drop_bit 8 (word_of_nat n :: u32)) :: byte) = word_of_nat (n div 256)"
    by (simp flip: unat_eq_iff add: unat_of_nat n unsigned_ucast_eq unat_drop_bit_eq unat_div
        drop_bit_eq_div take_bit_eq_mod)
qed

lemma unat_word_diff:
  assumes "unat (d :: u32) \<le> n" "n < 2 ^ 32"
  shows "unat (word_of_nat n - d) = n - unat d"
proof -
  have n: "unat (word_of_nat n :: u32) = n" using assms(2) by (simp add: unat_of_nat)
  then have "d \<le> word_of_nat n" using assms(1) by (simp add: word_le_nat_alt)
  then show ?thesis by (simp add: unat_sub n)
qed

lemma block_count:
  fixes n len i :: nat
  assumes "n = (len + 65534) div 65535"
  shows "i < n \<longleftrightarrow> 65535 * i < len"
proof -
  have "i < n \<longleftrightarrow> i + 1 \<le> (len + 65534) div 65535" using assms by auto
  also have "\<dots> \<longleftrightarrow> (i + 1) * 65535 \<le> len + 65534" by (simp add: less_eq_div_iff_mult_less_eq)
  also have "\<dots> \<longleftrightarrow> 65535 * i < len" by auto
  finally show ?thesis .
qed

lemma last_block:
  fixes n len i :: nat
  assumes "n = (len + 65534) div 65535" "i < n"
  shows "i = n - 1 \<longleftrightarrow> len - 65535 * i \<le> 65535"
proof -
  have "i = n - 1 \<longleftrightarrow> \<not> i + 1 < n" using assms(2) by auto
  then show ?thesis
    using block_count [OF assms(1), of "i + 1"] block_count [OF assms(1), of i] assms(2) by auto
qed

lemma deflateNoCompression_stored:
  assumes small: "length data < 2 ^ 32"
  shows "deflateNoCompression out data = out @ stored data"
proof -
  define n where "n = (length data + 65534) div 65535"
  define body where "body = (\<lambda>i (out, datapos :: u32).
          (let BFINAL = (if i = n - 1 then 1 else 0);
               LEN = (if length data - unat datapos < 65535 then word_of_nat (length data) - datapos
                      else 65535) :: u32;
               NLEN = 65535 - LEN;
               firstbyte = BFINAL :: byte in
           (out @ [firstbyte, ucast (LEN AND 255), ucast (drop_bit 8 LEN),
                   ucast (NLEN AND 255), ucast (drop_bit 8 NLEN)] @
              take (unat LEN) (drop (unat datapos) data),
            datapos + LEN)))"
  have step: "body i (out, d) =
      (out @ stored_block (if i = n - 1 then 1 else 0) (take 65535 (drop (unat d) data)),
       d + word_of_nat (min 65535 (length data - unat d)))"
    if "unat d \<le> length data" for i out d
  proof -
    let ?l = "min 65535 (length data - unat d)"
    have L: "(if length data - unat d < 65535 then word_of_nat (length data) - d else 65535) =
        (word_of_nat ?l :: u32)"
      using unat_word_diff [OF that small] small
      by (auto simp flip: unat_eq_iff simp: unat_of_nat)
    have N: "65535 - word_of_nat ?l = (word_of_nat (65535 - ?l) :: u32)"
      by simp
    have u: "unat (word_of_nat ?l :: u32) = ?l" by (simp add: unat_of_nat)
    have t: "take ?l (drop (unat d) data) = take 65535 (drop (unat d) data)"
      by (simp add: min_def)
    show ?thesis
      unfolding body_def split Let_def L N u t stored_block_def
      using len_bytes [of ?l] len_bytes [of "65535 - ?l"] by (simp add: min.commute)
  qed
  have run: "fst (fold body [i ..< n] (out, d)) = out @ stored (drop (65535 * i) data)"
    if "unat d = 65535 * i" "i \<le> n" for i out d
    using that
  proof (induction "n - i" arbitrary: i out d)
    case 0
    then have "\<not> 65535 * i < length data" using block_count [OF n_def, of i] by simp
    then show ?case using 0 by (simp add: stored.simps)
  next
    case (Suc k)
    have i: "i < n" using Suc.hyps(2) by linarith
    then have lt: "65535 * i < length data" using block_count [OF n_def, of i] by simp
    let ?d = "d + word_of_nat (min 65535 (length data - unat d))"
    have d: "unat d \<le> length data" using Suc.prems lt by simp
    have head: "fold body [i ..< n] (out, d) = fold body [i + 1 ..< n] (body i (out, d))"
      using i by (simp add: upt_conv_Cons)
    show ?case
    proof (cases "i = n - 1")
      case True
      then have "length data - 65535 * i \<le> 65535" using last_block [OF n_def i] by simp
      then have st: "stored (drop (65535 * i) data) = stored_block 1 (drop (65535 * i) data)"
        and t: "take 65535 (drop (65535 * i) data) = drop (65535 * i) data"
        using lt by (simp_all add: stored.simps [of "drop (65535 * i) data"])
      have e: "fold body [i + 1 ..< n] x = x" and one: "(if i = n - 1 then 1 else 0) = (1 :: byte)"
        for x using True by simp_all
      show ?thesis
        unfolding head step [OF d] e one Suc.prems(1) st t by simp
    next
      case False
      then have more: "length data - 65535 * i > 65535" using last_block [OF n_def i] by simp
      have m: "min 65535 (length data - unat d) = 65535" using more Suc.prems by simp
      have "unat d + 65535 < 2 ^ 32" using Suc.prems more small by simp
      then have d': "unat ?d = 65535 * (i + 1)"
        unfolding m using Suc.prems by (simp add: unat_word_ariths)
      have "fst (fold body [i + 1 ..< n]
          (out @ stored_block 0 (take 65535 (drop (unat d) data)), ?d)) =
        (out @ stored_block 0 (take 65535 (drop (unat d) data))) @
          stored (drop (65535 * (i + 1)) data)"
        using Suc.hyps(2) i d' by (intro Suc.hyps(1)) simp_all
      then show ?thesis
        using False i more lt Suc.prems
        by (simp add: head step [OF d] stored.simps [of "drop (65535 * i) data"] add.commute)
    qed
  qed
  have "deflateNoCompression out data = fst (fold body [0 ..< n] (out, 0))"
    unfolding deflateNoCompression_def body_def n_def Let_def by (rule refl)
  then show ?thesis using run [of 0 0 out] by simp
qed

subsection \<open>Reading stored blocks back\<close>

lemma nth_block:
  assumes "i < length ys"
  shows "(pre @ ys @ rest) ! (length pre + i) = ys ! i"
  using assms by (simp add: nth_append)

lemma inflateNoCompression_block:
  assumes r: "rd_size r = length (rd_data r)"
      "rd_data r = pre @ stored_block b xs @ rest" "rd_bp r = 8 * length pre + 3"
    and xs: "length xs \<le> 65535" "xs \<noteq> []"
  shows "inflateNoCompression out r settings =
    Inr (out @ xs, r\<lparr>rd_bp := 8 * length (pre @ stored_block b xs)\<rparr>)"
proof -
  let ?d = "rd_data r" and ?k = "length pre"
  have bytepos: "(rd_bp r + 7) div 8 = ?k + 1" by (simp add: r(3))
  have n: "?d ! (?k + i) = stored_block b xs ! i" if "i < 5" for i
    unfolding r(2) by (rule nth_block) (use that in \<open>simp add: stored_block_def\<close>)
  have u: "unat (word_of_nat (m mod 256) :: byte) = m mod 256" for m
    by (simp add: unat_of_nat)
  have u': "m \<le> 65535 \<Longrightarrow> unat (word_of_nat (m div 256) :: byte) = m div 256" for m
    by (simp add: unat_of_nat less_mult_imp_div_less)
  have LEN: "unat (?d ! (?k + 1)) + 256 * unat (?d ! (?k + 2)) = length xs"
    using n [of 1] n [of 2] u [of "length xs"] u' [of "length xs"] xs(1)
    by (simp add: stored_block_def)
  have NLEN: "unat (?d ! (?k + 3)) + 256 * unat (?d ! (?k + 4)) = 65535 - length xs"
    using n [of 3] n [of 4] u [of "65535 - length xs"] u' [of "65535 - length xs"]
    by (simp add: stored_block_def)
  have sz: "length ?d = ?k + 5 + length xs + length rest"
    by (simp add: r(2) stored_block_def)
  have t: "take (length xs) (drop (?k + 5) ?d) = xs"
    by (simp add: r(2) stored_block_def)
  have c: "?k + 1 + 1 = ?k + 2" "?k + 1 + 2 = ?k + 3" "?k + 1 + 2 + 1 = ?k + 4"
    "?k + 1 + 2 + 2 = ?k + 5" "?k + 3 + 1 = ?k + 4" "?k + 3 + 2 = ?k + 5" by simp_all
  have len: "8 * length (pre @ stored_block b xs) = (?k + 5 + length xs) * 8"
    by (simp add: stored_block_def)
  have "0 < length xs" using xs(2) by simp
  then show ?thesis
    unfolding inflateNoCompression_def Let_def bytepos r(1) c LEN NLEN t len
    using xs(1) by (simp add: sz)
qed

lemma inflate_stored_blocks:
  assumes "rd_ok r" "rd_data r = pre @ stored data @ rest" "rd_bp r = 8 * length pre"
    and "data \<noteq> []" "max_output_size settings = 0"
  shows "inflate_blocks settings out r = Some (Inr (out @ data))"
  using assms
proof (induction data arbitrary: pre r out rule: stored.induct)
  case (1 data)
  define lastb where "lastb \<longleftrightarrow> length data \<le> 65535"
  define b :: byte where "b = (if lastb then 1 else 0)"
  let ?xs = "take 65535 data" and ?rest = "(if lastb then [] else stored (drop 65535 data)) @ rest"
  have data: "rd_data r = pre @ stored_block b ?xs @ ?rest"
    using 1(3,5) by (simp add: stored.simps [of data] lastb_def b_def)
  let ?e = "ensureBits9 r 3"
  let ?r = "advanceBits (advanceBits (snd ?e) 1) 2"
  have l3: "(3 :: nat) \<le> 9" by simp
  note kept = la9.kept [OF 1(2) l3]
  have size: "rd_bitsize r = 8 * length (rd_data r)" using 1(2) by (simp add: rd_ok_def)
  have ok: "fst ?e" using la9.answer [OF 1(2) l3] 1(4) by (simp add: size data stored_block_def)
  have holds: "holds_bits (snd ?e) 3" by (rule la9.ahead [OF 1(2) l3])
  have bits: "sbit (rd_data r) (8 * length pre + i) \<longleftrightarrow> bit b i" if "i < 8" for i
    using that by (simp add: data sbit_append stored_block_def) (simp add: sbit_def)
  have "unat (fst (readBits (snd ?e) 1)) = bits_val [bit b 0]"
    using readBits_val [OF holds, of 1] bits [of 0] 1(4) by (simp add: kept sbits_def)
  then have BFINAL: "fst (readBits (snd ?e) 1) \<noteq> 0 \<longleftrightarrow> lastb"
    by (auto simp: b_def bit_1_iff simp flip: unat_eq_iff)
  have "unat (fst (readBits (advanceBits (snd ?e) 1) 2)) = bits_val [bit b 1, bit b 2]"
    using readBits_val [OF advanceBits_holds [OF holds, of 1], of 2] bits [of 1] bits [of 2] 1(4)
    by (simp add: kept sbits_def upt_conv_Cons)
  then have BTYPE: "fst (readBits (advanceBits (snd ?e) 1) 2) = 0"
    by (simp add: b_def bit_1_iff flip: unat_eq_iff)
  have block: "inflateNoCompression out ?r settings =
      Inr (out @ ?xs, ?r\<lparr>rd_bp := 8 * length (pre @ stored_block b ?xs)\<rparr>)" (is "_ = Inr (_, ?r')")
    by (rule inflateNoCompression_block [where rest = ?rest])
      (use 1(2,4,5) data in \<open>simp_all add: kept rd_ok_def\<close>)
  have "inflate_blocks settings out r =
      (if lastb then Some (Inr (out @ ?xs)) else inflate_blocks settings (out @ ?xs) ?r')"
    using ok BFINAL BTYPE block 1(6)
    by (subst inflate_blocks.simps) (simp add: split_beta Let_def del: One_nat_def)
  also have "\<dots> = Some (Inr (out @ data))"
  proof (cases lastb)
    case True
    then show ?thesis by (simp add: lastb_def)
  next
    case False
    then have "inflate_blocks settings (out @ ?xs) ?r' =
        Some (Inr ((out @ ?xs) @ drop 65535 data))"
      using 1(2,5,6) data
      by (intro 1(1) [where pre = "pre @ stored_block b ?xs"])
        (simp_all add: lastb_def rd_ok_def kept)
    then show ?thesis using False by simp
  qed
  finally show ?case .
qed

text \<open>
  Data that is not empty and is written as stored blocks, of 65535 bytes and a rest, is decompressed
  to itself after what the output already held, whatever bytes follow.
\<close>

theorem stored_roundtrip:
  assumes "data \<noteq> []" "length data < 2 ^ 32" "max_output_size settings = 0"
    and "8 * length (deflateNoCompression [] data @ rest) + 64 < 2 ^ 64"
  shows "lodepng_inflatev out (deflateNoCompression [] data @ rest) settings =
    Some (Inr (out @ data))"
proof -
  let ?in = "deflateNoCompression [] data @ rest"
  have i: "?in = [] @ stored data @ rest" by (simp add: deflateNoCompression_stored [OF assms(2)])
  show ?thesis
    unfolding lodepng_inflatev_def LodePNGBitReader_init_ok [OF assms(4)]
    using inflate_stored_blocks [OF _ _ _ assms(1,3), where pre = "[]" and rest = rest
        and r = "\<lparr>rd_data = ?in, rd_size = length ?in, rd_bitsize = 8 * length ?in, rd_bp = 0,
          rd_buffer = 0\<rparr>"] i
    by (simp add: rd_ok_def)
qed

lemma stored_roundtrip_witness:
  "lodepng_inflatev [9] (deflateNoCompression [] [1, 2, 3] @ [7]) lodepng_decompress_settings_init =
     Some (Inr [9, 1, 2, 3])"
proof -
  have "deflateNoCompression [] [1, 2, 3] = stored [1, 2, 3]"
    by (simp add: deflateNoCompression_stored)
  then have "length (deflateNoCompression [] [1, 2, 3]) = 8"
    by (simp add: stored.simps stored_block_def)
  then show ?thesis
    using stored_roundtrip [of "[1, 2, 3]" lodepng_decompress_settings_init "[7]" "[9]"]
    by (simp add: lodepng_decompress_settings_init_def)
qed

text \<open>
  Of no data nothing is written, not even an empty final block, and that does not decompress.
\<close>

theorem stored_empty_fails:
  "lodepng_inflatev out (deflateNoCompression [] []) settings = Some (Inl (52, length out))"
proof -
  have "deflateNoCompression [] [] = []" by (simp add: deflateNoCompression_stored stored.simps)
  moreover have "LodePNGBitReader_init [] =
      Inr \<lparr>rd_data = [], rd_size = 0, rd_bitsize = 0, rd_bp = 0, rd_buffer = 0\<rparr>"
    using LodePNGBitReader_init_ok [of "[]"] by simp
  ultimately show ?thesis
    by (simp add: lodepng_inflatev_def inflate_blocks.simps ensureBits9_def)
qed

end
