(* ===== verification/Png_Checksum.thy ===== *)
theory Png_Checksum
  imports Png_Base
begin

unbundle bit_operations_syntax

text \<open>
  The two checksums of \<open>lodepng.cpp\<close>: the table-driven CRC-32 of PNG chunks and the Adler-32 of zlib
  streams. The table is shown to hold what the bitwise division by the CRC polynomial gives, so the
  table-driven loop computes that division; the Adler sums, which the code reduces only once per
  5552 bytes, are shown not to overflow and to be the sums modulo 65521.
\<close>

section \<open>CRC-32\<close>

definition lodepng_crc32_table :: "u32 list" where
  "lodepng_crc32_table =
    [0, 1996959894, 3993919788, 2567524794, 124634137, 1886057615, 3915621685, 2657392035,
     249268274, 2044508324, 3772115230, 2547177864, 162941995, 2125561021, 3887607047, 2428444049,
     498536548, 1789927666, 4089016648, 2227061214, 450548861, 1843258603, 4107580753, 2211677639,
     325883990, 1684777152, 4251122042, 2321926636, 335633487, 1661365465, 4195302755, 2366115317,
     997073096, 1281953886, 3579855332, 2724688242, 1006888145, 1258607687, 3524101629, 2768942443,
     901097722, 1119000684, 3686517206, 2898065728, 853044451, 1172266101, 3705015759, 2882616665,
     651767980, 1373503546, 3369554304, 3218104598, 565507253, 1454621731, 3485111705, 3099436303,
     671266974, 1594198024, 3322730930, 2970347812, 795835527, 1483230225, 3244367275, 3060149565,
     1994146192, 31158534, 2563907772, 4023717930, 1907459465, 112637215, 2680153253, 3904427059,
     2013776290, 251722036, 2517215374, 3775830040, 2137656763, 141376813, 2439277719, 3865271297,
     1802195444, 476864866, 2238001368, 4066508878, 1812370925, 453092731, 2181625025, 4111451223,
     1706088902, 314042704, 2344532202, 4240017532, 1658658271, 366619977, 2362670323, 4224994405,
     1303535960, 984961486, 2747007092, 3569037538, 1256170817, 1037604311, 2765210733, 3554079995,
     1131014506, 879679996, 2909243462, 3663771856, 1141124467, 855842277, 2852801631, 3708648649,
     1342533948, 654459306, 3188396048, 3373015174, 1466479909, 544179635, 3110523913, 3462522015,
     1591671054, 702138776, 2966460450, 3352799412, 1504918807, 783551873, 3082640443, 3233442989,
     3988292384, 2596254646, 62317068, 1957810842, 3939845945, 2647816111, 81470997, 1943803523,
     3814918930, 2489596804, 225274430, 2053790376, 3826175755, 2466906013, 167816743, 2097651377,
     4027552580, 2265490386, 503444072, 1762050814, 4150417245, 2154129355, 426522225, 1852507879,
     4275313526, 2312317920, 282753626, 1742555852, 4189708143, 2394877945, 397917763, 1622183637,
     3604390888, 2714866558, 953729732, 1340076626, 3518719985, 2797360999, 1068828381, 1219638859,
     3624741850, 2936675148, 906185462, 1090812512, 3747672003, 2825379669, 829329135, 1181335161,
     3412177804, 3160834842, 628085408, 1382605366, 3423369109, 3138078467, 570562233, 1426400815,
     3317316542, 2998733608, 733239954, 1555261956, 3268935591, 3050360625, 752459403, 1541320221,
     2607071920, 3965973030, 1969922972, 40735498, 2617837225, 3943577151, 1913087877, 83908371,
     2512341634, 3803740692, 2075208622, 213261112, 2463272603, 3855990285, 2094854071, 198958881,
     2262029012, 4057260610, 1759359992, 534414190, 2176718541, 4139329115, 1873836001, 414664567,
     2282248934, 4279200368, 1711684554, 285281116, 2405801727, 4167216745, 1634467795, 376229701,
     2685067896, 3608007406, 1308918612, 956543938, 2808555105, 3495958263, 1231636301, 1047427035,
     2932959818, 3654703836, 1088359270, 936918000, 2847714899, 3736837829, 1202900863, 817233897,
     3183342108, 3401237130, 1404277552, 615818150, 3134207493, 3453421203, 1423857449, 601450431,
     3009837614, 3294710456, 1567103746, 711928724, 3020668471, 3272380065, 1510334235, 755167117]"

definition crc32_step :: "u32 \<Rightarrow> byte \<Rightarrow> u32" where
  "crc32_step r d =
     lodepng_crc32_table ! unat ((r XOR ucast d) AND 0xff) XOR drop_bit 8 r"

definition lodepng_crc32 :: "bytes \<Rightarrow> u32" where
  "lodepng_crc32 data = fold (\<lambda>d r. crc32_step r d) data 0xffffffff XOR 0xffffffff"

text \<open>The division, one bit at a time, with the bits of a byte from the least significant end.\<close>

definition crc_bit :: "u32 \<Rightarrow> u32" where
  "crc_bit r = (if bit r 0 then drop_bit 1 r XOR 0xedb88320 else drop_bit 1 r)"

definition crc_byte :: "u32 \<Rightarrow> byte \<Rightarrow> u32" where
  "crc_byte r d = (crc_bit ^^ 8) (r XOR ucast d)"

text \<open>Division is linear, and shifts as long as no bit falls off the end.\<close>

abbreviation crc_bits :: "u32 \<Rightarrow> u32" where
  "crc_bits \<equiv> crc_bit ^^ 8"

lemma crc_bit_xor: "crc_bit (a XOR b) = crc_bit a XOR crc_bit b"
  by (rule bit_word_eqI) (auto simp: crc_bit_def bit_xor_iff bit_drop_bit_eq)

lemma crc_bits_xor: "(crc_bit ^^ n) (a XOR b) = (crc_bit ^^ n) a XOR (crc_bit ^^ n) b"
  by (induction n) (simp_all add: crc_bit_xor)

lemma crc_bits_shift: "\<forall>i < n. \<not> bit y i \<Longrightarrow> (crc_bit ^^ n) y = drop_bit n y"
proof (induction n)
  case (Suc n)
  then have "(crc_bit ^^ n) y = drop_bit n y" by simp
  moreover have "\<not> bit (drop_bit n y) 0" using Suc.prems by (simp add: bit_drop_bit_eq)
  moreover have "crc_bit x = drop_bit 1 x" if "\<not> bit x 0" for x
    using that by (simp add: crc_bit_def)
  ultimately show ?case by simp
qed simp

text \<open>
  The table is built by doubling: the second half of the next table is the first half, each entry
  combined with the remainder of the new bit.
\<close>

fun crc_table :: "nat \<Rightarrow> u32 list" where
  "crc_table 0 = [0]"
| "crc_table (Suc k) = crc_table k @ map (\<lambda>x. x XOR crc_bits (2 ^ k)) (crc_table k)"

lemma length_crc_table [simp]: "length (crc_table k) = 2 ^ k"
  by (induction k) simp_all

lemma crc_bits_0: "(crc_bit ^^ n) 0 = 0"
  by (induction n) (simp_all add: crc_bit_def)

lemma xor_high_bit:
  assumes "i < 2 ^ k"
  shows "(word_of_nat (i + 2 ^ k) :: u32) = word_of_nat i XOR 2 ^ k"
proof -
  have i: "take_bit k i = i" using assms by (simp add: take_bit_nat_eq_self_iff)
  have "\<not> bit i k"
    by (metis i bit_take_bit_iff less_irrefl)
  then have "i AND 2 ^ k = 0"
    by (auto intro!: bit_eqI simp: bit_and_iff bit_exp_iff)
  then have "i + 2 ^ k = i XOR 2 ^ k" by (rule disjunctive_add_eq_xor)
  then have "(word_of_nat (i + 2 ^ k) :: u32) = word_of_nat (i XOR 2 ^ k)" by (rule arg_cong)
  then show ?thesis by (simp only: of_nat_xor_eq of_nat_power of_nat_numeral)
qed

lemma nth_crc_table: "i < 2 ^ k \<Longrightarrow> crc_table k ! i = crc_bits (word_of_nat i)"
proof (induction k arbitrary: i)
  case 0
  then show ?case by (simp add: crc_bits_0)
next
  case (Suc k)
  show ?case
  proof (cases "i < 2 ^ k")
    case True
    then show ?thesis by (simp add: nth_append Suc.IH)
  next
    case False
    define j where "j = i - 2 ^ k"
    have j: "j < 2 ^ k" "i = j + 2 ^ k" using False Suc.prems by (simp_all add: j_def)
    then show ?thesis using Suc.IH [OF j(1)] by (simp add: nth_append xor_high_bit crc_bits_xor del: of_nat_add)
  qed
qed

lemma crc_table_eq: "lodepng_crc32_table = crc_table 8"
proof -
  have n: "(8 :: nat) = Suc (Suc (Suc (Suc (Suc (Suc (Suc (Suc 0)))))))" by simp
  have b: "crc_bits 1 = 1996959894" "crc_bits 2 = 3993919788" "crc_bits 4 = 124634137"
    "crc_bits 8 = 249268274" "crc_bits 16 = 498536548" "crc_bits 32 = 997073096"
    "crc_bits 64 = 1994146192" "crc_bits 128 = 3988292384"
    unfolding n by (simp_all add: crc_bit_def)
  have "crc_table (Suc (Suc (Suc (Suc (Suc (Suc (Suc (Suc 0)))))))) = lodepng_crc32_table"
    unfolding crc_table.simps by (simp add: b lodepng_crc32_table_def)
  then show ?thesis by (simp only: n)
qed

lemma unat_and_ff: "unat (x AND 0xff :: u32) < 2 ^ 8"
proof -
  have "(0xff :: u32) = mask 8" by (simp add: mask_eq_exp_minus_1)
  then have "x AND 0xff = take_bit 8 x" by (simp only: take_bit_eq_mask)
  then show ?thesis by (simp only: unsigned_take_bit_eq take_bit_nat_less_exp)
qed

lemma crc32_step_division: "crc32_step r d = crc_byte r d"
proof -
  let ?x = "r XOR ucast d"
  have ff: "(0xff :: u32) = mask 8" by (simp add: mask_eq_exp_minus_1)
  note low = unat_and_ff [of ?x]
  have "?x = (?x AND 0xff) XOR push_bit 8 (drop_bit 8 ?x)"
    unfolding ff by (rule bit_word_eqI)
      (simp add: bit_xor_iff bit_and_iff bit_mask_iff bit_push_bit_iff bit_drop_bit_eq, auto,
        metis le_add_diff_inverse not_less)
  then have "crc_bits ?x = crc_bits (?x AND 0xff) XOR crc_bits (push_bit 8 (drop_bit 8 ?x))"
    by (metis crc_bits_xor)
  also have "crc_bits (push_bit 8 (drop_bit 8 ?x)) = drop_bit 8 (push_bit 8 (drop_bit 8 ?x))"
    by (rule crc_bits_shift) (simp add: bit_push_bit_iff bit_xor_iff)
  also have "\<dots> = drop_bit 8 r"
    by (rule bit_word_eqI)
      (auto simp: bit_drop_bit_eq bit_push_bit_iff bit_xor_iff bit_ucast_iff dest: bit_imp_le_length)
  also have "crc_bits (?x AND 0xff) = lodepng_crc32_table ! unat (?x AND 0xff)"
    using nth_crc_table [OF low] by (simp add: crc_table_eq)
  finally show ?thesis by (simp add: crc32_step_def crc_byte_def)
qed

text \<open>C38: 
  The CRC that the code computes with the table of 256 entries is the bit by bit division by the
  polynomial \<open>0xedb88320\<close>, for all data: no entry of the table is wrong.
\<close>

theorem lodepng_crc32_division:
  "lodepng_crc32 data = fold (\<lambda>d r. crc_byte r d) data 0xffffffff XOR 0xffffffff"
  by (simp add: lodepng_crc32_def crc32_step_division)

section \<open>Adler-32\<close>

function update_adler32_loop :: "u32 \<Rightarrow> u32 \<Rightarrow> bytes \<Rightarrow> u32 \<times> u32" where
  "update_adler32_loop s1 s2 data =
     (if length data \<noteq> 0 then
        (let amount = (if length data > 5552 then 5552 else length data);
             (s1, s2) = fold (\<lambda>d (s1, s2). (let s1 = s1 + ucast d in (s1, s2 + s1)))
               (take amount data) (s1, s2) in
         update_adler32_loop (s1 mod 65521) (s2 mod 65521) (drop amount data))
      else (s1, s2))"
  by pat_completeness auto
termination
  by (relation "measure (\<lambda>(s1, s2, data). length data)") auto

declare update_adler32_loop.simps [simp del]

definition update_adler32 :: "u32 \<Rightarrow> bytes \<Rightarrow> u32" where
  "update_adler32 adler data =
     (let s1 = adler AND 0xffff; s2 = drop_bit 16 adler AND 0xffff;
          (s1, s2) = update_adler32_loop s1 s2 data in
      push_bit 16 s2 OR s1)"

definition adler32 :: "bytes \<Rightarrow> u32" where
  "adler32 data = update_adler32 1 data"

text \<open>The sums, reduced after every byte.\<close>

definition adler_step :: "byte \<Rightarrow> nat \<times> nat \<Rightarrow> nat \<times> nat" where
  "adler_step d s = (case s of (a, b) \<Rightarrow>
     (let a = (a + unat d) mod 65521 in (a, (b + a) mod 65521)))"

text \<open>Without reduction: the bounds on the sums after \<open>n\<close> bytes, and their values.\<close>

definition raw_step :: "byte \<Rightarrow> nat \<times> nat \<Rightarrow> nat \<times> nat" where
  "raw_step d s = (case s of (a, b) \<Rightarrow> (a + unat d, b + (a + unat d)))"

lemma raw_step_pair [simp]: "raw_step d (a, b) = (a + unat d, b + (a + unat d))"
  by (simp add: raw_step_def)

lemma raw_bounds:
  "fst (fold raw_step data (a, b)) \<le> a + 255 * length data"
  "2 * snd (fold raw_step data (a, b)) \<le>
     2 * b + 2 * a * length data + 255 * length data * (length data + 1)"
proof (induction data arbitrary: a b)
  case (Cons d data)
  have "unat d < 2 ^ LENGTH(8)" by (rule unsigned_less)
  then have d: "unat d \<le> 255" by simp
  {
    case 1
    show ?case using Cons.IH(1) [of "a + unat d" "b + (a + unat d)"] d by simp
  next
    case 2
    let ?n = "length data"
    have "2 * snd (fold raw_step data (a + unat d, b + (a + unat d))) \<le>
        2 * (b + (a + unat d)) + 2 * (a + unat d) * ?n + 255 * ?n * (?n + 1)"
      by (rule Cons.IH(2))
    also have "\<dots> \<le> 2 * (b + (a + 255)) + 2 * (a + 255) * ?n + 255 * ?n * (?n + 1)"
      using d by (intro add_mono mult_mono) simp_all
    also have "\<dots> = 2 * b + 2 * a * (?n + 1) + 255 * (?n + 1) * (?n + 2)"
      by (simp add: algebra_simps)
    finally show ?case by simp
  }
qed simp_all

lemma raw_bounds_word:
  assumes "a \<le> 65520" "b \<le> 65520" "length data \<le> 5552"
  shows "fst (fold raw_step data (a, b)) < 2 ^ 32" "snd (fold raw_step data (a, b)) < 2 ^ 32"
proof -
  let ?n = "length data"
  have "2 * a * ?n \<le> 2 * 65520 * 5552" using assms by (intro mult_mono) simp_all
  moreover have "255 * ?n * (?n + 1) \<le> 255 * 5552 * 5553" using assms by (intro mult_mono) simp_all
  ultimately have "2 * snd (fold raw_step data (a, b)) \<le>
      2 * 65520 + 2 * 65520 * 5552 + 255 * 5552 * 5553"
    using raw_bounds(2) [of data a b] assms(2) by linarith
  then show "snd (fold raw_step data (a, b)) < 2 ^ 32" by simp
  show "fst (fold raw_step data (a, b)) < 2 ^ 32"
    using raw_bounds(1) [of data a b] assms by simp
qed

lemma raw_word:
  "fold (\<lambda>d (s1, s2). (let s1 = s1 + ucast d in (s1, s2 + s1))) data
      (word_of_nat a, word_of_nat b) =
    (word_of_nat (fst (fold raw_step data (a, b))) :: u32,
     word_of_nat (snd (fold raw_step data (a, b))))"
proof (induction data arbitrary: a b)
  case (Cons d data)
  have "(ucast d :: u32) = word_of_nat (unat d)" by simp
  then show ?case
    using Cons.IH [of "a + unat d" "b + (a + unat d)"]
    by (simp add: Let_def)
qed simp

lemma raw_mod:
  "fold adler_step data (a mod 65521, b mod 65521) =
    (fst (fold raw_step data (a, b)) mod 65521, snd (fold raw_step data (a, b)) mod 65521)"
proof (induction data arbitrary: a b)
  case (Cons d data)
  have "adler_step d (a mod 65521, b mod 65521) =
      ((a + unat d) mod 65521, (b + (a + unat d)) mod 65521)"
    unfolding adler_step_def Let_def split mod_add_left_eq [of a] mod_add_eq by (rule refl)
  then show ?case
    using Cons.IH [of "a + unat d" "b + (a + unat d)"]
    by simp
qed simp

lemma update_adler32_loop_sums:
  assumes "a \<le> 65520" "b \<le> 65520"
  shows "update_adler32_loop (word_of_nat a) (word_of_nat b) data =
    (word_of_nat (fst (fold adler_step data (a, b))), word_of_nat (snd (fold adler_step data (a, b))))"
  using assms
proof (induction "length data" arbitrary: a b data rule: less_induct)
  case less
  show ?case
  proof (cases "data = []")
    case True
    then show ?thesis by (simp add: update_adler32_loop.simps)
  next
    case False
    let ?n = "if length data > 5552 then 5552 else length data"
    let ?xs = "take ?n data" and ?ys = "drop ?n data"
    let ?a = "fst (fold raw_step ?xs (a, b))" and ?b = "snd (fold raw_step ?xs (a, b))"
    have bound: "?a < 2 ^ 32" "?b < 2 ^ 32"
      using raw_bounds_word [OF less.prems, of ?xs] by simp_all
    have m: "word_of_nat x mod 65521 = (word_of_nat (x mod 65521) :: u32)" if "x < 2 ^ 32" for x
      using that by (simp add: unat_of_nat unat_mod flip: unat_eq_iff)
    have "update_adler32_loop (word_of_nat a) (word_of_nat b) data =
        update_adler32_loop (word_of_nat (?a mod 65521)) (word_of_nat (?b mod 65521)) ?ys"
      using False raw_word [of ?xs a b]
      by (subst update_adler32_loop.simps) (simp add: Let_def split_beta m [OF bound(1)] m [OF bound(2)])
    also have "\<dots> =
        (word_of_nat (fst (fold adler_step ?ys (?a mod 65521, ?b mod 65521))),
         word_of_nat (snd (fold adler_step ?ys (?a mod 65521, ?b mod 65521))))"
      using False by (intro less.hyps) (auto simp: less_Suc_eq_le [symmetric])
    also have "fold adler_step ?ys (?a mod 65521, ?b mod 65521) = fold adler_step data (a, b)"
    proof -
      have "fold adler_step ?xs (a, b) = (?a mod 65521, ?b mod 65521)"
        using raw_mod [of ?xs a b] less.prems by simp
      then show ?thesis
        by (metis append_take_drop_id comp_apply fold_append)
    qed
    finally show ?thesis .
  qed
qed

text \<open>
  Adler-32 is the two sums modulo 65521, reduced after every byte, although the code reduces its
  32-bit sums only after 5552 bytes: they do not overflow in between.
\<close>

theorem adler32_sums:
  "adler32 data = word_of_nat (snd (fold adler_step data (1, 0)) * 65536 +
     fst (fold adler_step data (1, 0)))"
proof -
  let ?s = "fold adler_step data (1, 0)"
  have "fst (fold adler_step data (a, b)) < 65521 \<and> snd (fold adler_step data (a, b)) < 65521"
    if "a < 65521" "b < 65521" for a b
    using that
    by (induction data arbitrary: a b) (auto simp: adler_step_def Let_def)
  from this [of 1 0] have s: "fst ?s < 2 ^ 16" "snd ?s < 2 ^ 16" by simp_all
  have "update_adler32_loop 1 0 data = (word_of_nat (fst ?s), word_of_nat (snd ?s))"
    using update_adler32_loop_sums [of 1 0 data] by simp
  then have "adler32 data = push_bit 16 (word_of_nat (snd ?s)) OR word_of_nat (fst ?s)"
    by (simp add: adler32_def update_adler32_def)
  also have "\<dots> = push_bit 16 (word_of_nat (snd ?s)) + word_of_nat (fst ?s)"
  proof (rule disjunctive_add_eq_or [symmetric])
    have "take_bit 16 (fst ?s) = fst ?s" using s(1) by (simp add: take_bit_nat_eq_self_iff)
    then have "bit (fst ?s) n \<Longrightarrow> n < 16" for n by (metis bit_take_bit_iff)
    then have low: "16 \<le> n \<Longrightarrow> \<not> bit (fst ?s) n" for n using linorder_not_less by blast
    then show "push_bit 16 (word_of_nat (snd ?s)) AND word_of_nat (fst ?s) = (0 :: u32)"
      by (auto intro!: bit_word_eqI simp: bit_and_iff bit_push_bit_iff bit_of_nat_iff low
          simp del: One_nat_def)
  qed
  also have "\<dots> = word_of_nat (snd ?s * 65536 + fst ?s)"
    by (simp add: push_bit_eq_mult mult.commute)
  finally show ?thesis .
qed

end
