(* ===== verification/Png_Compress.thy ===== *)
theory Png_Compress
  imports Png_Lz77 Png_Checksum
begin

unbundle bit_operations_syntax

text \<open>
  The compressor of \<open>lodepng.cpp\<close>: code lengths by boundary package-merge, writing symbols with given
  trees, the blocks with fixed and with dynamic trees, the loop over the blocks, and the zlib
  container. A list of nodes replaces the pool of \<open>BPMLists\<close>, which only manages their memory.
  Weights are integers: their sums stay below \<open>2 ^ 31\<close> for the at most \<open>262144\<close> symbols of a block.
\<close>

section \<open>Code lengths\<close>

datatype BPMNode = BPMNode (node_weight: int) (node_index: nat) (node_tail: "BPMNode option")

text \<open>Sorting the leaves: merging runs of \<open>width\<close> elements until there is only one.\<close>

fun merge_runs :: "BPMNode list \<Rightarrow> BPMNode list \<Rightarrow> BPMNode list" where
  "merge_runs [] bs = bs"
| "merge_runs as [] = as"
| "merge_runs (a # as) (b # bs) =
     (if node_weight a \<le> node_weight b then a # merge_runs as (b # bs) else b # merge_runs (a # as) bs)"

function merge_pass :: "nat \<Rightarrow> BPMNode list \<Rightarrow> BPMNode list" where
  "merge_pass width xs =
     (if xs = [] \<or> width = 0 then xs
      else merge_runs (take width xs) (take width (drop width xs)) @ merge_pass width (drop (2 * width) xs))"
  by pat_completeness auto
termination
  by (relation "measure (\<lambda>(width, xs). length xs)") auto

declare merge_pass.simps [simp del]

function bpm_sort_loop :: "nat \<Rightarrow> BPMNode list \<Rightarrow> BPMNode list" where
  "bpm_sort_loop width leaves =
     (if 0 < width \<and> width < length leaves then bpm_sort_loop (width * 2) (merge_pass width leaves)
      else leaves)"
  by pat_completeness auto

lemma length_merge_runs [simp]: "length (merge_runs as bs) = length as + length bs"
  by (induction as bs rule: merge_runs.induct) auto

lemma length_merge_pass [simp]: "length (merge_pass width xs) = length xs"
proof (induction width xs rule: merge_pass.induct)
  case (1 width xs)
  then show ?case by (subst merge_pass.simps) auto
qed

termination bpm_sort_loop
  by (relation "measure (\<lambda>(width, xs). length xs - width)") auto

declare bpm_sort_loop.simps [simp del]

definition bpmnode_sort :: "BPMNode list \<Rightarrow> BPMNode list" where
  "bpmnode_sort leaves = bpm_sort_loop 1 leaves"

text \<open>
  One step for list \<open>c\<close>: the two lookahead chains of every list are in \<open>chains0\<close> and \<open>chains1\<close>.
\<close>

type_synonym chains = "BPMNode list \<times> BPMNode list"

fun boundaryPM :: "BPMNode list \<Rightarrow> nat \<Rightarrow> nat \<Rightarrow> chains \<Rightarrow> chains" where
  "boundaryPM leaves 0 num (chains0, chains1) =
     (let lastindex = node_index (chains1 ! 0) in
      if lastindex \<ge> length leaves then (chains0, chains1)
      else (chains0[0 := chains1 ! 0],
            chains1[0 := BPMNode (node_weight (leaves ! lastindex)) (lastindex + 1) None]))"
| "boundaryPM leaves (Suc c) num (chains0, chains1) =
     (let lastindex = node_index (chains1 ! Suc c);
          sum = node_weight (chains0 ! c) + node_weight (chains1 ! c);
          chains0' = chains0[Suc c := chains1 ! Suc c] in
      if lastindex < length leaves \<and> sum > node_weight (leaves ! lastindex) then
        (chains0', chains1[Suc c := BPMNode (node_weight (leaves ! lastindex)) (lastindex + 1)
                                     (node_tail (chains1 ! Suc c))])
      else
        (let chains1' = chains1[Suc c := BPMNode sum lastindex (Some (chains1 ! c))] in
         if num + 1 < 2 * length leaves - 2
         then boundaryPM leaves c num (boundaryPM leaves c num (chains0', chains1'))
         else (chains0', chains1')))"

text \<open>The lengths: every node of the last chain counts its first \<open>index\<close> leaves.\<close>

primrec count_node :: "BPMNode list \<Rightarrow> nat \<Rightarrow> nat list \<Rightarrow> nat list" where
  "count_node leaves 0 ls = ls"
| "count_node leaves (Suc i) ls =
     (let ls = count_node leaves i ls; s = node_index (leaves ! i) in ls[s := ls ! s + 1])"

fun count_chain :: "BPMNode list \<Rightarrow> BPMNode \<Rightarrow> nat list \<Rightarrow> nat list" where
  "count_chain leaves (BPMNode w index rest) ls =
     (let ls = count_node leaves index ls in
      (case rest of None \<Rightarrow> ls | Some node \<Rightarrow> count_chain leaves node ls))"

definition package_merge :: "BPMNode list \<Rightarrow> nat \<Rightarrow> BPMNode" where
  "package_merge leaves maxlen =
     (let first = BPMNode (node_weight (leaves ! 0)) 1 None;
          second = BPMNode (node_weight (leaves ! 1)) 2 None;
          (chains0, chains1) =
            fold (\<lambda>i. boundaryPM leaves (maxlen - 1) i) [2 ..< 2 * length leaves - 2]
              (replicate maxlen first, replicate maxlen second) in
      chains1 ! (maxlen - 1))"

definition lodepng_huffman_code_lengths :: "nat list \<Rightarrow> nat \<Rightarrow> nat \<Rightarrow> nat list png" where
  "lodepng_huffman_code_lengths frequencies n maxlen =
     (if n = 0 then Inl 80
      else if 2 ^ maxlen < n then Inl 80
      else
        (let leaves = map (\<lambda>i. BPMNode (int (frequencies ! i)) i None)
                        (filter (\<lambda>i. frequencies ! i > 0) [0 ..< n]);
             numpresent = length leaves;
             ls = replicate n 0 in
         if numpresent = 0 then Inr (ls[0 := 1, 1 := 1])
         else if numpresent = 1 then
           (let s = node_index (leaves ! 0) in
            Inr (ls[s := 1, (if s = 0 then 1 else 0) := 1]))
         else
           (let leaves = bpmnode_sort leaves in
            Inr (count_chain leaves (package_merge leaves maxlen) ls))))"

function trim_zeros :: "nat list \<Rightarrow> nat \<Rightarrow> nat \<Rightarrow> nat" where
  "trim_zeros frequencies mincodes n =
     (if frequencies ! (n - 1) = 0 \<and> n > mincodes
      then trim_zeros frequencies mincodes (n - 1) else n)"
  by pat_completeness auto
termination
  by (relation "measure (\<lambda>(f, m, n). n)") auto

declare trim_zeros.simps [simp del]

definition HuffmanTree_makeFromFrequencies ::
  "HuffmanTree \<Rightarrow> nat list \<Rightarrow> nat \<Rightarrow> nat \<Rightarrow> nat \<Rightarrow> HuffmanTree png" where
  "HuffmanTree_makeFromFrequencies tree frequencies mincodes n maxlen =
     (let n = trim_zeros frequencies mincodes n;
          tree = tree\<lparr>maxbitlen := maxlen, numcodes := n\<rparr> in
      case lodepng_huffman_code_lengths frequencies n maxlen of
        Inl e \<Rightarrow> Inl e
      | Inr ls \<Rightarrow> HuffmanTree_makeFromLengths2 (tree\<lparr>lengths := ls\<rparr>))"

section \<open>Settings\<close>

record LodePNGCompressSettings =
  btype :: nat
  use_lz77 :: bool
  windowsize :: nat
  minmatch :: nat
  nicematch :: nat
  lazymatching :: bool
  custom_zlib_encoder :: "(bytes \<Rightarrow> nat \<times> bytes) option"
  custom_deflate :: "(bytes \<Rightarrow> nat \<times> bytes) option"

definition lodepng_compress_settings_init :: LodePNGCompressSettings where
  "lodepng_compress_settings_init =
     \<lparr>btype = 2, use_lz77 = True, windowsize = 2048, minmatch = 3, nicematch = 128, lazymatching = True,
      custom_zlib_encoder = None, custom_deflate = None\<rparr>"

section \<open>Writing symbols\<close>

definition write_code :: "HuffmanTree \<Rightarrow> nat \<Rightarrow> LodePNGBitWriter \<Rightarrow> LodePNGBitWriter" where
  "write_code tree symbol w = writeBitsReversed w (codes tree ! symbol) (lengths tree ! symbol)"

function writeLZ77data ::
  "nat list \<Rightarrow> HuffmanTree \<Rightarrow> HuffmanTree \<Rightarrow> LodePNGBitWriter \<Rightarrow> LodePNGBitWriter" where
  "writeLZ77data [] tree_ll tree_d w = w"
| "writeLZ77data (v # vs) tree_ll tree_d w =
     (let w = write_code tree_ll v w in
      if v > 256 then
        (let length_index = v - FIRST_LENGTH_CODE_INDEX;
             length_extra_bits = vs ! 0;
             distance_code = vs ! 1;
             distance_extra_bits = vs ! 2;
             w = writeBits w (word_of_nat length_extra_bits) (LENGTHEXTRA ! length_index);
             w = write_code tree_d distance_code w;
             w = writeBits w (word_of_nat distance_extra_bits) (DISTANCEEXTRA ! distance_code) in
         writeLZ77data (drop 3 vs) tree_ll tree_d w)
      else writeLZ77data vs tree_ll tree_d w)"
  by pat_completeness auto
termination
  by (relation "measure (\<lambda>(vs, tree_ll, tree_d, w). length vs)") auto

text \<open>The symbols of a block: LZ77, or the bytes as they are.\<close>

definition block_symbols ::
  "Hash \<Rightarrow> bytes \<Rightarrow> nat \<Rightarrow> nat \<Rightarrow> LodePNGCompressSettings \<Rightarrow> (nat list \<times> Hash) png" where
  "block_symbols h data datapos dataend settings =
     (if use_lz77 settings then
        encodeLZ77 [] h data datapos dataend (windowsize settings) (minmatch settings)
          (nicematch settings) (lazymatching settings)
      else Inr (map (\<lambda>i. unat (data ! i)) [datapos ..< dataend], h))"

section \<open>Blocks\<close>

definition deflateFixed ::
  "LodePNGBitWriter \<Rightarrow> Hash \<Rightarrow> bytes \<Rightarrow> nat \<Rightarrow> nat \<Rightarrow> LodePNGCompressSettings \<Rightarrow> bool \<Rightarrow>
   (LodePNGBitWriter \<times> Hash) png" where
  "deflateFixed w h data datapos dataend settings final =
     (case generateFixedLitLenTree HuffmanTree_init of
        Inl e \<Rightarrow> Inl e
      | Inr tree_ll \<Rightarrow>
     (case generateFixedDistanceTree HuffmanTree_init of
        Inl e \<Rightarrow> Inl e
      | Inr tree_d \<Rightarrow>
         (let w = writeBits w (of_bool final) 1;
              w = writeBits w 1 1;
              w = writeBits w 0 1 in
          if use_lz77 settings then
            (case encodeLZ77 [] h data datapos dataend (windowsize settings) (minmatch settings)
                    (nicematch settings) (lazymatching settings) of
               Inl e \<Rightarrow> Inl e
             | Inr (lz77_encoded, h) \<Rightarrow>
                 Inr (write_code tree_ll 256 (writeLZ77data lz77_encoded tree_ll tree_d w), h))
          else
            Inr (write_code tree_ll 256
                   (fold (\<lambda>i. write_code tree_ll (unat (data ! i))) [datapos ..< dataend] w), h))))"

text \<open>Counting the symbols of both trees.\<close>

function count_symbols :: "nat list \<Rightarrow> nat list \<times> nat list \<Rightarrow> nat list \<times> nat list" where
  "count_symbols [] f = f"
| "count_symbols (symbol # vs) (frequencies_ll, frequencies_d) =
     (let frequencies_ll = frequencies_ll[symbol := frequencies_ll ! symbol + 1] in
      if symbol > 256 then
        (let dist = vs ! 1 in
         count_symbols (drop 3 vs) (frequencies_ll, frequencies_d[dist := frequencies_d ! dist + 1]))
      else count_symbols vs (frequencies_ll, frequencies_d))"
  by pat_completeness auto
termination
  by (relation "measure (\<lambda>(vs, f). length vs)") auto

text \<open>Run-length compression of the code lengths; \<open>j\<close> counts the repetitions that follow.\<close>

function compress_lengths :: "nat list \<Rightarrow> nat list" where
  "compress_lengths [] = []"
| "compress_lengths (x # xs) =
     (let j = length (takeWhile (\<lambda>y. y = x) xs) in
      if x = 0 \<and> j \<ge> 2 then
        (let j = j + 1 in
         if j \<le> 10 then [17, j - 3] @ compress_lengths (drop j (x # xs))
         else (let j = (if j > 138 then 138 else j) in
               [18, j - 11] @ compress_lengths (drop j (x # xs))))
      else if j \<ge> 3 then
        (let num = j div 6; rest = j mod 6;
             j = (if rest \<ge> 3 then j else j - rest) in
         [x] @ concat (replicate num [16, 6 - 3]) @ (if rest \<ge> 3 then [16, rest - 3] else []) @
           compress_lengths (drop (j + 1) (x # xs)))
      else [x] @ compress_lengths xs)"
  by pat_completeness auto
termination
  by (relation "measure length") auto

fun count_lengths_codes :: "nat list \<Rightarrow> nat list \<Rightarrow> nat list" where
  "count_lengths_codes [] f = f"
| "count_lengths_codes (e # es) f =
     count_lengths_codes (if e \<ge> 16 then drop 1 es else es) (f[e := f ! e + 1])"

function trim_clcl :: "nat list \<Rightarrow> nat \<Rightarrow> nat" where
  "trim_clcl ls n = (if n > 4 \<and> ls ! (CLCL_ORDER ! (n - 1)) = 0 then trim_clcl ls (n - 1) else n)"
  by pat_completeness auto
termination
  by (relation "measure snd") auto

declare trim_clcl.simps [simp del]

fun write_lengths :: "nat list \<Rightarrow> HuffmanTree \<Rightarrow> LodePNGBitWriter \<Rightarrow> LodePNGBitWriter" where
  "write_lengths [] tree_cl w = w"
| "write_lengths (e # es) tree_cl w =
     (let w = write_code tree_cl e w in
      if e = 16 then write_lengths (drop 1 es) tree_cl (writeBits w (word_of_nat (es ! 0)) 2)
      else if e = 17 then write_lengths (drop 1 es) tree_cl (writeBits w (word_of_nat (es ! 0)) 3)
      else if e = 18 then write_lengths (drop 1 es) tree_cl (writeBits w (word_of_nat (es ! 0)) 7)
      else write_lengths es tree_cl w)"

text \<open>
  The header of a dynamic block after its type: the numbers of lengths, the lengths of the code length
  code, and the compressed lengths of both trees.
\<close>

definition write_trees ::
  "HuffmanTree \<Rightarrow> nat list \<Rightarrow> nat \<Rightarrow> nat \<Rightarrow> LodePNGBitWriter \<Rightarrow> LodePNGBitWriter" where
  "write_trees tree_cl bitlen_lld_e numcodes_ll numcodes_d w =
     (let numcodes_cl = trim_clcl (lengths tree_cl) NUM_CODE_LENGTH_CODES;
          HLIT = numcodes_ll - 257;
          HDIST = numcodes_d - 1;
          HCLEN = numcodes_cl - 4;
          w = writeBits w (word_of_nat HLIT) 5;
          w = writeBits w (word_of_nat HDIST) 5;
          w = writeBits w (word_of_nat HCLEN) 4;
          w = fold (\<lambda>i w. writeBits w (word_of_nat (lengths tree_cl ! (CLCL_ORDER ! i))) 3)
                [0 ..< numcodes_cl] w in
      write_lengths bitlen_lld_e tree_cl w)"

definition deflateDynamic ::
  "LodePNGBitWriter \<Rightarrow> Hash \<Rightarrow> bytes \<Rightarrow> nat \<Rightarrow> nat \<Rightarrow> LodePNGCompressSettings \<Rightarrow> bool \<Rightarrow>
   (LodePNGBitWriter \<times> Hash) png" where
  "deflateDynamic w h data datapos dataend settings final =
     (case block_symbols h data datapos dataend settings of
        Inl e \<Rightarrow> Inl e
      | Inr (lz77_encoded, h) \<Rightarrow>
     (let (frequencies_ll, frequencies_d) =
            count_symbols lz77_encoded (replicate 286 0, replicate 30 0);
          frequencies_ll = frequencies_ll[256 := 1] in
      case HuffmanTree_makeFromFrequencies HuffmanTree_init frequencies_ll 257 286 15 of
        Inl e \<Rightarrow> Inl e
      | Inr tree_ll \<Rightarrow>
     (case HuffmanTree_makeFromFrequencies HuffmanTree_init frequencies_d 2 30 15 of
        Inl e \<Rightarrow> Inl e
      | Inr tree_d \<Rightarrow>
     (let numcodes_ll = min (numcodes tree_ll) 286;
          numcodes_d = min (numcodes tree_d) 30;
          bitlen_lld = take numcodes_ll (lengths tree_ll) @ take numcodes_d (lengths tree_d);
          bitlen_lld_e = compress_lengths bitlen_lld;
          frequencies_cl = count_lengths_codes bitlen_lld_e (replicate NUM_CODE_LENGTH_CODES 0) in
      case HuffmanTree_makeFromFrequencies HuffmanTree_init frequencies_cl
             NUM_CODE_LENGTH_CODES NUM_CODE_LENGTH_CODES 7 of
        Inl e \<Rightarrow> Inl e
      | Inr tree_cl \<Rightarrow>
          (let w = writeBits w (of_bool final) 1;
               w = writeBits w 0 1;
               w = writeBits w 1 1;
               w = write_trees tree_cl bitlen_lld_e numcodes_ll numcodes_d w;
               w = writeLZ77data lz77_encoded tree_ll tree_d w in
           if lengths tree_ll ! 256 = 0 then Inl 64
           else Inr (write_code tree_ll 256 w, h))))))"

section \<open>The compressor\<close>

fun deflate_blocks ::
  "bytes \<Rightarrow> LodePNGCompressSettings \<Rightarrow> nat \<Rightarrow> nat \<Rightarrow> nat list \<Rightarrow> LodePNGBitWriter \<times> Hash \<Rightarrow>
   (LodePNGBitWriter \<times> Hash) png" where
  "deflate_blocks input settings blocksize numdeflateblocks [] (w, h) = Inr (w, h)"
| "deflate_blocks input settings blocksize numdeflateblocks (i # is) (w, h) =
     (let insize = length input;
          final = (i = numdeflateblocks - 1);
          start = i * blocksize;
          stop = (if start + blocksize > insize then insize else start + blocksize) in
      case (if btype settings = 1 then deflateFixed w h input start stop settings final
            else deflateDynamic w h input start stop settings final) of
        Inl e \<Rightarrow> Inl e
      | Inr x \<Rightarrow> deflate_blocks input settings blocksize numdeflateblocks is x)"

text \<open>\<open>None\<close>: the number of blocks is a division by zero, since a fixed block is as large as the input.\<close>

definition lodepng_deflatev ::
  "(nat \<Rightarrow> nat) \<Rightarrow> bytes \<Rightarrow> bytes \<Rightarrow> LodePNGCompressSettings \<Rightarrow> bytes png option" where
  "lodepng_deflatev junk out input settings =
     (let w = LodePNGBitWriter_init out; insize = length input in
      if btype settings > 2 then Some (Inl 61)
      else if btype settings = 0 then Some (Inr (deflateNoCompression out input))
      else
        (let blocksize =
               (if btype settings = 1 then insize
                else (let blocksize = insize div 8 + 8;
                          blocksize = (if blocksize < 65536 then 65536 else blocksize) in
                      if blocksize > 262144 then 262144 else blocksize)) in
         if blocksize = 0 then None
         else
           (let numdeflateblocks = (insize + blocksize - 1) div blocksize;
                numdeflateblocks = (if numdeflateblocks = 0 then 1 else numdeflateblocks);
                h = hash_init junk (windowsize settings) in
            Some (map_sum id (\<lambda>x. wr_data (fst x))
              (deflate_blocks input settings blocksize numdeflateblocks [0 ..< numdeflateblocks] (w, h))))))"

definition lodepng_deflate ::
  "(nat \<Rightarrow> nat) \<Rightarrow> bytes \<Rightarrow> bytes \<Rightarrow> LodePNGCompressSettings \<Rightarrow> bytes png option" where
  "lodepng_deflate junk out input settings = lodepng_deflatev junk out input settings"

definition deflate ::
  "(nat \<Rightarrow> nat) \<Rightarrow> bytes \<Rightarrow> bytes \<Rightarrow> LodePNGCompressSettings \<Rightarrow> bytes png option" where
  "deflate junk out input settings =
     (case custom_deflate settings of
        Some f \<Rightarrow> (let (e, out') = f input in Some (if e = 0 then Inr out' else Inl 111))
      | None \<Rightarrow> lodepng_deflate junk out input settings)"

section \<open>The zlib container\<close>

definition lodepng_zlib_compress ::
  "(nat \<Rightarrow> nat) \<Rightarrow> bytes \<Rightarrow> LodePNGCompressSettings \<Rightarrow> bytes png option" where
  "lodepng_zlib_compress junk input settings =
     map_option (map_sum id (\<lambda>deflatedata.
         (let ADLER32 = adler32 (take (length input mod 2 ^ 32) input);
              CMF = 120; FLEVEL = 0; FDICT = 0;
              CMFFLG = 256 * CMF + FDICT * 32 + FLEVEL * 64 :: u32;
              FCHECK = 31 - CMFFLG mod 31;
              CMFFLG = CMFFLG + FCHECK in
          [ucast (drop_bit 8 CMFFLG), ucast (CMFFLG AND 255)] @ deflatedata @ lodepng_set32bitInt ADLER32)))
       (deflate junk [] input settings)"

definition zlib_compress ::
  "(nat \<Rightarrow> nat) \<Rightarrow> bytes \<Rightarrow> LodePNGCompressSettings \<Rightarrow> bytes png option" where
  "zlib_compress junk input settings =
     (case custom_zlib_encoder settings of
        Some f \<Rightarrow> (let (e, out) = f input in Some (if e = 0 then Inr out else Inl 111))
      | None \<Rightarrow> lodepng_zlib_compress junk input settings)"

definition lodepng_zlib_decompressv ::
  "bytes \<Rightarrow> bytes \<Rightarrow> LodePNGDecompressSettings \<Rightarrow> bytes sized option" where
  "lodepng_zlib_decompressv out input settings =
     (let insize = length input in
      if insize < 2 then Some (Inl (53, length out))
      else if (unat (input ! 0) * 256 + unat (input ! 1)) mod 31 \<noteq> 0 then Some (Inl (24, length out))
      else
        (let CM = input ! 0 AND 15;
             CINFO = drop_bit 4 (input ! 0) AND 15;
             FDICT = drop_bit 5 (input ! 1) AND 1 in
         if CM \<noteq> 8 \<or> CINFO > 7 then Some (Inl (25, length out))
         else if FDICT \<noteq> 0 then Some (Inl (26, length out))
         else
           (case inflatev out (drop 2 input) settings of
              None \<Rightarrow> None
            | Some (Inl e) \<Rightarrow> Some (Inl e)
            | Some (Inr out') \<Rightarrow>
                if \<not> ignore_adler32 settings \<and>
                   adler32 (take (length out' mod 2 ^ 32) out') \<noteq> lodepng_read32bitInt (drop (insize - 4) input)
                then Some (Inl (58, length out')) else Some (Inr out'))))"

definition zlib_decompress ::
  "bytes \<Rightarrow> bytes \<Rightarrow> LodePNGDecompressSettings \<Rightarrow> bytes sized option" where
  "zlib_decompress out input settings =
     (case custom_zlib settings of
        Some f \<Rightarrow>
          (let (e, out') = f out input in
           Some (if e = 0 then Inr out'
                 else if max_output_size settings \<noteq> 0 \<and> length out' > max_output_size settings
                 then Inl (109, length out') else Inl (110, length out')))
      | None \<Rightarrow> lodepng_zlib_decompressv out input settings)"

end
