(* ===== verification/Png_Lz77_Decodes.thy ===== *)
theory Png_Lz77_Decodes
  imports Png_Lz77
begin

unbundle bit_operations_syntax

text \<open>
  What the symbols of the LZ77 encoder mean (\<open>lz_decode\<close>), and that they mean the input: the invariant
  of the hash says which positions have been recorded, and that the streaks of zeros are right.
\<close>

section \<open>The meaning of the symbols\<close>

text \<open>
  A literal, or the four numbers of a match, which has to lie within what has been decoded.
\<close>

fun lz_decode :: "nat list \<Rightarrow> bytes \<Rightarrow> bytes option" where
  "lz_decode [] out = Some out"
| "lz_decode (v # vs) out =
     (if v \<le> 255 then lz_decode vs (out @ [word_of_nat v])
      else if v < 257 \<or> 285 < v then None
      else
        (case vs of
           el # dc # ed # rest \<Rightarrow>
             (let len = LENGTHBASE ! (v - 257) + el; distance = DISTANCEBASE ! dc + ed in
              if el < 2 ^ (LENGTHEXTRA ! (v - 257)) \<and> dc < 30 \<and> ed < 2 ^ (DISTANCEEXTRA ! dc) \<and>
                 distance \<le> length out
              then lz_decode rest (copy_match out distance len) else None)
         | _ \<Rightarrow> None))"

lemma lz_decode_append:
  "lz_decode xs out = Some out' \<Longrightarrow> lz_decode (xs @ ys) out = lz_decode ys out'"
proof (induction xs out rule: lz_decode.induct)
  case (2 v vs out)
  show ?case
  proof (cases "v \<le> 255")
    case True
    then show ?thesis using 2 by simp
  next
    case False
    then obtain el dc ed rest where vs: "vs = el # dc # ed # rest" and v: "\<not> (v < 257 \<or> 285 < v)"
      using 2(3) by (auto split: if_splits list.splits)
    show ?thesis using 2(2) [OF False v vs refl refl] 2(3) False v
      by (auto simp: vs Let_def split: if_splits)
  qed
qed simp

text \<open>Copying a match out of the input that is being encoded.\<close>

lemma copy_match_take:
  assumes "1 \<le> d" "d \<le> n" "n + len \<le> length full"
    and rep: "\<And>i. i < len \<Longrightarrow> full ! (n + i) = full ! (n - d + i)"
  shows "copy_match (take n full) d len = take (n + len) full"
proof -
  have n: "length (take n full) = n" using assms(3) by simp
  have grow: "take m (drop (n - d) (take n full)) = take m (drop n full)" if "m \<le> d" "m \<le> len" for m
  proof (rule nth_equalityI)
    fix i assume "i < length (take m (drop (n - d) (take n full)))"
    then have i: "i < m" "n - d + i < n" by auto
    have "full ! (n - d + i) = full ! (n + i)" using rep [of i] i that by simp
    then show "take m (drop (n - d) (take n full)) ! i = take m (drop n full) ! i"
      using i that assms(2,3) by simp
  qed (use that assms(2,3) in auto)
  have app: "take n full @ take m (drop n full) = take (n + m) full" for m
    by (simp add: take_add)
  show ?thesis
  proof (cases "d < len")
    case False
    then show ?thesis
      using grow [of len] app [of len] unfolding copy_match_def Let_def n by simp
  next
    case True
    have loop: "fold (\<lambda>k out. out @ [out ! (n - d + k)]) [0 ..< k] (take (n + d) full) =
      take (n + d + k) full" if "k \<le> len - d" for k
      using that
    proof (induction k)
      case (Suc k)
      have "full ! (n - d + k) = full ! (n + k)" using rep [of k] Suc.prems by simp
      also have "\<dots> = full ! (n + d + k)" using rep [of "d + k"] Suc.prems assms(2) by (simp add: ac_simps)
      finally have "take (n + d + k) full @ [take (n + d + k) full ! (n - d + k)] = take (n + d + Suc k) full"
        using Suc.prems assms(1,3) True by (simp add: take_Suc_conv_app_nth)
      then show ?case using Suc by simp
    qed simp
    have "copy_match (take n full) d len =
      fold (\<lambda>k out. out @ [out ! (n - d + k)]) [0 ..< len - d] (take (n + d) full)"
      using True grow [of d] app [of d] unfolding copy_match_def Let_def n by simp
    also have "\<dots> = take (n + len) full" using loop [of "len - d"] True by simp
    finally show ?thesis .
  qed
qed

text \<open>The two kinds of symbols that the encoder adds.\<close>

lemma lz_decode_literal:
  assumes "lz_decode xs out = Some (take n full)" "n < length full"
  shows "lz_decode (xs @ [unat (full ! n :: byte)]) out = Some (take (n + 1) full)"
proof -
  have "unat (full ! n) < 2 ^ LENGTH(8)" by (rule unsigned_less)
  then show ?thesis
    using assms(2) by (simp add: lz_decode_append [OF assms(1)] take_Suc_conv_app_nth)
qed

definition match_ok :: "bytes \<Rightarrow> nat \<Rightarrow> nat \<Rightarrow> nat \<Rightarrow> bool" where
  "match_ok data pos len off \<longleftrightarrow> 1 \<le> off \<and> off \<le> pos \<and> off \<le> 32768 \<and> len \<le> 258 \<and>
     pos + len \<le> length data \<and> (\<forall>i < len. data ! (pos + i) = data ! (pos - off + i))"

lemma lz_decode_match:
  assumes "lz_decode xs out = Some (take n full)" "match_ok full n len off" "3 \<le> len"
  shows "lz_decode (addLengthDistance xs len off) out = Some (take (n + len) full)"
proof -
  obtain lc el dc ed where ad: "addLengthDistance xs len off = xs @ [lc + 257, el, dc, ed]"
    and c: "lc < 29" "LENGTHBASE ! lc + el = len" "el < 2 ^ (LENGTHEXTRA ! lc)"
      "dc < 30" "DISTANCEBASE ! dc + ed = off" "ed < 2 ^ (DISTANCEEXTRA ! dc)"
    using addLengthDistance_codes [of len off xs] assms(2,3) unfolding match_ok_def by blast
  have "copy_match (take n full) off len = take (n + len) full"
    using assms(2) by (intro copy_match_take) (auto simp: match_ok_def)
  then show ?thesis
    using c assms(2) by (simp add: ad lz_decode_append [OF assms(1)] Let_def match_ok_def)
qed

section \<open>The invariant of the hash\<close>

text \<open>
  A streak of \<open>z\<close> zeros at a position, within the data.
\<close>

definition zeros_at :: "bytes \<Rightarrow> nat \<Rightarrow> nat \<Rightarrow> bool" where
  "zeros_at data pos z \<longleftrightarrow> pos + z \<le> length data \<and> (\<forall>i < z. data ! (pos + i) = 0)"

text \<open>
  The positions before \<open>n\<close> have been recorded in a window of \<open>W\<close>: all links lead to slots in use, and
  a slot in use has the streak of zeros of the last position recorded in it.
\<close>

definition slot_used :: "nat \<Rightarrow> nat \<Rightarrow> nat \<Rightarrow> bool" where
  "slot_used W n w \<longleftrightarrow> w < W \<and> w < n"

definition heads_ok :: "nat \<Rightarrow> nat \<Rightarrow> int list \<Rightarrow> bool" where
  "heads_ok W n hs \<longleftrightarrow> (\<forall>x \<in> set hs. x \<noteq> -1 \<longrightarrow> 0 \<le> x \<and> slot_used W n (nat x))"

definition links_ok :: "nat \<Rightarrow> nat \<Rightarrow> nat list \<Rightarrow> bool" where
  "links_ok W n ls \<longleftrightarrow> length ls = W \<and> (\<forall>w < W. ls ! w = w \<or> slot_used W n (ls ! w))"

definition zeros_ok :: "bytes \<Rightarrow> nat \<Rightarrow> nat \<Rightarrow> nat list \<Rightarrow> bool" where
  "zeros_ok data W n zs \<longleftrightarrow> length zs = W \<and>
     (\<forall>q. q < n \<longrightarrow> n \<le> q + W \<longrightarrow> zeros_at data q (zs ! (q mod W)))"

definition hash_ok :: "bytes \<Rightarrow> nat \<Rightarrow> nat \<Rightarrow> Hash \<Rightarrow> bool" where
  "hash_ok data W n h \<longleftrightarrow> length (hash_head h) = 65536 \<and> length (hash_headz h) = 259 \<and>
     heads_ok W n (hash_head h) \<and> heads_ok W n (hash_headz h) \<and>
     links_ok W n (hash_chain h) \<and> links_ok W n (hash_chainz h) \<and> zeros_ok data W n (hash_zeros h)"

lemma hash_init_ok: "hash_ok data W 0 (hash_init junk W)"
  by (simp add: hash_ok_def hash_init_def heads_ok_def links_ok_def zeros_ok_def)

lemma slot_used_mono: "slot_used W n w \<Longrightarrow> n \<le> m \<Longrightarrow> slot_used W m w"
  by (simp add: slot_used_def)

lemma heads_ok_mono: "heads_ok W n hs \<Longrightarrow> n \<le> m \<Longrightarrow> heads_ok W m hs"
  by (auto simp: heads_ok_def intro: slot_used_mono)

lemma heads_ok_update:
  "heads_ok W n hs \<Longrightarrow> slot_used W n w \<Longrightarrow> heads_ok W n (hs[i := int w])"
  "heads_ok W n hs \<Longrightarrow> heads_ok W n (hs[i := -1])"
  by (auto simp: heads_ok_def dest!: set_update_subset_insert [THEN subsetD])

lemma heads_ok_nth:
  "heads_ok W n hs \<Longrightarrow> i < length hs \<Longrightarrow> hs ! i \<noteq> -1 \<Longrightarrow> slot_used W n (nat (hs ! i))"
  by (simp add: heads_ok_def)

lemma links_ok_update:
  assumes "links_ok W n ls" "n \<le> m" "c \<longrightarrow> slot_used W m w"
  shows "links_ok W m (if c then ls[i := w] else ls)"
  using assms
  by (cases "i < length ls") (auto simp: links_ok_def nth_list_update list_update_beyond intro: slot_used_mono)

lemma links_ok_nth: "links_ok W n ls \<Longrightarrow> slot_used W n w \<Longrightarrow> slot_used W n (ls ! w)"
  by (metis links_ok_def slot_used_def)

lemma zeros_ok_update:
  assumes "zeros_ok data W n zs" "zeros_at data pos z" "n = pos \<or> n = pos + 1" "0 < W"
  shows "zeros_ok data W (pos + 1) (zs[pos mod W := z])"
proof -
  have "zeros_at data q (zs[pos mod W := z] ! (q mod W))" if q: "q < pos + 1" "pos + 1 \<le> q + W" for q
  proof (cases "q = pos")
    case False
    then have "q < pos" using q by simp
    have "q mod W \<noteq> pos mod W"
    proof
      assume "q mod W = pos mod W"
      then have "W dvd pos - q" using \<open>q < pos\<close> mod_eq_dvd_iff_nat [of q pos W] by simp
      then have "W \<le> pos - q" using \<open>q < pos\<close> by (intro dvd_imp_le) simp_all
      then show False using q by simp
    qed
    then show ?thesis using assms(1,3) q \<open>q < pos\<close> by (auto simp: zeros_ok_def)
  qed (use assms in \<open>simp add: zeros_ok_def\<close>)
  then show ?thesis using assms(1) by (simp add: zeros_ok_def)
qed

lemma updateHashChain_simps:
  "hash_head (updateHashChain h w hv nz) = (hash_head h)[hv := int w]"
  "hash_headz (updateHashChain h w hv nz) = (hash_headz h)[nz := int w]"
  "hash_chain (updateHashChain h w hv nz) =
     (if hash_head h ! hv \<noteq> -1 then (hash_chain h)[w := nat (hash_head h ! hv)] else hash_chain h)"
  "hash_chainz (updateHashChain h w hv nz) =
     (if hash_headz h ! nz \<noteq> -1 then (hash_chainz h)[w := nat (hash_headz h ! nz)] else hash_chainz h)"
  "hash_zeros (updateHashChain h w hv nz) = (hash_zeros h)[w := nz]"
  by (simp_all add: updateHashChain_def Let_def)

lemma updateHashChain_ok:
  assumes ok: "hash_ok data W n h" and n: "n = pos \<or> n = pos + 1" and W: "0 < W"
    and z: "zeros_at data pos nz" "nz \<le> 258" and hv: "hv < 65536"
  shows "hash_ok data W (pos + 1) (updateHashChain h (pos mod W) hv nz)"
proof -
  have le: "n \<le> pos + 1" using n by auto
  have used: "slot_used W (pos + 1) (pos mod W)"
    using W by (simp add: slot_used_def less_Suc_eq_le)
  have l: "length (hash_head h) = 65536" "length (hash_headz h) = 259" using ok by (simp_all add: hash_ok_def)
  have heads: "heads_ok W (pos + 1) (hash_head h)" "heads_ok W (pos + 1) (hash_headz h)"
    using ok le by (auto simp: hash_ok_def intro: heads_ok_mono)
  have "links_ok W (pos + 1) (hash_chain (updateHashChain h (pos mod W) hv nz))"
    unfolding updateHashChain_simps
    by (rule links_ok_update [OF _ le]) (use ok hv l heads_ok_nth [OF heads(1)] in \<open>auto simp: hash_ok_def\<close>)
  moreover have "links_ok W (pos + 1) (hash_chainz (updateHashChain h (pos mod W) hv nz))"
    unfolding updateHashChain_simps
    by (rule links_ok_update [OF _ le]) (use ok z(2) l heads_ok_nth [OF heads(2)] in \<open>auto simp: hash_ok_def\<close>)
  moreover have "zeros_ok data W (pos + 1) (hash_zeros (updateHashChain h (pos mod W) hv nz))"
    unfolding updateHashChain_simps
    by (rule zeros_ok_update [OF _ z(1) n W]) (use ok in \<open>simp add: hash_ok_def\<close>)
  ultimately show ?thesis
    using l heads used by (simp add: hash_ok_def updateHashChain_simps heads_ok_update)
qed

section \<open>Recording positions\<close>

text \<open>\<open>windowsize\<close> is a power of two, so that the mask is the remainder.\<close>

lemma and_window:
  fixes W pos :: nat
  assumes "0 < W" "W AND (W - 1) = 0"
  shows "pos AND (W - 1) = pos mod W"
  using assms
proof (induction W arbitrary: pos rule: less_induct)
  case (less W)
  show ?case
  proof (cases "even W")
    case True
    then obtain k where W: "W = 2 * k" by blast
    then have k: "0 < k" "k < W" and d: "(W - 1) div 2 = k - 1" "odd (W - 1)" "W div 2 = k"
      using less.prems(1) by auto
    have "k AND (k - 1) = 0"
      using less.prems(2) and_rec [of W "W - 1"] True d by simp
    then have "(pos div 2) AND (k - 1) = (pos div 2) mod k" by (intro less.IH k)
    then have "pos AND (W - 1) = of_bool (odd pos) + 2 * ((pos div 2) mod k)"
      using and_rec [of pos "W - 1"] d by simp
    also have "\<dots> = pos mod W"
      unfolding W by (simp add: mod_mult2_eq odd_iff_mod_2_eq_one mod2_eq_if)
    finally show ?thesis .
  next
    case False
    then obtain k where W: "W = 2 * k + 1" by (auto elim: oddE)
    have "W AND (W - 1) = 2 * k"
      using and_rec [of W "W - 1"] W by simp
    then show ?thesis using less.prems(2) W by simp
  qed
qed

definition lz_ok :: "lz_args \<Rightarrow> bool" where
  "lz_ok a \<longleftrightarrow> 0 < lz_windowsize a \<and> lz_windowsize a \<le> 32768 \<and>
     lz_windowsize a AND (lz_windowsize a - 1) = 0 \<and> lz_insize a \<le> length (lz_in a)"

lemma lz_wpos_mod: "lz_ok a \<Longrightarrow> lz_wpos a pos = pos mod lz_windowsize a"
  unfolding lz_ok_def lz_wpos_def by (blast intro: and_window)

definition streak :: "lz_args \<Rightarrow> nat \<Rightarrow> nat \<Rightarrow> bool" where
  "streak a pos z \<longleftrightarrow> z \<le> 258 \<and> pos + z \<le> lz_insize a \<and> (\<forall>i < z. lz_in a ! (pos + i) = 0)"

lemma takeWhile_nth_sat: "i < length (takeWhile P xs) \<Longrightarrow> P (xs ! i)"
  by (metis nth_mem set_takeWhileD takeWhile_nth)

lemma countZeros_streak:
  assumes "lz_ok a" "pos \<le> lz_insize a"
  shows "streak a pos (countZeros (lz_in a) (lz_insize a) pos)"
proof -
  let ?stop = "if pos + 258 > lz_insize a then lz_insize a else pos + 258"
  let ?xs = "take (?stop - pos) (drop pos (lz_in a))"
  let ?z = "length (takeWhile (\<lambda>b. b = 0) ?xs)"
  have len: "?z \<le> ?stop - pos" using length_takeWhile_le [of "\<lambda>b. b = 0" ?xs] by simp
  have "lz_in a ! (pos + i) = 0" if "i < ?z" for i
  proof -
    have "?xs ! i = 0" using takeWhile_nth_sat [OF that] .
    moreover have "i < ?stop - pos" using that len by linarith
    ultimately show ?thesis using assms by (simp add: lz_ok_def)
  qed
  then show ?thesis
    using len assms(2) unfolding streak_def countZeros_def Let_def by (auto split: if_splits)
qed

lemma next_zeros_streak:
  assumes "lz_ok a" "pos < lz_insize a" "streak a q nz" "q = pos \<or> q + 1 = pos"
  shows "streak a pos (next_zeros a pos hv nz)"
proof (cases "hv = 0 \<and> nz \<noteq> 0")
  case False
  then show ?thesis
    using countZeros_streak [OF assms(1)] assms(2) by (auto simp: next_zeros_def streak_def)
next
  case True
  show ?thesis
    using assms(4)
  proof
    assume "q = pos"
    then have "lz_in a ! (pos + (nz - 1)) = 0" "pos + nz \<le> lz_insize a"
      using assms(3) True unfolding streak_def by (auto dest: spec [of _ "nz - 1"])
    then show ?thesis using True assms(3) \<open>q = pos\<close> by (simp add: next_zeros_def)
  next
    assume q: "q + 1 = pos"
    have z: "lz_in a ! (pos + i) = 0" if "i < nz - 1" for i
      using assms(3) that q unfolding streak_def by (auto dest: spec [of _ "i + 1"])
    show ?thesis
    proof (cases "pos + nz > lz_insize a \<or> lz_in a ! (pos + nz - 1) \<noteq> 0")
      case True
      then show ?thesis
        using z assms(3) q \<open>hv = 0 \<and> nz \<noteq> 0\<close> by (auto simp: next_zeros_def streak_def)
    next
      case False
      have "lz_in a ! (pos + i) = 0" if "i < nz" for i
        using z [of i] that False True by (cases "i = nz - 1") auto
      then show ?thesis using False True assms(3) by (auto simp: next_zeros_def streak_def)
    qed
  qed
qed

lemma getHash_less: "unat (getHash data sz pos) < 65536"
proof -
  have "unat (x AND 65535) < 65536" for x :: u32
  proof -
    have "x AND 65535 \<le> 65535" by (rule word_and_le1)
    then show ?thesis by (simp add: word_le_nat_alt)
  qed
  then show ?thesis by (simp add: getHash_def)
qed

text \<open>
  Between two rounds the positions before \<open>n\<close> are recorded, where \<open>n\<close> is the next position, or the
  one after it when lazy matching has gone back by one.
\<close>

definition recorded :: "lz_args \<Rightarrow> nat \<Rightarrow> nat \<Rightarrow> Hash \<times> nat \<Rightarrow> bool" where
  "recorded a n pos x \<longleftrightarrow> hash_ok (lz_in a) (lz_windowsize a) n (fst x) \<and> (n = pos \<or> n = pos + 1) \<and>
     (\<exists>q. (q = pos \<or> q + 1 = pos) \<and> streak a q (snd x))"

lemma record_position_ok:
  assumes "lz_ok a" "pos < lz_insize a" "recorded a n pos (h, nz)"
  shows "hash_ok (lz_in a) (lz_windowsize a) (pos + 1) (fst (record_position a pos (h, nz)))"
    and "streak a pos (snd (record_position a pos (h, nz)))"
proof -
  let ?hv = "getHash (lz_in a) (lz_insize a) pos"
  have st: "streak a pos (next_zeros a pos ?hv nz)"
    using next_zeros_streak [OF assms(1,2)] assms(3) by (auto simp: recorded_def)
  then show "streak a pos (snd (record_position a pos (h, nz)))"
    by (simp add: record_position_def Let_def)
  have "zeros_at (lz_in a) pos (next_zeros a pos ?hv nz)"
    using st assms(1) by (auto simp: streak_def zeros_at_def lz_ok_def)
  then show "hash_ok (lz_in a) (lz_windowsize a) (pos + 1) (fst (record_position a pos (h, nz)))"
    using updateHashChain_ok [of "lz_in a" "lz_windowsize a" n h pos] assms st getHash_less
    by (simp add: record_position_def Let_def lz_wpos_mod recorded_def streak_def lz_ok_def)
qed

lemma record_positions_ok:
  assumes "lz_ok a" "pos + k \<le> lz_insize a" "recorded a n pos x"
  shows "\<exists>n'. recorded a n' (pos + k) (fold (\<lambda>i. record_position a (pos + i)) [0 ..< k] x) \<and>
    (0 < k \<longrightarrow> n' = pos + k)"
  using assms(2)
proof (induction k)
  case 0
  then show ?case using assms(3) by auto
next
  case (Suc k)
  let ?x = "fold (\<lambda>i. record_position a (pos + i)) [0 ..< k] x"
  obtain n' where "recorded a n' (pos + k) ?x" using Suc by auto
  then have "recorded a n' (pos + k) (fst ?x, snd ?x)" by simp
  from record_position_ok [OF assms(1) _ this] Suc.prems show ?case
    by (auto simp: recorded_def)
qed

section \<open>Searching\<close>

lemma match_end_matches:
  assumes "fore \<le> lastp"
  shows "fore \<le> match_end data lastp bptr fore \<and> match_end data lastp bptr fore \<le> lastp \<and>
    (\<forall>i < match_end data lastp bptr fore - fore. data ! (bptr + i) = data ! (fore + i))"
  using assms
proof (induction data lastp bptr fore rule: match_end.induct)
  case (1 data lastp bptr fore)
  show ?case
  proof (cases "fore < lastp \<and> data ! bptr = data ! fore")
    case False
    then have "match_end data lastp bptr fore = fore" by (subst match_end.simps) auto
    then show ?thesis using 1(2) by simp
  next
    case True
    let ?e = "match_end data lastp (bptr + 1) (fore + 1)"
    have e: "match_end data lastp bptr fore = ?e" using True by (subst match_end.simps) simp
    have IH: "fore + 1 \<le> ?e" "?e \<le> lastp" "\<forall>i < ?e - (fore + 1). data ! (bptr + 1 + i) = data ! (fore + 1 + i)"
      using 1(1) [OF True] True by simp_all
    have "data ! (bptr + i) = data ! (fore + i)" if "i < ?e - fore" for i
      using IH(3) True that by (cases i) (auto dest: spec [of _ "i - 1"])
    then show ?thesis unfolding e using IH(1,2) by simp
  qed
qed

text \<open>The position that a slot in use stands for, seen from the current position.\<close>

lemma slot_position:
  fixes W hp pos :: nat
  assumes "slot_used W (pos + 1) hp"
  defines "off \<equiv> if hp \<le> pos mod W then pos mod W - hp else pos mod W + W - hp"
  shows "off \<le> pos" "off < W" "(pos - off) mod W = hp"
proof -
  have W: "hp < W" "hp \<le> pos" using assms(1) by (simp_all add: slot_used_def)
  define k where "k = pos div W"
  have pos: "pos = W * k + pos mod W" by (simp add: k_def)
  have r: "pos mod W < W" using W by simp
  show "off < W" using W r less_imp_diff_less [OF r, of hp] by (auto simp: off_def)
  have "off \<le> pos \<and> (pos - off) mod W = hp"
  proof (cases "hp \<le> pos mod W")
    case True
    then have "pos - off = W * k + hp" using pos by (simp add: off_def)
    then show ?thesis using True W pos by (simp add: off_def)
  next
    case False
    then have "k \<noteq> 0" using pos W by (intro notI) simp
    then obtain j where "k = Suc j" by (cases k) auto
    then have "pos = W * j + (pos mod W + W)" using pos by simp
    then have "pos - off = W * j + hp" "off \<le> pos" using False W by (simp_all add: off_def)
    then show ?thesis using W by simp
  qed
  then show "off \<le> pos" "(pos - off) mod W = hp" by simp_all
qed

definition best_ok :: "lz_args \<Rightarrow> nat \<Rightarrow> nat \<times> nat \<Rightarrow> bool" where
  "best_ok a pos best \<longleftrightarrow> fst best = 0 \<or>
     match_ok (lz_in a) pos (fst best) (snd best) \<and> pos + fst best \<le> lz_insize a \<and>
     snd best < lz_windowsize a"

text \<open>
  The bytes that are skipped because both positions have zeros there do match, and the comparison
  starts within the range it is limited to.
\<close>

lemma skip_inside:
  assumes "lz_ok a" "hash_ok (lz_in a) (lz_windowsize a) (pos + 1) h" "streak a pos nz"
    and "slot_used (lz_windowsize a) (pos + 1) hp" "off \<le> pos" "off < lz_windowsize a"
      "(pos - off) mod lz_windowsize a = hp"
  shows "min (hash_zeros h ! hp) nz \<le> nz" "pos + nz \<le> min (lz_insize a) (pos + 258)"
    and "i < min (hash_zeros h ! hp) nz \<Longrightarrow> lz_in a ! (pos + i) = lz_in a ! (pos - off + i)"
proof -
  have "pos - off < pos + 1" "pos + 1 \<le> pos - off + lz_windowsize a" using assms(5,6) by simp_all
  then have "zeros_at (lz_in a) (pos - off) (hash_zeros h ! ((pos - off) mod lz_windowsize a))"
    using assms(2) unfolding hash_ok_def zeros_ok_def by blast
  then have z: "zeros_at (lz_in a) (pos - off) (hash_zeros h ! hp)" by (simp only: assms(7))
  show "min (hash_zeros h ! hp) nz \<le> nz" by simp
  show "pos + nz \<le> min (lz_insize a) (pos + 258)" using assms(3) by (simp add: streak_def)
  show "i < min (hash_zeros h ! hp) nz \<Longrightarrow> lz_in a ! (pos + i) = lz_in a ! (pos - off + i)"
    using z assms(3) by (simp add: zeros_at_def streak_def)
qed

lemma try_candidate_ok:
  assumes a: "lz_ok a" and h: "hash_ok (lz_in a) (lz_windowsize a) (pos + 1) h" and nz: "streak a pos nz"
    and hp: "slot_used (lz_windowsize a) (pos + 1) hp" and pos: "pos < lz_insize a"
    and off: "off = (if hp \<le> lz_wpos a pos then lz_wpos a pos - hp
                     else lz_wpos a pos + lz_windowsize a - hp)"
    and best: "best_ok a pos best" and res: "try_candidate a h pos nz hp off best = (len', off', stop)"
  shows "best_ok a pos (len', off')"
proof -
  let ?last = "if lz_insize a < pos + 258 then lz_insize a else pos + 258"
  let ?skip = "if nz \<ge> 3 then (if hash_zeros h ! hp > nz then nz else hash_zeros h ! hp) else 0"
  let ?e = "match_end (lz_in a) ?last (pos - off + ?skip) (pos + ?skip)"
  note o = slot_position [OF hp, folded off [unfolded lz_wpos_mod [OF a]]]
  note skip = skip_inside [OF a h nz hp o]
  have sk: "?skip \<le> nz" "pos + nz \<le> ?last" using skip(1,2) by auto
  have e: "pos + ?skip \<le> ?e" "?e \<le> ?last"
    "\<forall>i < ?e - (pos + ?skip). lz_in a ! (pos - off + ?skip + i) = lz_in a ! (pos + ?skip + i)"
    using match_end_matches [of "pos + ?skip" ?last "lz_in a" "pos - off + ?skip"] sk by simp_all
  show ?thesis
  proof (cases "off > 0 \<and> ?e - pos > fst best")
    case False
    then have "(len', off') = best"
      using res by (cases best) (auto simp: try_candidate_def Let_def split: if_splits)
    then show ?thesis using best by simp
  next
    case True
    then have r: "len' = ?e - pos" "off' = off"
      using res by (cases best; simp add: try_candidate_def Let_def split: if_splits)+
    have "lz_in a ! (pos + i) = lz_in a ! (pos - off + i)" if i: "i < ?e - pos" for i
    proof (cases "i < ?skip")
      case True
      then have "i < min (hash_zeros h ! hp) nz" by (auto split: if_splits)
      then show ?thesis by (rule skip(3))
    next
      case False
      then have "i - ?skip < ?e - (pos + ?skip)" using i by linarith
      then have "lz_in a ! (pos - off + ?skip + (i - ?skip)) = lz_in a ! (pos + ?skip + (i - ?skip))"
        using e(3) by blast
      then show ?thesis using False by simp
    qed
    moreover have "?e \<le> lz_insize a" "?e \<le> pos + 258" using e(2) by (auto split: if_splits)
    ultimately have "match_ok (lz_in a) pos (?e - pos) off"
      using True o(1,2) a by (auto simp: match_ok_def lz_ok_def)
    moreover have "pos + (?e - pos) \<le> lz_insize a" using \<open>?e \<le> lz_insize a\<close> pos by simp
    ultimately show ?thesis using o(2) unfolding r by (simp add: best_ok_def)
  qed
qed

lemma search_match_ok:
  assumes "lz_ok a" "hash_ok (lz_in a) (lz_windowsize a) (pos + 1) h" "streak a pos nz" "pos < lz_insize a"
    and "slot_used (lz_windowsize a) (pos + 1) hp" "best_ok a pos best"
  shows "best_ok a pos (search_match a h hv nz maxchain pos chainlength hp prev best)"
  using assms
proof (induction a h hv nz maxchain pos chainlength hp prev best rule: search_match.induct)
  case (1 a h hv nz maxchain pos chainlength hp prev best)
  let ?off = "if hp \<le> lz_wpos a pos then lz_wpos a pos - hp else lz_wpos a pos + lz_windowsize a - hp"
  obtain len off stop where t: "try_candidate a h pos nz hp ?off best = (len, off, stop)"
    by (metis prod.exhaust)
  note ok = 1(3-)
  have best': "best_ok a pos (len, off)"
    by (rule try_candidate_ok [OF ok(1-3) ok(5,4) refl ok(6) t])
  have links: "slot_used (lz_windowsize a) (pos + 1) (hash_chain h ! hp)"
    "slot_used (lz_windowsize a) (pos + 1) (hash_chainz h ! hp)"
    using ok(2,5) by (auto simp: hash_ok_def intro: links_ok_nth)
  show ?case
  proof (cases "chainlength \<ge> maxchain \<or> ?off < prev \<or> stop \<or> hp = hash_chain h ! hp")
    case True
    then show ?thesis
      using ok(6) best' by (subst search_match.simps) (auto simp: t Let_def)
  next
    case False
    then have F: "\<not> maxchain \<le> chainlength" "\<not> ?off < prev" "\<not> (stop \<or> hp = hash_chain h ! hp)" by auto
    show ?thesis
    proof (cases "nz \<ge> 3 \<and> len > nz")
      case True
      show ?thesis
      proof (cases "hash_zeros h ! (hash_chainz h ! hp) \<noteq> nz")
        case False
        have "best_ok a pos (search_match a h hv nz maxchain pos (chainlength + 1) (hash_chainz h ! hp) ?off (len, off))"
          by (rule 1(1) [OF F(1) refl refl F(2) t [symmetric] refl F(3) True refl False ok(1-4) links(2) best'])
        then show ?thesis using F True False by (subst search_match.simps) (simp add: t Let_def)
      qed (use F True best' in \<open>subst search_match.simps, simp add: t Let_def\<close>)
    next
      case zer: False
      show ?thesis
      proof (cases "hash_val h ! (hash_chain h ! hp) \<noteq> int hv")
        case False
        have "best_ok a pos (search_match a h hv nz maxchain pos (chainlength + 1) (hash_chain h ! hp) ?off (len, off))"
          by (rule 1(2) [OF F(1) refl refl F(2) t [symmetric] refl F(3) zer refl False ok(1-4) links(1) best'])
        then show ?thesis using F zer False by (subst search_match.simps) (auto simp: t Let_def)
      qed (use F zer best' in \<open>subst search_match.simps, auto simp: t Let_def\<close>)
    qed
  qed
qed

section \<open>The loop\<close>

text \<open>
  Between two rounds the symbols decode to the input up to the position, or up to the one before it
  when a match is pending there; that match is one.
\<close>

definition lz_inv :: "lz_args \<Rightarrow> bytes \<Rightarrow> lz_state \<Rightarrow> bool" where
  "lz_inv a pre s \<longleftrightarrow> lz_pos s \<le> lz_insize a \<and>
     (\<exists>n. recorded a n (lz_pos s) (lz_hash s, lz_numzeros s) \<and> (n = lz_pos s + 1 \<longrightarrow> lz_pos s < lz_insize a)) \<and>
     (lz_lazy s \<longrightarrow> lz_lazymatching a \<and> 1 \<le> lz_pos s \<and> 3 \<le> lz_lazylength s \<and>
        best_ok a (lz_pos s - 1) (lz_lazylength s, lz_lazyoffset s)) \<and>
     lz_decode (lz_out s) pre = Some (take (lz_pos s - of_bool (lz_lazy s)) (lz_in a))"

lemma encode_match_ok:
  assumes a: "lz_ok a" and s: "\<not> lz_lazy s" "lz_pos s < lz_insize a"
    and out: "lz_decode (lz_out s) pre = Some (take (lz_pos s) (lz_in a))"
    and rec: "recorded a n (lz_pos s + 1) (lz_hash s, lz_numzeros s)"
      "n = lz_pos s + 2 \<longrightarrow> lz_pos s + 1 < lz_insize a"
    and best: "best_ok a (lz_pos s) (len, off)"
  shows "\<exists>s'. encode_match a len off s = Inr s' \<and> lz_inv a pre s'"
proof -
  let ?pos = "lz_pos s"
  let ?lit = "s\<lparr>lz_pos := ?pos + 1, lz_out := lz_out s @ [unat (lz_in a ! ?pos)]\<rparr>"
  have "lz_decode (lz_out ?lit) pre = Some (take (?pos + 1) (lz_in a))"
    using lz_decode_literal [OF out] s(2) a by (simp add: lz_ok_def)
  then have lit: "lz_inv a pre ?lit" using s rec by (auto simp: lz_inv_def)
  have noerr: "\<not> (len \<ge> 3 \<and> off > lz_windowsize a)" using best by (auto simp: best_ok_def)
  show ?thesis
  proof (cases "len < 3 \<or> len < lz_minmatch a \<or> (len = 3 \<and> off > 4096)")
    case True
    then show ?thesis using lit noerr by (auto simp: encode_match_def Let_def)
  next
    case False
    then have m: "match_ok (lz_in a) ?pos len off" "?pos + len \<le> lz_insize a" "3 \<le> len"
      using best by (auto simp: best_ok_def)
    define k where "k = len - 1"
    have k: "len = Suc k" "0 < k" using m(3) by (auto simp: k_def)
    let ?x = "fold (\<lambda>i. record_position a (?pos + 1 + i)) [0 ..< k] (lz_hash s, lz_numzeros s)"
    have "[1 ..< len] = map Suc [0 ..< k]" by (simp add: k map_Suc_upt)
    then have x: "fold (\<lambda>i. record_position a (?pos + i)) [1 ..< len] (lz_hash s, lz_numzeros s) = ?x"
      by (simp add: fold_map comp_def)
    have "recorded a (?pos + len) (?pos + len) ?x"
      using record_positions_ok [OF a, of "?pos + 1" k, OF _ rec(1)] m(2) k by auto
    then have "lz_inv a pre (s\<lparr>lz_pos := ?pos + len, lz_out := addLengthDistance (lz_out s) len off,
                   lz_hash := fst ?x, lz_numzeros := snd ?x\<rparr>)"
      using lz_decode_match [OF out m(1,3)] m(2) s(1) by (auto simp: lz_inv_def)
    then show ?thesis
      using False noerr unfolding encode_match_def Let_def x by (auto simp: split_beta)
  qed
qed

lemma encode_round_ok:
  assumes a: "lz_ok a" and inv: "lz_inv a pre s" and pos: "lz_pos s < lz_insize a"
  shows "\<exists>s'. encode_round a s = Inr s' \<and> lz_inv a pre s'"
proof -
  let ?pos = "lz_pos s" and ?hv = "unat (getHash (lz_in a) (lz_insize a) (lz_pos s))"
  let ?mc = "if lz_windowsize a \<ge> 8192 then lz_windowsize a else lz_windowsize a div 8"
  let ?ml = "if lz_windowsize a \<ge> 8192 then 258 else 64"
  obtain n where rec: "recorded a n ?pos (lz_hash s, lz_numzeros s)" using inv by (auto simp: lz_inv_def)
  obtain h nz where r: "record_position a ?pos (lz_hash s, lz_numzeros s) = (h, nz)" by fastforce
  have h: "hash_ok (lz_in a) (lz_windowsize a) (?pos + 1) h" "streak a ?pos nz"
    using record_position_ok [OF a pos rec] by (simp_all add: r)
  have W: "0 < lz_windowsize a" using a by (simp add: lz_ok_def)
  have "slot_used (lz_windowsize a) (?pos + 1) (lz_wpos a ?pos)"
    using W by (simp add: slot_used_def lz_wpos_mod [OF a] less_Suc_eq_le)
  then have "slot_used (lz_windowsize a) (?pos + 1) (hash_chain h ! lz_wpos a ?pos)"
    using h(1) by (auto simp: hash_ok_def intro: links_ok_nth)
  from search_match_ok [OF a h pos this, of "(0, 0)" ?hv ?mc 0 0]
  obtain len off where m: "search_match a h ?hv nz ?mc ?pos 0 (hash_chain h ! lz_wpos a ?pos) 0 (0, 0) = (len, off)"
    and best: "best_ok a ?pos (len, off)"
    by (metis best_ok_def fst_conv prod.exhaust)
  have next1: "recorded a (?pos + 1) (?pos + 1) (h, nz)" using h by (auto simp: recorded_def)
  let ?s = "s\<lparr>lz_hash := h, lz_numzeros := nz\<rparr>"
  have out: "lz_decode (lz_out s) pre = Some (take (?pos - of_bool (lz_lazy s)) (lz_in a))"
    using inv by (simp add: lz_inv_def)
  consider (pend) "lz_lazymatching a \<and> \<not> lz_lazy s \<and> len \<ge> 3 \<and> len \<le> ?ml \<and> len < 258"
    | (lazy) "lz_lazymatching a \<and> lz_lazy s"
    | (now) "\<not> (lz_lazymatching a \<and> \<not> lz_lazy s \<and> len \<ge> 3 \<and> len \<le> ?ml \<and> len < 258)"
        "\<not> (lz_lazymatching a \<and> lz_lazy s)" by blast
  then show ?thesis
  proof cases
    case pend
    then have "encode_round a s =
        Inr (?s\<lparr>lz_lazy := True, lz_lazylength := len, lz_lazyoffset := off, lz_pos := ?pos + 1\<rparr>)"
      by (simp add: encode_round_def Let_def r m)
    moreover have "lz_inv a pre (?s\<lparr>lz_lazy := True, lz_lazylength := len, lz_lazyoffset := off, lz_pos := ?pos + 1\<rparr>)"
      using pend next1 best out pos by (auto simp: lz_inv_def)
    ultimately show ?thesis by blast
  next
    case lazy
    then have l: "1 \<le> ?pos" "3 \<le> lz_lazylength s" "best_ok a (?pos - 1) (lz_lazylength s, lz_lazyoffset s)"
      using inv by (auto simp: lz_inv_def)
    show ?thesis
    proof (cases "len > lz_lazylength s + 1")
      case True
      have "?pos - 1 < length (lz_in a)" using pos a unfolding lz_ok_def by linarith
      then have "lz_decode (lz_out s @ [unat (lz_in a ! (?pos - 1))]) pre = Some (take ?pos (lz_in a))"
        using lz_decode_literal [of "lz_out s" pre "?pos - 1" "lz_in a"] out lazy l(1) by simp
      then have "\<exists>s'. encode_match a len off
          (?s\<lparr>lz_lazy := False, lz_out := lz_out s @ [unat (lz_in a ! (?pos - 1))]\<rparr>) = Inr s' \<and> lz_inv a pre s'"
        using next1 pos best by (intro encode_match_ok [OF a, where n = "?pos + 1"]) simp_all
      then show ?thesis using lazy True l(1) by (simp add: encode_round_def Let_def r m)
    next
      case False
      let ?h = "h\<lparr>hash_head := (hash_head h)[?hv := -1], hash_headz := (hash_headz h)[nz := -1]\<rparr>"
      have "hash_ok (lz_in a) (lz_windowsize a) (?pos + 1) ?h"
        using h(1) by (simp add: hash_ok_def heads_ok_update)
      then have "recorded a (?pos + 1) (?pos - 1 + 1) (?h, nz)" using h(2) l(1) by (auto simp: recorded_def)
      moreover have "?pos - 1 + 3 \<le> lz_insize a" using l by (auto simp: best_ok_def)
      ultimately have "\<exists>s'. encode_match a (lz_lazylength s) (lz_lazyoffset s)
          (?s\<lparr>lz_lazy := False, lz_hash := ?h, lz_pos := ?pos - 1\<rparr>) = Inr s' \<and> lz_inv a pre s'"
        using l out lazy by (intro encode_match_ok [OF a, where n = "?pos + 1"]) simp_all
      then show ?thesis using lazy False l(1) by (simp add: encode_round_def Let_def r m)
    qed
  next
    case now
    then have "\<not> lz_lazy s" using inv by (auto simp: lz_inv_def)
    then have "\<exists>s'. encode_match a len off ?s = Inr s' \<and> lz_inv a pre s'"
      using next1 pos best out by (intro encode_match_ok [OF a, where n = "?pos + 1"]) simp_all
    moreover have "encode_round a s = encode_match a len off ?s"
      using now \<open>\<not> lz_lazy s\<close> by (auto simp: encode_round_def Let_def r m)
    ultimately show ?thesis by simp
  qed
qed

lemma encode_loop_ok:
  assumes "lz_ok a" "lz_inv a pre s"
  shows "\<exists>s'. encode_loop a s = Inr s' \<and> lz_inv a pre s' \<and> lz_pos s' = lz_insize a"
  using assms
proof (induction a s rule: encode_loop.induct)
  case (1 a s)
  show ?case
  proof (cases "lz_pos s < lz_insize a")
    case True
    then obtain s' where "encode_round a s = Inr s'" "lz_inv a pre s'"
      using encode_round_ok [OF 1(2,3)] by blast
    then show ?thesis using 1(1) [OF True] 1(2) True by (subst encode_loop.simps) simp
  next
    case False
    moreover have "lz_pos s \<le> lz_insize a" using 1(3) by (simp add: lz_inv_def)
    ultimately show ?thesis using 1(3) by (subst encode_loop.simps) simp
  qed
qed

lemma encodeLZ77_meaning:
  assumes W: "0 < W" "W \<le> 32768" "W AND (W - 1) = 0"
    and data: "inpos \<le> insize" "insize \<le> length data" and h: "hash_ok data W inpos h"
  shows "\<exists>vs h'. encodeLZ77 [] h data inpos insize W minmatch nicematch lazymatching = Inr (vs, h') \<and>
    lz_decode vs (take inpos data) = Some (take insize data) \<and> hash_ok data W insize h'"
proof -
  let ?a = "\<lparr>lz_in = data, lz_insize = insize, lz_windowsize = W, lz_minmatch = minmatch,
    lz_nicematch = (if nicematch > 258 then 258 else nicematch), lz_lazymatching = lazymatching\<rparr>"
  let ?s = "\<lparr>lz_pos = inpos, lz_lazy = False, lz_lazylength = 0, lz_lazyoffset = 0, lz_numzeros = 0,
    lz_hash = h, lz_out = []\<rparr>"
  have a: "lz_ok ?a" using W data by (simp add: lz_ok_def)
  have "streak ?a inpos 0" using data by (simp add: streak_def)
  then have "recorded ?a inpos inpos (h, 0)" using h by (auto simp: recorded_def)
  then have "lz_inv ?a (take inpos data) ?s" using data by (auto simp: lz_inv_def)
  then obtain s' where s': "encode_loop ?a ?s = Inr s'" "lz_inv ?a (take inpos data) s'" "lz_pos s' = insize"
    using encode_loop_ok [OF a] by auto
  have nl: "\<not> lz_lazy s'" using s'(2,3) by (auto simp: lz_inv_def best_ok_def)
  have "encodeLZ77 [] h data inpos insize W minmatch nicematch lazymatching = Inr (lz_out s', lz_hash s')"
    using W s'(1) by (simp add: encodeLZ77_def Let_def)
  moreover have "hash_ok data W insize (lz_hash s')"
    using s'(2,3) by (auto simp: lz_inv_def recorded_def)
  moreover have "lz_decode (lz_out s') (take inpos data) = Some (take insize data)"
    using s'(2,3) nl by (simp add: lz_inv_def)
  ultimately show ?thesis by blast
qed

text \<open>C31: 
  The LZ77 encoder never fails on a legal window size, and its symbols decode to the part of the
  data it was given, in front of which the earlier parts may be referred to; the hash is then
  ready for the next part. Lazy matching and the skipping of zeros are included.
\<close>

theorem encodeLZ77_decodes:
  assumes "0 < W" "W \<le> 32768" "W AND (W - 1) = 0" "inpos \<le> insize" "insize \<le> length data"
    "hash_ok data W inpos h"
  shows "\<exists>vs h'. encodeLZ77 [] h data inpos insize W minmatch nicematch lazymatching = Inr (vs, h') \<and>
    lz_decode vs (take inpos data) = Some (take insize data) \<and> hash_ok data W insize h'"
  by (rule encodeLZ77_meaning [OF assms])

lemma encodeLZ77_decodes_witness:
  "\<exists>vs h'. encodeLZ77 [] (hash_init (\<lambda>i. i) 1024) [7, 0, 7, 0, 7, 0] 0 6 1024 3 128 True = Inr (vs, h') \<and>
    lz_decode vs (take 0 [7, 0, 7, 0, 7, 0]) = Some (take 6 [7, 0, 7, 0, 7, 0]) \<and>
    hash_ok [7, 0, 7, 0, 7, 0] 1024 6 h'"
  by (rule encodeLZ77_decodes) (simp_all add: hash_init_ok)

end
