(* ===== verification/Png_Tree.thy ===== *)
theory Png_Tree
  imports Png_Huffman "HOL-Library.Sublist"
begin

unbundle bit_operations_syntax

text \<open>
  The Huffman trees of \<open>lodepng.cpp\<close> decode what they encode. For code lengths that are complete (the
  code words fill the space of all bit strings), building the lookup table succeeds, and looking up
  any bits that begin with the code word of a symbol gives the symbol and the length of the word.
\<close>

section \<open>Canonical codes\<close>

text \<open>
  The code lengths of a tree, at most 15. A word of length \<open>l\<close> takes \<open>2 ^ (15 - l)\<close> of the \<open>2 ^ 15\<close>
  strings of 15 bits.
\<close>

definition weight :: "nat list \<Rightarrow> nat \<Rightarrow> nat" where
  "weight ls i = 2 ^ (15 - ls ! i)"

definition symbols :: "nat list \<Rightarrow> nat set" where
  "symbols ls = {i. i < length ls \<and> 0 < ls ! i}"

definition complete :: "nat list \<Rightarrow> bool" where
  "complete ls \<longleftrightarrow> (\<forall>l \<in> set ls. l \<le> 15) \<and> sum (weight ls) (symbols ls) = 2 ^ 15"

text \<open>Codes are given out by length, then by symbol; \<open>earlier\<close> are the symbols before \<open>i\<close>.\<close>

definition earlier :: "nat list \<Rightarrow> nat \<Rightarrow> nat set" where
  "earlier ls i = {j \<in> symbols ls. ls ! j < ls ! i \<or> ls ! j = ls ! i \<and> j < i}"

definition count_len :: "nat list \<Rightarrow> nat \<Rightarrow> nat" where
  "count_len ls l = length (filter (\<lambda>k. k = l) ls)"

primrec first_code :: "nat list \<Rightarrow> nat \<Rightarrow> nat" where
  "first_code ls 0 = 0"
| "first_code ls (Suc l) = 2 * (first_code ls l + (if l = 0 then 0 else count_len ls l))"

definition code_of :: "nat list \<Rightarrow> nat \<Rightarrow> nat" where
  "code_of ls i = first_code ls (ls ! i) + count_len (take i ls) (ls ! i)"

lemma count_len_card: "count_len ls l = card {i. i < length ls \<and> ls ! i = l}"
  by (simp add: count_len_def length_filter_conv_card)

lemma count_len_take: "i \<le> length ls \<Longrightarrow> count_len (take i ls) l = card {j. j < i \<and> ls ! j = l}"
  by (auto simp: count_len_card intro!: arg_cong [where f = card])

lemma finite_symbols [simp]: "finite (symbols ls)"
  by (simp add: symbols_def)

lemma first_code_weights:
  "l \<le> 15 \<Longrightarrow> first_code ls l * 2 ^ (15 - l) = sum (weight ls) {j \<in> symbols ls. ls ! j < l}"
proof (induction l)
  case 0
  then show ?case by simp
next
  case (Suc l)
  let ?A = "{j \<in> symbols ls. ls ! j < l}" and ?B = "{j \<in> symbols ls. ls ! j = l}"
  have "card ?B = (if l = 0 then 0 else count_len ls l)"
    by (auto simp: symbols_def count_len_card intro!: arg_cong [where f = card])
  moreover have "sum (weight ls) ?B = card ?B * 2 ^ (15 - l)" by (simp add: weight_def)
  moreover have "{j \<in> symbols ls. ls ! j < Suc l} = ?A \<union> ?B" by auto
  moreover have "sum (weight ls) (?A \<union> ?B) = sum (weight ls) ?A + sum (weight ls) ?B"
    by (rule sum.union_disjoint) auto
  ultimately have "sum (weight ls) {j \<in> symbols ls. ls ! j < Suc l} =
      (first_code ls l + (if l = 0 then 0 else count_len ls l)) * 2 ^ (15 - l)"
    using Suc by (simp add: algebra_simps)
  moreover have "(2 :: nat) ^ (15 - l) = 2 * 2 ^ (15 - Suc l)"
    using Suc.prems by (simp flip: power_Suc add: Suc_diff_Suc)
  ultimately show ?case by simp
qed

text \<open>The position of a code among the strings of 15 bits.\<close>

lemma code_position:
  assumes "i \<in> symbols ls" "ls ! i \<le> 15"
  shows "code_of ls i * 2 ^ (15 - ls ! i) = sum (weight ls) (earlier ls i)"
proof -
  let ?A = "{j \<in> symbols ls. ls ! j < ls ! i}" and ?B = "{j \<in> symbols ls. ls ! j = ls ! i \<and> j < i}"
  have i: "i < length ls" "0 < ls ! i" using assms(1) by (simp_all add: symbols_def)
  have "?B = {j. j < i \<and> ls ! j = ls ! i}" using i by (auto simp: symbols_def)
  then have "card ?B = count_len (take i ls) (ls ! i)" using i by (simp add: count_len_take)
  moreover have "sum (weight ls) ?B = card ?B * 2 ^ (15 - ls ! i)" by (simp add: weight_def)
  moreover have "earlier ls i = ?A \<union> ?B" by (auto simp: earlier_def)
  moreover have "sum (weight ls) (?A \<union> ?B) = sum (weight ls) ?A + sum (weight ls) ?B"
    by (rule sum.union_disjoint) auto
  ultimately show ?thesis
    using first_code_weights [OF assms(2), of ls] by (simp add: code_of_def algebra_simps)
qed

lemma earlier_disjoint:
  assumes "i \<in> symbols ls" "j \<in> symbols ls" "i \<noteq> j"
  shows "sum (weight ls) (earlier ls i) + weight ls i \<le> sum (weight ls) (earlier ls j) \<or>
    sum (weight ls) (earlier ls j) + weight ls j \<le> sum (weight ls) (earlier ls i)"
proof -
  have *: "sum (weight ls) (earlier ls a) + weight ls a \<le> sum (weight ls) (earlier ls b)"
    if "a \<in> earlier ls b" for a b
  proof -
    have fin: "finite (earlier ls a)" "finite (earlier ls b)" by (simp_all add: earlier_def)
    have "insert a (earlier ls a) \<subseteq> earlier ls b" using that by (auto simp: earlier_def)
    then have "sum (weight ls) (insert a (earlier ls a)) \<le> sum (weight ls) (earlier ls b)"
      using fin by (intro sum_mono2) auto
    moreover have "a \<notin> earlier ls a" by (simp add: earlier_def)
    ultimately show ?thesis using fin by simp
  qed
  have "i \<in> earlier ls j \<or> j \<in> earlier ls i" using assms by (auto simp: earlier_def)
  then show ?thesis using * by blast
qed

lemma earlier_fits:
  assumes "complete ls" "i \<in> symbols ls"
  shows "sum (weight ls) (earlier ls i) + weight ls i \<le> 2 ^ 15"
proof -
  have "insert i (earlier ls i) \<subseteq> symbols ls" using assms(2) by (auto simp: earlier_def)
  then have "sum (weight ls) (insert i (earlier ls i)) \<le> 2 ^ 15"
    using assms(1) sum_mono2 [of "symbols ls" "insert i (earlier ls i)" "weight ls"] by (simp add: complete_def)
  moreover have "i \<notin> earlier ls i" "finite (earlier ls i)" by (simp_all add: earlier_def)
  ultimately show ?thesis by simp
qed

lemma complete_iff:
  "complete ls \<longleftrightarrow> list_all (\<lambda>l. l \<le> 15) ls \<and>
     (\<Sum>l \<leftarrow> ls. if l = 0 then 0 else 2 ^ (15 - l)) = (2 :: nat) ^ 15"
proof -
  have "sum (weight ls) (symbols ls) = (\<Sum>i \<in> {0 ..< length ls}. if ls ! i = 0 then 0 else 2 ^ (15 - ls ! i))"
    by (rule sum.mono_neutral_cong_left) (auto simp: symbols_def weight_def)
  also have "\<dots> = (\<Sum>l \<leftarrow> ls. if l = 0 then 0 else 2 ^ (15 - l))"
    by (simp add: sum_list_sum_nth)
  finally show ?thesis by (simp add: complete_def list_all_iff)
qed

lemma complete_len: "complete ls \<Longrightarrow> i < length ls \<Longrightarrow> ls ! i \<le> 15"
  by (simp add: complete_def)

lemma code_less:
  assumes "complete ls" "i \<in> symbols ls"
  shows "code_of ls i < 2 ^ (ls ! i)"
proof -
  have l: "ls ! i \<le> 15" using assms complete_len by (auto simp: symbols_def)
  have "code_of ls i * 2 ^ (15 - ls ! i) + 2 ^ (15 - ls ! i) \<le> 2 ^ 15"
    using earlier_fits [OF assms] code_position [OF assms(2) l] by (simp add: weight_def)
  also have "(2 :: nat) ^ 15 = 2 ^ (ls ! i) * 2 ^ (15 - ls ! i)" using l by (simp flip: power_add)
  finally have "(code_of ls i + 1) * 2 ^ (15 - ls ! i) \<le> 2 ^ (ls ! i) * 2 ^ (15 - ls ! i)" by simp
  then have "code_of ls i + 1 \<le> 2 ^ (ls ! i)" by (simp only: mult_le_cancel2) simp
  then show ?thesis by simp
qed

text \<open>The words fill the space.\<close>

lemma position_covered:
  assumes "complete ls" "x < 2 ^ 15"
  shows "\<exists>i \<in> symbols ls. sum (weight ls) (earlier ls i) \<le> x \<and>
    x < sum (weight ls) (earlier ls i) + weight ls i"
proof -
  let ?I = "\<lambda>i. {sum (weight ls) (earlier ls i) ..< sum (weight ls) (earlier ls i) + weight ls i}"
  have "card (\<Union>(?I ` symbols ls)) = sum (\<lambda>i. card (?I i)) (symbols ls)"
  proof (rule card_UN_disjoint)
    show "\<forall>i \<in> symbols ls. \<forall>j \<in> symbols ls. i \<noteq> j \<longrightarrow> ?I i \<inter> ?I j = {}"
      using earlier_disjoint [of _ ls] by fastforce
  qed auto
  also have "\<dots> = 2 ^ 15" using assms(1) by (simp add: complete_def)
  finally have "card (\<Union>(?I ` symbols ls)) = card {..< 2 ^ 15 :: nat}" by simp
  moreover have "\<Union>(?I ` symbols ls) \<subseteq> {..< 2 ^ 15}" using earlier_fits [OF assms(1)] by fastforce
  ultimately have "\<Union>(?I ` symbols ls) = {..< 2 ^ 15}" by (intro card_subset_eq) auto
  then have "x \<in> \<Union>(?I ` symbols ls)" using assms(2) by simp
  then show ?thesis by fastforce
qed

section \<open>Code words\<close>

text \<open>The word of a symbol, and the value of a word read from its most significant bit.\<close>

definition word_of :: "nat list \<Rightarrow> nat \<Rightarrow> bool list" where
  "word_of ls i = rev (map (bit (code_of ls i)) [0 ..< ls ! i])"

definition msb :: "bool list \<Rightarrow> nat" where
  "msb bs = bits_val (rev bs)"

lemma length_word_of [simp]: "length (word_of ls i) = ls ! i"
  by (simp add: word_of_def)

lemma bits_val_less: "bits_val bs < 2 ^ length bs"
  by (induction bs) auto

lemma bits_val_append: "bits_val (xs @ ys) = bits_val xs + 2 ^ length xs * bits_val ys"
  by (induction xs) (auto simp: algebra_simps)

lemma bits_val_inj: "length xs = length ys \<Longrightarrow> bits_val xs = bits_val ys \<Longrightarrow> xs = ys"
proof (induction xs ys rule: list_induct2)
  case (Cons x xs y ys)
  from Cons.prems have "x = y \<and> bits_val xs = bits_val ys" by (cases x; cases y) (simp_all, presburger+)
  then show ?case using Cons.IH by simp
qed simp

lemma bits_val_ex: "v < 2 ^ n \<Longrightarrow> \<exists>bs. length bs = n \<and> bits_val bs = v"
  by (rule exI [of _ "map (bit v) [0 ..< n]"]) (simp add: horner_sum_bit_eq_take_bit take_bit_nat_eq_self)

lemma msb_append: "msb (xs @ ys) = msb xs * 2 ^ length ys + msb ys"
  by (simp add: msb_def bits_val_append)

lemma msb_word:
  assumes "complete ls" "i \<in> symbols ls"
  shows "msb (word_of ls i) = code_of ls i"
  using code_less [OF assms]
  by (simp add: msb_def word_of_def horner_sum_bit_eq_take_bit take_bit_nat_eq_self)

lemma msb_inj: "length xs = length ys \<Longrightarrow> msb xs = msb ys \<Longrightarrow> xs = ys"
  using bits_val_inj [of "rev xs" "rev ys"] by (simp add: msb_def)

lemma msb_less: "msb bs < 2 ^ length bs"
  using bits_val_less [of "rev bs"] by (simp add: msb_def)

lemma div_eq_bounds:
  fixes m q w :: nat
  assumes "0 < w"
  shows "m div w = q \<longleftrightarrow> q * w \<le> m \<and> m < q * w + w"
proof
  assume "m div w = q"
  then show "q * w \<le> m \<and> m < q * w + w"
    using assms dividend_less_div_times [of w m] div_times_less_eq_dividend [of m w] by (auto simp: add.commute)
next
  assume "q * w \<le> m \<and> m < q * w + w"
  then show "m div w = q" by (intro div_nat_eqI) (simp_all add: mult.commute)
qed

lemma prefix_position:
  assumes "complete ls" "i \<in> symbols ls" "length bs = 15"
  shows "prefix (word_of ls i) bs \<longleftrightarrow> sum (weight ls) (earlier ls i) \<le> msb bs \<and>
    msb bs < sum (weight ls) (earlier ls i) + weight ls i"
proof -
  have l: "ls ! i \<le> 15" using assms(1,2) complete_len by (auto simp: symbols_def)
  let ?w = "2 ^ (15 - ls ! i) :: nat" and ?xs = "take (ls ! i) bs" and ?ys = "drop (ls ! i) bs"
  have S: "sum (weight ls) (earlier ls i) = code_of ls i * ?w" using code_position [OF assms(2) l] by simp
  have bs: "msb bs = msb ?xs * ?w + msb ?ys" using msb_append [of ?xs ?ys] assms(3) by simp
  have ys: "msb ?ys < ?w" using msb_less [of ?ys] assms(3) by simp
  have "prefix (word_of ls i) bs \<longleftrightarrow> ?xs = word_of ls i"
    by (metis append_take_drop_id length_word_of prefixI prefix_def append_eq_conv_conj)
  also have "\<dots> \<longleftrightarrow> msb ?xs = code_of ls i"
    using msb_inj [of ?xs "word_of ls i"] msb_word [OF assms(1,2)] assms(3) l by auto
  also have "\<dots> \<longleftrightarrow> msb bs div ?w = code_of ls i" using ys by (simp add: bs)
  also have "\<dots> \<longleftrightarrow> code_of ls i * ?w \<le> msb bs \<and> msb bs < code_of ls i * ?w + ?w"
    by (rule div_eq_bounds) simp
  finally show ?thesis unfolding S by (simp add: weight_def)
qed

lemma no_prefix:
  assumes "complete ls" "i \<in> symbols ls" "j \<in> symbols ls" "prefix (word_of ls i) (word_of ls j)"
  shows "i = j"
proof (rule ccontr)
  assume ne: "i \<noteq> j"
  have l: "ls ! j \<le> 15" using assms(1,3) complete_len by (auto simp: symbols_def)
  let ?bs = "word_of ls j @ replicate (15 - ls ! j) False"
  have "length ?bs = 15" using l by simp
  moreover have "prefix (word_of ls i) ?bs" "prefix (word_of ls j) ?bs" using assms(4) by auto
  ultimately show False
    using prefix_position [OF assms(1,2), of ?bs] prefix_position [OF assms(1,3), of ?bs]
      earlier_disjoint [OF assms(2,3) ne] by linarith
qed

lemma words_apart:
  assumes "complete ls" "i \<in> symbols ls" "j \<in> symbols ls" "prefix (word_of ls i) bs" "prefix (word_of ls j) bs"
  shows "i = j"
  using prefix_same_cases [OF assms(4,5)] no_prefix assms(1-3) by blast

lemma words_cover:
  assumes "complete ls" "length bs = 15"
  shows "\<exists>i \<in> symbols ls. prefix (word_of ls i) bs"
proof -
  have "msb bs < 2 ^ 15" using msb_less [of bs] assms(2) by simp
  then show ?thesis using position_covered [OF assms(1)] prefix_position [OF assms(1) _ assms(2)] by blast
qed

section \<open>The codes of the program are these\<close>

lemma count_lengths_nth:
  assumes "\<forall>l \<in> set ls. l \<le> m" "k \<le> m"
  shows "count_lengths ls m ! k = word_of_nat (count_len ls k)"
proof -
  have "length (fold (\<lambda>l bl. bl[l := bl ! l + 1]) ls b) = length b" for b :: "u32 list"
    by (induction ls arbitrary: b) auto
  have "fold (\<lambda>l bl. bl[l := bl ! l + 1]) ls b ! k = b ! k + word_of_nat (count_len ls k)"
    if "length b = m + 1" for b :: "u32 list"
    using assms(1) that
  proof (induction ls arbitrary: b)
    case (Cons l ls)
    then show ?case using assms(2) by (auto simp: count_len_def nth_list_update)
  qed (simp add: count_len_def)
  moreover have "replicate (m + 1) (0 :: u32) ! k = 0" using assms(2) by (simp del: replicate.simps)
  ultimately show ?thesis by (simp add: count_lengths_def del: replicate.simps)
qed

text \<open>The symbols without a code shift the codes of length \<open>l\<close> by a multiple of \<open>2 ^ l\<close>, which is masked away.\<close>

lemma next_codes_nth:
  assumes "\<forall>l \<in> set ls. l \<le> m" "k \<le> m"
  shows "next_codes (count_lengths ls m) m ! k =
    word_of_nat (first_code ls k + (if k = 0 then 0 else count_len ls 0 * 2 ^ k))"
proof -
  let ?f = "\<lambda>bits nextcode. nextcode[bits := push_bit 1 (nextcode ! (bits - 1) + count_lengths ls m ! (bits - 1))]"
  let ?v = "\<lambda>k. word_of_nat (first_code ls k + (if k = 0 then 0 else count_len ls 0 * 2 ^ k)) :: u32"
  have "length (fold ?f [1 ..< Suc n] (replicate (m + 1) 0)) = m + 1 \<and>
    (\<forall>k \<le> n. fold ?f [1 ..< Suc n] (replicate (m + 1) 0) ! k = ?v k)" if "n \<le> m" for n
    using that
  proof (induction n)
    case (Suc n)
    let ?b = "fold ?f [1 ..< Suc n] (replicate (m + 1) 0)"
    have b: "length ?b = m + 1" "?b ! k = ?v k" if "k \<le> n" for k using Suc that by auto
    have bn: "length ?b = m + 1" "?b ! n = ?v n" using b [of n] by simp_all
    have e: "fold ?f [1 ..< Suc (Suc n)] (replicate (m + 1) 0) =
      ?b[Suc n := push_bit 1 (?b ! n + count_lengths ls m ! n)]" by simp
    have "push_bit 1 (?b ! n + count_lengths ls m ! n) = ?v (Suc n)"
      using count_lengths_nth [OF assms(1), of n] Suc.prems unfolding bn
      by (cases n) (simp_all add: push_bit_eq_mult algebra_simps)
    then show ?case
      unfolding e using bn b Suc.prems by (auto simp: nth_list_update le_Suc_eq)
  qed simp
  from this [of m] assms(2) show ?thesis by (simp add: next_codes_def)
qed

lemma assign_codes_nth:
  assumes "\<forall>l \<in> set ls. l \<le> m" "length nc = m + 1" "i < length ls" "0 < ls ! i"
  shows "assign_codes ls nc ! i =
    (nc ! (ls ! i) + word_of_nat (count_len (take i ls) (ls ! i))) AND (push_bit (ls ! i) 1 - 1)"
proof -
  define f where "f = (\<lambda>n (cs, nextcode).
         (let l = ls ! n in
          if l \<noteq> 0 then (cs[n := nextcode ! l AND (push_bit l 1 - 1)], nextcode[l := nextcode ! l + 1])
          else (cs, nextcode)) :: u32 list \<times> u32 list)"
  define st where "st n = fold f [0 ..< n] (replicate (length ls) 0, nc)" for n
  have st_Suc: "st (Suc n) = f n (st n)" for n by (simp add: st_def)
  have "length (fst (st n)) = length ls \<and> length (snd (st n)) = m + 1 \<and>
    (\<forall>l. 0 < l \<longrightarrow> l \<le> m \<longrightarrow> snd (st n) ! l = nc ! l + word_of_nat (count_len (take n ls) l)) \<and>
    (\<forall>i < n. 0 < ls ! i \<longrightarrow> fst (st n) ! i =
       (nc ! (ls ! i) + word_of_nat (count_len (take i ls) (ls ! i))) AND (push_bit (ls ! i) 1 - 1))"
    if "n \<le> length ls" for n
    using that
  proof (induction n)
    case 0
    then show ?case using assms(2) by (simp add: st_def count_len_def)
  next
    case (Suc n)
    obtain cs nx where s: "st n = (cs, nx)" by fastforce
    have n: "n < length ls" "ls ! n \<le> m" using Suc.prems assms(1) by auto
    have c: "count_len (take (Suc n) ls) l = count_len (take n ls) l + (if ls ! n = l then 1 else 0)" for l
      using n by (simp add: count_len_def take_Suc_conv_app_nth)
    show ?case
    proof (cases "ls ! n = 0")
      case True
      then have "st (Suc n) = (cs, nx)" by (simp add: st_Suc s f_def)
      then show ?thesis using Suc True by (auto simp: s c less_Suc_eq)
    next
      case False
      then have "st (Suc n) = (cs[n := nx ! (ls ! n) AND (push_bit (ls ! n) 1 - 1)],
          nx[ls ! n := nx ! (ls ! n) + 1])"
        by (simp add: st_Suc s f_def Let_def)
      moreover have "ls ! n < length nx" using Suc n by (simp add: s)
      ultimately show ?thesis
        using Suc False n by (auto simp: s c nth_list_update less_Suc_eq)
    qed
  qed
  from this [of "length ls"] assms(3,4) show ?thesis
    by (simp add: assign_codes_def st_def f_def)
qed

lemma length_next_codes: "length (next_codes b m) = m + 1"
proof -
  have "length (fold (\<lambda>bits nextcode. nextcode[bits := push_bit 1 (nextcode ! (bits - 1) + b ! (bits - 1))])
    xs c) = length c" for xs c by (induction xs arbitrary: c) auto
  then show ?thesis by (simp add: next_codes_def)
qed

lemma unat_mask_code: "l \<le> 32 \<Longrightarrow> unat (word_of_nat n AND (push_bit l 1 - 1) :: u32) = n mod 2 ^ l"
proof -
  assume "l \<le> 32"
  have m: "push_bit l 1 - 1 = (mask l :: u32)" by (simp add: push_bit_eq_mult mask_eq_exp_minus_1)
  have "unat (word_of_nat n AND mask l :: u32) = take_bit l (unat (word_of_nat n :: u32))"
    by (simp add: unsigned_take_bit_eq flip: take_bit_eq_mask)
  also have "\<dots> = n mod 2 ^ l"
    using mod_mod_cancel [OF le_imp_power_dvd [OF \<open>l \<le> 32\<close>], of n 2] by (simp add: take_bit_eq_mod unat_of_nat)
  finally show ?thesis unfolding m .
qed

lemma assigned_code:
  assumes "complete ls" "\<forall>l \<in> set ls. l \<le> m" "i \<in> symbols ls"
  shows "unat (assign_codes ls (next_codes (count_lengths ls m) m) ! i) = code_of ls i"
proof -
  have i: "i < length ls" "0 < ls ! i" "ls ! i \<le> m" "ls ! i \<le> 32"
    using assms complete_len [OF assms(1), of i] by (auto simp: symbols_def)
  have "assign_codes ls (next_codes (count_lengths ls m) m) ! i =
    word_of_nat (code_of ls i + count_len ls 0 * 2 ^ (ls ! i)) AND (push_bit (ls ! i) 1 - 1)"
    using assign_codes_nth [OF assms(2) length_next_codes i(1,2)] next_codes_nth [OF assms(2) i(3)] i(2)
    by (simp add: code_of_def algebra_simps)
  then have "unat (assign_codes ls (next_codes (count_lengths ls m) m) ! i) = code_of ls i mod 2 ^ (ls ! i)"
    by (simp only: unat_mask_code [OF i(4)]) simp
  then show ?thesis using code_less [OF assms(1,3)] by simp
qed

section \<open>Building the table\<close>

text \<open>
  A tree whose codes are the canonical ones. Its table is indexed with the bits of the stream, the
  first bit being the least significant, so a word has the index \<open>bits_val\<close>.
\<close>

definition canonical :: "HuffmanTree \<Rightarrow> bool" where
  "canonical tree \<longleftrightarrow> complete (lengths tree) \<and> numcodes tree = length (lengths tree) \<and>
     (\<forall>i \<in> symbols (lengths tree). unat (codes tree ! i) = code_of (lengths tree) i)"

lemma bits_val_bit: "j < 2 ^ m \<Longrightarrow> bits_val (map (bit j) [0 ..< m]) = j"
  by (simp add: horner_sum_bit_eq_take_bit take_bit_nat_eq_self)

lemma reverseBits_word:
  assumes "canonical tree" "i \<in> symbols (lengths tree)" "k \<le> lengths tree ! i"
  shows "unat (reverseBits (drop_bit (lengths tree ! i - k) (codes tree ! i)) k) =
    bits_val (take k (word_of (lengths tree) i))"
proof -
  let ?l = "lengths tree ! i" and ?c = "codes tree ! i"
  let ?r = "reverseBits (drop_bit (?l - k) ?c) k"
  have l: "?l \<le> 15" using assms(1,2) complete_len by (auto simp: canonical_def symbols_def)
  have "map (bit ?r) [0 ..< k] = take k (word_of (lengths tree) i)"
  proof (rule nth_equalityI)
    fix n assume "n < length (map (bit ?r) [0 ..< k])"
    then have n: "n < k" by simp
    have "bit ?r n \<longleftrightarrow> bit ?c (?l - 1 - n)"
      using n l assms(3) by (auto simp: bit_reverseBits bit_drop_bit_eq)
    also have "\<dots> \<longleftrightarrow> bit (unat ?c) (?l - 1 - n)" by (simp add: bit_unsigned_iff)
    also have "unat ?c = code_of (lengths tree) i" using assms(1,2) by (simp add: canonical_def)
    finally show "map (bit ?r) [0 ..< k] ! n = take k (word_of (lengths tree) i) ! n"
      using n assms(3) by (simp add: word_of_def rev_nth)
  qed (use assms(3) in simp)
  moreover have "take_bit k ?r = ?r"
    by (rule bit_word_eqI) (auto simp: bit_take_bit_iff bit_reverseBits)
  ultimately show ?thesis using take_bit_unat_bits [of k ?r] by simp
qed

lemma reverseBits_code:
  assumes "canonical tree" "i \<in> symbols (lengths tree)"
  shows "unat (reverseBits (codes tree ! i) (lengths tree ! i)) = bits_val (word_of (lengths tree) i)"
  using reverseBits_word [OF assms order_refl] by simp

lemma or_index:
  assumes "unat (r :: u32) = bits_val xs" "j < 2 ^ m" "length xs + m \<le> 32"
  shows "unat (r OR push_bit (length xs) (word_of_nat j)) = bits_val (xs @ map (bit j) [0 ..< m])"
proof -
  let ?l = "length xs"
  have "2 ^ ?l * j < 2 ^ ?l * 2 ^ m" using assms(2) by simp
  also have "\<dots> \<le> (2 :: nat) ^ 32"
    using power_increasing [OF assms(3), of "2 :: nat"] by (simp flip: power_add)
  finally have j: "2 ^ ?l * j < 2 ^ 32" .
  have "unat (push_bit ?l (word_of_nat j) :: u32) = 2 ^ ?l * j"
  proof -
    have "push_bit ?l (word_of_nat j) = (word_of_nat (2 ^ ?l * j) :: u32)" by (simp add: push_bit_eq_mult ac_simps)
    then have "unat (push_bit ?l (word_of_nat j) :: u32) = (2 ^ ?l * j) mod 2 ^ 32"
      by (simp only: unat_of_nat) simp
    then show ?thesis using j by simp
  qed
  then have "unat (r OR push_bit ?l (word_of_nat j)) = bits_val xs OR push_bit ?l j"
    by (simp add: unsigned_or_eq assms(1) push_bit_eq_mult ac_simps)
  also have "\<dots> = bits_val xs + push_bit ?l j"
  proof (rule disjunctive_add_eq_or [symmetric], rule bit_eqI)
    fix n
    have "\<not> bit (bits_val xs) n" if "?l \<le> n"
      using bits_val_less [of xs] that by (metis bit_take_bit_iff not_le take_bit_nat_eq_self)
    then show "bit (bits_val xs AND push_bit ?l j) n = bit 0 n"
      by (auto simp: bit_and_iff bit_push_bit_iff)
  qed
  finally show ?thesis using bits_val_bit [OF assms(2)] by (simp add: bits_val_append push_bit_eq_mult ac_simps)
qed

text \<open>Bit strings and indices.\<close>

lemma bits_val_eq_iff: "length xs = length ys \<Longrightarrow> bits_val xs = bits_val ys \<longleftrightarrow> xs = ys"
  using bits_val_inj by blast

subsection \<open>The sizes of the second tables\<close>

definition long_symbols :: "nat list \<Rightarrow> nat set" where
  "long_symbols ls = {i \<in> symbols ls. 9 < ls ! i}"

definition first_index :: "nat list \<Rightarrow> nat \<Rightarrow> nat" where
  "first_index ls i = bits_val (take 9 (word_of ls i))"

lemma first_index_less: "first_index ls i < 512"
  using bits_val_less [of "take 9 (word_of ls i)"] power_increasing [of "min (ls ! i) 9" 9 "2 :: nat"]
  by (simp add: first_index_def min.commute)

lemma table_maxlens_props:
  assumes c: "canonical tree"
  defines "ls \<equiv> lengths tree"
  shows "length (table_maxlens tree) = 512"
    and "i \<in> long_symbols ls \<Longrightarrow> ls ! i \<le> table_maxlens tree ! first_index ls i"
    and "x < 512 \<Longrightarrow> table_maxlens tree ! x = 0 \<or>
      (\<exists>i \<in> long_symbols ls. first_index ls i = x \<and> ls ! i = table_maxlens tree ! x)"
proof -
  define f where "f = (\<lambda>i maxlens.
         (let symbol = codes tree ! i; l = lengths tree ! i in
          if l \<le> FIRSTBITS then maxlens
          else (let index = unat (reverseBits (drop_bit (l - FIRSTBITS) symbol) FIRSTBITS) in
                maxlens[index := max (maxlens ! index) l])))"
  define st where "st n = fold f [0 ..< n] (replicate (2 ^ FIRSTBITS) 0)" for n
  have st_Suc: "st (Suc n) = f n (st n)" for n by (simp add: st_def)
  have f_long: "f i ms = ms[first_index ls i := max (ms ! first_index ls i) (ls ! i)]"
    if "i \<in> long_symbols ls" for i ms
    using that reverseBits_word [OF c, of i 9]
    by (simp add: f_def ls_def long_symbols_def first_index_def Let_def)
  have f_short: "f i ms = ms" if "i < length ls" "i \<notin> long_symbols ls" for i ms
    using that by (auto simp: f_def ls_def long_symbols_def symbols_def Let_def)
  have "length (st n) = 512 \<and>
    (\<forall>i \<in> long_symbols ls. i < n \<longrightarrow> ls ! i \<le> st n ! first_index ls i) \<and>
    (\<forall>x < 512. st n ! x = 0 \<or> (\<exists>i \<in> long_symbols ls. i < n \<and> first_index ls i = x \<and> ls ! i = st n ! x))"
    if "n \<le> length ls" for n
    using that
  proof (induction n)
    case (Suc n)
    then have IH: "length (st n) = 512"
      "\<forall>i \<in> long_symbols ls. i < n \<longrightarrow> ls ! i \<le> st n ! first_index ls i"
      "\<forall>x < 512. st n ! x = 0 \<or> (\<exists>i \<in> long_symbols ls. i < n \<and> first_index ls i = x \<and> ls ! i = st n ! x)"
      by simp_all
    show ?case
    proof (cases "n \<in> long_symbols ls")
      case False
      then show ?thesis using IH Suc.prems by (auto simp: st_Suc f_short less_Suc_eq)
    next
      case True
      have up: "st (Suc n) = (st n)[first_index ls n := max (st n ! first_index ls n) (ls ! n)]"
        by (simp add: st_Suc f_long [OF True])
      have nth: "st (Suc n) ! x = (if x = first_index ls n then max (st n ! x) (ls ! n) else st n ! x)"
        if "x < 512" for x using that IH(1) by (simp add: up nth_list_update)
      have "ls ! i \<le> st (Suc n) ! first_index ls i" if "i \<in> long_symbols ls" "i < Suc n" for i
        using that IH(2) nth [OF first_index_less, of ls i] by (auto simp: less_Suc_eq le_max_iff_disj)
      moreover have "st (Suc n) ! x = 0 \<or> (\<exists>i \<in> long_symbols ls. i < Suc n \<and> first_index ls i = x \<and> ls ! i = st (Suc n) ! x)"
        if x: "x < 512" for x
      proof (cases "x = first_index ls n \<and> st n ! x \<le> ls ! n")
        case t: True
        then have "first_index ls n = x" "ls ! n = st (Suc n) ! x" using nth [OF x] by (auto simp: max_def)
        then show ?thesis using True by blast
      next
        case f: False
        then have "st (Suc n) ! x = st n ! x" using nth [OF x] by (auto simp: max_def)
        then show ?thesis using IH(3) x less_SucI by metis
      qed
      ultimately show ?thesis using IH(1) by (simp add: up)
    qed
  qed (simp add: st_def)
  from this [OF order_refl]
  have st: "length (st (length ls)) = 512"
    "\<And>i. i \<in> long_symbols ls \<Longrightarrow> i < length ls \<Longrightarrow> ls ! i \<le> st (length ls) ! first_index ls i"
    "\<And>x. x < 512 \<Longrightarrow> st (length ls) ! x = 0 \<or>
      (\<exists>i \<in> long_symbols ls. first_index ls i = x \<and> ls ! i = st (length ls) ! x)"
    by blast+
  have eq: "table_maxlens tree = st (length ls)"
    using c by (simp add: table_maxlens_def st_def f_def canonical_def ls_def)
  have lt: "i < length ls" if "i \<in> long_symbols ls" for i
    using that by (simp add: long_symbols_def symbols_def)
  show "length (table_maxlens tree) = 512" unfolding eq by (rule st(1))
  show "i \<in> long_symbols ls \<Longrightarrow> ls ! i \<le> table_maxlens tree ! first_index ls i"
    unfolding eq by (rule st(2)) (simp_all add: lt)
  show "x < 512 \<Longrightarrow> table_maxlens tree ! x = 0 \<or>
      (\<exists>i \<in> long_symbols ls. first_index ls i = x \<and> ls ! i = table_maxlens tree ! x)"
    unfolding eq by (rule st(3))
qed

text \<open>Where the second table for the index \<open>x\<close> begins.\<close>

definition room :: "nat \<Rightarrow> nat" where
  "room m = (if m > 9 then 2 ^ (m - 9) else 0)"

definition table_start :: "nat list \<Rightarrow> nat \<Rightarrow> nat" where
  "table_start ms x = 512 + sum_list (map room (take x ms))"

lemma table_start_Suc: "x < length ms \<Longrightarrow> table_start ms (Suc x) = table_start ms x + room (ms ! x)"
  by (simp add: table_start_def take_Suc_conv_app_nth)

lemma table_start_mono: "x \<le> y \<Longrightarrow> table_start ms x \<le> table_start ms y"
  by (auto simp: table_start_def le_iff_add take_add)

lemma table_start_apart:
  assumes "x < length ms" "y < length ms" "a < room (ms ! x)" "b < room (ms ! y)"
    "table_start ms x + a = table_start ms y + b"
  shows "x = y \<and> a = b"
proof -
  have "\<not> x < y"
  proof
    assume "x < y"
    then show False
      using table_start_mono [of "Suc x" y ms] table_start_Suc [OF assms(1)] assms(3,5) by simp
  qed
  moreover have "\<not> y < x"
  proof
    assume "y < x"
    then show False
      using table_start_mono [of "Suc y" x ms] table_start_Suc [OF assms(2)] assms(4,5) by simp
  qed
  ultimately show ?thesis using assms(5) by auto
qed

lemma table_start_find:
  assumes "512 \<le> v" "v < table_start ms n" "n \<le> length ms"
  shows "\<exists>x < n. \<exists>a < room (ms ! x). v = table_start ms x + a"
  using assms
proof (induction n)
  case (Suc n)
  show ?case
  proof (cases "v < table_start ms n")
    case True
    then show ?thesis using Suc by (meson Suc_leD less_SucI)
  next
    case False
    then have "v - table_start ms n < room (ms ! n)" "v = table_start ms n + (v - table_start ms n)"
      using Suc.prems table_start_Suc [of n ms] by simp_all
    then show ?thesis by blast
  qed
qed (simp add: table_start_def)

lemma table_size_start: "table_size ms = table_start ms (length ms)"
proof -
  have "fold (\<lambda>l size. if l > 9 then size + 2 ^ (l - 9) else size) ms a = a + sum_list (map room ms)" for a
    by (induction ms arbitrary: a) (auto simp: room_def)
  then show ?thesis by (simp add: table_size_def table_start_def)
qed

lemma table_pointers_props:
  assumes "length ms = 512" "length tl0 = sz" "length tv = sz" "512 \<le> sz" "\<And>v. v < sz \<Longrightarrow> tl0 ! v = 16"
  defines "t \<equiv> table_pointers ms (tl0, tv)"
  shows "length (fst t) = sz" "length (snd t) = sz"
    and "x < 512 \<Longrightarrow> 9 < ms ! x \<Longrightarrow> fst t ! x = ms ! x \<and> snd t ! x = table_start ms x"
    and "v < sz \<Longrightarrow> 512 \<le> v \<or> ms ! v \<le> 9 \<Longrightarrow> fst t ! v = 16"
proof -
  define f where "f = (\<lambda>i (pointer, tlen, tval).
         (let l = ms ! i in
          if l \<le> FIRSTBITS then (pointer, tlen, tval)
          else (pointer + 2 ^ (l - FIRSTBITS), tlen[i := l], tval[i := pointer :: nat])))"
  define st where "st n = fold f [0 ..< n] (2 ^ FIRSTBITS, tl0, tv)" for n
  have st_Suc: "st (Suc n) = f n (st n)" for n by (simp add: st_def)
  have "fst (st n) = table_start ms n \<and> length (fst (snd (st n))) = sz \<and> length (snd (snd (st n))) = sz \<and>
    (\<forall>x < n. 9 < ms ! x \<longrightarrow> fst (snd (st n)) ! x = ms ! x \<and> snd (snd (st n)) ! x = table_start ms x) \<and>
    (\<forall>v < sz. n \<le> v \<or> ms ! v \<le> 9 \<longrightarrow> fst (snd (st n)) ! v = 16)" if "n \<le> 512" for n
    using that
  proof (induction n)
    case 0
    then show ?case using assms by (simp add: st_def table_start_def)
  next
    case (Suc n)
    obtain p a b where s: "st n = (p, a, b)" by (metis prod.exhaust)
    show ?case
    proof (cases "ms ! n \<le> 9")
      case True
      then have "st (Suc n) = st n" by (simp add: st_Suc s f_def)
      then show ?thesis
        using Suc True assms(1) table_start_Suc [of n ms]
        by (auto simp: room_def less_Suc_eq Suc_le_eq)
    next
      case False
      then have "st (Suc n) = (p + 2 ^ (ms ! n - 9), a[n := ms ! n], b[n := p])"
        by (simp add: st_Suc s f_def Let_def)
      then show ?thesis
        using Suc False assms(1,4) table_start_Suc [of n ms]
        by (auto simp: s room_def less_Suc_eq nth_list_update)
    qed
  qed
  from this [OF order_refl] have
    "length (fst (snd (st 512))) = sz" "length (snd (snd (st 512))) = sz"
    "\<And>x. x < 512 \<Longrightarrow> 9 < ms ! x \<Longrightarrow> fst (snd (st 512)) ! x = ms ! x \<and> snd (snd (st 512)) ! x = table_start ms x"
    "\<And>v. v < sz \<Longrightarrow> 512 \<le> v \<or> ms ! v \<le> 9 \<Longrightarrow> fst (snd (st 512)) ! v = 16"
    by blast+
  moreover have "t = snd (st 512)" unfolding t_def table_pointers_def st_def f_def by simp
  ultimately show "length (fst t) = sz" "length (snd t) = sz"
    "x < 512 \<Longrightarrow> 9 < ms ! x \<Longrightarrow> fst t ! x = ms ! x \<and> snd t ! x = table_start ms x"
    "v < sz \<Longrightarrow> 512 \<le> v \<or> ms ! v \<le> 9 \<Longrightarrow> fst t ! v = 16" by simp_all
qed

subsection \<open>Filling in the symbols\<close>

lemma fill_short_fills:
  assumes "distinct (map idx js)" "\<And>j. j \<in> set js \<Longrightarrow> unat (rv OR push_bit l (word_of_nat j)) = idx j"
    and "\<And>j. j \<in> set js \<Longrightarrow> idx j < length (fst t) \<and> fst t ! idx j = 16" "length (snd t) = length (fst t)"
  shows "\<exists>t'. fill_short i rv l js t = Inr t' \<and> length (fst t') = length (fst t) \<and>
    length (snd t') = length (fst t) \<and>
    (\<forall>j \<in> set js. fst t' ! idx j = l \<and> snd t' ! idx j = i) \<and>
    (\<forall>v. v \<notin> idx ` set js \<longrightarrow> fst t' ! v = fst t ! v \<and> snd t' ! v = snd t ! v)"
  using assms
proof (induction js arbitrary: t)
  case (Cons j js)
  let ?t = "((fst t)[idx j := l], (snd t)[idx j := i])"
  have e: "fill_short i rv l (j # js) t = fill_short i rv l js ?t"
    using Cons.prems(2,3) by (cases t) (simp add: Let_def)
  have "\<exists>t'. fill_short i rv l js ?t = Inr t' \<and> length (fst t') = length (fst ?t) \<and>
    length (snd t') = length (fst ?t) \<and>
    (\<forall>j \<in> set js. fst t' ! idx j = l \<and> snd t' ! idx j = i) \<and>
    (\<forall>v. v \<notin> idx ` set js \<longrightarrow> fst t' ! v = fst ?t ! v \<and> snd t' ! v = snd ?t ! v)"
    using Cons.prems by (intro Cons.IH) (auto simp: nth_list_update)
  then show ?case
    unfolding e using Cons.prems by (fastforce simp: nth_list_update)
qed simp

lemma fold_fill:
  fixes t :: "nat list \<times> nat list"
  assumes "\<And>j. j \<in> set js \<Longrightarrow> idx j < length (fst t)" "length (snd t) = length (fst t)"
    "t' = fold (\<lambda>j (tlen, tval). (tlen[idx j := l], tval[idx j := i])) js t"
  shows "length (fst t') = length (fst t) \<and> length (snd t') = length (fst t) \<and>
    (\<forall>j \<in> set js. fst t' ! idx j = l \<and> snd t' ! idx j = i) \<and>
    (\<forall>v. v \<notin> idx ` set js \<longrightarrow> fst t' ! v = fst t ! v \<and> snd t' ! v = snd t ! v)"
  unfolding assms(3) using assms(1,2)
proof (induction js arbitrary: t rule: rev_induct)
  case (snoc j js)
  let ?t = "fold (\<lambda>j (tlen, tval). (tlen[idx j := l], tval[idx j := i])) js t"
  have IH: "length (fst ?t) = length (fst t) \<and> length (snd ?t) = length (fst t) \<and>
    (\<forall>j \<in> set js. fst ?t ! idx j = l \<and> snd ?t ! idx j = i) \<and>
    (\<forall>v. v \<notin> idx ` set js \<longrightarrow> fst ?t ! v = fst t ! v \<and> snd ?t ! v = snd t ! v)"
    using snoc.prems by (intro snoc.IH) simp_all
  obtain a b where t: "?t = (a, b)" by fastforce
  show ?case
    using IH snoc.prems(1) by (auto simp: t nth_list_update)
qed simp

subsection \<open>The slots of a symbol\<close>

text \<open>
  The entries that belong to a symbol: in the first table those whose index begins with its word, or
  in the second table of the first nine bits of its word.
\<close>

definition slots :: "nat list \<Rightarrow> nat list \<Rightarrow> nat \<Rightarrow> nat set" where
  "slots ls ms i =
     (if ls ! i \<le> 9 then {bits_val (word_of ls i @ r) | r. length r = 9 - ls ! i}
      else {table_start ms (first_index ls i) + bits_val (drop 9 (word_of ls i) @ r) | r.
              length r = ms ! first_index ls i - ls ! i})"

definition sized :: "nat list \<Rightarrow> nat list \<Rightarrow> bool" where
  "sized ls ms \<longleftrightarrow> complete ls \<and> length ms = 512 \<and>
     (\<forall>i \<in> long_symbols ls. ls ! i \<le> ms ! first_index ls i) \<and>
     (\<forall>x < 512. ms ! x = 0 \<or> (\<exists>i \<in> long_symbols ls. first_index ls i = x \<and> ls ! i = ms ! x))"

lemma sized_maxlens: "canonical tree \<Longrightarrow> sized (lengths tree) (table_maxlens tree)"
  using table_maxlens_props [of tree] by (auto simp: sized_def canonical_def)

lemma short_slot: "ls ! i \<le> 9 \<Longrightarrow> v \<in> slots ls ms i \<Longrightarrow> \<exists>bs. length bs = 9 \<and> v = bits_val bs \<and> prefix (word_of ls i) bs"
proof -
  assume "ls ! i \<le> 9" "v \<in> slots ls ms i"
  then obtain r where "length r = 9 - ls ! i" "v = bits_val (word_of ls i @ r)" by (auto simp: slots_def)
  then show ?thesis using \<open>ls ! i \<le> 9\<close> by (intro exI [of _ "word_of ls i @ r"]) simp
qed

lemma short_slotI:
  assumes "ls ! i \<le> 9" "length bs = 9" "prefix (word_of ls i) bs"
  shows "bits_val bs \<in> slots ls ms i"
proof -
  obtain r where "bs = word_of ls i @ r" using assms(3) by (auto elim: prefixE)
  then show ?thesis using assms(1,2) unfolding slots_def by auto
qed

lemma long_slot:
  assumes "sized ls ms" "i \<in> long_symbols ls" "v \<in> slots ls ms i"
  shows "\<exists>bs. length bs = ms ! first_index ls i \<and> prefix (word_of ls i) bs \<and> take 9 bs = take 9 (word_of ls i) \<and>
    v = table_start ms (first_index ls i) + bits_val (drop 9 bs) \<and>
    bits_val (drop 9 bs) < room (ms ! first_index ls i)"
proof -
  have l: "9 < ls ! i" "ls ! i \<le> ms ! first_index ls i" using assms(1,2) by (auto simp: sized_def long_symbols_def)
  obtain r where r: "length r = ms ! first_index ls i - ls ! i"
    "v = table_start ms (first_index ls i) + bits_val (drop 9 (word_of ls i) @ r)"
    using assms(3) l by (auto simp: slots_def)
  let ?bs = "word_of ls i @ r"
  have d: "drop 9 ?bs = drop 9 (word_of ls i) @ r" "length ?bs = ms ! first_index ls i" using l r(1) by simp_all
  have "bits_val (drop 9 ?bs) < 2 ^ length (drop 9 ?bs)" by (rule bits_val_less)
  also have "length (drop 9 ?bs) = ms ! first_index ls i - 9" using d(2) by simp
  also have "(2 :: nat) ^ (ms ! first_index ls i - 9) = room (ms ! first_index ls i)" using l by (simp add: room_def)
  finally have "bits_val (drop 9 ?bs) < room (ms ! first_index ls i)" .
  moreover have "take 9 ?bs = take 9 (word_of ls i)" using l by simp
  ultimately show ?thesis using d r(2) by (intro exI [of _ ?bs]) auto
qed

lemma long_slotI:
  assumes "sized ls ms" "i \<in> long_symbols ls" "length bs = ms ! first_index ls i" "prefix (word_of ls i) bs"
  shows "table_start ms (first_index ls i) + bits_val (drop 9 bs) \<in> slots ls ms i"
proof -
  obtain r where "bs = word_of ls i @ r" using assms(4) by (auto elim: prefixE)
  then show ?thesis using assms(2,3) by (auto simp: slots_def long_symbols_def)
qed

lemma sized_pointer:
  assumes "sized ls ms" "x < 512" "9 < ms ! x"
  shows "\<exists>i \<in> long_symbols ls. first_index ls i = x \<and> ls ! i = ms ! x"
  using assms unfolding sized_def by (metis not_less0)

lemma symbol_kinds: "i \<in> symbols ls \<Longrightarrow> ls ! i \<le> 9 \<or> i \<in> long_symbols ls"
  by (auto simp: long_symbols_def)

lemma slots_bounds:
  assumes "sized ls ms" "i \<in> symbols ls" "v \<in> slots ls ms i"
  shows "if ls ! i \<le> 9 then v < 512 else 512 \<le> v \<and> v < table_start ms 512"
proof (cases "ls ! i \<le> 9")
  case True
  obtain bs where "length bs = 9" "v = bits_val bs" using short_slot [OF True assms(3)] by blast
  then show ?thesis using bits_val_less [of bs] True by simp
next
  case False
  then have "i \<in> long_symbols ls" using assms(2) by (simp add: long_symbols_def)
  from long_slot [OF assms(1) this assms(3)] obtain a where
    a: "v = table_start ms (first_index ls i) + a" "a < room (ms ! first_index ls i)" by blast
  have "first_index ls i < length ms" using first_index_less assms(1) by (simp add: sized_def)
  then have "v < table_start ms (Suc (first_index ls i))" using a by (simp add: table_start_Suc)
  also have "\<dots> \<le> table_start ms 512" using first_index_less by (intro table_start_mono) (simp add: Suc_le_eq)
  finally show ?thesis using False a(1) by (simp add: table_start_def)
qed

lemma slots_apart:
  assumes s: "sized ls ms" and ij: "i \<in> symbols ls" "j \<in> symbols ls" "v \<in> slots ls ms i" "v \<in> slots ls ms j"
  shows "i = j"
proof -
  have c: "complete ls" using s by (simp add: sized_def)
  have ms: "length ms = 512" using s by (simp add: sized_def)
  consider "ls ! i \<le> 9" "ls ! j \<le> 9" | "ls ! i \<le> 9 \<longleftrightarrow> \<not> ls ! j \<le> 9" | "i \<in> long_symbols ls" "j \<in> long_symbols ls"
    using symbol_kinds ij(1,2) by blast
  then show ?thesis
  proof cases
    case 1
    obtain bs where "length bs = 9" "v = bits_val bs" "prefix (word_of ls i) bs"
      using short_slot [OF 1(1) ij(3)] by blast
    moreover obtain bs' where "length bs' = 9" "v = bits_val bs'" "prefix (word_of ls j) bs'"
      using short_slot [OF 1(2) ij(4)] by blast
    ultimately show ?thesis using bits_val_inj [of bs bs'] words_apart [OF c ij(1,2)] by simp
  next
    case 2
    then show ?thesis using slots_bounds [OF s ij(1,3)] slots_bounds [OF s ij(2,4)] by (auto split: if_splits)
  next
    case 3
    obtain bs where a: "length bs = ms ! first_index ls i" "prefix (word_of ls i) bs"
      "take 9 bs = take 9 (word_of ls i)"
      "v = table_start ms (first_index ls i) + bits_val (drop 9 bs)" "bits_val (drop 9 bs) < room (ms ! first_index ls i)"
      using long_slot [OF s 3(1) ij(3)] by blast
    obtain bs' where b: "length bs' = ms ! first_index ls j" "prefix (word_of ls j) bs'"
      "take 9 bs' = take 9 (word_of ls j)"
      "v = table_start ms (first_index ls j) + bits_val (drop 9 bs')" "bits_val (drop 9 bs') < room (ms ! first_index ls j)"
      using long_slot [OF s 3(2) ij(4)] by blast
    have same: "first_index ls i = first_index ls j" "bits_val (drop 9 bs) = bits_val (drop 9 bs')"
      using table_start_apart [of "first_index ls i" ms "first_index ls j"] first_index_less ms a(4,5) b(4,5) by auto
    have "length (take 9 (word_of ls i)) = length (take 9 (word_of ls j))"
      using 3 by (simp add: long_symbols_def)
    then have "take 9 bs = take 9 bs'"
      using bits_val_inj [of "take 9 (word_of ls i)" "take 9 (word_of ls j)"] same(1) a(3) b(3)
      by (simp add: first_index_def)
    moreover have "drop 9 bs = drop 9 bs'" using bits_val_inj [OF _ same(2)] a(1) b(1) same(1) by simp
    ultimately have "bs = bs'" by (metis append_take_drop_id)
    then show ?thesis using words_apart [OF c ij(1,2) a(2)] b(2) by simp
  qed
qed

text \<open>An index at which a second table hangs is the beginning of long words only.\<close>

lemma pointer_no_slot:
  assumes s: "sized ls ms" and x: "x < 512" "9 < ms ! x" and j: "j \<in> symbols ls" "ls ! j \<le> 9"
  shows "x \<notin> slots ls ms j"
proof
  assume "x \<in> slots ls ms j"
  then obtain bs where bs: "length bs = 9" "x = bits_val bs" "prefix (word_of ls j) bs"
    using short_slot [OF j(2)] by blast
  obtain i where i: "i \<in> long_symbols ls" "first_index ls i = x" using sized_pointer [OF s x] by blast
  then have sym: "i \<in> symbols ls" "9 < ls ! i" by (simp_all add: long_symbols_def)
  have "bits_val bs = bits_val (take 9 (word_of ls i))"
    using bs(2) i(2) unfolding first_index_def by (rule trans [OF HOL.sym HOL.sym])
  then have "bs = take 9 (word_of ls i)" by (rule bits_val_inj [rotated]) (use bs(1) sym(2) in simp)
  then have "prefix (word_of ls j) (word_of ls i)"
    using bs(3) prefix_order.trans [OF _ take_is_prefix [of 9 "word_of ls i"]] by simp
  then have "j = i" using no_prefix [OF _ j(1) sym(1)] s by (simp add: sized_def)
  then show False using j(2) sym(2) by simp
qed

text \<open>Every entry is a pointer or belongs to a symbol.\<close>

lemma slots_cover:
  assumes s: "sized ls ms" and v: "v < table_start ms 512"
  shows "v < 512 \<and> 9 < ms ! v \<or> (\<exists>i \<in> symbols ls. v \<in> slots ls ms i)"
proof (cases "v < 512")
  case True
  obtain bs where bs: "length bs = 9" "bits_val bs = v" using bits_val_ex [of v 9] True by auto
  then obtain i where i: "i \<in> symbols ls" "prefix (word_of ls i) (bs @ replicate 6 False)"
    using words_cover [of ls "bs @ replicate 6 False"] s by (auto simp: sized_def)
  show ?thesis
  proof (cases "ls ! i \<le> 9")
    case short: True
    then have "prefix (word_of ls i) bs"
      using i(2) bs(1) by (metis length_word_of prefix_length_prefix prefixI)
    then show ?thesis using short_slotI [OF short bs(1)] bs(2) i(1) by blast
  next
    case False
    then have long: "i \<in> long_symbols ls" using i(1) by (simp add: long_symbols_def)
    have "prefix bs (word_of ls i)"
      using i(2) bs(1) False by (metis length_word_of prefix_length_prefix prefixI linorder_not_le less_imp_le)
    then have "take 9 (word_of ls i) = bs" using bs(1) by (metis append_eq_conv_conj prefix_def)
    then have "first_index ls i = v" by (simp add: first_index_def bs(2))
    then have "9 < ms ! v" using long s False unfolding sized_def by fastforce
    then show ?thesis using True by blast
  qed
next
  case False
  then obtain x a where x: "x < 512" "a < room (ms ! x)" "v = table_start ms x + a"
    using table_start_find [of v ms 512] v s by (auto simp: sized_def)
  then have m: "9 < ms ! x" by (simp add: room_def split: if_splits)
  then obtain k where k: "k \<in> long_symbols ls" "first_index ls k = x" "ls ! k = ms ! x"
    using sized_pointer [OF s x(1) m] by blast
  have m15: "ms ! x \<le> 15"
    using k s complete_len [of ls k] by (simp add: sized_def long_symbols_def symbols_def)
  obtain ys where ys: "length ys = ms ! x - 9" "bits_val ys = a"
    using bits_val_ex [of a "ms ! x - 9"] x(2) m by (auto simp: room_def)
  let ?bs = "take 9 (word_of ls k) @ ys"
  have len: "length ?bs = ms ! x" using k m ys(1) by simp
  have k9: "length (take 9 (word_of ls k)) = 9" using k(3) m by simp
  have c: "complete ls" using s by (simp add: sized_def)
  have "length (?bs @ replicate (15 - ms ! x) False) = length ?bs + (15 - ms ! x)"
    by (simp only: length_append length_replicate)
  also have "\<dots> = 15" unfolding len using m15 by simp
  finally have "length (?bs @ replicate (15 - ms ! x) False) = 15" .
  from words_cover [OF c this]
  obtain i where i: "i \<in> symbols ls" "prefix (word_of ls i) (?bs @ replicate (15 - ms ! x) False)" by blast
  have long: "9 < ls ! i"
  proof (rule ccontr)
    assume short: "\<not> 9 < ls ! i"
    then have "prefix (word_of ls i) (take 9 (word_of ls k))"
      using i(2) k9 by (metis append.assoc length_word_of linorder_not_less prefixI prefix_length_prefix)
    then have "x \<in> slots ls ms i"
      using short_slotI [of ls i "take 9 (word_of ls k)" ms] short k9 k(2) by (simp add: first_index_def)
    then show False using pointer_no_slot [OF s x(1) m i(1)] short by simp
  qed
  then have li: "i \<in> long_symbols ls" using i(1) by (simp add: long_symbols_def)
  have "prefix (take 9 (word_of ls k)) (word_of ls i)"
    using i(2) k9 long by (metis append.assoc length_word_of less_imp_le prefixI prefix_length_prefix)
  then have t9: "take 9 (word_of ls i) = take 9 (word_of ls k)" using k9 by (metis append_eq_conv_conj prefix_def)
  then have ix: "first_index ls i = x" using k(2) by (simp add: first_index_def)
  then have "ls ! i \<le> ms ! x" using s li by (auto simp: sized_def)
  then have "prefix (word_of ls i) ?bs"
    using i(2) len by (metis length_word_of prefixI prefix_length_prefix)
  then have "table_start ms x + bits_val (drop 9 ?bs) \<in> slots ls ms i"
    using long_slotI [OF s li, of ?bs] len ix by simp
  then show ?thesis using i(1) x(3) ys(2) k9 by auto
qed

subsection \<open>The table is filled\<close>

text \<open>The table after the symbols below \<open>k\<close> have been entered.\<close>

definition filled :: "nat list \<Rightarrow> nat list \<Rightarrow> nat \<Rightarrow> table \<Rightarrow> bool" where
  "filled ls ms k t \<longleftrightarrow> length (fst t) = table_start ms 512 \<and> length (snd t) = length (fst t) \<and>
     (\<forall>x < 512. 9 < ms ! x \<longrightarrow> fst t ! x = ms ! x \<and> snd t ! x = table_start ms x) \<and>
     (\<forall>i \<in> symbols ls. i < k \<longrightarrow> (\<forall>v \<in> slots ls ms i. fst t ! v = ls ! i \<and> snd t ! v = i)) \<and>
     (\<forall>v < 512. fst t ! v = 16 \<or> 9 < ms ! v \<or> (\<exists>i \<in> symbols ls. i < k \<and> v \<in> slots ls ms i))"

lemma filled_skip: "filled ls ms k t \<Longrightarrow> k \<notin> symbols ls \<Longrightarrow> filled ls ms (Suc k) t"
proof -
  assume f: "filled ls ms k t" and k: "k \<notin> symbols ls"
  have "i < Suc k \<longleftrightarrow> i < k" if "i \<in> symbols ls" for i using that k by (auto simp: less_Suc_eq)
  then show ?thesis using f unfolding filled_def by simp
qed

lemma filled_write:
  assumes s: "sized ls ms" and f: "filled ls ms k t" and k: "k \<in> symbols ls"
    and t': "length (fst t') = length (fst t)" "length (snd t') = length (fst t)"
      "\<forall>v \<in> slots ls ms k. fst t' ! v = ls ! k \<and> snd t' ! v = k"
      "\<forall>v. v \<notin> slots ls ms k \<longrightarrow> fst t' ! v = fst t ! v \<and> snd t' ! v = snd t ! v"
  shows "filled ls ms (Suc k) t'"
proof -
  have ptr: "x \<notin> slots ls ms k" if "x < 512" "9 < ms ! x" for x
  proof (cases "ls ! k \<le> 9")
    case True
    then show ?thesis using pointer_no_slot [OF s that k] by simp
  next
    case False
    then show ?thesis using slots_bounds [OF s k] that(1) by fastforce
  qed
  have apart: "v \<notin> slots ls ms k" if "i \<in> symbols ls" "i < k" "v \<in> slots ls ms i" for i v
    using slots_apart [OF s that(1) k that(3)] that(2) by blast
  have "fst t' ! v = 16 \<or> 9 < ms ! v \<or> (\<exists>i \<in> symbols ls. i < Suc k \<and> v \<in> slots ls ms i)"
    if "v < 512" for v
  proof (cases "v \<in> slots ls ms k")
    case False
    then show ?thesis using f that t'(4) unfolding filled_def by (metis less_SucI)
  qed (use k in blast)
  moreover have "\<forall>v \<in> slots ls ms i. fst t' ! v = ls ! i \<and> snd t' ! v = i" if "i \<in> symbols ls" "i < Suc k" for i
  proof (cases "i = k")
    case False
    then have "i < k" using that(2) by simp
    then show ?thesis using f that(1) t'(4) apart unfolding filled_def by auto
  qed (use t'(3) in simp)
  moreover have "fst t' ! x = ms ! x \<and> snd t' ! x = table_start ms x" if "x < 512" "9 < ms ! x" for x
    using ptr [OF that] t'(4) f that unfolding filled_def by auto
  ultimately show ?thesis using f t'(1,2) unfolding filled_def by auto
qed

lemma slot_image:
  "{c + bits_val (xs @ r) | r. length r = m} = (\<lambda>j. c + bits_val (xs @ map (bit j) [0 ..< m])) ` {0 ..< (2 :: nat) ^ m}"
    (is "?A = ?f ` ?J")
proof (intro set_eqI iffI)
  fix v assume "v \<in> ?A"
  then obtain r where r: "v = c + bits_val (xs @ r)" "length r = m" by blast
  have "bits_val r < 2 ^ m" using bits_val_less [of r] r(2) by simp
  moreover from this have "r = map (bit (bits_val r)) [0 ..< m]"
    using bits_val_inj [of r "map (bit (bits_val r)) [0 ..< m]"] bits_val_bit r(2) by simp
  ultimately show "v \<in> ?f ` ?J" using r(1) by (intro image_eqI [of _ _ "bits_val r"]) auto
qed auto

lemma slot_inj: "inj_on (\<lambda>j. c + bits_val (xs @ map (bit j) [0 ..< m])) {0 ..< (2 :: nat) ^ m}"
  by (rule inj_onI) (simp add: bits_val_append bits_val_bit)

lemma fill_short_ok:
  assumes c: "canonical tree" "lengths tree = ls" and s: "sized ls ms" and f: "filled ls ms k t"
    and k: "k \<in> symbols ls" "ls ! k \<le> 9"
  shows "\<exists>t'. fill_short k (reverseBits (codes tree ! k) (ls ! k)) (ls ! k) [0 ..< 2 ^ (9 - ls ! k)] t = Inr t' \<and>
    filled ls ms (Suc k) t'"
proof -
  let ?idx = "\<lambda>j. bits_val (word_of ls k @ map (bit j) [0 ..< 9 - ls ! k])"
  let ?js = "[0 ..< 2 ^ (9 - ls ! k)]"
  have slots: "slots ls ms k = ?idx ` set ?js"
    using slot_image [of 0 "word_of ls k" "9 - ls ! k"] k(2) by (simp add: slots_def)
  have "distinct (map ?idx ?js)"
    using slot_inj [of 0 "word_of ls k" "9 - ls ! k"] by (simp add: distinct_map)
  moreover have "unat (reverseBits (codes tree ! k) (ls ! k) OR push_bit (ls ! k) (word_of_nat j)) = ?idx j"
    if "j \<in> set ?js" for j
    using or_index [of "reverseBits (codes tree ! k) (ls ! k)" "word_of ls k" j "9 - ls ! k"]
      reverseBits_code [OF c(1), of k] c(2) k that by simp
  moreover have "?idx j < length (fst t) \<and> fst t ! ?idx j = 16" if "j \<in> set ?js" for j
  proof -
    have v: "?idx j \<in> slots ls ms k" using that slots by blast
    then have lt: "?idx j < 512" using slots_bounds [OF s k(1)] k(2) by simp
    moreover have "\<not> 9 < ms ! ?idx j" using pointer_no_slot [OF s lt _ k] v by blast
    moreover have "\<not> (\<exists>i \<in> symbols ls. i < k \<and> ?idx j \<in> slots ls ms i)"
      using slots_apart [OF s _ k(1) _ v] by blast
    ultimately have "fst t ! ?idx j = 16" using f unfolding filled_def by blast
    moreover have "512 \<le> length (fst t)" using f by (simp add: filled_def table_start_def)
    ultimately show ?thesis using lt by simp
  qed
  moreover have "length (snd t) = length (fst t)" using f by (simp add: filled_def)
  ultimately obtain t' where t': "fill_short k (reverseBits (codes tree ! k) (ls ! k)) (ls ! k) ?js t = Inr t'"
    "length (fst t') = length (fst t)" "length (snd t') = length (fst t)"
    "\<forall>j \<in> set ?js. fst t' ! ?idx j = ls ! k \<and> snd t' ! ?idx j = k"
    "\<forall>v. v \<notin> ?idx ` set ?js \<longrightarrow> fst t' ! v = fst t ! v \<and> snd t' ! v = snd t ! v"
    using fill_short_fills [of ?idx ?js "reverseBits (codes tree ! k) (ls ! k)" "ls ! k" t k] by blast
  have "filled ls ms (Suc k) t'"
    by (rule filled_write [OF s f k(1) t'(2,3)]) (use t'(4,5) in \<open>unfold slots, blast+\<close>)
  then show ?thesis using t'(1) by blast
qed

lemma bits_val_split: "9 \<le> length bs \<Longrightarrow> bits_val bs mod 512 = bits_val (take 9 bs) \<and> bits_val bs div 512 = bits_val (drop 9 bs)"
proof -
  assume "9 \<le> length bs"
  then have "bits_val bs = bits_val (take 9 bs) + 512 * bits_val (drop 9 bs)" "bits_val (take 9 bs) < 512"
    using bits_val_append [of "take 9 bs" "drop 9 bs"] bits_val_less [of "take 9 bs"] by simp_all
  then show ?thesis by simp
qed

lemma fill_long_ok:
  assumes c: "canonical tree" "lengths tree = ls" and s: "sized ls ms" and f: "filled ls ms k t"
    and k: "k \<in> long_symbols ls"
  shows "\<exists>t'. fill_long k (reverseBits (codes tree ! k) (ls ! k)) (ls ! k) t = Inr t' \<and> filled ls ms (Suc k) t'"
proof -
  have sym: "k \<in> symbols ls" "9 < ls ! k" using k by (simp_all add: long_symbols_def)
  have l: "ls ! k \<le> 15" using sym s complete_len by (auto simp: sized_def symbols_def)
  let ?rv = "reverseBits (codes tree ! k) (ls ! k)" and ?x = "first_index ls k" and ?w = "word_of ls k"
  obtain tl0 tv where t: "t = (tl0, tv)" by fastforce
  have rv: "unat ?rv = bits_val ?w" using reverseBits_code [OF c(1), of k] c(2) sym by simp
  have m: "(2 ^ 9 - 1 :: u32) = mask 9" by (simp add: mask_eq_exp_minus_1)
  have "unat (?rv AND mask 9) = take_bit 9 (unat ?rv)"
    by (simp add: unsigned_take_bit_eq flip: take_bit_eq_mask)
  then have ix: "unat (?rv AND (2 ^ 9 - 1)) = ?x"
    unfolding m using bits_val_split [of ?w] sym(2) by (simp add: rv take_bit_eq_mod first_index_def)
  have x: "?x < 512" by (rule first_index_less)
  have le: "ls ! k \<le> ms ! ?x" using s k by (simp add: sized_def)
  have p: "tl0 ! ?x = ms ! ?x" "tv ! ?x = table_start ms ?x"
    using f x le sym(2) by (auto simp: filled_def t)
  have m15: "ms ! ?x \<le> 15"
    using sized_pointer [OF s x] le sym(2) s complete_len by (fastforce simp: sized_def long_symbols_def symbols_def)
  let ?idx = "\<lambda>j. table_start ms ?x + bits_val (drop 9 ?w @ map (bit j) [0 ..< ms ! ?x - ls ! k])"
  let ?js = "[0 ..< 2 ^ (ms ! ?x - ls ! k)]"
  have slots: "slots ls ms k = ?idx ` set ?js"
    using slot_image [of "table_start ms ?x" "drop 9 ?w" "ms ! ?x - ls ! k"] sym(2) by (simp add: slots_def)
  have "unat (drop_bit 9 ?rv) = bits_val (drop 9 ?w)"
    using bits_val_split [of ?w] sym(2) unfolding unat_drop_bit_eq rv by (simp add: drop_bit_eq_div)
  then have idx: "table_start ms ?x + unat (drop_bit 9 ?rv OR push_bit (ls ! k - 9) (word_of_nat j)) = ?idx j"
    if "j \<in> set ?js" for j
    using or_index [of "drop_bit 9 ?rv" "drop 9 ?w" j "ms ! ?x - ls ! k"] that m15 sym(2) le by simp
  let ?fold = "fold (\<lambda>j (tlen, tval). (tlen[?idx j := ls ! k], tval[?idx j := k])) ?js (tl0, tv)"
  have "fold (\<lambda>j (tlen, tval).
            (let reverse2 = drop_bit FIRSTBITS ?rv;
                 index2 = table_start ms ?x + unat (reverse2 OR push_bit (ls ! k - FIRSTBITS) (word_of_nat j)) in
             (tlen[index2 := ls ! k], tval[index2 := k]))) ?js (tl0, tv) = ?fold"
    by (rule fold_cong [OF refl refl]) (simp add: idx Let_def fun_eq_iff)
  then have run: "fill_long k ?rv (ls ! k) t = Inr ?fold"
    using le sym(2) by (simp add: fill_long_def t ix [simplified] p Let_def)
  have len: "length tv = length tl0" "length tl0 = table_start ms 512" using f by (simp_all add: filled_def t)
  have inb: "?idx j < length tl0" if "j \<in> set ?js" for j
    using slots_bounds [OF s sym(1), of "?idx j"] that sym(2) slots len by auto
  have "length (fst ?fold) = length tl0 \<and> length (snd ?fold) = length tl0 \<and>
    (\<forall>j \<in> set ?js. fst ?fold ! ?idx j = ls ! k \<and> snd ?fold ! ?idx j = k) \<and>
    (\<forall>v. v \<notin> ?idx ` set ?js \<longrightarrow> fst ?fold ! v = tl0 ! v \<and> snd ?fold ! v = tv ! v)"
    using fold_fill [of ?js ?idx "(tl0, tv)" ?fold "ls ! k" k, OF _ _ refl] inb len by simp
  then have "filled ls ms (Suc k) ?fold"
    by (intro filled_write [OF s f sym(1)]; unfold slots t fst_conv snd_conv; blast)
  then show ?thesis using run by blast
qed

lemma fill_symbols_ok:
  assumes c: "canonical tree" "lengths tree = ls" and s: "sized ls ms"
  shows "filled ls ms k t \<Longrightarrow> k \<le> length ls \<Longrightarrow>
    \<exists>n' t'. fill_symbols tree [k ..< length ls] n t = Inr (n', t') \<and> filled ls ms (length ls) t'"
proof (induction "length ls - k" arbitrary: k n t)
  case 0
  then show ?case by simp
next
  case (Suc d)
  then have k: "k < length ls" and d: "d = length ls - Suc k" by simp_all
  then have js: "[k ..< length ls] = k # [Suc k ..< length ls]" by (simp add: upt_conv_Cons)
  show ?case
  proof (cases "ls ! k = 0")
    case True
    then have "filled ls ms (Suc k) t" using filled_skip [OF Suc.prems(1)] by (simp add: symbols_def)
    then show ?thesis
      using Suc.hyps(1) [OF d, of t n] k True c(2) by (simp add: js Let_def)
  next
    case False
    then have sym: "k \<in> symbols ls" using k by (simp add: symbols_def)
    obtain t' where t': "(if ls ! k \<le> 9
        then fill_short k (reverseBits (codes tree ! k) (ls ! k)) (ls ! k) [0 ..< 2 ^ (9 - ls ! k)] t
        else fill_long k (reverseBits (codes tree ! k) (ls ! k)) (ls ! k) t) = Inr t'" "filled ls ms (Suc k) t'"
      using fill_short_ok [OF c s Suc.prems(1) sym] fill_long_ok [OF c s Suc.prems(1)] symbol_kinds [OF sym]
      by (cases "ls ! k \<le> 9") (auto simp: long_symbols_def)
    obtain n' t'' where "fill_symbols tree [Suc k ..< length ls] (n + 1) t' = Inr (n', t'')" "filled ls ms (length ls) t''"
      using Suc.hyps(1) [OF d t'(2)] k by (meson Suc_leI)
    then show ?thesis using False t'(1) c(2) by (simp add: js Let_def)
  qed
qed

text \<open>
  Building the table succeeds, and the entries of a symbol hold its length and the symbol.
\<close>

definition looks_up :: "HuffmanTree \<Rightarrow> nat list \<Rightarrow> bool" where
  "looks_up tree ms \<longleftrightarrow> sized (lengths tree) ms \<and>
     (\<forall>x < 512. 9 < ms ! x \<longrightarrow> table_len tree ! x = ms ! x \<and> table_value tree ! x = table_start ms x) \<and>
     (\<forall>i \<in> symbols (lengths tree). \<forall>v \<in> slots (lengths tree) ms i.
        table_len tree ! v = lengths tree ! i \<and> table_value tree ! v = i)"

lemma filled_no_16:
  assumes s: "sized ls ms" and f: "filled ls ms (length ls) t" and v: "v < table_start ms 512"
  shows "fst t ! v \<noteq> 16"
  using slots_cover [OF s v]
proof
  assume x: "v < 512 \<and> 9 < ms ! v"
  then obtain i where "i \<in> long_symbols ls" "ls ! i = ms ! v" using sized_pointer [OF s] by blast
  then have "ms ! v \<le> 15" using s complete_len [of ls i] by (auto simp: sized_def long_symbols_def symbols_def)
  then show ?thesis using f x unfolding filled_def by auto
next
  assume "\<exists>i \<in> symbols ls. v \<in> slots ls ms i"
  then obtain i where i: "i \<in> symbols ls" "v \<in> slots ls ms i" by blast
  then have "i < length ls" "ls ! i \<le> 15" using s complete_len by (auto simp: sized_def symbols_def)
  then show ?thesis using f i unfolding filled_def by auto
qed

lemma table_finish_id:
  assumes "length (fst t) = sz" "\<And>v. v < sz \<Longrightarrow> fst t ! v \<noteq> 16"
  shows "table_finish n sz t = Inr t"
proof -
  obtain a b where t: "t = (a, b)" by fastforce
  have "fold (\<lambda>i (tlen, tval).
             (if tlen ! i = 16
              then (tlen[i := if i < 2 ^ FIRSTBITS then 1 else FIRSTBITS + 1], tval[i := INVALIDSYMBOL])
              else (tlen, tval))) [0 ..< k] (a, b) = (a, b)" if "k \<le> sz" for k
    using that assms(2) by (induction k) (simp_all add: t)
  moreover have "\<not> list_ex (\<lambda>i. a ! i = 16) [0 ..< sz]"
    using assms(2) by (auto simp: list_ex_iff t)
  ultimately show ?thesis by (simp add: table_finish_def t)
qed

lemma makeTable_ok:
  assumes c: "canonical tree"
  shows "\<exists>tlen tval. HuffmanTree_makeTable tree = Inr (tree\<lparr>table_len := tlen, table_value := tval\<rparr>) \<and>
    looks_up (tree\<lparr>table_len := tlen, table_value := tval\<rparr>) (table_maxlens tree)"
proof -
  let ?ls = "lengths tree" and ?ms = "table_maxlens tree"
  have s: "sized ?ls ?ms" by (rule sized_maxlens [OF c])
  let ?sz = "table_size ?ms"
  let ?t = "table_pointers ?ms (replicate ?sz 16, replicate ?sz 0)"
  have ms: "length ?ms = 512" using s by (simp add: sized_def)
  have sz: "?sz = table_start ?ms 512" using table_size_start [of ?ms] ms by simp
  then have sz512: "512 \<le> ?sz" by (simp add: table_start_def)
  note p = table_pointers_props [OF ms _ _ sz512, of "replicate ?sz 16" "replicate ?sz 0", simplified]
  have "filled ?ls ?ms 0 ?t"
    unfolding filled_def using p sz sz512 by fastforce
  then obtain n t where t: "fill_symbols tree [0 ..< length ?ls] 0 ?t = Inr (n, t)" "filled ?ls ?ms (length ?ls) t"
    using fill_symbols_ok [OF c refl s, of 0 ?t 0] by auto
  have "length (fst t) = ?sz" using t(2) sz by (simp add: filled_def)
  then have "table_finish n ?sz t = Inr t"
    using filled_no_16 [OF s t(2)] sz by (intro table_finish_id) simp_all
  then have "HuffmanTree_makeTable tree = Inr (tree\<lparr>table_len := fst t, table_value := snd t\<rparr>)"
    using t(1) c by (simp add: HuffmanTree_makeTable_def Let_def canonical_def split_beta)
  moreover have "looks_up (tree\<lparr>table_len := fst t, table_value := snd t\<rparr>) ?ms"
    using s t(2) unfolding looks_up_def filled_def by (auto simp: symbols_def)
  ultimately show ?thesis by blast
qed

section \<open>Decoding a word\<close>

definition decodes :: "HuffmanTree \<Rightarrow> bool" where
  "decodes tree \<longleftrightarrow> (\<forall>i \<in> symbols (lengths tree). \<forall>r. holds_bits r 15 \<longrightarrow>
     prefix (word_of (lengths tree) i) (sbits (rd_data r) (rd_bp r) 15) \<longrightarrow>
     huffmanDecodeSymbol r tree = (i, advanceBits r (lengths tree ! i)))"

lemma advanceBits_add: "advanceBits (advanceBits r m) n = advanceBits r (m + n)"
  by (simp add: advanceBits_def ac_simps)

lemma take_sbits: "m \<le> n \<Longrightarrow> take m (sbits data p n) = sbits data p m"
  by (rule nth_equalityI) simp_all

lemma drop_sbits: "drop m (sbits data p n) = sbits data (p + m) (n - m)"
  by (rule nth_equalityI) (simp_all add: ac_simps)

lemma prefix_take: "length xs \<le> n \<Longrightarrow> prefix xs ys \<Longrightarrow> prefix xs (take n ys)"
  by (auto elim!: prefixE)

lemma looks_up_decodes:
  assumes "looks_up tree ms"
  shows "decodes tree"
  unfolding decodes_def
proof (intro ballI allI impI)
  fix i r
  assume i: "i \<in> symbols (lengths tree)" and h: "holds_bits r 15"
    and pre: "prefix (word_of (lengths tree) i) (sbits (rd_data r) (rd_bp r) 15)"
  let ?ls = "lengths tree"
  let ?bs = "sbits (rd_data r) (rd_bp r) 15"
  have s: "sized ?ls ms" using assms by (simp add: looks_up_def)
  have c: "complete ?ls" using s by (simp add: sized_def)
  have peek: "unat (peekBits r 9) = bits_val (take 9 ?bs)"
    using peekBits_val [OF holds_bits_mono [OF h]] by (simp add: take_sbits)
  show "huffmanDecodeSymbol r tree = (i, advanceBits r (?ls ! i))"
  proof (cases "?ls ! i \<le> 9")
    case True
    then have "prefix (word_of ?ls i) (take 9 ?bs)"
      using pre by (intro prefix_take) simp_all
    then have "bits_val (take 9 ?bs) \<in> slots ?ls ms i" using True by (intro short_slotI) simp_all
    then have "table_len tree ! unat (peekBits r 9) = ?ls ! i" "table_value tree ! unat (peekBits r 9) = i"
      using assms i unfolding looks_up_def peek by blast+
    then show ?thesis using True by (simp add: huffmanDecodeSymbol_def Let_def)
  next
    case False
    then have long: "i \<in> long_symbols ?ls" using i by (simp add: long_symbols_def)
    let ?x = "first_index ?ls i"
    have l: "?ls ! i \<le> ms ! ?x" using s long by (simp add: sized_def)
    have "take 9 (word_of ?ls i) = take 9 ?bs"
      using pre False by (auto elim!: prefixE)
    then have x: "unat (peekBits r 9) = ?x" unfolding peek by (simp add: first_index_def)
    have ptr: "table_len tree ! ?x = ms ! ?x" "table_value tree ! ?x = table_start ms ?x"
      using assms first_index_less l False unfolding looks_up_def by auto
    have m15: "ms ! ?x \<le> 15"
      using sized_pointer [OF s first_index_less [of ?ls i]] l False c complete_len
      by (fastforce simp: long_symbols_def symbols_def)
    let ?r = "advanceBits r 9"
    have "unat (peekBits ?r (ms ! ?x - 9)) = bits_val (sbits (rd_data r) (rd_bp r + 9) (ms ! ?x - 9))"
      using peekBits_val [OF holds_bits_mono [OF advanceBits_holds [OF h, of 9], of "ms ! ?x - 9"]] m15 by simp
    also have "sbits (rd_data r) (rd_bp r + 9) (ms ! ?x - 9) = drop 9 (take (ms ! ?x) ?bs)"
      using m15 by (simp add: take_sbits drop_sbits)
    finally have peek2: "unat (peekBits ?r (ms ! ?x - 9)) = bits_val (drop 9 (take (ms ! ?x) ?bs))" .
    have "prefix (word_of ?ls i) (take (ms ! ?x) ?bs)"
      using pre by (rule prefix_take [rotated]) (simp add: l)
    then have "table_start ms ?x + unat (peekBits ?r (ms ! ?x - 9)) \<in> slots ?ls ms i"
      unfolding peek2 using m15 by (intro long_slotI [OF s long]) simp_all
    then have "table_len tree ! (table_start ms ?x + unat (peekBits ?r (ms ! ?x - 9))) = ?ls ! i"
      "table_value tree ! (table_start ms ?x + unat (peekBits ?r (ms ! ?x - 9))) = i"
      using assms i unfolding looks_up_def by blast+
    then show ?thesis
      using False l by (simp add: huffmanDecodeSymbol_def Let_def x ptr advanceBits_add)
  qed
qed

text \<open>What the encoder and the decoder need of a tree.\<close>

definition good_tree :: "HuffmanTree \<Rightarrow> bool" where
  "good_tree tree \<longleftrightarrow> complete (lengths tree) \<and> decodes tree \<and>
     (\<forall>i \<in> symbols (lengths tree). unat (codes tree ! i) = code_of (lengths tree) i)"

lemma makeFromLengths2_good:
  assumes "complete (lengths tree)" "\<forall>l \<in> set (lengths tree). l \<le> maxbitlen tree"
    "numcodes tree = length (lengths tree)"
  shows "\<exists>tree'. HuffmanTree_makeFromLengths2 tree = Inr tree' \<and> lengths tree' = lengths tree \<and>
    numcodes tree' = numcodes tree \<and> good_tree tree'"
proof -
  let ?t = "tree\<lparr>codes := assign_codes (lengths tree)
    (next_codes (count_lengths (lengths tree) (maxbitlen tree)) (maxbitlen tree))\<rparr>"
  have code: "\<forall>i \<in> symbols (lengths tree). unat (codes ?t ! i) = code_of (lengths tree) i"
    using assigned_code [OF assms(1,2)] by simp
  then have "canonical ?t" using assms by (simp add: canonical_def)
  from makeTable_ok [OF this] obtain tlen tval where
    t: "HuffmanTree_makeTable ?t = Inr (?t\<lparr>table_len := tlen, table_value := tval\<rparr>)"
    "looks_up (?t\<lparr>table_len := tlen, table_value := tval\<rparr>) (table_maxlens ?t)" by blast
  have "good_tree (?t\<lparr>table_len := tlen, table_value := tval\<rparr>)"
    using assms(1) code looks_up_decodes [OF t(2)] by (simp add: good_tree_def)
  then show ?thesis using t(1) by (simp add: HuffmanTree_makeFromLengths2_def Let_def)
qed

text \<open>C32: 
  From complete code lengths the program builds a tree, and looking up bits that begin with the word
  of a symbol in it gives the symbol and moves on by the length of the word, also for words longer
  than the nine bits of the first table.
\<close>

theorem makeFromLengths_decodes:
  assumes "complete ls" "\<forall>l \<in> set ls. l \<le> maxlen" "length ls = n"
  shows "\<exists>tree'. HuffmanTree_makeFromLengths tree ls n maxlen = Inr tree' \<and> lengths tree' = ls \<and>
    decodes tree'"
  using makeFromLengths2_good [of "tree\<lparr>lengths := ls, numcodes := n, maxbitlen := maxlen\<rparr>"] assms
  by (auto simp: HuffmanTree_makeFromLengths_def good_tree_def)

text \<open>A code of eleven words, of which two have ten bits.\<close>

lemma makeFromLengths_decodes_witness:
  "\<exists>tree'. HuffmanTree_makeFromLengths HuffmanTree_init [1, 2, 3, 4, 5, 6, 7, 8, 9, 10, 10] 11 15 = Inr tree' \<and>
    lengths tree' = [1, 2, 3, 4, 5, 6, 7, 8, 9, 10, 10] \<and> decodes tree'"
  by (rule makeFromLengths_decodes) (simp_all add: complete_iff)

end
