(* ===== verification/Png_Zlib.thy ===== *)
theory Png_Zlib
  imports Png_Compress Png_Lz77_Decodes Png_Tree
begin

unbundle bit_operations_syntax

text \<open>
  What the compressor writes the decompressor reads back. The bits of the symbols of a block are
  described by the words of the trees; reading them gives the meaning of the symbols (\<open>lz_decode\<close>),
  which is the data.
\<close>

section \<open>The bits of symbols\<close>

text \<open>The bits that \<open>writeLZ77data\<close> writes, and the symbols that must have a code.\<close>

function lz_bits :: "nat list \<Rightarrow> nat list \<Rightarrow> nat list \<Rightarrow> bool list" where
  "lz_bits ll d [] = []"
| "lz_bits ll d (v # vs) = word_of ll v @
     (if v > 256 then map (bit (vs ! 0)) [0 ..< LENGTHEXTRA ! (v - 257)] @ word_of d (vs ! 1) @
        map (bit (vs ! 2)) [0 ..< DISTANCEEXTRA ! (vs ! 1)] @ lz_bits ll d (drop 3 vs)
      else lz_bits ll d vs)"
  by pat_completeness auto
termination
  by (relation "measure (\<lambda>(ll, d, vs). length vs)") auto

function lz_covered :: "nat list \<Rightarrow> nat list \<Rightarrow> nat list \<Rightarrow> bool" where
  "lz_covered ll d [] \<longleftrightarrow> True"
| "lz_covered ll d (v # vs) \<longleftrightarrow> v \<in> symbols ll \<and>
     (if v > 256 then vs ! 1 \<in> symbols d \<and> lz_covered ll d (drop 3 vs) else lz_covered ll d vs)"
  by pat_completeness auto
termination
  by (relation "measure (\<lambda>(ll, d, vs). length vs)") auto

lemma write_code_bits:
  assumes "good_tree tree" "s \<in> symbols (lengths tree)" "wr_ok w"
  shows "wr_ok (write_code tree s w)"
    "wr_bits (write_code tree s w) = wr_bits w @ word_of (lengths tree) s"
proof -
  have "unat (codes tree ! s) = code_of (lengths tree) s" using assms(1,2) by (simp add: good_tree_def)
  then have "bit (codes tree ! s) = bit (code_of (lengths tree) s)"
    by (auto simp: fun_eq_iff bit_unsigned_iff simp flip: \<open>unat (codes tree ! s) = code_of (lengths tree) s\<close>)
  then show "wr_ok (write_code tree s w)"
    "wr_bits (write_code tree s w) = wr_bits w @ word_of (lengths tree) s"
    using writeBitsReversed_bits [OF assms(3)] by (simp_all add: write_code_def word_of_def)
qed

lemma write_number_bits:
  assumes "v < 2 ^ n" "n \<le> 32" "wr_ok w"
  shows "wr_ok (writeBits w (word_of_nat v) n)"
    "wr_bits (writeBits w (word_of_nat v) n) = wr_bits w @ map (bit v) [0 ..< n]"
proof -
  have u: "unat (word_of_nat v :: u32) = v"
    using assms(1) power_increasing [OF assms(2), of "2 :: nat"] by (simp add: unat_of_nat)
  have "n = 1 \<Longrightarrow> word_of_nat v \<le> (1 :: u32)" using assms(1) by (auto simp: word_le_nat_alt u)
  note wb = writeBits_bits [OF assms(3) this]
  have "map (bit (word_of_nat v :: u32)) [0 ..< n] = map (bit v) [0 ..< n]"
    using assms(2) by (auto simp: bit_of_nat_iff)
  then show "wr_ok (writeBits w (word_of_nat v) n)"
    "wr_bits (writeBits w (word_of_nat v) n) = wr_bits w @ map (bit v) [0 ..< n]"
    using wb by simp_all
qed

lemma lz_decode_match_cases:
  assumes "lz_decode (v # vs) out = Some out'" "256 < v"
  obtains el dc ed rest where "vs = el # dc # ed # rest" "v \<le> 285" "dc < 30"
    "el < 2 ^ (LENGTHEXTRA ! (v - 257))" "ed < 2 ^ (DISTANCEEXTRA ! dc)"
    "DISTANCEBASE ! dc + ed \<le> length out"
    "lz_decode rest (copy_match out (DISTANCEBASE ! dc + ed) (LENGTHBASE ! (v - 257) + el)) = Some out'"
  using assms by (auto simp: Let_def split: if_splits list.splits)

lemma lz_decode_literal_cases:
  assumes "lz_decode (v # vs) out = Some out'" "v \<le> 256"
  shows "v \<le> 255 \<and> lz_decode vs (out @ [word_of_nat v]) = Some out'"
  using assms by (auto split: if_splits)

lemma extra_bits_bounds:
  "i < 29 \<Longrightarrow> LENGTHEXTRA ! i \<le> 5" "i < 30 \<Longrightarrow> DISTANCEEXTRA ! i \<le> 13"
proof -
  have "list_all (\<lambda>x. x \<le> 5) LENGTHEXTRA" "length LENGTHEXTRA = 29"
    "list_all (\<lambda>x. x \<le> 13) DISTANCEEXTRA" "length DISTANCEEXTRA = 30"
    by (simp_all add: LENGTHEXTRA_def DISTANCEEXTRA_def)
  then show "i < 29 \<Longrightarrow> LENGTHEXTRA ! i \<le> 5" "i < 30 \<Longrightarrow> DISTANCEEXTRA ! i \<le> 13"
    by (simp_all add: list_all_length)
qed

lemma writeLZ77data_bits:
  assumes "good_tree tree_ll" "good_tree tree_d" "wr_ok w" "lz_decode vs out = Some out'"
    "lz_covered (lengths tree_ll) (lengths tree_d) vs"
  shows "wr_ok (writeLZ77data vs tree_ll tree_d w) \<and>
    wr_bits (writeLZ77data vs tree_ll tree_d w) = wr_bits w @ lz_bits (lengths tree_ll) (lengths tree_d) vs"
  using assms
proof (induction vs tree_ll tree_d w arbitrary: out rule: writeLZ77data.induct)
  case (2 v vs tree_ll tree_d w)
  have v: "v \<in> symbols (lengths tree_ll)" using 2(7) by simp
  note w1 = write_code_bits [OF 2(3) v 2(5)]
  show ?case
  proof (cases "v > 256")
    case False
    then have "v \<le> 255 \<and> lz_decode vs (out @ [word_of_nat v]) = Some out'"
      using lz_decode_literal_cases [OF 2(6)] by simp
    then show ?thesis using 2(2) [OF refl False 2(3,4) w1(1), of "out @ [word_of_nat v]"] 2(7) False by (simp add: w1(2))
  next
    case True
    obtain el dc ed rest where m: "vs = el # dc # ed # rest" "v \<le> 285" "dc < 30"
      "el < 2 ^ (LENGTHEXTRA ! (v - 257))" "ed < 2 ^ (DISTANCEEXTRA ! dc)"
      "lz_decode rest (copy_match out (DISTANCEBASE ! dc + ed) (LENGTHBASE ! (v - 257) + el)) = Some out'"
      using lz_decode_match_cases [OF 2(6) True] by metis
    have e: "LENGTHEXTRA ! (v - 257) \<le> 32" "DISTANCEEXTRA ! dc \<le> 32"
      using extra_bits_bounds(1) [of "v - 257"] extra_bits_bounds(2) [of dc] m(2,3) True by linarith+
    have dc: "dc \<in> symbols (lengths tree_d)" using 2(7) True m(1) by simp
    note w2 = write_number_bits [OF m(4) e(1) w1(1)]
    note w3 = write_code_bits [OF 2(4) dc w2(1)]
    note w4 = write_number_bits [OF m(5) e(2) w3(1)]
    show ?thesis
      using 2(1) [OF refl True refl refl refl refl refl refl refl 2(3,4)] w1(2) w2(2) w3(2) w4 m 2(7) True
      by (simp add: Let_def)
  qed
qed simp

section \<open>Reading\<close>

text \<open>The next bits are \<open>bs\<close>.\<close>

definition reads_as :: "LodePNGBitReader \<Rightarrow> bool list \<Rightarrow> bool" where
  "reads_as r bs \<longleftrightarrow> rd_ok r \<and> rd_bitsize r + 64 < 2 ^ 64 \<and> rd_bp r + length bs \<le> rd_bitsize r \<and>
     sbits (rd_data r) (rd_bp r) (length bs) = bs"

lemma reads_as_append:
  "reads_as r (xs @ ys) \<Longrightarrow> reads_as r xs \<and> reads_as (advanceBits r (length xs)) ys"
  by (auto simp: reads_as_def sbits_append)

lemma reads_as_buffer [simp]: "reads_as (r\<lparr>rd_buffer := b\<rparr>) bs = reads_as r bs"
  by (simp add: reads_as_def rd_ok_def)

lemma decode_word:
  assumes "good_tree tree" "s \<in> symbols (lengths tree)" "reads_as r (word_of (lengths tree) s @ ys)"
    "holds_bits r 15"
  shows "huffmanDecodeSymbol r tree = (s, advanceBits r (lengths tree ! s))"
proof -
  have l: "lengths tree ! s \<le> 15"
    using assms(1,2) complete_len by (auto simp: good_tree_def symbols_def)
  have "sbits (rd_data r) (rd_bp r) (lengths tree ! s) = word_of (lengths tree) s"
    using reads_as_append [OF assms(3)] by (simp add: reads_as_def)
  then have "prefix (word_of (lengths tree) s) (sbits (rd_data r) (rd_bp r) 15)"
    using sbits_append [of "rd_data r" "rd_bp r" "lengths tree ! s" "15 - lengths tree ! s"] l by simp
  then show ?thesis using assms(1,2,4) by (simp add: good_tree_def decodes_def)
qed

lemma read_number:
  assumes "holds_bits r n" "m \<le> n" "reads_as r (map (bit v) [0 ..< m] @ ys)" "v < 2 ^ m"
  shows "unat (fst (readBits r m)) = v"
proof -
  have "sbits (rd_data r) (rd_bp r) m = map (bit v) [0 ..< m]"
    using reads_as_append [OF assms(3)] by (simp add: reads_as_def)
  then show ?thesis using readBits_val [OF assms(1,2)] bits_val_bit [OF assms(4)] by simp
qed

text \<open>One symbol: the bits after it are what is left to read.\<close>

lemma reads_as_ensure:
  assumes "reads_as r bs"
  shows "reads_as (snd (ensureBits25 r n)) bs" "reads_as (snd (ensureBits32 r n)) bs"
  by (subst ensureBits_buffer, simp add: assms)+

lemma reads_as_inside: "reads_as r bs \<Longrightarrow> rd_bp r \<le> rd_bitsize r"
  by (simp add: reads_as_def)

lemma inflate_literal:
  assumes "good_tree tree_ll" "v \<in> symbols (lengths tree_ll)" "v \<le> 255"
    "reads_as r (word_of (lengths tree_ll) v @ bs)"
  shows "\<exists>r'. inflate_symbol tree_ll tree_d 0 out r = Inr (False, out @ [word_of_nat v], r') \<and> reads_as r' bs"
proof -
  let ?r = "snd (ensureBits25 r 20)"
  have ok: "rd_ok r" using assms(4) by (simp add: reads_as_def)
  have r: "reads_as ?r (word_of (lengths tree_ll) v @ bs)" by (rule reads_as_ensure [OF assms(4)])
  have "holds_bits ?r 15" by (rule holds_bits_mono [OF la25.ahead [OF ok]]) simp_all
  note d = decode_word [OF assms(1,2) r this]
  have r': "reads_as (advanceBits ?r (lengths tree_ll ! v)) bs" using reads_as_append [OF r] by simp
  then show ?thesis
    using assms(3) reads_as_inside [OF r'] by (simp add: inflate_symbol_def Let_def d)
qed

lemma inflate_stop:
  assumes "good_tree tree_ll" "256 \<in> symbols (lengths tree_ll)"
    "reads_as r (word_of (lengths tree_ll) 256 @ bs)"
  shows "\<exists>r'. inflate_symbol tree_ll tree_d 0 out r = Inr (True, out, r') \<and> reads_as r' bs"
proof -
  let ?r = "snd (ensureBits25 r 20)"
  have ok: "rd_ok r" using assms(3) by (simp add: reads_as_def)
  have r: "reads_as ?r (word_of (lengths tree_ll) 256 @ bs)" by (rule reads_as_ensure [OF assms(3)])
  have "holds_bits ?r 15" by (rule holds_bits_mono [OF la25.ahead [OF ok]]) simp_all
  note d = decode_word [OF assms(1,2) r this]
  then show ?thesis
    using reads_as_append [OF r] by (simp add: inflate_symbol_def Let_def)
qed

text \<open>Extra bits, of which there may be none.\<close>

lemma read_extra:
  assumes "holds_bits r n" "m \<le> n" "reads_as r (map (bit v) [0 ..< m] @ bs)" "v < 2 ^ m"
  shows "\<exists>r'. (\<forall>base. (if m \<noteq> 0 then (case readBits r m of (x, r) \<Rightarrow> (base + unat x, r)) else (base, r)) =
    (base + v, r')) \<and> reads_as r' bs"
proof -
  let ?r = "if m \<noteq> 0 then advanceBits r m else r"
  have "readBits r m = (fst (readBits r m), advanceBits r m)" by (simp flip: readBits_snd)
  then have "(if m \<noteq> 0 then (case readBits r m of (x, r) \<Rightarrow> (base + unat x, r)) else (base, r)) =
    (base + v, ?r)" for base
    using read_number [OF assms] assms(4) by (auto split: prod.split)
  moreover have "reads_as ?r bs"
    using reads_as_append [OF assms(3)] assms(3) by auto
  ultimately show ?thesis by blast
qed

lemma inflate_match:
  assumes "good_tree tree_ll" "good_tree tree_d" "v \<in> symbols (lengths tree_ll)" "256 < v" "v \<le> 285"
    "dc \<in> symbols (lengths tree_d)" "dc < 30" "el < 2 ^ (LENGTHEXTRA ! (v - 257))"
    "ed < 2 ^ (DISTANCEEXTRA ! dc)" "DISTANCEBASE ! dc + ed \<le> length out"
    "reads_as r (word_of (lengths tree_ll) v @ map (bit el) [0 ..< LENGTHEXTRA ! (v - 257)] @
      word_of (lengths tree_d) dc @ map (bit ed) [0 ..< DISTANCEEXTRA ! dc] @ bs)"
  shows "\<exists>r'. inflate_symbol tree_ll tree_d 0 out r =
    Inr (False, copy_match out (DISTANCEBASE ! dc + ed) (LENGTHBASE ! (v - 257) + el), r') \<and> reads_as r' bs"
proof -
  let ?le = "LENGTHEXTRA ! (v - 257)" and ?de = "DISTANCEEXTRA ! dc"
  have e: "?le \<le> 5" "?de \<le> 13" using extra_bits_bounds assms(4,5,7) by simp_all
  have l15: "lengths tree ! s \<le> 15" if "good_tree tree" "s \<in> symbols (lengths tree)" for tree s
    using that complete_len by (auto simp: good_tree_def symbols_def)
  define r1 where "r1 = snd (ensureBits25 r 20)"
  have ok: "rd_ok r" using assms(11) by (simp add: reads_as_def)
  have a1: "reads_as r1 (word_of (lengths tree_ll) v @ map (bit el) [0 ..< ?le] @
      word_of (lengths tree_d) dc @ map (bit ed) [0 ..< ?de] @ bs)"
    unfolding r1_def by (rule reads_as_ensure [OF assms(11)])
  have h1: "holds_bits r1 20" unfolding r1_def by (rule la25.ahead [OF ok]) simp
  note d1 = decode_word [OF assms(1,3) a1 holds_bits_mono [OF h1]]
  define r2 where "r2 = advanceBits r1 (lengths tree_ll ! v)"
  have a2: "reads_as r2 (map (bit el) [0 ..< ?le] @ word_of (lengths tree_d) dc @
      map (bit ed) [0 ..< ?de] @ bs)"
    using reads_as_append [OF a1] by (simp add: r2_def)
  have h2: "holds_bits r2 5"
    unfolding r2_def
    by (rule holds_bits_mono [OF advanceBits_holds [OF h1]]) (use l15 [OF assms(1,3)] in simp)
  from read_extra [OF h2 e(1) a2 assms(8)] obtain r3 where
    x1: "\<And>base. (if ?le \<noteq> 0 then (case readBits r2 ?le of (x, r) \<Rightarrow> (base + unat x, r)) else (base, r2)) =
      (base + el, r3)"
    and a3: "reads_as r3 (word_of (lengths tree_d) dc @ map (bit ed) [0 ..< ?de] @ bs)" by blast
  define r4 where "r4 = snd (ensureBits32 r3 28)"
  have a4: "reads_as r4 (word_of (lengths tree_d) dc @ map (bit ed) [0 ..< ?de] @ bs)"
    unfolding r4_def by (rule reads_as_ensure [OF a3])
  have ok3: "rd_ok r3" using a3 by (simp add: reads_as_def)
  have h4: "holds_bits r4 28" unfolding r4_def by (rule la32.ahead [OF ok3]) simp
  note d2 = decode_word [OF assms(2,6) a4 holds_bits_mono [OF h4]]
  define r5 where "r5 = advanceBits r4 (lengths tree_d ! dc)"
  have a5: "reads_as r5 (map (bit ed) [0 ..< ?de] @ bs)"
    using reads_as_append [OF a4] by (simp add: r5_def)
  have h5: "holds_bits r5 13"
    unfolding r5_def
    by (rule holds_bits_mono [OF advanceBits_holds [OF h4]]) (use l15 [OF assms(2,6)] in simp)
  from read_extra [OF h5 e(2) a5 assms(9)] obtain r6 where
    x2: "\<And>base. (if ?de \<noteq> 0 then (case readBits r5 ?de of (x, r) \<Rightarrow> (base + unat x, r)) else (base, r5)) =
      (base + ed, r6)"
    and a6: "reads_as r6 bs" by blast
  have "inflate_symbol tree_ll tree_d 0 out r =
    Inr (False, copy_match out (DISTANCEBASE ! dc + ed) (LENGTHBASE ! (v - 257) + el),
      r6)"
    using assms(4,5,7,10) reads_as_inside [OF a6] x1 x2 d1 d2
    by (simp add: inflate_symbol_def Let_def flip: r1_def r2_def r4_def r5_def)
  then show ?thesis using a6 by blast
qed

text \<open>All symbols of a block, and the end.\<close>

lemma inflate_symbols_reads:
  assumes "good_tree tree_ll" "good_tree tree_d" "256 \<in> symbols (lengths tree_ll)"
    "lz_decode vs out = Some out'" "lz_covered (lengths tree_ll) (lengths tree_d) vs"
    "reads_as r (lz_bits (lengths tree_ll) (lengths tree_d) vs @ word_of (lengths tree_ll) 256 @ bs)"
  shows "\<exists>r'. inflate_symbols tree_ll tree_d 0 out r = Some (Inr (out', r')) \<and> reads_as r' bs"
  using assms(4-6)
proof (induction "length vs" arbitrary: vs out r rule: less_induct)
  case less
  let ?ll = "lengths tree_ll" and ?d = "lengths tree_d"
  show ?case
  proof (cases vs)
    case Nil
    then obtain r' where "inflate_symbol tree_ll tree_d 0 out r = Inr (True, out, r')" "reads_as r' bs"
      using inflate_stop [OF assms(1,3), of r bs tree_d out] less(4) by auto
    then show ?thesis using less(2) Nil by (subst inflate_symbols.simps) simp
  next
    case (Cons v ws)
    have v: "v \<in> symbols ?ll" using less(3) Cons by simp
    have "\<exists>vs' out1 r1. inflate_symbol tree_ll tree_d 0 out r = Inr (False, out1, r1) \<and>
      lz_decode vs' out1 = Some out' \<and> lz_covered ?ll ?d vs' \<and> length vs' < length vs \<and>
      reads_as r1 (lz_bits ?ll ?d vs' @ word_of ?ll 256 @ bs)"
    proof (cases "v > 256")
      case False
      then have l: "v \<le> 255" "lz_decode ws (out @ [word_of_nat v]) = Some out'"
        using lz_decode_literal_cases [of v ws out out'] less(2) Cons by simp_all
      have "reads_as r (word_of ?ll v @ lz_bits ?ll ?d ws @ word_of ?ll 256 @ bs)"
        using less(4) Cons False by simp
      from inflate_literal [OF assms(1) v l(1) this, of tree_d out] show ?thesis
        using l(2) less(3) Cons False by auto
    next
      case True
      obtain el dc ed rest where m: "ws = el # dc # ed # rest" "v \<le> 285" "dc < 30"
        "el < 2 ^ (LENGTHEXTRA ! (v - 257))" "ed < 2 ^ (DISTANCEEXTRA ! dc)"
        "DISTANCEBASE ! dc + ed \<le> length out"
        "lz_decode rest (copy_match out (DISTANCEBASE ! dc + ed) (LENGTHBASE ! (v - 257) + el)) = Some out'"
        using lz_decode_match_cases [OF less(2) [unfolded Cons] True] by metis
      have dc: "dc \<in> symbols ?d" "lz_covered ?ll ?d rest" using less(3) Cons True m(1) by simp_all
      have "reads_as r (word_of ?ll v @ map (bit el) [0 ..< LENGTHEXTRA ! (v - 257)] @
          word_of ?d dc @ map (bit ed) [0 ..< DISTANCEEXTRA ! dc] @ lz_bits ?ll ?d rest @ word_of ?ll 256 @ bs)"
        using less(4) Cons True m(1) by simp
      from inflate_match [OF assms(1,2) v True m(2) dc(1) m(3-6) this] show ?thesis
        using m(1,7) dc(2) Cons by (auto intro!: exI [of _ rest])
    qed
    then obtain vs' out1 r1 where s: "inflate_symbol tree_ll tree_d 0 out r = Inr (False, out1, r1)"
      and rest: "lz_decode vs' out1 = Some out'" "lz_covered ?ll ?d vs'" "length vs' < length vs"
        "reads_as r1 (lz_bits ?ll ?d vs' @ word_of ?ll 256 @ bs)" by blast
    from less(1) [OF rest(3,1,2,4)] show ?thesis
      by (subst inflate_symbols.simps) (simp add: s)
  qed
qed

section \<open>The fixed trees\<close>

lemma symbols_all: "list_all (\<lambda>l. 0 < l) ls \<Longrightarrow> symbols ls = {0 ..< length ls}"
  by (auto simp: symbols_def list_all_length)

definition fixed_ll :: "nat list" where
  "fixed_ll = replicate 144 8 @ replicate 112 9 @ replicate 24 7 @ replicate 8 8"

lemma generateFixedLitLenTree_good:
  "\<exists>tree'. generateFixedLitLenTree tree = Inr tree' \<and> good_tree tree' \<and> lengths tree' = fixed_ll"
proof -
  have "complete fixed_ll" by (simp add: complete_iff fixed_ll_def sum_list_replicate list_all_iff)
  moreover have "length fixed_ll = 288" "\<forall>l \<in> set fixed_ll. l \<le> 15" by (auto simp: fixed_ll_def)
  ultimately show ?thesis
    using makeFromLengths2_good [of "tree\<lparr>lengths := fixed_ll, numcodes := 288, maxbitlen := 15\<rparr>"]
    by (auto simp: generateFixedLitLenTree_def HuffmanTree_makeFromLengths_def Let_def
        simp flip: fixed_ll_def)
qed

lemma generateFixedDistanceTree_good:
  "\<exists>tree'. generateFixedDistanceTree tree = Inr tree' \<and> good_tree tree' \<and> lengths tree' = replicate 32 5"
proof -
  have "complete (replicate 32 5)" by (simp add: complete_iff sum_list_replicate list_all_iff)
  then show ?thesis
    using makeFromLengths2_good [of "tree\<lparr>lengths := replicate 32 5, numcodes := 32, maxbitlen := 15\<rparr>"]
    by (auto simp: generateFixedDistanceTree_def HuffmanTree_makeFromLengths_def)
qed

lemma fixed_symbols: "symbols fixed_ll = {0 ..< 288}" "symbols (replicate 32 5) = {0 ..< 32}"
  by (simp_all add: symbols_all fixed_ll_def list_all_iff)

text \<open>They have a word for every symbol that can occur.\<close>

lemma lz_covered_all:
  assumes "lz_decode vs out = Some out'" "{0 ..< 286} \<subseteq> symbols ll" "{0 ..< 30} \<subseteq> symbols d"
  shows "lz_covered ll d vs"
  using assms(1)
proof (induction "length vs" arbitrary: vs out rule: less_induct)
  case less
  show ?case
  proof (cases vs)
    case (Cons v ws)
    show ?thesis
    proof (cases "v > 256")
      case False
      then have "v \<le> 255 \<and> lz_decode ws (out @ [word_of_nat v]) = Some out'"
        using lz_decode_literal_cases [of v ws out out'] less(2) Cons by simp
      then show ?thesis using less(1) [of ws] Cons False assms(2) by auto
    next
      case True
      then obtain el dc ed rest where m: "ws = el # dc # ed # rest" "v \<le> 285" "dc < 30"
        "lz_decode rest (copy_match out (DISTANCEBASE ! dc + ed) (LENGTHBASE ! (v - 257) + el)) = Some out'"
        using lz_decode_match_cases [OF less(2) [unfolded Cons]] by metis
      then show ?thesis using less(1) [of rest] Cons True assms(2,3) by auto
    qed
  qed simp
qed

text \<open>A literal takes at most 15 bits, a match at most 48 and stands for at least three bytes.\<close>

lemma length_copy_match:
  assumes "distance \<le> length out"
  shows "length (copy_match out distance len) = length out + len"
proof -
  have "length (fold (\<lambda>k out. out @ [f k out]) ks out) = length out + length ks" for ks :: "nat list" and f and out :: bytes
    by (induction ks arbitrary: out) auto
  then show ?thesis using assms by (auto simp: copy_match_def Let_def)
qed

lemma LENGTHBASE_ge: "i < 29 \<Longrightarrow> 3 \<le> LENGTHBASE ! i"
  using sorted_nth_mono [OF bases_sorted(1), of 0 i] bases_sorted(3) by (simp add: LENGTHBASE_def)

lemma word_length: "complete ls \<Longrightarrow> i \<in> symbols ls \<Longrightarrow> length (word_of ls i) \<le> 15"
  using complete_len by (auto simp: symbols_def)

lemma lz_bits_length:
  assumes "complete ll" "complete d" "lz_decode vs out = Some out'" "lz_covered ll d vs"
  shows "length out \<le> length out' \<and> length (lz_bits ll d vs) + 16 * length out \<le> 16 * length out'"
  using assms(3,4)
proof (induction "length vs" arbitrary: vs out rule: less_induct)
  case less
  show ?case
  proof (cases vs)
    case Nil
    then show ?thesis using less(2) by simp
  next
    case (Cons v ws)
    have v: "length (word_of ll v) \<le> 15" using word_length [OF assms(1)] less(3) Cons by simp
    show ?thesis
    proof (cases "v > 256")
      case False
      then have "lz_decode ws (out @ [word_of_nat v]) = Some out'"
        using lz_decode_literal_cases [of v ws out out'] less(2) Cons by simp
      from less(1) [OF _ this] show ?thesis using less(3) Cons False v by simp
    next
      case True
      then obtain el dc ed rest where m: "ws = el # dc # ed # rest" "v \<le> 285" "dc < 30"
        "DISTANCEBASE ! dc + ed \<le> length out"
        "lz_decode rest (copy_match out (DISTANCEBASE ! dc + ed) (LENGTHBASE ! (v - 257) + el)) = Some out'"
        using lz_decode_match_cases [OF less(2) [unfolded Cons]] by metis
      have dc: "length (word_of d dc) \<le> 15" "lz_covered ll d rest"
        using word_length [OF assms(2)] less(3) Cons True m(1) by simp_all
      have e: "LENGTHEXTRA ! (v - 257) \<le> 5" "DISTANCEEXTRA ! dc \<le> 13" "3 \<le> LENGTHBASE ! (v - 257)"
        using extra_bits_bounds LENGTHBASE_ge m(2,3) True by simp_all
      have "length rest < length vs" using m(1) Cons by simp
      from less(1) [OF this m(5) dc(2)] show ?thesis
        using Cons True m(1) v dc(1) e unfolding length_copy_match [OF m(4)] by simp
    qed
  qed
qed

section \<open>A block\<close>

text \<open>Settings whose window the encoder accepts.\<close>

definition window_ok :: "LodePNGCompressSettings \<Rightarrow> bool" where
  "window_ok settings \<longleftrightarrow> (use_lz77 settings \<longrightarrow>
     0 < windowsize settings \<and> windowsize settings \<le> 32768 \<and>
     windowsize settings AND (windowsize settings - 1) = 0)"

definition hash_ready :: "LodePNGCompressSettings \<Rightarrow> bytes \<Rightarrow> nat \<Rightarrow> Hash \<Rightarrow> bool" where
  "hash_ready settings data pos h \<longleftrightarrow> (use_lz77 settings \<longrightarrow> hash_ok data (windowsize settings) pos h)"

lemma lz_decode_bytes: "lz_decode (map unat bs) out = Some (out @ (bs :: bytes))"
proof (induction bs arbitrary: out)
  case (Cons b bs)
  have "unat b < 2 ^ LENGTH(8)" by (rule unsigned_less)
  then have "unat b \<le> 255" by simp
  then show ?case by (simp add: Cons)
qed simp

lemma block_symbols_decode:
  assumes "window_ok settings" "start \<le> stop" "stop \<le> length data" "hash_ready settings data start h"
  shows "\<exists>vs h'. block_symbols h data start stop settings = Inr (vs, h') \<and>
    lz_decode vs (take start data) = Some (take stop data) \<and> hash_ready settings data stop h'"
proof (cases "use_lz77 settings")
  case True
  then show ?thesis
    using encodeLZ77_meaning [of "windowsize settings" start stop data h] assms
    by (simp add: window_ok_def hash_ready_def block_symbols_def)
next
  case False
  have "map (\<lambda>i. unat (data ! i)) [start ..< stop] = map unat (take (stop - start) (drop start data))"
    using assms(2,3) by (intro nth_equalityI) simp_all
  moreover have "take start data @ take (stop - start) (drop start data) = take stop data"
    using assms(2) by (metis le_add_diff_inverse take_add)
  ultimately show ?thesis using False by (simp add: block_symbols_def hash_ready_def lz_decode_bytes)
qed

text \<open>
  The bits a block adds, and their number: reading them, with whatever follows, takes the output from \<open>out\<close> to \<open>out'\<close>.
\<close>

definition block_written ::
  "LodePNGBitWriter \<Rightarrow> LodePNGBitWriter \<Rightarrow> bool \<Rightarrow> bytes \<Rightarrow> bytes \<Rightarrow> bool" where
  "block_written w w' final out out' \<longleftrightarrow> wr_ok w' \<and> (\<exists>bs. wr_bits w' = wr_bits w @ bs \<and>
     length bs + 16 * length out \<le> 16 * length out' + 8000 \<and>
     (\<forall>settings r rest. max_output_size settings = 0 \<longrightarrow> reads_as r (bs @ rest) \<longrightarrow>
       (\<exists>r'. reads_as r' rest \<and> inflate_blocks settings out r =
          (if final then Some (Inr out') else inflate_blocks settings out' r'))))"

lemma inflate_blocks_huffman:
  assumes "max_output_size settings = 0" "t = 1 \<or> t = 2" "reads_as r (final # map (bit t) [0 ..< 2] @ bs)"
    and block: "\<And>r1. reads_as r1 bs \<Longrightarrow>
      \<exists>r'. inflateHuffmanBlock out r1 t 0 = Some (Inr (out', r')) \<and> reads_as r' rest"
  shows "\<exists>r'. reads_as r' rest \<and> inflate_blocks settings out r =
    (if final then Some (Inr out') else inflate_blocks settings out' r')"
proof -
  define r1 where "r1 = snd (ensureBits9 r 3)"
  define r2 where "r2 = advanceBits r1 1"
  define r3 where "r3 = advanceBits r2 2"
  have ok: "rd_ok r" using assms(3) by (simp add: reads_as_def)
  have "rd_bp r + 3 \<le> rd_bitsize r" using assms(3) by (simp add: reads_as_def)
  then have e: "ensureBits9 r 3 = (True, r1)"
    using la9.answer [OF ok, of 3] by (simp add: r1_def prod_eq_iff)
  have a1: "reads_as r1 (map (bit (of_bool final :: nat)) [0 ..< 1] @ map (bit t) [0 ..< 2] @ bs)"
    unfolding r1_def using assms(3) by (subst ensureBits_buffer) (auto simp: bit_Suc_0_iff)
  have h1: "holds_bits r1 3" unfolding r1_def by (rule la9.ahead [OF ok]) simp
  have f: "unat (fst (readBits r1 1)) = of_bool final" by (rule read_number [OF h1 _ a1]) simp_all
  have a2: "reads_as r2 (map (bit t) [0 ..< 2] @ bs)"
    using reads_as_append [OF a1] by (simp add: r2_def)
  have h2: "holds_bits r2 2" unfolding r2_def by (rule holds_bits_mono [OF advanceBits_holds [OF h1]]) simp
  have t: "unat (fst (readBits r2 2)) = t"
    by (rule read_number [OF h2 _ a2]) (use assms(2) in auto)
  have a3: "reads_as r3 bs" using reads_as_append [OF a2] by (simp add: r3_def)
  from block [OF a3] obtain r' where
    b: "inflateHuffmanBlock out r3 t 0 = Some (Inr (out', r'))" "reads_as r' rest" by blast
  obtain F T where rb: "readBits r1 1 = (F, r2)" "readBits r2 2 = (T, r3)"
    by (metis prod.collapse r2_def r3_def readBits_snd)
  have "unat F = of_bool final" using f unfolding rb(1) by simp
  then have "F \<noteq> 0 \<longleftrightarrow> final" by (cases final) (auto simp flip: unat_eq_iff)
  moreover have T: "unat T = t" using t by (simp add: rb(2))
  moreover have "T \<noteq> 0" "T \<noteq> 3" using T assms(2) by (auto simp flip: unat_eq_iff)
  ultimately have "inflate_blocks settings out r =
      (if final then Some (Inr out') else inflate_blocks settings out' r')"
    by (subst inflate_blocks.simps) (simp add: e rb b(1) assms(1) del: One_nat_def)
  then show ?thesis using b(2) by blast
qed

text \<open>The first three bits of a block.\<close>

lemma write_header:
  assumes "wr_ok w" "t = 1 \<or> t = 2"
  shows "wr_ok (writeBits (writeBits (writeBits w (of_bool final) 1) (of_bool (bit t 0)) 1)
      (of_bool (bit t 1)) 1)"
    "wr_bits (writeBits (writeBits (writeBits w (of_bool final) 1) (of_bool (bit t 0)) 1)
      (of_bool (bit t 1)) 1) = wr_bits w @ final # map (bit (t :: nat)) [0 ..< 2]"
proof -
  have s: "of_bool b \<le> (1 :: u32)" for b by (cases b) simp_all
  note w1 = writeBits_bits [OF assms(1), of 1 "of_bool final"]
  note w2 = writeBits_bits [OF w1(1) [OF s], of 1 "of_bool (bit t 0)"]
  note w3 = writeBits_bits [OF w2(1) [OF s], of 1 "of_bool (bit t 1)"]
  show "wr_ok (writeBits (writeBits (writeBits w (of_bool final) 1) (of_bool (bit t 0)) 1)
      (of_bool (bit t 1)) 1)" by (rule w3(1) [OF s])
  show "wr_bits (writeBits (writeBits (writeBits w (of_bool final) 1) (of_bool (bit t 0)) 1)
      (of_bool (bit t 1)) 1) = wr_bits w @ final # map (bit (t :: nat)) [0 ..< 2]"
    unfolding w3(2) [OF s] w2(2) [OF s] w1(2) [OF s] by (simp add: upt_conv_Cons)
qed

text \<open>A block with the fixed trees.\<close>

lemma fold_write_code:
  "list_all (\<lambda>v. v \<le> 256) vs \<Longrightarrow> fold (write_code tree_ll) vs w = writeLZ77data vs tree_ll tree_d w"
  by (induction vs arbitrary: w) (auto simp: Let_def)

lemma deflateFixed_symbols:
  assumes "generateFixedLitLenTree HuffmanTree_init = Inr tree_ll"
    "generateFixedDistanceTree HuffmanTree_init = Inr tree_d"
    "block_symbols h data start stop settings = Inr (vs, h')"
  shows "deflateFixed w h data start stop settings final =
    Inr (write_code tree_ll 256 (writeLZ77data vs tree_ll tree_d
      (writeBits (writeBits (writeBits w (of_bool final) 1) 1 1) 0 1)), h')"
proof (cases "use_lz77 settings")
  case True
  then show ?thesis using assms by (simp add: deflateFixed_def block_symbols_def)
next
  case False
  have l: "unat b \<le> 256" for b :: byte
  proof -
    have "unat b < 2 ^ LENGTH(8)" by (rule unsigned_less)
    then show ?thesis by simp
  qed
  have vs: "vs = map (\<lambda>i. unat (data ! i)) [start ..< stop]" "h' = h"
    using assms(3) False by (simp_all add: block_symbols_def)
  have "fold (\<lambda>i. write_code tree_ll (unat (data ! i))) [start ..< stop] w' =
      writeLZ77data vs tree_ll tree_d w'" for w'
    using fold_write_code [of vs tree_ll w' tree_d] l by (simp add: vs list_all_iff fold_map comp_def)
  then show ?thesis using assms(1,2) False vs(2) by (simp add: deflateFixed_def)
qed

lemma deflateFixed_written:
  assumes "window_ok settings" "start \<le> stop" "stop \<le> length data" "hash_ready settings data start h" "wr_ok w"
  shows "\<exists>w' h'. deflateFixed w h data start stop settings final = Inr (w', h') \<and>
    block_written w w' final (take start data) (take stop data) \<and> hash_ready settings data stop h'"
proof -
  from block_symbols_decode [OF assms(1-4)] obtain vs h' where
    s: "block_symbols h data start stop settings = Inr (vs, h')"
      "lz_decode vs (take start data) = Some (take stop data)" "hash_ready settings data stop h'" by blast
  obtain tree_ll where ll: "generateFixedLitLenTree HuffmanTree_init = Inr tree_ll"
    "good_tree tree_ll" "lengths tree_ll = fixed_ll" using generateFixedLitLenTree_good by blast
  obtain tree_d where d: "generateFixedDistanceTree HuffmanTree_init = Inr tree_d"
    "good_tree tree_d" "lengths tree_d = replicate 32 5" using generateFixedDistanceTree_good by blast
  have cov: "lz_covered (lengths tree_ll) (lengths tree_d) vs"
    by (rule lz_covered_all [OF s(2)]) (simp_all add: ll(3) d(3) fixed_symbols)
  have stop: "256 \<in> symbols (lengths tree_ll)" by (simp add: ll(3) fixed_symbols)
  let ?w0 = "writeBits (writeBits (writeBits w (of_bool final) 1) 1 1) 0 1"
  have w0: "wr_ok ?w0" "wr_bits ?w0 = wr_bits w @ final # map (bit (1 :: nat)) [0 ..< 2]"
    using write_header [OF assms(5), of 1 final] by (simp_all add: bit_Suc_0_iff)
  note w1 = writeLZ77data_bits [OF ll(2) d(2) w0(1) s(2) cov, THEN conjunct1]
    writeLZ77data_bits [OF ll(2) d(2) w0(1) s(2) cov, THEN conjunct2]
  note w2 = write_code_bits [OF ll(2) stop w1(1)]
  let ?bs = "lz_bits (lengths tree_ll) (lengths tree_d) vs @ word_of (lengths tree_ll) 256"
  have "block_written w (write_code tree_ll 256 (writeLZ77data vs tree_ll tree_d ?w0)) final
      (take start data) (take stop data)"
    unfolding block_written_def
  proof (intro conjI exI [of _ "final # map (bit (1 :: nat)) [0 ..< 2] @ ?bs"] allI impI)
    show "wr_bits (write_code tree_ll 256 (writeLZ77data vs tree_ll tree_d ?w0)) =
        wr_bits w @ (final # map (bit (1 :: nat)) [0 ..< 2] @ ?bs)"
      by (simp only: w2(2) w1(2) w0(2) append_assoc append_Cons)
    show "length (final # map (bit (1 :: nat)) [0 ..< 2] @ ?bs) + 16 * length (take start data) \<le>
        16 * length (take stop data) + 8000"
      using lz_bits_length [OF _ _ s(2) cov] word_length [OF _ stop] ll(2) d(2) by (simp add: good_tree_def)
    fix settings :: LodePNGDecompressSettings and r rest
    assume m: "max_output_size settings = 0"
      and r: "reads_as r ((final # map (bit (1 :: nat)) [0 ..< 2] @ ?bs) @ rest)"
    show "\<exists>r'. reads_as r' rest \<and> inflate_blocks settings (take start data) r =
      (if final then Some (Inr (take stop data)) else inflate_blocks settings (take stop data) r')"
    proof (rule inflate_blocks_huffman [OF m, where t = 1])
      show "reads_as r (final # map (bit (1 :: nat)) [0 ..< 2] @ ?bs @ rest)" using r by simp
      fix r1 assume "reads_as r1 (?bs @ rest)"
      then have "reads_as r1 (lz_bits (lengths tree_ll) (lengths tree_d) vs @ word_of (lengths tree_ll) 256 @ rest)"
        by simp
      from inflate_symbols_reads [OF ll(2) d(2) stop s(2) cov this]
      show "\<exists>r'. inflateHuffmanBlock (take start data) r1 1 0 = Some (Inr (take stop data, r')) \<and> reads_as r' rest"
        by (simp add: inflateHuffmanBlock_def getTreeInflateFixed_def ll(1) d(1))
    qed simp
  qed (rule w2(1))
  then show ?thesis using deflateFixed_symbols [OF ll(1) d(1) s(1), of w final] s(3) by auto
qed

section \<open>All blocks\<close>

text \<open>The size and the number of the blocks.\<close>

definition deflate_blocksize :: "LodePNGCompressSettings \<Rightarrow> nat \<Rightarrow> nat" where
  "deflate_blocksize settings insize =
     (if btype settings = 1 then insize
      else (let blocksize = insize div 8 + 8;
                blocksize = (if blocksize < 65536 then 65536 else blocksize) in
            if blocksize > 262144 then 262144 else blocksize))"

definition deflate_numblocks :: "LodePNGCompressSettings \<Rightarrow> nat \<Rightarrow> nat" where
  "deflate_numblocks settings insize =
     (let n = (insize + deflate_blocksize settings insize - 1) div deflate_blocksize settings insize in
      if n = 0 then 1 else n)"

lemma lodepng_deflatev_blocks:
  "btype settings = 1 \<or> btype settings = 2 \<Longrightarrow> 0 < deflate_blocksize settings (length data) \<Longrightarrow>
   lodepng_deflatev junk out data settings = Some (map_sum id (\<lambda>x. wr_data (fst x))
     (deflate_blocks data settings (deflate_blocksize settings (length data))
       (deflate_numblocks settings (length data)) [0 ..< deflate_numblocks settings (length data)]
       (LodePNGBitWriter_init out, hash_init junk (windowsize settings))))"
  unfolding lodepng_deflatev_def Let_def deflate_numblocks_def
    deflate_blocksize_def [unfolded Let_def, symmetric]
  by (elim disjE) (simp_all del: deflate_blocks.simps upt_Suc)

lemma numblocks_bounds:
  assumes "0 < deflate_blocksize settings len"
  defines "sz \<equiv> deflate_blocksize settings len" and "n \<equiv> deflate_numblocks settings len"
  shows "0 < n" "(n - 1) * sz \<le> len" "len \<le> n * sz"
    "65536 \<le> sz \<or> sz = len \<Longrightarrow> n \<le> len div 65536 + 1"
proof -
  define m where "m = (len + sz - 1) div sz"
  have sz: "0 < sz" using assms(1) by (simp add: sz_def)
  have n: "n = (if m = 0 then 1 else m)"
    by (simp add: n_def m_def sz_def deflate_numblocks_def Let_def)
  show "0 < n" by (simp add: n)
  have lo: "m * sz \<le> len + sz - 1" unfolding m_def by (rule div_times_less_eq_dividend)
  have hi: "len + sz - 1 < m * sz + sz"
    using dividend_less_div_times [OF sz, of "len + sz - 1"] by (simp add: m_def)
  show "(n - 1) * sz \<le> len" using lo sz by (cases m) (simp_all add: n)
  have "len \<le> m * sz" using hi sz by linarith
  then show "len \<le> n * sz" by (cases m) (simp_all add: n)
  show "n \<le> len div 65536 + 1" if "65536 \<le> sz \<or> sz = len"
  proof (cases "sz = len")
    case True
    have "m * sz < sz + sz" using lo sz unfolding True by linarith
    then have "m < 2" using mult_le_mono1 [of 2 m sz] by linarith
    then show ?thesis by (simp add: n)
  next
    case False
    then have "(n - 1) * 65536 \<le> (n - 1) * sz" using that by (intro mult_le_mono2) simp
    then have "(n - 1) * 65536 \<le> len" using \<open>(n - 1) * sz \<le> len\<close> by linarith
    then have "n - 1 \<le> len div 65536" by (simp add: less_eq_div_iff_mult_less_eq)
    then show ?thesis by linarith
  qed
qed

text \<open>The empty writer, the bytes that bits take, and a reader of what has been written.\<close>

lemma wr_bits_init: "wr_bits (LodePNGBitWriter_init []) = []"
  by (simp add: wr_bits_def wr_nbits_def LodePNGBitWriter_init_def sbits_def)

lemma wr_data_length: "wr_ok w \<Longrightarrow> 8 * length (wr_data w) \<le> length (wr_bits w) + 8"
  by (cases "wr_data w") (auto simp: wr_bits_def wr_ok_def wr_nbits_def Let_def)

lemma reads_as_init:
  assumes "wr_ok w" "8 * length (wr_data w @ rest) + 64 < 2 ^ 64"
  shows "reads_as \<lparr>rd_data = wr_data w @ rest, rd_size = length (wr_data w @ rest),
    rd_bitsize = 8 * length (wr_data w @ rest), rd_bp = 0, rd_buffer = 0\<rparr> (wr_bits w @ [])"
proof -
  note le = wr_nbits_le [OF assms(1)]
  have "sbits (wr_data w @ rest) 0 (wr_nbits w) = sbits (wr_data w) 0 (wr_nbits w)"
    by (rule nth_equalityI) (use le in \<open>simp_all add: sbit_append\<close>)
  then show ?thesis using le assms(2) by (simp add: reads_as_def rd_ok_def wr_bits_def)
qed

text \<open>
  What the loop over the blocks needs of a block compressor: it does not fail, and what it writes
  decompresses to its part of the input after the parts before.
\<close>

locale block_compressor =
  fixes compress :: "LodePNGBitWriter \<Rightarrow> Hash \<Rightarrow> bytes \<Rightarrow> nat \<Rightarrow> nat \<Rightarrow> LodePNGCompressSettings \<Rightarrow>
    bool \<Rightarrow> (LodePNGBitWriter \<times> Hash) png"
  assumes written: "window_ok settings \<Longrightarrow> start \<le> stop \<Longrightarrow> stop \<le> length data \<Longrightarrow>
    hash_ready settings data start h \<Longrightarrow> wr_ok w \<Longrightarrow>
    \<exists>w' h'. compress w h data start stop settings final = Inr (w', h') \<and>
      block_written w w' final (take start data) (take stop data) \<and> hash_ready settings data stop h'"
begin

lemma blocks_written:
  assumes c: "\<And>w h start stop final. (if btype settings = 1
      then deflateFixed w h data start stop settings final
      else deflateDynamic w h data start stop settings final) = compress w h data start stop settings final"
    and n: "(n - 1) * sz \<le> length data" "length data \<le> n * sz" "window_ok settings"
    and i: "i < n" "wr_ok w" "hash_ready settings data (i * sz) h"
  shows "\<exists>w' h' bs. deflate_blocks data settings sz n [i ..< n] (w, h) = Inr (w', h') \<and> wr_ok w' \<and>
    wr_bits w' = wr_bits w @ bs \<and> length bs + 16 * (i * sz) \<le> 16 * length data + 8000 * (n - i) \<and>
    (\<forall>ds r rest. max_output_size ds = 0 \<longrightarrow> reads_as r (bs @ rest) \<longrightarrow>
      inflate_blocks ds (take (i * sz) data) r = Some (Inr data))"
  using i
proof (induction "n - i" arbitrary: i w h)
  case (Suc k)
  let ?stop = "if i * sz + sz > length data then length data else i * sz + sz"
  have start: "i * sz \<le> length data"
    using mult_le_mono1 [of i "n - 1" sz] n(1) Suc(3) by linarith
  have "?stop \<le> length data" "i * sz \<le> ?stop" using start by auto
  from written [OF n(3) this(2,1) Suc(5,4)] obtain w1 h1 where
    w1: "compress w h data (i * sz) ?stop settings (i = n - 1) = Inr (w1, h1)"
      "block_written w w1 (i = n - 1) (take (i * sz) data) (take ?stop data)"
      "hash_ready settings data ?stop h1" by blast
  from w1(2) obtain bs where
    bs: "wr_ok w1" "wr_bits w1 = wr_bits w @ bs"
      "length bs + 16 * length (take (i * sz) data) \<le> 16 * length (take ?stop data) + 8000"
      "\<And>ds r rest. max_output_size ds = 0 \<Longrightarrow> reads_as r (bs @ rest) \<Longrightarrow>
        \<exists>r'. reads_as r' rest \<and> inflate_blocks ds (take (i * sz) data) r =
          (if i = n - 1 then Some (Inr (take ?stop data)) else inflate_blocks ds (take ?stop data) r')"
    unfolding block_written_def by blast
  have step: "deflate_blocks data settings sz n [i ..< n] (w, h) =
      deflate_blocks data settings sz n [Suc i ..< n] (w1, h1)"
    using Suc(3) by (simp only: upt_conv_Cons deflate_blocks.simps Let_def c w1(1) sum.case)
  show ?case
  proof (cases "i = n - 1")
    case True
    then have "length data \<le> i * sz + sz" "[Suc i ..< n] = []" using n(2) Suc(3) by (simp_all add: mult_eq_if)
    moreover have "length bs + 16 * (i * sz) \<le> 16 * length data + 8000 * (n - i)"
    proof -
      have "length (take (i * sz) data) = i * sz" "length (take ?stop data) \<le> length data" "1 \<le> n - i"
        using start Suc(3) by simp_all
      then show ?thesis using bs(3) by linarith
    qed
    ultimately show ?thesis
      using bs True step by (intro exI [of _ w1] exI [of _ h1] exI [of _ bs]) fastforce
  next
    case False
    then have i: "Suc i < n" "Suc i \<le> n - 1" using Suc(3) by auto
    have "Suc i * sz \<le> length data" using mult_le_mono1 [OF i(2), of sz] n(1) by linarith
    then have stop: "?stop = Suc i * sz" by simp
    have k: "k = n - Suc i" using Suc(2) by simp
    from Suc(1) [OF k i(1) bs(1) w1(3) [unfolded stop]] obtain w' h' bs' where
      r: "deflate_blocks data settings sz n [Suc i ..< n] (w1, h1) = Inr (w', h')" "wr_ok w'"
        "wr_bits w' = wr_bits w1 @ bs'" "length bs' + 16 * (Suc i * sz) \<le> 16 * length data + 8000 * (n - Suc i)"
        "\<And>ds r rest. max_output_size ds = 0 \<Longrightarrow> reads_as r (bs' @ rest) \<Longrightarrow>
          inflate_blocks ds (take (Suc i * sz) data) r = Some (Inr data)"
      by blast
    have "inflate_blocks ds (take (i * sz) data) r = Some (Inr data)"
      if "max_output_size ds = 0" "reads_as r ((bs @ bs') @ rest)" for ds r rest
    proof -
      have "reads_as r (bs @ (bs' @ rest))" using that(2) by simp
      from bs(4) [OF that(1) this] r(5) [OF that(1)] show ?thesis using False unfolding stop by auto
    qed
    moreover have "length (bs @ bs') + 16 * (i * sz) \<le> 16 * length data + 8000 * (n - i)"
    proof -
      have "length (take (i * sz) data) = i * sz" "length (take ?stop data) \<le> Suc i * sz" "n - i = Suc (n - Suc i)"
        using start Suc(3) unfolding stop by simp_all
      then show ?thesis using bs(3) r(4) unfolding length_append by linarith
    qed
    ultimately show ?thesis
      using r(1-3) bs(2) step by (intro exI [of _ w'] exI [of _ h'] exI [of _ "bs @ bs'"]) simp
  qed
qed simp

lemma deflatev_written:
  assumes c: "\<And>w h start stop final. (if btype settings = 1
      then deflateFixed w h data start stop settings final
      else deflateDynamic w h data start stop settings final) = compress w h data start stop settings final"
    and s: "btype settings = 1 \<and> data \<noteq> [] \<or> btype settings = 2" "window_ok settings"
  shows "\<exists>d. lodepng_deflatev junk [] data settings = Some (Inr d) \<and>
    8 * length d \<le> 16 * length data + 8000 * (length data div 65536 + 1) + 8 \<and>
    (\<forall>ds rest. max_output_size ds = 0 \<longrightarrow> 8 * length (d @ rest) + 64 < 2 ^ 64 \<longrightarrow>
      lodepng_inflatev [] (d @ rest) ds = Some (Inr data))"
proof -
  define sz where "sz = deflate_blocksize settings (length data)"
  define n where "n = deflate_numblocks settings (length data)"
  have sz: "0 < sz" "65536 \<le> sz \<or> sz = length data"
    using s(1) by (auto simp: sz_def deflate_blocksize_def Let_def)
  note n = numblocks_bounds [of settings "length data", folded sz_def n_def, OF sz(1)]
  have "hash_ready settings data (0 * sz) (hash_init junk (windowsize settings))"
    by (simp add: hash_ready_def hash_init_ok)
  from blocks_written [OF c n(2,3) s(2) n(1) wr_init(1) this, of "[]"] obtain w' h' bs where
    w': "deflate_blocks data settings sz n [0 ..< n]
        (LodePNGBitWriter_init [], hash_init junk (windowsize settings)) = Inr (w', h')" "wr_ok w'"
      "length (wr_bits w') \<le> 16 * length data + 8000 * n"
      "\<And>ds r rest. max_output_size ds = 0 \<Longrightarrow> reads_as r (wr_bits w' @ rest) \<Longrightarrow>
        inflate_blocks ds [] r = Some (Inr data)"
    by (fastforce simp: wr_bits_init)
  have "lodepng_deflatev junk [] data settings = Some (Inr (wr_data w'))"
    using s(1) sz(1) w'(1) lodepng_deflatev_blocks [of settings data junk "[]"]
    by (auto simp: sz_def n_def)
  moreover have "8 * length (wr_data w') \<le> 16 * length data + 8000 * (length data div 65536 + 1) + 8"
    using wr_data_length [OF w'(2)] w'(3) mult_le_mono2 [OF n(4) [OF sz(2)], of 8000]
    by (meson add_le_mono1 add_mono_thms_linordered_semiring(2) le_trans)
  moreover have "lodepng_inflatev [] (wr_data w' @ rest) ds = Some (Inr data)"
    if "max_output_size ds = 0" "8 * length (wr_data w' @ rest) + 64 < 2 ^ 64" for ds rest
    using w'(4) [OF that(1) reads_as_init [OF w'(2) that(2)]]
    by (simp add: lodepng_inflatev_def LodePNGBitReader_init_ok [OF that(2)] del: length_append)
  ultimately show ?thesis by blast
qed

end

interpretation fixed_block: block_compressor deflateFixed
  by unfold_locales (rule deflateFixed_written)

end
