(* ===== verification/Png_Package_Merge.thy ===== *)
theory Png_Package_Merge
  imports Png_Zlib "HOL-Library.Multiset"
begin

text \<open>
  The code lengths that boundary package-merge computes are those of a complete code: no symbol that
  occurs is without a word, no word is longer than allowed, and the words leave no room for another.
  The leaves are sorted by a merge sort, which is the stable sort of the library.
\<close>

section \<open>Sorting the leaves\<close>

lemma merge_runs_mset: "mset (merge_runs as bs) = mset as + mset bs"
  by (induction as bs rule: merge_runs.induct) auto

lemma merge_runs_set: "set (merge_runs as bs) = set as \<union> set bs"
  by (induction as bs rule: merge_runs.induct) auto

lemma merge_runs_sorted:
  "sorted (map node_weight as) \<Longrightarrow> sorted (map node_weight bs) \<Longrightarrow> sorted (map node_weight (merge_runs as bs))"
proof (induction as bs rule: merge_runs.induct)
  case (3 a as b bs)
  then show ?case by (cases "node_weight a \<le> node_weight b") (auto simp: merge_runs_set)
qed auto

lemma filter_none: "\<forall>x \<in> set xs. \<not> P x \<Longrightarrow> filter P xs = []"
  by (simp add: filter_empty_conv)

lemma merge_runs_stable:
  "sorted (map node_weight as) \<Longrightarrow> sorted (map node_weight bs) \<Longrightarrow>
   filter (\<lambda>x. v = node_weight x) (merge_runs as bs) =
     filter (\<lambda>x. v = node_weight x) as @ filter (\<lambda>x. v = node_weight x) bs"
proof (induction as bs rule: merge_runs.induct)
  case (3 a as b bs)
  show ?case
  proof (cases "node_weight a \<le> node_weight b")
    case True
    then show ?thesis using 3 by (cases "v = node_weight a"; cases "v = node_weight b") auto
  next
    case False
    have "filter (\<lambda>x. v = node_weight x) (a # as) = []" if "v = node_weight b"
      using False that 3(3) by (intro filter_none) auto
    then show ?thesis using 3 False by auto
  qed
qed auto

text \<open>Every run of \<open>width\<close> elements is sorted; a pass keeps the elements and doubles the runs.\<close>

function runs_sorted :: "nat \<Rightarrow> BPMNode list \<Rightarrow> bool" where
  "runs_sorted width xs \<longleftrightarrow> (if xs = [] \<or> width = 0 then True
     else sorted (map node_weight (take width xs)) \<and> runs_sorted width (drop width xs))"
  by pat_completeness auto
termination
  by (relation "measure (\<lambda>(width, xs). length xs)") auto

declare runs_sorted.simps [simp del]

lemma runs_sorted_short: "length xs \<le> width \<Longrightarrow> 0 < width \<Longrightarrow> runs_sorted width xs = sorted (map node_weight xs)"
  by (subst runs_sorted.simps) (auto simp: runs_sorted.simps [of width "[]"])

lemma runs_sorted_one: "runs_sorted 1 xs"
  by (induction xs) (simp_all add: runs_sorted.simps)

lemma runs_sorted_cut:
  assumes "runs_sorted width xs" "0 < width"
  shows "sorted (map node_weight (take width xs))" "runs_sorted width (drop width xs)"
  using assms by (subst (asm) runs_sorted.simps, auto simp: runs_sorted.simps [of width "[]"] split: if_splits)+

lemma merge_pass_keeps:
  "mset (merge_pass width xs) = mset xs \<and> (runs_sorted width xs \<longrightarrow>
     filter (\<lambda>x. v = node_weight x) (merge_pass width xs) = filter (\<lambda>x. v = node_weight x) xs)"
proof (induction width xs rule: merge_pass.induct)
  case (1 width xs)
  show ?case
  proof (cases "xs = [] \<or> width = 0")
    case False
    let ?a = "take width xs" and ?b = "take width (drop width xs)" and ?c = "drop (2 * width) xs"
    have m: "merge_pass width xs = merge_runs ?a ?b @ merge_pass width ?c"
      using False by (subst merge_pass.simps) simp
    have xs: "xs = ?a @ ?b @ ?c"
      by (metis append_take_drop_id drop_drop mult_2)
    have "mset xs = mset ?a + mset ?b + mset ?c" by (subst xs) simp
    moreover have "filter (\<lambda>x. v = node_weight x) xs = filter (\<lambda>x. v = node_weight x) ?a @
        filter (\<lambda>x. v = node_weight x) ?b @ filter (\<lambda>x. v = node_weight x) ?c"
      by (subst xs) simp
    moreover have "runs_sorted width xs \<Longrightarrow> sorted (map node_weight ?a) \<and>
        sorted (map node_weight ?b) \<and> runs_sorted width ?c"
      using runs_sorted_cut [of width] False by (metis drop_drop mult_2 bot_nat_0.not_eq_extremum)
    ultimately show ?thesis
      using 1 [OF False] by (auto simp: m merge_runs_mset merge_runs_stable)
  qed (simp add: merge_pass.simps)
qed

lemma merge_pass_Nil: "merge_pass width [] = []"
  by (simp add: merge_pass.simps)

lemma merge_pass_sorted: "runs_sorted width xs \<Longrightarrow> runs_sorted (width * 2) (merge_pass width xs)"
proof (induction width xs rule: merge_pass.induct)
  case (1 width xs)
  show ?case
  proof (cases "xs = [] \<or> width = 0")
    case True
    then show ?thesis by (auto simp: merge_pass.simps runs_sorted.simps)
  next
    case False
    let ?a = "take width xs" and ?b = "take width (drop width xs)" and ?c = "drop (2 * width) xs"
    have s: "sorted (map node_weight ?a)" "sorted (map node_weight ?b)" "runs_sorted width ?c"
      using runs_sorted_cut [of width] 1(2) False by (metis drop_drop mult_2 bot_nat_0.not_eq_extremum)+
    have m: "merge_pass width xs = merge_runs ?a ?b @ merge_pass width ?c"
      using False by (subst merge_pass.simps) simp
    have l: "length (merge_runs ?a ?b) = min (width * 2) (length xs)" by auto
    have "take (width * 2) (merge_pass width xs) = merge_runs ?a ?b"
      "drop (width * 2) (merge_pass width xs) = merge_pass width ?c"
      unfolding m using l merge_pass_Nil [of width]
      by (cases "length xs \<le> width * 2"; simp add: mult.commute)+
    moreover have "sorted (map node_weight (merge_runs ?a ?b))" by (rule merge_runs_sorted [OF s(1,2)])
    moreover have "runs_sorted (width * 2) (merge_pass width ?c)" by (rule 1(1) [OF False s(3)])
    ultimately show ?thesis by (subst runs_sorted.simps) simp
  qed
qed

lemma bpm_sort_loop_sorts:
  "0 < width \<Longrightarrow> runs_sorted width xs \<Longrightarrow>
   mset (bpm_sort_loop width xs) = mset xs \<and> sorted (map node_weight (bpm_sort_loop width xs)) \<and>
   filter (\<lambda>x. v = node_weight x) (bpm_sort_loop width xs) = filter (\<lambda>x. v = node_weight x) xs"
proof (induction width xs rule: bpm_sort_loop.induct)
  case (1 width xs)
  show ?case
  proof (cases "width < length xs")
    case False
    then show ?thesis using 1(2,3) runs_sorted_short [of xs width] by (subst (1 2 3) bpm_sort_loop.simps) simp
  next
    case True
    have "bpm_sort_loop width xs = bpm_sort_loop (width * 2) (merge_pass width xs)"
      using True 1(2) by (subst bpm_sort_loop.simps) simp
    then show ?thesis
      using 1(1) [OF _ _ merge_pass_sorted [OF 1(3)]] True 1(2) merge_pass_keeps [of width xs v] 1(3) by simp
  qed
qed

lemma bpmnode_sorted: "bpmnode_sort leaves = sort_key node_weight leaves"
  unfolding bpmnode_sort_def
  by (rule properties_for_sort_key [symmetric])
    (use bpm_sort_loop_sorts [OF zero_less_one runs_sorted_one, of leaves] in blast)+

section \<open>Chains\<close>

text \<open>
  The leaves are sorted and have positive weights. List \<open>c\<close> has \<open>list_size n c\<close> items: the leaves, and
  the packages of two items of the list below.
\<close>

definition leaves_ok :: "BPMNode list \<Rightarrow> bool" where
  "leaves_ok leaves \<longleftrightarrow> sorted (map node_weight leaves) \<and> (\<forall>l \<in> set leaves. 0 < node_weight l) \<and>
     2 \<le> length leaves"

abbreviation leaf_weight :: "BPMNode list \<Rightarrow> nat \<Rightarrow> int" where
  "leaf_weight leaves i \<equiv> node_weight (leaves ! i)"

lemma leaf_weight_mono: "leaves_ok leaves \<Longrightarrow> i \<le> j \<Longrightarrow> j < length leaves \<Longrightarrow> leaf_weight leaves i \<le> leaf_weight leaves j"
  using sorted_nth_mono [of "map node_weight leaves" i j] by (simp add: leaves_ok_def)

lemma leaf_weight_pos: "leaves_ok leaves \<Longrightarrow> i < length leaves \<Longrightarrow> 0 < leaf_weight leaves i"
  by (simp add: leaves_ok_def)

primrec list_size :: "nat \<Rightarrow> nat \<Rightarrow> nat" where
  "list_size n 0 = n"
| "list_size n (Suc c) = n + list_size n c div 2"

lemma list_size_ge: "n \<le> list_size n c"
  by (cases c) simp_all

text \<open>
  The chain of the item at position \<open>p\<close> of list \<open>c\<close>: the leaves up to there, and, when packages are
  among them, the chain of the last item they take from the list below, with no more leaves.
\<close>

fun chain_ok :: "nat \<Rightarrow> nat \<Rightarrow> nat \<Rightarrow> BPMNode \<Rightarrow> bool" where
  "chain_ok n c p (BPMNode w index rest) \<longleftrightarrow> 1 \<le> index \<and> index \<le> n \<and> p \<le> list_size n c \<and>
     (case rest of None \<Rightarrow> p = index
      | Some node \<Rightarrow> index < p \<and> 0 < c \<and> node_index node \<le> index \<and> chain_ok n (c - 1) (2 * (p - index)) node)"

lemma chain_ok_leaf:
  "chain_ok n c p node \<Longrightarrow> p + 1 \<le> list_size n c \<Longrightarrow> node_index node < n \<Longrightarrow>
   chain_ok n c (p + 1) (BPMNode w (node_index node + 1) (node_tail node))"
  by (cases node) (auto simp: Suc_diff_le split: option.splits)

lemma chain_ok_index: "chain_ok n c p node \<Longrightarrow> 1 \<le> node_index node \<and> node_index node \<le> n \<and> node_index node \<le> p"
  by (cases node) (auto split: option.splits)

lemma chain_ok_full:
  assumes "chain_ok n c (list_size n c) node"
  shows "node_index node = n"
proof (cases node)
  case (BPMNode w index rest)
  show ?thesis
  proof (cases rest)
    case None
    then show ?thesis using assms list_size_ge [of n c] BPMNode by simp
  next
    case (Some t)
    then obtain c' where c: "c = Suc c'" using assms BPMNode gr0_conv_Suc by auto
    obtain w' i' r' where t: "t = BPMNode w' i' r'" by (cases t)
    have "2 * (list_size n c - index) \<le> list_size n c'" using assms BPMNode Some c t by simp
    then have "list_size n c - index \<le> list_size n c' div 2" by simp
    moreover have "index \<le> n" using assms BPMNode by simp
    ultimately have "index = n" unfolding c list_size.simps by linarith
    then show ?thesis by (simp add: BPMNode)
  qed
qed

text \<open>In a long enough list, all leaves come before position \<open>2 * n - 2\<close>.\<close>

lemma chain_ok_all:
  assumes "chain_ok n c p node" "2 * n - 2 \<le> p" "2 \<le> n"
  shows "node_index node = n"
  using assms
proof (induction n c p node rule: chain_ok.induct)
  case (1 n c p w index rest)
  show ?case
  proof (rule ccontr)
    assume "node_index (BPMNode w index rest) \<noteq> n"
    then have i: "index < n" using 1(2) by simp
    show False
    proof (cases rest)
      case None
      then have "p = index" using 1(2) by simp
      then show False using 1(3,4) i by linarith
    next
      case (Some t)
      then have "chain_ok n (c - 1) (2 * (p - index)) t" "node_index t \<le> index" using 1(2) by simp_all
      moreover have "2 * n - 2 \<le> 2 * (p - index)" using 1(3) i by simp
      ultimately have "node_index t = n" using 1(1) [OF Some] 1(4) by blast
      then show False using \<open>node_index t \<le> index\<close> i by simp
    qed
  qed
qed

lemma list_size_enough:
  assumes "n \<le> 2 ^ L" "0 < L" "2 \<le> n"
  shows "2 * n - 2 \<le> list_size n (L - 1)"
proof -
  have le: "list_size n c \<le> 2 * n" for c by (induction c) auto
  have "(2 * n - list_size n c) * 2 ^ c \<le> n + 2 ^ c - 1" for c
  proof (induction c)
    case (Suc c)
    have "2 * (2 * n - list_size n (Suc c)) \<le> (2 * n - list_size n c) + 1" using le [of c] by simp
    then have "2 * (2 * n - list_size n (Suc c)) * 2 ^ c \<le> ((2 * n - list_size n c) + 1) * 2 ^ c" by (rule mult_le_mono1)
    also have "\<dots> \<le> n + 2 ^ c - 1 + 2 ^ c" using Suc by (simp add: algebra_simps)
    also have "\<dots> = n + 2 ^ Suc c - 1" using one_le_power [of "2 :: nat" c] by simp
    finally show ?case by (simp only: power_Suc mult_ac)
  qed simp
  obtain k where L: "L = Suc k" using assms(2) gr0_conv_Suc by auto
  have "n \<le> 2 * 2 ^ k" "0 < (2 :: nat) ^ k" using assms(1) by (simp_all add: L)
  then have "(2 * n - list_size n k) * 2 ^ k < 3 * 2 ^ k"
    using \<open>(2 * n - list_size n k) * 2 ^ k \<le> n + 2 ^ k - 1\<close> by linarith
  then have "2 * n - list_size n (L - 1) < 3" by (simp add: L)
  then show ?thesis using assms(3) by simp
qed

section \<open>The two lookahead chains of every list\<close>

definition item_ok :: "BPMNode list \<Rightarrow> nat \<Rightarrow> nat \<Rightarrow> BPMNode \<Rightarrow> bool" where
  "item_ok leaves c q node \<longleftrightarrow>
     (let n = length leaves; i = node_index node in
      1 \<le> i \<and> i \<le> n \<and> i \<le> q \<and> leaf_weight leaves (i - 1) \<le> node_weight node \<and>
      (i < n \<longrightarrow> node_weight node \<le> leaf_weight leaves i) \<and>
      (if q \<le> list_size n c then chain_ok n c q node else i = n))"

text \<open>
  The lists up to \<open>c\<close>, when \<open>q\<close> items of list \<open>c\<close> have been asked for: the package of the two
  lookahead items is not lighter than the last item that the list above has taken.
\<close>

fun lists_ok :: "BPMNode list \<Rightarrow> nat \<Rightarrow> nat \<Rightarrow> chains \<Rightarrow> bool" where
  "lists_ok leaves 0 q (ch0, ch1) \<longleftrightarrow>
     item_ok leaves 0 q (ch1 ! 0) \<and> 0 < node_weight (ch0 ! 0) \<and> node_weight (ch0 ! 0) \<le> node_weight (ch1 ! 0)"
| "lists_ok leaves (Suc c) q (ch0, ch1) \<longleftrightarrow>
     item_ok leaves (Suc c) q (ch1 ! Suc c) \<and> 0 < node_weight (ch0 ! Suc c) \<and>
     node_weight (ch0 ! Suc c) \<le> node_weight (ch1 ! Suc c) \<and>
     node_weight (ch1 ! Suc c) \<le> node_weight (ch0 ! c) + node_weight (ch1 ! c) \<and>
     lists_ok leaves c (2 * (q - node_index (ch1 ! Suc c)) + 2) (ch0, ch1)"

lemma lists_ok_top:
  "lists_ok leaves c q (ch0, ch1) \<Longrightarrow>
   item_ok leaves c q (ch1 ! c) \<and> 0 < node_weight (ch0 ! c) \<and> node_weight (ch0 ! c) \<le> node_weight (ch1 ! c)"
  by (cases c) simp_all

lemma lists_ok_cong:
  "(\<And>i. i \<le> c \<Longrightarrow> ch0 ! i = ch0' ! i \<and> ch1 ! i = ch1' ! i) \<Longrightarrow>
   lists_ok leaves c q (ch0, ch1) = lists_ok leaves c q (ch0', ch1')"
  by (induction c arbitrary: q) simp_all

lemma item_ok_full:
  "item_ok leaves c q node \<Longrightarrow> list_size (length leaves) c \<le> q \<Longrightarrow> node_index node = length leaves"
  using chain_ok_full by (auto simp: item_ok_def Let_def split: if_splits)

lemma item_ok_leaf:
  assumes "leaves_ok leaves" "item_ok leaves c q node" "node_index node < length leaves"
  shows "item_ok leaves c (q + 1)
    (BPMNode (leaf_weight leaves (node_index node)) (node_index node + 1) (node_tail node))"
proof -
  have "q < list_size (length leaves) c" using item_ok_full [OF assms(2)] assms(3) by fastforce
  then show ?thesis
    using assms(2,3) chain_ok_leaf leaf_weight_mono [OF assms(1)]
    by (auto simp: item_ok_def Let_def simp del: chain_ok.simps)
qed

text \<open>
  A package is taken when it is not heavier than the next leaf: then the list below is not exhausted,
  and no more of its leaves are used.
\<close>

lemma item_ok_package:
  assumes "leaves_ok leaves" "item_ok leaves (Suc c) q node" "item_ok leaves c (2 * (q - node_index node) + 2) below"
    and w: "0 < wa" "s = wa + node_weight below" "node_weight node \<le> s"
    and light: "\<not> (node_index node < length leaves \<and> s > leaf_weight leaves (node_index node))"
  shows "item_ok leaves (Suc c) (q + 1) (BPMNode s (node_index node) (Some below))"
proof -
  let ?n = "length leaves" and ?i = "node_index node" and ?j = "node_index below"
  have j: "1 \<le> ?j" "?j \<le> ?n" "leaf_weight leaves (?j - 1) < s"
    using assms(3) w by (auto simp: item_ok_def Let_def)
  have i: "1 \<le> ?i" "?i \<le> ?n" "?i \<le> q" "leaf_weight leaves (?i - 1) \<le> node_weight node"
    using assms(2) by (auto simp: item_ok_def Let_def)
  have le: "?j \<le> ?i"
  proof (rule ccontr)
    assume "\<not> ?j \<le> ?i"
    then have "?i \<le> ?j - 1" "?j - 1 < ?n" using j by auto
    then have "leaf_weight leaves ?i \<le> leaf_weight leaves (?j - 1)" by (rule leaf_weight_mono [OF assms(1)])
    then show False using j light \<open>\<not> ?j \<le> ?i\<close> by simp
  qed
  have "chain_ok ?n (Suc c) (q + 1) (BPMNode s ?i (Some below))" if q: "q + 1 \<le> list_size ?n (Suc c)"
  proof -
    have small: "2 * (q - ?i) + 2 \<le> list_size ?n c"
    proof (rule ccontr)
      assume "\<not> 2 * (q - ?i) + 2 \<le> list_size ?n c"
      then have "?j = ?n" using item_ok_full [OF assms(3)] by simp
      then have "?i = ?n" using le i by simp
      then show False using \<open>\<not> 2 * (q - ?i) + 2 \<le> list_size ?n c\<close> q i(3) by simp
    qed
    then have "chain_ok ?n c (2 * (q + 1 - ?i)) below"
      using assms(3) i(3) by (simp add: item_ok_def Let_def Suc_diff_le)
    then show ?thesis using i le q by simp
  qed
  moreover have "?i = ?n" if "\<not> q + 1 \<le> list_size ?n (Suc c)"
    using item_ok_full [OF assms(2)] that by simp
  ultimately show ?thesis using i w(3) light by (auto simp: item_ok_def Let_def simp del: chain_ok.simps)
qed

section \<open>The steps\<close>

lemma boundaryPM_above:
  "boundaryPM leaves c num (ch0, ch1) = (ch0', ch1') \<Longrightarrow>
   length ch0' = length ch0 \<and> length ch1' = length ch1 \<and> (\<forall>i > c. ch0' ! i = ch0 ! i \<and> ch1' ! i = ch1 ! i)"
proof (induction c arbitrary: ch0 ch1 ch0' ch1')
  case 0
  then show ?case by (auto simp: Let_def split: if_splits)
next
  case (Suc c)
  let ?i = "node_index (ch1 ! Suc c)"
  let ?s = "node_weight (ch0 ! c) + node_weight (ch1 ! c)"
  let ?ch0 = "ch0[Suc c := ch1 ! Suc c]" and ?ch1 = "ch1[Suc c := BPMNode ?s ?i (Some (ch1 ! c))]"
  obtain a0 a1 where a: "boundaryPM leaves c num (?ch0, ?ch1) = (a0, a1)" by fastforce
  obtain b0 b1 where b: "boundaryPM leaves c num (a0, a1) = (b0, b1)" by fastforce
  from Suc(1) [OF a] Suc(1) [OF b] Suc(2) show ?case
    by (auto simp: Let_def a b split: if_splits)
qed

lemma boundaryPM_step:
  assumes "leaves_ok leaves" "num + 1 < 2 * length leaves - 2"
    "boundaryPM leaves c num (ch0, ch1) = (ch0', ch1')"
    "c < length ch0" "c < length ch1" "lists_ok leaves c q (ch0, ch1)"
  shows "lists_ok leaves c (q + 1) (ch0', ch1') \<and>
    node_weight (ch0 ! c) \<le> node_weight (ch0' ! c) \<and> node_weight (ch1 ! c) \<le> node_weight (ch1' ! c)"
  using assms(3-)
proof (induction c arbitrary: q ch0 ch1 ch0' ch1')
  case 0
  let ?i = "node_index (ch1 ! 0)"
  have it: "item_ok leaves 0 q (ch1 ! 0)" using 0 by simp
  show ?case
  proof (cases "?i \<ge> length leaves")
    case True
    then have "?i = length leaves" "ch0' = ch0" "ch1' = ch1" using it 0(1) by (simp_all add: item_ok_def Let_def)
    moreover have "item_ok leaves 0 (q + 1) (ch1 ! 0)"
      using it \<open>?i = length leaves\<close> by (auto simp: item_ok_def Let_def dest: chain_ok_index)
    ultimately show ?thesis using 0 by simp
  next
    case False
    then have "ch0' = ch0[0 := ch1 ! 0]"
      "ch1' = ch1[0 := BPMNode (leaf_weight leaves ?i) (?i + 1) None]" using 0(1) by (simp_all add: Let_def)
    moreover have "node_weight (ch1 ! 0) \<le> leaf_weight leaves ?i" using it False by (simp add: item_ok_def Let_def)
    moreover have "item_ok leaves 0 (q + 1) (BPMNode (leaf_weight leaves ?i) (?i + 1) None)"
      using item_ok_leaf [OF assms(1) it] False by (cases "ch1 ! 0") (auto simp: item_ok_def Let_def split: if_splits option.splits)
    ultimately show ?thesis using 0(2-4) by simp
  qed
next
  case (Suc c)
  let ?i = "node_index (ch1 ! Suc c)"
  let ?s = "node_weight (ch0 ! c) + node_weight (ch1 ! c)"
  let ?ch0 = "ch0[Suc c := ch1 ! Suc c]"
  have it: "item_ok leaves (Suc c) q (ch1 ! Suc c)" and link: "node_weight (ch1 ! Suc c) \<le> ?s"
    and low: "lists_ok leaves c (2 * (q - ?i) + 2) (ch0, ch1)"
    and top: "0 < node_weight (ch0 ! Suc c)" "node_weight (ch0 ! Suc c) \<le> node_weight (ch1 ! Suc c)"
    using Suc(5) by simp_all
  have iq: "?i \<le> q" using it by (simp add: item_ok_def Let_def)
  show ?case
  proof (cases "?i < length leaves \<and> ?s > leaf_weight leaves ?i")
    case True
    let ?ch1 = "ch1[Suc c := BPMNode (leaf_weight leaves ?i) (?i + 1) (node_tail (ch1 ! Suc c))]"
    have "ch0' = ?ch0" "ch1' = ?ch1" using Suc(2) True by (simp_all add: Let_def)
    moreover have "node_weight (ch1 ! Suc c) \<le> leaf_weight leaves ?i" using it True by (simp add: item_ok_def Let_def)
    moreover have "lists_ok leaves c (2 * (q - ?i) + 2) (?ch0, ?ch1)"
      using low by (subst lists_ok_cong [where ch0' = ch0 and ch1' = ch1]) simp_all
    ultimately show ?thesis
      using item_ok_leaf [OF assms(1) it] True top Suc(3,4) by simp
  next
    case False
    let ?new = "BPMNode ?s ?i (Some (ch1 ! c))"
    let ?ch1 = "ch1[Suc c := ?new]"
    obtain a0 a1 where a: "boundaryPM leaves c num (?ch0, ?ch1) = (a0, a1)" by fastforce
    obtain b0 b1 where b: "boundaryPM leaves c num (a0, a1) = (b0, b1)" by fastforce
    have res: "ch0' = b0" "ch1' = b1" using Suc(2) False assms(2) by (simp_all add: Let_def a b)
    have low': "lists_ok leaves c (2 * (q - ?i) + 2) (?ch0, ?ch1)"
      using low by (subst lists_ok_cong [where ch0' = ch0 and ch1' = ch1]) simp_all
    have len: "c < length ?ch0" "c < length ?ch1" using Suc(3,4) by simp_all
    note A = Suc(1) [OF a len low'] and A' = boundaryPM_above [OF a]
    have len2: "c < length a0" "c < length a1" using A' len by simp_all
    note B = Suc(1) [OF b len2 A [THEN conjunct1]] and B' = boundaryPM_above [OF b]
    have top': "ch0' ! Suc c = ch1 ! Suc c" "ch1' ! Suc c = ?new"
      using A' B' Suc(3,4) by (simp_all add: res)
    have q: "2 * (q - ?i) + 2 + 1 + 1 = 2 * (q + 1 - ?i) + 2" using iq by simp
    have sum: "?s \<le> node_weight (ch0' ! c) + node_weight (ch1' ! c)"
      using A B by (simp add: res)
    have "item_ok leaves (Suc c) (q + 1) ?new"
      using lists_ok_top [OF low] link False
      by (intro item_ok_package [OF assms(1) it, where wa = "node_weight (ch0 ! c)"]) simp_all
    then show ?thesis
      using B [THEN conjunct1] sum link top unfolding q by (simp add: top' flip: res)
  qed
qed

text \<open>The last step asks for no more lookahead.\<close>

lemma boundaryPM_last:
  assumes "leaves_ok leaves" "\<not> num + 1 < 2 * length leaves - 2"
    "boundaryPM leaves c num (ch0, ch1) = (ch0', ch1')" "c < length ch1" "lists_ok leaves c q (ch0, ch1)"
  shows "item_ok leaves c (q + 1) (ch1' ! c) \<or> c = 0 \<and> ch1' ! 0 = ch1 ! 0 \<and> length leaves \<le> node_index (ch1 ! 0)"
proof (cases c)
  case 0
  have it: "item_ok leaves 0 q (ch1 ! 0)" using assms(5) 0 by simp
  show ?thesis
  proof (cases "node_index (ch1 ! 0) \<ge> length leaves")
    case False
    have "node_tail (ch1 ! 0) = None"
      using it False list_size_ge [of "length leaves" 0] item_ok_full [OF it]
      by (cases "ch1 ! 0") (auto simp: item_ok_def Let_def split: if_splits option.splits)
    then show ?thesis
      using item_ok_leaf [OF assms(1) it] False assms(3,4) 0 by (auto simp: Let_def)
  qed (use assms(3) 0 in \<open>simp add: Let_def\<close>)
next
  case (Suc d)
  let ?i = "node_index (ch1 ! Suc d)"
  let ?s = "node_weight (ch0 ! d) + node_weight (ch1 ! d)"
  have it: "item_ok leaves (Suc d) q (ch1 ! Suc d)" and link: "node_weight (ch1 ! Suc d) \<le> ?s"
    and low: "lists_ok leaves d (2 * (q - ?i) + 2) (ch0, ch1)"
    using assms(5) Suc by simp_all
  show ?thesis
  proof (cases "?i < length leaves \<and> ?s > leaf_weight leaves ?i")
    case True
    then show ?thesis using item_ok_leaf [OF assms(1) it] assms(3,4) Suc by (auto simp: Let_def)
  next
    case False
    have "item_ok leaves (Suc d) (q + 1) (BPMNode ?s ?i (Some (ch1 ! d)))"
      using lists_ok_top [OF low] link False
      by (intro item_ok_package [OF assms(1) it, where wa = "node_weight (ch0 ! d)"]) simp_all
    then show ?thesis using False assms(2-4) Suc by (auto simp: Let_def)
  qed
qed

lemma lists_ok_init:
  assumes "leaves_ok leaves" "c < L"
  shows "lists_ok leaves c 2 (replicate L (BPMNode (leaf_weight leaves 0) 1 None),
    replicate L (BPMNode (leaf_weight leaves 1) 2 None))"
proof -
  have n: "2 \<le> length leaves" using assms(1) by (simp add: leaves_ok_def)
  have "0 < length leaves" using n by linarith
  then have w: "leaf_weight leaves 0 \<le> leaf_weight leaves 1" "0 < leaf_weight leaves 0"
    using leaf_weight_mono [OF assms(1), of 0 1] leaf_weight_pos [OF assms(1), of 0] n by simp_all
  have "item_ok leaves d 2 (BPMNode (leaf_weight leaves 1) 2 None)" for d
    using n leaf_weight_mono [OF assms(1), of 1 2] list_size_ge [of "length leaves" d]
    by (simp add: item_ok_def)
  then show ?thesis using assms(2) w by (induction c) (simp_all add: numeral_2_eq_2)
qed

lemma package_merge_chain:
  assumes "leaves_ok leaves" "0 < L" "length leaves \<le> 2 ^ L"
  shows "chain_ok (length leaves) (L - 1) (2 * length leaves - 2) (package_merge leaves L) \<and>
    node_index (package_merge leaves L) = length leaves"
proof -
  let ?n = "length leaves"
  obtain c where L: "L = Suc c" using assms(2) gr0_conv_Suc by auto
  have n: "2 \<le> ?n" using assms(1) by (simp add: leaves_ok_def)
  define st where "st = (\<lambda>m. fold (\<lambda>i. boundaryPM leaves c i) [2 ..< m]
    (replicate L (BPMNode (leaf_weight leaves 0) 1 None), replicate L (BPMNode (leaf_weight leaves 1) 2 None)))"
  have st_Suc: "st (Suc m) = boundaryPM leaves c m (st m)" if "2 \<le> m" for m
    using that by (simp add: st_def)
  have run: "lists_ok leaves c m (st m) \<and> length (fst (st m)) = L \<and> length (snd (st m)) = L"
    if "2 \<le> m" "m < 2 * ?n - 2 \<or> m = 2" for m
    using that
  proof (induction m rule: dec_induct)
    case base
    then show ?case using lists_ok_init [OF assms(1), of c L] by (simp add: st_def L)
  next
    case (step m)
    obtain ch0 ch1 where s: "st m = (ch0, ch1)" by fastforce
    obtain ch0' ch1' where b: "boundaryPM leaves c m (ch0, ch1) = (ch0', ch1')" by fastforce
    have "m + 1 < 2 * ?n - 2" using step by simp
    moreover have "lists_ok leaves c m (ch0, ch1)" "length ch0 = L" "length ch1 = L" using step s by auto
    ultimately show ?case
      using boundaryPM_step [OF assms(1) _ b] boundaryPM_above [OF b] step(1)
      by (simp add: st_Suc s b L)
  qed
  have pm: "package_merge leaves L = snd (st (2 * ?n - 2)) ! c"
    by (simp add: package_merge_def st_def split_beta Let_def L)
  have "item_ok leaves c (2 * ?n - 2) (package_merge leaves L) \<or>
    c = 0 \<and> ?n \<le> node_index (package_merge leaves L) \<and> 3 \<le> ?n"
  proof (cases "?n = 2")
    case True
    obtain a b where "st 2 = (a, b)" by fastforce
    then show ?thesis using run [of 2] lists_ok_top [of leaves c 2 a b] True by (simp add: pm)
  next
    case False
    define m where "m = 2 * ?n - 3"
    have m: "2 \<le> m" "m < 2 * ?n - 2" "2 * ?n - 2 = Suc m" using n False by (auto simp: m_def)
    obtain ch0 ch1 where s: "st m = (ch0, ch1)" by fastforce
    obtain ch0' ch1' where b: "boundaryPM leaves c m (ch0, ch1) = (ch0', ch1')" by fastforce
    have "st (2 * ?n - 2) = (ch0', ch1')" using m(1) b s by (simp add: m(3) st_Suc)
    then have "package_merge leaves L = ch1' ! c" by (simp add: pm)
    moreover have "\<not> m + 1 < 2 * ?n - 2" using m(3) by simp
    ultimately show ?thesis
      using boundaryPM_last [OF assms(1) _ b, of m] run [OF m(1)] m n False s by (auto simp: L)
  qed
  moreover have "2 * ?n - 2 \<le> list_size ?n c" using list_size_enough [OF assms(3,2) n] by (simp add: L)
  moreover have "?n \<le> 2" if "c = 0" using that assms(3) by (simp add: L)
  ultimately have "chain_ok ?n c (2 * ?n - 2) (package_merge leaves L)" by (auto simp: item_ok_def Let_def)
  then show ?thesis using chain_ok_all [OF _ order_refl n] by (simp add: L)
qed

section \<open>The lengths\<close>

text \<open>How many nodes of a chain count leaf \<open>i\<close>.\<close>

fun depth :: "BPMNode \<Rightarrow> nat \<Rightarrow> nat" where
  "depth (BPMNode w index rest) i = (if i < index then 1 else 0) +
     (case rest of None \<Rightarrow> 0 | Some node \<Rightarrow> depth node i)"

definition syms_ok :: "BPMNode list \<Rightarrow> nat list \<Rightarrow> bool" where
  "syms_ok leaves ls \<longleftrightarrow> distinct (map node_index leaves) \<and> (\<forall>l \<in> set leaves. node_index l < length ls)"

lemma syms_ok_inj:
  "syms_ok leaves ls \<Longrightarrow> i < length leaves \<Longrightarrow> j < length leaves \<Longrightarrow>
   node_index (leaves ! i) = node_index (leaves ! j) \<longleftrightarrow> i = j"
  using nth_eq_iff_index_eq [of "map node_index leaves" i j] by (simp add: syms_ok_def)

lemma count_node_nth:
  assumes "syms_ok leaves ls" "k \<le> length leaves"
  shows "length (count_node leaves k ls) = length ls \<and>
    (\<forall>i < length leaves. count_node leaves k ls ! node_index (leaves ! i) =
      ls ! node_index (leaves ! i) + (if i < k then 1 else 0)) \<and>
    (\<forall>s. (\<forall>i < length leaves. node_index (leaves ! i) \<noteq> s) \<longrightarrow> count_node leaves k ls ! s = ls ! s)"
  using assms(2)
proof (induction k)
  case (Suc k)
  have k: "node_index (leaves ! k) < length ls" using assms(1) Suc(2) by (simp add: syms_ok_def)
  have "node_index (leaves ! k) = node_index (leaves ! i) \<longleftrightarrow> k = i" if "i < length leaves" for i
    using syms_ok_inj [OF assms(1), of k i] Suc(2) that by simp
  then show ?case
    using Suc k by (simp add: Let_def nth_list_update less_Suc_eq)
qed simp

lemma count_chain_nth:
  assumes "syms_ok leaves ls" "chain_ok (length leaves) c p node"
  shows "length (count_chain leaves node ls) = length ls \<and>
    (\<forall>i < length leaves. count_chain leaves node ls ! node_index (leaves ! i) =
      ls ! node_index (leaves ! i) + depth node i) \<and>
    (\<forall>s. (\<forall>i < length leaves. node_index (leaves ! i) \<noteq> s) \<longrightarrow> count_chain leaves node ls ! s = ls ! s)"
  using assms
proof (induction leaves node ls arbitrary: c p rule: count_chain.induct)
  case (1 leaves w index rest ls)
  let ?ls = "count_node leaves index ls"
  have i: "index \<le> length leaves" using 1(3) by simp
  note cn = count_node_nth [OF 1(2) i]
  show ?case
  proof (cases rest)
    case None
    then show ?thesis using cn by simp
  next
    case (Some t)
    have "syms_ok leaves ?ls" using 1(2) cn by (simp add: syms_ok_def)
    moreover have "chain_ok (length leaves) (c - 1) (2 * (p - index)) t" using 1(3) Some by simp
    ultimately show ?thesis using 1(1) [OF refl Some, of "c - 1" "2 * (p - index)"] cn Some by simp
  qed
qed

lemma depth_beyond: "chain_ok n c p node \<Longrightarrow> node_index node \<le> i \<Longrightarrow> depth node i = 0"
proof (induction n c p node rule: chain_ok.induct)
  case (1 n c p w index rest)
  show ?case
  proof (cases rest)
    case None
    then show ?thesis using 1(3) by simp
  next
    case (Some t)
    then show ?thesis using 1(1) [OF Some] 1(2,3) by simp
  qed
qed

lemma depth_bound: "chain_ok n c p node \<Longrightarrow> depth node i \<le> c + 1"
proof (induction n c p node rule: chain_ok.induct)
  case (1 n c p w index rest)
  show ?case
  proof (cases rest)
    case (Some t)
    then show ?thesis using 1(1) [OF Some] 1(2) by simp
  qed simp
qed

lemma depth_pos: "i < node_index node \<Longrightarrow> 1 \<le> depth node i"
  by (cases node) simp

text \<open>The room that the words of the counted leaves take, when the chain is at position \<open>p\<close>.\<close>

lemma chain_room:
  "chain_ok n c p node \<Longrightarrow> c + 1 \<le> C \<Longrightarrow>
   2 * (\<Sum>i < node_index node. 2 ^ (C - depth node i)) + p * 2 ^ C = 2 * node_index node * (2 :: nat) ^ C"
proof (induction n c p node arbitrary: C rule: chain_ok.induct)
  case (1 n c p w index rest)
  obtain D where C: "C = Suc D" using 1(3) by (cases C) auto
  show ?case
  proof (cases rest)
    case None
    then show ?thesis using 1(2) C by simp
  next
    case (Some t)
    let ?j = "node_index t"
    have t: "chain_ok n (c - 1) (2 * (p - index)) t" "0 < c" "?j \<le> index" "index < p"
      using 1(2) Some by simp_all
    have IH: "2 * (\<Sum>i < ?j. 2 ^ (D - depth t i)) + 2 * (p - index) * 2 ^ D = 2 * ?j * 2 ^ D"
      using 1(1) [OF Some t(1), of D] t(2) 1(3) C by simp
    have "(\<Sum>i < index. 2 ^ (C - depth (BPMNode w index rest) i)) = (\<Sum>i < index. (2 :: nat) ^ (D - depth t i))"
      by (simp add: C Some)
    also have "\<dots> = (\<Sum>i < ?j. 2 ^ (D - depth t i)) + (\<Sum>i \<in> {?j ..< index}. 2 ^ (D - depth t i))"
      using sum.atLeastLessThan_concat [of 0 ?j index "\<lambda>i. (2 :: nat) ^ (D - depth t i)"] t(3)
      by (simp add: lessThan_atLeast0)
    also have "(\<Sum>i \<in> {?j ..< index}. 2 ^ (D - depth t i)) = (index - ?j) * 2 ^ D"
      using depth_beyond [OF t(1)] by simp
    finally have s: "(\<Sum>i < index. 2 ^ (C - depth (BPMNode w index rest) i)) =
      (\<Sum>i < ?j. 2 ^ (D - depth t i)) + (index - ?j) * 2 ^ D" .
    obtain a b where ab: "index = ?j + a" "p = index + b" using t(3,4) le_Suc_ex less_imp_le by metis
    have "2 * (\<Sum>i < ?j. 2 ^ (D - depth t i)) + 2 * b * 2 ^ D = 2 * ?j * 2 ^ D" using IH ab(2) by simp
    then have "2 * ((\<Sum>i < ?j. 2 ^ (D - depth t i)) + a * 2 ^ D) + p * 2 ^ C = 2 * index * 2 ^ C"
      unfolding C using ab by (simp add: algebra_simps)
    then show ?thesis using s ab(1) by simp
  qed
qed

text \<open>A complete code from a chain with all leaves.\<close>

lemma count_chain_complete:
  assumes "syms_ok leaves (replicate m 0)" "chain_ok (length leaves) c (2 * length leaves - 2) node"
    "node_index node = length leaves" "c \<le> 14" "1 \<le> length leaves"
  defines "ls \<equiv> count_chain leaves node (replicate m 0)"
  shows "length ls = m" "complete ls" "\<forall>l \<in> set ls. l \<le> c + 1" "symbols ls = node_index ` set leaves"
proof -
  let ?n = "length leaves"
  note cc = count_chain_nth [OF assms(1,2), folded ls_def]
  show len: "length ls = m" using cc by simp
  have at: "ls ! node_index (leaves ! i) = depth node i" if "i < ?n" for i
    using cc that assms(1) by (simp add: syms_ok_def)
  have other: "ls ! s = 0" if "s < m" "s \<notin> node_index ` set leaves" for s
  proof -
    have "\<forall>i < ?n. node_index (leaves ! i) \<noteq> s" using that(2) by fastforce
    then show ?thesis using cc that(1) by simp
  qed
  have set: "node_index ` set leaves = (\<lambda>i. node_index (leaves ! i)) ` {..< ?n}"
    by (force simp: in_set_conv_nth)
  have small: "s < m" if "s \<in> node_index ` set leaves" for s
    using assms(1) that by (auto simp: syms_ok_def)
  show sym: "symbols ls = node_index ` set leaves"
  proof
    show "symbols ls \<subseteq> node_index ` set leaves" using other len by (fastforce simp: symbols_def)
    show "node_index ` set leaves \<subseteq> symbols ls"
    proof
      fix s assume s: "s \<in> node_index ` set leaves"
      then obtain i where i: "i < ?n" "s = node_index (leaves ! i)" using set by auto
      then show "s \<in> symbols ls"
        using at [OF i(1)] depth_pos [of i node] assms(3) small [OF s] len by (simp add: symbols_def)
    qed
  qed
  show le: "\<forall>l \<in> set ls. l \<le> c + 1"
  proof
    fix l assume "l \<in> set ls"
    then obtain s where s: "s < m" "l = ls ! s" using len by (auto simp: in_set_conv_nth)
    show "l \<le> c + 1"
    proof (cases "s \<in> node_index ` set leaves")
      case True
      then obtain i where "i < ?n" "s = node_index (leaves ! i)" using set by auto
      then show ?thesis using at depth_bound [OF assms(2)] s by simp
    next
      case False
      then show ?thesis using other s by simp
    qed
  qed
  have "sum (weight ls) (symbols ls) = (\<Sum>i < ?n. 2 ^ (15 - depth node i))"
    unfolding sym set
    by (subst sum.reindex) (auto simp: inj_on_def weight_def at syms_ok_inj [OF assms(1)])
  moreover have "2 * (\<Sum>i < ?n. 2 ^ (15 - depth node i)) + (2 * ?n - 2) * 2 ^ 15 = 2 * ?n * (2 :: nat) ^ 15"
    using chain_room [OF assms(2), of 15] assms(3,4) by simp
  ultimately show "complete ls" using le assms(4,5) by (force simp: complete_def)
qed

section \<open>Code lengths from frequencies\<close>

lemma two_words_complete:
  assumes "i < m" "j < m" "i \<noteq> j"
  defines "ls \<equiv> (replicate m 0)[i := 1, j := 1]"
  shows "complete ls" "symbols ls = {i, j}" "\<forall>l \<in> set ls. l \<le> 1"
proof -
  show s: "symbols ls = {i, j}" using assms by (auto simp: symbols_def ls_def nth_list_update split: if_splits)
  show le: "\<forall>l \<in> set ls. l \<le> 1"
    using assms by (auto simp: ls_def in_set_conv_nth nth_list_update split: if_splits)
  have "weight ls i = 2 ^ 14" "weight ls j = 2 ^ 14" using assms(1-3) by (simp_all add: weight_def ls_def nth_list_update)
  then have "sum (weight ls) (symbols ls) = 2 ^ 15" using assms(3) by (simp add: s)
  then show "complete ls" using le by (force simp: complete_def)
qed

definition present :: "nat list \<Rightarrow> nat \<Rightarrow> BPMNode list" where
  "present frequencies n = map (\<lambda>i. BPMNode (int (frequencies ! i)) i None)
     (filter (\<lambda>i. frequencies ! i > 0) [0 ..< n])"

lemma bpmnode_sort_ok:
  assumes "2 \<le> length (present frequencies n)"
  shows "leaves_ok (bpmnode_sort (present frequencies n))"
    "syms_ok (bpmnode_sort (present frequencies n)) (replicate n 0)"
    "length (bpmnode_sort (present frequencies n)) = length (present frequencies n)"
    "node_index ` set (bpmnode_sort (present frequencies n)) = {i. i < n \<and> 0 < frequencies ! i}"
proof -
  let ?l = "present frequencies n"
  have s: "set (bpmnode_sort ?l) = set ?l" by (simp add: bpmnode_sorted)
  have "distinct (map node_index ?l)" by (simp add: present_def comp_def)
  moreover have "mset (map node_index (bpmnode_sort ?l)) = mset (map node_index ?l)"
    by (simp add: bpmnode_sorted)
  ultimately have "distinct (map node_index (bpmnode_sort ?l))" using mset_eq_imp_distinct_iff by blast
  then show "syms_ok (bpmnode_sort ?l) (replicate n 0)" unfolding syms_ok_def s by (auto simp: present_def)
  show "leaves_ok (bpmnode_sort ?l)"
    using assms unfolding leaves_ok_def s by (auto simp: bpmnode_sorted present_def)
  show "length (bpmnode_sort ?l) = length ?l" by (simp add: bpmnode_sorted)
  show "node_index ` set (bpmnode_sort ?l) = {i. i < n \<and> 0 < frequencies ! i}"
    unfolding s by (auto simp: present_def image_iff)
qed

lemma code_lengths_complete:
  assumes "2 \<le> n" "n \<le> 2 ^ maxlen" "maxlen \<le> 15"
  shows "\<exists>ls. lodepng_huffman_code_lengths frequencies n maxlen = Inr ls \<and> length ls = n \<and> complete ls \<and>
    (\<forall>l \<in> set ls. l \<le> maxlen) \<and> (\<forall>i < n. 0 < frequencies ! i \<longrightarrow> i \<in> symbols ls)"
proof -
  let ?l = "present frequencies n"
  have maxlen: "0 < maxlen" using assms(1,2) by (cases maxlen) auto
  have def: "lodepng_huffman_code_lengths frequencies n maxlen =
     (if length ?l = 0 then Inr ((replicate n 0)[0 := 1, 1 := 1])
      else if length ?l = 1 then
        (let s = node_index (?l ! 0) in
         Inr ((replicate n 0)[s := 1, (if s = 0 then 1 else 0) := 1]))
      else Inr (count_chain (bpmnode_sort ?l) (package_merge (bpmnode_sort ?l) maxlen) (replicate n 0)))"
    using assms(1,2) by (simp add: lodepng_huffman_code_lengths_def Let_def present_def)
  have idx: "node_index ` set ?l = {i. i < n \<and> 0 < frequencies ! i}" by (auto simp: present_def image_iff)
  consider (none) "length ?l = 0" | (one) "length ?l = 1" | (more) "2 \<le> length ?l" by linarith
  then show ?thesis
  proof cases
    case none
    then have "\<not> 0 < frequencies ! i" if "i < n" for i using idx that by auto
    then show ?thesis using two_words_complete [of 0 n 1] assms(1) maxlen none by (force simp: def)
  next
    case one
    then obtain b where b: "?l = [b]" by (metis One_nat_def length_0_conv length_Suc_conv)
    let ?s = "node_index b" and ?t = "if node_index b = 0 then 1 else (0 :: nat)"
    have s: "?s < n" "\<And>i. i < n \<Longrightarrow> 0 < frequencies ! i \<Longrightarrow> i = ?s" using idx by (auto simp: b)
    have "?t < n" "?s \<noteq> ?t" using assms(1) by auto
    note tw = two_words_complete [OF s(1) this]
    have "lodepng_huffman_code_lengths frequencies n maxlen = Inr ((replicate n 0)[?s := 1, ?t := 1])"
      using def b by (simp add: Let_def)
    then show ?thesis using tw s(2) maxlen by fastforce
  next
    case more
    let ?b = "bpmnode_sort ?l"
    note ok = bpmnode_sort_ok [OF more]
    have "length ?l \<le> n" using length_filter_le [of "\<lambda>i. frequencies ! i > 0" "[0 ..< n]"] by (simp add: present_def)
    then have "length ?b \<le> 2 ^ maxlen" using assms(2) ok(3) by simp
    note pm = package_merge_chain [OF ok(1) maxlen this]
    have "maxlen - 1 \<le> 14" "1 \<le> length ?b" using assms(3) more ok(3) by simp_all
    note cc = count_chain_complete [OF ok(2) pm [THEN conjunct1] pm [THEN conjunct2] this]
    show ?thesis using more cc maxlen by (auto simp: def ok(4))
  qed
qed

text \<open>Dropping unused symbols at the end, and the tree.\<close>

lemma trim_zeros_bounds:
  "mincodes \<le> n \<Longrightarrow> mincodes \<le> trim_zeros frequencies mincodes n \<and> trim_zeros frequencies mincodes n \<le> n \<and>
   (\<forall>i < n. 0 < frequencies ! i \<longrightarrow> i < trim_zeros frequencies mincodes n)"
proof (induction frequencies mincodes n rule: trim_zeros.induct)
  case (1 frequencies mincodes n)
  show ?case
  proof (cases "frequencies ! (n - 1) = 0 \<and> n > mincodes")
    case True
    then have "trim_zeros frequencies mincodes n = trim_zeros frequencies mincodes (n - 1)"
      by (subst trim_zeros.simps) simp
    moreover have "i < n - 1" if "i < n" "0 < frequencies ! i" for i
      using that True by (metis Suc_leI Suc_pred' gr0I le_neq_implies_less less_Suc_eq_le not_less0 zero_less_iff_neq_zero)
    moreover have "mincodes \<le> n - 1" using True by linarith
    ultimately show ?thesis using 1(1) [OF True] le_trans [OF _ diff_le_self [of n 1]] by simp
  next
    case False
    then show ?thesis using 1(2) by (subst (1 2 3) trim_zeros.simps) auto
  qed
qed

lemma makeFromFrequencies_good:
  assumes "2 \<le> mincodes" "mincodes \<le> n" "n \<le> 2 ^ maxlen" "maxlen \<le> 15"
  shows "\<exists>tree'. HuffmanTree_makeFromFrequencies tree frequencies mincodes n maxlen = Inr tree' \<and>
    good_tree tree' \<and> mincodes \<le> numcodes tree' \<and> numcodes tree' \<le> n \<and>
    length (lengths tree') = numcodes tree' \<and> (\<forall>l \<in> set (lengths tree'). l \<le> maxlen) \<and>
    (\<forall>i < n. 0 < frequencies ! i \<longrightarrow> i \<in> symbols (lengths tree'))"
proof -
  define k where "k = trim_zeros frequencies mincodes n"
  have k: "mincodes \<le> k" "k \<le> n" "\<And>i. i < n \<Longrightarrow> 0 < frequencies ! i \<Longrightarrow> i < k"
    using trim_zeros_bounds [OF assms(2)] by (auto simp: k_def)
  obtain ls where ls: "lodepng_huffman_code_lengths frequencies k maxlen = Inr ls" "length ls = k" "complete ls"
    "\<forall>l \<in> set ls. l \<le> maxlen" "\<forall>i < k. 0 < frequencies ! i \<longrightarrow> i \<in> symbols ls"
    using code_lengths_complete [of k maxlen frequencies] assms k by auto
  obtain tree' where "HuffmanTree_makeFromLengths2 (tree\<lparr>maxbitlen := maxlen, numcodes := k, lengths := ls\<rparr>) = Inr tree'"
    "lengths tree' = ls" "numcodes tree' = k" "good_tree tree'"
    using makeFromLengths2_good [of "tree\<lparr>maxbitlen := maxlen, numcodes := k, lengths := ls\<rparr>"] ls by auto
  then show ?thesis
    using ls k by (auto simp: HuffmanTree_makeFromFrequencies_def k_def Let_def)
qed

text \<open>C34: The merge sort of the leaves is the stable sort by weight.\<close>

theorem bpmnode_sort_is_sort_key: "bpmnode_sort leaves = sort_key node_weight leaves"
  by (rule bpmnode_sorted)



end
