(* ===== verification/Png_Dynamic.thy ===== *)
theory Png_Dynamic
  imports Png_Package_Merge
begin

unbundle bit_operations_syntax

text \<open>
  Blocks with dynamic trees: what the decompressor reads in the header of the block are the code
  lengths of the compressor, so its trees have the same words, and the symbols mean the data.
\<close>

section \<open>Run-length compressed code lengths\<close>

text \<open>The meaning of the codes: a length, or a repetition with the number that follows it.\<close>

function rl_decode :: "nat list \<Rightarrow> nat list \<Rightarrow> nat list option" where
  "rl_decode [] acc = Some acc"
| "rl_decode (e # es) acc =
     (if e \<le> 15 then rl_decode es (acc @ [e])
      else if e = 16 then
        (if es = [] \<or> acc = [] \<or> hd es \<ge> 4 then None
         else rl_decode (drop 1 es) (acc @ replicate (3 + hd es) (last acc)))
      else if e = 17 then
        (if es = [] \<or> hd es \<ge> 8 then None else rl_decode (drop 1 es) (acc @ replicate (3 + hd es) 0))
      else if e = 18 then
        (if es = [] \<or> hd es \<ge> 128 then None else rl_decode (drop 1 es) (acc @ replicate (11 + hd es) 0))
      else None)"
  by pat_completeness auto
termination
  by (relation "measure (\<lambda>(es, acc). length es)") auto

lemma run_prefix: "m \<le> length (takeWhile (\<lambda>y. y = x) xs) \<Longrightarrow> xs = replicate m x @ drop m xs"
proof (induction m arbitrary: xs)
  case (Suc m)
  then obtain ys where "xs = x # ys" "m \<le> length (takeWhile (\<lambda>y. y = x) ys)"
    by (cases xs) (auto split: if_splits)
  then show ?case using Suc.IH [of ys] by simp
qed simp

lemma replicate_last: "acc \<noteq> [] \<Longrightarrow> last acc = x \<Longrightarrow>
  rl_decode (concat (replicate num [16, 3]) @ es) acc = rl_decode es (acc @ replicate (6 * num) x)"
proof (induction num arbitrary: acc)
  case (Suc num)
  have "last (acc @ replicate 6 x) = x" by (simp add: numeral_eq_Suc)
  then show ?case
    using Suc.prems Suc.IH [of "acc @ replicate 6 x"] by (simp add: replicate_add)
qed simp

lemma compress_lengths_decode:
  "list_all (\<lambda>l. l \<le> 15) xs \<Longrightarrow> rl_decode (compress_lengths xs) acc = Some (acc @ xs)"
proof (induction xs arbitrary: acc rule: compress_lengths.induct)
  case (2 x xs)
  define j where "j = length (takeWhile (\<lambda>y. y = x) xs)"
  note c = compress_lengths.simps(2) [of x xs, folded j_def]
  have all: "list_all (\<lambda>l. l \<le> 15) (drop n (x # xs))" for n
    using 2(5) by (meson list_all_iff in_set_dropD)
  have x: "x \<le> 15" using 2(5) by simp
  have run: "x # xs = replicate (Suc m) x @ drop (Suc m) (x # xs)" if "m \<le> j" for m
    using run_prefix [of m x xs] that by (simp add: j_def)
  show ?case
  proof (cases "x = 0 \<and> j \<ge> 2")
    case zeros: True
    show ?thesis
    proof (cases "j + 1 \<le> 10")
      case True
      then have "compress_lengths (x # xs) = [17, j + 1 - 3] @ compress_lengths (drop (j + 1) (x # xs))"
        unfolding c using zeros by (simp add: Let_def)
      moreover have "rl_decode ([17, j + 1 - 3] @ es) acc = rl_decode es (acc @ replicate (j + 1) 0)" for es
      proof -
        have "j - 2 < 8" "Suc (Suc (j - 2)) = j" using zeros True by linarith+
        then show ?thesis by simp
      qed
      ultimately show ?thesis
        using 2(1) [OF j_def zeros refl True all] run [of j] zeros by simp
    next
      case False
      define k where "k = (if j + 1 > 138 then 138 else j + 1)"
      have k: "11 \<le> k" "k \<le> 138" "k \<le> j + 1" using False by (auto simp: k_def)
      have "compress_lengths (x # xs) = [18, k - 11] @ compress_lengths (drop k (x # xs))"
        unfolding c using zeros False by (simp add: Let_def k_def)
      moreover have "rl_decode ([18, k - 11] @ es) acc = rl_decode es (acc @ replicate k 0)" for es
      proof -
        have "k - 11 < 128" "11 + (k - 11) = k" using k by linarith+
        then show ?thesis by simp
      qed
      ultimately show ?thesis
        using 2(2) [OF j_def zeros refl False k_def all] run [of "k - 1"] k zeros by simp
    qed
  next
    case nonzero: False
    show ?thesis
    proof (cases "j \<ge> 3")
      case True
      define k where "k = (if j mod 6 \<ge> 3 then j else j - j mod 6)"
      have "compress_lengths (x # xs) = [x] @ concat (replicate (j div 6) [16, 3]) @
          (if j mod 6 \<ge> 3 then [16, j mod 6 - 3] else []) @ compress_lengths (drop (k + 1) (x # xs))"
        unfolding c using nonzero True by (simp add: Let_def k_def)
      moreover have "rl_decode ([x] @ concat (replicate (j div 6) [16, 3]) @
          (if j mod 6 \<ge> 3 then [16, j mod 6 - 3] else []) @ es) acc =
          rl_decode es (acc @ replicate (k + 1) x)" for es
      proof (cases "j mod 6 \<ge> 3")
        case rest: True
        have "last (acc @ x # replicate (6 * (j div 6)) x) = x" by (cases "6 * (j div 6)") simp_all
        moreover have "j mod 6 - 3 < 4" by simp
        moreover have "x # replicate (6 * (j div 6)) x @ replicate (3 + (j mod 6 - 3)) x = replicate (k + 1) x"
          using rest by (simp add: k_def flip: replicate_add replicate_Suc)
        ultimately show ?thesis
          using x rest replicate_last [of "acc @ [x]" x] by simp
      next
        case False
        then have "k = 6 * (j div 6)" by (simp add: k_def minus_mod_eq_mult_div)
        then show ?thesis using False x replicate_last [of "acc @ [x]" x] by simp
      qed
      ultimately show ?thesis
        using 2(3) [OF j_def nonzero True refl refl k_def all] run [of k] by (auto simp: k_def)
    next
      case False
      have "compress_lengths (x # xs) = x # compress_lengths xs"
        unfolding c using nonzero False by (simp add: Let_def)
      then show ?thesis using 2(4) [OF j_def nonzero False] 2(5) x by simp
    qed
  qed
qed simp

lemma compress_lengths_short: "length (compress_lengths xs) \<le> length xs"
proof (induction xs rule: compress_lengths.induct)
  case (2 x xs)
  define j where "j = length (takeWhile (\<lambda>y. y = x) xs)"
  note c = compress_lengths.simps(2) [of x xs, folded j_def]
  have j: "j \<le> length xs" by (simp add: j_def length_takeWhile_le)
  have num: "length (concat (replicate n [16, 3 :: nat])) = 2 * n" for n by (induction n) simp_all
  show ?case
  proof (cases "x = 0 \<and> j \<ge> 2")
    case zeros: True
    show ?thesis
    proof (cases "j + 1 \<le> 10")
      case True
      have e: "compress_lengths (x # xs) = [17, j + 1 - 3] @ compress_lengths (drop (j + 1) (x # xs))"
        unfolding c using zeros True by (simp add: Let_def)
      show ?thesis unfolding e using 2(1) [OF j_def zeros refl True] zeros [THEN conjunct2] j by simp
    next
      case False
      define k where "k = (if j + 1 > 138 then 138 else j + 1)"
      have k: "11 \<le> k" "k \<le> j + 1" using False by (auto simp: k_def)
      have e: "compress_lengths (x # xs) = [18, k - 11] @ compress_lengths (drop k (x # xs))"
        unfolding c using zeros False by (simp add: Let_def k_def)
      show ?thesis unfolding e using 2(2) [OF j_def zeros refl False k_def] k j by simp
    qed
  next
    case nonzero: False
    show ?thesis
    proof (cases "j \<ge> 3")
      case True
      define k where "k = (if j mod 6 \<ge> 3 then j else j - j mod 6)"
      have e: "compress_lengths (x # xs) = [x] @ concat (replicate (j div 6) [16, 3]) @
          (if j mod 6 \<ge> 3 then [16, j mod 6 - 3] else []) @ compress_lengths (drop (k + 1) (x # xs))"
        unfolding c using nonzero True by (simp add: Let_def k_def)
      have "k \<le> length xs" using j by (auto simp: k_def)
      moreover have "1 + 2 * (j div 6) + (if j mod 6 \<ge> 3 then 2 else 0) \<le> k + 1"
        using div_mult_mod_eq [of j 6] unfolding k_def by (cases "j mod 6 \<ge> 3") simp_all
      moreover have "length (compress_lengths (drop (k + 1) (x # xs))) \<le> length xs - k"
        using 2(3) [OF j_def nonzero True refl refl k_def] by simp
      ultimately show ?thesis unfolding e by (cases "j mod 6 \<ge> 3") (simp_all add: num)
    next
      case False
      have e: "compress_lengths (x # xs) = x # compress_lengths xs"
        unfolding c using nonzero False by (simp add: Let_def)
      show ?thesis unfolding e using 2(4) [OF j_def nonzero False] by simp
    qed
  qed
qed simp

text \<open>C35: 
  The compressed lengths never take more room than the lengths themselves, which is what is allocated
  for them.
\<close>

theorem compress_lengths_fits: "length (compress_lengths xs) \<le> length xs"
  by (rule compress_lengths_short)

section \<open>The bits of the header\<close>

text \<open>The bits of the compressed lengths with the tree of their codes.\<close>

function rl_bits :: "nat list \<Rightarrow> nat list \<Rightarrow> bool list" where
  "rl_bits cl [] = []"
| "rl_bits cl (e # es) = word_of cl e @
     (if e = 16 then map (bit (hd es)) [0 ..< 2] @ rl_bits cl (drop 1 es)
      else if e = 17 then map (bit (hd es)) [0 ..< 3] @ rl_bits cl (drop 1 es)
      else if e = 18 then map (bit (hd es)) [0 ..< 7] @ rl_bits cl (drop 1 es)
      else rl_bits cl es)"
  by pat_completeness auto
termination
  by (relation "measure (\<lambda>(cl, es). length es)") auto

function rl_covered :: "nat list \<Rightarrow> nat list \<Rightarrow> bool" where
  "rl_covered cl [] \<longleftrightarrow> True"
| "rl_covered cl (e # es) \<longleftrightarrow> e \<in> symbols cl \<and> rl_covered cl (if e = 16 \<or> e = 17 \<or> e = 18 then drop 1 es else es)"
  by pat_completeness auto
termination
  by (relation "measure (\<lambda>(cl, es). length es)") auto

text \<open>The two kinds of steps of the decoding.\<close>

lemma rl_decode_cases:
  assumes "rl_decode (e # es) acc = Some xs"
  obtains "e \<le> 15" "rl_decode es (acc @ [e]) = Some xs"
  | x es' where "es = x # es'" "e = 16" "acc \<noteq> []" "x < 4" "rl_decode es' (acc @ replicate (3 + x) (last acc)) = Some xs"
  | x es' where "es = x # es'" "e = 17" "x < 8" "rl_decode es' (acc @ replicate (3 + x) 0) = Some xs"
  | x es' where "es = x # es'" "e = 18" "x < 128" "rl_decode es' (acc @ replicate (11 + x) 0) = Some xs"
  using assms by (cases es) (auto split: if_splits)

lemma rl_decode_extends: "rl_decode es acc = Some xs \<Longrightarrow> \<exists>ys. xs = acc @ ys"
proof (induction "length es" arbitrary: es acc rule: less_induct)
  case less
  show ?case
  proof (cases es)
    case (Cons e es')
    have lt: "length es' < length es" "\<And>x es''. es' = x # es'' \<Longrightarrow> length es'' < length es" using Cons by auto
    from less(2) [unfolded Cons] show ?thesis
    proof (cases rule: rl_decode_cases)
      case 1
      then show ?thesis using less(1) [OF lt(1)] by fastforce
    next
      case (2 x es'')
      from less(1) [OF lt(2) [OF 2(1)] 2(5)] show ?thesis by auto
    next
      case (3 x es'')
      from less(1) [OF lt(2) [OF 3(1)] 3(4)] show ?thesis by auto
    next
      case (4 x es'')
      from less(1) [OF lt(2) [OF 4(1)] 4(4)] show ?thesis by auto
    qed
  qed (use less in simp)
qed

lemma write_lengths_bits:
  assumes "good_tree tree_cl" "wr_ok w" "rl_decode es acc = Some xs" "rl_covered (lengths tree_cl) es"
  shows "wr_ok (write_lengths es tree_cl w) \<and>
    wr_bits (write_lengths es tree_cl w) = wr_bits w @ rl_bits (lengths tree_cl) es"
  using assms(2-)
proof (induction "length es" arbitrary: es acc w rule: less_induct)
  case less
  show ?case
  proof (cases es)
    case (Cons e es')
    have e: "e \<in> symbols (lengths tree_cl)" using less(4) Cons by simp
    note w1 = write_code_bits [OF assms(1) e less(2)]
    note num = write_number_bits [OF _ _ w1(1)]
    have lt: "length es' < length es" "\<And>x es''. es' = x # es'' \<Longrightarrow> length es'' < length es" using Cons by auto
    from less(3) [unfolded Cons] show ?thesis
    proof (cases rule: rl_decode_cases)
      case 1
      then show ?thesis using less(1) [OF lt(1) w1(1)] less(4) Cons w1(2) by simp
    next
      case (2 x es'')
      then show ?thesis
        using less(1) [OF lt(2) [OF 2(1)] num(1) [of x 2] 2(5)] less(4) Cons w1(2) num(2) [of x 2] by simp
    next
      case (3 x es'')
      then show ?thesis
        using less(1) [OF lt(2) [OF 3(1)] num(1) [of x 3] 3(4)] less(4) Cons w1(2) num(2) [of x 3] by simp
    next
      case (4 x es'')
      then show ?thesis
        using less(1) [OF lt(2) [OF 4(1)] num(1) [of x 7] 4(4)] less(4) Cons w1(2) num(2) [of x 7] by simp
    qed
  qed (use less in simp)
qed

lemma rl_bits_length:
  "complete cl \<Longrightarrow> rl_covered cl es \<Longrightarrow> length (rl_bits cl es) \<le> 22 * length es"
proof (induction cl es rule: rl_bits.induct)
  case (2 cl e es)
  have "length (word_of cl e) \<le> 15" using word_length [OF 2(5)] 2(6) by simp
  moreover have "length (drop 1 es) \<le> length es" by simp
  ultimately show ?case using 2 by (auto split: if_splits)
qed simp

section \<open>Reading the lengths back\<close>

text \<open>The two arrays of the decompressor when the lengths \<open>xs\<close> have been set.\<close>

definition filled_lens :: "nat \<Rightarrow> nat list \<Rightarrow> bitlens" where
  "filled_lens HLIT xs = (take HLIT xs @ replicate (288 - length (take HLIT xs)) 0,
     drop HLIT xs @ replicate (32 - length (drop HLIT xs)) 0)"

lemma update_padding:
  "length xs < m \<Longrightarrow> (xs @ replicate (m - length xs) 0)[length xs := v] = (xs @ [v]) @ replicate (m - length (xs @ [v])) (0 :: nat)"
proof -
  assume "length xs < m"
  then obtain k where "m - length xs = Suc k" "m - length (xs @ [v]) = k" by (metis Suc_diff_Suc length_append_singleton)
  then show ?thesis by simp
qed

lemma set_bitlen_filled:
  assumes "length xs < HLIT + HDIST" "HLIT \<le> 288" "HDIST \<le> 32"
  shows "set_bitlen HLIT (length xs) v (filled_lens HLIT xs) = filled_lens HLIT (xs @ [v])"
proof (cases "length xs < HLIT")
  case True
  then show ?thesis using update_padding [of xs 288 v] assms(2)
    by (simp add: set_bitlen_def filled_lens_def)
next
  case False
  have "length (drop HLIT xs) < 32" using assms by auto
  from update_padding [OF this, of v] False show ?thesis
    by (simp add: set_bitlen_def filled_lens_def)
qed

lemma repeat_bitlen_filled:
  "length xs + n \<le> HLIT + HDIST \<Longrightarrow> HLIT \<le> 288 \<Longrightarrow> HDIST \<le> 32 \<Longrightarrow>
   repeat_bitlen HLIT HDIST err v n (length xs) (filled_lens HLIT xs) =
     (0, length xs + n, filled_lens HLIT (xs @ replicate n v))"
proof (induction n arbitrary: xs)
  case (Suc n)
  then show ?case using Suc.IH [of "xs @ [v]"] by (simp add: set_bitlen_filled [of xs HLIT HDIST])
qed simp

lemma last_filled:
  assumes "xs \<noteq> []" "HLIT \<le> 288"
  shows "(if length xs < HLIT + 1 then fst (filled_lens HLIT xs) ! (length xs - 1)
    else snd (filled_lens HLIT xs) ! (length xs - HLIT - 1)) = last xs"
proof (cases "length xs < HLIT + 1")
  case True
  then show ?thesis using assms by (simp add: filled_lens_def nth_append last_conv_nth)
next
  case False
  then have "length xs - HLIT - 1 < length (drop HLIT xs)" "HLIT + (length xs - HLIT - 1) = length xs - 1" by auto
  then show ?thesis using assms False by (simp add: filled_lens_def nth_append last_conv_nth)
qed

lemma bitlen_checked_reads: "reads_as r bs \<Longrightarrow> bitlen_checked r (e, i, b) = Inr (e, i, b, r)"
  using reads_as_inside [of r bs] by (simp add: bitlen_checked_def)

lemma read_bitlen_step:
  assumes "good_tree tree_cl" "HLIT \<le> 288" "HDIST \<le> 32"
    and "rl_decode (e # es) acc = Some xs" "length xs = HLIT + HDIST" "rl_covered (lengths tree_cl) (e # es)"
    and "reads_as r (rl_bits (lengths tree_cl) (e # es) @ bs)"
  shows "\<exists>es' acc' r'. read_bitlen tree_cl HLIT HDIST (length acc) (filled_lens HLIT acc) r =
      Inr (0, length acc', filled_lens HLIT acc', r') \<and> length acc < length xs \<and>
    rl_decode es' acc' = Some xs \<and> rl_covered (lengths tree_cl) es' \<and> length es' < length (e # es) \<and>
    reads_as r' (rl_bits (lengths tree_cl) es' @ bs)"
proof -
  let ?cl = "lengths tree_cl"
  define r1 where "r1 = snd (ensureBits25 r 22)"
  define r2 where "r2 = advanceBits r1 (?cl ! e)"
  define tl_bits where "tl_bits = (if e = 16 then map (bit (hd es)) [0 ..< 2] @ rl_bits ?cl (drop 1 es)
      else if e = 17 then map (bit (hd es)) [0 ..< 3] @ rl_bits ?cl (drop 1 es)
      else if e = 18 then map (bit (hd es)) [0 ..< 7] @ rl_bits ?cl (drop 1 es)
      else rl_bits ?cl es) @ bs"
  have ok: "rd_ok r" using assms(7) by (simp add: reads_as_def)
  have e: "e \<in> symbols ?cl" using assms(6) by simp
  have a0: "reads_as r (word_of ?cl e @ tl_bits)" using assms(7) by (simp add: tl_bits_def)
  have a1: "reads_as r1 (word_of ?cl e @ tl_bits)"
    unfolding r1_def by (rule reads_as_ensure [OF a0])
  have h1: "holds_bits r1 22" unfolding r1_def by (rule la25.ahead [OF ok]) simp
  have d: "huffmanDecodeSymbol r1 tree_cl = (e, r2)"
    using decode_word [OF assms(1) e a1 holds_bits_mono [OF h1]] by (simp add: r2_def)
  have a2: "reads_as r2 tl_bits" using reads_as_append [OF a1] by (simp add: r2_def)
  have "?cl ! e \<le> 15" using word_length [OF _ e] assms(1) by (simp add: good_tree_def)
  then have h2: "holds_bits r2 7"
    unfolding r2_def by (intro holds_bits_mono [OF advanceBits_holds [OF h1]]) simp
  have num: "readBits r2 m = (fst (readBits r2 m), advanceBits r2 m)" "unat (fst (readBits r2 m)) = x"
    "reads_as (advanceBits r2 m) zs"
    if "tl_bits = map (bit x) [0 ..< m] @ zs" "m \<le> 7" "x < 2 ^ m" for m x zs
    using read_number [OF h2 that(2) a2 [unfolded that(1)] that(3)] reads_as_append [OF a2 [unfolded that(1)]]
    by (simp_all add: prod_eq_iff)
  note rb = read_bitlen_def [of tree_cl HLIT HDIST "length acc" "filled_lens HLIT acc" r]
  from assms(4) show ?thesis
  proof (cases rule: rl_decode_cases)
    case 1
    obtain ys where "xs = (acc @ [e]) @ ys" using rl_decode_extends [OF 1(2)] by blast
    then have "length acc < HLIT + HDIST" "length acc < length xs" using assms(5) by simp_all
    moreover have "reads_as r2 (rl_bits ?cl es @ bs)" using a2 1(1) by (simp add: tl_bits_def)
    ultimately show ?thesis
      using 1 assms(2,3,6) bitlen_checked_reads
      by (intro exI [of _ es] exI [of _ "acc @ [e]"] exI [of _ r2])
        (simp add: rb d set_bitlen_filled flip: r1_def)
  next
    case (2 x es')
    obtain ys where xs: "xs = (acc @ replicate (3 + x) (last acc)) @ ys" using rl_decode_extends [OF 2(5)] by blast
    note n = num [of x 2 "rl_bits ?cl es' @ bs"]
    have "tl_bits = map (bit x) [0 ..< 2] @ rl_bits ?cl es' @ bs" using 2(1,2) by (simp add: tl_bits_def)
    note n = n [OF this]
    have "length acc + (3 + x) \<le> HLIT + HDIST" "length acc < length xs" using xs assms(5) by simp_all
    then show ?thesis
      using 2 assms(2,3,6) n bitlen_checked_reads [OF n(3)] repeat_bitlen_filled [of acc "3 + x" HLIT HDIST]
        last_filled [OF 2(3) assms(2)]
      by (intro exI [of _ es'] exI [of _ "acc @ replicate (3 + x) (last acc)"] exI [of _ "advanceBits r2 2"])
        (simp add: rb d Let_def split_beta flip: r1_def)
  next
    case (3 x es')
    obtain ys where xs: "xs = (acc @ replicate (3 + x) 0) @ ys" using rl_decode_extends [OF 3(4)] by blast
    have "tl_bits = map (bit x) [0 ..< 3] @ rl_bits ?cl es' @ bs" using 3(1,2) by (simp add: tl_bits_def)
    note n = num [OF this]
    have "length acc + (3 + x) \<le> HLIT + HDIST" "length acc < length xs" using xs assms(5) by simp_all
    then show ?thesis
      using 3 assms(2,3,6) n bitlen_checked_reads [OF n(3)] repeat_bitlen_filled [of acc "3 + x" HLIT HDIST]
      by (intro exI [of _ es'] exI [of _ "acc @ replicate (3 + x) 0"] exI [of _ "advanceBits r2 3"])
        (simp add: rb d Let_def split_beta flip: r1_def)
  next
    case (4 x es')
    obtain ys where xs: "xs = (acc @ replicate (11 + x) 0) @ ys" using rl_decode_extends [OF 4(4)] by blast
    have "tl_bits = map (bit x) [0 ..< 7] @ rl_bits ?cl es' @ bs" using 4(1,2) by (simp add: tl_bits_def)
    note n = num [OF this]
    have "length acc + (11 + x) \<le> HLIT + HDIST" "length acc < length xs" using xs assms(5) by simp_all
    then show ?thesis
      using 4 assms(2,3,6) n bitlen_checked_reads [OF n(3)] repeat_bitlen_filled [of acc "11 + x" HLIT HDIST]
      by (intro exI [of _ es'] exI [of _ "acc @ replicate (11 + x) 0"] exI [of _ "advanceBits r2 7"])
        (simp add: rb d Let_def split_beta flip: r1_def)
  qed
qed

lemma read_bitlens_reads:
  assumes "good_tree tree_cl" "HLIT \<le> 288" "HDIST \<le> 32" "length xs = HLIT + HDIST"
    and "rl_decode es acc = Some xs" "rl_covered (lengths tree_cl) es"
    and "reads_as r (rl_bits (lengths tree_cl) es @ bs)"
  shows "\<exists>r'. read_bitlens tree_cl HLIT HDIST (length acc) (filled_lens HLIT acc) r =
    Inr (filled_lens HLIT xs, r') \<and> reads_as r' bs"
  using assms(5-)
proof (induction "length es" arbitrary: es acc r rule: less_induct)
  case less
  show ?case
  proof (cases es)
    case Nil
    then show ?thesis using less assms(4) by (subst read_bitlens.simps) simp
  next
    case (Cons e es')
    from read_bitlen_step [OF assms(1-3) less(2) [unfolded Cons] assms(4) less(3,4) [unfolded Cons]]
    obtain es1 acc1 r1 where s: "read_bitlen tree_cl HLIT HDIST (length acc) (filled_lens HLIT acc) r =
        Inr (0, length acc1, filled_lens HLIT acc1, r1)" "length acc < length xs" "rl_decode es1 acc1 = Some xs"
      "rl_covered (lengths tree_cl) es1" "length es1 < length (e # es')"
      "reads_as r1 (rl_bits (lengths tree_cl) es1 @ bs)" by blast
    from less(1) [OF s(5) [folded Cons] s(3,4,6)] show ?thesis
      using s(1,2) assms(4) by (subst read_bitlens.simps) simp
  qed
qed

section \<open>The lengths of the code length code\<close>

lemma trim_clcl_bounds:
  "4 \<le> n \<Longrightarrow> 4 \<le> trim_clcl ls n \<and> trim_clcl ls n \<le> n \<and>
   (\<forall>i. trim_clcl ls n \<le> i \<and> i < n \<longrightarrow> ls ! (CLCL_ORDER ! i) = 0)"
proof (induction ls n rule: trim_clcl.induct)
  case (1 ls n)
  show ?case
  proof (cases "n > 4 \<and> ls ! (CLCL_ORDER ! (n - 1)) = 0")
    case True
    then have t: "trim_clcl ls n = trim_clcl ls (n - 1)" by (subst trim_clcl.simps) simp
    have "4 \<le> n - 1" using True by linarith
    note IH = 1(1) [OF True this]
    have "ls ! (CLCL_ORDER ! i) = 0" if "trim_clcl ls (n - 1) \<le> i" "i < n" for i
      using that IH True by (cases "i = n - 1") auto
    then show ?thesis using IH by (auto simp: t)
  next
    case False
    then show ?thesis using 1(2) by (subst (1 2 3) trim_clcl.simps) auto
  qed
qed

definition clcl_bits :: "nat list \<Rightarrow> nat list \<Rightarrow> bool list" where
  "clcl_bits ls is = concat (map (\<lambda>i. map (bit (ls ! (CLCL_ORDER ! i))) [0 ..< 3]) is)"

lemma write_clcl_bits:
  assumes "\<forall>i \<in> set is. ls ! (CLCL_ORDER ! i) < 8" "wr_ok w"
  shows "wr_ok (fold (\<lambda>i w. writeBits w (word_of_nat (ls ! (CLCL_ORDER ! i))) 3) is w) \<and>
    wr_bits (fold (\<lambda>i w. writeBits w (word_of_nat (ls ! (CLCL_ORDER ! i))) 3) is w) = wr_bits w @ clcl_bits ls is"
  using assms
proof (induction "is" arbitrary: w)
  case (Cons i "is")
  have "ls ! (CLCL_ORDER ! i) < 2 ^ 3" "(3 :: nat) \<le> 32" using Cons.prems(1) by simp_all
  note num = write_number_bits [OF this Cons.prems(2)]
  show ?case using Cons.IH [OF _ num(1)] Cons.prems(1) num(2) by (simp add: clcl_bits_def)
qed (simp add: clcl_bits_def)

lemma read_clcl_bits:
  assumes "\<forall>i \<in> set is. ls ! (CLCL_ORDER ! i) < 8" "reads_as r (clcl_bits ls is @ bs)"
  shows "\<exists>r'. fold (\<lambda>i (b, r).
            (let r = snd (ensureBits9 r 3); (v, r) = readBits r 3 in (b[CLCL_ORDER ! i := unat v], r))) is (b, r) =
      (fold (\<lambda>i b. b[CLCL_ORDER ! i := ls ! (CLCL_ORDER ! i)]) is b, r') \<and> reads_as r' bs"
  using assms
proof (induction "is" arbitrary: b r)
  case (Cons i "is")
  define v where "v = ls ! (CLCL_ORDER ! i)"
  define r1 where "r1 = snd (ensureBits9 r 3)"
  have ok: "rd_ok r" using Cons.prems(2) by (simp add: reads_as_def)
  have "reads_as r (map (bit v) [0 ..< 3] @ clcl_bits ls is @ bs)"
    using Cons.prems(2) by (simp add: clcl_bits_def v_def)
  then have a: "reads_as r1 (map (bit v) [0 ..< 3] @ clcl_bits ls is @ bs)"
    unfolding r1_def by (subst ensureBits_buffer) simp
  have h: "holds_bits r1 3" unfolding r1_def by (rule la9.ahead [OF ok]) simp
  have v: "unat (fst (readBits r1 3)) = v"
    using read_number [OF h order_refl a] Cons.prems(1) by (simp add: v_def)
  have "reads_as (advanceBits r1 3) (clcl_bits ls is @ bs)" using reads_as_append [OF a] by simp
  from Cons.IH [OF _ this, of "b[CLCL_ORDER ! i := v]"] show ?case
    using Cons.prems(1) v by (simp add: split_beta Let_def v_def flip: r1_def)
qed (simp add: clcl_bits_def)

lemma CLCL_ORDER_all: "length CLCL_ORDER = 19" "i < 19 \<Longrightarrow> CLCL_ORDER ! i < 19" "set CLCL_ORDER = {0 ..< 19}"
proof -
  show l: "length CLCL_ORDER = 19" by (simp add: CLCL_ORDER_def)
  have "list_all (\<lambda>j. j \<in> set CLCL_ORDER) [0 ..< 19]" "list_all (\<lambda>j. j < 19) CLCL_ORDER"
    by (simp_all add: upt_conv_Cons CLCL_ORDER_def)
  then show s: "set CLCL_ORDER = {0 ..< 19}" by (auto simp: list_all_iff)
  show "i < 19 \<Longrightarrow> CLCL_ORDER ! i < 19" using nth_mem [of i CLCL_ORDER] by (simp add: l s)
qed

lemma fold_updates:
  "\<forall>i \<in> set is. f i < length b \<Longrightarrow> length (fold (\<lambda>i b. b[f i := g (f i)]) is b) = length b \<and>
   (\<forall>j < length b. fold (\<lambda>i b. b[f i := g (f i)]) is b ! j = (if j \<in> f ` set is then g j else b ! j))"
  by (induction "is" arbitrary: b) (auto simp: nth_list_update)

lemma fold_updates_all:
  assumes "f ` set is = {0 ..< length ls}" "length b = length ls"
  shows "fold (\<lambda>i b. b[f i := ls ! f i]) is b = ls"
proof -
  have "\<forall>i \<in> set is. f i < length b" using assms by (metis atLeastLessThan_iff imageI)
  from fold_updates [OF this, of "\<lambda>j. ls ! j"] show ?thesis
    using assms by (intro nth_equalityI) simp_all
qed

lemma read_clcl_reads:
  assumes "length ls = 19" "\<forall>l \<in> set ls. l < 8" "reads_as r (clcl_bits ls [0 ..< n] @ bs)"
    and n: "n \<le> 19" "\<And>i. n \<le> i \<Longrightarrow> i < 19 \<Longrightarrow> ls ! (CLCL_ORDER ! i) = 0"
  shows "\<exists>r'. read_clcl n r = (ls, r') \<and> reads_as r' bs"
proof -
  have "\<forall>i \<in> set [0 ..< n]. ls ! (CLCL_ORDER ! i) < 8"
    using CLCL_ORDER_all(2) assms(1,2) n(1) by simp
  from read_clcl_bits [OF this assms(3), of "replicate 19 0"] obtain r' where
    r': "fold (\<lambda>i (b, r).
            (let r = snd (ensureBits9 r 3); (v, r) = readBits r 3 in (b[CLCL_ORDER ! i := unat v], r)))
        [0 ..< n] (replicate 19 0, r) =
      (fold (\<lambda>i b. b[CLCL_ORDER ! i := ls ! (CLCL_ORDER ! i)]) [0 ..< n] (replicate 19 0), r')"
      "reads_as r' bs" by blast
  have zeros: "fold (\<lambda>i b. b[CLCL_ORDER ! i := 0]) [n ..< 19] b =
      fold (\<lambda>i b. b[CLCL_ORDER ! i := ls ! (CLCL_ORDER ! i)]) [n ..< 19] b" for b
    by (rule fold_cong) (simp_all add: n(2))
  have u: "[0 ..< 19] = [0 ..< n] @ [n ..< 19]"
    using upt_add_eq_append [of 0 n "19 - n"] n(1) by (simp del: upt_rec_numeral)
  have "(\<lambda>i. CLCL_ORDER ! i) ` set [0 ..< 19] = {0 ..< length ls}"
    using CLCL_ORDER_all(1,3) assms(1) by (metis list.set_map map_nth)
  then have "fold (\<lambda>i b. b[CLCL_ORDER ! i := ls ! (CLCL_ORDER ! i)]) [0 ..< 19] (replicate 19 0) = ls"
    by (rule fold_updates_all) (simp add: assms(1))
  then have "fold (\<lambda>i b. b[CLCL_ORDER ! i := ls ! (CLCL_ORDER ! i)]) [n ..< 19]
      (fold (\<lambda>i b. b[CLCL_ORDER ! i := ls ! (CLCL_ORDER ! i)]) [0 ..< n] (replicate 19 0)) = ls"
    by (simp only: u fold_append comp_apply)
  then show ?thesis
    using r' by (simp add: read_clcl_def zeros)
qed

section \<open>Unused symbols at the end\<close>

abbreviation padded :: "nat list \<Rightarrow> nat \<Rightarrow> nat list" where
  "padded ls n \<equiv> ls @ replicate (n - length ls) 0"

lemma padded_symbols: "symbols (padded ls n) = symbols ls"
proof -
  have "i \<in> symbols (padded ls n) \<longleftrightarrow> i \<in> symbols ls" for i
    by (cases "i < length ls") (auto simp: symbols_def nth_append)
  then show ?thesis by blast
qed

lemma padded_nth: "i \<in> symbols ls \<Longrightarrow> padded ls n ! i = ls ! i"
  by (simp add: symbols_def nth_append)

lemma padded_complete: "complete ls \<Longrightarrow> complete (padded ls n)"
  by (auto simp: complete_iff sum_list_replicate list_all_iff)

lemma padded_word: "i \<in> symbols ls \<Longrightarrow> word_of (padded ls n) i = word_of ls i"
proof -
  assume i: "i \<in> symbols ls"
  have "first_code (padded ls n) l = first_code ls l" for l
    by (induction l) (auto simp: count_len_def)
  then show ?thesis
    using padded_nth [OF i] i by (simp add: word_of_def code_of_def symbols_def)
qed

lemma padded_lz_bits:
  assumes "lz_covered ll d vs"
  shows "lz_bits (padded ll n) (padded d m) vs = lz_bits ll d vs \<and> lz_covered (padded ll n) (padded d m) vs"
  using assms
proof (induction "length vs" arbitrary: vs rule: less_induct)
  case less
  show ?case
  proof (cases vs)
    case (Cons v ws)
    then show ?thesis
      using less(1) [of ws] less(1) [of "drop 3 ws"] less(2)
      by (auto simp: padded_word padded_symbols split: if_splits)
  qed simp
qed

lemma makeFromLengths_padded:
  assumes "good_tree tree" "length (lengths tree) \<le> n"
  shows "\<exists>tree'. HuffmanTree_makeFromLengths HuffmanTree_init (padded (lengths tree) n) n 15 = Inr tree' \<and>
    good_tree tree' \<and> lengths tree' = padded (lengths tree) n"
proof -
  let ?ls = "padded (lengths tree) n"
  have c: "complete ?ls" using assms(1) padded_complete by (auto simp: good_tree_def)
  then have "\<forall>l \<in> set ?ls. l \<le> 15" by (auto simp: complete_def)
  then show ?thesis
    using makeFromLengths2_good [of "HuffmanTree_init\<lparr>lengths := ?ls, numcodes := n, maxbitlen := 15\<rparr>"] c assms(2)
    by (auto simp: HuffmanTree_makeFromLengths_def)
qed

section \<open>Symbols that occur are counted\<close>

lemma count_up: "(f :: nat list) ! i \<le> f[e := f ! e + 1] ! i"
  by (cases "e < length f"; cases "e = i") (simp_all add: list_update_beyond)

lemma count_lengths_codes_counts:
  assumes "rl_decode es acc = Some xs" "length f = 19"
  shows "length (count_lengths_codes es f) = 19 \<and> (\<forall>i < 19. f ! i \<le> count_lengths_codes es f ! i) \<and>
    ((\<forall>i < 19. 0 < count_lengths_codes es f ! i \<longrightarrow> i \<in> symbols cl) \<longrightarrow> rl_covered cl es)"
  using assms
proof (induction "length es" arbitrary: es acc f rule: less_induct)
  case less
  show ?case
  proof (cases es)
    case Nil
    then show ?thesis using less(3) by simp
  next
    case (Cons e es')
    let ?f = "f[e := f ! e + 1]"
    let ?es = "if e = 16 \<or> e = 17 \<or> e = 18 then drop 1 es' else es'"
    from less(2) [unfolded Cons] obtain acc' where
      e: "e < 19" "rl_decode ?es acc' = Some xs"
      by (cases rule: rl_decode_cases) fastforce+
    have "length ?es < length es" "length ?f = 19" using less(3) Cons by auto
    note IH = less(1) [OF this(1) e(2) this(2)]
    have c: "count_lengths_codes es f = count_lengths_codes ?es ?f" using Cons e(1) by auto
    note up = count_up [of f _ e]
    have "0 < ?f ! e" using e(1) less(3) by simp
    moreover have "?f ! e \<le> count_lengths_codes es f ! e" using IH e(1) unfolding c by blast
    ultimately have pos: "0 < count_lengths_codes es f ! e" by linarith
    show ?thesis
    proof (intro conjI allI impI)
      show "length (count_lengths_codes es f) = 19" using IH by (simp add: c)
      show "f ! i \<le> count_lengths_codes es f ! i" if "i < 19" for i
        using IH that le_trans [OF up] unfolding c by blast
      show "rl_covered cl es" if "\<forall>i < 19. 0 < count_lengths_codes es f ! i \<longrightarrow> i \<in> symbols cl"
        using IH that pos e(1) by (simp add: c Cons)
    qed
  qed
qed

lemma count_symbols_counts:
  assumes "lz_decode vs out = Some out'" "length fl = 286" "length fd = 30"
    "count_symbols vs (fl, fd) = (fl', fd')"
  shows "length fl' = 286 \<and> length fd' = 30 \<and> (\<forall>i < 286. fl ! i \<le> fl' ! i) \<and> (\<forall>i < 30. fd ! i \<le> fd' ! i) \<and>
    ((\<forall>i < 286. 0 < fl' ! i \<longrightarrow> i \<in> symbols ll) \<longrightarrow> (\<forall>i < 30. 0 < fd' ! i \<longrightarrow> i \<in> symbols d) \<longrightarrow>
      lz_covered ll d vs)"
  using assms
proof (induction "length vs" arbitrary: vs out fl fd rule: less_induct)
  case less
  show ?case
  proof (cases vs)
    case Nil
    then show ?thesis using less by simp
  next
    case (Cons v ws)
    let ?fl = "fl[v := fl ! v + 1]"
    have l: "length ?fl = 286" using less(3) by simp
    note up = count_up [of fl _ v]
    show ?thesis
    proof (cases "v > 256")
      case False
      then have lit: "v \<le> 255" "lz_decode ws (out @ [word_of_nat v]) = Some out'"
        using lz_decode_literal_cases [of v ws out out'] less(2) Cons by simp_all
      have "count_symbols ws (?fl, fd) = (fl', fd')" "length ws < length vs" using less(5) Cons False by simp_all
      note IH = less(1) [OF this(2) lit(2) l less(4) this(1)]
      have "0 < ?fl ! v" using lit(1) less(3) by simp
      moreover have "?fl ! v \<le> fl' ! v" using IH lit(1) by simp
      ultimately have "0 < fl' ! v" by linarith
      note pos = this
      show ?thesis
      proof (intro conjI allI impI)
        show "length fl' = 286" "length fd' = 30" using IH by simp_all
        show "fl ! i \<le> fl' ! i" if "i < 286" for i using IH that le_trans [OF up] by blast
        show "fd ! i \<le> fd' ! i" if "i < 30" for i using IH that by blast
        show "lz_covered ll d vs" if "\<forall>i < 286. 0 < fl' ! i \<longrightarrow> i \<in> symbols ll"
          "\<forall>i < 30. 0 < fd' ! i \<longrightarrow> i \<in> symbols d"
          using IH that pos lit(1) False by (simp add: Cons)
      qed
    next
      case True
      then obtain el dc ed rest where m: "ws = el # dc # ed # rest" "v \<le> 285" "dc < 30"
        "lz_decode rest (copy_match out (DISTANCEBASE ! dc + ed) (LENGTHBASE ! (v - 257) + el)) = Some out'"
        using lz_decode_match_cases [OF less(2) [unfolded Cons]] by metis
      let ?fd = "fd[dc := fd ! dc + 1]"
      have "count_symbols rest (?fl, ?fd) = (fl', fd')" "length rest < length vs" "length ?fd = 30"
        using less(4,5) Cons True m(1) by simp_all
      note IH = less(1) [OF this(2) m(4) l this(3) this(1)]
      note upd = count_up [of fd _ dc]
      have "0 < ?fl ! v" "0 < ?fd ! dc" using m(2,3) less(3,4) by simp_all
      moreover have "?fl ! v \<le> fl' ! v" "?fd ! dc \<le> fd' ! dc" using IH m(2,3) by simp_all
      ultimately have "0 < fl' ! v" "0 < fd' ! dc" by linarith+
      note pos = this
      show ?thesis
      proof (intro conjI allI impI)
        show "length fl' = 286" "length fd' = 30" using IH by simp_all
        show "fl ! i \<le> fl' ! i" if "i < 286" for i using IH that le_trans [OF up] by blast
        show "fd ! i \<le> fd' ! i" if "i < 30" for i using IH that le_trans [OF upd] by blast
        show "lz_covered ll d vs" if "\<forall>i < 286. 0 < fl' ! i \<longrightarrow> i \<in> symbols ll"
          "\<forall>i < 30. 0 < fd' ! i \<longrightarrow> i \<in> symbols d"
          using IH that pos m(1-3) True by (simp add: Cons)
      qed
    qed
  qed
qed

section \<open>The header\<close>

definition header_bits :: "nat list \<Rightarrow> nat list \<Rightarrow> nat list \<Rightarrow> nat list \<Rightarrow> bool list" where
  "header_bits ll d cl es =
     (let n = trim_clcl cl 19 in
      map (bit (length ll - 257)) [0 ..< 5] @ map (bit (length d - 1)) [0 ..< 5] @
      map (bit (n - 4)) [0 ..< 4] @ clcl_bits cl [0 ..< n] @ rl_bits cl es)"

text \<open>What the compressor has when it writes the trees of a block.\<close>

definition trees_ok :: "nat list \<Rightarrow> nat list \<Rightarrow> HuffmanTree \<Rightarrow> nat list \<Rightarrow> bool" where
  "trees_ok ll d tree_cl es \<longleftrightarrow> 257 \<le> length ll \<and> length ll \<le> 286 \<and> 1 \<le> length d \<and> length d \<le> 30 \<and>
     good_tree tree_cl \<and> length (lengths tree_cl) = 19 \<and> (\<forall>l \<in> set (lengths tree_cl). l \<le> 7) \<and>
     rl_decode es [] = Some (ll @ d) \<and> rl_covered (lengths tree_cl) es"

lemma length_clcl_bits [simp]: "length (clcl_bits cl is) = 3 * length is"
  by (induction "is") (simp_all add: clcl_bits_def)

lemma write_trees_bits:
  assumes "trees_ok ll d tree_cl es" "wr_ok w"
  shows "wr_ok (write_trees tree_cl es (length ll) (length d) w) \<and>
    wr_bits (write_trees tree_cl es (length ll) (length d) w) =
      wr_bits w @ header_bits ll d (lengths tree_cl) es"
proof -
  let ?n = "trim_clcl (lengths tree_cl) 19"
  have n: "4 \<le> ?n" "?n \<le> 19" using trim_clcl_bounds [of 19 "lengths tree_cl"] by simp_all
  have small: "length ll - 257 < 2 ^ 5" "length d - 1 < 2 ^ 5" "?n - 4 < 2 ^ 4"
    using assms(1) n by (auto simp: trees_ok_def)
  have l8: "\<forall>i \<in> set [0 ..< ?n]. lengths tree_cl ! (CLCL_ORDER ! i) < 8"
  proof
    fix i assume "i \<in> set [0 ..< ?n]"
    then have "CLCL_ORDER ! i < length (lengths tree_cl)"
      using CLCL_ORDER_all(2) n assms(1) by (simp add: trees_ok_def)
    then have "lengths tree_cl ! (CLCL_ORDER ! i) \<le> 7" using assms(1) by (simp add: trees_ok_def)
    then show "lengths tree_cl ! (CLCL_ORDER ! i) < 8" by simp
  qed
  note w1 = write_number_bits [OF small(1) _ assms(2)]
  note w2 = write_number_bits [OF small(2) _ w1(1)]
  note w3 = write_number_bits [OF small(3) _ w2(1)]
  note w4 = write_clcl_bits [OF l8 w3(1)]
  have t: "good_tree tree_cl" "rl_decode es [] = Some (ll @ d)" "rl_covered (lengths tree_cl) es"
    using assms(1) by (simp_all add: trees_ok_def)
  note w5 = write_lengths_bits [OF t(1) w4 [THEN conjunct1] t(2,3)]
  show ?thesis
    using w1(2) w2(2) w3(2) w4 w5 by (simp add: write_trees_def header_bits_def Let_def)
qed

lemma header_bits_length:
  assumes "trees_ok ll d tree_cl es" "length es \<le> length (ll @ d)"
  shows "length (header_bits ll d (lengths tree_cl) es) \<le> 7900"
proof -
  have "trim_clcl (lengths tree_cl) 19 \<le> 19" using trim_clcl_bounds [of 19 "lengths tree_cl"] by simp
  moreover have "length (rl_bits (lengths tree_cl) es) \<le> 22 * length es"
    using rl_bits_length assms(1) by (auto simp: trees_ok_def good_tree_def)
  moreover have "length es \<le> 316" using assms by (simp add: trees_ok_def)
  ultimately show ?thesis by (simp add: header_bits_def Let_def)
qed

lemma unat_word_of_nat: "k < 2 ^ 64 \<Longrightarrow> unat (word_of_nat k :: u64) = k"
  by (simp add: unat_of_nat)

lemma getTreeInflateDynamic_reads:
  assumes "trees_ok (lengths tree_ll) (lengths tree_d) tree_cl es"
    and "good_tree tree_ll" "good_tree tree_d" "256 \<in> symbols (lengths tree_ll)"
    and r: "reads_as r (header_bits (lengths tree_ll) (lengths tree_d) (lengths tree_cl) es @ bs)"
  shows "\<exists>tll td r'. getTreeInflateDynamic r = Inr (tll, td, r') \<and> good_tree tll \<and> good_tree td \<and>
    lengths tll = padded (lengths tree_ll) 288 \<and> lengths td = padded (lengths tree_d) 32 \<and> reads_as r' bs"
proof -
  let ?ll = "lengths tree_ll" and ?d = "lengths tree_d" and ?cl = "lengths tree_cl"
  define n where "n = trim_clcl ?cl 19"
  have n: "4 \<le> n" "n \<le> 19" "\<And>i. n \<le> i \<Longrightarrow> i < 19 \<Longrightarrow> ?cl ! (CLCL_ORDER ! i) = 0"
    using trim_clcl_bounds [of 19 ?cl] by (simp_all add: n_def)
  have t: "257 \<le> length ?ll" "length ?ll \<le> 286" "1 \<le> length ?d" "length ?d \<le> 30" "good_tree tree_cl"
    "length ?cl = 19" "\<forall>l \<in> set ?cl. l \<le> 7" "rl_decode es [] = Some (?ll @ ?d)" "rl_covered ?cl es"
    using assms(1) by (simp_all add: trees_ok_def)
  have small: "length ?ll - 257 < 2 ^ 5" "length ?d - 1 < 2 ^ 5" "n - 4 < 2 ^ 4" using t n by auto
  have ok: "rd_ok r" using r by (simp add: reads_as_def)
  define r1 where "r1 = snd (ensureBits17 r 14)"
  define r2 where "r2 = advanceBits r1 5"
  define r3 where "r3 = advanceBits r2 5"
  define r4 where "r4 = advanceBits r3 4"
  have "rd_bp r + 14 \<le> rd_bitsize r" using r by (simp add: reads_as_def header_bits_def Let_def)
  then have e: "ensureBits17 r 14 = (True, r1)" using la17.answer [OF ok, of 14] by (simp add: r1_def prod_eq_iff)
  have a1: "reads_as r1 (map (bit (length ?ll - 257)) [0 ..< 5] @ map (bit (length ?d - 1)) [0 ..< 5] @
      map (bit (n - 4)) [0 ..< 4] @ clcl_bits ?cl [0 ..< n] @ rl_bits ?cl es @ bs)"
    unfolding r1_def using r by (subst ensureBits_buffer) (simp add: header_bits_def Let_def n_def)
  have h1: "holds_bits r1 14" unfolding r1_def by (rule la17.ahead [OF ok]) simp
  have x1: "unat (fst (readBits r1 5)) = length ?ll - 257" by (rule read_number [OF h1 _ a1 small(1)]) simp
  have a2: "reads_as r2 (map (bit (length ?d - 1)) [0 ..< 5] @
      map (bit (n - 4)) [0 ..< 4] @ clcl_bits ?cl [0 ..< n] @ rl_bits ?cl es @ bs)"
    using reads_as_append [OF a1] by (simp add: r2_def)
  have h2: "holds_bits r2 9" unfolding r2_def by (rule holds_bits_mono [OF advanceBits_holds [OF h1]]) simp
  have x2: "unat (fst (readBits r2 5)) = length ?d - 1" by (rule read_number [OF h2 _ a2 small(2)]) simp
  have a3: "reads_as r3 (map (bit (n - 4)) [0 ..< 4] @ clcl_bits ?cl [0 ..< n] @ rl_bits ?cl es @ bs)"
    using reads_as_append [OF a2] by (simp add: r3_def)
  have h3: "holds_bits r3 4" unfolding r3_def by (rule holds_bits_mono [OF advanceBits_holds [OF h2]]) simp
  have x3: "unat (fst (readBits r3 4)) = n - 4" by (rule read_number [OF h3 _ a3 small(3)]) simp
  have a4: "reads_as r4 (clcl_bits ?cl [0 ..< n] @ rl_bits ?cl es @ bs)"
    using reads_as_append [OF a3] by (simp add: r4_def)
  have "rd_bp r4 + 3 * n \<le> rd_bitsize r4" "rd_bitsize r4 + 64 < 2 ^ 64"
    using a4 by (simp_all add: reads_as_def)
  then have g: "\<not> lodepng_gtofl (word_of_nat (rd_bp r4)) (word_of_nat (n * 3)) (word_of_nat (rd_bitsize r4))"
    unfolding lodepng_gtofl_iff using n(2) by (subst (1 2 3) unat_word_of_nat) simp_all
  have l8: "\<forall>l \<in> set ?cl. l < 8" using t(7) by auto
  from read_clcl_reads [OF t(6) l8 a4 n(2,3)] obtain r5 where
    cl: "read_clcl n r4 = (?cl, r5)" and a5: "reads_as r5 (rl_bits ?cl es @ bs)" by blast
  obtain tcl where tcl: "HuffmanTree_makeFromLengths HuffmanTree_init ?cl 19 7 = Inr tcl" "good_tree tcl"
    "lengths tcl = ?cl"
    using makeFromLengths2_good [of "HuffmanTree_init\<lparr>lengths := ?cl, numcodes := 19, maxbitlen := 7\<rparr>"] t(5-7)
    by (auto simp: HuffmanTree_makeFromLengths_def good_tree_def)
  have init: "filled_lens (length ?ll) [] = (replicate 288 0, replicate 32 0)"
    and fin: "filled_lens (length ?ll) (?ll @ ?d) = (padded ?ll 288, padded ?d 32)"
    by (simp_all add: filled_lens_def)
  have sz: "length ?ll \<le> 288" "length ?d \<le> 32" "length (?ll @ ?d) = length ?ll + length ?d" using t by simp_all
  from read_bitlens_reads [OF tcl(2) sz t(8), of r5 bs] a5 t(9) tcl(3) obtain r6 where
    bl: "read_bitlens tcl (length ?ll) (length ?d) 0 (replicate 288 0, replicate 32 0) r5 =
      Inr ((padded ?ll 288, padded ?d 32), r6)" and a6: "reads_as r6 bs"
    by (auto simp: init fin)
  obtain tll where tll: "HuffmanTree_makeFromLengths HuffmanTree_init (padded ?ll 288) 288 15 = Inr tll"
    "good_tree tll" "lengths tll = padded ?ll 288" using makeFromLengths_padded [OF assms(2) sz(1)] by blast
  obtain td where td: "HuffmanTree_makeFromLengths HuffmanTree_init (padded ?d 32) 32 15 = Inr td"
    "good_tree td" "lengths td = padded ?d 32" using makeFromLengths_padded [OF assms(3) sz(2)] by blast
  have stop: "padded ?ll 288 ! 256 \<noteq> 0" using padded_nth [OF assms(4)] assms(4) by (simp add: symbols_def)
  obtain X1 X2 X3 where rb: "readBits r1 5 = (X1, r2)" "readBits r2 5 = (X2, r3)" "readBits r3 4 = (X3, r4)"
    by (metis prod.collapse r2_def r3_def r4_def readBits_snd)
  have X: "unat X1 + 257 = length ?ll" "unat X2 + 1 = length ?d" "unat X3 + 4 = n"
    using x1 x2 x3 t(1,3) n(1) by (simp_all add: rb)
  have "getTreeInflateDynamic r = Inr (tll, td, r6)"
    unfolding getTreeInflateDynamic_def e Let_def prod.case rb X
    using g stop by (simp add: cl tcl(1) bl tll(1) td(1))
  then show ?thesis using tll td a6 by blast
qed

section \<open>The block\<close>

lemma deflateDynamic_written:
  assumes "window_ok settings" "start \<le> stop" "stop \<le> length data" "hash_ready settings data start h" "wr_ok w"
  shows "\<exists>w' h'. deflateDynamic w h data start stop settings final = Inr (w', h') \<and>
    block_written w w' final (take start data) (take stop data) \<and> hash_ready settings data stop h'"
proof -
  from block_symbols_decode [OF assms(1-4)] obtain vs h' where
    s: "block_symbols h data start stop settings = Inr (vs, h')"
      "lz_decode vs (take start data) = Some (take stop data)" "hash_ready settings data stop h'" by blast
  obtain fl fd where f: "count_symbols vs (replicate 286 0, replicate 30 0) = (fl, fd)" by fastforce
  note cs = count_symbols_counts [OF s(2) _ _ f]
  have fl: "length fl = 286" using cs by simp
  obtain tree_ll where ll: "HuffmanTree_makeFromFrequencies HuffmanTree_init (fl[256 := 1]) 257 286 15 = Inr tree_ll"
    "good_tree tree_ll" "257 \<le> numcodes tree_ll" "numcodes tree_ll \<le> 286"
    "length (lengths tree_ll) = numcodes tree_ll"
    "\<forall>i < 286. 0 < fl[256 := 1] ! i \<longrightarrow> i \<in> symbols (lengths tree_ll)"
    using makeFromFrequencies_good [of 257 286 15 HuffmanTree_init "fl[256 := 1]"] by auto
  obtain tree_d where d: "HuffmanTree_makeFromFrequencies HuffmanTree_init fd 2 30 15 = Inr tree_d"
    "good_tree tree_d" "2 \<le> numcodes tree_d" "numcodes tree_d \<le> 30"
    "length (lengths tree_d) = numcodes tree_d" "\<forall>i < 30. 0 < fd ! i \<longrightarrow> i \<in> symbols (lengths tree_d)"
    using makeFromFrequencies_good [of 2 30 15 HuffmanTree_init fd] by auto
  let ?ll = "lengths tree_ll" and ?d = "lengths tree_d"
  have stop: "256 \<in> symbols ?ll" using ll(6) fl by simp
  have "i \<in> symbols ?ll" if "i < 286" "0 < fl ! i" for i
    using ll(6) that fl by (cases "i = 256") (simp_all add: stop)
  then have cov: "lz_covered ?ll ?d vs" using cs d(6) by simp
  define es where "es = compress_lengths (?ll @ ?d)"
  have "list_all (\<lambda>l. l \<le> 15) (?ll @ ?d)"
    using ll(2) d(2) by (auto simp: good_tree_def complete_def list_all_iff)
  then have rl: "rl_decode es [] = Some (?ll @ ?d)" by (simp add: es_def compress_lengths_decode)
  define fc where "fc = count_lengths_codes es (replicate 19 0)"
  note cc = count_lengths_codes_counts [OF rl, of "replicate 19 0", folded fc_def]
  obtain tree_cl where cl: "HuffmanTree_makeFromFrequencies HuffmanTree_init fc 19 19 7 = Inr tree_cl"
    "good_tree tree_cl" "numcodes tree_cl = 19" "length (lengths tree_cl) = numcodes tree_cl"
    "\<forall>l \<in> set (lengths tree_cl). l \<le> 7" "\<forall>i < 19. 0 < fc ! i \<longrightarrow> i \<in> symbols (lengths tree_cl)"
    using makeFromFrequencies_good [of 19 19 7 HuffmanTree_init fc] by auto
  let ?cl = "lengths tree_cl"
  have trees: "trees_ok ?ll ?d tree_cl es"
    using ll d cl rl cc by (simp add: trees_ok_def)
  let ?w0 = "writeBits (writeBits (writeBits w (of_bool final) 1) 0 1) 1 1"
  have b: "bit (2 :: nat) 0 = False" "bit (2 :: nat) 1 = True" by (simp_all add: bit_iff_odd)
  have w0: "wr_ok ?w0" "wr_bits ?w0 = wr_bits w @ final # map (bit (2 :: nat)) [0 ..< 2]"
    using write_header [OF assms(5), of 2 final] by (simp_all only: b of_bool_eq simp_thms)
  define w1 where "w1 = write_trees tree_cl es (length ?ll) (length ?d) ?w0"
  have w1: "wr_ok w1" "wr_bits w1 = wr_bits ?w0 @ header_bits ?ll ?d ?cl es"
    using write_trees_bits [OF trees w0(1)] by (simp_all add: w1_def)
  define w2 where "w2 = writeLZ77data vs tree_ll tree_d w1"
  have w2: "wr_ok w2" "wr_bits w2 = wr_bits w1 @ lz_bits ?ll ?d vs"
    using writeLZ77data_bits [OF ll(2) d(2) w1(1) s(2) cov] by (simp_all add: w2_def)
  note w3 = write_code_bits [OF ll(2) stop w2(1)]
  let ?bs = "header_bits ?ll ?d ?cl es @ lz_bits ?ll ?d vs @ word_of ?ll 256"
  have out: "deflateDynamic w h data start stop settings final = Inr (write_code tree_ll 256 w2, h')"
  proof -
    have n: "min (numcodes tree_ll) 286 = length ?ll" "min (numcodes tree_d) 30 = length ?d"
      using ll(4,5) d(4,5) by simp_all
    have "?ll ! 256 \<noteq> 0" using stop by (simp add: symbols_def)
    then show ?thesis
      unfolding deflateDynamic_def s(1) sum.case prod.case f Let_def ll(1) d(1) n take_all [OF order_refl]
        es_def [symmetric] fc_def [symmetric] cl(1) w1_def [symmetric] w2_def [symmetric]
      by (rule if_not_P)
  qed
  have "block_written w (write_code tree_ll 256 w2) final (take start data) (take stop data)"
    unfolding block_written_def
  proof (intro conjI exI [of _ "final # map (bit (2 :: nat)) [0 ..< 2] @ ?bs"] allI impI)
    show "wr_bits (write_code tree_ll 256 w2) = wr_bits w @ (final # map (bit (2 :: nat)) [0 ..< 2] @ ?bs)"
      by (simp only: w3(2) w2(2) w1(2) w0(2) append_assoc append_Cons)
    have "length (header_bits ?ll ?d ?cl es) \<le> 7900"
      using header_bits_length [OF trees] compress_lengths_short [of "?ll @ ?d"] by (simp add: es_def)
    then show "length (final # map (bit (2 :: nat)) [0 ..< 2] @ ?bs) + 16 * length (take start data) \<le>
        16 * length (take stop data) + 8000"
      using lz_bits_length [OF _ _ s(2) cov] word_length [OF _ stop] ll(2) d(2) by (simp add: good_tree_def)
    fix settings :: LodePNGDecompressSettings and r rest
    assume m: "max_output_size settings = 0"
      and r: "reads_as r ((final # map (bit (2 :: nat)) [0 ..< 2] @ ?bs) @ rest)"
    show "\<exists>r'. reads_as r' rest \<and> inflate_blocks settings (take start data) r =
      (if final then Some (Inr (take stop data)) else inflate_blocks settings (take stop data) r')"
    proof (rule inflate_blocks_huffman [OF m, where t = 2])
      show "reads_as r (final # map (bit (2 :: nat)) [0 ..< 2] @ ?bs @ rest)" using r by simp
      fix r1 assume "reads_as r1 (?bs @ rest)"
      then have "reads_as r1 (header_bits ?ll ?d ?cl es @ lz_bits ?ll ?d vs @ word_of ?ll 256 @ rest)" by simp
      from getTreeInflateDynamic_reads [OF trees ll(2) d(2) stop this] obtain tll td r2 where
        t: "getTreeInflateDynamic r1 = Inr (tll, td, r2)" "good_tree tll" "good_tree td"
          "lengths tll = padded ?ll 288" "lengths td = padded ?d 32"
          "reads_as r2 (lz_bits ?ll ?d vs @ word_of ?ll 256 @ rest)" by blast
      have stop': "256 \<in> symbols (lengths tll)" using stop by (simp only: t(4) padded_symbols)
      have "reads_as r2 (lz_bits (lengths tll) (lengths td) vs @ word_of (lengths tll) 256 @ rest)"
        using t(6) padded_lz_bits [OF cov] padded_word [OF stop] by (simp only: t(4,5))
      from inflate_symbols_reads [OF t(2,3) stop' s(2) _ this] padded_lz_bits [OF cov]
      show "\<exists>r'. inflateHuffmanBlock (take start data) r1 2 0 = Some (Inr (take stop data, r')) \<and> reads_as r' rest"
        by (simp add: inflateHuffmanBlock_def t(1) t(4,5))
    qed simp
  qed (rule w3(1))
  then show ?thesis using out s(3) by blast
qed

interpretation dynamic_block: block_compressor deflateDynamic
  by unfold_locales (rule deflateDynamic_written)

end
