(* ===== verification/Png_Roundtrip.thy ===== *)
theory Png_Roundtrip
  imports Png_Dynamic
begin

unbundle bit_operations_syntax

text \<open>
  The compressor and the decompressor of \<open>lodepng.cpp\<close> together: with every block type, with and
  without LZ77, and for input of more than one block, what \<open>zlib_compress\<close> makes of data
  \<open>zlib_decompress\<close> takes back.
\<close>

section \<open>Deflate\<close>

lemma length_stored: "length (stored data) \<le> 2 * length data + 5"
proof (induction data rule: stored.induct)
  case (1 data)
  show ?case
  proof (cases "length data \<le> 65535")
    case True
    then show ?thesis by (cases data) (simp_all add: stored.simps stored_block_def)
  next
    case False
    then have "data \<noteq> []" by auto
    then show ?thesis using 1 False by (subst stored.simps) (simp add: stored_block_def)
  qed
qed

definition deflatable :: "LodePNGCompressSettings \<Rightarrow> bytes \<Rightarrow> bool" where
  "deflatable settings data \<longleftrightarrow> btype settings \<le> 2 \<and> (btype settings = 2 \<or> data \<noteq> []) \<and>
     window_ok settings \<and> length data < 2 ^ 32"

lemma deflatev_inflates:
  assumes "deflatable settings data"
  shows "\<exists>d. lodepng_deflatev junk [] data settings = Some (Inr d) \<and> length d \<le> 2 * length data + 1000 * (length data div 65536 + 1) + 5 \<and>
    (\<forall>ds rest. max_output_size ds = 0 \<longrightarrow> 8 * length (d @ rest) + 64 < 2 ^ 64 \<longrightarrow>
      lodepng_inflatev [] (d @ rest) ds = Some (Inr data))"
proof -
  have s: "btype settings \<le> 2" "btype settings = 2 \<or> data \<noteq> []" "window_ok settings" "length data < 2 ^ 32"
    using assms by (simp_all add: deflatable_def)
  consider "btype settings = 0" | "btype settings = 1" | "btype settings = 2" using s(1) by linarith
  then show ?thesis
  proof cases
    case 1
    then have ne: "data \<noteq> []" using s(2) by simp
    have "length (deflateNoCompression [] data) \<le> 2 * length data + 1000 * (length data div 65536 + 1) + 5"
      using length_stored [of data] by (simp add: deflateNoCompression_stored [OF s(4)])
    then show ?thesis
      using stored_roundtrip [OF ne s(4), of _ _ "[]"] 1
      by (intro exI [of _ "deflateNoCompression [] data"]) (simp add: lodepng_deflatev_def Let_def)
  next
    case 2
    have "(if btype settings = 1 then deflateFixed w h data start stop settings final
      else deflateDynamic w h data start stop settings final) = deflateFixed w h data start stop settings final"
      for w h start stop final using 2 by simp
    from fixed_block.deflatev_written [OF this _ s(3), of junk] s(2) 2 show ?thesis by fastforce
  next
    case 3
    have "(if btype settings = 1 then deflateFixed w h data start stop settings final
      else deflateDynamic w h data start stop settings final) = deflateDynamic w h data start stop settings final"
      for w h start stop final using 3 by simp
    from dynamic_block.deflatev_written [OF this _ s(3), of junk] 3 show ?thesis by fastforce
  qed
qed

section \<open>The container\<close>

lemma zlib_header:
  "(let CMFFLG = 256 * 120 + 0 * 32 + 0 * 64 :: u32; CMFFLG = CMFFLG + (31 - CMFFLG mod 31) in
    [ucast (drop_bit 8 CMFFLG), ucast (CMFFLG AND 255)]) = [120, 1 :: byte]"
  by (simp add: Let_def)

lemma zlib_compress_deflates:
  assumes "custom_zlib_encoder settings = None" "custom_deflate settings = None"
    "lodepng_deflatev junk [] data settings = Some (Inr d)"
  shows "zlib_compress junk data settings =
    Some (Inr ([120, 1] @ d @ lodepng_set32bitInt (adler32 (take (length data mod 2 ^ 32) data))))"
  using assms zlib_header
  by (simp add: zlib_compress_def lodepng_zlib_compress_def deflate_def lodepng_deflate_def Let_def)

lemma zlib_decompress_inflates:
  assumes "custom_zlib settings = None" "custom_inflate settings = None"
    "lodepng_inflatev [] (d @ lodepng_set32bitInt a) settings = Some (Inr data)"
    "a = adler32 (take (length data mod 2 ^ 32) data)"
  shows "zlib_decompress [] ([120, 1] @ d @ lodepng_set32bitInt a) settings = Some (Inr data)"
proof -
  let ?z = "[120, 1] @ d @ lodepng_set32bitInt a"
  have "drop (length ?z - 4) ?z = lodepng_set32bitInt a" by simp
  then have "lodepng_read32bitInt (drop (length ?z - 4) ?z) = a"
    using read32_set32 [of a "[]"] by simp
  moreover have "inflatev [] (drop 2 ?z) settings = Some (Inr data)"
    using assms(2,3) by (simp add: inflatev_def)
  moreover have "2 \<le> length ?z" "?z ! 0 = 120" "?z ! 1 = 1" by simp_all
  moreover have "(120 :: byte) AND 15 = 8" "drop_bit 4 (120 :: byte) AND 15 = 7" "drop_bit 5 (1 :: byte) AND 1 = 0"
    by simp_all
  ultimately have "lodepng_zlib_decompressv [] ?z settings = Some (Inr data)"
    unfolding lodepng_zlib_decompressv_def Let_def using assms(4) by simp
  then show ?thesis using assms(1) by (simp add: zlib_decompress_def)
qed

lemma zlib_back:
  assumes "deflatable settings data" "custom_zlib_encoder settings = None" "custom_deflate settings = None"
  shows "\<exists>z. zlib_compress junk data settings = Some (Inr z) \<and>
    length z \<le> 2 * length data + 1000 * (length data div 65536 + 1) + 11 \<and>
    (\<forall>ds. custom_zlib ds = None \<longrightarrow> custom_inflate ds = None \<longrightarrow> max_output_size ds = 0 \<longrightarrow>
      zlib_decompress [] z ds = Some (Inr data))"
proof -
  obtain d where d: "lodepng_deflatev junk [] data settings = Some (Inr d)" "length d \<le> 2 * length data + 1000 * (length data div 65536 + 1) + 5"
    "\<And>ds rest. max_output_size ds = 0 \<Longrightarrow> 8 * length (d @ rest) + 64 < 2 ^ 64 \<Longrightarrow>
      lodepng_inflatev [] (d @ rest) ds = Some (Inr data)"
    using deflatev_inflates [OF assms(1), of junk] by blast
  define a where "a = adler32 (take (length data mod 2 ^ 32) data)"
  have "length data < 2 ^ 32" using assms(1) by (simp add: deflatable_def)
  then have "8 * length (d @ lodepng_set32bitInt a) + 64 < 2 ^ 64" using d(2) by simp
  then have "zlib_decompress [] ([120, 1] @ d @ lodepng_set32bitInt a) ds = Some (Inr data)"
    if "custom_zlib ds = None" "custom_inflate ds = None" "max_output_size ds = 0" for ds
    using zlib_decompress_inflates [OF that(1,2) d(3) [OF that(3)] a_def] by blast
  then show ?thesis using zlib_compress_deflates [OF assms(2,3) d(1)] d(2) by (simp add: a_def)
qed

text \<open>C30: 
  Compressing data and decompressing the result gives the data: for stored blocks, blocks with the
  fixed trees and blocks with trees of their own, with LZ77 or without, whatever the hash table held
  before. Stored and fixed blocks need data that is not empty.
\<close>

theorem zlib_roundtrip:
  assumes "deflatable settings data" "custom_zlib_encoder settings = None" "custom_deflate settings = None"
    "custom_zlib ds = None" "custom_inflate ds = None" "max_output_size ds = 0"
  shows "\<exists>z. zlib_compress junk data settings = Some (Inr z) \<and> zlib_decompress [] z ds = Some (Inr data)"
  using zlib_back [OF assms(1-3)] assms(4-6) by blast

lemma zlib_roundtrip_witness:
  "\<exists>z. zlib_compress (\<lambda>i. i) [7, 0, 0, 0, 7, 0, 0, 0, 9] lodepng_compress_settings_init = Some (Inr z) \<and>
     zlib_decompress [] z lodepng_decompress_settings_init = Some (Inr [7, 0, 0, 0, 7, 0, 0, 0, 9])"
  by (rule zlib_roundtrip)
    (simp_all add: deflatable_def window_ok_def lodepng_compress_settings_init_def lodepng_decompress_settings_init_def)

text \<open>
  A fixed block of no data is a division by zero: the size of its only block is zero, and the number
  of blocks is computed before it is corrected to one.
\<close>

theorem fixed_empty_divides_by_zero:
  "lodepng_deflatev junk out [] (lodepng_compress_settings_init\<lparr>btype := 1\<rparr>) = None"
  by (simp add: lodepng_deflatev_def lodepng_compress_settings_init_def)

end
