(* ===== verification/Png_Chunk.thy ===== *)
theory Png_Chunk
  imports Png_Checksum
begin

unbundle bit_operations_syntax

text \<open>
  PNG chunks in \<open>lodepng.cpp\<close>: length, type, data and CRC. A pointer into a PNG file is the offset
  of the byte it points to, as a \<open>nat\<close> below \<open>2 ^ 64\<close>; lengths are \<open>unsigned\<close> and the code adds 8 and 4
  to them in \<open>unsigned\<close> arithmetic. The memory that \<open>lodepng_chunk_init\<close> allocates and does not set
  comes from the parameter \<open>junk\<close>. The lemmas show that a chunk that was created reads back, passes
  the CRC check, and is found by walking over the chunks before it.
\<close>

section \<open>Reading a chunk\<close>

definition lodepng_chunk_length :: "bytes \<Rightarrow> nat \<Rightarrow> u32" where
  "lodepng_chunk_length buf chunk = lodepng_read32bitInt (drop chunk buf)"

definition lodepng_chunk_type :: "bytes \<Rightarrow> nat \<Rightarrow> bytes" where
  "lodepng_chunk_type buf chunk = map (\<lambda>i. buf ! (chunk + 4 + i)) [0 ..< 4] @ [0]"

text \<open>The name to compare with is a string without its terminator.\<close>

definition lodepng_chunk_type_equals :: "bytes \<Rightarrow> nat \<Rightarrow> bytes \<Rightarrow> bool" where
  "lodepng_chunk_type_equals buf chunk type =
     (if length type \<noteq> 4 then False
      else buf ! (chunk + 4) = type ! 0 \<and> buf ! (chunk + 5) = type ! 1 \<and>
           buf ! (chunk + 6) = type ! 2 \<and> buf ! (chunk + 7) = type ! 3)"

definition lodepng_chunk_ancillary :: "bytes \<Rightarrow> nat \<Rightarrow> bool" where
  "lodepng_chunk_ancillary buf chunk \<longleftrightarrow> buf ! (chunk + 4) AND 32 \<noteq> 0"

definition lodepng_chunk_private :: "bytes \<Rightarrow> nat \<Rightarrow> bool" where
  "lodepng_chunk_private buf chunk \<longleftrightarrow> buf ! (chunk + 6) AND 32 \<noteq> 0"

definition lodepng_chunk_safetocopy :: "bytes \<Rightarrow> nat \<Rightarrow> bool" where
  "lodepng_chunk_safetocopy buf chunk \<longleftrightarrow> buf ! (chunk + 7) AND 32 \<noteq> 0"

definition lodepng_chunk_data :: "nat \<Rightarrow> nat" where
  "lodepng_chunk_data chunk = chunk + 8"

definition lodepng_chunk_check_crc :: "bytes \<Rightarrow> nat \<Rightarrow> bool" where
  "lodepng_chunk_check_crc buf chunk =
     (let len = lodepng_chunk_length buf chunk;
          CRC = lodepng_read32bitInt (drop (chunk + unat (len + 8)) buf);
          checksum = lodepng_crc32 (take (unat (len + 4)) (drop (chunk + 4) buf)) in
      CRC \<noteq> checksum)"

definition put_bytes :: "nat \<Rightarrow> bytes \<Rightarrow> bytes \<Rightarrow> bytes" where
  "put_bytes off src buf = take off buf @ src @ drop (off + length src) buf"

definition lodepng_chunk_generate_crc :: "bytes \<Rightarrow> nat \<Rightarrow> bytes" where
  "lodepng_chunk_generate_crc buf chunk =
     (let len = lodepng_chunk_length buf chunk;
          CRC = lodepng_crc32 (take (unat (len + 4)) (drop (chunk + 4) buf)) in
      put_bytes (chunk + 8 + unat len) (lodepng_set32bitInt CRC) buf)"

section \<open>Walking over chunks\<close>

definition png_magic :: bytes where
  "png_magic = [0x89, 0x50, 0x4e, 0x47, 0x0d, 0x0a, 0x1a, 0x0a]"

definition lodepng_chunk_next :: "bytes \<Rightarrow> nat \<Rightarrow> nat \<Rightarrow> nat" where
  "lodepng_chunk_next buf chunk chunk_end =
     (if chunk \<ge> chunk_end \<or> chunk_end - chunk < 12 then chunk_end
      else if take 8 (drop chunk buf) = png_magic then chunk + 8
      else
        (case lodepng_addofl (ucast (lodepng_chunk_length buf chunk)) 12 of
           (ofl, total_chunk_length) \<Rightarrow>
             if ofl then chunk_end
             else
               (let result = size_add chunk (unat total_chunk_length) in
                if result < chunk then chunk_end else result)))"

text \<open>The search ends because every step moves forward.\<close>

lemma unat_chunk_total:
  "\<not> fst (lodepng_addofl (ucast (len :: u32)) 12)"
  "unat (snd (lodepng_addofl (ucast (len :: u32)) 12)) = unat len + 12"
proof -
  have len: "unat len < 2 ^ LENGTH(32)" by (rule unsigned_less)
  then have "unat len < 2 ^ 64" by simp
  then have l: "unat (ucast len :: u64) = unat len"
    by (simp add: unsigned_ucast_eq take_bit_nat_eq_self)
  show n: "\<not> fst (lodepng_addofl (ucast len) 12)" using len by (simp add: lodepng_addofl_iff l)
  from lodepng_addofl_ok [OF n]
  show "unat (snd (lodepng_addofl (ucast (len :: u32)) 12)) = unat len + 12" by (simp add: l)
qed

lemma lodepng_chunk_next_less:
  "chunk < chunk_end \<Longrightarrow> chunk_end - chunk \<ge> 12 \<Longrightarrow> chunk_end < 2 ^ 64 \<Longrightarrow>
    chunk < lodepng_chunk_next buf chunk chunk_end"
proof -
  assume c: "chunk < chunk_end" "chunk_end - chunk \<ge> 12" "chunk_end < 2 ^ 64"
  let ?len = "lodepng_chunk_length buf chunk"
  have "unat ?len < 2 ^ LENGTH(32)" by (rule unsigned_less)
  then have "size_add chunk (unat ?len + 12) \<noteq> chunk"
    using c by (auto simp: size_add_def mod_if split: if_splits)
  then show ?thesis
    using c by (auto simp: lodepng_chunk_next_def split_beta Let_def unat_chunk_total)
qed

text \<open>The outer \<open>None\<close> is a search that never ends, the inner one the null pointer.\<close>

partial_function (option) lodepng_chunk_find ::
  "bytes \<Rightarrow> nat \<Rightarrow> nat \<Rightarrow> bytes \<Rightarrow> nat option option" where
  "lodepng_chunk_find buf chunk chunk_end type =
     (if chunk \<ge> chunk_end \<or> chunk_end - chunk < 12 then Some None
      else if lodepng_chunk_type_equals buf chunk type then Some (Some chunk)
      else lodepng_chunk_find buf (lodepng_chunk_next buf chunk chunk_end) chunk_end type)"

text \<open>The code of the \<open>const\<close> versions is the same.\<close>

definition lodepng_chunk_next_const :: "bytes \<Rightarrow> nat \<Rightarrow> nat \<Rightarrow> nat" where
  "lodepng_chunk_next_const = lodepng_chunk_next"

definition lodepng_chunk_find_const :: "bytes \<Rightarrow> nat \<Rightarrow> nat \<Rightarrow> bytes \<Rightarrow> nat option option" where
  "lodepng_chunk_find_const = lodepng_chunk_find"

lemma lodepng_chunk_find_returns:
  assumes "chunk_end < 2 ^ 64"
  shows "\<exists>y. lodepng_chunk_find buf chunk chunk_end type = Some y"
proof (induction "chunk_end - chunk" arbitrary: chunk rule: less_induct)
  case less
  show ?case
  proof (cases "chunk \<ge> chunk_end \<or> chunk_end - chunk < 12")
    case True
    then show ?thesis by (subst lodepng_chunk_find.simps) auto
  next
    case False
    then have "chunk < lodepng_chunk_next buf chunk chunk_end"
      using assms by (intro lodepng_chunk_next_less) auto
    then have "chunk_end - lodepng_chunk_next buf chunk chunk_end < chunk_end - chunk"
      using False by (intro diff_less_mono2) auto
    from less [OF this] show ?thesis by (subst lodepng_chunk_find.simps) auto
  qed
qed

section \<open>Writing chunks\<close>

text \<open>
  Appending a chunk to a file: the loop that copies the bytes counts with an \<open>unsigned\<close>, so it never
  ends for a chunk of \<open>2 ^ 32\<close> bytes and more, which the length field can announce (\<open>None\<close>).
\<close>

definition lodepng_chunk_append :: "bytes \<Rightarrow> bytes \<Rightarrow> nat \<Rightarrow> bytes png option" where
  "lodepng_chunk_append out buf chunk =
     (case lodepng_addofl (ucast (lodepng_chunk_length buf chunk)) 12 of
        (ofl1, total_chunk_length) \<Rightarrow>
          if ofl1 then Some (Inl 77)
          else if fst (lodepng_addofl (word_of_nat (length out)) total_chunk_length) then Some (Inl 77)
          else if unat total_chunk_length \<ge> 2 ^ 32 then None
          else Some (Inr (out @ take (unat total_chunk_length) (drop chunk buf))))"

text \<open>Where the chunk starts, and the buffer with room for its data and CRC.\<close>

definition lodepng_chunk_init ::
  "(nat \<Rightarrow> byte) \<Rightarrow> bytes \<Rightarrow> u32 \<Rightarrow> bytes \<Rightarrow> (nat \<times> bytes) png" where
  "lodepng_chunk_init junk out len type =
     (case lodepng_addofl (word_of_nat (length out)) (ucast len) of (ofl1, new_length) \<Rightarrow>
        if ofl1 then Inl 77
        else
          (case lodepng_addofl new_length 12 of (ofl2, new_length) \<Rightarrow>
             if ofl2 then Inl 77
             else
               (let buf = out @ map junk [length out ..< unat new_length];
                    chunk = unat new_length - unat len - 12;
                    buf = put_bytes chunk (lodepng_set32bitInt len) buf;
                    buf = put_bytes (chunk + 4) (take 4 type) buf in
                Inr (chunk, buf))))"

definition lodepng_chunk_createv ::
  "(nat \<Rightarrow> byte) \<Rightarrow> bytes \<Rightarrow> u32 \<Rightarrow> bytes \<Rightarrow> bytes \<Rightarrow> bytes png" where
  "lodepng_chunk_createv junk out len type data =
     (case lodepng_chunk_init junk out len type of
        Inl e \<Rightarrow> Inl e
      | Inr (chunk, buf) \<Rightarrow>
          (let buf = put_bytes (chunk + 8) (take (unat len) data) buf in
           Inr (lodepng_chunk_generate_crc buf chunk)))"

text \<open>The bytes of a chunk.\<close>

definition chunk_bytes :: "bytes \<Rightarrow> bytes \<Rightarrow> bytes" where
  "chunk_bytes type data =
     lodepng_set32bitInt (word_of_nat (length data)) @ type @ data @
       lodepng_set32bitInt (lodepng_crc32 (type @ data))"

text \<open>What a caller has to provide: a name of four letters and data within the limit of PNG.\<close>

definition chunk_ok :: "bytes \<Rightarrow> bytes \<Rightarrow> bool" where
  "chunk_ok type data \<longleftrightarrow> length type = 4 \<and> length data < 2 ^ 31"

lemma length_chunk_bytes: "chunk_ok type data \<Longrightarrow> length (chunk_bytes type data) = length data + 12"
  by (simp add: chunk_bytes_def chunk_ok_def)

lemma put_bytes_append:
  "length xs = off \<Longrightarrow> length ys = length src \<Longrightarrow> put_bytes off src (xs @ ys @ zs) = xs @ src @ zs"
  by (simp add: put_bytes_def)

lemma split_junk:
  assumes "length js = n + 12"
  obtains a b c d where "js = a @ b @ c @ d" "length a = 4" "length b = 4" "length c = n" "length d = 4"
proof -
  have "js = take 4 js @ take 4 (drop 4 js) @ take n (drop 8 js) @ drop (n + 8) js"
    by (metis append_take_drop_id drop_drop numeral_Bit0)
  then show thesis by (rule that) (simp_all add: assms)
qed

lemma createv_chunk_bytes:
  assumes ok: "chunk_ok type data" and len: "len = word_of_nat (length data)"
    and room: "length out + length data + 12 < 2 ^ 64"
  shows "lodepng_chunk_createv junk out len type data = Inr (out @ chunk_bytes type data)"
proof -
  let ?n = "length data" and ?o = "length out"
  have t4: "length type = 4" and n: "?n < 2 ^ 31" using ok by (simp_all add: chunk_ok_def)
  have ul: "unat len = ?n" using n by (simp add: len unat_of_nat)
  have ul64: "unat (ucast len :: u64) = ?n"
    using n by (simp add: unsigned_ucast_eq ul take_bit_nat_eq_self)
  have uo: "unat (word_of_nat ?o :: u64) = ?o" using room by (simp add: unat_of_nat)
  let ?a = "lodepng_addofl (word_of_nat ?o) (ucast len)"
  have a: "\<not> fst ?a" using room by (simp add: lodepng_addofl_iff uo ul64)
  have a': "unat (snd ?a) = ?o + ?n" using lodepng_addofl_ok [OF a] by (simp add: uo ul64)
  have b: "\<not> fst (lodepng_addofl (snd ?a) 12)" using room by (simp add: lodepng_addofl_iff a')
  have b': "unat (snd (lodepng_addofl (snd ?a) 12)) = ?o + ?n + 12"
    using lodepng_addofl_ok [OF b] by (simp add: a')
  define js where "js = map junk [?o ..< ?o + ?n + 12]"
  have "length js = ?n + 12" by (simp add: js_def)
  then obtain a b c d where j: "js = a @ b @ c @ d"
    "length a = 4" "length b = 4" "length c = ?n" "length d = 4" by (rule split_junk)
  let ?L = "lodepng_set32bitInt len" and ?C = "lodepng_set32bitInt (lodepng_crc32 (type @ data))"
  have p1: "put_bytes ?o ?L (out @ js) = out @ ?L @ b @ c @ d"
    unfolding j(1) by (rule put_bytes_append) (simp_all add: j)
  have p2: "put_bytes (?o + 4) type (out @ ?L @ b @ c @ d) = out @ ?L @ type @ c @ d"
    using put_bytes_append [of "out @ ?L" "?o + 4" b type "c @ d"] by (simp add: j t4)
  have p3: "put_bytes (?o + 8) data (out @ ?L @ type @ c @ d) = out @ ?L @ type @ data @ d"
    using put_bytes_append [of "out @ ?L @ type" "?o + 8" c data d] by (simp add: j t4)
  have p4: "put_bytes (?o + 8 + ?n) ?C (out @ ?L @ type @ data @ d) = out @ ?L @ type @ data @ ?C"
    using put_bytes_append [of "out @ ?L @ type @ data" "?o + 8 + ?n" d ?C "[]"] by (simp add: j t4)
  have init: "lodepng_chunk_init junk out len type = Inr (?o, out @ ?L @ type @ c @ d)"
    using a b t4
    by (simp add: lodepng_chunk_init_def split_beta Let_def b' ul p1 p2 flip: js_def)
  have l4: "unat (len + 4) = ?n + 4"
    using n by (simp add: unat_word_ariths ul)
  have "lodepng_chunk_length (out @ ?L @ type @ data @ d) ?o = len"
    by (simp add: lodepng_chunk_length_def)
  then have "lodepng_chunk_generate_crc (out @ ?L @ type @ data @ d) ?o =
      out @ ?L @ type @ data @ ?C"
    by (simp add: lodepng_chunk_generate_crc_def l4 ul t4 p4)
  then show ?thesis
    by (simp add: lodepng_chunk_createv_def init Let_def ul p3) (simp add: chunk_bytes_def len)
qed

section \<open>Reading back what was written\<close>

lemma chunk_length_at:
  "lodepng_chunk_length (pre @ chunk_bytes type data @ rest) (length pre) = word_of_nat (length data)"
  by (simp add: lodepng_chunk_length_def chunk_bytes_def)

lemma chunk_check_crc_at:
  assumes "chunk_ok type data"
  shows "\<not> lodepng_chunk_check_crc (pre @ chunk_bytes type data @ rest) (length pre)"
proof -
  let ?n = "length data" and ?len = "word_of_nat (length data) :: u32"
  have n: "?n < 2 ^ 31" "length type = 4" using assms by (simp_all add: chunk_ok_def)
  have "unat ?len = ?n" using n by (simp add: unat_of_nat)
  then have "unat (?len + 4) = ?n + 4" "unat (?len + 8) = ?n + 8"
    using n by (simp_all add: unat_word_ariths)
  then show ?thesis
    by (simp add: lodepng_chunk_check_crc_def Let_def chunk_length_at)
      (simp add: chunk_bytes_def n)
qed

lemma chunk_type_equals_at:
  assumes "chunk_ok type data" "length type' = 4"
  shows "lodepng_chunk_type_equals (pre @ chunk_bytes type data @ rest) (length pre) type' \<longleftrightarrow>
    type = type'"
proof -
  have "length type = 4" using assms by (simp add: chunk_ok_def)
  moreover have "(pre @ chunk_bytes type data @ rest) ! (length pre + (4 + i)) = type ! i" if "i < 4" for i
    using that \<open>length type = 4\<close> by (simp add: nth_append chunk_bytes_def)
  from this [of 0] this [of 1] this [of 2] this [of 3]
  have "lodepng_chunk_type_equals (pre @ chunk_bytes type data @ rest) (length pre) type' \<longleftrightarrow>
      type ! 0 = type' ! 0 \<and> type ! 1 = type' ! 1 \<and> type ! 2 = type' ! 2 \<and> type ! 3 = type' ! 3"
    by (simp add: lodepng_chunk_type_equals_def assms(2))
  moreover have "type = type' \<longleftrightarrow> (\<forall>i < 4. type ! i = type' ! i)"
    using calculation(1) assms(2) by (simp add: list_eq_iff_nth_eq)
  ultimately show ?thesis by (auto simp: numeral_eq_Suc less_Suc_eq)
qed

lemma chunk_next_at:
  assumes ok: "chunk_ok type data" and e: "chunk_end = length (pre @ chunk_bytes type data @ rest)"
    and "chunk_end < 2 ^ 64"
  shows "lodepng_chunk_next (pre @ chunk_bytes type data @ rest) (length pre) chunk_end =
    length (pre @ chunk_bytes type data)"
proof -
  let ?buf = "pre @ chunk_bytes type data @ rest" and ?n = "length data"
  have n: "?n < 2 ^ 31" "length type = 4" using ok by (simp_all add: chunk_ok_def)
  have u: "unat (word_of_nat ?n :: u32) = ?n" using n by (simp add: unat_of_nat)
  have "lodepng_read32bitInt (take 8 (drop (length pre) ?buf)) = word_of_nat ?n"
    by (simp add: chunk_bytes_def n)
  moreover have "lodepng_read32bitInt png_magic = 0x89504e47"
    by (simp add: lodepng_read32bitInt_def png_magic_def)
  moreover have "(word_of_nat ?n :: u32) \<noteq> 0x89504e47"
    using n u by (auto dest: arg_cong [where f = unat])
  ultimately have m: "take 8 (drop (length pre) ?buf) \<noteq> png_magic" by metis
  show ?thesis
    using m e assms(3) length_chunk_bytes [OF ok]
    by (simp add: lodepng_chunk_next_def split_beta Let_def chunk_length_at unat_chunk_total u
        size_add_eq del: append_assoc)
qed

lemma created_chunk_reads_back:
  assumes "chunk_ok type data" "lodepng_chunk_createv junk out (word_of_nat (length data)) type data = Inr buf"
    "length out + length data + 12 < 2 ^ 64"
  shows "lodepng_chunk_length buf (length out) = word_of_nat (length data)"
    "take (length data) (drop (length out + 8) buf) = data"
    "\<not> lodepng_chunk_check_crc buf (length out)"
    "lodepng_chunk_next buf (length out) (length buf) = length buf"
proof -
  have buf: "buf = out @ chunk_bytes type data @ []"
    using assms(2) createv_chunk_bytes [OF assms(1) refl assms(3), of junk] by simp
  show "lodepng_chunk_length buf (length out) = word_of_nat (length data)"
    unfolding buf by (rule chunk_length_at)
  show "\<not> lodepng_chunk_check_crc buf (length out)"
    unfolding buf by (rule chunk_check_crc_at [OF assms(1)])
  show "take (length data) (drop (length out + 8) buf) = data"
    using assms(1) by (simp add: buf chunk_bytes_def chunk_ok_def)
  show "lodepng_chunk_next buf (length out) (length buf) = length buf"
    using chunk_next_at [OF assms(1), of "length buf" out "[]"] assms(3) length_chunk_bytes [OF assms(1)]
    by (simp add: buf)
qed

text \<open>A file of chunks, and where the first one of a type starts.\<close>

definition chunks_bytes :: "(bytes \<times> bytes) list \<Rightarrow> bytes" where
  "chunks_bytes cs = concat (map (\<lambda>(type, data). chunk_bytes type data) cs)"

fun chunk_offset :: "nat \<Rightarrow> (bytes \<times> bytes) list \<Rightarrow> bytes \<Rightarrow> nat option" where
  "chunk_offset off [] type' = None"
| "chunk_offset off ((type, data) # cs) type' =
     (if type = type' then Some off else chunk_offset (off + length data + 12) cs type')"

text \<open>
  In a stream of created chunks the search, started at a chunk, returns, and finds the first chunk
  of the wanted type, at its offset, or nothing when there is none.
\<close>

theorem chunk_find_first:
  assumes "\<forall>(type, data) \<in> set cs. chunk_ok type data" "length type' = 4"
    and "length (pre @ chunks_bytes cs) < 2 ^ 64"
  shows "lodepng_chunk_find (pre @ chunks_bytes cs) (length pre) (length (pre @ chunks_bytes cs)) type' =
    Some (chunk_offset (length pre) cs type')"
  using assms
proof (induction cs arbitrary: pre)
  case Nil
  then show ?case by (simp add: lodepng_chunk_find.simps chunks_bytes_def)
next
  case (Cons c cs)
  obtain type data where c: "c = (type, data)" by fastforce
  then have ok: "chunk_ok type data" using Cons.prems(1) by auto
  have b: "pre @ chunks_bytes (c # cs) = pre @ chunk_bytes type data @ chunks_bytes cs"
    by (simp add: chunks_bytes_def c)
  let ?buf = "pre @ chunk_bytes type data @ chunks_bytes cs"
  have l: "length (chunk_bytes type data) = length data + 12" by (rule length_chunk_bytes [OF ok])
  have nxt: "lodepng_chunk_next ?buf (length pre) (length ?buf) = length (pre @ chunk_bytes type data)"
    by (rule chunk_next_at [OF ok refl]) (use Cons.prems(3) b in simp)
  have "lodepng_chunk_find ((pre @ chunk_bytes type data) @ chunks_bytes cs)
      (length (pre @ chunk_bytes type data))
      (length ((pre @ chunk_bytes type data) @ chunks_bytes cs)) type' =
    Some (chunk_offset (length (pre @ chunk_bytes type data)) cs type')"
    using Cons.prems b by (intro Cons.IH) auto
  then have rec: "lodepng_chunk_find ?buf (length (pre @ chunk_bytes type data)) (length ?buf) type' =
    Some (chunk_offset (length pre + length data + 12) cs type')"
    by (simp add: l add.assoc)
  have step: "lodepng_chunk_find ?buf (length pre) (length ?buf) type' =
      (if type = type' then Some (Some (length pre))
       else lodepng_chunk_find ?buf (length (pre @ chunk_bytes type data)) (length ?buf) type')"
    by (subst lodepng_chunk_find.simps)
      (simp only: nxt chunk_type_equals_at [OF ok Cons.prems(2)], simp add: l)
  show ?case unfolding b step rec by (simp add: c)
qed

lemma chunk_find_first_witness:
  "lodepng_chunk_find ([7] @ chunks_bytes [([73, 72, 68, 82], [1, 2]), ([73, 69, 78, 68], [])]) 1
     (length ([7] @ chunks_bytes [([73, 72, 68, 82], [1, 2]), ([73, 69, 78, 68], [])])) [73, 69, 78, 68] =
   Some (Some 15)"
proof -
  have "length ([7] @ chunks_bytes [([73, 72, 68, 82], [1, 2]), ([73, 69, 78, 68], [])]) = 27"
    by (simp add: chunks_bytes_def chunk_bytes_def)
  then show ?thesis
    using chunk_find_first [of "[([73, 72, 68, 82], [1, 2]), ([73, 69, 78, 68], [])]"
        "[73, 69, 78, 68]" "[7]"]
    by (simp add: chunk_ok_def)
qed

end
