(* ===== verification/Png_Color.thy ===== *)
theory Png_Color
  imports Png_Base
begin

unbundle bit_operations_syntax

text \<open>
  Colour types and modes of \<open>lodepng.cpp\<close>: which bit depths a colour type has, bits per pixel, the
  palette, and the sizes of images, with the check that these sizes fit into \<open>size_t\<close>. A colour type
  is the enumeration's value, since the decoder stores any byte of a file there. The palette is
  \<open>None\<close> or has 1024 bytes; \<open>junk\<close> gives the bytes that \<open>malloc\<close> leaves unset.
\<close>

type_synonym LodePNGColorType = nat

abbreviation (input) LCT_GREY :: LodePNGColorType where "LCT_GREY \<equiv> 0"
abbreviation (input) LCT_RGB :: LodePNGColorType where "LCT_RGB \<equiv> 2"
abbreviation (input) LCT_PALETTE :: LodePNGColorType where "LCT_PALETTE \<equiv> 3"
abbreviation (input) LCT_GREY_ALPHA :: LodePNGColorType where "LCT_GREY_ALPHA \<equiv> 4"
abbreviation (input) LCT_RGBA :: LodePNGColorType where "LCT_RGBA \<equiv> 6"

definition checkColorValidity :: "LodePNGColorType \<Rightarrow> nat \<Rightarrow> nat" where
  "checkColorValidity colortype bd =
     (if colortype = LCT_GREY then
        (if \<not> (bd = 1 \<or> bd = 2 \<or> bd = 4 \<or> bd = 8 \<or> bd = 16) then 37 else 0)
      else if colortype = LCT_RGB then (if \<not> (bd = 8 \<or> bd = 16) then 37 else 0)
      else if colortype = LCT_PALETTE then
        (if \<not> (bd = 1 \<or> bd = 2 \<or> bd = 4 \<or> bd = 8) then 37 else 0)
      else if colortype = LCT_GREY_ALPHA then (if \<not> (bd = 8 \<or> bd = 16) then 37 else 0)
      else if colortype = LCT_RGBA then (if \<not> (bd = 8 \<or> bd = 16) then 37 else 0)
      else 31)"

definition getNumColorChannels :: "LodePNGColorType \<Rightarrow> nat" where
  "getNumColorChannels colortype =
     (if colortype = LCT_GREY then 1
      else if colortype = LCT_RGB then 3
      else if colortype = LCT_PALETTE then 1
      else if colortype = LCT_GREY_ALPHA then 2
      else if colortype = LCT_RGBA then 4
      else 0)"

definition lodepng_get_bpp_lct :: "LodePNGColorType \<Rightarrow> nat \<Rightarrow> nat" where
  "lodepng_get_bpp_lct colortype bitdepth = getNumColorChannels colortype * bitdepth"

section \<open>Colour modes\<close>

record LodePNGColorMode =
  colortype :: LodePNGColorType
  bitdepth :: nat
  palette :: "bytes option"
  palettesize :: nat
  key_defined :: bool
  key_r :: u32
  key_g :: u32
  key_b :: u32

definition lodepng_color_mode_init :: LodePNGColorMode where
  "lodepng_color_mode_init =
     \<lparr>colortype = LCT_RGBA, bitdepth = 8, palette = None, palettesize = 0, key_defined = False,
      key_r = 0, key_g = 0, key_b = 0\<rparr>"

definition lodepng_color_mode_alloc_palette :: "LodePNGColorMode \<Rightarrow> LodePNGColorMode" where
  "lodepng_color_mode_alloc_palette info =
     info\<lparr>palette := Some (concat (map (\<lambda>i. [0, 0, 0, 255]) [0 ..< 256]))\<rparr>"

definition lodepng_palette_clear :: "LodePNGColorMode \<Rightarrow> LodePNGColorMode" where
  "lodepng_palette_clear info = info\<lparr>palette := None, palettesize := 0\<rparr>"

definition lodepng_color_mode_cleanup :: "LodePNGColorMode \<Rightarrow> LodePNGColorMode" where
  "lodepng_color_mode_cleanup info = lodepng_palette_clear info"

text \<open>The destination is freed first; a copy has room for 256 colours, of which it sets the used ones.\<close>

definition lodepng_color_mode_copy ::
  "(nat \<Rightarrow> byte) \<Rightarrow> LodePNGColorMode \<Rightarrow> LodePNGColorMode \<Rightarrow> LodePNGColorMode" where
  "lodepng_color_mode_copy junk dest source =
     (let dest = lodepng_color_mode_cleanup dest; dest = source in
      case palette source of
        None \<Rightarrow> dest
      | Some p \<Rightarrow>
          dest\<lparr>palette := Some (take (palettesize source * 4) p @
                 map junk [palettesize source * 4 ..< 1024])\<rparr>)"

definition lodepng_color_mode_make :: "LodePNGColorType \<Rightarrow> nat \<Rightarrow> LodePNGColorMode" where
  "lodepng_color_mode_make ct bd = lodepng_color_mode_init\<lparr>colortype := ct, bitdepth := bd\<rparr>"

definition palette_bytes :: "LodePNGColorMode \<Rightarrow> bytes" where
  "palette_bytes info = (case palette info of None \<Rightarrow> [] | Some p \<Rightarrow> p)"

definition lodepng_color_mode_equal :: "LodePNGColorMode \<Rightarrow> LodePNGColorMode \<Rightarrow> bool" where
  "lodepng_color_mode_equal a b =
     (if colortype a \<noteq> colortype b then False
      else if bitdepth a \<noteq> bitdepth b then False
      else if key_defined a \<noteq> key_defined b then False
      else if key_defined a \<and> key_r a \<noteq> key_r b then False
      else if key_defined a \<and> key_g a \<noteq> key_g b then False
      else if key_defined a \<and> key_b a \<noteq> key_b b then False
      else if palettesize a \<noteq> palettesize b then False
      else list_all (\<lambda>i. palette_bytes a ! i = palette_bytes b ! i) [0 ..< palettesize a * 4])"

definition lodepng_palette_add ::
  "LodePNGColorMode \<Rightarrow> byte \<Rightarrow> byte \<Rightarrow> byte \<Rightarrow> byte \<Rightarrow> nat \<times> LodePNGColorMode" where
  "lodepng_palette_add info r g b a =
     (let info = (if palette info = None then lodepng_color_mode_alloc_palette info else info) in
      if palettesize info \<ge> 256 then (108, info)
      else
        (let n = 4 * palettesize info in
         (0, info\<lparr>palette := Some ((palette_bytes info)[n := r, n + 1 := g, n + 2 := b, n + 3 := a]),
                palettesize := palettesize info + 1\<rparr>)))"

definition lodepng_get_bpp :: "LodePNGColorMode \<Rightarrow> nat" where
  "lodepng_get_bpp info = lodepng_get_bpp_lct (colortype info) (bitdepth info)"

definition lodepng_get_channels :: "LodePNGColorMode \<Rightarrow> nat" where
  "lodepng_get_channels info = getNumColorChannels (colortype info)"

definition lodepng_is_greyscale_type :: "LodePNGColorMode \<Rightarrow> bool" where
  "lodepng_is_greyscale_type info \<longleftrightarrow> colortype info = LCT_GREY \<or> colortype info = LCT_GREY_ALPHA"

definition lodepng_is_alpha_type :: "LodePNGColorMode \<Rightarrow> bool" where
  "lodepng_is_alpha_type info \<longleftrightarrow> colortype info AND 4 \<noteq> 0"

definition lodepng_is_palette_type :: "LodePNGColorMode \<Rightarrow> bool" where
  "lodepng_is_palette_type info \<longleftrightarrow> colortype info = LCT_PALETTE"

definition lodepng_has_palette_alpha :: "LodePNGColorMode \<Rightarrow> bool" where
  "lodepng_has_palette_alpha info =
     list_ex (\<lambda>i. palette_bytes info ! (i * 4 + 3) < 255) [0 ..< palettesize info]"

definition lodepng_can_have_alpha :: "LodePNGColorMode \<Rightarrow> bool" where
  "lodepng_can_have_alpha info \<longleftrightarrow>
     key_defined info \<or> lodepng_is_alpha_type info \<or> lodepng_has_palette_alpha info"

section \<open>Sizes\<close>

definition lodepng_get_raw_size_lct :: "nat \<Rightarrow> nat \<Rightarrow> LodePNGColorType \<Rightarrow> nat \<Rightarrow> nat" where
  "lodepng_get_raw_size_lct w h ct bd =
     (let bpp = lodepng_get_bpp_lct ct bd; n = w * h in
      (n div 8) * bpp + ((n mod 8) * bpp + 7) div 8)"

definition lodepng_get_raw_size :: "nat \<Rightarrow> nat \<Rightarrow> LodePNGColorMode \<Rightarrow> nat" where
  "lodepng_get_raw_size w h color = lodepng_get_raw_size_lct w h (colortype color) (bitdepth color)"

definition lodepng_get_raw_size_idat :: "nat \<Rightarrow> nat \<Rightarrow> nat \<Rightarrow> nat" where
  "lodepng_get_raw_size_idat w h bpp =
     (let line = (w div 8) * bpp + 1 + ((w mod 8) * bpp + 7) div 8 in h * line)"

definition lodepng_pixel_overflow :: "u32 \<Rightarrow> u32 \<Rightarrow> LodePNGColorMode \<Rightarrow> LodePNGColorMode \<Rightarrow> bool" where
  "lodepng_pixel_overflow w h pngcolor rawcolor =
     (let bpp = max (lodepng_get_bpp pngcolor) (lodepng_get_bpp rawcolor);
          (o1, numpixels) = lodepng_mulofl (ucast w) (ucast h) in
      if o1 then True
      else if fst (lodepng_mulofl numpixels 8) then True
      else
        (case lodepng_mulofl (ucast (w div 8)) (word_of_nat bpp) of (o2, line) \<Rightarrow>
          if o2 then True
          else
            (case lodepng_addofl line (word_of_nat ((unat (w AND 7) * bpp + 7) div 8)) of (o3, line) \<Rightarrow>
              if o3 then True
              else
                (case lodepng_addofl line 5 of (o4, line) \<Rightarrow>
                  if o4 then True else fst (lodepng_mulofl line (ucast h))))))"

section \<open>What the functions guarantee\<close>

text \<open>A mode that passes the check has at least one and at most 64 bits per pixel.\<close>

lemma valid_color_bpp:
  assumes "checkColorValidity ct bd = 0"
  shows "1 \<le> lodepng_get_bpp_lct ct bd" "lodepng_get_bpp_lct ct bd \<le> 64"
  using assms
  by (auto simp: checkColorValidity_def lodepng_get_bpp_lct_def getNumColorChannels_def split: if_splits)

lemma raw_size_lct_bits:
  "lodepng_get_raw_size_lct w h ct bd = (w * h * lodepng_get_bpp_lct ct bd + 7) div 8"
proof -
  define q r bpp where "q = (w * h) div 8" and "r = (w * h) mod 8" and "bpp = lodepng_get_bpp_lct ct bd"
  have n: "w * h = q * 8 + r" by (simp add: q_def r_def)
  have "w * h * bpp + 7 = (r * bpp + 7) + (q * bpp) * 8" unfolding n by (simp add: algebra_simps)
  then have "(w * h * bpp + 7) div 8 = q * bpp + (r * bpp + 7) div 8" by (simp only: div_mult_self1)
  then show ?thesis by (simp add: lodepng_get_raw_size_lct_def q_def r_def bpp_def Let_def)
qed

text \<open>As the comment in the code says, without the overflow.\<close>

lemma raw_size_idat_line: "lodepng_get_raw_size_idat w 1 bpp = (w * bpp + 7) div 8 + 1"
proof -
  define q r where "q = w div 8" and "r = w mod 8"
  have w: "w = q * 8 + r" by (simp add: q_def r_def)
  have "w * bpp + 7 = (r * bpp + 7) + (q * bpp) * 8" unfolding w by (simp add: algebra_simps)
  then have "(w * bpp + 7) div 8 = q * bpp + (r * bpp + 7) div 8"
    by (simp only: div_mult_self1)
  then show ?thesis by (simp add: lodepng_get_raw_size_idat_def q_def r_def)
qed

lemma unat_ucast64: "unat (ucast (x :: u32) :: u64) = unat x"
proof -
  have "unat x < 2 ^ LENGTH(32)" by (rule unsigned_less)
  then have "unat x < 2 ^ 64" by simp
  then show ?thesis by (simp add: unsigned_ucast_eq take_bit_nat_eq_self)
qed

lemma unat_and_7_u32: "unat (x AND 7 :: u32) = unat x mod 8"
proof -
  have m: "(7 :: u32) = mask 3" by (simp add: mask_eq_exp_minus_1)
  show ?thesis
    unfolding m by (simp add: unsigned_take_bit_eq take_bit_eq_mod unat_mod flip: take_bit_eq_mask)
qed

lemma pixel_overflow_sizes:
  assumes "\<not> lodepng_pixel_overflow w h pngcolor rawcolor"
    and valid: "checkColorValidity (colortype pngcolor) (bitdepth pngcolor) = 0"
      "checkColorValidity (colortype rawcolor) (bitdepth rawcolor) = 0"
    and color: "color = pngcolor \<or> color = rawcolor"
  shows "unat w * unat h * 8 < 2 ^ 64"
    and "lodepng_get_raw_size_idat (unat w) (unat h) (lodepng_get_bpp color) + 4 * unat h < 2 ^ 64"
proof -
  let ?bpp = "max (lodepng_get_bpp pngcolor) (lodepng_get_bpp rawcolor)"
  have bpp: "?bpp \<le> 64" "lodepng_get_bpp color \<le> ?bpp"
    using valid_color_bpp(2) [OF valid(1)] valid_color_bpp(2) [OF valid(2)] color
    by (auto simp: lodepng_get_bpp_def)
  have ub: "unat (word_of_nat ?bpp :: u64) = ?bpp" using bpp(1) by (simp add: unat_of_nat)
  let ?p = "lodepng_mulofl (ucast w) (ucast h)"
  let ?m = "lodepng_mulofl (ucast (w div 8)) (word_of_nat ?bpp)"
  let ?e = "(unat (w AND 7) * ?bpp + 7) div 8"
  let ?a = "lodepng_addofl (snd ?m) (word_of_nat ?e)"
  let ?b = "lodepng_addofl (snd ?a) 5"
  have p: "\<not> fst ?p" "\<not> fst (lodepng_mulofl (snd ?p) 8)" and m: "\<not> fst ?m" and a: "\<not> fst ?a"
    and b: "\<not> fst ?b" and t: "\<not> fst (lodepng_mulofl (snd ?b) (ucast h))"
    using assms(1) unfolding lodepng_pixel_overflow_def Let_def split_beta by (auto split: if_splits)
  have "unat (snd ?p) = unat w * unat h" using lodepng_mulofl_ok [OF p(1)] by (simp add: unat_ucast64)
  then show "unat w * unat h * 8 < 2 ^ 64" using p(2) by (simp add: lodepng_mulofl_iff)
  have w7: "unat (w AND 7) = unat w mod 8" by (rule unat_and_7_u32)
  have "unat w mod 8 * ?bpp \<le> 7 * 64" using bpp(1) by (intro mult_mono) (auto simp: less_Suc_eq_le [symmetric])
  then have e: "unat (word_of_nat ?e :: u64) = ?e" by (simp add: unat_of_nat w7)
  have "unat (snd ?m) = unat w div 8 * ?bpp"
    using lodepng_mulofl_ok [OF m] by (simp add: unat_ucast64 ub unat_div)
  then have "unat (snd ?a) = unat w div 8 * ?bpp + ?e"
    using lodepng_addofl_ok [OF a] by (simp only: e)
  then have "unat (snd ?b) = unat w div 8 * ?bpp + ?e + 5" using lodepng_addofl_ok [OF b] by simp
  then have total: "(unat w div 8 * ?bpp + ?e + 5) * unat h < 2 ^ 64"
    using t by (simp add: lodepng_mulofl_iff unat_ucast64)
  have "lodepng_get_raw_size_idat (unat w) (unat h) (lodepng_get_bpp color) + 4 * unat h =
      (unat w div 8 * lodepng_get_bpp color + (unat w mod 8 * lodepng_get_bpp color + 7) div 8 + 5) * unat h"
    by (simp add: lodepng_get_raw_size_idat_def algebra_simps)
  also have "\<dots> \<le> (unat w div 8 * ?bpp + ?e + 5) * unat h"
    unfolding w7 by (intro mult_le_mono add_mono div_le_mono le_refl bpp(2))
  finally show "lodepng_get_raw_size_idat (unat w) (unat h) (lodepng_get_bpp color) + 4 * unat h < 2 ^ 64"
    using total by linarith
qed

text \<open>
  When the check finds no overflow, the number of bits of the image at eight bits per channel and the
  size of its filtered scanlines, with room for five more bytes in every line, are \<open>size_t\<close> values.
\<close>

theorem pixel_overflow_safe:
  assumes "\<not> lodepng_pixel_overflow w h pngcolor rawcolor"
    and "checkColorValidity (colortype pngcolor) (bitdepth pngcolor) = 0"
    and "checkColorValidity (colortype rawcolor) (bitdepth rawcolor) = 0"
    and "color = pngcolor \<or> color = rawcolor"
  shows "unat w * unat h * 8 < 2 ^ 64 \<and>
    lodepng_get_raw_size_idat (unat w) (unat h) (lodepng_get_bpp color) + 4 * unat h < 2 ^ 64"
  using pixel_overflow_sizes [OF assms] by simp

lemma pixel_overflow_safe_witness:
  "unat (640 :: u32) * unat (480 :: u32) * 8 < 2 ^ 64 \<and>
   lodepng_get_raw_size_idat (unat (640 :: u32)) (unat (480 :: u32))
     (lodepng_get_bpp lodepng_color_mode_init) + 4 * unat (480 :: u32) < 2 ^ 64"
proof (rule pixel_overflow_safe)
  show "\<not> lodepng_pixel_overflow 640 480 lodepng_color_mode_init lodepng_color_mode_init"
    by (simp add: lodepng_pixel_overflow_def lodepng_mulofl_def lodepng_addofl_def Let_def
        lodepng_get_bpp_def lodepng_color_mode_init_def lodepng_get_bpp_lct_def
        getNumColorChannels_def)
qed (simp_all add: checkColorValidity_def lodepng_color_mode_init_def)

end
