(* ===== verification/Png_Filter.thy ===== *)
theory Png_Filter
  imports Png_Color
begin

unbundle bit_operations_syntax

text \<open>
  Scanline filters of \<open>lodepng.cpp\<close>. A scanline is a list of bytes; the previous one is \<open>None\<close> for the
  first line of an image (the null pointer of the code). \<open>unfilterScanline\<close> is shown to compute what
  the PNG specification says, its unrolled loops included, and to invert \<open>filterScanline\<close>; a whole
  image comes back whatever filter the encoder chooses for each line.
\<close>

section \<open>The Paeth predictor\<close>

text \<open>The parameters are \<open>short\<close>s that come from bytes, so nothing overflows.\<close>

definition paethPredictor :: "int \<Rightarrow> int \<Rightarrow> int \<Rightarrow> byte" where
  "paethPredictor a b c =
     (let pa = \<bar>b - c\<bar>; pb = \<bar>a - c\<bar>; pc = \<bar>a + b - c - c\<bar>;
          (a, pa) = (if pb < pa then (b, pb) else (a, pa)) in
      if pc < pa then word_of_int c else word_of_int a)"

abbreviation paeth :: "byte \<Rightarrow> byte \<Rightarrow> byte \<Rightarrow> byte" where
  "paeth a b c \<equiv> paethPredictor (uint a) (uint b) (uint c)"

lemma paeth_above [simp]: "paethPredictor 0 (uint b) 0 = b"
proof (cases "b = 0")
  case True
  then show ?thesis by (simp add: paethPredictor_def)
next
  case False
  then have "uint b \<noteq> 0" by (simp add: unsigned_eq_0_iff)
  moreover have "0 \<le> uint b" by simp
  ultimately have "0 < uint b" by linarith
  then show ?thesis by (simp add: paethPredictor_def Let_def)
qed

lemma paeth_left [simp]: "paethPredictor (uint a) 0 0 = a"
  by (auto simp: paethPredictor_def Let_def)

lemma paeth_none [simp]: "paethPredictor 0 0 0 = 0"
  by (simp add: paethPredictor_def)

text \<open>The mean of two bytes, computed in \<open>int\<close>.\<close>

definition byte_mean :: "byte \<Rightarrow> byte \<Rightarrow> byte" where
  "byte_mean a b = word_of_nat ((unat a + unat b) div 2)"

section \<open>Unfiltering a line\<close>

text \<open>A loop that stores the elements of \<open>recon\<close> in order.\<close>

definition build :: "(bytes \<Rightarrow> nat \<Rightarrow> byte) \<Rightarrow> nat list \<Rightarrow> bytes \<Rightarrow> bytes" where
  "build f is recon = fold (\<lambda>i recon. recon @ [f recon i]) is recon"

text \<open>
  The unrolled loops of filter 4: while \<open>k\<close> more elements fit, they are computed from what was stored
  before them.
\<close>

function paeth_unrolled :: "nat \<Rightarrow> bytes \<Rightarrow> bytes \<Rightarrow> nat \<Rightarrow> nat \<Rightarrow> nat \<Rightarrow> bytes \<Rightarrow> nat \<times> bytes" where
  "paeth_unrolled k scanline precon bytewidth len i recon =
     (if 0 < k \<and> i + (k - 1) < len then
        (let j = i - bytewidth in
         paeth_unrolled k scanline precon bytewidth len (i + k)
           (recon @ map (\<lambda>m. scanline ! (i + m) +
                paeth (recon ! (j + m)) (precon ! (i + m)) (precon ! (j + m))) [0 ..< k]))
      else (i, recon))"
  by pat_completeness auto
termination
  by (relation "measure (\<lambda>(k, scanline, precon, bytewidth, len, i, recon). len - i)") auto

declare paeth_unrolled.simps [simp del]

definition unfilterScanline ::
  "bytes \<Rightarrow> bytes option \<Rightarrow> nat \<Rightarrow> byte \<Rightarrow> nat \<Rightarrow> bytes png" where
  "unfilterScanline scanline precon bytewidth filterType len =
     (if filterType = 0 then Inr (build (\<lambda>recon i. scanline ! i) [0 ..< len] [])
      else if filterType = 1 then
        Inr (build (\<lambda>recon i. scanline ! i + recon ! (i - bytewidth)) [bytewidth ..< len]
          (build (\<lambda>recon i. scanline ! i) [0 ..< bytewidth] []))
      else if filterType = 2 then
        (case precon of
           Some p \<Rightarrow> Inr (build (\<lambda>recon i. scanline ! i + p ! i) [0 ..< len] [])
         | None \<Rightarrow> Inr (build (\<lambda>recon i. scanline ! i) [0 ..< len] []))
      else if filterType = 3 then
        (case precon of
           Some p \<Rightarrow>
             Inr (build (\<lambda>recon i. scanline ! i + byte_mean (recon ! (i - bytewidth)) (p ! i))
                 [bytewidth ..< len]
               (build (\<lambda>recon i. scanline ! i + drop_bit 1 (p ! i)) [0 ..< bytewidth] []))
         | None \<Rightarrow>
             Inr (build (\<lambda>recon i. scanline ! i + drop_bit 1 (recon ! (i - bytewidth)))
                 [bytewidth ..< len]
               (build (\<lambda>recon i. scanline ! i) [0 ..< bytewidth] [])))
      else if filterType = 4 then
        (case precon of
           Some p \<Rightarrow>
             (let recon = build (\<lambda>recon i. scanline ! i + p ! i) [0 ..< bytewidth] [];
                  (i, recon) =
                    (if bytewidth \<ge> 4 then paeth_unrolled 4 scanline p bytewidth len bytewidth recon
                     else if bytewidth \<ge> 3 then paeth_unrolled 3 scanline p bytewidth len bytewidth recon
                     else if bytewidth \<ge> 2 then paeth_unrolled 2 scanline p bytewidth len bytewidth recon
                     else (bytewidth, recon)) in
              Inr (build (\<lambda>recon i. scanline ! i +
                     paeth (recon ! (i - bytewidth)) (p ! i) (p ! (i - bytewidth))) [i ..< len] recon))
         | None \<Rightarrow>
             Inr (build (\<lambda>recon i. scanline ! i + recon ! (i - bytewidth)) [bytewidth ..< len]
               (build (\<lambda>recon i. scanline ! i) [0 ..< bytewidth] [])))
      else Inl 36)"

section \<open>Filtering a line\<close>

text \<open>An invalid filter type leaves the output as it was.\<close>

definition filterScanline ::
  "bytes \<Rightarrow> bytes \<Rightarrow> bytes option \<Rightarrow> nat \<Rightarrow> nat \<Rightarrow> byte \<Rightarrow> bytes" where
  "filterScanline out scanline prevline len bytewidth filterType =
     (if filterType = 0 then map (\<lambda>i. scanline ! i) [0 ..< len]
      else if filterType = 1 then
        map (\<lambda>i. scanline ! i) [0 ..< bytewidth] @
        map (\<lambda>i. scanline ! i - scanline ! (i - bytewidth)) [bytewidth ..< len]
      else if filterType = 2 then
        (case prevline of
           Some p \<Rightarrow> map (\<lambda>i. scanline ! i - p ! i) [0 ..< len]
         | None \<Rightarrow> map (\<lambda>i. scanline ! i) [0 ..< len])
      else if filterType = 3 then
        (case prevline of
           Some p \<Rightarrow>
             map (\<lambda>i. scanline ! i - drop_bit 1 (p ! i)) [0 ..< bytewidth] @
             map (\<lambda>i. scanline ! i - byte_mean (scanline ! (i - bytewidth)) (p ! i)) [bytewidth ..< len]
         | None \<Rightarrow>
             map (\<lambda>i. scanline ! i) [0 ..< bytewidth] @
             map (\<lambda>i. scanline ! i - drop_bit 1 (scanline ! (i - bytewidth))) [bytewidth ..< len])
      else if filterType = 4 then
        (case prevline of
           Some p \<Rightarrow>
             map (\<lambda>i. scanline ! i - p ! i) [0 ..< bytewidth] @
             map (\<lambda>i. scanline ! i -
                 paeth (scanline ! (i - bytewidth)) (p ! i) (p ! (i - bytewidth))) [bytewidth ..< len]
         | None \<Rightarrow>
             map (\<lambda>i. scanline ! i) [0 ..< bytewidth] @
             map (\<lambda>i. scanline ! i - scanline ! (i - bytewidth)) [bytewidth ..< len])
      else out)"

section \<open>The specification\<close>

text \<open>
  The bytes of the same line \<open>bytewidth\<close> to the left, of the line above, and above left; zero where
  there is none. The predictor of each filter type is a function of the three.
\<close>

definition spec_left :: "bytes \<Rightarrow> nat \<Rightarrow> nat \<Rightarrow> byte" where
  "spec_left line bytewidth i = (if i < bytewidth then 0 else line ! (i - bytewidth))"

definition spec_above :: "bytes option \<Rightarrow> nat \<Rightarrow> byte" where
  "spec_above prev i = (case prev of None \<Rightarrow> 0 | Some p \<Rightarrow> p ! i)"

definition spec_corner :: "bytes option \<Rightarrow> nat \<Rightarrow> nat \<Rightarrow> byte" where
  "spec_corner prev bytewidth i = (if i < bytewidth then 0 else spec_above prev (i - bytewidth))"

definition predict :: "byte \<Rightarrow> byte \<Rightarrow> byte \<Rightarrow> byte \<Rightarrow> byte" where
  "predict filterType a b c =
     (if filterType = 0 then 0
      else if filterType = 1 then a
      else if filterType = 2 then b
      else if filterType = 3 then byte_mean a b
      else paeth a b c)"

definition spec_recon :: "bytes \<Rightarrow> bytes option \<Rightarrow> nat \<Rightarrow> byte \<Rightarrow> bytes \<Rightarrow> nat \<Rightarrow> byte" where
  "spec_recon scanline prev bytewidth filterType recon i =
     scanline ! i + predict filterType (spec_left recon bytewidth i) (spec_above prev i)
       (spec_corner prev bytewidth i)"

definition spec_line :: "bytes \<Rightarrow> bytes option \<Rightarrow> nat \<Rightarrow> byte \<Rightarrow> nat \<Rightarrow> bytes" where
  "spec_line scanline prev bytewidth filterType len =
     build (spec_recon scanline prev bytewidth filterType) [0 ..< len] []"

lemma filter_types:
  assumes "(ft :: byte) \<le> 4"
  shows "ft = 0 \<or> ft = 1 \<or> ft = 2 \<or> ft = 3 \<or> ft = 4"
proof -
  have "unat ft \<le> 4" using assms by (simp add: word_le_nat_alt)
  then have "unat ft = 0 \<or> unat ft = 1 \<or> unat ft = 2 \<or> unat ft = 3 \<or> unat ft = 4" by linarith
  then show ?thesis by (simp flip: unat_eq_iff)
qed

lemma build_Nil [simp]: "build f [] recon = recon"
  by (simp add: build_def)

lemma build_comp: "build f (xs @ ys) recon = build f ys (build f xs recon)"
  by (simp add: build_def)

lemma build_snoc [simp]: "build f (xs @ [n]) recon = build f xs recon @ [f (build f xs recon) n]"
  by (simp add: build_def)

lemma build_append:
  assumes "m \<le> n" "n \<le> k"
  shows "build f [n ..< k] (build f [m ..< n] recon) = build f [m ..< k] recon"
proof -
  have "[m ..< k] = [m ..< n] @ [n ..< k]"
    using assms by (metis le_add_diff_inverse upt_add_eq_append)
  then show ?thesis by (simp only: build_comp)
qed

lemma length_build [simp]: "length (build f is recon) = length recon + length is"
  unfolding build_def by (induction "is" arbitrary: recon) auto

lemma build_cong:
  assumes "length recon = m" "m \<le> n"
    and "\<And>i recon'. m \<le> i \<Longrightarrow> i < n \<Longrightarrow> length recon' = i \<Longrightarrow> f recon' i = g recon' i"
  shows "build f [m ..< n] recon = build g [m ..< n] recon"
  using assms(2,3)
proof (induction n rule: dec_induct)
  case base
  then show ?case by (simp add: build_def)
next
  case (step n)
  then have "build f [m ..< n] recon = build g [m ..< n] recon" by simp
  then show ?case using step(1) step(4) [of n "build g [m ..< n] recon"] by (simp add: assms(1))
qed

text \<open>Elements that do not depend on one another can be computed together.\<close>

lemma build_block:
  assumes "\<And>m ys. m < k \<Longrightarrow> f (recon @ ys) (i + m) = f recon (i + m)"
  shows "build f [i ..< i + k] recon = recon @ map (\<lambda>m. f recon (i + m)) [0 ..< k]"
  using assms
proof (induction k)
  case 0
  then show ?case by simp
next
  case (Suc k)
  then have "build f [i ..< i + k] recon = recon @ map (\<lambda>m. f recon (i + m)) [0 ..< k]" by simp
  then show ?case using Suc.prems [of k] by simp
qed

definition paeth_elem :: "bytes \<Rightarrow> bytes \<Rightarrow> nat \<Rightarrow> bytes \<Rightarrow> nat \<Rightarrow> byte" where
  "paeth_elem scanline p bytewidth recon i =
     scanline ! i + paeth (recon ! (i - bytewidth)) (p ! i) (p ! (i - bytewidth))"

lemma paeth_elem_abs: "paeth_elem scanline p bytewidth =
    (\<lambda>recon i. scanline ! i + paeth (recon ! (i - bytewidth)) (p ! i) (p ! (i - bytewidth)))"
  by (intro ext) (rule paeth_elem_def)

lemma paeth_unrolled_build:
  assumes "length recon = i" "bytewidth \<le> i" "0 < k" "k \<le> bytewidth" "i \<le> len"
    and "paeth_unrolled k scanline p bytewidth len i recon = (i', recon')"
  shows "i \<le> i' \<and> i' \<le> len \<and> recon' = build (paeth_elem scanline p bytewidth) [i ..< i'] recon"
  using assms
proof (induction k scanline p bytewidth len i recon rule: paeth_unrolled.induct)
  case (1 k scanline p bytewidth len i recon)
  show ?case
  proof (cases "i + (k - 1) < len")
    case False
    then show ?thesis
      using "1.prems" by (simp add: paeth_unrolled.simps [of k scanline p bytewidth len i recon])
  next
    case True
    define recon1 where "recon1 = recon @ map (\<lambda>m. scanline ! (i + m) +
        paeth (recon ! (i - bytewidth + m)) (p ! (i + m)) (p ! (i - bytewidth + m))) [0 ..< k]"
    let ?f = "paeth_elem scanline p bytewidth"
    have f: "?f (recon @ ys) (i + m) = ?f recon (i + m)" if "m < k" for m ys
    proof -
      have "i + m - bytewidth < i" using that "1.prems" by linarith
      then have "(recon @ ys) ! (i + m - bytewidth) = recon ! (i + m - bytewidth)"
        using "1.prems"(1) by (metis nth_append)
      then show ?thesis by (simp only: paeth_elem_def)
    qed
    have "i + m - bytewidth = i - bytewidth + m" for m using "1.prems"(2) by simp
    then have "recon1 = recon @ map (\<lambda>m. ?f recon (i + m)) [0 ..< k]"
      by (simp add: recon1_def paeth_elem_def)
    then have block: "recon1 = build ?f [i ..< i + k] recon" using build_block [of k ?f recon i, OF f] by simp
    have "paeth_unrolled k scanline p bytewidth len (i + k) recon1 = (i', recon')"
      using "1.prems"(3,6) True
      by (simp add: paeth_unrolled.simps [of k scanline p bytewidth len i recon] recon1_def Let_def)
    then have "i + k \<le> i' \<and> i' \<le> len \<and> recon' = build ?f [i + k ..< i'] recon1"
      using "1.prems" True
      by (intro "1.IH" [OF conjI [OF "1.prems"(3) True] refl, folded recon1_def])
        (simp_all add: recon1_def)
    then show ?thesis using block build_append [of i "i + k" i'] by simp
  qed
qed

text \<open>The code of every filter type computes the line of the specification.\<close>

lemma byte_mean_0 [simp]: "byte_mean 0 b = drop_bit 1 b" "byte_mean a 0 = drop_bit 1 a"
proof -
  have half: "word_of_nat (unat x div 2) = drop_bit 1 x" for x :: byte
  proof -
    have "unat x < 2 ^ LENGTH(8)" by (rule unsigned_less)
    then have "unat x div 2 < 256" by simp
    then show ?thesis by (simp add: drop_bit_eq_div unat_div unat_of_nat flip: unat_eq_iff)
  qed
  show "byte_mean 0 b = drop_bit 1 b" "byte_mean a 0 = drop_bit 1 a"
    unfolding byte_mean_def using half [of b] half [of a] by simp_all
qed

lemma two_loops:
  assumes "bytewidth \<le> len"
    and "\<And>i recon. i < bytewidth \<Longrightarrow> length recon = i \<Longrightarrow> g recon i = f recon i"
    and "\<And>i recon. bytewidth \<le> i \<Longrightarrow> i < len \<Longrightarrow> length recon = i \<Longrightarrow> h recon i = f recon i"
  shows "build h [bytewidth ..< len] (build g [0 ..< bytewidth] []) = build f [0 ..< len] []"
proof -
  have "build g [0 ..< bytewidth] [] = build f [0 ..< bytewidth] []"
    by (rule build_cong) (simp_all add: assms(2))
  then have "build h [bytewidth ..< len] (build g [0 ..< bytewidth] []) =
      build f [bytewidth ..< len] (build f [0 ..< bytewidth] [])"
    using assms(1,3) by (simp only:) (rule build_cong, simp_all)
  then show ?thesis using build_append [of 0 bytewidth len f "[]"] assms(1) by simp
qed

lemmas spec_simps = spec_recon_def predict_def spec_left_def spec_above_def spec_corner_def

lemma unfilter_paeth:
  assumes bw: "1 \<le> bytewidth" "bytewidth \<le> len"
  shows "unfilterScanline scanline (Some p) bytewidth 4 len =
    Inr (spec_line scanline (Some p) bytewidth 4 len)"
proof -
  let ?f = "paeth_elem scanline p bytewidth"
  define r0 where "r0 = build (\<lambda>recon i. scanline ! i + p ! i) [0 ..< bytewidth] []"
  have spec: "spec_line scanline (Some p) bytewidth 4 len = build ?f [bytewidth ..< len] r0"
    unfolding spec_line_def r0_def
    by (rule two_loops [symmetric]) (use bw in \<open>simp_all add: spec_simps paeth_elem_def\<close>)
  obtain i r where ir: "(if bytewidth \<ge> 4 then paeth_unrolled 4 scanline p bytewidth len bytewidth r0
      else if bytewidth \<ge> 3 then paeth_unrolled 3 scanline p bytewidth len bytewidth r0
      else if bytewidth \<ge> 2 then paeth_unrolled 2 scanline p bytewidth len bytewidth r0
      else (bytewidth, r0)) = (i, r)"
    by fastforce
  have "bytewidth \<le> i \<and> i \<le> len \<and> r = build ?f [bytewidth ..< i] r0"
    using ir bw
    by (auto split: if_splits dest!: paeth_unrolled_build [rotated -1] simp: r0_def)
  then have "build ?f [i ..< len] r = build ?f [bytewidth ..< len] r0"
    by (simp add: build_append)
  moreover have "unfilterScanline scanline (Some p) bytewidth 4 len =
      (case (if bytewidth \<ge> 4 then paeth_unrolled 4 scanline p bytewidth len bytewidth r0
        else if bytewidth \<ge> 3 then paeth_unrolled 3 scanline p bytewidth len bytewidth r0
        else if bytewidth \<ge> 2 then paeth_unrolled 2 scanline p bytewidth len bytewidth r0
        else (bytewidth, r0)) of (i, recon) \<Rightarrow> Inr (build ?f [i ..< len] recon))"
    by (simp add: unfilterScanline_def paeth_elem_abs r0_def Let_def)
  ultimately show ?thesis by (simp only: ir split spec)
qed

lemma spec_line_one:
  assumes "\<And>i recon. i < len \<Longrightarrow> f recon i = spec_recon scanline prev bytewidth ft recon i"
  shows "build f [0 ..< len] [] = spec_line scanline prev bytewidth ft len"
  unfolding spec_line_def by (rule build_cong) (simp_all add: assms)

lemma spec_line_two:
  assumes "bytewidth \<le> len"
    and "\<And>i recon. i < bytewidth \<Longrightarrow> g recon i = spec_recon scanline prev bytewidth ft recon i"
    and "\<And>i recon. bytewidth \<le> i \<Longrightarrow> h recon i = spec_recon scanline prev bytewidth ft recon i"
  shows "build h [bytewidth ..< len] (build g [0 ..< bytewidth] []) =
    spec_line scanline prev bytewidth ft len"
  unfolding spec_line_def by (rule two_loops) (simp_all add: assms)

lemma unfilterScanline_line:
  assumes "ft \<le> 4" "1 \<le> bytewidth" "bytewidth \<le> len"
  shows "unfilterScanline scanline prev bytewidth ft len =
    Inr (spec_line scanline prev bytewidth ft len)"
proof -
  from filter_types [OF assms(1)] consider "ft = 0" | "ft = 1" | "ft = 2" | "ft = 3" | "ft = 4" by blast
  then show ?thesis
  proof cases
    case 1
    then show ?thesis
      by (simp add: unfilterScanline_def) (rule spec_line_one, simp add: spec_simps)
  next
    case 2
    then show ?thesis
      by (simp add: unfilterScanline_def) (rule spec_line_two [OF assms(3)]; simp add: spec_simps)
  next
    case 3
    then show ?thesis
      by (cases prev; simp add: unfilterScanline_def; intro spec_line_one; simp add: spec_simps)
  next
    case 4
    then show ?thesis
      by (cases prev; simp add: unfilterScanline_def; intro spec_line_two [OF assms(3)];
          simp add: spec_simps)
  next
    case 5
    show ?thesis
    proof (cases prev)
      case None
      then show ?thesis
        using 5 by (simp add: unfilterScanline_def) (rule spec_line_two [OF assms(3)]; simp add: spec_simps)
    next
      case (Some p)
      then show ?thesis using 5 unfilter_paeth [OF assms(2,3)] by simp
    qed
  qed
qed



section \<open>The round trip of a line\<close>

lemma filterScanline_predict:
  assumes "ft \<le> 4" "bytewidth \<le> len"
  shows "filterScanline out scanline prev len bytewidth ft =
    map (\<lambda>i. scanline ! i - predict ft (spec_left scanline bytewidth i) (spec_above prev i)
      (spec_corner prev bytewidth i)) [0 ..< len]"
proof -
  have split: "[0 ..< len] = [0 ..< bytewidth] @ [bytewidth ..< len]"
    using assms(2) by (metis le0 le_add_diff_inverse upt_add_eq_append)
  from filter_types [OF assms(1)] show ?thesis
    unfolding filterScanline_def
    by (elim disjE; cases prev; simp add: spec_simps;
        subst split; simp only: map_append; intro arg_cong2 [where f = append] map_cong refl; simp add: spec_above_def)
qed

theorem unfilter_filterScanline:
  assumes "ft \<le> 4" "1 \<le> bytewidth" "bytewidth \<le> len" "length line = len"
  shows "unfilterScanline (filterScanline out line prev len bytewidth ft) prev bytewidth ft len =
    Inr line"
proof -
  let ?s = "filterScanline out line prev len bytewidth ft"
  let ?f = "spec_recon ?s prev bytewidth ft"
  have "n \<le> len \<Longrightarrow> build ?f [0 ..< n] [] = take n line" for n
  proof (induction n)
    case (Suc n)
    have n: "n < len" using Suc.prems by simp
    have left: "spec_left (take n line) bytewidth n = spec_left line bytewidth n"
      using assms(2) n assms(4) by (simp add: spec_left_def)
    have "?f (take n line) n = line ! n"
      using n by (simp add: spec_recon_def filterScanline_predict [OF assms(1,3)] left)
    then show ?case
      using Suc n assms(4) by (simp add: take_Suc_conv_app_nth)
  qed simp
  then show ?thesis
    using assms(4) by (simp add: unfilterScanline_line [OF assms(1-3)] spec_line_def)
qed

lemma unfilter_filterScanline_witness:
  "unfilterScanline (filterScanline [] [9, 200, 30, 4] (Some [5, 6, 7, 255]) 4 2 3)
     (Some [5, 6, 7, 255]) 2 3 4 = Inr [9, 200, 30, 4]"
  by (rule unfilter_filterScanline) simp_all

section \<open>Images\<close>

text \<open>
  The loop over the lines: the output so far, whose last line is the previous line of the next one.
\<close>

fun unfilter_loop :: "bytes \<Rightarrow> nat \<Rightarrow> nat \<Rightarrow> nat list \<Rightarrow> bytes option \<Rightarrow> bytes \<Rightarrow> bytes png" where
  "unfilter_loop input bytewidth linebytes [] prevline out = Inr out"
| "unfilter_loop input bytewidth linebytes (y # ys) prevline out =
     (let inindex = (1 + linebytes) * y; filterType = input ! inindex in
      case unfilterScanline (take linebytes (drop (inindex + 1) input)) prevline bytewidth filterType
             linebytes of
        Inl e \<Rightarrow> Inl e
      | Inr line \<Rightarrow> unfilter_loop input bytewidth linebytes ys (Some line) (out @ line))"

definition unfilter :: "bytes \<Rightarrow> nat \<Rightarrow> nat \<Rightarrow> nat \<Rightarrow> bytes png" where
  "unfilter input w h bpp =
     (let bytewidth = (bpp + 7) div 8;
          linebytes = lodepng_get_raw_size_idat w 1 bpp - 1 in
      unfilter_loop input bytewidth linebytes [0 ..< h] None [])"

subsection \<open>Choosing the filter of a line\<close>

definition minsum_sum :: "byte \<Rightarrow> bytes \<Rightarrow> nat" where
  "minsum_sum type attempt =
     (if type = 0 then sum_list (map unat attempt)
      else sum_list (map (\<lambda>s. if s < 128 then unat s else 255 - unat s) attempt))"

text \<open>The type with the smallest sum, the first one among equals.\<close>

definition minsum_type :: "nat \<Rightarrow> nat \<Rightarrow> bytes \<Rightarrow> bytes option \<Rightarrow> byte" where
  "minsum_type linebytes bytewidth line prevline =
     fst (fold (\<lambda>type (bestType, smallest).
         (let sum = minsum_sum type (filterScanline [] line prevline linebytes bytewidth type) in
          if type = 0 \<or> sum < smallest then (type, sum) else (bestType, smallest)))
       [0, 1, 2, 3, 4] (0, 0))"

text \<open>The integer logarithm, by comparing and shifting.\<close>

definition ilog2 :: "nat \<Rightarrow> nat" where
  "ilog2 i =
     (let result = 0;
          (result, i) = (if i \<ge> 65536 then (result + 16, i div 2 ^ 16) else (result, i));
          (result, i) = (if i \<ge> 256 then (result + 8, i div 2 ^ 8) else (result, i));
          (result, i) = (if i \<ge> 16 then (result + 4, i div 2 ^ 4) else (result, i));
          (result, i) = (if i \<ge> 4 then (result + 2, i div 2 ^ 2) else (result, i)) in
      if i \<ge> 2 then result + 1 else result)"

definition ilog2i :: "nat \<Rightarrow> nat" where
  "ilog2i i =
     (if i = 0 then 0
      else (let l = ilog2 i in i * l + (i - 2 ^ l) * 2))"

definition byte_counts :: "bytes \<Rightarrow> nat list" where
  "byte_counts bs = fold (\<lambda>b cnt. cnt[unat b := cnt ! unat b + 1]) bs (replicate 256 0)"

definition entropy_type :: "nat \<Rightarrow> nat \<Rightarrow> bytes \<Rightarrow> bytes option \<Rightarrow> byte" where
  "entropy_type linebytes bytewidth line prevline =
     fst (fold (\<lambda>type (bestType, bestSum).
         (let attempt = filterScanline [] line prevline linebytes bytewidth type;
              sum = sum_list (map ilog2i (byte_counts (attempt @ [type]))) in
          if type = 0 \<or> sum > bestSum then (type, sum) else (bestType, bestSum)))
       [0, 1, 2, 3, 4] (0, 0))"

text \<open>
  The loop over the lines that every strategy has: the filter type of the line, then the line. \<open>blank\<close>
  is what the output buffer holds before, which an invalid predefined type leaves in place.
\<close>

fun filter_loop ::
  "(nat \<Rightarrow> bytes \<Rightarrow> bytes option \<Rightarrow> byte) \<Rightarrow> bytes \<Rightarrow> bytes \<Rightarrow> nat \<Rightarrow> nat \<Rightarrow> nat list \<Rightarrow>
   bytes option \<Rightarrow> bytes \<Rightarrow> bytes" where
  "filter_loop pick blank input linebytes bytewidth [] prevline out = out"
| "filter_loop pick blank input linebytes bytewidth (y # ys) prevline out =
     (let line = take linebytes (drop (linebytes * y) input);
          type = pick y line prevline in
      filter_loop pick blank input linebytes bytewidth ys (Some line)
        (out @ [type] @ filterScanline blank line prevline linebytes bytewidth type))"

lemma minsum_type_le: "minsum_type linebytes bytewidth line prevline \<le> 4"
  by (simp add: minsum_type_def Let_def split_beta)

lemma entropy_type_le: "entropy_type linebytes bytewidth line prevline \<le> 4"
  by (simp add: entropy_type_def Let_def split_beta)

subsection \<open>The round trip of an image\<close>

lemma length_filterScanline:
  assumes "ft \<le> 4" "bytewidth \<le> len"
  shows "length (filterScanline out line prev len bytewidth ft) = len"
  by (simp add: filterScanline_predict [OF assms])

lemma filter_unfilter_loop:
  assumes pick: "\<And>y line prev. pick y line prev \<le> 4"
    and bw: "1 \<le> bytewidth" "bytewidth \<le> linebytes" and len: "linebytes * h \<le> length input"
  shows "y \<le> h \<Longrightarrow> length pre = (1 + linebytes) * y \<Longrightarrow>
    \<exists>g. filter_loop pick blank input linebytes bytewidth [y ..< h] prev pre = pre @ g \<and>
      unfilter_loop (pre @ g) bytewidth linebytes [y ..< h] prev out =
        Inr (out @ take (linebytes * (h - y)) (drop (linebytes * y) input))"
proof (induction "h - y" arbitrary: y pre prev out)
  case 0
  then show ?case by simp
next
  case (Suc k)
  have y: "y < h" using Suc.hyps(2) by linarith
  let ?line = "take linebytes (drop (linebytes * y) input)"
  let ?t = "pick y ?line prev"
  let ?f = "filterScanline blank ?line prev linebytes bytewidth ?t"
  have "linebytes * (y + 1) \<le> linebytes * h" using y by (intro mult_le_mono2) simp
  then have ll: "length ?line = linebytes" using len by simp
  have fl: "length ?f = linebytes" by (rule length_filterScanline [OF pick bw(2)])
  let ?pre = "pre @ [?t] @ ?f"
  have l: "length ?pre = (1 + linebytes) * (y + 1)" using Suc.prems(2) fl by simp
  have "\<exists>g. filter_loop pick blank input linebytes bytewidth [y + 1 ..< h] (Some ?line) ?pre = ?pre @ g \<and>
    unfilter_loop (?pre @ g) bytewidth linebytes [y + 1 ..< h] (Some ?line) (out @ ?line) =
      Inr ((out @ ?line) @ take (linebytes * (h - (y + 1))) (drop (linebytes * (y + 1)) input))"
    by (rule Suc.hyps(1)) (use Suc.hyps(2) y l in \<open>simp_all del: length_append\<close>)
  then obtain g where g: "filter_loop pick blank input linebytes bytewidth [y + 1 ..< h] (Some ?line) ?pre = ?pre @ g"
    "unfilter_loop (?pre @ g) bytewidth linebytes [y + 1 ..< h] (Some ?line) (out @ ?line) =
      Inr ((out @ ?line) @ take (linebytes * (h - (y + 1))) (drop (linebytes * (y + 1)) input))"
    by blast
  have up: "[y ..< h] = y # [y + 1 ..< h]" using y by (simp add: upt_conv_Cons)
  have t: "(pre @ [?t] @ ?f @ g) ! ((1 + linebytes) * y) = ?t"
    using Suc.prems(2) by (metis append_Cons nth_append_length)
  have d: "take linebytes (drop ((1 + linebytes) * y + 1) (pre @ [?t] @ ?f @ g)) = ?f"
    using Suc.prems(2) fl by simp
  have u: "unfilterScanline ?f prev bytewidth ?t linebytes = Inr ?line"
    by (rule unfilter_filterScanline [OF pick bw ll])
  have "take (linebytes * (h - y)) (drop (linebytes * y) input) =
      ?line @ take (linebytes * (h - (y + 1))) (drop (linebytes * (y + 1)) input)"
  proof -
    have "linebytes * (h - y) = linebytes + linebytes * (h - (y + 1))"
      using y by (metis Suc_diff_Suc Suc_eq_plus1 mult_Suc_right)
    then show ?thesis by (simp add: take_add add.commute)
  qed
  then show ?case
    using g by (intro exI [of _ "[?t] @ ?f @ g"])
      (simp only: up filter_loop.simps unfilter_loop.simps Let_def t d u sum.case append_assoc)
qed

text \<open>
  Filtering the lines of an image and unfiltering them gives the image again, whatever valid filter
  type is picked for each line.
\<close>

theorem image_roundtrip:
  assumes "\<And>y line prev. pick y line prev \<le> 4" "0 < w" "0 < bpp"
    and "length input = (w * bpp + 7) div 8 * h"
  defines "linebytes \<equiv> lodepng_get_raw_size_idat w 1 bpp - 1"
  shows "unfilter (filter_loop pick blank input linebytes ((bpp + 7) div 8) [0 ..< h] None []) w h bpp =
    Inr input"
proof -
  have l: "linebytes = (w * bpp + 7) div 8" unfolding linebytes_def raw_size_idat_line by simp
  have bw: "1 \<le> (bpp + 7) div 8" using assms(3) by simp
  have "bpp \<le> w * bpp" using assms(2) by simp
  then have "(bpp + 7) div 8 \<le> linebytes" unfolding l by (intro div_le_mono) simp
  from filter_unfilter_loop [where pick = pick and h = h and input = input and y = 0 and pre = "[]"
      and blank = blank and prev = None and out = "[]", OF assms(1) bw this] show ?thesis
    using assms(4) by (auto simp: unfilter_def Let_def linebytes_def [symmetric] l mult.commute simp del: One_nat_def)
qed

lemma image_roundtrip_witness:
  "unfilter (filter_loop (\<lambda>y. minsum_type 3 1) [] [1, 2, 3, 200, 100, 50] 3 1 [0 ..< 2] None []) 3 2 8 =
     Inr [1, 2, 3, 200, 100, 50]"
  using image_roundtrip [of "\<lambda>y. minsum_type 3 1" 3 8 "[1, 2, 3, 200, 100, 50]" 2 "[]"]
  by (simp add: minsum_type_le raw_size_idat_line del: One_nat_def)

text \<open>The integer logarithm is exact for the \<open>unsigned\<close> counts it is used on.\<close>

lemma ilog2_div:
  fixes i k r :: nat
  shows "2 ^ r \<le> i div 2 ^ k \<longleftrightarrow> 2 ^ (r + k) \<le> i" "i div 2 ^ k < 2 ^ r \<longleftrightarrow> i < 2 ^ (r + k)"
  by (simp_all add: power_add less_eq_div_iff_mult_less_eq div_less_iff_less_mult)

text \<open>One halving of the range in which the logarithm lies.\<close>

lemma ilog2_halve:
  fixes i n k a :: nat
  assumes "2 ^ a \<le> n" "n < 2 ^ (a + 2 * k)" "i = n div 2 ^ a"
  shows "if i \<ge> 2 ^ k then 2 ^ (a + k) \<le> n \<and> n < 2 ^ (a + k + k) \<and> i div 2 ^ k = n div 2 ^ (a + k)
    else 2 ^ a \<le> n \<and> n < 2 ^ (a + k)"
  using assms ilog2_div [of n a k]
  by (auto simp: div_mult2_eq [symmetric] power_add [symmetric] add.commute add.left_commute mult_2)

lemma ilog2_bounds:
  assumes "0 < n" "n < 2 ^ 32"
  shows "2 ^ ilog2 n \<le> n" "n < 2 ^ (ilog2 n + 1)"
proof -
  obtain a1 i1 where 1: "(if n \<ge> 65536 then (0 + 16, n div 2 ^ 16) else (0 :: nat, n)) = (a1, i1)" by fastforce
  obtain a2 i2 where 2: "(if i1 \<ge> 256 then (a1 + 8, i1 div 2 ^ 8) else (a1, i1)) = (a2, i2)" by fastforce
  obtain a3 i3 where 3: "(if i2 \<ge> 16 then (a2 + 4, i2 div 2 ^ 4) else (a2, i2)) = (a3, i3)" by fastforce
  obtain a4 i4 where 4: "(if i3 \<ge> 4 then (a3 + 2, i3 div 2 ^ 2) else (a3, i3)) = (a4, i4)" by fastforce
  have i: "ilog2 n = (if i4 \<ge> 2 then a4 + 1 else a4)"
    unfolding ilog2_def Let_def using 1 2 3 4 by simp
  have r1: "2 ^ a1 \<le> n \<and> n < 2 ^ (a1 + 2 * 8) \<and> i1 = n div 2 ^ a1"
    using ilog2_halve [of 0 n 16 n] 1 assms by (auto split: if_splits)
  then have r2: "2 ^ a2 \<le> n \<and> n < 2 ^ (a2 + 2 * 4) \<and> i2 = n div 2 ^ a2"
    using ilog2_halve [of a1 n 8 i1] 2 by (auto split: if_splits)
  then have r3: "2 ^ a3 \<le> n \<and> n < 2 ^ (a3 + 2 * 2) \<and> i3 = n div 2 ^ a3"
    using ilog2_halve [of a2 n 4 i2] 3 by (auto split: if_splits)
  then have r4: "2 ^ a4 \<le> n \<and> n < 2 ^ (a4 + 2 * 1) \<and> i4 = n div 2 ^ a4"
    using ilog2_halve [of a3 n 2 i3] 4 by (auto split: if_splits)
  then show "2 ^ ilog2 n \<le> n" "n < 2 ^ (ilog2 n + 1)"
    using ilog2_halve [of a4 n 1 i4] by (auto simp: i split: if_splits)
qed

end
