(* ===== verification/Png_Adam7.thy ===== *)
theory Png_Adam7
  imports Png_Color
begin

unbundle bit_operations_syntax

text \<open>
  Interlacing and padding in \<open>lodepng.cpp\<close>: the bit pointers of pixels smaller than a byte, the seven
  passes of Adam7, moving an image to its passes and back, and the padding of scanlines. Several of
  the sizes are computed in \<open>unsigned\<close> and wrap modulo \<open>2 ^ 32\<close>, which is written out. The lemmas show
  that an image that is interlaced and deinterlaced is the same again as long as nothing wraps, and
  that the sizes do wrap for images that the decoder's own overflow check accepts.
\<close>

section \<open>Bits of a pixel stream\<close>

text \<open>The most significant bit of a byte comes first. The pointers move on by one.\<close>

definition readBitFromReversedStream :: "nat \<Rightarrow> bytes \<Rightarrow> byte \<times> nat" where
  "readBitFromReversedStream bitpointer bitstream =
     (drop_bit (7 - bitpointer mod 8) (bitstream ! (bitpointer div 8)) AND 1, bitpointer + 1)"

definition readBitsFromReversedStream :: "nat \<Rightarrow> bytes \<Rightarrow> nat \<Rightarrow> u32 \<times> nat" where
  "readBitsFromReversedStream bitpointer bitstream nbits =
     fold (\<lambda>i (result, bitpointer).
         (let (b, bitpointer) = readBitFromReversedStream bitpointer bitstream in
          (push_bit 1 result OR ucast b, bitpointer)))
       [0 ..< nbits] (0, bitpointer)"

definition setBitOfReversedStream :: "nat \<Rightarrow> bytes \<Rightarrow> byte \<Rightarrow> bytes \<times> nat" where
  "setBitOfReversedStream bitpointer bitstream b =
     (let k = bitpointer div 8; m = push_bit (7 - bitpointer mod 8) 1 in
      (bitstream[k := if b = 0 then bitstream ! k AND NOT m else bitstream ! k OR m],
       bitpointer + 1))"

section \<open>The passes\<close>

definition ADAM7_IX :: "nat list" where "ADAM7_IX = [0, 4, 0, 2, 0, 1, 0]"
definition ADAM7_IY :: "nat list" where "ADAM7_IY = [0, 0, 4, 0, 2, 0, 1]"
definition ADAM7_DX :: "nat list" where "ADAM7_DX = [8, 8, 4, 4, 2, 2, 1]"
definition ADAM7_DY :: "nat list" where "ADAM7_DY = [8, 8, 8, 4, 4, 2, 2]"

abbreviation unsigned_of :: "nat \<Rightarrow> nat" where
  "unsigned_of n \<equiv> n mod 2 ^ 32"

record passvalues =
  passw :: "nat list"
  passh :: "nat list"
  filter_passstart :: "nat list"
  padded_passstart :: "nat list"
  passstart :: "nat list"

definition pass_size :: "nat \<Rightarrow> nat \<Rightarrow> nat \<Rightarrow> nat \<times> nat" where
  "pass_size w h i =
     (let pw = unsigned_of (w + ADAM7_DX ! i - ADAM7_IX ! i - 1) div ADAM7_DX ! i;
          ph = unsigned_of (h + ADAM7_DY ! i - ADAM7_IY ! i - 1) div ADAM7_DY ! i;
          ph = (if pw = 0 then 0 else ph);
          pw = (if ph = 0 then 0 else pw) in
      (pw, ph))"

text \<open>Where each pass starts, given the size of each: the running sums from zero.\<close>

definition starts :: "nat list \<Rightarrow> nat list" where
  "starts sizes = fold (\<lambda>n xs. xs @ [last xs + n]) sizes [0]"

definition Adam7_getpassvalues :: "nat \<Rightarrow> nat \<Rightarrow> nat \<Rightarrow> passvalues" where
  "Adam7_getpassvalues w h bpp =
     (let pw = map (fst \<circ> pass_size w h) [0 ..< 7];
          ph = map (snd \<circ> pass_size w h) [0 ..< 7];
          linebytes = (\<lambda>i. unsigned_of (pw ! i * bpp + 7) div 8) in
      \<lparr>passw = pw, passh = ph,
       filter_passstart = starts (map (\<lambda>i. if pw ! i \<noteq> 0 \<and> ph ! i \<noteq> 0
           then unsigned_of (ph ! i * (1 + linebytes i)) else 0) [0 ..< 7]),
       padded_passstart = starts (map (\<lambda>i. unsigned_of (ph ! i * linebytes i)) [0 ..< 7]),
       passstart = starts (map (\<lambda>i. unsigned_of (ph ! i * pw ! i * bpp + 7) div 8) [0 ..< 7])\<rparr>)"

text \<open>The nested loops over the passes, their lines and the pixels of a line, in their order.\<close>

definition pass_pixels :: "passvalues \<Rightarrow> (nat \<times> nat \<times> nat) list" where
  "pass_pixels v =
     concat (map (\<lambda>i. concat (map (\<lambda>y. map (\<lambda>x. (i, y, x)) [0 ..< passw v ! i])
       [0 ..< passh v ! i])) [0 ..< 7])"

text \<open>The innermost loops: \<open>n\<close> bytes, or \<open>n\<close> bits with two bit pointers.\<close>

definition copy_bytes :: "nat \<Rightarrow> bytes \<Rightarrow> nat \<Rightarrow> nat \<Rightarrow> bytes \<Rightarrow> bytes" where
  "copy_bytes n input ip op out = fold (\<lambda>b out. out[op + b := input ! (ip + b)]) [0 ..< n] out"

definition copy_bits :: "nat \<Rightarrow> bytes \<Rightarrow> nat \<Rightarrow> nat \<Rightarrow> bytes \<Rightarrow> nat \<times> nat \<times> bytes" where
  "copy_bits n input ibp obp out =
     fold (\<lambda>b (ibp, obp, out).
         (let (bit1, ibp) = readBitFromReversedStream ibp input;
              (out, obp) = setBitOfReversedStream obp out bit1 in
          (ibp, obp, out)))
       [0 ..< n] (ibp, obp, out)"

definition Adam7_interlace :: "bytes \<Rightarrow> bytes \<Rightarrow> nat \<Rightarrow> nat \<Rightarrow> nat \<Rightarrow> bytes" where
  "Adam7_interlace out input w h bpp =
     (let v = Adam7_getpassvalues w h bpp in
      if bpp \<ge> 8 then
        fold (\<lambda>(i, y, x) out.
            (let bytewidth = bpp div 8;
                 pixelinstart = unsigned_of ((ADAM7_IY ! i + y * ADAM7_DY ! i) * w + ADAM7_IX ! i +
                   x * ADAM7_DX ! i) * bytewidth;
                 pixeloutstart = passstart v ! i + unsigned_of (y * passw v ! i + x) * bytewidth in
             copy_bytes bytewidth input pixelinstart pixeloutstart out))
          (pass_pixels v) out
      else
        fold (\<lambda>(i, y, x) out.
            (let ilinebits = unsigned_of (bpp * passw v ! i);
                 olinebits = unsigned_of (bpp * w);
                 ibp = unsigned_of ((ADAM7_IY ! i + y * ADAM7_DY ! i) * olinebits +
                   (ADAM7_IX ! i + x * ADAM7_DX ! i) * bpp);
                 obp = 8 * passstart v ! i + unsigned_of (y * ilinebits + x * bpp) in
             snd (snd (copy_bits bpp input ibp obp out))))
          (pass_pixels v) out)"

definition Adam7_deinterlace :: "bytes \<Rightarrow> bytes \<Rightarrow> nat \<Rightarrow> nat \<Rightarrow> nat \<Rightarrow> bytes" where
  "Adam7_deinterlace out input w h bpp =
     (let v = Adam7_getpassvalues w h bpp in
      if bpp \<ge> 8 then
        fold (\<lambda>(i, y, x) out.
            (let bytewidth = bpp div 8;
                 pixelinstart = passstart v ! i + unsigned_of (y * passw v ! i + x) * bytewidth;
                 pixeloutstart = ((ADAM7_IY ! i + y * ADAM7_DY ! i) * w + ADAM7_IX ! i +
                   x * ADAM7_DX ! i) * bytewidth in
             copy_bytes bytewidth input pixelinstart pixeloutstart out))
          (pass_pixels v) out
      else
        fold (\<lambda>(i, y, x) out.
            (let ilinebits = unsigned_of (bpp * passw v ! i);
                 olinebits = unsigned_of (bpp * w);
                 ibp = 8 * passstart v ! i + unsigned_of (y * ilinebits + x * bpp);
                 obp = (ADAM7_IY ! i + y * ADAM7_DY ! i) * olinebits +
                   (ADAM7_IX ! i + x * ADAM7_DX ! i) * bpp in
             snd (snd (copy_bits bpp input ibp obp out))))
          (pass_pixels v) out)"

section \<open>Padding of scanlines\<close>

definition removePaddingBits :: "bytes \<Rightarrow> bytes \<Rightarrow> nat \<Rightarrow> nat \<Rightarrow> nat \<Rightarrow> bytes" where
  "removePaddingBits out input olinebits ilinebits h =
     (let diff = ilinebits - olinebits in
      snd (snd (fold (\<lambda>y (ibp, obp, out).
          (let (ibp, obp, out) = copy_bits olinebits input ibp obp out in (ibp + diff, obp, out)))
        [0 ..< h] (0, 0, out))))"

definition addPaddingBits :: "bytes \<Rightarrow> bytes \<Rightarrow> nat \<Rightarrow> nat \<Rightarrow> nat \<Rightarrow> bytes" where
  "addPaddingBits out input olinebits ilinebits h =
     (let diff = olinebits - ilinebits in
      snd (snd (fold (\<lambda>y (ibp, obp, out).
          (let (ibp, obp, out) = copy_bits ilinebits input ibp obp out;
               (out, obp) = fold (\<lambda>x (out, obp). setBitOfReversedStream obp out 0) [0 ..< diff]
                 (out, obp) in
           (ibp, obp, out)))
        [0 ..< h] (0, 0, out))))"

section \<open>Cells of a buffer\<close>

text \<open>
  Bytes of a buffer and bits of a pixel stream are used alike: what the loops need of them is that a
  cell holds what was put there last.
\<close>

locale cells =
  fixes get :: "'s \<Rightarrow> nat \<Rightarrow> 'v" and put :: "'s \<Rightarrow> nat \<Rightarrow> 'v \<Rightarrow> 's" and cap :: "'s \<Rightarrow> nat"
  assumes cap_put: "cap (put s p v) = cap s"
    and get_put: "p < cap s \<Longrightarrow> q < cap s \<Longrightarrow> get (put s p v) q = (if q = p then v else get s q)"
begin

lemma cap_moves: "cap (fold (\<lambda>(p, q) s. put s q (val p)) ms s) = cap s"
  by (induction ms arbitrary: s) (auto simp: cap_put)

text \<open>Moves of values to cells, where no two moves disagree about a cell.\<close>

lemma get_moves:
  assumes "\<forall>(p, q) \<in> set ms. q < cap s \<and> val p = res q" and "c < cap s"
  shows "get (fold (\<lambda>(p, q) s. put s q (val p)) ms s) c =
    (if c \<in> snd ` set ms then res c else get s c)"
  using assms
proof (induction ms arbitrary: s)
  case (Cons m ms)
  obtain p q where m: "m = (p, q)" by fastforce
  have "\<forall>(p, q) \<in> set ms. q < cap (put s q' v) \<and> val p = res q" for q' v
    using Cons.prems(1) by (auto simp: cap_put)
  then have "get (fold (\<lambda>(p, q) s. put s q (val p)) ms (put s q (val p))) c =
      (if c \<in> snd ` set ms then res c else get (put s q (val p)) c)"
    using Cons.prems(2) by (intro Cons.IH) (simp_all add: cap_put)
  then show ?case using Cons.prems by (auto simp: m get_put)
qed simp

text \<open>
  Out and back: if the moves do not collide, the same moves backwards undo them on every cell that
  they reach.
\<close>

lemma there_and_back:
  fixes src t u :: 's
  assumes out: "\<forall>(p, q) \<in> set ms. q < cap t"
      "\<And>p p' q. (p, q) \<in> set ms \<Longrightarrow> (p', q) \<in> set ms \<Longrightarrow> p = p'"
    and inb: "\<forall>(p, q) \<in> set ms. p < cap u" and c: "c < cap u" "c \<in> fst ` set ms"
  defines "mid \<equiv> fold (\<lambda>(p, q) s. put s q (get src p)) ms t"
  shows "get (fold (\<lambda>(q, p) s. put s p (get mid q)) (map prod.swap ms) u) c = get src c"
proof -
  define res where "res q = get src (SOME p. (p, q) \<in> set ms)" for q
  have res: "get src p = res q" if "(p, q) \<in> set ms" for p q
    using that out(2) someI [of "\<lambda>p. (p, q) \<in> set ms"] unfolding res_def by (metis (no_types))
  have mid: "get mid q = get src p" if "(p, q) \<in> set ms" for p q
  proof -
    have "get mid q = (if q \<in> snd ` set ms then res q else get t q)"
      unfolding mid_def by (rule get_moves) (use out(1) res that in auto)
    then show ?thesis using that res by force
  qed
  have "get (fold (\<lambda>(q, p) s. put s p (get mid q)) (map prod.swap ms) u) c =
      (if c \<in> snd ` set (map prod.swap ms) then get src c else get u c)"
    by (rule get_moves) (use inb mid c(1) in auto)
  then show ?thesis using c(2) by force
qed

end

definition bit_at :: "bytes \<Rightarrow> nat \<Rightarrow> bool" where
  "bit_at buf p = bit (buf ! (p div 8)) (7 - p mod 8)"

definition put_bit :: "bytes \<Rightarrow> nat \<Rightarrow> bool \<Rightarrow> bytes" where
  "put_bit buf p v = fst (setBitOfReversedStream p buf (of_bool v))"


lemma bit_at_put_bit:
  assumes "p < 8 * length buf"
  shows "bit_at (put_bit buf p v) q = (if q = p then v else bit_at buf q)"
proof -
  have l: "p div 8 < length buf" using assms by (simp add: less_mult_imp_div_less mult.commute)
  have m: "bit (2 ^ (7 - p mod 8) :: byte) i \<longleftrightarrow> i = 7 - p mod 8" for i
    by (auto simp: bit_exp_iff)
  have eq: "q = p \<longleftrightarrow> q div 8 = p div 8 \<and> 7 - q mod 8 = 7 - p mod 8"
  proof -
    have "q mod 8 < 8" "p mod 8 < 8" by simp_all
    then have "7 - q mod 8 = 7 - p mod 8 \<longleftrightarrow> q mod 8 = p mod 8" by linarith
    then show ?thesis by (metis div_mod_decomp)
  qed
  have "7 - q mod 8 < 8" by simp
  then show ?thesis
    unfolding eq using l
    by (cases v) (auto simp: bit_at_def put_bit_def setBitOfReversedStream_def Let_def nth_list_update
        bit_and_iff bit_or_iff bit_not_iff m)
qed

interpretation bit_cells: cells bit_at put_bit "\<lambda>buf. 8 * length buf"
proof unfold_locales
  show "8 * length (put_bit s p v) = 8 * length s" for s p v
    by (simp add: put_bit_def setBitOfReversedStream_def Let_def)
qed (simp add: bit_at_put_bit)

section \<open>The pixels of the passes\<close>

text \<open>Where pixel \<open>(x, y)\<close> of pass \<open>i\<close> is in the image, and in its pass, in pixels.\<close>

definition image_pos :: "nat \<Rightarrow> nat \<times> nat \<times> nat \<Rightarrow> nat" where
  "image_pos w k = (case k of (i, y, x) \<Rightarrow>
     (ADAM7_IY ! i + y * ADAM7_DY ! i) * w + ADAM7_IX ! i + x * ADAM7_DX ! i)"

lemma cases7: "(i :: nat) < 7 \<Longrightarrow> i = 0 \<or> i = 1 \<or> i = 2 \<or> i = 3 \<or> i = 4 \<or> i = 5 \<or> i = 6"
  by auto

lemmas adam7_simps = ADAM7_IX_def ADAM7_IY_def ADAM7_DX_def ADAM7_DY_def

lemma adam7_steps:
  assumes "i < 7"
  shows "ADAM7_IX ! i < ADAM7_DX ! i" "ADAM7_IY ! i < ADAM7_DY ! i" "ADAM7_DX ! i \<le> 8" "ADAM7_DY ! i \<le> 8"
  using cases7 [OF assms] by (auto simp: adam7_simps)

text \<open>Every pixel of an image is in a pass.\<close>

lemma adam7_cover:
  obtains i x y where "i < 7" "X = ADAM7_IX ! i + x * ADAM7_DX ! i" "Y = ADAM7_IY ! i + y * ADAM7_DY ! i"
proof -
  have e: "n = n mod m + n div m * m" for n m :: nat by simp
  consider "Y mod 2 = 1" | "Y mod 2 = 0" "X mod 2 = 1" | "Y mod 4 = 2" "X mod 2 = 0"
    | "Y mod 4 = 0" "X mod 4 = 2" | "Y mod 8 = 4" "X mod 4 = 0" | "Y mod 8 = 0" "X mod 8 = 4"
    | "Y mod 8 = 0" "X mod 8 = 0"
  proof -
    have y: "Y mod 2 = 1 \<or> Y mod 4 = 2 \<or> Y mod 8 = 4 \<or> Y mod 8 = 0"
      and x: "X mod 2 = 1 \<or> X mod 4 = 2 \<or> X mod 8 = 4 \<or> X mod 8 = 0"
      by presburger+
    have m: "n mod 4 = 2 \<Longrightarrow> n mod 2 = 0" "n mod 8 = 4 \<Longrightarrow> n mod 4 = 0 \<and> n mod 2 = 0"
      "n mod 8 = 0 \<Longrightarrow> n mod 4 = 0 \<and> n mod 2 = 0" for n :: nat
      by presburger+
    show ?thesis using x y m that by metis
  qed
  then show thesis
  proof cases
    case 1
    then show thesis using e [of Y 2] by (intro that [of 6 X "Y div 2"]) (simp_all add: adam7_simps)
  next
    case 2
    then show thesis using e [of Y 2] e [of X 2]
      by (intro that [of 5 "X div 2" "Y div 2"]) (simp_all add: adam7_simps)
  next
    case 3
    then show thesis using e [of Y 4] e [of X 2]
      by (intro that [of 4 "X div 2" "Y div 4"]) (simp_all add: adam7_simps)
  next
    case 4
    then show thesis using e [of Y 4] e [of X 4]
      by (intro that [of 3 "X div 4" "Y div 4"]) (simp_all add: adam7_simps)
  next
    case 5
    then show thesis using e [of Y 8] e [of X 4]
      by (intro that [of 2 "X div 4" "Y div 8"]) (simp_all add: adam7_simps)
  next
    case 6
    then show thesis using e [of Y 8] e [of X 8]
      by (intro that [of 1 "X div 8" "Y div 8"]) (simp_all add: adam7_simps)
  next
    case 7
    then show thesis using e [of Y 8] e [of X 8]
      by (intro that [of 0 "X div 8" "Y div 8"]) (simp_all add: adam7_simps)
  qed
qed

text \<open>A pass holds the pixels of its columns and lines that are inside the image.\<close>

lemma steps_in_range:
  fixes n a d k :: nat
  assumes "a < d" "0 < n"
  shows "k < (n + d - a - 1) div d \<longleftrightarrow> a + k * d < n"
proof -
  have "k < (n + d - a - 1) div d \<longleftrightarrow> Suc k \<le> (n + d - a - 1) div d" by auto
  also have "\<dots> \<longleftrightarrow> Suc k * d \<le> n + d - a - 1" using assms(1) by (simp add: less_eq_div_iff_mult_less_eq)
  also have "\<dots> \<longleftrightarrow> a + k * d < n" using assms by auto
  finally show ?thesis .
qed

lemma set_pass_pixels:
  "(i, y, x) \<in> set (pass_pixels v) \<longleftrightarrow> i < 7 \<and> y < passh v ! i \<and> x < passw v ! i"
  by (simp add: pass_pixels_def image_iff)

lemma pass_pixels_in_image:
  assumes w: "0 < w" "w + 7 < 2 ^ 32" and h: "0 < h" "h + 7 < 2 ^ 32"
  shows "(i, y, x) \<in> set (pass_pixels (Adam7_getpassvalues w h bpp)) \<longleftrightarrow>
    i < 7 \<and> ADAM7_IY ! i + y * ADAM7_DY ! i < h \<and> ADAM7_IX ! i + x * ADAM7_DX ! i < w"
proof (cases "i < 7")
  case True
  note st = adam7_steps [OF True]
  let ?pw = "(w + ADAM7_DX ! i - ADAM7_IX ! i - 1) div ADAM7_DX ! i"
  let ?ph = "(h + ADAM7_DY ! i - ADAM7_IY ! i - 1) div ADAM7_DY ! i"
  have "unsigned_of (w + ADAM7_DX ! i - ADAM7_IX ! i - 1) = w + ADAM7_DX ! i - ADAM7_IX ! i - 1"
    "unsigned_of (h + ADAM7_DY ! i - ADAM7_IY ! i - 1) = h + ADAM7_DY ! i - ADAM7_IY ! i - 1"
    using st(3,4) w(2) h(2) by simp_all
  then have "pass_size w h i = (if ?pw = 0 \<or> ?ph = 0 then 0 else ?pw, if ?pw = 0 \<or> ?ph = 0 then 0 else ?ph)"
    by (simp add: pass_size_def Let_def)
  then have "passw (Adam7_getpassvalues w h bpp) ! i = (if ?pw = 0 \<or> ?ph = 0 then 0 else ?pw)"
    "passh (Adam7_getpassvalues w h bpp) ! i = (if ?pw = 0 \<or> ?ph = 0 then 0 else ?ph)"
    using True by (simp_all add: Adam7_getpassvalues_def Let_def)
  then have "(i, y, x) \<in> set (pass_pixels (Adam7_getpassvalues w h bpp)) \<longleftrightarrow> x < ?pw \<and> y < ?ph"
    using True by (auto simp: set_pass_pixels)
  then show ?thesis
    unfolding steps_in_range [OF st(1) w(1)] steps_in_range [OF st(2) h(1)] using True by auto
qed (simp add: set_pass_pixels)

lemma passw_le: "0 < w \<Longrightarrow> w + 7 < 2 ^ 32 \<Longrightarrow> i < 7 \<Longrightarrow> passw (Adam7_getpassvalues w h bpp) ! i \<le> w"
  and passh_le: "0 < h \<Longrightarrow> h + 7 < 2 ^ 32 \<Longrightarrow> i < 7 \<Longrightarrow> passh (Adam7_getpassvalues w h bpp) ! i \<le> h"
proof -
  have le: "unsigned_of (n + d - a - 1) div d \<le> n" if "a < d" "d \<le> 8" "0 < n" "n + 7 < 2 ^ 32" for n a d :: nat
  proof -
    have "unsigned_of (n + d - a - 1) = n + d - a - 1" using that by simp
    moreover have "\<not> n < (n + d - a - 1) div d"
      unfolding steps_in_range [OF that(1,3)] using that(1) by (cases d) auto
    ultimately show ?thesis by simp
  qed
  show "passw (Adam7_getpassvalues w h bpp) ! i \<le> w" if "0 < w" "w + 7 < 2 ^ 32" "i < 7"
    using le [OF adam7_steps(1,3) [OF that(3)] that(1,2)] that(3)
    by (auto simp: Adam7_getpassvalues_def pass_size_def Let_def)
  show "passh (Adam7_getpassvalues w h bpp) ! i \<le> h" if "0 < h" "h + 7 < 2 ^ 32" "i < 7"
    using le [OF adam7_steps(2,4) [OF that(3)] that(1,2)] that(3)
    by (auto simp: Adam7_getpassvalues_def pass_size_def Let_def)
qed

section \<open>Where the passes start\<close>

lemma starts_snoc: "starts (xs @ [n]) = starts xs @ [last (starts xs) + n]"
  by (simp add: starts_def)

lemma length_starts [simp]: "length (starts xs) = Suc (length xs)"
  by (induction xs rule: rev_induct) (simp_all add: starts_snoc, simp add: starts_def)

lemma last_starts: "last (starts xs) = sum_list xs"
  by (induction xs rule: rev_induct) (simp_all add: starts_snoc, simp add: starts_def)

lemma starts_nth: "i \<le> length xs \<Longrightarrow> starts xs ! i = sum_list (take i xs)"
proof (induction xs rule: rev_induct)
  case Nil
  then show ?case by (simp add: starts_def)
next
  case (snoc n xs)
  then show ?case
    by (cases "i = Suc (length xs)") (simp_all add: starts_snoc nth_append last_starts)
qed

lemma starts_Suc: "i < length xs \<Longrightarrow> starts xs ! Suc i = starts xs ! i + xs ! i"
  by (simp add: starts_nth take_Suc_conv_app_nth)

lemma starts_mono: "i \<le> j \<Longrightarrow> j \<le> length xs \<Longrightarrow> starts xs ! i \<le> starts xs ! j"
proof (induction j)
  case (Suc j)
  then show ?case by (cases "i = Suc j") (auto simp: starts_Suc)
qed simp

text \<open>
  \<open>u\<close> cells to a byte and \<open>n\<close> cells to a pixel: with one cell to a byte the loops move bytes, with
  eight they move bits.
\<close>

definition moves :: "passvalues \<Rightarrow> nat \<Rightarrow> nat \<Rightarrow> nat \<Rightarrow> (nat \<times> nat) list" where
  "moves v w u n = concat (map (\<lambda>(i, y, x). map (\<lambda>b. (image_pos w (i, y, x) * n + b,
     u * passstart v ! i + (y * passw v ! i + x) * n + b)) [0 ..< n]) (pass_pixels v))"

lemma set_moves:
  "(p, q) \<in> set (moves v w u n) \<longleftrightarrow> (\<exists>i y x b. (i, y, x) \<in> set (pass_pixels v) \<and> b < n \<and>
     p = image_pos w (i, y, x) * n + b \<and> q = u * passstart v ! i + (y * passw v ! i + x) * n + b)"
  by (force simp: moves_def)

lemma index_less: "a < m \<Longrightarrow> b < n \<Longrightarrow> a * n + b < m * (n :: nat)"
proof -
  assume "a < m" "b < n"
  then have "a * n + b < Suc a * n" by simp
  also have "\<dots> \<le> m * n" using \<open>a < m\<close> by (intro mult_le_mono1) simp
  finally show ?thesis .
qed

lemma index_inj: "a * n + b = a' * n + b' \<Longrightarrow> b < n \<Longrightarrow> b' < n \<Longrightarrow> a = a' \<and> b = (b' :: nat)"
  by (metis div_mult_self3 mod_less mod_mult_self3 div_less add.commute add_0 gr_implies_not0)

lemma moves_in_image:
  assumes w: "0 < w" "w + 7 < 2 ^ 32" and h: "0 < h" "h + 7 < 2 ^ 32" and n: "0 < n"
  shows "c \<in> fst ` set (moves (Adam7_getpassvalues w h bpp) w u n) \<longleftrightarrow> c < w * h * n"
proof
  let ?v = "Adam7_getpassvalues w h bpp"
  assume "c \<in> fst ` set (moves ?v w u n)"
  then obtain i y x b where k: "(i, y, x) \<in> set (pass_pixels ?v)" "b < n"
      "c = image_pos w (i, y, x) * n + b"
    by (auto simp: set_moves)
  then have "ADAM7_IY ! i + y * ADAM7_DY ! i < h" "ADAM7_IX ! i + x * ADAM7_DX ! i < w"
    by (simp_all add: pass_pixels_in_image [OF w h])
  then have "image_pos w (i, y, x) < h * w" by (simp add: image_pos_def index_less add.assoc)
  then have "image_pos w (i, y, x) * n + b < h * w * n" using k(2) by (rule index_less)
  then show "c < w * h * n" using k(3) by (simp add: mult.commute [of h])
next
  let ?v = "Adam7_getpassvalues w h bpp"
  assume c: "c < w * h * n"
  let ?X = "c div n mod w" and ?Y = "c div n div w"
  have d: "c div n < h * w" using c n by (simp add: less_mult_imp_div_less mult.commute)
  then have Y: "?Y < h" by (rule less_mult_imp_div_less)
  obtain i x y where k: "i < 7" "?X = ADAM7_IX ! i + x * ADAM7_DX ! i" "?Y = ADAM7_IY ! i + y * ADAM7_DY ! i"
    by (rule adam7_cover)
  have "(i, y, x) \<in> set (pass_pixels ?v)"
    unfolding pass_pixels_in_image [OF w h] k(2) [symmetric] k(3) [symmetric] using k(1) Y w(1) by simp
  moreover have "c = image_pos w (i, y, x) * n + c mod n"
  proof -
    have "image_pos w (i, y, x) = ?Y * w + ?X" by (simp add: image_pos_def k(2,3))
    then show ?thesis by simp
  qed
  ultimately have "(c, u * passstart ?v ! i + (y * passw ?v ! i + x) * n + c mod n) \<in> set (moves ?v w u n)"
    unfolding set_moves using mod_less_divisor [OF n] by blast
  then show "c \<in> fst ` set (moves ?v w u n)" by force
qed

text \<open>In the buffer of the passes every cell has its own place, if each pass has room for its pixels.\<close>

definition room :: "passvalues \<Rightarrow> nat \<Rightarrow> nat \<Rightarrow> bool" where
  "room v u n \<longleftrightarrow> (\<forall>i < 7. u * passstart v ! i + passh v ! i * passw v ! i * n \<le> u * passstart v ! Suc i)"

lemma room_mono:
  assumes "room v u n" "i \<le> j" "j \<le> 7" shows "u * passstart v ! i \<le> u * passstart v ! j"
  using assms(2,3)
proof (induction j)
  case (Suc j)
  show ?case
  proof (cases "i = Suc j")
    case False
    then have "u * passstart v ! i \<le> u * passstart v ! j" using Suc by simp
    also have "\<dots> \<le> u * passstart v ! Suc j" using assms(1) [unfolded room_def, rule_format, of j] Suc.prems by linarith
    finally show ?thesis .
  qed simp
qed simp

lemma pass_cell_less:
  assumes "room v u n" "(i, y, x) \<in> set (pass_pixels v)" "b < n"
  shows "u * passstart v ! i + (y * passw v ! i + x) * n + b < u * passstart v ! Suc i"
proof -
  have k: "i < 7" "y < passh v ! i" "x < passw v ! i" using assms(2) by (simp_all add: set_pass_pixels)
  have "(y * passw v ! i + x) * n + b < passh v ! i * passw v ! i * n"
    by (intro index_less k assms(3))
  then show ?thesis using assms(1) k(1) by (fastforce simp: room_def)
qed

lemma moves_out_less:
  assumes "room v u n" "(p, q) \<in> set (moves v w u n)" shows "q < u * passstart v ! 7"
proof -
  obtain i y x b where k: "(i, y, x) \<in> set (pass_pixels v)" "b < n"
      "q = u * passstart v ! i + (y * passw v ! i + x) * n + b"
    using assms(2) by (auto simp: set_moves)
  have "u * passstart v ! Suc i \<le> u * passstart v ! 7"
    by (rule room_mono [OF assms(1)]) (use k(1) in \<open>auto simp: set_pass_pixels\<close>)
  then show ?thesis using pass_cell_less [OF assms(1) k(1,2)] k(3) by linarith
qed

lemma moves_out_inj:
  assumes r: "room v u n" and m: "(p, q) \<in> set (moves v w u n)" "(p', q) \<in> set (moves v w u n)"
  shows "p = p'"
proof -
  obtain i y x b where k: "(i, y, x) \<in> set (pass_pixels v)" "b < n"
      "p = image_pos w (i, y, x) * n + b" "q = u * passstart v ! i + (y * passw v ! i + x) * n + b"
    using m(1) by (auto simp: set_moves)
  obtain i' y' x' b' where k': "(i', y', x') \<in> set (pass_pixels v)" "b' < n"
      "p' = image_pos w (i', y', x') * n + b'" "q = u * passstart v ! i' + (y' * passw v ! i' + x') * n + b'"
    using m(2) by (auto simp: set_moves)
  have apart: "\<not> j < j'" if "u * passstart v ! j' \<le> q" "q < u * passstart v ! Suc j" "j' < 7" for j j'
  proof
    assume "j < j'"
    then have "u * passstart v ! Suc j \<le> u * passstart v ! j'" using that(3) by (intro room_mono [OF r]) simp_all
    then show False using that by linarith
  qed
  have b: "u * passstart v ! i \<le> q" "q < u * passstart v ! Suc i" "i < 7"
      "u * passstart v ! i' \<le> q" "q < u * passstart v ! Suc i'" "i' < 7"
    using k(1,4) k'(1,4) pass_cell_less [OF r k(1,2)] pass_cell_less [OF r k'(1,2)]
    by (simp_all add: set_pass_pixels)
  have i: "i' = i" using apart [OF b(1) b(5) b(3)] apart [OF b(4) b(2) b(6)] by simp
  then have "y * passw v ! i + x = y' * passw v ! i + x' \<and> b = b'"
    using k(2,4) k'(2,4) by (intro index_inj) simp_all
  moreover from this have "y = y' \<and> x = x'"
    using k(1) k'(1) i by (intro index_inj [where n = "passw v ! i"]) (simp_all add: set_pass_pixels)
  ultimately show ?thesis using i k(3) k'(3) by simp
qed

section \<open>The loops as moves\<close>

lemma fold_concat: "fold f (concat xss) s = fold (fold f) xss s"
  by (induction xss arbitrary: s) simp_all


lemma copy_bits_moves:
  "copy_bits n input ibp obp out = (ibp + n, obp + n,
     fold (\<lambda>(p, q) s. put_bit s q (bit_at input p)) (map (\<lambda>b. (ibp + b, obp + b)) [0 ..< n]) out)"
proof (induction n)
  case (Suc n)
  have b: "(drop_bit (7 - (ibp + n) mod 8) (input ! ((ibp + n) div 8)) AND 1 :: byte) =
      of_bool (bit_at input (ibp + n))"
    by (simp add: bit_at_def and_one_eq bit_iff_odd_drop_bit mod_2_eq_odd)
  show ?case
    using Suc by (simp add: copy_bits_def readBitFromReversedStream_def b put_bit_def Let_def
        setBitOfReversedStream_def)
qed (simp add: copy_bits_def)

text \<open>No product that the loops compute in \<open>unsigned\<close> reaches \<open>2 ^ 32\<close>.\<close>

lemma adam7_no_wrap:
  assumes w: "0 < w" and h: "0 < h" and b: "0 < bpp" and small: "w * h * bpp + 7 < 2 ^ 32"
  shows "w + 7 < 2 ^ 32" "h + 7 < 2 ^ 32"
    and "i < 7 \<Longrightarrow> passh (Adam7_getpassvalues w h bpp) ! i * passw (Adam7_getpassvalues w h bpp) ! i * bpp
      \<le> w * h * bpp"
proof -
  have "w * 1 * 1 \<le> w * h * bpp" "1 * h * 1 \<le> w * h * bpp"
    using w h b by (intro mult_le_mono; simp)+
  then show wh: "w + 7 < 2 ^ 32" "h + 7 < 2 ^ 32" using small by linarith+
  show "passh (Adam7_getpassvalues w h bpp) ! i * passw (Adam7_getpassvalues w h bpp) ! i * bpp
      \<le> w * h * bpp" if "i < 7"
    using passw_le [OF w wh(1) that, of h bpp] passh_le [OF h wh(2) that, of w bpp]
    by (intro mult_le_mono1) (simp add: mult.commute [of w] mult_le_mono)
qed

lemma passstart_Suc:
  assumes w: "0 < w" and h: "0 < h" and b: "0 < bpp" and small: "w * h * bpp + 7 < 2 ^ 32" and i: "i < 7"
  defines "v \<equiv> Adam7_getpassvalues w h bpp"
  shows "passstart v ! Suc i = passstart v ! i + (passh v ! i * passw v ! i * bpp + 7) div 8"
proof -
  have "passstart v = starts (map (\<lambda>i. unsigned_of (passh v ! i * passw v ! i * bpp + 7) div 8) [0 ..< 7])"
    by (simp add: v_def Adam7_getpassvalues_def Let_def)
  moreover have "unsigned_of (passh v ! i * passw v ! i * bpp + 7) = passh v ! i * passw v ! i * bpp + 7"
    using adam7_no_wrap(3) [OF w h b small i] small by (fold v_def) (intro mod_less, linarith)
  ultimately show ?thesis using i by (simp add: starts_Suc)
qed

lemma room_bits:
  assumes "0 < w" "0 < h" "0 < bpp" "w * h * bpp + 7 < 2 ^ 32"
  shows "room (Adam7_getpassvalues w h bpp) 8 bpp"
proof -
  have "a \<le> 8 * ((a + 7) div 8)" for a :: nat by linarith
  then show ?thesis unfolding room_def using passstart_Suc [OF assms] by simp
qed


lemma pass_cell_bounds:
  assumes w: "0 < w" and h: "0 < h" and b: "0 < bpp" and small: "w * h * bpp + 7 < 2 ^ 32"
    and k: "(i, y, x) \<in> set (pass_pixels (Adam7_getpassvalues w h bpp))"
  shows "unsigned_of (image_pos w (i, y, x)) = image_pos w (i, y, x)"
    and "unsigned_of (y * passw (Adam7_getpassvalues w h bpp) ! i + x) =
      y * passw (Adam7_getpassvalues w h bpp) ! i + x"
    and "unsigned_of (image_pos w (i, y, x) * bpp) = image_pos w (i, y, x) * bpp"
    and "unsigned_of ((y * passw (Adam7_getpassvalues w h bpp) ! i + x) * bpp) =
      (y * passw (Adam7_getpassvalues w h bpp) ! i + x) * bpp"
    and "unsigned_of (bpp * passw (Adam7_getpassvalues w h bpp) ! i) =
      bpp * passw (Adam7_getpassvalues w h bpp) ! i"
    and "unsigned_of (bpp * w) = bpp * w"
proof -
  let ?v = "Adam7_getpassvalues w h bpp"
  note nw = adam7_no_wrap [OF w h b small]
  have le: "a * 1 \<le> a * bpp" for a using b by (intro mult_le_mono2) simp
  have lt: "a < 2 ^ 32" if "a * bpp < w * h * bpp" for a using that le [of a] small by linarith
  have i: "i < 7" "y < passh ?v ! i" "x < passw ?v ! i" using k by (simp_all add: set_pass_pixels)
  have "(image_pos w (i, y, x) * bpp + 0, 8 * passstart ?v ! i + (y * passw ?v ! i + x) * bpp + 0)
      \<in> set (moves ?v w 8 bpp)"
    unfolding set_moves using k b by blast
  then have "image_pos w (i, y, x) * bpp + 0 \<in> fst ` set (moves ?v w 8 bpp)" by force
  then have ip: "image_pos w (i, y, x) * bpp < w * h * bpp"
    unfolding moves_in_image [OF w nw(1) h nw(2) b] by simp
  have "(y * passw ?v ! i + x) * bpp + 0 < passh ?v ! i * passw ?v ! i * bpp"
    by (intro index_less i b)
  then have op: "(y * passw ?v ! i + x) * bpp < w * h * bpp" using nw(3) [OF i(1)] by linarith
  have "1 * passw ?v ! i * bpp \<le> passh ?v ! i * passw ?v ! i * bpp"
    using i(2) by (intro mult_le_mono1) simp
  then have "1 * passw ?v ! i * bpp \<le> w * h * bpp" using nw(3) [OF i(1)] by (rule order_trans)
  then have il: "bpp * passw ?v ! i \<le> w * h * bpp" by (simp only: mult_1 mult.commute [of bpp])
  have "w * 1 * bpp \<le> w * h * bpp" using h by (intro mult_le_mono1 mult_le_mono2) simp
  then have ol: "bpp * w \<le> w * h * bpp" by (simp add: mult.commute)
  show "unsigned_of (image_pos w (i, y, x)) = image_pos w (i, y, x)"
    by (rule mod_less [OF lt [OF ip]])
  show "unsigned_of (y * passw ?v ! i + x) = y * passw ?v ! i + x"
    by (rule mod_less [OF lt [OF op]])
  show "unsigned_of (image_pos w (i, y, x) * bpp) = image_pos w (i, y, x) * bpp"
    using ip small by (intro mod_less) linarith
  show "unsigned_of ((y * passw ?v ! i + x) * bpp) = (y * passw ?v ! i + x) * bpp"
    using op small by (intro mod_less) linarith
  show "unsigned_of (bpp * passw ?v ! i) = bpp * passw ?v ! i"
    using il small by (intro mod_less) linarith
  show "unsigned_of (bpp * w) = bpp * w" using ol small by (intro mod_less) linarith
qed

lemma fold_pixels_moves:
  assumes "\<And>i y x out. (i, y, x) \<in> set (pass_pixels v) \<Longrightarrow> f (i, y, x) out = fold g (map (\<lambda>b.
    (image_pos w (i, y, x) * n + b, u * passstart v ! i + (y * passw v ! i + x) * n + b)) [0 ..< n]) out"
  shows "fold f (pass_pixels v) out = fold g (moves v w u n) out"
proof -
  have "fold f (pass_pixels v) out = fold (\<lambda>(i, y, x). fold g (map (\<lambda>b. (image_pos w (i, y, x) * n + b,
      u * passstart v ! i + (y * passw v ! i + x) * n + b)) [0 ..< n])) (pass_pixels v) out"
    by (rule fold_cong) (auto simp: assms)
  then show ?thesis by (simp add: moves_def fold_concat fold_map comp_def case_prod_unfold)
qed


lemma interlace_bits:
  assumes a: "0 < w" "0 < h" "0 < n" "w * h * n + 7 < 2 ^ 32" and small: "n < 8"
  defines "v \<equiv> Adam7_getpassvalues w h n"
  shows "Adam7_interlace out input w h n =
      fold (\<lambda>(p, q) s. put_bit s q (bit_at input p)) (moves v w 8 n) out"
    and "Adam7_deinterlace out input w h n =
      fold (\<lambda>(q, p) s. put_bit s p (bit_at input q)) (map prod.swap (moves v w 8 n)) out"
proof -
  note nw = pass_cell_bounds [of w h n, folded v_def]
  have lines: "(i :: nat) * (n * j) + k * n = (i * j + k) * n" for i j k by (simp add: algebra_simps)
  have "fold (\<lambda>(i, y, x) out. snd (snd (copy_bits n input
        (unsigned_of ((ADAM7_IY ! i + y * ADAM7_DY ! i) * unsigned_of (n * w) +
          (ADAM7_IX ! i + x * ADAM7_DX ! i) * n))
        (8 * passstart v ! i + unsigned_of (y * unsigned_of (n * passw v ! i) + x * n)) out)))
        (pass_pixels v) out =
      fold (\<lambda>(p, q) s. put_bit s q (bit_at input p)) (moves v w 8 n) out"
  proof (rule fold_pixels_moves)
    fix i y x out assume k: "(i, y, x) \<in> set (pass_pixels v)"
    show "(\<lambda>(i, y, x) out. snd (snd (copy_bits n input
        (unsigned_of ((ADAM7_IY ! i + y * ADAM7_DY ! i) * unsigned_of (n * w) +
          (ADAM7_IX ! i + x * ADAM7_DX ! i) * n))
        (8 * passstart v ! i + unsigned_of (y * unsigned_of (n * passw v ! i) + x * n)) out))) (i, y, x) out =
      fold (\<lambda>(p, q) s. put_bit s q (bit_at input p)) (map (\<lambda>b. (image_pos w (i, y, x) * n + b,
        8 * passstart v ! i + (y * passw v ! i + x) * n + b)) [0 ..< n]) out"
      using nw(3,4) [OF a k]
      by (simp only: nw(5,6) [OF a k] lines copy_bits_moves image_pos_def prod.case snd_conv add.assoc)
  qed
  then show "Adam7_interlace out input w h n =
      fold (\<lambda>(p, q) s. put_bit s q (bit_at input p)) (moves v w 8 n) out"
    using small by (simp add: Adam7_interlace_def v_def Let_def)
  have "fold (\<lambda>(i, y, x) out. snd (snd (copy_bits n input
        (8 * passstart v ! i + unsigned_of (y * unsigned_of (n * passw v ! i) + x * n))
        ((ADAM7_IY ! i + y * ADAM7_DY ! i) * unsigned_of (n * w) +
          (ADAM7_IX ! i + x * ADAM7_DX ! i) * n) out))) (pass_pixels v) out =
      fold (\<lambda>(p, q) s. put_bit s p (bit_at input q)) (moves v w 8 n) out"
  proof (rule fold_pixels_moves)
    fix i y x out assume k: "(i, y, x) \<in> set (pass_pixels v)"
    show "(\<lambda>(i, y, x) out. snd (snd (copy_bits n input
        (8 * passstart v ! i + unsigned_of (y * unsigned_of (n * passw v ! i) + x * n))
        ((ADAM7_IY ! i + y * ADAM7_DY ! i) * unsigned_of (n * w) +
          (ADAM7_IX ! i + x * ADAM7_DX ! i) * n) out))) (i, y, x) out =
      fold (\<lambda>(p, q) s. put_bit s p (bit_at input q)) (map (\<lambda>b. (image_pos w (i, y, x) * n + b,
        8 * passstart v ! i + (y * passw v ! i + x) * n + b)) [0 ..< n]) out"
      using nw(4) [OF a k]
      by (simp only: nw(5,6) [OF a k] lines copy_bits_moves image_pos_def prod.case snd_conv add.assoc
          fold_map comp_def)
  qed
  then show "Adam7_deinterlace out input w h n =
      fold (\<lambda>(q, p) s. put_bit s p (bit_at input q)) (map prod.swap (moves v w 8 n)) out"
    using small by (simp add: Adam7_deinterlace_def v_def Let_def fold_map comp_def case_prod_unfold)
qed

section \<open>Interlacing and back\<close>


theorem adam7_roundtrip_bits:
  assumes "0 < w" "0 < h" "0 < n" "w * h * n + 7 < 2 ^ 32" "n < 8"
    and "passstart (Adam7_getpassvalues w h n) ! 7 \<le> length mid" "w * h * n \<le> 8 * length out"
    and "c < w * h * n"
  shows "bit_at (Adam7_deinterlace out (Adam7_interlace mid img w h n) w h n) c = bit_at img c"
proof -
  let ?v = "Adam7_getpassvalues w h n"
  note w = adam7_no_wrap(1,2) [OF assms(1-4)]
  note room = room_bits [OF assms(1-4)]
  note ins = moves_in_image [OF assms(1) w(1) assms(2) w(2) assms(3), of _ n 8]
  have m: "p < w * h * n" if "(p, q) \<in> set (moves ?v w 8 n)" for p q
    using that ins by (metis fst_conv image_eqI)
  show ?thesis
    unfolding interlace_bits [OF assms(1-5)]
  proof (rule bit_cells.there_and_back)
    show "\<forall>(p, q) \<in> set (moves ?v w 8 n). q < 8 * length mid"
      using moves_out_less [OF room] assms(6) by fastforce
    show "\<And>p p' q. (p, q) \<in> set (moves ?v w 8 n) \<Longrightarrow> (p', q) \<in> set (moves ?v w 8 n) \<Longrightarrow> p = p'"
      by (rule moves_out_inj [OF room])
    show "\<forall>(p, q) \<in> set (moves ?v w 8 n). p < 8 * length out" using m assms(7) by fastforce
    show "c < 8 * length out" using assms(7,8) by linarith
    show "c \<in> fst ` set (moves ?v w 8 n)" unfolding ins by (rule assms(8))
  qed
qed

lemma upt7: "[0 ..< 7] = [0, 1, 2, 3, 4, 5, 6 :: nat]"
  by (simp add: upt_rec)

lemmas adam7_eval = Adam7_getpassvalues_def pass_size_def starts_def adam7_simps Let_def upt7


section \<open>Where the sizes wrap\<close>

text \<open>
  \<open>passh[i] * passw[i] * bpp\<close> is computed in \<open>unsigned\<close>, although the size of the image was checked
  in \<open>size_t\<close>: the last pass of an image of 32768 by 16384 pixels of 32 bits has \<open>2 ^ 33\<close> bits and is
  given no bytes at all.
\<close>

theorem adam7_sizes_wrap:
  "lodepng_get_bpp lodepng_color_mode_init = 32 \<and>
   \<not> lodepng_pixel_overflow 32768 16384 lodepng_color_mode_init lodepng_color_mode_init \<and>
   (let v = Adam7_getpassvalues 32768 16384 32 in
    passw v ! 6 * passh v ! 6 * 32 = 2 ^ 33 \<and> passstart v ! 7 = passstart v ! 6)"
proof -
  have rgba8: "lodepng_get_bpp lodepng_color_mode_init = 32" by code_simp
  have "\<not> lodepng_pixel_overflow 32768 16384 lodepng_color_mode_init lodepng_color_mode_init"
    by (simp add: lodepng_pixel_overflow_def lodepng_mulofl_def lodepng_addofl_def rgba8)
  then show ?thesis by (simp add: adam7_eval rgba8)
qed

end
