(* ===== verification/Png_Info.thy ===== *)
theory Png_Info
  imports Png_Color Png_Compress
begin

unbundle bit_operations_syntax

text \<open>
  What \<open>lodepng.cpp\<close> keeps about an image besides its pixels, and the settings of the encoder and the
  decoder. A C string is the list of its bytes without the terminator, the arrays of texts are lists,
  and a buffer of unknown chunks that is the null pointer is the empty list. Initialisation leaves
  some fields as they were in memory, so it is an update of a record that is there already.
\<close>

section \<open>The records\<close>

record LodePNGTime =
  year :: u32
  month :: u32
  day :: u32
  hour :: u32
  minute :: u32
  second :: u32

record LodePNGInfo =
  compression_method :: nat
  filter_method :: nat
  interlace_method :: nat
  color :: LodePNGColorMode
  background_defined :: bool
  background_r :: u32
  background_g :: u32
  background_b :: u32
  texts :: "(bytes \<times> bytes) list"
  itexts :: "(bytes \<times> bytes \<times> bytes \<times> bytes) list"
  time_defined :: bool
  time :: LodePNGTime
  phys_defined :: bool
  phys_x :: u32
  phys_y :: u32
  phys_unit :: u32
  gama_defined :: bool
  gama_gamma :: u32
  chrm_defined :: bool
  chrm_white_x :: u32
  chrm_white_y :: u32
  chrm_red_x :: u32
  chrm_red_y :: u32
  chrm_green_x :: u32
  chrm_green_y :: u32
  chrm_blue_x :: u32
  chrm_blue_y :: u32
  srgb_defined :: bool
  srgb_intent :: u32
  iccp_defined :: bool
  iccp_name :: "bytes option"
  iccp_profile :: "bytes option"
  iccp_profile_size :: nat
  unknown_chunks_data :: "bytes list"

record LodePNGDecoderSettings =
  zlibsettings_dec :: LodePNGDecompressSettings
  ignore_crc :: bool
  ignore_critical :: bool
  ignore_end :: bool
  color_convert :: bool
  read_text_chunks :: bool
  remember_unknown_chunks :: bool
  max_text_size :: nat
  max_icc_size :: nat

type_synonym LodePNGFilterStrategy = nat

abbreviation (input) LFS_ZERO :: LodePNGFilterStrategy where "LFS_ZERO \<equiv> 0"
abbreviation (input) LFS_FOUR :: LodePNGFilterStrategy where "LFS_FOUR \<equiv> 4"
abbreviation (input) LFS_MINSUM :: LodePNGFilterStrategy where "LFS_MINSUM \<equiv> 5"
abbreviation (input) LFS_ENTROPY :: LodePNGFilterStrategy where "LFS_ENTROPY \<equiv> 6"
abbreviation (input) LFS_BRUTE_FORCE :: LodePNGFilterStrategy where "LFS_BRUTE_FORCE \<equiv> 7"
abbreviation (input) LFS_PREDEFINED :: LodePNGFilterStrategy where "LFS_PREDEFINED \<equiv> 8"

record LodePNGEncoderSettings =
  zlibsettings :: LodePNGCompressSettings
  auto_convert :: bool
  filter_palette_zero :: bool
  filter_strategy :: LodePNGFilterStrategy
  predefined_filters :: "bytes option"
  force_palette :: bool
  add_id :: bool
  text_compression :: bool

record LodePNGState =
  decoder :: LodePNGDecoderSettings
  encoder :: LodePNGEncoderSettings
  info_raw :: LodePNGColorMode
  info_png :: LodePNGInfo
  state_error :: nat

section \<open>Strings\<close>

text \<open>What \<open>lodepng_strlen\<close> sees of memory, and so what \<open>alloc_string\<close> copies.\<close>

definition lodepng_strlen :: "bytes \<Rightarrow> nat" where
  "lodepng_strlen a = length (takeWhile (\<lambda>c. c \<noteq> 0) a)"

definition alloc_string_sized :: "bytes \<Rightarrow> nat \<Rightarrow> bytes" where
  "alloc_string_sized src insize = take insize src"

definition alloc_string :: "bytes \<Rightarrow> bytes" where
  "alloc_string src = alloc_string_sized src (lodepng_strlen src)"

lemma alloc_string_takeWhile: "alloc_string s = takeWhile (\<lambda>c. c \<noteq> 0) s"
  unfolding alloc_string_def alloc_string_sized_def lodepng_strlen_def by (rule takeWhile_eq_take [symmetric])

lemma alloc_string_id: "0 \<notin> set s \<Longrightarrow> alloc_string s = s"
  unfolding alloc_string_takeWhile by (rule takeWhile_eq_all_conv [THEN iffD2]) auto

section \<open>Texts\<close>

definition LodePNGText_init :: "LodePNGInfo \<Rightarrow> LodePNGInfo" where
  "LodePNGText_init info = info\<lparr>texts := []\<rparr>"

definition lodepng_add_text_sized :: "LodePNGInfo \<Rightarrow> bytes \<Rightarrow> bytes \<Rightarrow> nat \<Rightarrow> LodePNGInfo" where
  "lodepng_add_text_sized info key str n =
     info\<lparr>texts := texts info @ [(alloc_string key, alloc_string_sized str n)]\<rparr>"

definition lodepng_add_text :: "LodePNGInfo \<Rightarrow> bytes \<Rightarrow> bytes \<Rightarrow> LodePNGInfo" where
  "lodepng_add_text info key str = lodepng_add_text_sized info key str (lodepng_strlen str)"

definition LodePNGText_copy :: "LodePNGInfo \<Rightarrow> LodePNGInfo \<Rightarrow> LodePNGInfo" where
  "LodePNGText_copy dest source =
     fold (\<lambda>(key, str) dest. lodepng_add_text dest key str) (texts source) (dest\<lparr>texts := []\<rparr>)"

definition LodePNGIText_init :: "LodePNGInfo \<Rightarrow> LodePNGInfo" where
  "LodePNGIText_init info = info\<lparr>itexts := []\<rparr>"

definition lodepng_add_itext_sized ::
  "LodePNGInfo \<Rightarrow> bytes \<Rightarrow> bytes \<Rightarrow> bytes \<Rightarrow> bytes \<Rightarrow> nat \<Rightarrow> LodePNGInfo" where
  "lodepng_add_itext_sized info key langtag transkey str n =
     info\<lparr>itexts := itexts info @ [(alloc_string key, alloc_string langtag, alloc_string transkey,
       alloc_string_sized str n)]\<rparr>"

definition lodepng_add_itext ::
  "LodePNGInfo \<Rightarrow> bytes \<Rightarrow> bytes \<Rightarrow> bytes \<Rightarrow> bytes \<Rightarrow> LodePNGInfo" where
  "lodepng_add_itext info key langtag transkey str =
     lodepng_add_itext_sized info key langtag transkey str (lodepng_strlen str)"

definition LodePNGIText_copy :: "LodePNGInfo \<Rightarrow> LodePNGInfo \<Rightarrow> LodePNGInfo" where
  "LodePNGIText_copy dest source =
     fold (\<lambda>(key, langtag, transkey, str) dest. lodepng_add_itext dest key langtag transkey str)
       (itexts source) (dest\<lparr>itexts := []\<rparr>)"

section \<open>Colour profiles and unknown chunks\<close>

definition lodepng_clear_icc :: "LodePNGInfo \<Rightarrow> LodePNGInfo" where
  "lodepng_clear_icc info =
     info\<lparr>iccp_name := None, iccp_profile := None, iccp_profile_size := 0, iccp_defined := False\<rparr>"

text \<open>The error, and the record; without an error the profile has been copied.\<close>

definition lodepng_assign_icc :: "LodePNGInfo \<Rightarrow> bytes \<Rightarrow> bytes \<Rightarrow> nat \<Rightarrow> nat \<times> LodePNGInfo" where
  "lodepng_assign_icc info name profile profile_size =
     (if profile_size = 0 then (100, info)
      else (0, info\<lparr>iccp_name := Some (alloc_string name), iccp_profile := Some (take profile_size profile),
                   iccp_profile_size := profile_size\<rparr>))"

definition lodepng_set_icc :: "LodePNGInfo \<Rightarrow> bytes \<Rightarrow> bytes \<Rightarrow> nat \<Rightarrow> nat \<times> LodePNGInfo" where
  "lodepng_set_icc info name profile profile_size =
     (let info = (if iccp_name info \<noteq> None then lodepng_clear_icc info else info);
          info = info\<lparr>iccp_defined := True\<rparr> in
      lodepng_assign_icc info name profile profile_size)"

definition LodePNGUnknownChunks_init :: "LodePNGInfo \<Rightarrow> LodePNGInfo" where
  "LodePNGUnknownChunks_init info = info\<lparr>unknown_chunks_data := [[], [], []]\<rparr>"

definition LodePNGUnknownChunks_copy :: "LodePNGInfo \<Rightarrow> LodePNGInfo \<Rightarrow> LodePNGInfo" where
  "LodePNGUnknownChunks_copy dest src =
     dest\<lparr>unknown_chunks_data := map (\<lambda>i. unknown_chunks_data src ! i) [0 ..< 3]\<rparr>"

section \<open>The whole record\<close>

definition lodepng_info_init :: "LodePNGInfo \<Rightarrow> LodePNGInfo" where
  "lodepng_info_init info =
     (let info = info\<lparr>color := lodepng_color_mode_init, interlace_method := 0, compression_method := 0,
        filter_method := 0, background_defined := False, background_r := 0, background_g := 0,
        background_b := 0\<rparr>;
          info = LodePNGText_init info;
          info = LodePNGIText_init info;
          info = info\<lparr>time_defined := False, phys_defined := False, gama_defined := False,
        chrm_defined := False, srgb_defined := False, iccp_defined := False, iccp_name := None,
        iccp_profile := None\<rparr> in
      LodePNGUnknownChunks_init info)"

text \<open>The texts and unknown chunks are freed, but the pointers to them stay.\<close>

definition lodepng_info_cleanup :: "LodePNGInfo \<Rightarrow> LodePNGInfo" where
  "lodepng_info_cleanup info =
     lodepng_clear_icc (info\<lparr>color := lodepng_color_mode_cleanup (color info)\<rparr>)"

text \<open>
  After an error the destination keeps what has been copied by then, and shares with the source the
  rest of what it points to.
\<close>

definition lodepng_info_copy ::
  "(nat \<Rightarrow> byte) \<Rightarrow> LodePNGInfo \<Rightarrow> LodePNGInfo \<Rightarrow> nat \<times> LodePNGInfo" where
  "lodepng_info_copy junk dest source =
     (let dest = lodepng_info_cleanup dest;
          dest = source;
          dest = dest\<lparr>color := lodepng_color_mode_copy junk lodepng_color_mode_init (color source)\<rparr>;
          dest = LodePNGText_copy dest source;
          dest = LodePNGIText_copy dest source;
          (error, dest) =
            (if iccp_defined source
             then lodepng_assign_icc dest (the (iccp_name source)) (the (iccp_profile source))
               (iccp_profile_size source)
             else (0, dest)) in
      if error \<noteq> 0 then (error, dest)
      else (0, LodePNGUnknownChunks_copy (LodePNGUnknownChunks_init dest) source))"

section \<open>Settings and states\<close>

definition lodepng_decoder_settings_init :: LodePNGDecoderSettings where
  "lodepng_decoder_settings_init =
     \<lparr>zlibsettings_dec = lodepng_decompress_settings_init, ignore_crc = False, ignore_critical = False,
      ignore_end = False, color_convert = True, read_text_chunks = True,
      remember_unknown_chunks = False, max_text_size = 16777216, max_icc_size = 16777216\<rparr>"

definition lodepng_encoder_settings_init :: LodePNGEncoderSettings where
  "lodepng_encoder_settings_init =
     \<lparr>zlibsettings = lodepng_compress_settings_init, auto_convert = True, filter_palette_zero = True,
      filter_strategy = LFS_MINSUM, predefined_filters = None, force_palette = False, add_id = False,
      text_compression = True\<rparr>"

definition lodepng_state_init :: "LodePNGState \<Rightarrow> LodePNGState" where
  "lodepng_state_init state =
     state\<lparr>decoder := lodepng_decoder_settings_init, encoder := lodepng_encoder_settings_init,
       info_raw := lodepng_color_mode_init, info_png := lodepng_info_init (info_png state),
       state_error := 1\<rparr>"

definition lodepng_state_cleanup :: "LodePNGState \<Rightarrow> LodePNGState" where
  "lodepng_state_cleanup state =
     state\<lparr>info_raw := lodepng_color_mode_cleanup (info_raw state),
       info_png := lodepng_info_cleanup (info_png state)\<rparr>"

definition lodepng_state_copy ::
  "(nat \<Rightarrow> byte) \<Rightarrow> LodePNGState \<Rightarrow> LodePNGState \<Rightarrow> LodePNGState" where
  "lodepng_state_copy junk dest source =
     (let dest = lodepng_state_cleanup dest;
          dest = source;
          dest = dest\<lparr>info_raw := lodepng_color_mode_copy junk lodepng_color_mode_init (info_raw source),
            state_error := 0\<rparr>;
          (error, info) = lodepng_info_copy junk (lodepng_info_init (info_png dest)) (info_png source) in
      dest\<lparr>info_png := info, state_error := error\<rparr>)"

text \<open>A copy is the original, apart from the unused part of a palette, if the strings are terminated.\<close>

definition strings_ok :: "LodePNGInfo \<Rightarrow> bool" where
  "strings_ok info \<longleftrightarrow> (\<forall>(k, s) \<in> set (texts info). 0 \<notin> set k \<and> 0 \<notin> set s) \<and>
     (\<forall>(k, l, t, s) \<in> set (itexts info). 0 \<notin> set k \<and> 0 \<notin> set l \<and> 0 \<notin> set t \<and> 0 \<notin> set s) \<and>
     length (unknown_chunks_data info) = 3 \<and> \<not> iccp_defined info"

lemma Text_copy_fold:
  assumes "\<forall>(k, s) \<in> set ts. 0 \<notin> set k \<and> 0 \<notin> set s"
  shows "fold (\<lambda>(key, str) dest. lodepng_add_text dest key str) ts dest = dest\<lparr>texts := texts dest @ ts\<rparr>"
  using assms
proof (induction ts arbitrary: dest)
  case (Cons t ts)
  then show ?case
    by (auto simp: lodepng_add_text_def lodepng_add_text_sized_def alloc_string_id alloc_string_def [symmetric])
qed simp

lemma IText_copy_fold:
  assumes "\<forall>(k, l, t, s) \<in> set ts. 0 \<notin> set k \<and> 0 \<notin> set l \<and> 0 \<notin> set t \<and> 0 \<notin> set s"
  shows "fold (\<lambda>(key, langtag, transkey, str) dest. lodepng_add_itext dest key langtag transkey str) ts dest =
    dest\<lparr>itexts := itexts dest @ ts\<rparr>"
  using assms
proof (induction ts arbitrary: dest)
  case (Cons t ts)
  then show ?case
    by (auto simp: lodepng_add_itext_def lodepng_add_itext_sized_def alloc_string_id alloc_string_def [symmetric])
qed simp

lemma info_copy_same:
  assumes "strings_ok info"
  shows "lodepng_info_copy junk dest info =
    (0, info\<lparr>color := lodepng_color_mode_copy junk lodepng_color_mode_init (color info)\<rparr>)"
proof -
  have "length (unknown_chunks_data info) = 3" using assms by (simp add: strings_ok_def)
  then have "map (\<lambda>i. unknown_chunks_data info ! i) [0 ..< 3] = unknown_chunks_data info"
    by (metis map_nth)
  then show ?thesis
    using assms
    by (simp add: lodepng_info_copy_def strings_ok_def LodePNGText_copy_def Text_copy_fold
        LodePNGIText_copy_def IText_copy_fold LodePNGUnknownChunks_copy_def LodePNGUnknownChunks_init_def)
qed

end
