(* ===== verification/Png_Unscan.thy ===== *)
theory Png_Unscan
  imports Png_Scanlines
begin

unbundle bit_operations_syntax

text \<open>
  \<open>postProcessScanlines\<close> takes back what \<open>preProcessScanlines\<close> made: the filters of every strategy,
  unfiltering within one buffer, and the padding of lines.
\<close>

section \<open>Writing into a buffer\<close>

lemma length_put_bytes [simp]: "off + length src \<le> length buf \<Longrightarrow> length (put_bytes off src buf) = length buf"
  by (simp add: put_bytes_def)

lemma drop_put_bytes: "off + length src \<le> k \<Longrightarrow> off \<le> length buf \<Longrightarrow> drop k (put_bytes off src buf) = drop k buf"
  by (simp add: put_bytes_def drop_append)

lemma take_drop_put_bytes: "off \<le> length buf \<Longrightarrow> take (length src) (drop off (put_bytes off src buf)) = src"
  by (simp add: put_bytes_def)

lemma take_drop_put_bytes_before:
  assumes "j + m \<le> off" "off + length src \<le> length buf"
  shows "take m (drop j (put_bytes off src buf)) = take m (drop j buf)"
  by (rule nth_equalityI) (use assms in \<open>simp_all add: put_bytes_def nth_append\<close>)

lemma nth_put_bytes_after:
  "off + length src \<le> k \<Longrightarrow> off \<le> length buf \<Longrightarrow> k < length buf \<Longrightarrow> put_bytes off src buf ! k = buf ! k"
  by (auto simp: put_bytes_def nth_append)

lemma put_bytes_put_bytes:
  "off \<le> length buf \<Longrightarrow> put_bytes (off + length xs) ys (put_bytes off xs buf) = put_bytes off (xs @ ys) buf"
  by (simp add: put_bytes_def add.commute add.left_commute)

lemma put_bytes_all: "length src = length buf \<Longrightarrow> put_bytes 0 src buf = src"
  by (simp add: put_bytes_def)

lemma put_bytes_Nil: "put_bytes off [] buf = buf"
  by (simp add: put_bytes_def)

section \<open>Every strategy filters with valid types\<close>

definition filters_ok :: "LodePNGEncoderSettings \<Rightarrow> nat \<Rightarrow> bool" where
  "filters_ok settings h \<longleftrightarrow> filter_strategy settings \<le> LFS_PREDEFINED \<and>
     (filter_strategy settings = LFS_PREDEFINED \<longrightarrow>
       (case predefined_filters settings of None \<Rightarrow> False
        | Some types \<Rightarrow> h \<le> length types \<and> list_all (\<lambda>t. t \<le> 4) types))"

lemma brute_size_Some:
  assumes "attempt \<noteq> []" shows "brute_size junk settings attempt \<noteq> None"
  using assms
  by (simp add: brute_size_def brute_settings_def zlib_compress_def lodepng_zlib_compress_def deflate_def
      lodepng_deflate_def lodepng_deflatev_def Let_def)

lemma brute_types_Some:
  assumes "\<And>t. t \<in> set types \<Longrightarrow> filterScanline [] line prevline linebytes bytewidth t \<noteq> []"
  shows "\<exists>t. brute_types junk settings linebytes bytewidth line prevline types (b, n) = Some t \<and>
    (t = b \<or> t \<in> set types)"
  using assms
proof (induction types arbitrary: b n)
  case (Cons t types)
  obtain m where m: "brute_size junk settings (filterScanline [] line prevline linebytes bytewidth t) = Some m"
    using brute_size_Some Cons.prems by fastforce
  show ?case using Cons.IH [of t m] Cons.IH [of b n] Cons.prems by (auto simp: m)
qed simp

lemma filterScanline_blank:
  "t \<le> 4 \<Longrightarrow> bytewidth \<le> len \<Longrightarrow>
    filterScanline out line prev len bytewidth t = filterScanline out' line prev len bytewidth t"
  by (simp add: filterScanline_predict)

definition brute_pick ::
  "(nat \<Rightarrow> nat) \<Rightarrow> LodePNGEncoderSettings \<Rightarrow> nat \<Rightarrow> nat \<Rightarrow> nat \<Rightarrow> bytes \<Rightarrow> bytes option \<Rightarrow> byte" where
  "brute_pick junk settings linebytes bytewidth y line prev =
     the (brute_types junk settings linebytes bytewidth line prev [0, 1, 2, 3, 4] (0, 0))"

lemma brute_loop_filter:
  assumes "1 \<le> bytewidth" "bytewidth \<le> linebytes"
  shows "brute_pick junk settings linebytes bytewidth y line prev' \<le> 4"
    and "brute_loop junk settings input linebytes bytewidth ys prev out =
      Some (filter_loop (brute_pick junk settings linebytes bytewidth) blank input linebytes bytewidth ys prev out)"
proof -
  have ne: "filterScanline [] line prev linebytes bytewidth t \<noteq> []" if "t \<in> set [0, 1, 2, 3, 4]" for line prev t
    using length_filterScanline [of t bytewidth linebytes "[]" line prev] that assms(1,2) by auto
  have ex: "\<exists>t. brute_types junk settings linebytes bytewidth line prev [0, 1, 2, 3, 4] (0, 0) = Some t \<and> t \<le> 4"
    for line prev
    using brute_types_Some [of "[0, 1, 2, 3, 4]" line prev linebytes bytewidth junk settings 0 0] ne by fastforce
  let ?pick = "brute_pick junk settings linebytes bytewidth"
  have p: "?pick y line prev \<le> 4"
    "brute_types junk settings linebytes bytewidth line prev [0, 1, 2, 3, 4] (0, 0) = Some (?pick y line prev)"
    for y line prev
    using ex [of line prev] by (auto simp: brute_pick_def)
  show "?pick y line prev' \<le> 4" by (rule p)
  show "brute_loop junk settings input linebytes bytewidth ys prev out =
      Some (filter_loop ?pick blank input linebytes bytewidth ys prev out)"
  proof (induction ys arbitrary: prev out)
    case (Cons y ys)
    show ?case
      unfolding brute_loop.simps filter_loop.simps Let_def p(2) [of _ _ y] option.case
        filterScanline_blank [OF p(1) assms(2), of "[]" _ _ _ _ _ blank] by (rule Cons)
  qed simp
qed

lemma filter_loop_cong:
  "(\<And>y line prev. y \<in> set ys \<Longrightarrow> pick y line prev = pick' y line prev) \<Longrightarrow>
   filter_loop pick blank input linebytes bytewidth ys prev out =
   filter_loop pick' blank input linebytes bytewidth ys prev out"
  by (induction ys arbitrary: prev out) (simp_all add: Let_def)

lemma image_filter_pick:
  assumes ok: "filters_ok settings h" and bpp: "0 < lodepng_get_bpp mode" and w: "0 < w"
  defines "linebytes \<equiv> lodepng_get_raw_size_idat w 1 (lodepng_get_bpp mode) - 1"
  shows "\<exists>pick. (\<forall>y line prev. pick y line prev \<le> 4) \<and>
    image_filter junk blank input w h mode settings =
      Some (Inr (filter_loop pick blank input linebytes ((lodepng_get_bpp mode + 7) div 8) [0 ..< h] None []))"
proof -
  let ?bpp = "lodepng_get_bpp mode" let ?bw = "(?bpp + 7) div 8"
  have l: "linebytes = (w * ?bpp + 7) div 8" unfolding linebytes_def raw_size_idat_line by simp
  have bw: "1 \<le> ?bw" "?bw \<le> linebytes"
    using bpp w unfolding l by (simp, intro div_le_mono add_le_mono1) simp
  define strategy where "strategy = (if filter_palette_zero settings \<and>
    (colortype mode = LCT_PALETTE \<or> bitdepth mode < 8) then LFS_ZERO else filter_strategy settings)"
  define run where "run = (\<lambda>pick. Some (Inr (filter_loop pick blank input linebytes ?bw [0 ..< h] None [])) :: bytes png option)"
  have f: "image_filter junk blank input w h mode settings =
     (if strategy \<le> LFS_FOUR then run (\<lambda>y line prevline. word_of_nat strategy)
      else if strategy = LFS_MINSUM then run (\<lambda>y. minsum_type linebytes ?bw)
      else if strategy = LFS_ENTROPY then run (\<lambda>y. entropy_type linebytes ?bw)
      else if strategy = LFS_PREDEFINED then
        (case predefined_filters settings of
           None \<Rightarrow> if h = 0 then run (\<lambda>y line prevline. 0) else None
         | Some types \<Rightarrow> if length types < h then None else run (\<lambda>y line prevline. types ! y))
      else if strategy = LFS_BRUTE_FORCE then
        map_option Inr (brute_loop junk settings input linebytes ?bw [0 ..< h] None [])
      else Some (Inl 88))"
    using bpp unfolding image_filter_def Let_def strategy_def [symmetric] linebytes_def [symmetric] run_def by simp
  have s: "strategy \<le> 8" using ok by (auto simp: filters_ok_def strategy_def)
  have run: "\<exists>pick'. (\<forall>y line prev. pick' y line prev \<le> 4) \<and> run pick = run pick'"
    if "\<And>y line prev. y < h \<Longrightarrow> pick y line prev \<le> 4" for pick
  proof (intro exI conjI allI)
    show "run pick = run (\<lambda>y line prev. if y < h then pick y line prev else 0)"
      unfolding run_def by (auto intro!: filter_loop_cong)
  qed (use that in auto)
  consider "strategy \<le> 4" | "strategy = 5" | "strategy = 6" | "strategy = 8" | "strategy = 7" using s by linarith
  then have "\<exists>pick. (\<forall>y line prev. pick y line prev \<le> 4) \<and> image_filter junk blank input w h mode settings = run pick"
  proof cases
    case 1
    have "word_of_nat strategy \<le> (4 :: byte)" using 1 by (simp add: word_le_nat_alt unat_of_nat)
    then show ?thesis using run [of "\<lambda>y line prevline. word_of_nat strategy"] 1 by (simp add: f)
  next
    case 2
    then show ?thesis using run [of "\<lambda>y. minsum_type linebytes ?bw"] by (simp add: f minsum_type_le)
  next
    case 3
    then show ?thesis using run [of "\<lambda>y. entropy_type linebytes ?bw"] by (simp add: f entropy_type_le)
  next
    case 4
    then have "filter_strategy settings = 8" by (auto simp: strategy_def split: if_splits)
    then obtain types where "predefined_filters settings = Some types" "h \<le> length types"
      "list_all (\<lambda>t. t \<le> 4) types"
      using ok by (auto simp: filters_ok_def split: option.splits)
    then show ?thesis using run [of "\<lambda>y line prevline. types ! y"] 4 by (simp add: f list_all_length)
  next
    case 5
    have "image_filter junk blank input w h mode settings = run (brute_pick junk settings linebytes ?bw)"
      using 5 by (simp add: f run_def brute_loop_filter(2) [OF bw, where blank = blank])
    then show ?thesis using brute_loop_filter(1) [OF bw, of junk settings] by blast
  qed
  then show ?thesis by (simp add: run_def)
qed

section \<open>Unfiltering within one buffer\<close>

lemma unfilterScanline_length:
  assumes "unfilterScanline scanline prev bytewidth ft len = Inr line" "1 \<le> bytewidth" "bytewidth \<le> len"
  shows "length line = len"
proof (cases "ft \<le> 4")
  case True
  then show ?thesis using assms(1) unfilterScanline_line [OF True assms(2,3)] by (auto simp: spec_line_def)
next
  case False
  then have "ft \<noteq> 0" "ft \<noteq> 1" "ft \<noteq> 2" "ft \<noteq> 3" "ft \<noteq> 4" by auto
  then show ?thesis using assms(1) by (simp add: unfilterScanline_def)
qed

lemma unfilter_in_loop_unfilter:
  assumes "outpos \<le> inpos" "inpos + (1 + linebytes) * h \<le> length buf" "1 \<le> bytewidth" "bytewidth \<le> linebytes"
    and "y \<le> h" "length out = linebytes * y"
    and "prev = map_option (\<lambda>p. take linebytes (drop p (put_bytes outpos out buf))) ptr"
    and "unfilter_loop (drop inpos buf) bytewidth linebytes [y ..< h] prev out = Inr img"
  shows "unfilter_in_loop outpos inpos bytewidth linebytes [y ..< h] ptr (put_bytes outpos out buf) =
    Inr (put_bytes outpos img buf) \<and> length img = linebytes * h"
  using assms(5-8)
proof (induction "h - y" arbitrary: y out prev ptr)
  case 0
  then show ?case by simp
next
  case (Suc k)
  have y: "y < h" using Suc.hyps(2) by linarith
  let ?i = "(1 + linebytes) * y" and ?buf = "put_bytes outpos out buf"
  let ?scan = "take linebytes (drop (inpos + ?i + 1) buf)"
  have up: "[y ..< h] = y # [y + 1 ..< h]" using y by (simp add: upt_conv_Cons)
  have "(1 + linebytes) * (y + 1) \<le> (1 + linebytes) * h" using y by (intro mult_le_mono2) simp
  then have i: "inpos + ?i + 1 + linebytes \<le> length buf" using assms(2) by simp
  have o: "outpos + length out \<le> inpos + ?i" "outpos \<le> length buf"
    using assms(1) Suc.prems(2) i by simp_all
  have t: "?buf ! (inpos + ?i) = buf ! (inpos + ?i)" "drop inpos buf ! ?i = buf ! (inpos + ?i)"
    using o i by (simp_all add: nth_put_bytes_after)
  have d: "drop (inpos + ?i + 1) ?buf = drop (inpos + ?i + 1) buf"
    "drop (?i + 1) (drop inpos buf) = drop (inpos + ?i + 1) buf"
    using o by (simp_all add: drop_put_bytes add.commute add.left_commute)
  obtain line where line: "unfilterScanline ?scan prev bytewidth (buf ! (inpos + ?i)) linebytes = Inr line"
    "unfilter_loop (drop inpos buf) bytewidth linebytes [y + 1 ..< h] (Some line) (out @ line) = Inr img"
    using Suc.prems(4) unfolding up unfilter_loop.simps Let_def t(2) d(2)
    by (auto split: sum.splits)
  have l: "length line = linebytes" by (rule unfilterScanline_length [OF line(1) assms(3,4)])
  have b: "put_bytes (outpos + linebytes * y) line ?buf = put_bytes outpos (out @ line) buf"
    using put_bytes_put_bytes [OF o(2), of out line] Suc.prems(2) by simp
  have "take linebytes (drop (outpos + linebytes * y) (put_bytes outpos (out @ line) buf)) = line"
    using o Suc.prems(2) l by (simp add: put_bytes_def)
  then have "unfilter_in_loop outpos inpos bytewidth linebytes [y + 1 ..< h] (Some (outpos + linebytes * y))
      (put_bytes outpos (out @ line) buf) = Inr (put_bytes outpos img buf) \<and> length img = linebytes * h"
    using Suc.hyps(2) Suc.prems(2) y l
    by (intro Suc.hyps(1) [of "y + 1" _ "Some line"] line(2)) simp_all
  then show ?case
    unfolding up unfilter_in_loop.simps Let_def t(1) d(1) Suc.prems(3) [symmetric] line(1) sum.case b
    by simp
qed

lemma unfilter_in_unfilter:
  assumes "outpos \<le> inpos" "0 < w" "0 < bpp"
    and "inpos + lodepng_get_raw_size_idat w 1 bpp * h \<le> length buf"
    and "unfilter (drop inpos buf) w h bpp = Inr img"
  shows "unfilter_in outpos inpos w h bpp buf = Inr (put_bytes outpos img buf)"
    and "length img = (w * bpp + 7) div 8 * h"
proof -
  let ?l = "lodepng_get_raw_size_idat w 1 bpp - 1"
  have l: "?l = (w * bpp + 7) div 8" "lodepng_get_raw_size_idat w 1 bpp = 1 + ?l"
    unfolding raw_size_idat_line by simp_all
  have "bpp \<le> w * bpp" using assms(2) by simp
  then have "(bpp + 7) div 8 \<le> ?l" unfolding l(1) by (intro div_le_mono) simp
  moreover have "1 \<le> (bpp + 7) div 8" using assms(3) by simp
  moreover have "unfilter_loop (drop inpos buf) ((bpp + 7) div 8) ?l [0 ..< h] None [] = Inr img"
    using assms(5) by (simp only: unfilter_def Let_def)
  moreover have "inpos + (1 + ?l) * h \<le> length buf" using assms(4) l(2) by simp
  ultimately have "unfilter_in_loop outpos inpos ((bpp + 7) div 8) ?l [0 ..< h] None (put_bytes outpos [] buf) =
      Inr (put_bytes outpos img buf) \<and> length img = ?l * h"
    using assms(1) by (intro unfilter_in_loop_unfilter [where prev = None]) simp_all
  then show "unfilter_in outpos inpos w h bpp buf = Inr (put_bytes outpos img buf)"
    "length img = (w * bpp + 7) div 8 * h"
    unfolding unfilter_in_def put_bytes_Nil l(1) by simp_all
qed

section \<open>Moves within one buffer\<close>

text \<open>If no move reads what an earlier one wrote, moving within a buffer is moving from a copy of it.\<close>

context cells
begin

lemma moves_in_place:
  assumes "sorted_wrt (\<lambda>m m'. snd m \<noteq> fst m') ms" "\<forall>(p, q) \<in> set ms. p < cap s \<and> q < cap s"
  shows "fold (\<lambda>(p, q) s. put s q (get s p)) ms s = fold (\<lambda>(p, q) s'. put s' q (get s p)) ms s"
  using assms
proof (induction ms arbitrary: s)
  case (Cons m ms)
  obtain p q where m: "m = (p, q)" by fastforce
  have "fold (\<lambda>(p, q) s. put s q (get s p)) ms (put s q (get s p)) =
      fold (\<lambda>(p', q') s'. put s' q' (get (put s q (get s p)) p')) ms (put s q (get s p))"
    using Cons.prems by (intro Cons.IH) (auto simp: cap_put)
  also have "\<dots> = fold (\<lambda>(p', q') s'. put s' q' (get s p')) ms (put s q (get s p))"
  proof (intro fold_cong refl)
    fix m' assume m': "m' \<in> set ms"
    obtain p' q' where "m' = (p', q')" by fastforce
    moreover have "fst m' \<noteq> q" "fst m' < cap s" "p < cap s" "q < cap s"
      using Cons.prems m' m by (auto split: prod.splits)
    ultimately show "(case m' of (p', q') \<Rightarrow> \<lambda>s'. put s' q' (get (put s q (get s p)) p')) =
        (case m' of (p', q') \<Rightarrow> \<lambda>s'. put s' q' (get s p'))"
      by (simp add: get_put)
  qed
  finally show ?case by (simp add: m)
qed simp

end

section \<open>Padding\<close>

definition pad_moves :: "nat \<Rightarrow> nat \<Rightarrow> nat \<Rightarrow> (nat option \<times> nat) list" where
  "pad_moves h il ol = concat (map (\<lambda>y. map (\<lambda>b. (if b < il then Some (y * il + b) else None, y * ol + b))
     [0 ..< ol]) [0 ..< h])"

definition unpad_moves :: "nat \<Rightarrow> nat \<Rightarrow> nat \<Rightarrow> (nat \<times> nat) list" where
  "unpad_moves h ol il = concat (map (\<lambda>y. map (\<lambda>b. (y * il + b, y * ol + b)) [0 ..< ol]) [0 ..< h])"

lemma fold_zero_bits:
  "fold (\<lambda>x (out, obp). setBitOfReversedStream obp out 0) [0 ..< n] (out, obp) =
     (fold (\<lambda>b s. put_bit s (obp + b) False) [0 ..< n] out, obp + n)"
  by (induction n) (auto simp: put_bit_def setBitOfReversedStream_def Let_def)

lemma Suc_mult: "Suc m * n = m * n + n"
  by simp

lemma addPaddingBits_moves:
  assumes "il \<le> ol"
  shows "addPaddingBits out input ol il h =
    fold (\<lambda>(p, q) s. put_bit s q (case p of None \<Rightarrow> False | Some p \<Rightarrow> bit_at input p)) (pad_moves h il ol) out"
proof -
  let ?put = "\<lambda>(p, q) s. put_bit s q (case p of None \<Rightarrow> False | Some p \<Rightarrow> bit_at input p)"
  have "fold (\<lambda>y (ibp, obp, out).
          (let (ibp, obp, out) = copy_bits il input ibp obp out;
               (out, obp) = fold (\<lambda>x (out, obp). setBitOfReversedStream obp out 0) [0 ..< ol - il] (out, obp) in
           (ibp, obp, out))) [0 ..< h] (0, 0, out) =
      (h * il, h * ol, fold ?put (pad_moves h il ol) out)"
  proof (induction h)
    case (Suc h)
    have u: "[0 ..< ol] = [0 ..< il] @ map (\<lambda>b. il + b) [0 ..< ol - il]"
      using assms by (intro nth_equalityI) (auto simp: nth_append)
    have i: "fold (\<lambda>b s. put_bit s (h * ol + b) (case if b < il then Some (h * il + b) else None of
          None \<Rightarrow> False | Some p \<Rightarrow> bit_at input p)) [0 ..< il] s =
        fold (\<lambda>b s. put_bit s (h * ol + b) (bit_at input (h * il + b))) [0 ..< il] s" for s
      by (rule fold_cong) auto
    have "fold ?put (map (\<lambda>b. (if b < il then Some (h * il + b) else None, h * ol + b)) [0 ..< ol]) s =
        fold (\<lambda>b s. put_bit s (h * ol + il + b) False) [0 ..< ol - il]
          (fold (\<lambda>(p, q) s. put_bit s q (bit_at input p)) (map (\<lambda>b. (h * il + b, h * ol + b)) [0 ..< il]) s)" for s
      unfolding u by (simp add: fold_map comp_def add.assoc i)
    then show ?case
      using assms Suc unfolding Suc_mult by (simp add: copy_bits_moves fold_zero_bits pad_moves_def del: mult_Suc)
  qed (simp add: pad_moves_def)
  then show ?thesis by (simp add: addPaddingBits_def)
qed

lemma removePaddingBits_moves:
  assumes "ol \<le> il"
  shows "removePaddingBits out input ol il h =
    fold (\<lambda>(p, q) s. put_bit s q (bit_at input p)) (unpad_moves h ol il) out"
proof -
  have "fold (\<lambda>y (ibp, obp, out). (let (ibp, obp, out) = copy_bits ol input ibp obp out in (ibp + (il - ol), obp, out)))
        [0 ..< h] (0, 0, out) =
      (h * il, h * ol, fold (\<lambda>(p, q) s. put_bit s q (bit_at input p)) (unpad_moves h ol il) out)"
    using assms by (induction h) (simp_all add: unpad_moves_def copy_bits_moves add.commute)
  then show ?thesis by (simp add: removePaddingBits_def)
qed

lemma copy_bits_in_moves:
  "copy_bits_in n ibp obp buf = (ibp + n, obp + n,
     fold (\<lambda>(p, q) s. put_bit s q (bit_at s p)) (map (\<lambda>b. (ibp + b, obp + b)) [0 ..< n]) buf)"
proof (induction n)
  case (Suc n)
  have b: "(drop_bit (7 - (ibp + n) mod 8) (s ! ((ibp + n) div 8)) AND 1 :: byte) =
      of_bool (bit_at s (ibp + n))" for s
    by (simp add: bit_at_def and_one_eq bit_iff_odd_drop_bit mod_2_eq_odd)
  show ?case
    using Suc by (simp add: copy_bits_in_def readBitFromReversedStream_def b put_bit_def Let_def
        setBitOfReversedStream_def)
qed (simp add: copy_bits_in_def)

lemma removePaddingBits_in_moves:
  assumes "ol \<le> il"
  shows "removePaddingBits_in outpos inpos ol il h buf =
    fold (\<lambda>(p, q) s. put_bit s q (bit_at s p))
      (map (\<lambda>(p, q). (8 * inpos + p, 8 * outpos + q)) (unpad_moves h ol il)) buf"
proof -
  have "fold (\<lambda>y (ibp, obp, buf). (let (ibp, obp, buf) = copy_bits_in ol ibp obp buf in (ibp + (il - ol), obp, buf)))
        [0 ..< h] (8 * inpos, 8 * outpos, buf) =
      (8 * inpos + h * il, 8 * outpos + h * ol, fold (\<lambda>(p, q) s. put_bit s q (bit_at s p))
        (map (\<lambda>(p, q). (8 * inpos + p, 8 * outpos + q)) (unpad_moves h ol il)) buf)"
    using assms by (induction h) (simp_all add: unpad_moves_def copy_bits_in_moves ac_simps comp_def)
  then show ?thesis by (simp add: removePaddingBits_in_def)
qed

subsection \<open>What the moves leave\<close>

lemma set_pad_moves:
  "(p, q) \<in> set (pad_moves h il ol) \<longleftrightarrow> q < h * ol \<and>
     p = (if q mod ol < il then Some (q div ol * il + q mod ol) else None)"
proof
  assume "(p, q) \<in> set (pad_moves h il ol)"
  then obtain y b where "y < h" "b < ol" "q = y * ol + b" "p = (if b < il then Some (y * il + b) else None)"
    by (auto simp: pad_moves_def)
  then show "q < h * ol \<and> p = (if q mod ol < il then Some (q div ol * il + q mod ol) else None)"
    using index_less [of y h b ol] by simp
next
  assume a: "q < h * ol \<and> p = (if q mod ol < il then Some (q div ol * il + q mod ol) else None)"
  then have "0 < ol" by (cases ol) simp_all
  then have "q div ol < h" "q mod ol < ol" using a by (simp_all add: less_mult_imp_div_less)
  then show "(p, q) \<in> set (pad_moves h il ol)"
    using a unfolding pad_moves_def by (auto intro!: image_eqI [of _ _ "q mod ol"] bexI [of _ "q div ol"])
qed

lemma set_unpad_moves:
  "(p, q) \<in> set (unpad_moves h ol il) \<longleftrightarrow> q < h * ol \<and> p = q div ol * il + q mod ol"
proof
  assume "(p, q) \<in> set (unpad_moves h ol il)"
  then obtain y b where "y < h" "b < ol" "q = y * ol + b" "p = y * il + b" by (auto simp: unpad_moves_def)
  then show "q < h * ol \<and> p = q div ol * il + q mod ol" using index_less [of y h b ol] by simp
next
  assume a: "q < h * ol \<and> p = q div ol * il + q mod ol"
  then have "0 < ol" by (cases ol) simp_all
  then have "q div ol < h" "q mod ol < ol" using a by (simp_all add: less_mult_imp_div_less)
  then show "(p, q) \<in> set (unpad_moves h ol il)"
    using a unfolding unpad_moves_def by (auto intro!: image_eqI [of _ _ "q mod ol"] bexI [of _ "q div ol"])
qed

lemma length_put_bits [simp]: "length (fold (\<lambda>(p, q) s. put_bit s q (val p)) ms s) = length s"
  using bit_cells.cap_moves [of val ms s] by simp

lemma length_padding [simp]:
  "il \<le> ol \<Longrightarrow> length (addPaddingBits out input ol il h) = length out"
  "ol \<le> il \<Longrightarrow> length (removePaddingBits out input ol il h) = length out"
  by (simp_all add: addPaddingBits_moves removePaddingBits_moves)

lemma bit_at_addPaddingBits:
  assumes "il \<le> ol" "h * ol \<le> 8 * length out" "q < h * ol"
  shows "bit_at (addPaddingBits out input ol il h) q \<longleftrightarrow>
    q mod ol < il \<and> bit_at input (q div ol * il + q mod ol)"
proof -
  let ?val = "\<lambda>p. case p of None \<Rightarrow> False | Some p \<Rightarrow> bit_at input p"
  let ?res = "\<lambda>q. q mod ol < il \<and> bit_at input (q div ol * il + q mod ol)"
  have "bit_at (fold (\<lambda>(p, q) s. put_bit s q (?val p)) (pad_moves h il ol) out) q =
      (if q \<in> snd ` set (pad_moves h il ol) then ?res q else bit_at out q)"
    by (rule bit_cells.get_moves) (use assms in \<open>auto simp: set_pad_moves split: if_splits\<close>)
  moreover have "q \<in> snd ` set (pad_moves h il ol)" using assms(3) by (auto simp: set_pad_moves image_iff Bex_def)
  ultimately show ?thesis by (simp add: addPaddingBits_moves [OF assms(1)])
qed

lemma bit_at_removePaddingBits:
  assumes "ol \<le> il" "h * ol \<le> 8 * length out" "q < 8 * length out"
  shows "bit_at (removePaddingBits out input ol il h) q \<longleftrightarrow>
    (if q < h * ol then bit_at input (q div ol * il + q mod ol) else bit_at out q)"
proof -
  let ?res = "\<lambda>q. bit_at input (q div ol * il + q mod ol)"
  have "bit_at (fold (\<lambda>(p, q) s. put_bit s q (bit_at input p)) (unpad_moves h ol il) out) q =
      (if q \<in> snd ` set (unpad_moves h ol il) then ?res q else bit_at out q)"
    by (rule bit_cells.get_moves) (use assms in \<open>auto simp: set_unpad_moves\<close>)
  moreover have "q \<in> snd ` set (unpad_moves h ol il) \<longleftrightarrow> q < h * ol"
    by (auto simp: set_unpad_moves image_iff Bex_def)
  ultimately show ?thesis by (simp add: removePaddingBits_moves [OF assms(1)])
qed

lemma unpad_pad:
  assumes "il \<le> ol" "h * ol \<le> 8 * length mid" "h * il \<le> 8 * length out" "c < h * il"
    and same: "\<And>q. q < h * ol \<Longrightarrow> bit_at mid' q = bit_at (addPaddingBits mid input ol il h) q"
  shows "bit_at (removePaddingBits out mid' il ol h) c = bit_at input c"
proof -
  have il: "0 < il" using assms(4) by (cases il) simp_all
  have y: "c div il < h" "c mod il < il" using assms(4) il by (simp_all add: less_mult_imp_div_less)
  let ?q = "c div il * ol + c mod il"
  have q: "?q < h * ol" by (rule index_less) (use y assms(1) in simp_all)
  have "?q div ol = c div il" "?q mod ol = c mod il" using y assms(1) by simp_all
  then show ?thesis
    using bit_at_removePaddingBits [OF assms(1,3), of c] bit_at_addPaddingBits [OF assms(1,2) q, of input]
      assms(3,4) y same [OF q] by simp
qed

text \<open>Bytes with the same bits are the same.\<close>

lemma bytes_eqI:
  assumes "length xs = length ys" "\<And>c. c < 8 * length xs \<Longrightarrow> bit_at xs c = bit_at ys c"
  shows "xs = ys"
proof (rule nth_equalityI [OF assms(1)])
  fix i assume i: "i < length xs"
  show "xs ! i = ys ! i"
  proof (rule bit_word_eqI)
    fix n assume "n < LENGTH(8)"
    then have n: "n < 8" by simp
    then have "8 * i + (7 - n) < 8 * length xs" using i by linarith
    moreover have "(8 * i + k) div 8 = i" "(8 * i + k) mod 8 = k" if "k < 8" for k :: nat using that by simp_all
    from this [of "7 - n"] n have "(8 * i + (7 - n)) div 8 = i" "7 - (8 * i + (7 - n)) mod 8 = n" by simp_all
    ultimately show "bit (xs ! i) n = bit (ys ! i) n"
      using assms(2) [of "8 * i + (7 - n)"] unfolding bit_at_def by metis
  qed
qed

section \<open>Images without interlacing\<close>

lemma length_filter_loop:
  assumes "\<And>y line prev. pick y line prev \<le> 4" "bytewidth \<le> linebytes"
  shows "length (filter_loop pick blank input linebytes bytewidth ys prev out) =
    length out + (1 + linebytes) * length ys"
  by (induction ys arbitrary: prev out) (simp_all add: Let_def length_filterScanline [OF assms])

text \<open>Bits per pixel of a valid mode: less than a byte, or whole bytes.\<close>

lemma valid_bpp:
  assumes "checkColorValidity (colortype mode) (bitdepth mode) = 0"
  shows "lodepng_get_bpp mode < 8 \<or> 8 dvd lodepng_get_bpp mode" "0 < lodepng_get_bpp mode" "lodepng_get_bpp mode \<le> 64"
  using assms valid_color_bpp [OF assms]
  by (auto simp: lodepng_get_bpp_def checkColorValidity_def lodepng_get_bpp_lct_def getNumColorChannels_def
      split: if_splits)

lemma image_filter_back:
  assumes ok: "filters_ok settings h" and bpp: "0 < lodepng_get_bpp mode" and w: "0 < w"
    and len: "length lines = (w * lodepng_get_bpp mode + 7) div 8 * h"
  shows "\<exists>fs. image_filter junk blank lines w h mode settings = Some (Inr fs) \<and>
    length fs = lodepng_get_raw_size_idat w h (lodepng_get_bpp mode) \<and>
    unfilter fs w h (lodepng_get_bpp mode) = Inr lines"
proof -
  let ?bpp = "lodepng_get_bpp mode" let ?bw = "(?bpp + 7) div 8"
  define l where "l = lodepng_get_raw_size_idat w 1 ?bpp - 1"
  have l: "l = (w * ?bpp + 7) div 8" unfolding l_def raw_size_idat_line by simp
  have "?bpp \<le> w * ?bpp" using w by simp
  then have bw: "?bw \<le> l" unfolding l by (intro div_le_mono) simp
  obtain pick where p: "\<And>y line prev. pick y line prev \<le> 4"
    "image_filter junk blank lines w h mode settings = Some (Inr (filter_loop pick blank lines l ?bw [0 ..< h] None []))"
    using image_filter_pick [OF ok bpp w, folded l_def] by blast
  have "lodepng_get_raw_size_idat w h ?bpp = h * lodepng_get_raw_size_idat w 1 ?bpp"
    by (simp add: lodepng_get_raw_size_idat_def)
  also have "\<dots> = (1 + l) * h" unfolding raw_size_idat_line l by simp
  finally show ?thesis
    using p image_roundtrip [OF p(1) w bpp len, where blank = blank, folded l_def] length_filter_loop [OF p(1) bw]
    by simp
qed

definition image_size_ok :: "nat \<Rightarrow> nat \<Rightarrow> nat \<Rightarrow> bool" where
  "image_size_ok w h bpp \<longleftrightarrow> 0 < w \<and> 0 < h \<and> w * bpp + 7 < 2 ^ 32 \<and> h * (1 + (w * bpp + 7) div 8) < 2 ^ 32"

lemma bit_at_append: "c < 8 * length xs \<Longrightarrow> bit_at (xs @ ys) c = bit_at xs c"
  by (simp add: bit_at_def nth_append)

lemma plain_scanlines_back:
  assumes size: "image_size_ok w h (lodepng_get_bpp (color info))"
    and valid: "checkColorValidity (colortype (color info)) (bitdepth (color info)) = 0"
    and ok: "filters_ok settings h" and plain: "interlace_method info = 0"
    and len: "length img = (w * h * lodepng_get_bpp (color info) + 7) div 8"
  shows "\<exists>fs. preProcessScanlines junk mem img w h info settings = Some (Inr fs) \<and>
    length fs = lodepng_get_raw_size_idat w h (lodepng_get_bpp (color info)) \<and>
    (\<forall>out info'. lodepng_get_bpp (color info') = lodepng_get_bpp (color info) \<longrightarrow> interlace_method info' = 0 \<longrightarrow>
      length out = length img \<longrightarrow> (\<exists>img'. postProcessScanlines out fs w h info' = Inr img' \<and>
        length img' = length img \<and> (\<forall>c < w * h * lodepng_get_bpp (color info). bit_at img' c = bit_at img c)))"
proof -
  define bpp where "bpp = lodepng_get_bpp (color info)"
  define l where "l = (w * bpp + 7) div 8"
  note s = size [folded bpp_def, unfolded image_size_ok_def, folded l_def]
  note v = valid_bpp [OF valid, folded bpp_def]
  have filter_back: "\<exists>fs. image_filter junk blank lines w h (color info) settings = Some (Inr fs) \<and>
      length fs = lodepng_get_raw_size_idat w h bpp \<and> unfilter fs w h bpp = Inr lines"
    if "length lines = l * h" for lines blank
    using image_filter_back [OF ok v(2) [unfolded bpp_def], of w lines junk blank] s that by (simp add: l_def bpp_def)
  have l8: "l * 8 < 2 ^ 32" using s unfolding l_def by linarith
  have pl: "padded_line w bpp = l" "unsigned_of (w * bpp) = w * bpp" "unsigned_of (l * 8) = l * 8"
    using s l8 by (simp_all add: padded_line_def l_def)
  have sz: "unsigned_of (h * l) = h * l" "unsigned_of (h + h * l) = h + h * l" using s by simp_all
  have idat: "lodepng_get_raw_size_idat w h bpp = h + h * l"
    using raw_size_idat_line [of w bpp] by (simp add: lodepng_get_raw_size_idat_def l_def)
  have il: "w * bpp \<le> l * 8" unfolding l_def by linarith
  have pre: "preProcessScanlines junk mem img w h info settings = Some (Inr fs)"
    if "(if bpp < 8 \<and> w * bpp \<noteq> l * 8 then pad_lines mem img w h bpp (h * l) else Some img) = Some lines"
      "image_filter junk (fresh mem (h + h * l)) lines w h (color info) settings = Some (Inr fs)"
      "length fs = h + h * l" for fs lines
    using that unfolding preProcessScanlines_def bpp_def [symmetric] Let_def pl sz
    by (simp add: plain write_at_def put_bytes_all fresh_def)
  show ?thesis
  proof (cases "bpp < 8 \<and> w * bpp \<noteq> l * 8")
    case True
    define lines where "lines = addPaddingBits (fresh mem (h * l)) img (l * 8) (w * bpp) h"
    have ll: "length lines = l * h" using il by (simp add: lines_def fresh_def mult.commute)
    have pad: "pad_lines mem img w h bpp (h * l) = Some lines"
      unfolding pad_lines_def pl lines_def Let_def by simp
    obtain fs where fs: "image_filter junk (fresh mem (h + h * l)) lines w h (color info) settings = Some (Inr fs)"
      "length fs = lodepng_get_raw_size_idat w h bpp" "unfilter fs w h bpp = Inr lines"
      using filter_back [OF ll] by blast
    have "\<exists>img'. postProcessScanlines out fs w h info' = Inr img' \<and> length img' = length img \<and>
        (\<forall>c < w * h * bpp. bit_at img' c = bit_at img c)"
      if i: "lodepng_get_bpp (color info') = bpp" "interlace_method info' = 0" "length out = length img" for out info'
    proof -
      have "lodepng_get_raw_size_idat w 1 bpp * h \<le> length fs"
        by (simp add: fs(2) lodepng_get_raw_size_idat_def)
      then have u: "unfilter_in 0 0 w h bpp fs = Inr (put_bytes 0 lines fs)"
        using unfilter_in_unfilter(1) [of 0 0 w bpp h fs lines] s v(2) fs(3) by simp
      have post: "postProcessScanlines out fs w h info' =
          Inr (removePaddingBits out (put_bytes 0 lines fs) (w * bpp) (l * 8) h)"
        unfolding postProcessScanlines_def i Let_def pl u using True v(2) by simp
      have room: "h * (w * bpp) \<le> 8 * length out" using i(3) len by (simp add: bpp_def mult.commute mult.left_commute)
      have "bit_at (removePaddingBits out (put_bytes 0 lines fs) (w * bpp) (l * 8) h) c = bit_at img c"
        if "c < w * h * bpp" for c
      proof (rule unpad_pad [OF il _ room])
        show "c < h * (w * bpp)" using that by (simp add: mult.commute mult.left_commute)
        show "h * (l * 8) \<le> 8 * length (fresh mem (h * l))" by (simp add: fresh_def)
        show "bit_at (put_bytes 0 lines fs) q = bit_at (addPaddingBits (fresh mem (h * l)) img (l * 8) (w * bpp) h) q"
          if "q < h * (l * 8)" for q
          using that ll by (simp add: put_bytes_def bit_at_append lines_def mult.commute mult.left_commute)
      qed
      then show ?thesis using post il i(3) by simp
    qed
    then show ?thesis
      using pre [of lines fs] fs(1,2) True pad idat unfolding bpp_def [symmetric]
      by (intro exI [of _ fs]) simp
  next
    case False
    then have w8: "w * bpp = l * 8" using v(1) by (auto simp: l_def elim!: dvdE)
    have "w * h * bpp = h * (w * bpp)" by simp
    then have "w * h * bpp = l * h * 8" unfolding w8 by simp
    then have ll: "length img = l * h" using len unfolding bpp_def [symmetric]
      by (simp only:)
    obtain fs where fs: "image_filter junk (fresh mem (h + h * l)) img w h (color info) settings = Some (Inr fs)"
      "length fs = lodepng_get_raw_size_idat w h bpp" "unfilter fs w h bpp = Inr img"
      using filter_back [OF ll] by blast
    have "postProcessScanlines out fs w h info' = Inr img"
      if i: "lodepng_get_bpp (color info') = bpp" "interlace_method info' = 0" "length out = length img" for out info'
      unfolding postProcessScanlines_def i(1,2) Let_def pl fs(3)
      using False v(2) i(3) by (auto simp: put_bytes_all)
    then show ?thesis
      using pre [of img fs] fs(1,2) False idat unfolding bpp_def [symmetric]
      by (intro exI [of _ fs]) simp
  qed
qed

end
