(* ===== verification/Png_Writers.thy ===== *)
theory Png_Writers
  imports Png_Scanlines Png_Roundtrip
begin

unbundle bit_operations_syntax

text \<open>
  The functions \<open>addChunk_*\<close> of \<open>lodepng.cpp\<close>, which append one chunk to the file. A writer takes the
  file so far and gives the error, zero for none, and the file; \<open>None\<close> is undefined behaviour. The
  lemmas say which bytes each of them appends.
\<close>

section \<open>Names of chunks\<close>

definition IHDR_type :: bytes where "IHDR_type = [73, 72, 68, 82]"
definition PLTE_type :: bytes where "PLTE_type = [80, 76, 84, 69]"
definition tRNS_type :: bytes where "tRNS_type = [116, 82, 78, 83]"
definition IDAT_type :: bytes where "IDAT_type = [73, 68, 65, 84]"
definition IEND_type :: bytes where "IEND_type = [73, 69, 78, 68]"
definition tEXt_type :: bytes where "tEXt_type = [116, 69, 88, 116]"
definition zTXt_type :: bytes where "zTXt_type = [122, 84, 88, 116]"
definition iTXt_type :: bytes where "iTXt_type = [105, 84, 88, 116]"
definition bKGD_type :: bytes where "bKGD_type = [98, 75, 71, 68]"
definition tIME_type :: bytes where "tIME_type = [116, 73, 77, 69]"
definition pHYs_type :: bytes where "pHYs_type = [112, 72, 89, 115]"
definition gAMA_type :: bytes where "gAMA_type = [103, 65, 77, 65]"
definition cHRM_type :: bytes where "cHRM_type = [99, 72, 82, 77]"
definition sRGB_type :: bytes where "sRGB_type = [115, 82, 71, 66]"
definition iCCP_type :: bytes where "iCCP_type = [105, 67, 67, 80]"

lemmas chunk_types = IHDR_type_def PLTE_type_def tRNS_type_def IDAT_type_def IEND_type_def tEXt_type_def
  zTXt_type_def iTXt_type_def bKGD_type_def tIME_type_def pHYs_type_def gAMA_type_def cHRM_type_def
  sRGB_type_def iCCP_type_def

section \<open>Writing a chunk\<close>

text \<open>
  What all writers do: make room, fill in the data, and compute the CRC. The length is an \<open>unsigned\<close>,
  so the data of a chunk of \<open>2 ^ 32\<close> bytes and more is written past the end of the buffer.
\<close>

type_synonym writer = "bytes \<Rightarrow> (nat \<times> bytes) option"

definition put_chunk :: "(nat \<Rightarrow> byte) \<Rightarrow> bytes \<Rightarrow> bytes \<Rightarrow> writer" where
  "put_chunk mem type data out =
     (case lodepng_chunk_init mem out (word_of_nat (length data)) type of
        Inl e \<Rightarrow> Some (e, out)
      | Inr (chunk, buf) \<Rightarrow>
          if unsigned_of (length data) < length data then None
          else Some (0, lodepng_chunk_generate_crc (put_bytes (chunk + 8) data buf) chunk))"

definition create_chunk :: "(nat \<Rightarrow> byte) \<Rightarrow> bytes \<Rightarrow> bytes \<Rightarrow> writer" where
  "create_chunk mem type data out =
     (case lodepng_chunk_createv mem out (word_of_nat (length data)) type data of
        Inl e \<Rightarrow> Some (e, out) | Inr out \<Rightarrow> Some (0, out))"

definition writeSignature :: writer where
  "writeSignature out = Some (0, out @ [137, 80, 78, 71, 13, 10, 26, 10])"

definition addChunk_IHDR :: "(nat \<Rightarrow> byte) \<Rightarrow> nat \<Rightarrow> nat \<Rightarrow> LodePNGColorType \<Rightarrow> nat \<Rightarrow> nat \<Rightarrow> writer" where
  "addChunk_IHDR mem w h ct bd interlace =
     put_chunk mem IHDR_type
       (lodepng_set32bitInt (word_of_nat w) @ lodepng_set32bitInt (word_of_nat h) @
        [word_of_nat bd, word_of_nat ct, 0, 0, word_of_nat interlace])"

definition palette_rgb :: "LodePNGColorMode \<Rightarrow> bytes" where
  "palette_rgb info =
     (let p = palette_bytes info in
      concat (map (\<lambda>i. [p ! (i * 4), p ! (i * 4 + 1), p ! (i * 4 + 2)]) [0 ..< palettesize info]))"

definition addChunk_PLTE :: "(nat \<Rightarrow> byte) \<Rightarrow> LodePNGColorMode \<Rightarrow> writer" where
  "addChunk_PLTE mem info = put_chunk mem PLTE_type (palette_rgb info)"

text \<open>The last opaque colours of a palette need no alpha.\<close>

fun alpha_amount :: "bytes \<Rightarrow> nat \<Rightarrow> nat" where
  "alpha_amount p 0 = 0"
| "alpha_amount p (Suc i) = (if p ! (4 * i + 3) \<noteq> 255 then Suc i else alpha_amount p i)"

definition two_bytes :: "u32 \<Rightarrow> bytes" where
  "two_bytes v = [ucast (drop_bit 8 v), ucast (v AND 255)]"

definition addChunk_tRNS :: "(nat \<Rightarrow> byte) \<Rightarrow> LodePNGColorMode \<Rightarrow> writer" where
  "addChunk_tRNS mem info out =
     (if colortype info = LCT_PALETTE then
        (let p = palette_bytes info; amount = alpha_amount p (palettesize info) in
         if amount \<noteq> 0 then put_chunk mem tRNS_type (map (\<lambda>i. p ! (4 * i + 3)) [0 ..< amount]) out
         else Some (0, out))
      else if colortype info = LCT_GREY \<and> key_defined info then
        put_chunk mem tRNS_type (two_bytes (key_r info)) out
      else if colortype info = LCT_RGB \<and> key_defined info then
        put_chunk mem tRNS_type (two_bytes (key_r info) @ two_bytes (key_g info) @ two_bytes (key_b info)) out
      else Some (0, out))"

definition addChunk_IDAT ::
  "(nat \<Rightarrow> nat) \<Rightarrow> (nat \<Rightarrow> byte) \<Rightarrow> bytes \<Rightarrow> LodePNGCompressSettings \<Rightarrow> writer" where
  "addChunk_IDAT junk mem data settings out =
     (case zlib_compress junk data settings of
        None \<Rightarrow> None
      | Some (Inl e) \<Rightarrow> Some (e, out)
      | Some (Inr zlib) \<Rightarrow> create_chunk mem IDAT_type zlib out)"

definition addChunk_IEND :: "(nat \<Rightarrow> byte) \<Rightarrow> writer" where
  "addChunk_IEND mem = create_chunk mem IEND_type []"

section \<open>Ancillary chunks\<close>

definition bad_keyword :: "bytes \<Rightarrow> bool" where
  "bad_keyword keyword \<longleftrightarrow> lodepng_strlen keyword < 1 \<or> lodepng_strlen keyword > 79"

definition addChunk_tEXt :: "(nat \<Rightarrow> byte) \<Rightarrow> bytes \<Rightarrow> bytes \<Rightarrow> writer" where
  "addChunk_tEXt mem keyword str out =
     (if bad_keyword keyword then Some (89, out)
      else put_chunk mem tEXt_type
        (take (lodepng_strlen keyword) keyword @ [0] @ take (lodepng_strlen str) str) out)"

definition addChunk_zTXt ::
  "(nat \<Rightarrow> nat) \<Rightarrow> (nat \<Rightarrow> byte) \<Rightarrow> bytes \<Rightarrow> bytes \<Rightarrow> LodePNGCompressSettings \<Rightarrow> writer" where
  "addChunk_zTXt junk mem keyword str settings out =
     (if bad_keyword keyword then Some (89, out)
      else
        (case zlib_compress junk (take (lodepng_strlen str) str) settings of
           None \<Rightarrow> None
         | Some (Inl e) \<Rightarrow> Some (e, out)
         | Some (Inr compressed) \<Rightarrow>
             put_chunk mem zTXt_type (take (lodepng_strlen keyword) keyword @ [0, 0] @ compressed) out))"

definition addChunk_iTXt ::
  "(nat \<Rightarrow> nat) \<Rightarrow> (nat \<Rightarrow> byte) \<Rightarrow> bool \<Rightarrow> bytes \<Rightarrow> bytes \<Rightarrow> bytes \<Rightarrow> bytes \<Rightarrow> LodePNGCompressSettings \<Rightarrow>
   writer" where
  "addChunk_iTXt junk mem compress keyword langtag transkey str settings out =
     (let text = take (lodepng_strlen str) str;
          put = (\<lambda>flag body. put_chunk mem iTXt_type
            (take (lodepng_strlen keyword) keyword @ [0, flag, 0] @
             take (lodepng_strlen langtag) langtag @ [0] @
             take (lodepng_strlen transkey) transkey @ [0] @ body) out) in
      if bad_keyword keyword then Some (89, out)
      else if compress then
        (case zlib_compress junk text settings of
           None \<Rightarrow> None
         | Some (Inl e) \<Rightarrow> Some (e, out)
         | Some (Inr compressed) \<Rightarrow> put 1 compressed)
      else put 0 text)"

definition addChunk_bKGD :: "(nat \<Rightarrow> byte) \<Rightarrow> LodePNGInfo \<Rightarrow> writer" where
  "addChunk_bKGD mem info out =
     (let ct = colortype (color info) in
      if ct = LCT_GREY \<or> ct = LCT_GREY_ALPHA then put_chunk mem bKGD_type (two_bytes (background_r info)) out
      else if ct = LCT_RGB \<or> ct = LCT_RGBA then
        put_chunk mem bKGD_type
          (two_bytes (background_r info) @ two_bytes (background_g info) @ two_bytes (background_b info)) out
      else if ct = LCT_PALETTE then put_chunk mem bKGD_type [ucast (background_r info AND 255)] out
      else Some (0, out))"

definition addChunk_tIME :: "(nat \<Rightarrow> byte) \<Rightarrow> LodePNGTime \<Rightarrow> writer" where
  "addChunk_tIME mem t =
     put_chunk mem tIME_type
       (two_bytes (year t) @ [ucast (month t), ucast (day t), ucast (hour t), ucast (minute t), ucast (second t)])"

definition addChunk_pHYs :: "(nat \<Rightarrow> byte) \<Rightarrow> LodePNGInfo \<Rightarrow> writer" where
  "addChunk_pHYs mem info =
     put_chunk mem pHYs_type
       (lodepng_set32bitInt (phys_x info) @ lodepng_set32bitInt (phys_y info) @ [ucast (phys_unit info)])"

definition addChunk_gAMA :: "(nat \<Rightarrow> byte) \<Rightarrow> LodePNGInfo \<Rightarrow> writer" where
  "addChunk_gAMA mem info = put_chunk mem gAMA_type (lodepng_set32bitInt (gama_gamma info))"

definition addChunk_cHRM :: "(nat \<Rightarrow> byte) \<Rightarrow> LodePNGInfo \<Rightarrow> writer" where
  "addChunk_cHRM mem info =
     put_chunk mem cHRM_type
       (concat (map lodepng_set32bitInt
         [chrm_white_x info, chrm_white_y info, chrm_red_x info, chrm_red_y info,
          chrm_green_x info, chrm_green_y info, chrm_blue_x info, chrm_blue_y info]))"

definition addChunk_sRGB :: "(nat \<Rightarrow> byte) \<Rightarrow> LodePNGInfo \<Rightarrow> writer" where
  "addChunk_sRGB mem info = create_chunk mem sRGB_type [ucast (srgb_intent info)]"

definition addChunk_iCCP ::
  "(nat \<Rightarrow> nat) \<Rightarrow> (nat \<Rightarrow> byte) \<Rightarrow> LodePNGInfo \<Rightarrow> LodePNGCompressSettings \<Rightarrow> writer" where
  "addChunk_iCCP junk mem info settings out =
     (let name = the (iccp_name info) in
      if bad_keyword name then Some (89, out)
      else
        (case zlib_compress junk (take (iccp_profile_size info) (the (iccp_profile info))) settings of
           None \<Rightarrow> None
         | Some (Inl e) \<Rightarrow> Some (e, out)
         | Some (Inr compressed) \<Rightarrow>
             put_chunk mem iCCP_type (take (lodepng_strlen name) name @ [0, 0] @ compressed) out))"

text \<open>
  Unknown chunks are copied one after the other. A chunk that is longer than what is left of the
  buffer is read past its end.
\<close>

partial_function (option) addUnknownChunks_from :: "bytes \<Rightarrow> nat \<Rightarrow> writer" where
  "addUnknownChunks_from data inchunk out =
     (if inchunk < length data then
        (if length data < inchunk + 4 \<or>
            length data < inchunk + unat (lodepng_chunk_length data inchunk) + 12 then None
         else
           (case lodepng_chunk_append out data inchunk of
              None \<Rightarrow> None
            | Some (Inl e) \<Rightarrow> Some (e, out)
            | Some (Inr out) \<Rightarrow>
                addUnknownChunks_from data (lodepng_chunk_next data inchunk (length data)) out))
      else Some (0, out))"

definition addUnknownChunks :: "bytes \<Rightarrow> writer" where
  "addUnknownChunks data = addUnknownChunks_from data 0"

section \<open>What is appended\<close>

lemma put_chunk_appends:
  assumes ok: "chunk_ok type data" and room: "length out + length data + 12 < 2 ^ 64"
  shows "put_chunk mem type data out = Some (0, out @ chunk_bytes type data)"
proof -
  have c: "lodepng_chunk_createv mem out (word_of_nat (length data)) type data = Inr (out @ chunk_bytes type data)"
    by (rule createv_chunk_bytes [OF ok refl room])
  have u: "\<not> unsigned_of (length data) < length data" "unat (word_of_nat (length data) :: u32) = length data"
    using ok by (simp_all add: chunk_ok_def unat_of_nat)
  show ?thesis
    using c u(1) by (auto simp: put_chunk_def lodepng_chunk_createv_def u(2) split: sum.splits)
qed

lemma create_chunk_appends:
  assumes ok: "chunk_ok type data" and room: "length out + length data + 12 < 2 ^ 64"
  shows "create_chunk mem type data out = Some (0, out @ chunk_bytes type data)"
  by (simp add: create_chunk_def createv_chunk_bytes [OF ok refl room])

end
