(* ===== verification/Png_Convert.thy ===== *)
theory Png_Convert
  imports Png_Color Png_Adam7 Png_Chunk
begin

unbundle bit_operations_syntax

text \<open>
  Pixels of every colour type in \<open>lodepng.cpp\<close>: reading and writing one pixel as RGBA with 8 or 16 bits
  per channel, the tree of colours that finds a colour in a palette, and the conversion of whole
  images. A pixel is a quadruple of its channels; the functions that leave their results unset for an
  unknown colour type get the values from before as an argument.
\<close>

type_synonym rgba8 = "byte \<times> byte \<times> byte \<times> byte"
type_synonym rgba16 = "u16 \<times> u16 \<times> u16 \<times> u16"

section \<open>The tree of colours\<close>

datatype ColorTree = ColorTree (tree_children: "ColorTree option list") (tree_index: int)

definition color_tree_init :: ColorTree where
  "color_tree_init = ColorTree (replicate 16 None) (- 1)"

definition color_branch :: "rgba8 \<Rightarrow> nat \<Rightarrow> nat" where
  "color_branch c k = (case c of (r, g, b, a) \<Rightarrow>
     unat (8 * (drop_bit k r AND 1) + 4 * (drop_bit k g AND 1) + 2 * (drop_bit k b AND 1) +
       1 * (drop_bit k a AND 1)))"

fun color_tree_get_at :: "nat list \<Rightarrow> ColorTree \<Rightarrow> int" where
  "color_tree_get_at [] tree = tree_index tree"
| "color_tree_get_at (i # is) tree =
     (case tree_children tree ! i of None \<Rightarrow> - 1 | Some tree \<Rightarrow> color_tree_get_at is tree)"

definition color_tree_get :: "ColorTree \<Rightarrow> rgba8 \<Rightarrow> int" where
  "color_tree_get tree c = color_tree_get_at (map (color_branch c) [0 ..< 8]) tree"

definition color_tree_has :: "ColorTree \<Rightarrow> rgba8 \<Rightarrow> bool" where
  "color_tree_has tree c \<longleftrightarrow> color_tree_get tree c \<ge> 0"

fun color_tree_add_at :: "nat list \<Rightarrow> int \<Rightarrow> ColorTree \<Rightarrow> ColorTree" where
  "color_tree_add_at [] v tree = ColorTree (tree_children tree) v"
| "color_tree_add_at (i # is) v tree =
     (let child = (case tree_children tree ! i of None \<Rightarrow> color_tree_init | Some child \<Rightarrow> child) in
      ColorTree ((tree_children tree)[i := Some (color_tree_add_at is v child)]) (tree_index tree))"

definition color_tree_add :: "ColorTree \<Rightarrow> rgba8 \<Rightarrow> nat \<Rightarrow> ColorTree" where
  "color_tree_add tree c v = color_tree_add_at (map (color_branch c) [0 ..< 8]) (int v) tree"

section \<open>Writing a pixel\<close>

definition addColorBits :: "bytes \<Rightarrow> nat \<Rightarrow> nat \<Rightarrow> nat \<Rightarrow> bytes" where
  "addColorBits out i bits v =
     (let m = (if bits = 1 then 7 else if bits = 2 then 3 else 1);
          p = i AND m;
          v = v mod 2 ^ bits;
          v = word_of_nat (push_bit (bits * (m - p)) v);
          k = i * bits div 8 in
      if p = 0 then out[k := v] else out[k := out ! k OR v])"

definition rgba8ToPixel :: "bytes \<Rightarrow> nat \<Rightarrow> LodePNGColorMode \<Rightarrow> ColorTree \<Rightarrow> rgba8 \<Rightarrow> bytes png" where
  "rgba8ToPixel out i mode tree c = (case c of (r, g, b, a) \<Rightarrow>
     if colortype mode = LCT_GREY then
       (let gray = r in
        Inr (if bitdepth mode = 8 then out[i := gray]
             else if bitdepth mode = 16 then put_bytes (i * 2) [gray, gray] out
             else addColorBits out i (bitdepth mode)
               (unat gray div 2 ^ (8 - bitdepth mode) mod 2 ^ bitdepth mode)))
     else if colortype mode = LCT_RGB then
       Inr (if bitdepth mode = 8 then put_bytes (i * 3) [r, g, b] out
            else put_bytes (i * 6) [r, r, g, g, b, b] out)
     else if colortype mode = LCT_PALETTE then
       (let index = color_tree_get tree c in
        if index < 0 then Inl 82
        else Inr (if bitdepth mode = 8 then out[i := word_of_int index]
                  else addColorBits out i (bitdepth mode) (nat index)))
     else if colortype mode = LCT_GREY_ALPHA then
       (let gray = r in
        Inr (if bitdepth mode = 8 then put_bytes (i * 2) [gray, a] out
             else if bitdepth mode = 16 then put_bytes (i * 4) [gray, gray, a, a] out
             else out))
     else if colortype mode = LCT_RGBA then
       Inr (if bitdepth mode = 8 then put_bytes (i * 4) [r, g, b, a] out
            else put_bytes (i * 8) [r, r, g, g, b, b, a, a] out)
     else Inr out)"

definition u16_bytes :: "u16 \<Rightarrow> bytes" where
  "u16_bytes v = [ucast (drop_bit 8 v AND 255), ucast (v AND 255)]"

definition rgba16ToPixel :: "bytes \<Rightarrow> nat \<Rightarrow> LodePNGColorMode \<Rightarrow> rgba16 \<Rightarrow> bytes" where
  "rgba16ToPixel out i mode c = (case c of (r, g, b, a) \<Rightarrow>
     if colortype mode = LCT_GREY then put_bytes (i * 2) (u16_bytes r) out
     else if colortype mode = LCT_RGB then
       put_bytes (i * 6) (u16_bytes r @ u16_bytes g @ u16_bytes b) out
     else if colortype mode = LCT_GREY_ALPHA then
       put_bytes (i * 4) (u16_bytes r @ u16_bytes a) out
     else if colortype mode = LCT_RGBA then
       put_bytes (i * 8) (u16_bytes r @ u16_bytes g @ u16_bytes b @ u16_bytes a) out
     else out)"

section \<open>Reading a pixel\<close>

text \<open>Two bytes as an \<open>unsigned\<close>.\<close>

definition read16 :: "bytes \<Rightarrow> nat \<Rightarrow> u32" where
  "read16 input i = 256 * ucast (input ! i) + ucast (input ! (i + 1))"

text \<open>A grey value of fewer than 8 bits, scaled to 8.\<close>

definition scale_grey :: "u32 \<Rightarrow> nat \<Rightarrow> byte" where
  "scale_grey v bits = ucast ((v * 255) div (2 ^ bits - 1))"

definition palette_color :: "LodePNGColorMode \<Rightarrow> nat \<Rightarrow> rgba8" where
  "palette_color mode i =
     (let p = palette_bytes mode in (p ! (i * 4), p ! (i * 4 + 1), p ! (i * 4 + 2), p ! (i * 4 + 3)))"

definition getPixelColorRGBA8 :: "rgba8 \<Rightarrow> bytes \<Rightarrow> nat \<Rightarrow> LodePNGColorMode \<Rightarrow> rgba8" where
  "getPixelColorRGBA8 before input i mode =
     (if colortype mode = LCT_GREY then
        (if bitdepth mode = 8 then
           (let r = input ! i in (r, r, r, if key_defined mode \<and> ucast r = key_r mode then 0 else 255))
         else if bitdepth mode = 16 then
           (let r = input ! (i * 2) in
            (r, r, r, if key_defined mode \<and> read16 input (i * 2) = key_r mode then 0 else 255))
         else
           (let value = fst (readBitsFromReversedStream (i * bitdepth mode) input (bitdepth mode));
                r = scale_grey value (bitdepth mode) in
            (r, r, r, if key_defined mode \<and> value = key_r mode then 0 else 255)))
      else if colortype mode = LCT_RGB then
        (if bitdepth mode = 8 then
           (let r = input ! (i * 3); g = input ! (i * 3 + 1); b = input ! (i * 3 + 2) in
            (r, g, b, if key_defined mode \<and> ucast r = key_r mode \<and> ucast g = key_g mode \<and> ucast b = key_b mode
                      then 0 else 255))
         else
           (input ! (i * 6), input ! (i * 6 + 2), input ! (i * 6 + 4),
            if key_defined mode \<and> read16 input (i * 6) = key_r mode \<and> read16 input (i * 6 + 2) = key_g mode \<and>
               read16 input (i * 6 + 4) = key_b mode then 0 else 255))
      else if colortype mode = LCT_PALETTE then
        palette_color mode
          (if bitdepth mode = 8 then unat (input ! i)
           else unat (fst (readBitsFromReversedStream (i * bitdepth mode) input (bitdepth mode))))
      else if colortype mode = LCT_GREY_ALPHA then
        (if bitdepth mode = 8 then
           (input ! (i * 2), input ! (i * 2), input ! (i * 2), input ! (i * 2 + 1))
         else (input ! (i * 4), input ! (i * 4), input ! (i * 4), input ! (i * 4 + 2)))
      else if colortype mode = LCT_RGBA then
        (if bitdepth mode = 8 then
           (input ! (i * 4), input ! (i * 4 + 1), input ! (i * 4 + 2), input ! (i * 4 + 3))
         else (input ! (i * 8), input ! (i * 8 + 2), input ! (i * 8 + 4), input ! (i * 8 + 6)))
      else before)"

definition getPixelColorRGBA16 :: "rgba16 \<Rightarrow> bytes \<Rightarrow> nat \<Rightarrow> LodePNGColorMode \<Rightarrow> rgba16" where
  "getPixelColorRGBA16 before input i mode =
     (let v = (\<lambda>k. ucast (read16 input k)) in
      if colortype mode = LCT_GREY then
        (v (i * 2), v (i * 2), v (i * 2),
         if key_defined mode \<and> read16 input (i * 2) = key_r mode then 0 else 65535)
      else if colortype mode = LCT_RGB then
        (v (i * 6), v (i * 6 + 2), v (i * 6 + 4),
         if key_defined mode \<and> read16 input (i * 6) = key_r mode \<and> read16 input (i * 6 + 2) = key_g mode \<and>
            read16 input (i * 6 + 4) = key_b mode then 0 else 65535)
      else if colortype mode = LCT_GREY_ALPHA then
        (v (i * 4), v (i * 4), v (i * 4), v (i * 4 + 2))
      else if colortype mode = LCT_RGBA then
        (v (i * 8), v (i * 8 + 2), v (i * 8 + 4), v (i * 8 + 6))
      else before)"

section \<open>Reading all pixels at once\<close>

text \<open>Groups of bits one after the other, and one piece of the buffer for every pixel.\<close>

definition read_groups :: "nat \<Rightarrow> nat \<Rightarrow> bytes \<Rightarrow> u32 list" where
  "read_groups n bits input =
     fst (fold (\<lambda>i (vs, j). (let (v, j) = readBitsFromReversedStream j input bits in (vs @ [v], j)))
       [0 ..< n] ([], 0))"

definition pixels :: "nat \<Rightarrow> (nat \<Rightarrow> bytes) \<Rightarrow> bytes" where
  "pixels n f = concat (map f [0 ..< n])"

text \<open>The second loop of opaque pixels with a colour key.\<close>

definition clear_keyed :: "nat \<Rightarrow> (bytes \<Rightarrow> bool) \<Rightarrow> bytes \<Rightarrow> bytes" where
  "clear_keyed n is_key buffer =
     fold (\<lambda>i buffer. if is_key (drop (i * 4) buffer) then buffer[i * 4 + 3 := 0] else buffer) [0 ..< n] buffer"

definition getPixelColorsRGBA8 :: "bytes \<Rightarrow> nat \<Rightarrow> bytes \<Rightarrow> LodePNGColorMode \<Rightarrow> bytes" where
  "getPixelColorsRGBA8 buffer numpixels input mode =
     (if colortype mode = LCT_GREY then
        (if bitdepth mode = 8 then
           (let buffer = put_bytes 0 (pixels numpixels (\<lambda>i. [input ! i, input ! i, input ! i, 255])) buffer in
            if key_defined mode
            then clear_keyed numpixels (\<lambda>p. ucast (p ! 0) = key_r mode) buffer else buffer)
         else if bitdepth mode = 16 then
           put_bytes 0 (pixels numpixels (\<lambda>i. [input ! (i * 2), input ! (i * 2), input ! (i * 2),
             if key_defined mode \<and> read16 input (i * 2) = key_r mode then 0 else 255])) buffer
         else
           (let vs = read_groups numpixels (bitdepth mode) input in
            put_bytes 0 (pixels numpixels (\<lambda>i.
              (let r = scale_grey (vs ! i) (bitdepth mode) in
               [r, r, r, if key_defined mode \<and> vs ! i = key_r mode then 0 else 255]))) buffer))
      else if colortype mode = LCT_RGB then
        (if bitdepth mode = 8 then
           (let buffer = put_bytes 0 (pixels numpixels (\<lambda>i. take 3 (drop (i * 3) input) @ [255])) buffer in
            if key_defined mode
            then clear_keyed numpixels (\<lambda>p. ucast (p ! 0) = key_r mode \<and> ucast (p ! 1) = key_g mode \<and>
              ucast (p ! 2) = key_b mode) buffer else buffer)
         else
           put_bytes 0 (pixels numpixels (\<lambda>i. [input ! (i * 6), input ! (i * 6 + 2), input ! (i * 6 + 4),
             if key_defined mode \<and> read16 input (i * 6) = key_r mode \<and> read16 input (i * 6 + 2) = key_g mode \<and>
               read16 input (i * 6 + 4) = key_b mode then 0 else 255])) buffer)
      else if colortype mode = LCT_PALETTE then
        (if bitdepth mode = 8 then
           put_bytes 0 (pixels numpixels (\<lambda>i. take 4 (drop (unat (input ! i) * 4) (palette_bytes mode)))) buffer
         else
           (let vs = read_groups numpixels (bitdepth mode) input in
            put_bytes 0 (pixels numpixels (\<lambda>i. take 4 (drop (unat (vs ! i) * 4) (palette_bytes mode)))) buffer))
      else if colortype mode = LCT_GREY_ALPHA then
        (if bitdepth mode = 8 then
           put_bytes 0 (pixels numpixels (\<lambda>i.
             [input ! (i * 2), input ! (i * 2), input ! (i * 2), input ! (i * 2 + 1)])) buffer
         else
           put_bytes 0 (pixels numpixels (\<lambda>i.
             [input ! (i * 4), input ! (i * 4), input ! (i * 4), input ! (i * 4 + 2)])) buffer)
      else if colortype mode = LCT_RGBA then
        (if bitdepth mode = 8 then put_bytes 0 (take (numpixels * 4) input) buffer
         else
           put_bytes 0 (pixels numpixels (\<lambda>i.
             [input ! (i * 8), input ! (i * 8 + 2), input ! (i * 8 + 4), input ! (i * 8 + 6)])) buffer)
      else buffer)"

definition getPixelColorsRGB8 :: "bytes \<Rightarrow> nat \<Rightarrow> bytes \<Rightarrow> LodePNGColorMode \<Rightarrow> bytes" where
  "getPixelColorsRGB8 buffer numpixels input mode =
     (if colortype mode = LCT_GREY then
        (if bitdepth mode = 8 then
           put_bytes 0 (pixels numpixels (\<lambda>i. [input ! i, input ! i, input ! i])) buffer
         else if bitdepth mode = 16 then
           put_bytes 0 (pixels numpixels (\<lambda>i. [input ! (i * 2), input ! (i * 2), input ! (i * 2)])) buffer
         else
           (let vs = read_groups numpixels (bitdepth mode) input in
            put_bytes 0 (pixels numpixels (\<lambda>i.
              (let r = scale_grey (vs ! i) (bitdepth mode) in [r, r, r]))) buffer))
      else if colortype mode = LCT_RGB then
        (if bitdepth mode = 8 then put_bytes 0 (take (numpixels * 3) input) buffer
         else
           put_bytes 0 (pixels numpixels (\<lambda>i.
             [input ! (i * 6), input ! (i * 6 + 2), input ! (i * 6 + 4)])) buffer)
      else if colortype mode = LCT_PALETTE then
        (if bitdepth mode = 8 then
           put_bytes 0 (pixels numpixels (\<lambda>i. take 3 (drop (unat (input ! i) * 4) (palette_bytes mode)))) buffer
         else
           (let vs = read_groups numpixels (bitdepth mode) input in
            put_bytes 0 (pixels numpixels (\<lambda>i. take 3 (drop (unat (vs ! i) * 4) (palette_bytes mode)))) buffer))
      else if colortype mode = LCT_GREY_ALPHA then
        (if bitdepth mode = 8 then
           put_bytes 0 (pixels numpixels (\<lambda>i. [input ! (i * 2), input ! (i * 2), input ! (i * 2)])) buffer
         else
           put_bytes 0 (pixels numpixels (\<lambda>i. [input ! (i * 4), input ! (i * 4), input ! (i * 4)])) buffer)
      else if colortype mode = LCT_RGBA then
        (if bitdepth mode = 8 then
           put_bytes 0 (pixels numpixels (\<lambda>i. take 3 (drop (i * 4) input))) buffer
         else
           put_bytes 0 (pixels numpixels (\<lambda>i.
             [input ! (i * 8), input ! (i * 8 + 2), input ! (i * 8 + 4)])) buffer)
      else buffer)"

section \<open>Converting an image\<close>

text \<open>The loops over the pixels; the values of the last pixel are there before the next one.\<close>

fun convert_pixels8 ::
  "LodePNGColorMode \<Rightarrow> LodePNGColorMode \<Rightarrow> ColorTree \<Rightarrow> bytes \<Rightarrow> nat list \<Rightarrow> rgba8 \<Rightarrow> bytes \<Rightarrow> bytes png" where
  "convert_pixels8 mode_out mode_in tree input [] c out = Inr out"
| "convert_pixels8 mode_out mode_in tree input (i # is) c out =
     (let c = getPixelColorRGBA8 c input i mode_in in
      case rgba8ToPixel out i mode_out tree c of
        Inl e \<Rightarrow> Inl e
      | Inr out \<Rightarrow> convert_pixels8 mode_out mode_in tree input is c out)"

definition convert_pixels16 ::
  "LodePNGColorMode \<Rightarrow> LodePNGColorMode \<Rightarrow> bytes \<Rightarrow> nat \<Rightarrow> bytes \<Rightarrow> bytes" where
  "convert_pixels16 mode_out mode_in input n out =
     fold (\<lambda>i out. rgba16ToPixel out i mode_out (getPixelColorRGBA16 (0, 0, 0, 0) input i mode_in)) [0 ..< n] out"

definition palette_tree :: "nat \<Rightarrow> bytes \<Rightarrow> ColorTree" where
  "palette_tree n p =
     fold (\<lambda>i tree. color_tree_add tree (p ! (i * 4), p ! (i * 4 + 1), p ! (i * 4 + 2), p ! (i * 4 + 3)) i)
       [0 ..< n] color_tree_init"

definition lodepng_convert ::
  "bytes \<Rightarrow> bytes \<Rightarrow> LodePNGColorMode \<Rightarrow> LodePNGColorMode \<Rightarrow> nat \<Rightarrow> nat \<Rightarrow> bytes png" where
  "lodepng_convert out input mode_out mode_in w h =
     (let numpixels = w * h; copied = put_bytes 0 (take (lodepng_get_raw_size w h mode_in) input) out in
      if colortype mode_in = LCT_PALETTE \<and> palette mode_in = None then Inl 107
      else if lodepng_color_mode_equal mode_out mode_in then Inr copied
      else if colortype mode_out = LCT_PALETTE \<and> palettesize mode_out = 0 \<and>
        colortype mode_in = LCT_PALETTE \<and> bitdepth mode_in = bitdepth mode_out then Inr copied
      else
        (let tree =
               (if colortype mode_out = LCT_PALETTE then
                  (if palettesize mode_out = 0
                   then palette_tree (min (palettesize mode_in) (2 ^ bitdepth mode_out)) (palette_bytes mode_in)
                   else palette_tree (min (palettesize mode_out) (2 ^ bitdepth mode_out)) (palette_bytes mode_out))
                else color_tree_init) in
         if bitdepth mode_in = 16 \<and> bitdepth mode_out = 16 then
           Inr (convert_pixels16 mode_out mode_in input numpixels out)
         else if bitdepth mode_out = 8 \<and> colortype mode_out = LCT_RGBA then
           Inr (getPixelColorsRGBA8 out numpixels input mode_in)
         else if bitdepth mode_out = 8 \<and> colortype mode_out = LCT_RGB then
           Inr (getPixelColorsRGB8 out numpixels input mode_in)
         else convert_pixels8 mode_out mode_in tree input [0 ..< numpixels] (0, 0, 0, 0) out))"

text \<open>One colour without alpha: the 16-bit value of each channel first, then the bits of the target.\<close>

definition rgb16_of :: "u32 \<Rightarrow> u32 \<Rightarrow> u32 \<Rightarrow> LodePNGColorMode \<Rightarrow> (u32 \<times> u32 \<times> u32) png" where
  "rgb16_of r_in g_in b_in mode_in =
     (let mul = 65535 div (2 ^ bitdepth mode_in - 1);
          p = (\<lambda>k. ucast (palette_bytes mode_in ! (unat r_in * 4 + k)) * 257) in
      if colortype mode_in = LCT_GREY \<or> colortype mode_in = LCT_GREY_ALPHA then
        Inr (r_in * mul, r_in * mul, r_in * mul)
      else if colortype mode_in = LCT_RGB \<or> colortype mode_in = LCT_RGBA then
        Inr (r_in * mul, g_in * mul, b_in * mul)
      else if colortype mode_in = LCT_PALETTE then
        (if unat r_in \<ge> palettesize mode_in then Inl 82 else Inr (p 0, p 1, p 2))
      else Inl 31)"

definition find_rgb :: "LodePNGColorMode \<Rightarrow> u32 \<Rightarrow> u32 \<Rightarrow> u32 \<Rightarrow> nat option" where
  "find_rgb mode r g b =
     (let p = palette_bytes mode in
      find (\<lambda>i. drop_bit 8 r = ucast (p ! (i * 4)) \<and> drop_bit 8 g = ucast (p ! (i * 4 + 1)) \<and>
        drop_bit 8 b = ucast (p ! (i * 4 + 2))) [0 ..< palettesize mode])"

text \<open>The results are what the caller had in them where the mode does not set them.\<close>

definition lodepng_convert_rgb ::
  "u32 \<times> u32 \<times> u32 \<Rightarrow> u32 \<Rightarrow> u32 \<Rightarrow> u32 \<Rightarrow> LodePNGColorMode \<Rightarrow> LodePNGColorMode \<Rightarrow>
   (u32 \<times> u32 \<times> u32) png" where
  "lodepng_convert_rgb before r_in g_in b_in mode_out mode_in =
     (case rgb16_of r_in g_in b_in mode_in of
        Inl e \<Rightarrow> Inl e
      | Inr (r, g, b) \<Rightarrow>
          (let shift = 16 - bitdepth mode_out in
           if colortype mode_out = LCT_GREY \<or> colortype mode_out = LCT_GREY_ALPHA then
             Inr (drop_bit shift r, snd before)
           else if colortype mode_out = LCT_RGB \<or> colortype mode_out = LCT_RGBA then
             Inr (drop_bit shift r, drop_bit shift g, drop_bit shift b)
           else if colortype mode_out = LCT_PALETTE then
             (if drop_bit 8 r \<noteq> r AND 255 \<or> drop_bit 8 g \<noteq> g AND 255 \<or> drop_bit 8 b \<noteq> b AND 255 then Inl 82
              else
                (case find_rgb mode_out r g b of
                   None \<Rightarrow> Inl 82
                 | Some i \<Rightarrow> Inr (word_of_nat i, snd before)))
           else Inl 31))"

end
