(* ===== verification/Png_Palette.thy ===== *)
theory Png_Palette
  imports Png_Convert
begin

unbundle bit_operations_syntax

text \<open>
  The tree of colours finds what was put into it, and so an index of every colour of a palette. What
  the code needs of the tree is the locale \<open>color_table\<close>.
\<close>

section \<open>Tables of colours\<close>

locale color_table =
  fixes get :: "'t \<Rightarrow> 'c \<Rightarrow> int" and add :: "'t \<Rightarrow> 'c \<Rightarrow> nat \<Rightarrow> 't" and start :: 't and ok :: "'t \<Rightarrow> bool"
  assumes ok_start: "ok start" and ok_add: "ok t \<Longrightarrow> ok (add t c v)"
    and get_start: "get start c = - 1"
    and get_add: "ok t \<Longrightarrow> get (add t c v) d = (if d = c then int v else get t d)"
begin

definition fill :: "(nat \<Rightarrow> 'c) \<Rightarrow> nat \<Rightarrow> 't" where
  "fill f n = fold (\<lambda>i t. add t (f i) i) [0 ..< n] start"

lemma fill_Suc: "fill f (Suc n) = add (fill f n) (f n) n"
  by (simp add: fill_def)

lemma ok_fill: "ok (fill f n)"
  by (induction n) (simp_all add: fill_Suc ok_add, simp add: fill_def ok_start)

lemma get_fill: "get (fill f n) c = - 1 \<and> c \<notin> f ` {0 ..< n} \<or>
    (\<exists>i < n. get (fill f n) c = int i \<and> f i = c)"
proof (induction n)
  case 0
  then show ?case by (simp add: fill_def get_start)
next
  case (Suc n)
  show ?case
  proof (cases "c = f n")
    case True
    then show ?thesis by (auto simp: fill_Suc get_add [OF ok_fill])
  next
    case False
    then have "get (fill f (Suc n)) c = get (fill f n) c" by (simp add: fill_Suc get_add [OF ok_fill])
    then show ?thesis using Suc False by (auto simp: less_Suc_eq)
  qed
qed

lemma get_fill_found: "c \<in> f ` {0 ..< n} \<Longrightarrow> \<exists>i < n. get (fill f n) c = int i \<and> f i = c"
  using get_fill [of f n c] by blast

end

section \<open>The tree is a table\<close>

fun tree_ok :: "nat \<Rightarrow> ColorTree \<Rightarrow> bool" where
  "tree_ok 0 t \<longleftrightarrow> length (tree_children t) = 16"
| "tree_ok (Suc n) t \<longleftrightarrow> length (tree_children t) = 16 \<and>
     (\<forall>i < 16. case tree_children t ! i of None \<Rightarrow> True | Some c \<Rightarrow> tree_ok n c)"

lemma tree_ok_length: "tree_ok n t \<Longrightarrow> length (tree_children t) = 16"
  by (cases n) simp_all

lemma init_children [simp]: "tree_children color_tree_init = replicate 16 None"
  "tree_index color_tree_init = - 1"
  by (simp_all add: color_tree_init_def)

lemma tree_ok_init: "tree_ok n color_tree_init"
  by (cases n) simp_all

lemma get_at_init: "list_all (\<lambda>i. i < 16) js \<Longrightarrow> color_tree_get_at js color_tree_init = - 1"
  by (cases js) simp_all

lemma tree_ok_add:
  "tree_ok (length is) t \<Longrightarrow> list_all (\<lambda>i. i < 16) is \<Longrightarrow> tree_ok (length is) (color_tree_add_at is v t)"
proof (induction "is" arbitrary: t)
  case (Cons i "is")
  have "tree_ok (length is) (case tree_children t ! i of None \<Rightarrow> color_tree_init | Some c \<Rightarrow> c)"
    using Cons.prems by (auto simp: tree_ok_init split: option.splits)
  then show ?case using Cons.prems Cons.IH by (auto simp: Let_def nth_list_update)
qed simp

lemma get_add_at:
  "length js = length is \<Longrightarrow> tree_ok (length is) t \<Longrightarrow> list_all (\<lambda>i. i < 16) is \<Longrightarrow> list_all (\<lambda>i. i < 16) js \<Longrightarrow>
    color_tree_get_at js (color_tree_add_at is v t) = (if js = is then v else color_tree_get_at js t)"
proof (induction "is" arbitrary: t js)
  case (Cons i "is")
  then obtain j js' where js: "js = j # js'" "length js' = length is" by (cases js) auto
  let ?c = "case tree_children t ! i of None \<Rightarrow> color_tree_init | Some c \<Rightarrow> c"
  have c: "tree_ok (length is) ?c"
    using Cons.prems(2,3) by (auto simp: tree_ok_init split: option.splits)
  have IH: "color_tree_get_at js' (color_tree_add_at is v ?c) = (if js' = is then v else color_tree_get_at js' ?c)"
    using Cons.IH [OF js(2) c] Cons.prems js by simp
  have l: "length (tree_children t) = 16" by (rule tree_ok_length [OF Cons.prems(2)])
  show ?case
  proof (cases "j = i")
    case True
    have "color_tree_get_at js' ?c = (case tree_children t ! i of None \<Rightarrow> - 1 | Some c \<Rightarrow> color_tree_get_at js' c)"
      using Cons.prems js by (auto simp: get_at_init split: option.splits)
    then show ?thesis using IH l js Cons.prems True by (simp add: Let_def)
  next
    case False
    then show ?thesis using l js Cons.prems by (simp add: Let_def)
  qed
qed simp

lemma color_branch_bits:
  "color_branch (r, g, b, a) k =
     8 * of_bool (bit r k) + 4 * of_bool (bit g k) + 2 * of_bool (bit b k) + of_bool (bit a k)"
proof -
  have "drop_bit k x AND 1 = of_bool (bit x k)" for x :: byte
    by (simp add: and_one_eq bit_iff_odd_drop_bit mod_2_eq_odd)
  then show ?thesis by (cases "bit r k"; cases "bit g k"; cases "bit b k"; cases "bit a k") (simp_all add: color_branch_def)
qed

lemma color_branch_less: "color_branch c k < 16"
  by (cases c) (auto simp: color_branch_bits of_bool_def)

lemma color_branch_inj:
  assumes "color_branch (r, g, b, a) k = color_branch (r', g', b', a') k"
  shows "bit r k = bit r' k \<and> bit g k = bit g' k \<and> bit b k = bit b' k \<and> bit a k = bit a' k"
  using assms unfolding color_branch_bits of_bool_def by (auto split: if_splits)

lemma color_path_inj:
  assumes "map (color_branch c) [0 ..< 8] = map (color_branch d) [0 ..< 8]"
  shows "c = (d :: rgba8)"
proof -
  obtain r g b a where c: "c = (r, g, b, a)" by (cases c)
  obtain r' g' b' a' where d: "d = (r', g', b', a')" by (cases d)
  have "color_branch (r, g, b, a) k = color_branch (r', g', b', a') k" if "k < 8" for k
    using assms that by (simp add: c d list_eq_iff_nth_eq del: upt_rec_numeral)
  then have "bit r k = bit r' k \<and> bit g k = bit g' k \<and> bit b k = bit b' k \<and> bit a k = bit a' k" if "k < 8" for k
    using color_branch_inj that by blast
  then show ?thesis unfolding c d by (auto intro: bit_word_eqI)
qed

interpretation color_tree: color_table color_tree_get color_tree_add color_tree_init "tree_ok 8"
proof unfold_locales
  define path where "path = (\<lambda>c. map (color_branch c) [0 ..< 8])"
  have l: "length (path c) = 8" "list_all (\<lambda>i. i < 16) (path c)" for c
    using color_branch_less by (simp_all add: path_def list_all_length del: upt_rec_numeral)
  have defs: "color_tree_get t c = color_tree_get_at (path c) t"
    "color_tree_add t c v = color_tree_add_at (path c) (int v) t" for t c v
    by (simp_all only: color_tree_get_def color_tree_add_def path_def)
  show "tree_ok 8 color_tree_init" by (rule tree_ok_init)
  show "tree_ok 8 (color_tree_add t c v)" if "tree_ok 8 t" for t c v
    using tree_ok_add [of "path c" t "int v"] that l [of c] unfolding defs by simp
  show "color_tree_get color_tree_init c = - 1" for c
    unfolding defs by (rule get_at_init [OF l(2)])
  show "color_tree_get (color_tree_add t c v) d = (if d = c then int v else color_tree_get t d)"
    if "tree_ok 8 t" for t c v d
  proof -
    have "path d = path c \<longleftrightarrow> d = c" unfolding path_def using color_path_inj by blast
    then show ?thesis
      using get_add_at [of "path d" "path c" t "int v"] that l [of c] l [of d] unfolding defs by simp
  qed
qed

lemma palette_tree_fill: "palette_tree n p =
    color_tree.fill (\<lambda>i. (p ! (i * 4), p ! (i * 4 + 1), p ! (i * 4 + 2), p ! (i * 4 + 3))) n"
  by (simp add: palette_tree_def color_tree.fill_def)

end
