(* ===== verification/Png_Pixels.thy ===== *)
theory Png_Pixels
  imports Png_Palette Png_Unscan
begin

unbundle bit_operations_syntax

text \<open>
  Pixels that are written read back, in every colour mode of up to 8 bits per channel that can hold
  their colours, and the fast functions that read all pixels agree with the one that reads a single
  pixel.
\<close>

section \<open>Groups of bits\<close>

lemma bit_fold_read:
  assumes "n \<le> 32"
  shows "snd (readBitsFromReversedStream j input n) = j + n \<and>
    (\<forall>t. bit (fst (readBitsFromReversedStream j input n)) t \<longleftrightarrow> t < n \<and> bit_at input (j + (n - 1 - t)))"
  using assms
proof (induction n)
  case 0
  then show ?case by (simp add: readBitsFromReversedStream_def)
next
  case (Suc n)
  define s where "s = readBitsFromReversedStream j input n"
  have b: "(drop_bit (7 - (j + n) mod 8) (input ! ((j + n) div 8)) AND 1 :: byte) = of_bool (bit_at input (j + n))"
    by (simp add: bit_at_def and_one_eq bit_iff_odd_drop_bit mod_2_eq_odd)
  have IH: "snd s = j + n" "bit (fst s) t \<longleftrightarrow> t < n \<and> bit_at input (j + (n - 1 - t))" for t
    using Suc unfolding s_def by auto
  have "readBitsFromReversedStream j input (Suc n) =
      (push_bit 1 (fst s) OR ucast (of_bool (bit_at input (j + n)) :: byte), j + Suc n)"
    using IH(1) unfolding s_def readBitsFromReversedStream_def
    by (simp add: readBitFromReversedStream_def Let_def split_beta b)
  moreover have "bit (push_bit 1 (fst s) OR ucast (of_bool (bit_at input (j + n)) :: byte)) t \<longleftrightarrow>
      t < Suc n \<and> bit_at input (j + (Suc n - 1 - t))" for t
  proof -
    have "bit (push_bit 1 (fst s) OR ucast (of_bool x :: byte)) t \<longleftrightarrow>
        1 \<le> t \<and> t < 32 \<and> bit (fst s) (t - 1) \<or> t = 0 \<and> x" for x
      unfolding bit_or_iff bit_push_bit_iff by (auto simp: bit_ucast_iff possible_bit_def bit_1_iff)
    then show ?thesis using IH(2) [of "t - 1"] \<open>Suc n \<le> 32\<close> by (cases t) auto
  qed
  ultimately show ?case by simp
qed

lemma read_bits_value:
  assumes "n \<le> 32" "\<And>b. b < n \<Longrightarrow> bit_at input (j + b) = bit v (n - 1 - b)"
  shows "fst (readBitsFromReversedStream j input n) = word_of_nat (v mod 2 ^ n)"
proof (rule bit_word_eqI)
  fix t assume "t < LENGTH(32)"
  then have t: "t < 32" by simp
  have "t < n \<Longrightarrow> n - 1 - (n - 1 - t) = t" by simp
  then have "t < n \<and> bit_at input (j + (n - 1 - t)) \<longleftrightarrow> t < n \<and> bit v t"
    using assms(2) [of "n - 1 - t"] by auto
  then show "bit (fst (readBitsFromReversedStream j input n)) t = bit (word_of_nat (v mod 2 ^ n) :: u32) t"
    using bit_fold_read [OF assms(1)] t
    by (simp add: bit_simps take_bit_eq_mod [symmetric])
qed

lemma read_bits_cong:
  assumes "n \<le> 32" "\<And>b. b < n \<Longrightarrow> bit_at xs (j + b) = bit_at ys (j + b)"
  shows "fst (readBitsFromReversedStream j xs n) = fst (readBitsFromReversedStream j ys n)"
proof (rule bit_word_eqI)
  fix t
  show "bit (fst (readBitsFromReversedStream j xs n)) t = bit (fst (readBitsFromReversedStream j ys n)) t"
    using bit_fold_read [OF assms(1)] assms(2) [of "n - 1 - t"] by auto
qed

text \<open>The sizes of the groups of a colour mode.\<close>

definition group_bits :: "nat \<Rightarrow> bool" where
  "group_bits n \<longleftrightarrow> n = 1 \<or> n = 2 \<or> n = 4"

lemma group_position:
  assumes "group_bits bits"
  defines "m \<equiv> (if bits = 1 then 7 else if bits = 2 then 3 else 1)"
  shows "i * bits mod 8 = (i AND m) * bits" "bits * (m - (i AND m)) = 8 - bits - (i AND m) * bits"
    "(i AND m) * bits + bits \<le> 8" "(i AND m = 0) = (i * bits mod 8 = 0)"
proof -
  have m: "i AND 7 = i mod 8" "i AND 3 = i mod 4" "i AND 1 = i mod 2"
    using take_bit_eq_mask [of 3 i] take_bit_eq_mask [of 2 i] take_bit_eq_mask [of 1 i]
    by (simp_all add: take_bit_eq_mod mask_eq_exp_minus_1)
  obtain M where M: "i AND m = i mod M" "M * bits = 8" "m + 1 = M" "0 < M"
    using assms(1) unfolding group_bits_def m_def by (elim disjE) (simp_all add: m)
  have p: "i mod M + 1 \<le> M" using M(4) by (simp add: Suc_leI)
  show e: "i * bits mod 8 = (i AND m) * bits" unfolding M(1) M(2) [symmetric] by (rule mod_mult_mult2)
  show "(i AND m) * bits + bits \<le> 8"
    using mult_le_mono1 [OF p, of bits] unfolding M(1) M(2) [symmetric] by (simp add: algebra_simps)
  have "m * bits = 8 - bits" using M(2,3) by auto
  then show "bits * (m - (i AND m)) = 8 - bits - (i AND m) * bits"
    by (simp add: diff_mult_distrib2 mult.commute)
  have "0 < bits" using assms(1) by (auto simp: group_bits_def)
  then show "(i AND m = 0) = (i * bits mod 8 = 0)" unfolding e by simp
qed

lemma length_addColorBits [simp]: "length (addColorBits out i bits v) = length out"
  by (simp add: addColorBits_def Let_def)

lemma bit_at_addColorBits:
  assumes g: "group_bits bits" and k: "i * bits div 8 < length out" and q: "q < 8 * length out"
  shows "bit_at (addColorBits out i bits v) q \<longleftrightarrow>
    i * bits \<le> q \<and> q < i * bits + bits \<and> bit v (bits - 1 - (q - i * bits)) \<or>
    bit_at out q \<and> (q div 8 \<noteq> i * bits div 8 \<or> i * bits mod 8 \<noteq> 0)"
proof -
  define m where "m = (if bits = 1 then 7 else if bits = 2 then 3 else 1 :: nat)"
  note pos = group_position [OF g, folded m_def, of i]
  define K r where "K = i * bits div 8" and "r = i * bits mod 8"
  have ib: "i * bits = 8 * K + r" by (simp add: K_def r_def)
  have r: "r + bits \<le> 8" "bits * (m - (i AND m)) = 8 - bits - r" "(i AND m = 0) = (r = 0)"
    using pos by (simp_all add: r_def)
  have b0: "0 < bits" using g by (auto simp: group_bits_def)
  define x :: byte where "x = word_of_nat (push_bit (8 - bits - r) (v mod 2 ^ bits))"
  have x: "bit x t \<longleftrightarrow> 8 - bits - r \<le> t \<and> t < 8 - r \<and> bit v (t - (8 - bits - r))" for t
    using r(1) by (auto simp: x_def bit_simps take_bit_eq_mod [symmetric])
  have out: "addColorBits out i bits v = (if r = 0 then out[K := x] else out[K := out ! K OR x])"
    unfolding addColorBits_def Let_def m_def [symmetric] r(2,3) x_def K_def ..
  show ?thesis
  proof (cases "q div 8 = K")
    case False
    have "q < 8 * K \<or> 8 * K + 8 \<le> q"
    proof (rule ccontr)
      assume "\<not> ?thesis"
      then have "8 * K \<le> q" "q < 8 * K + 8" by simp_all
      then have "q div 8 = K" by (simp add: div_nat_eqI)
      then show False using False by simp
    qed
    then have "\<not> (i * bits \<le> q \<and> q < i * bits + bits)" unfolding ib using r(1) by linarith
    then show ?thesis using False unfolding out by (auto simp: bit_at_def K_def)
  next
    case True
    define t where "t = 7 - q mod 8"
    have q8: "q = 8 * K + q mod 8" using True by (metis mult_div_mod_eq)
    have "q mod 8 < 8" by simp
    then have t: "t < 8" "q = 8 * K + (7 - t)" using q8 by (simp_all add: t_def)
    have "8 - bits - r \<le> t \<and> t < 8 - r \<longleftrightarrow> i * bits \<le> q \<and> q < i * bits + bits"
      unfolding ib t(2) using r(1) t(1) b0 by linarith
    moreover have "t - (8 - bits - r) = bits - 1 - (q - i * bits)" if "8 - bits - r \<le> t" "t < 8 - r"
      unfolding ib t(2) using r(1) t(1) that by linarith
    ultimately have "bit x t \<longleftrightarrow> i * bits \<le> q \<and> q < i * bits + bits \<and> bit v (bits - 1 - (q - i * bits))"
      unfolding x by metis
    moreover have "bit_at (addColorBits out i bits v) q \<longleftrightarrow> (if r = 0 then bit x t else bit (out ! K) t \<or> bit x t)"
      using True k unfolding out bit_at_def t_def [symmetric] K_def [symmetric] by (simp add: bit_or_iff)
    moreover have "bit_at out q = bit (out ! K) t" unfolding bit_at_def t_def True ..
    ultimately show ?thesis using True by (auto simp: K_def r_def)
  qed
qed

text \<open>
  The pixels that have been written, and the zeros in the rest of the last byte that the next pixels
  are or-ed into.
\<close>

definition groups_written :: "nat \<Rightarrow> (nat \<Rightarrow> nat) \<Rightarrow> nat \<Rightarrow> bytes \<Rightarrow> bool" where
  "groups_written bits v n out \<longleftrightarrow>
     (\<forall>i < n. \<forall>b < bits. bit_at out (i * bits + b) = bit (v i) (bits - 1 - b)) \<and>
     (\<forall>q. n * bits \<le> q \<longrightarrow> q div 8 = n * bits div 8 \<longrightarrow> n * bits mod 8 \<noteq> 0 \<longrightarrow> \<not> bit_at out q)"

lemma groups_written_0: "groups_written bits v 0 out"
  by (simp add: groups_written_def)

lemma groups_written_Suc:
  assumes g: "group_bits bits" and w: "groups_written bits v n out" and room: "n * bits < 8 * length out"
  shows "groups_written bits v (Suc n) (addColorBits out n bits (v n))"
proof -
  have b0: "0 < bits" "bits \<le> 8" using g by (auto simp: group_bits_def)
  have in_byte: "(n * bits + b) div 8 = n * bits div 8" if "b < bits" for b
  proof -
    have "n * bits mod 8 + bits \<le> 8" using group_position(1,3) [OF g, of n] by simp
    then have m: "n * bits mod 8 + b < 8" using that by linarith
    have "n * bits + b = n * bits div 8 * 8 + (n * bits mod 8 + b)" by simp
    then have "(n * bits + b) div 8 = n * bits div 8 + (n * bits mod 8 + b) div 8"
      by (metis div_mult_self3 zero_neq_numeral)
    then show ?thesis using m by simp
  qed
  have k: "n * bits div 8 < length out" using room by (simp add: less_mult_imp_div_less mult.commute)
  note bits_at = bit_at_addColorBits [OF g k]
  have lt: "q < 8 * length out" if "q div 8 = n * bits div 8 \<or> q < n * bits" for q
    using that k room by (metis div_less_iff_less_mult less_trans mult.commute zero_less_numeral)
  have "bit_at (addColorBits out n bits (v n)) (i * bits + b) = bit (v i) (bits - 1 - b)"
    if i: "i < Suc n" "b < bits" for i b
  proof (cases "i = n")
    case True
    have z: "\<not> bit_at out (n * bits + b) \<or> n * bits mod 8 = 0"
      using w in_byte [OF i(2)] unfolding groups_written_def by (metis le_add1)
    show ?thesis
      using True z i(2) in_byte [OF i(2)] by (auto simp: bits_at lt)
  next
    case False
    then have "i < n" using i(1) by simp
    then have less: "i * bits + b < n * bits" using index_less [of i n b bits] i(2) by simp
    have old: "bit_at out (i * bits + b) = bit (v i) (bits - 1 - b)"
      using w \<open>i < n\<close> i(2) by (simp add: groups_written_def)
    have "(i * bits + b) div 8 \<noteq> n * bits div 8 \<or> n * bits mod 8 \<noteq> 0"
      using less by (metis add.right_neutral div_mult_mod_eq less_le_not_le div_times_less_eq_dividend)
    then show ?thesis using less old by (simp add: bits_at lt)
  qed
  moreover have "\<not> bit_at (addColorBits out n bits (v n)) q"
    if q: "Suc n * bits \<le> q" "q div 8 = Suc n * bits div 8" "Suc n * bits mod 8 \<noteq> 0" for q
  proof -
    have "Suc n * bits = n * bits div 8 * 8 + (n * bits mod 8 + bits)" by simp
    moreover have "n * bits mod 8 + bits \<le> 8" using group_position(1,3) [OF g, of n] by simp
    moreover have "n * bits mod 8 + bits \<noteq> 8"
      using calculation(1) q(3) by (metis mod_mult_self3 mult.commute mod_self)
    ultimately have "Suc n * bits div 8 = n * bits div 8"
      by (metis div_mult_self3 zero_neq_numeral div_less le_neq_implies_less add.right_neutral)
    then have d: "q div 8 = n * bits div 8" using q(2) by simp
    have n: "n * bits \<le> q" "\<not> q < n * bits + bits" using q(1) by simp_all
    then have "n * bits mod 8 \<noteq> 0 \<longrightarrow> \<not> bit_at out q" using w d unfolding groups_written_def by blast
    then show ?thesis using n d by (auto simp: bits_at lt)
  qed
  ultimately show ?thesis unfolding groups_written_def by blast
qed

section \<open>Pixels that a mode can hold\<close>

definition grey_value :: "LodePNGColorMode \<Rightarrow> byte \<Rightarrow> nat" where
  "grey_value mode r = unat r div 2 ^ (8 - bitdepth mode)"

definition fits :: "LodePNGColorMode \<Rightarrow> ColorTree \<Rightarrow> rgba8 \<Rightarrow> bool" where
  "fits mode tree c = (case c of (r, g, b, a) \<Rightarrow>
     if colortype mode = LCT_GREY then
       g = r \<and> b = r \<and> (bitdepth mode < 8 \<longrightarrow> scale_grey (word_of_nat (grey_value mode r)) (bitdepth mode) = r) \<and>
       a = (if key_defined mode \<and> word_of_nat (grey_value mode r) = key_r mode then 0 else 255)
     else if colortype mode = LCT_RGB then
       a = (if key_defined mode \<and> ucast r = key_r mode \<and> ucast g = key_g mode \<and> ucast b = key_b mode
            then 0 else 255)
     else if colortype mode = LCT_PALETTE then
       0 \<le> color_tree_get tree c \<and> nat (color_tree_get tree c) < 2 ^ bitdepth mode \<and>
       palette_color mode (nat (color_tree_get tree c)) = c
     else if colortype mode = LCT_GREY_ALPHA then g = r \<and> b = r
     else True)"

definition valid8 :: "LodePNGColorMode \<Rightarrow> bool" where
  "valid8 mode \<longleftrightarrow> checkColorValidity (colortype mode) (bitdepth mode) = 0 \<and> bitdepth mode \<le> 8"

lemma valid8_cases:
  assumes "valid8 mode"
  obtains (groups) "group_bits (bitdepth mode)" "colortype mode = LCT_GREY \<or> colortype mode = LCT_PALETTE"
      "lodepng_get_bpp mode = bitdepth mode"
  | (bytes) "bitdepth mode = 8" "colortype mode \<in> {LCT_GREY, LCT_RGB, LCT_PALETTE, LCT_GREY_ALPHA, LCT_RGBA}"
      "lodepng_get_bpp mode = 8 * getNumColorChannels (colortype mode)"
  using assms
  by (auto simp: valid8_def checkColorValidity_def group_bits_def lodepng_get_bpp_def lodepng_get_bpp_lct_def
      getNumColorChannels_def split: if_splits)

definition pixel_value :: "LodePNGColorMode \<Rightarrow> ColorTree \<Rightarrow> rgba8 \<Rightarrow> nat" where
  "pixel_value mode tree c =
     (if colortype mode = LCT_GREY then grey_value mode (fst c) else nat (color_tree_get tree c))"

definition pixel_bytes :: "LodePNGColorMode \<Rightarrow> ColorTree \<Rightarrow> rgba8 \<Rightarrow> bytes" where
  "pixel_bytes mode tree c = (case c of (r, g, b, a) \<Rightarrow>
     if colortype mode = LCT_GREY then [r]
     else if colortype mode = LCT_RGB then [r, g, b]
     else if colortype mode = LCT_PALETTE then [word_of_nat (pixel_value mode tree c)]
     else if colortype mode = LCT_GREY_ALPHA then [r, a]
     else [r, g, b, a])"

lemma grey_value_less:
  assumes "bitdepth mode \<le> 8" shows "grey_value mode r < 2 ^ bitdepth mode"
proof -
  have "unat r < 2 ^ LENGTH(8)" by (rule unsigned_less)
  also have "\<dots> = 2 ^ bitdepth mode * 2 ^ (8 - bitdepth mode)" using assms by (simp flip: power_add)
  finally show ?thesis by (simp add: grey_value_def less_mult_imp_div_less)
qed

lemma pixel_value_less:
  "fits mode tree c \<Longrightarrow> valid8 mode \<Longrightarrow> colortype mode = LCT_GREY \<or> colortype mode = LCT_PALETTE \<Longrightarrow>
    pixel_value mode tree c < 2 ^ bitdepth mode"
  using grey_value_less by (auto simp: fits_def pixel_value_def valid8_def split: prod.splits)

lemma rgba8ToPixel_group:
  assumes "group_bits (bitdepth mode)" "colortype mode = LCT_GREY \<or> colortype mode = LCT_PALETTE"
    "valid8 mode" "fits mode tree c"
  shows "rgba8ToPixel out n mode tree c = Inr (addColorBits out n (bitdepth mode) (pixel_value mode tree c))"
proof -
  have bd: "bitdepth mode \<noteq> 8" "bitdepth mode \<noteq> 16" using assms(1) by (auto simp: group_bits_def)
  obtain r g b a where c: "c = (r, g, b, a)" by (cases c)
  have "grey_value mode r mod 2 ^ bitdepth mode = grey_value mode r"
    using grey_value_less assms(3) by (simp add: valid8_def)
  then show ?thesis
    using assms(2,4) bd by (auto simp: c rgba8ToPixel_def pixel_value_def grey_value_def fits_def)
qed

lemma put_bytes_single: "n < length out \<Longrightarrow> put_bytes n [x] out = out[n := x]"
  by (simp add: put_bytes_def upd_conv_take_nth_drop)

lemma rgba8ToPixel_bytes:
  assumes "bitdepth mode = 8" "colortype mode \<in> {LCT_GREY, LCT_RGB, LCT_PALETTE, LCT_GREY_ALPHA, LCT_RGBA}"
    "fits mode tree c" "n < length out"
  shows "rgba8ToPixel out n mode tree c =
    Inr (put_bytes (n * getNumColorChannels (colortype mode)) (pixel_bytes mode tree c) out)"
proof -
  obtain r g b a where c: "c = (r, g, b, a)" by (cases c)
  have "0 \<le> i \<Longrightarrow> word_of_nat (nat i) = (word_of_int i :: byte)" for i
    by (metis nat_0_le of_int_of_nat_eq)
  then show ?thesis
    using assms
    by (auto simp: c rgba8ToPixel_def pixel_bytes_def pixel_value_def getNumColorChannels_def fits_def
        put_bytes_single split: if_splits)
qed

lemma length_pixel_bytes:
  "colortype mode \<in> {LCT_GREY, LCT_RGB, LCT_PALETTE, LCT_GREY_ALPHA, LCT_RGBA} \<Longrightarrow>
    length (pixel_bytes mode tree c) = getNumColorChannels (colortype mode)"
  by (cases c) (auto simp: pixel_bytes_def getNumColorChannels_def)

text \<open>What has been written after \<open>n\<close> pixels.\<close>

definition pixels_written :: "LodePNGColorMode \<Rightarrow> ColorTree \<Rightarrow> (nat \<Rightarrow> rgba8) \<Rightarrow> nat \<Rightarrow> bytes \<Rightarrow> bool" where
  "pixels_written mode tree f n out =
     (if bitdepth mode < 8 then groups_written (bitdepth mode) (pixel_value mode tree \<circ> f) n out
      else (let k = getNumColorChannels (colortype mode) in
            \<forall>i < n. take k (drop (i * k) out) = pixel_bytes mode tree (f i)))"

lemma pixels_written_Suc:
  assumes v: "valid8 mode" and w: "pixels_written mode tree f n out" and fit: "fits mode tree (f n)"
    and room: "Suc n * lodepng_get_bpp mode \<le> 8 * length out"
  shows "\<exists>out'. rgba8ToPixel out n mode tree (f n) = Inr out' \<and> length out' = length out \<and>
    pixels_written mode tree f (Suc n) out'"
  using v
proof (cases rule: valid8_cases)
  case groups
  have "0 < bitdepth mode" "bitdepth mode < 8" using groups(1) by (auto simp: group_bits_def)
  then show ?thesis
    using rgba8ToPixel_group [OF groups(1,2) v fit, of out n] w room groups(3)
      groups_written_Suc [OF groups(1), of "pixel_value mode tree \<circ> f" n out]
    by (simp add: pixels_written_def)
next
  case bytes
  let ?k = "getNumColorChannels (colortype mode)" let ?b = "pixel_bytes mode tree"
  have k: "0 < ?k" using bytes(2) by (auto simp: getNumColorChannels_def)
  have r: "n * ?k + ?k \<le> length out" using room bytes(3) by (simp add: algebra_simps)
  have lb: "length (?b (f n)) = ?k" by (rule length_pixel_bytes [OF bytes(2)])
  have "n * 1 \<le> n * ?k" using k by (intro mult_le_mono2) simp
  then have "n < length out" using r k by linarith
  then have "rgba8ToPixel out n mode tree (f n) = Inr (put_bytes (n * ?k) (?b (f n)) out)"
    by (rule rgba8ToPixel_bytes [OF bytes(1,2) fit])
  moreover have "length (put_bytes (n * ?k) (?b (f n)) out) = length out" using r lb by simp
  moreover have "take ?k (drop (i * ?k) (put_bytes (n * ?k) (?b (f n)) out)) = ?b (f i)" if "i < Suc n" for i
  proof (cases "i = n")
    case True
    then show ?thesis using take_drop_put_bytes [of "n * ?k" out "?b (f n)"] r lb by simp
  next
    case False
    then have i: "i < n" using that by simp
    have "i * ?k + ?k \<le> n * ?k" using mult_le_mono1 [of "Suc i" n ?k] i by simp
    then have "take ?k (drop (i * ?k) (put_bytes (n * ?k) (?b (f n)) out)) = take ?k (drop (i * ?k) out)"
      using r lb by (intro take_drop_put_bytes_before) simp_all
    then show ?thesis using w bytes(1) i by (simp add: pixels_written_def Let_def)
  qed
  ultimately show ?thesis using bytes(1) by (simp add: pixels_written_def Let_def)
qed

section \<open>Reading them back\<close>

definition known_type :: "LodePNGColorMode \<Rightarrow> bool" where
  "known_type mode \<longleftrightarrow> colortype mode \<in> {LCT_GREY, LCT_RGB, LCT_PALETTE, LCT_GREY_ALPHA, LCT_RGBA}"

lemma valid_known: "checkColorValidity (colortype mode) (bitdepth mode) = 0 \<Longrightarrow> known_type mode"
  by (auto simp: checkColorValidity_def known_type_def split: if_splits)

lemma getPixel_before: "known_type mode \<Longrightarrow>
    getPixelColorRGBA8 c input i mode = getPixelColorRGBA8 (0, 0, 0, 0) input i mode"
  by (auto simp: known_type_def getPixelColorRGBA8_def)

abbreviation pixel8 :: "LodePNGColorMode \<Rightarrow> bytes \<Rightarrow> nat \<Rightarrow> rgba8" where
  "pixel8 mode input i \<equiv> getPixelColorRGBA8 (0, 0, 0, 0) input i mode"

lemma convert_pixels8_written:
  assumes v: "valid8 mode_out" and k: "known_type mode_in"
    and fit: "\<And>i. i < n \<Longrightarrow> fits mode_out tree (pixel8 mode_in input i)"
    and room: "n * lodepng_get_bpp mode_out \<le> 8 * length out"
  shows "\<exists>out'. convert_pixels8 mode_out mode_in tree input [0 ..< n] c out = Inr out' \<and>
    length out' = length out \<and> pixels_written mode_out tree (pixel8 mode_in input) n out'"
proof -
  have "\<exists>out'. convert_pixels8 mode_out mode_in tree input [m ..< n] c out = Inr out' \<and>
      length out' = length out \<and> pixels_written mode_out tree (pixel8 mode_in input) n out'"
    if "m \<le> n" "pixels_written mode_out tree (pixel8 mode_in input) m out"
      "n * lodepng_get_bpp mode_out \<le> 8 * length out" for m c out
    using that
  proof (induction "n - m" arbitrary: m c out)
    case (Suc d)
    then have m: "m < n" by simp
    have "Suc m * lodepng_get_bpp mode_out \<le> n * lodepng_get_bpp mode_out" using m by (intro mult_le_mono1) simp
    then obtain out1 where o: "rgba8ToPixel out m mode_out tree (pixel8 mode_in input m) = Inr out1"
      "length out1 = length out" "pixels_written mode_out tree (pixel8 mode_in input) (Suc m) out1"
      using pixels_written_Suc [OF v Suc.prems(2) fit [OF m]] Suc.prems(3) by fastforce
    then show ?case
      using Suc.hyps(1) [of "Suc m" out1 "pixel8 mode_in input m"] Suc.hyps(2) Suc.prems(3) m
      by (simp add: upt_conv_Cons getPixel_before [OF k, of c])
  qed auto
  from this [of 0] show ?thesis using room by (simp add: pixels_written_def groups_written_0)
qed

lemma take_nth:
  assumes "take k (drop j xs) = ys" "length ys = k" "t < k"
  shows "xs ! (j + t) = ys ! t"
proof -
  have "j + k \<le> length xs" using assms by (auto simp: min_def split: if_splits)
  then show ?thesis using assms(3) by (simp add: assms(1) [symmetric])
qed

text \<open>What a reader needs of an image: the bits of its pixels, whatever comes after them.\<close>

definition pixels_hold :: "LodePNGColorMode \<Rightarrow> ColorTree \<Rightarrow> (nat \<Rightarrow> rgba8) \<Rightarrow> nat \<Rightarrow> bytes \<Rightarrow> bool" where
  "pixels_hold mode tree f n out =
     (if bitdepth mode < 8 then
        (\<forall>i < n. \<forall>b < bitdepth mode.
          bit_at out (i * bitdepth mode + b) = bit (pixel_value mode tree (f i)) (bitdepth mode - 1 - b))
      else (let k = getNumColorChannels (colortype mode) in
            \<forall>i < n. take k (drop (i * k) out) = pixel_bytes mode tree (f i)))"

lemma pixels_written_hold: "pixels_written mode tree f n out \<Longrightarrow> pixels_hold mode tree f n out"
  by (auto simp: pixels_written_def pixels_hold_def groups_written_def)

lemma getPixel_hold:
  assumes v: "valid8 mode" and w: "pixels_hold mode tree f n out" and i: "i < n" and fit: "fits mode tree (f i)"
  shows "getPixelColorRGBA8 before out i mode = f i"
  using v
proof (cases rule: valid8_cases)
  case groups
  have bd: "bitdepth mode < 8" "bitdepth mode \<noteq> 16" "bitdepth mode \<le> 32" using groups(1) by (auto simp: group_bits_def)
  let ?v = "pixel_value mode tree (f i)"
  have l: "?v < 2 ^ bitdepth mode" by (rule pixel_value_less [OF fit v groups(2)])
  have "fst (readBitsFromReversedStream (i * bitdepth mode) out (bitdepth mode)) = word_of_nat (?v mod 2 ^ bitdepth mode)"
    by (rule read_bits_value [OF bd(3)]) (use w i bd in \<open>simp add: pixels_hold_def\<close>)
  then have r: "fst (readBitsFromReversedStream (i * bitdepth mode) out (bitdepth mode)) = word_of_nat ?v"
    using l by simp
  have "(2 :: nat) ^ bitdepth mode \<le> 2 ^ 8" using bd by (intro power_increasing) simp_all
  then have u: "unat (word_of_nat ?v :: u32) = ?v" using l by (simp add: unat_of_nat)
  obtain r' g b a where c: "f i = (r', g, b, a)" by (cases "f i")
  show ?thesis
    using groups(2)
  proof
    assume "colortype mode = LCT_GREY"
    then show ?thesis using fit bd r by (simp add: getPixelColorRGBA8_def fits_def c pixel_value_def)
  next
    assume "colortype mode = LCT_PALETTE"
    then show ?thesis using fit bd r u by (simp add: getPixelColorRGBA8_def fits_def c pixel_value_def)
  qed
next
  case bytes
  let ?k = "getNumColorChannels (colortype mode)"
  have t: "out ! (i * ?k + t) = pixel_bytes mode tree (f i) ! t" if "t < ?k" for t
    using w i bytes(1) that length_pixel_bytes [OF bytes(2)]
    by (intro take_nth [of ?k]) (auto simp: pixels_hold_def Let_def)
  obtain r g b a where c: "f i = (r, g, b, a)" by (cases "f i")
  have x: "unat (word_of_int m :: byte) = nat m" if "0 \<le> m" "nat m < 256" for m
    using that unat_of_nat [of "nat m", where ?'a = 8] by simp
  note defs = getPixelColorRGBA8_def fits_def c pixel_bytes_def getNumColorChannels_def
  from bytes(2) consider "colortype mode = LCT_GREY" | "colortype mode = LCT_RGB" | "colortype mode = LCT_PALETTE"
    | "colortype mode = LCT_GREY_ALPHA" | "colortype mode = LCT_RGBA" by auto
  then show ?thesis
  proof cases
    case 1
    then show ?thesis using bytes(1) fit t [of 0] by (simp add: defs grey_value_def)
  next
    case 2
    then show ?thesis using bytes(1) fit t [of 0] t [of 1] t [of 2] by (simp add: defs)
  next
    case 3
    then show ?thesis using bytes(1) fit t [of 0] by (simp add: defs pixel_value_def x)
  next
    case 4
    then show ?thesis using bytes(1) fit t [of 0] t [of 1] by (simp add: defs)
  next
    case 5
    then show ?thesis using bytes(1) fit t [of 0] t [of 1] t [of 2] t [of 3] by (simp add: defs)
  qed
qed

end
