(* ===== verification/Png_Recolor.thy ===== *)
theory Png_Recolor
  imports Png_Pixels
begin

unbundle bit_operations_syntax

text \<open>
  Images of one colour mode in another: the functions that read all pixels at once agree with the one
  that reads a single pixel, and an image converted to a mode that can hold its colours comes back
  from it.
\<close>

section \<open>All pixels at once\<close>

fun quad :: "rgba8 \<Rightarrow> bytes" where
  "quad (r, g, b, a) = [r, g, b, a]"

lemma length_quad [simp]: "length (quad c) = 4"
  by (cases c) simp

lemma length_pixels: "(\<And>i. i < n \<Longrightarrow> length (f i) = k) \<Longrightarrow> length (pixels n f) = n * k"
  by (induction n) (simp_all add: pixels_def)

lemma pixels_cong: "(\<And>i. i < n \<Longrightarrow> f i = g i) \<Longrightarrow> pixels n f = pixels n g"
  unfolding pixels_def by (rule arg_cong [where f = concat], rule map_cong) auto

lemma pixels_split: "i < n \<Longrightarrow> pixels n f = pixels i f @ f i @ concat (map f [Suc i ..< n])"
proof -
  assume "i < n"
  then have "[0 ..< n] = [0 ..< i] @ i # [Suc i ..< n]"
    by (metis le_add_diff_inverse less_imp_le upt_add_eq_append upt_conv_Cons zero_le)
  then show ?thesis by (simp add: pixels_def)
qed

lemma take_drop_pixels:
  assumes "\<And>i. i < n \<Longrightarrow> length (f i) = k" "i < n"
  shows "take k (drop (i * k) (pixels n f)) = f i"
  using assms length_pixels [of i f k] by (simp add: pixels_split [OF assms(2)])

lemma pixels_of_list: "n * k \<le> length xs \<Longrightarrow> pixels n (\<lambda>i. take k (drop (i * k) xs)) = take (n * k) xs"
proof (induction n)
  case (Suc n)
  then have "pixels (Suc n) (\<lambda>i. take k (drop (i * k) xs)) = take (n * k) xs @ take k (drop (n * k) xs)"
    by (simp add: pixels_def)
  then show ?case by (simp add: take_add [symmetric] add.commute)
qed (simp add: pixels_def)

lemma take4: "i + 3 < length xs \<Longrightarrow> take 4 (drop i xs) = [xs ! i, xs ! (i + 1), xs ! (i + 2), xs ! (i + 3)]"
  by (intro nth_equalityI) (auto simp: less_Suc_eq numeral_eq_Suc)

lemma take3: "i + 2 < length xs \<Longrightarrow> take 3 (drop i xs) = [xs ! i, xs ! (i + 1), xs ! (i + 2)]"
  by (intro nth_equalityI) (auto simp: less_Suc_eq numeral_eq_Suc)

lemma read_groups_nth:
  assumes "bits \<le> 32"
  shows "length (read_groups n bits input) = n \<and>
    (\<forall>i < n. read_groups n bits input ! i = fst (readBitsFromReversedStream (i * bits) input bits))"
proof -
  let ?read = "\<lambda>i (vs, j). (let (v, j) = readBitsFromReversedStream j input bits in (vs @ [v], j))"
  have "fold ?read [0 ..< n] ([], 0) =
      (map (\<lambda>i. fst (readBitsFromReversedStream (i * bits) input bits)) [0 ..< n], n * bits)"
  proof (induction n)
    case (Suc n)
    have "readBitsFromReversedStream (n * bits) input bits =
        (fst (readBitsFromReversedStream (n * bits) input bits), n * bits + bits)"
      using bit_fold_read [OF assms, of "n * bits" input] by (simp add: prod_eq_iff)
    then obtain v where v: "readBitsFromReversedStream (n * bits) input bits = (v, n * bits + bits)" by blast
    have "fold ?read [0 ..< Suc n] ([], 0) = ?read n (fold ?read [0 ..< n] ([], 0))" by simp
    then show ?case unfolding Suc by (simp add: v)
  qed simp
  then show ?thesis by (simp add: read_groups_def)
qed

text \<open>Clearing the alpha of the keyed pixels afterwards is choosing it at once.\<close>

lemma pixels_update:
  assumes "i < n" "\<And>i. i < n \<Longrightarrow> length (f i) = 4" "j < 4"
  shows "(pixels n f)[i * 4 + j := x] = pixels n (f(i := (f i)[j := x]))"
proof -
  have l: "length (pixels i f) = i * 4" using assms(1,2) by (intro length_pixels) simp
  have "pixels i (f(i := y)) = pixels i f" for y by (rule pixels_cong) simp
  moreover have "map (f(i := y)) [Suc i ..< n] = map f [Suc i ..< n]" for y by (rule map_cong) auto
  ultimately show ?thesis
    unfolding pixels_split [OF assms(1)] using l assms by (simp add: list_update_append)
qed

lemma clear_keyed_pixels:
  assumes "\<And>i. i < n \<Longrightarrow> length (f i) = 4" and "\<And>i xs. i < n \<Longrightarrow> is_key (f i @ xs) = is_key (f i)"
  shows "clear_keyed n is_key (pixels n f) = pixels n (\<lambda>i. if is_key (f i) then (f i)[3 := 0] else f i)"
proof -
  let ?g = "\<lambda>m i. if i < m \<and> is_key (f i) then (f i)[3 := 0] else f i"
  have "fold (\<lambda>i buffer. if is_key (drop (i * 4) buffer) then buffer[i * 4 + 3 := 0] else buffer) [0 ..< m]
      (pixels n f) = pixels n (?g m)" if "m \<le> n" for m
    using that
  proof (induction m)
    case 0
    show ?case by simp
  next
    case (Suc m)
    then have m: "m < n" by simp
    have l: "\<And>i. i < n \<Longrightarrow> length (?g m i) = 4" using assms(1) by simp
    have "length (pixels m (?g m)) = m * 4" using m assms(1) by (intro length_pixels) auto
    then have "drop (m * 4) (pixels n (?g m)) = f m @ concat (map (?g m) [Suc m ..< n])"
      unfolding pixels_split [OF m, of "?g m"] by simp
    then have k: "is_key (drop (m * 4) (pixels n (?g m))) = is_key (f m)" using assms(2) [OF m] by simp
    have "(pixels n (?g m))[m * 4 + 3 := 0] = pixels n ((?g m)(m := (?g m m)[3 := 0]))"
      by (rule pixels_update [OF m l]) simp_all
    moreover have "pixels n ((?g m)(m := (?g m m)[3 := 0])) = pixels n (?g (Suc m))" if "is_key (f m)"
      using that by (intro pixels_cong) (auto simp: less_Suc_eq)
    moreover have "pixels n (?g m) = pixels n (?g (Suc m))" if "\<not> is_key (f m)"
      using that by (intro pixels_cong) (auto simp: less_Suc_eq)
    ultimately show ?case using Suc.IH m k by simp
  qed
  from this [of n] have "clear_keyed n is_key (pixels n f) = pixels n (?g n)" by (simp add: clear_keyed_def)
  also have "\<dots> = pixels n (\<lambda>i. if is_key (f i) then (f i)[3 := 0] else f i)"
    by (rule pixels_cong) simp
  finally show ?thesis .
qed

text \<open>What the reader of a whole image relies on: its buffers are as long as the mode needs.\<close>

definition pixels_ready :: "LodePNGColorMode \<Rightarrow> nat \<Rightarrow> bytes \<Rightarrow> bool" where
  "pixels_ready mode n input \<longleftrightarrow> checkColorValidity (colortype mode) (bitdepth mode) = 0 \<and>
     n * lodepng_get_bpp mode \<le> 8 * length input \<and>
     (colortype mode = LCT_PALETTE \<longrightarrow> length (palette_bytes mode) = 1024)"

lemma group_index:
  assumes "bits \<le> 8"
  shows "unat (fst (readBitsFromReversedStream j input bits)) < 256"
proof -
  let ?v = "fst (readBitsFromReversedStream j input bits)"
  have "?v = take_bit bits ?v"
    using bit_fold_read [of bits j input] assms by (intro bit_word_eqI) (auto simp: bit_take_bit_iff)
  then have "unat ?v = unat ?v mod 2 ^ bits" by (metis take_bit_eq_mod unsigned_take_bit_eq)
  moreover have "unat ?v mod 2 ^ bits < 2 ^ bits" by simp
  moreover have "(2 :: nat) ^ bits \<le> 256" using assms power_increasing [of bits 8 "2 :: nat"] by simp
  ultimately show ?thesis by linarith
qed

lemma getPixelColorsRGBA8_each:
  assumes "pixels_ready mode n input" "length buffer = n * 4"
  shows "getPixelColorsRGBA8 buffer n input mode = pixels n (\<lambda>i. quad (pixel8 mode input i))"
proof -
  have valid: "checkColorValidity (colortype mode) (bitdepth mode) = 0"
    and len: "n * lodepng_get_bpp mode \<le> 8 * length input"
    and pal: "colortype mode = LCT_PALETTE \<Longrightarrow> length (palette_bytes mode) = 1024"
    using assms(1) by (simp_all add: pixels_ready_def)
  have whole: "put_bytes 0 (pixels n f) buffer = pixels n f" if "\<And>i. length (f i) = 4" for f
    using assms(2) length_pixels [of n f 4] that by (intro put_bytes_all) simp
  note rg = read_groups_nth [of "bitdepth mode" n input]
  have color: "take 4 (drop (j * 4) (palette_bytes mode)) = quad (palette_color mode j)"
    if "colortype mode = LCT_PALETTE" "j < 256" for j
    using take4 [of "j * 4" "palette_bytes mode"] pal that by (simp add: palette_color_def Let_def)
  have b8: "unat (x :: byte) < 256" for x using unsigned_less [of x] by simp
  from valid consider (g8) "colortype mode = LCT_GREY" "bitdepth mode = 8"
    | (g16) "colortype mode = LCT_GREY" "bitdepth mode = 16"
    | (gs) "colortype mode = LCT_GREY" "bitdepth mode < 8"
    | (c8) "colortype mode = LCT_RGB" "bitdepth mode = 8" | (c16) "colortype mode = LCT_RGB" "bitdepth mode = 16"
    | (p8) "colortype mode = LCT_PALETTE" "bitdepth mode = 8" | (ps) "colortype mode = LCT_PALETTE" "bitdepth mode < 8"
    | (ga) "colortype mode = LCT_GREY_ALPHA"
    | (ca8) "colortype mode = LCT_RGBA" "bitdepth mode = 8" | (ca16) "colortype mode = LCT_RGBA" "bitdepth mode = 16"
    by (auto simp: checkColorValidity_def split: if_splits)
  then show ?thesis
  proof cases
    case g8
    let ?f = "\<lambda>i. [input ! i, input ! i, input ! i, 255]"
    have "clear_keyed n (\<lambda>p. ucast (p ! 0) = key_r mode) (pixels n ?f) =
        pixels n (\<lambda>i. if ucast (input ! i) = key_r mode then [input ! i, input ! i, input ! i, 0] else ?f i)"
      by (subst clear_keyed_pixels) (auto intro!: pixels_cong)
    then show ?thesis
      using g8 by (auto simp: getPixelColorsRGBA8_def getPixelColorRGBA8_def whole Let_def intro!: pixels_cong)
  next
    case g16
    then show ?thesis
      by (auto simp: getPixelColorsRGBA8_def getPixelColorRGBA8_def whole Let_def intro!: pixels_cong)
  next
    case gs
    then show ?thesis
      using rg by (auto simp: getPixelColorsRGBA8_def getPixelColorRGBA8_def whole Let_def intro!: pixels_cong)
  next
    case c8
    have i3: "i * 3 + 2 < length input" if "i < n" for i
      using len that c8 by (simp add: lodepng_get_bpp_def lodepng_get_bpp_lct_def getNumColorChannels_def)
    let ?f = "\<lambda>i. [input ! (i * 3), input ! (i * 3 + 1), input ! (i * 3 + 2), 255]"
    let ?key = "\<lambda>p. ucast (p ! 0) = key_r mode \<and> ucast (p ! 1) = key_g mode \<and> ucast (p ! 2) = key_b mode"
    have f: "pixels n (\<lambda>i. take 3 (drop (i * 3) input) @ [255]) = pixels n ?f"
      by (rule pixels_cong) (simp add: take3 [OF i3])
    have "clear_keyed n ?key (pixels n ?f) = pixels n (\<lambda>i. if ?key (?f i) then (?f i)[3 := 0] else ?f i)"
      by (rule clear_keyed_pixels) simp_all
    then show ?thesis
      using c8 by (auto simp: getPixelColorsRGBA8_def getPixelColorRGBA8_def whole f Let_def intro!: pixels_cong)
  next
    case c16
    then show ?thesis
      by (auto simp: getPixelColorsRGBA8_def getPixelColorRGBA8_def whole Let_def intro!: pixels_cong)
  next
    case p8
    have "pixels n (\<lambda>i. take 4 (drop (unat (input ! i) * 4) (palette_bytes mode))) =
        pixels n (\<lambda>i. quad (palette_color mode (unat (input ! i))))"
      by (rule pixels_cong) (rule color [OF p8(1) b8])
    then show ?thesis
      using p8 by (simp add: getPixelColorsRGBA8_def getPixelColorRGBA8_def whole)
  next
    case ps
    have "pixels n (\<lambda>i. take 4 (drop (unat (read_groups n (bitdepth mode) input ! i) * 4) (palette_bytes mode))) =
        pixels n (\<lambda>i. quad (palette_color mode
          (unat (fst (readBitsFromReversedStream (i * bitdepth mode) input (bitdepth mode))))))"
      using rg ps color [OF ps(1) group_index] by (intro pixels_cong) simp
    then show ?thesis
      using ps by (simp add: getPixelColorsRGBA8_def getPixelColorRGBA8_def whole)
  next
    case ga
    then show ?thesis
      by (auto simp: getPixelColorsRGBA8_def getPixelColorRGBA8_def whole intro!: pixels_cong)
  next
    case ca8
    have "n * 4 \<le> length input"
      using len ca8 by (simp add: lodepng_get_bpp_def lodepng_get_bpp_lct_def getNumColorChannels_def)
    then have "take (n * 4) input = pixels n (\<lambda>i. take 4 (drop (i * 4) input))" "length (take (n * 4) input) = n * 4"
      by (simp_all add: pixels_of_list)
    moreover have "pixels n (\<lambda>i. take 4 (drop (i * 4) input)) = pixels n (\<lambda>i. quad (pixel8 mode input i))"
      using ca8 \<open>n * 4 \<le> length input\<close> by (intro pixels_cong) (simp add: take4 getPixelColorRGBA8_def)
    ultimately show ?thesis
      using ca8 assms(2) put_bytes_all [of "take (n * 4) input" buffer] by (simp add: getPixelColorsRGBA8_def)
  next
    case ca16
    then show ?thesis
      by (auto simp: getPixelColorsRGBA8_def getPixelColorRGBA8_def whole intro!: pixels_cong)
  qed
qed

section \<open>From RGBA to a mode and back\<close>

lemma pixels_hold_bits:
  assumes v: "valid8 mode" and h: "pixels_hold mode tree f n xs"
    and len: "n * lodepng_get_bpp mode \<le> 8 * length xs" "n * lodepng_get_bpp mode \<le> 8 * length ys"
    and same: "\<And>c. c < n * lodepng_get_bpp mode \<Longrightarrow> bit_at ys c = bit_at xs c"
  shows "pixels_hold mode tree f n ys"
  using v
proof (cases rule: valid8_cases)
  case groups
  then have "bitdepth mode < 8" by (auto simp: group_bits_def)
  moreover have "bit_at ys (i * bitdepth mode + b) = bit_at xs (i * bitdepth mode + b)"
    if "i < n" "b < bitdepth mode" for i b
    using same index_less [OF that] groups(3) by simp
  ultimately show ?thesis using h by (simp add: pixels_hold_def)
next
  case bytes
  let ?k = "getNumColorChannels (colortype mode)"
  have l: "n * ?k \<le> length xs" "n * ?k \<le> length ys" using len bytes(3) by simp_all
  have "take (n * ?k) ys = take (n * ?k) xs"
  proof (rule bytes_eqI)
    fix c assume "c < 8 * length (take (n * ?k) ys)"
    then have c: "c < n * lodepng_get_bpp mode" "c div 8 < n * ?k" using l bytes(3) by (auto simp: less_mult_imp_div_less)
    then show "bit_at (take (n * ?k) ys) c = bit_at (take (n * ?k) xs) c"
      using same [OF c(1)] by (simp add: bit_at_def)
  qed (use l in simp)
  moreover have piece: "take ?k (drop (i * ?k) zs) = take ?k (drop (i * ?k) (take (n * ?k) zs))" if "i < n" for i and zs :: bytes
  proof -
    have "i * ?k + ?k \<le> n * ?k" using mult_le_mono1 [of "Suc i" n ?k] that by simp
    then show ?thesis by (simp add: drop_take min_def)
  qed
  ultimately have "take ?k (drop (i * ?k) ys) = take ?k (drop (i * ?k) xs)" if "i < n" for i
    using piece [OF that, of ys] piece [OF that, of xs] by simp
  then show ?thesis using h bytes(1) by (simp add: pixels_hold_def Let_def)
qed

text \<open>The tree that a conversion to the mode looks its colours up in.\<close>

definition mode_tree :: "LodePNGColorMode \<Rightarrow> ColorTree" where
  "mode_tree mode =
     (if colortype mode = LCT_PALETTE
      then palette_tree (min (palettesize mode) (2 ^ bitdepth mode)) (palette_bytes mode)
      else color_tree_init)"

definition rgba8_mode :: "LodePNGColorMode \<Rightarrow> bool" where
  "rgba8_mode mode \<longleftrightarrow> colortype mode = LCT_RGBA \<and> bitdepth mode = 8"

lemma rgba8_bpp: "rgba8_mode mode \<Longrightarrow> lodepng_get_bpp mode = 32" "rgba8_mode mode \<Longrightarrow> known_type mode"
  "rgba8_mode mode \<Longrightarrow> valid8 mode"
  by (simp_all add: rgba8_mode_def lodepng_get_bpp_def lodepng_get_bpp_lct_def getNumColorChannels_def
      known_type_def valid8_def checkColorValidity_def)

lemma convert_from_rgba8:
  assumes v: "valid8 mode" and raw: "rgba8_mode raw"
    and differ: "\<not> lodepng_color_mode_equal mode raw" "\<not> rgba8_mode mode"
    and pal: "colortype mode = LCT_PALETTE \<Longrightarrow> palettesize mode \<noteq> 0"
    and fit: "\<And>i. i < w * h \<Longrightarrow> fits mode (mode_tree mode) (pixel8 raw img i)"
    and len: "length out = (w * h * lodepng_get_bpp mode + 7) div 8" "length img = w * h * 4"
  shows "\<exists>conv. lodepng_convert out img mode raw w h = Inr conv \<and> length conv = length out \<and>
    pixels_hold mode (mode_tree mode) (pixel8 raw img) (w * h) conv"
proof (cases "bitdepth mode = 8 \<and> colortype mode = LCT_RGB")
  case True
  let ?n = "w * h"
  have l: "length out = ?n * 3"
    using len(1) True by (simp add: lodepng_get_bpp_def lodepng_get_bpp_lct_def getNumColorChannels_def)
  let ?ps = "pixels ?n (\<lambda>i. take 3 (drop (i * 4) img))"
  have three: "take 3 (drop (i * 4) img) = pixel_bytes mode (mode_tree mode) (pixel8 raw img i)" if "i < ?n" for i
    using that len(2) raw True by (simp add: take3 rgba8_mode_def getPixelColorRGBA8_def pixel_bytes_def)
  have "length (take 3 (drop (i * 4) img)) = 3" if "i < ?n" for i using that len(2) by simp
  note ps = length_pixels [of ?n "\<lambda>i. take 3 (drop (i * 4) img)" 3, OF this]
    take_drop_pixels [of ?n "\<lambda>i. take 3 (drop (i * 4) img)" 3, OF this]
  have "lodepng_convert out img mode raw w h = Inr ?ps"
    using True raw differ(1) l ps(1)
    by (simp add: lodepng_convert_def rgba8_mode_def getPixelColorsRGB8_def put_bytes_all)
  moreover have "pixels_hold mode (mode_tree mode) (pixel8 raw img) ?n ?ps"
    using True ps(2) three by (simp add: pixels_hold_def getNumColorChannels_def)
  ultimately show ?thesis using ps(1) l by simp
next
  case False
  have "lodepng_convert out img mode raw w h =
      convert_pixels8 mode raw (mode_tree mode) img [0 ..< w * h] (0, 0, 0, 0) out"
    using False raw differ pal v
    by (auto simp: lodepng_convert_def rgba8_mode_def valid8_def mode_tree_def Let_def)
  moreover have "w * h * lodepng_get_bpp mode \<le> 8 * length out" using len(1) by linarith
  ultimately show ?thesis
    using convert_pixels8_written [OF v rgba8_bpp(2) [OF raw], where n = "w * h" and input = img and out = out
        and tree = "mode_tree mode" and c = "(0, 0, 0, 0)"] fit pixels_written_hold by fastforce
qed

text \<open>A mode that shows the same colours, for example the one that the decoder reads from the file.\<close>

definition same_colors :: "LodePNGColorMode \<Rightarrow> LodePNGColorMode \<Rightarrow> bool" where
  "same_colors mode mode' \<longleftrightarrow> colortype mode' = colortype mode \<and> bitdepth mode' = bitdepth mode \<and>
     (colortype mode = LCT_GREY \<longrightarrow> key_defined mode' = key_defined mode \<and> (key_defined mode \<longrightarrow> key_r mode' = key_r mode)) \<and>
     (colortype mode = LCT_RGB \<longrightarrow> key_defined mode' = key_defined mode \<and>
       (key_defined mode \<longrightarrow> key_r mode' = key_r mode \<and> key_g mode' = key_g mode \<and> key_b mode' = key_b mode)) \<and>
     (colortype mode = LCT_PALETTE \<longrightarrow> (\<forall>j < palettesize mode. palette_color mode' j = palette_color mode j))"

lemma mode_tree_found:
  assumes "colortype mode = LCT_PALETTE" "0 \<le> color_tree_get (mode_tree mode) c"
  shows "nat (color_tree_get (mode_tree mode) c) < palettesize mode"
    "palette_color mode (nat (color_tree_get (mode_tree mode) c)) = c"
proof -
  let ?n = "min (palettesize mode) (2 ^ bitdepth mode)"
  have "mode_tree mode = color_tree.fill (palette_color mode) ?n"
    using assms(1) by (simp add: mode_tree_def palette_tree_fill palette_color_def [abs_def] Let_def)
  then show "nat (color_tree_get (mode_tree mode) c) < palettesize mode"
    "palette_color mode (nat (color_tree_get (mode_tree mode) c)) = c"
    using color_tree.get_fill [of "palette_color mode" ?n c] assms(2) by auto
qed

lemma fits_same_colors:
  assumes "same_colors mode mode'" "fits mode (mode_tree mode) c" shows "fits mode' (mode_tree mode) c"
proof (cases "colortype mode = LCT_PALETTE")
  case True
  have "0 \<le> color_tree_get (mode_tree mode) c" using True assms(2) by (auto simp: fits_def split: prod.splits)
  note mode_tree_found [OF True this]
  then show ?thesis using assms True by (auto simp: fits_def same_colors_def split: prod.splits)
next
  case False
  have s: "colortype mode' = colortype mode" "grey_value mode' = grey_value mode" "bitdepth mode' = bitdepth mode"
    using assms(1) by (simp_all add: same_colors_def grey_value_def [abs_def])
  consider "colortype mode = LCT_GREY" | "colortype mode = LCT_RGB" | "colortype mode \<noteq> LCT_GREY" "colortype mode \<noteq> LCT_RGB"
    by blast
  then show ?thesis
  proof cases
    case 1
    then show ?thesis using assms s by (cases c) (simp add: fits_def same_colors_def)
  next
    case 2
    then show ?thesis using assms s by (cases c) (simp add: fits_def same_colors_def)
  next
    case 3
    then show ?thesis using assms(2) s False by (cases c) (simp add: fits_def)
  qed
qed

text \<open>Converting back to RGBA gives the pixels of the original.\<close>

lemma quads_of_rgba8:
  assumes "rgba8_mode raw" "length img = n * 4"
  shows "pixels n (\<lambda>i. quad (pixel8 raw img i)) = img"
proof -
  have "pixels n (\<lambda>i. quad (pixel8 raw img i)) = pixels n (\<lambda>i. take 4 (drop (i * 4) img))"
    using assms by (intro pixels_cong) (simp add: take4 rgba8_mode_def getPixelColorRGBA8_def)
  then show ?thesis using pixels_of_list [of n 4 img] assms(2) by simp
qed

lemma convert_to_rgba8:
  assumes v: "valid8 mode" and raw: "rgba8_mode raw"
    and same: "same_colors mode mode'" and differ: "\<not> lodepng_color_mode_equal raw mode'"
    and pal: "colortype mode = LCT_PALETTE \<Longrightarrow> palette mode' \<noteq> None \<and> length (palette_bytes mode') = 1024"
    and fit: "\<And>i. i < w * h \<Longrightarrow> fits mode (mode_tree mode) (pixel8 raw img i)"
    and hold: "pixels_hold mode (mode_tree mode) (pixel8 raw img) (w * h) conv"
    and len: "length out = w * h * 4" "length img = w * h * 4" "w * h * lodepng_get_bpp mode \<le> 8 * length conv"
  shows "lodepng_convert out conv raw mode' w h = Inr img"
proof -
  have s: "colortype mode' = colortype mode" "bitdepth mode' = bitdepth mode"
    using same by (simp_all add: same_colors_def)
  have v': "valid8 mode'" "lodepng_get_bpp mode' = lodepng_get_bpp mode"
    using v s by (simp_all add: valid8_def lodepng_get_bpp_def)
  have hold': "pixels_hold mode' (mode_tree mode) (pixel8 raw img) (w * h) conv"
  proof -
    have pv: "pixel_value mode' = pixel_value mode" using s by (intro ext) (simp add: pixel_value_def grey_value_def)
    have "pixel_bytes mode' = pixel_bytes mode" unfolding pixel_bytes_def [abs_def] s pv ..
    then show ?thesis using hold s pv by (simp add: pixels_hold_def)
  qed
  have shown: "pixel8 mode' conv i = pixel8 raw img i" if "i < w * h" for i
    by (rule getPixel_hold [OF v'(1) hold' that fits_same_colors [OF same fit [OF that]]])
  have "pixels_ready mode' (w * h) conv"
    using v' len(3) pal s by (simp add: pixels_ready_def valid8_def)
  note each = getPixelColorsRGBA8_each [OF this len(1)]
  have "bitdepth mode' \<noteq> 16" using v' by (simp add: valid8_def)
  then have "lodepng_convert out conv raw mode' w h = Inr (getPixelColorsRGBA8 out (w * h) conv mode')"
    using raw differ pal s by (auto simp: lodepng_convert_def rgba8_mode_def Let_def)
  also have "getPixelColorsRGBA8 out (w * h) conv mode' = pixels (w * h) (\<lambda>i. quad (pixel8 raw img i))"
    unfolding each by (rule pixels_cong) (simp add: shown)
  finally show ?thesis using quads_of_rgba8 [OF raw len(2)] by simp
qed

end
