(* ===== verification/Png_Stats.thy ===== *)
theory Png_Stats
  imports Png_Recolor
begin

unbundle bit_operations_syntax

text \<open>
  The colour statistics of an image and the choice of the smallest colour mode for it in
  \<open>lodepng.cpp\<close>. The loops over the pixels stop early when nothing can change any more. The statistics
  can be filled by several calls, one after the other.
\<close>

section \<open>Statistics\<close>

record LodePNGColorStats =
  st_colored :: bool
  st_key :: bool
  st_key_r :: u16
  st_key_g :: u16
  st_key_b :: u16
  st_alpha :: bool
  st_numcolors :: nat
  st_palette :: bytes
  st_bits :: nat
  st_numpixels :: nat
  allow_palette :: bool
  allow_greyscale :: bool

definition lodepng_color_stats_init :: "LodePNGColorStats \<Rightarrow> LodePNGColorStats" where
  "lodepng_color_stats_init stats =
     stats\<lparr>st_colored := False, st_key := False, st_key_r := 0, st_key_g := 0, st_key_b := 0,
       st_alpha := False, st_numcolors := 0, st_bits := 1, st_numpixels := 0, allow_palette := True,
       allow_greyscale := True\<rparr>"

definition getValueRequiredBits :: "byte \<Rightarrow> nat" where
  "getValueRequiredBits v =
     (if v = 0 \<or> v = 255 then 1
      else if v mod 17 = 0 then (if v mod 85 = 0 then 2 else 4)
      else 8)"

text \<open>Which parts of the statistics can no longer change.\<close>

record stats_done =
  colored_done :: bool
  alpha_done :: bool
  numcolors_done :: bool
  bits_done :: bool

definition all_done :: "stats_done \<Rightarrow> bool" where
  "all_done d \<longleftrightarrow> alpha_done d \<and> numcolors_done d \<and> colored_done d \<and> bits_done d"

definition matches_key :: "LodePNGColorStats \<Rightarrow> u16 \<Rightarrow> u16 \<Rightarrow> u16 \<Rightarrow> bool" where
  "matches_key stats r g b \<longleftrightarrow> r = st_key_r stats \<and> g = st_key_g stats \<and> b = st_key_b stats"

text \<open>
  The part about transparency, for an opaque value of \<open>opaque\<close>; \<open>raise_bits\<close> is set where an alpha
  channel needs 8 bits.
\<close>

definition stats_alpha ::
  "bool \<Rightarrow> u16 \<Rightarrow> rgba16 \<Rightarrow> LodePNGColorStats \<times> stats_done \<Rightarrow> LodePNGColorStats \<times> stats_done" where
  "stats_alpha raise_bits opaque c x = (case (c, x) of ((r, g, b, a), (stats, d)) \<Rightarrow>
     if alpha_done d then (stats, d)
     else
       (let matchkey = matches_key stats r g b;
            full = (stats\<lparr>st_alpha := True, st_key := False,
                st_bits := (if raise_bits \<and> st_bits stats < 8 then 8 else st_bits stats)\<rparr>,
              d\<lparr>alpha_done := True\<rparr>) in
        if a \<noteq> opaque \<and> (a \<noteq> 0 \<or> st_key stats \<and> \<not> matchkey) then full
        else if a = 0 \<and> \<not> st_alpha stats \<and> \<not> st_key stats then
          (stats\<lparr>st_key := True, st_key_r := r, st_key_g := g, st_key_b := b\<rparr>, d)
        else if a = opaque \<and> st_key stats \<and> matchkey then full
        else (stats, d)))"

definition stats_step16 ::
  "rgba16 \<Rightarrow> LodePNGColorStats \<times> stats_done \<Rightarrow> LodePNGColorStats \<times> stats_done" where
  "stats_step16 c x = (case (c, x) of ((r, g, b, a), (stats, d)) \<Rightarrow>
     (let (stats, d) =
            (if \<not> colored_done d \<and> (r \<noteq> g \<or> r \<noteq> b)
             then (stats\<lparr>st_colored := True\<rparr>, d\<lparr>colored_done := True\<rparr>) else (stats, d)) in
      stats_alpha False 65535 c (stats, d)))"

fun stats_loop16 ::
  "(nat \<Rightarrow> rgba16) \<Rightarrow> nat list \<Rightarrow> LodePNGColorStats \<times> stats_done \<Rightarrow> LodePNGColorStats \<times> stats_done" where
  "stats_loop16 pix [] x = x"
| "stats_loop16 pix (i # is) x =
     (let x = stats_step16 (pix i) x in if all_done (snd x) then x else stats_loop16 pix is x)"

text \<open>A step of the other loop, which also counts bits and colours; \<open>bpp\<close> and \<open>maxnumcolors\<close> are fixed.\<close>

definition stats_bits8 :: "nat \<Rightarrow> byte \<Rightarrow> LodePNGColorStats \<times> stats_done \<Rightarrow> LodePNGColorStats \<times> stats_done" where
  "stats_bits8 bpp r x = (case x of (stats, d) \<Rightarrow>
     (let stats = (if \<not> bits_done d \<and> st_bits stats < 8 \<and> getValueRequiredBits r > st_bits stats
                   then stats\<lparr>st_bits := getValueRequiredBits r\<rparr> else stats) in
      (stats, d\<lparr>bits_done := (st_bits stats \<ge> bpp)\<rparr>)))"

definition stats_colored8 :: "rgba8 \<Rightarrow> LodePNGColorStats \<times> stats_done \<Rightarrow> LodePNGColorStats \<times> stats_done" where
  "stats_colored8 c x = (case (c, x) of ((r, g, b, a), (stats, d)) \<Rightarrow>
     if \<not> colored_done d \<and> (r \<noteq> g \<or> r \<noteq> b)
     then (stats\<lparr>st_colored := True, st_bits := (if st_bits stats < 8 then 8 else st_bits stats)\<rparr>,
           d\<lparr>colored_done := True\<rparr>)
     else (stats, d))"

definition stats_count8 ::
  "nat \<Rightarrow> rgba8 \<Rightarrow> ColorTree \<times> LodePNGColorStats \<times> stats_done \<Rightarrow> ColorTree \<times> LodePNGColorStats \<times> stats_done" where
  "stats_count8 maxnumcolors c x = (case x of (tree, stats, d) \<Rightarrow>
     if \<not> numcolors_done d \<and> \<not> color_tree_has tree c then
       (let n = st_numcolors stats;
            stats = (if n < 256
                     then stats\<lparr>st_palette := put_bytes (n * 4) (quad c) (st_palette stats)\<rparr> else stats) in
        (color_tree_add tree c n, stats\<lparr>st_numcolors := n + 1\<rparr>,
         d\<lparr>numcolors_done := (n + 1 \<ge> maxnumcolors)\<rparr>))
     else (tree, stats, d))"

definition stats_step8 ::
  "nat \<Rightarrow> nat \<Rightarrow> rgba8 \<Rightarrow> ColorTree \<times> LodePNGColorStats \<times> stats_done \<Rightarrow>
   ColorTree \<times> LodePNGColorStats \<times> stats_done" where
  "stats_step8 bpp maxnumcolors c x = (case (c, x) of ((r, g, b, a), (tree, y)) \<Rightarrow>
     (let y = stats_bits8 bpp r y;
          y = stats_colored8 c y;
          y = stats_alpha True 255 (ucast r, ucast g, ucast b, ucast a) y in
      stats_count8 maxnumcolors c (tree, y)))"

fun stats_loop8 ::
  "nat \<Rightarrow> nat \<Rightarrow> (nat \<Rightarrow> rgba8) \<Rightarrow> nat list \<Rightarrow> ColorTree \<times> LodePNGColorStats \<times> stats_done \<Rightarrow>
   ColorTree \<times> LodePNGColorStats \<times> stats_done" where
  "stats_loop8 bpp maxnumcolors pix [] x = x"
| "stats_loop8 bpp maxnumcolors pix (i # is) x =
     (let x = stats_step8 bpp maxnumcolors (pix i) x in
      if all_done (snd (snd x)) then x else stats_loop8 bpp maxnumcolors pix is x)"

text \<open>The second pass: an opaque pixel with the colour of the key rules the key out.\<close>

definition stats_recheck ::
  "bool \<Rightarrow> (nat \<Rightarrow> rgba16) \<Rightarrow> nat \<Rightarrow> LodePNGColorStats \<Rightarrow> LodePNGColorStats" where
  "stats_recheck raise_bits pix n stats =
     (if st_key stats \<and> \<not> st_alpha stats then
        fold (\<lambda>i stats. case pix i of (r, g, b, a) \<Rightarrow>
            if a \<noteq> 0 \<and> matches_key stats r g b then
              stats\<lparr>st_alpha := True, st_key := False,
                st_bits := (if raise_bits \<and> st_bits stats < 8 then 8 else st_bits stats)\<rparr>
            else stats) [0 ..< n] stats
      else stats)"

definition not_bytewise :: "rgba16 \<Rightarrow> bool" where
  "not_bytewise c = (case c of (r, g, b, a) \<Rightarrow>
     (let differ = (\<lambda>v :: u16. v AND 255 \<noteq> drop_bit 8 v AND 255) in differ r \<or> differ g \<or> differ b \<or> differ a))"

abbreviation pixel16 :: "LodePNGColorMode \<Rightarrow> bytes \<Rightarrow> nat \<Rightarrow> rgba16" where
  "pixel16 mode input i \<equiv> getPixelColorRGBA16 (0, 0, 0, 0) input i mode"

definition lodepng_compute_color_stats ::
  "LodePNGColorStats \<Rightarrow> bytes \<Rightarrow> nat \<Rightarrow> nat \<Rightarrow> LodePNGColorMode \<Rightarrow> LodePNGColorStats" where
  "lodepng_compute_color_stats stats input w h mode_in =
     (let numpixels = w * h;
          bpp = lodepng_get_bpp mode_in;
          maxnumcolors = (if bpp \<le> 8 then min 257 (st_numcolors stats + 2 ^ bpp) else 257);
          d = \<lparr>colored_done = lodepng_is_greyscale_type mode_in \<or> st_colored stats,
               alpha_done = (\<not> lodepng_can_have_alpha mode_in \<or> st_alpha stats),
               numcolors_done = (\<not> allow_palette stats \<or> st_bits stats = 16 \<or> st_numcolors stats \<ge> maxnumcolors),
               bits_done = (st_bits stats = 1 \<and> bpp = 1 \<or> st_bits stats \<ge> bpp)\<rparr>;
          stats = stats\<lparr>st_numpixels := st_numpixels stats + numpixels\<rparr>;
          tree = (if numcolors_done d then color_tree_init
                  else palette_tree (st_numcolors stats) (st_palette stats));
          sixteen = (bitdepth mode_in = 16 \<and> list_ex (\<lambda>i. not_bytewise (pixel16 mode_in input i)) [0 ..< numpixels]) in
      if sixteen then
        (let stats = stats\<lparr>st_bits := 16\<rparr>; d = d\<lparr>bits_done := True, numcolors_done := True\<rparr>;
             stats = fst (stats_loop16 (pixel16 mode_in input) [0 ..< numpixels] (stats, d)) in
         stats_recheck False (pixel16 mode_in input) numpixels stats)
      else
        (let stats = fst (snd (stats_loop8 bpp maxnumcolors (pixel8 mode_in input) [0 ..< numpixels] (tree, stats, d)));
             widen = (\<lambda>(r, g, b, a). (ucast r, ucast g, ucast b, ucast a));
             stats = stats_recheck True (\<lambda>i. widen (pixel8 mode_in input i)) numpixels stats in
         stats\<lparr>st_key_r := st_key_r stats + push_bit 8 (st_key_r stats),
           st_key_g := st_key_g stats + push_bit 8 (st_key_g stats),
           st_key_b := st_key_b stats + push_bit 8 (st_key_b stats)\<rparr>))"

definition lodepng_color_stats_add ::
  "LodePNGColorStats \<Rightarrow> u32 \<Rightarrow> u32 \<Rightarrow> u32 \<Rightarrow> u32 \<Rightarrow> LodePNGColorStats" where
  "lodepng_color_stats_add stats r g b a =
     (let two = (\<lambda>v :: u32. [ucast (drop_bit 8 v), ucast v]);
          image = two r @ two g @ two b @ two a;
          mode = lodepng_color_mode_init\<lparr>bitdepth := 16, colortype := LCT_RGBA\<rparr> in
      lodepng_compute_color_stats stats image 1 1 mode)"

section \<open>The choice of a mode\<close>

fun palette_add_all :: "LodePNGColorMode \<Rightarrow> rgba8 list \<Rightarrow> nat \<times> LodePNGColorMode" where
  "palette_add_all mode [] = (0, mode)"
| "palette_add_all mode ((r, g, b, a) # cs) =
     (case lodepng_palette_add mode r g b a of
        (error, mode) \<Rightarrow> if error \<noteq> 0 then (error, mode) else palette_add_all mode cs)"

definition stats_color :: "LodePNGColorStats \<Rightarrow> nat \<Rightarrow> rgba8" where
  "stats_color stats i =
     (let p = st_palette stats in (p ! (i * 4), p ! (i * 4 + 1), p ! (i * 4 + 2), p ! (i * 4 + 3)))"

definition auto_choose_color ::
  "(nat \<Rightarrow> byte) \<Rightarrow> LodePNGColorMode \<Rightarrow> LodePNGColorMode \<Rightarrow> LodePNGColorStats \<Rightarrow> nat \<times> LodePNGColorMode" where
  "auto_choose_color junk mode_out mode_in stats =
     (let numpixels = st_numpixels stats;
          mode_out = mode_out\<lparr>key_defined := False\<rparr>;
          few = (st_key stats \<and> numpixels \<le> 16);
          alpha = (if few then True else st_alpha stats);
          key = (if few then False else st_key stats);
          bits = (if few \<and> st_bits stats < 8 then 8 else st_bits stats);
          gray_ok = (\<not> st_colored stats \<and> allow_greyscale stats);
          bits = (if \<not> gray_ok \<and> bits < 8 then 8 else bits);
          n = st_numcolors stats;
          palettebits = (if n \<le> 2 then 1 else if n \<le> 4 then 2 else if n \<le> 16 then 4 else 8);
          palette_ok = (n \<le> 256 \<and> bits \<le> 8 \<and> n \<noteq> 0 \<and> \<not> numpixels < n * 2 \<and>
            \<not> (gray_ok \<and> \<not> alpha \<and> bits \<le> palettebits) \<and> allow_palette stats) in
      if palette_ok then
        (let (error, mode_out) = palette_add_all (lodepng_palette_clear mode_out) (map (stats_color stats) [0 ..< n]);
             mode_out = mode_out\<lparr>colortype := LCT_PALETTE, bitdepth := palettebits\<rparr> in
         (error,
          if colortype mode_in = LCT_PALETTE \<and> palettesize mode_in \<ge> palettesize mode_out \<and>
            bitdepth mode_in = bitdepth mode_out
          then lodepng_color_mode_copy junk (lodepng_color_mode_cleanup mode_out) mode_in
          else mode_out))
      else
        (let mode_out = mode_out\<lparr>bitdepth := bits,
               colortype := (if alpha then (if gray_ok then LCT_GREY_ALPHA else LCT_RGBA)
                             else (if gray_ok then LCT_GREY else LCT_RGB))\<rparr> in
         (0, if key then
               (let m = 2 ^ bits - 1 :: u32 in
                mode_out\<lparr>key_r := ucast (st_key_r stats) AND m, key_g := ucast (st_key_g stats) AND m,
                  key_b := ucast (st_key_b stats) AND m, key_defined := True\<rparr>)
             else mode_out)))"

end
