(* ===== verification/Png_Choose.thy ===== *)
theory Png_Choose
  imports Png_Stats
begin

unbundle bit_operations_syntax

text \<open>
  The colour mode that is chosen for an RGBA image with 8 bits per channel can hold every pixel of it:
  what the statistics say about the pixels is an invariant of the loop, and the choice relies on
  nothing else.
\<close>

section \<open>Bits of grey values\<close>

abbreviation dup :: "byte \<Rightarrow> u16" where
  "dup r \<equiv> ucast r + push_bit 8 (ucast r)"

lemma getValueRequiredBits_cases: "getValueRequiredBits r \<in> {1, 2, 4, 8}"
  by (simp add: getValueRequiredBits_def)

lemma unat_eq_nat_cast: "unat r = n \<Longrightarrow> r = word_of_nat n"
  by auto

lemma few_bits_values:
  assumes "getValueRequiredBits r \<le> bits" "bits \<in> {1, 2, 4}"
  obtains k :: nat where "r = word_of_nat (k * (255 div (2 ^ bits - 1)))" "k < 2 ^ bits"
proof -
  have u: "unat r < 256" using unsigned_less [of r] by simp
  have m: "unat r mod 17 = 0 \<longleftrightarrow> r mod 17 = 0" "unat r mod 85 = 0 \<longleftrightarrow> r mod 85 = 0"
    by (simp_all add: unat_mod unat_eq_zero [symmetric])
  have v: "unat r = 0 \<longleftrightarrow> r = 0" "unat r = 255 \<longleftrightarrow> r = 255"
    by (simp_all add: word_unat_eq_iff)
  have "\<exists>k < 2 ^ bits. unat r = k * (255 div (2 ^ bits - 1))"
  proof -
    consider "bits = 1" | "bits = 2" | "bits = 4" using assms(2) by auto
    then show ?thesis
    proof cases
      case 1
      then have "unat r = 0 \<or> unat r = 255" using assms(1) by (auto simp: getValueRequiredBits_def v split: if_splits)
      then show ?thesis unfolding 1 by auto
    next
      case 2
      then have "unat r mod 85 = 0" using assms(1) m v by (auto simp: getValueRequiredBits_def split: if_splits)
      then have "unat r = unat r div 85 * 85" "unat r div 85 < 4" using u by auto
      then show ?thesis unfolding 2 by (intro exI [of _ "unat r div 85"]) simp
    next
      case 3
      then have "unat r mod 17 = 0" using assms(1) m v by (auto simp: getValueRequiredBits_def split: if_splits)
      then have "unat r = unat r div 17 * 17" "unat r div 17 < 16" using u by auto
      then show ?thesis unfolding 3 by (intro exI [of _ "unat r div 17"]) simp
    qed
  qed
  then show ?thesis using that by (metis unat_eq_nat_cast)
qed

lemma unat_byte: "unat (r :: byte) < 256"
  using unsigned_less [of r] by simp

lemma unat_dup: "unat (dup r) = 257 * unat r"
proof -
  have e: "(ucast r :: u16) = word_of_nat (unat r)" by (rule of_nat_unat [symmetric])
  have "dup r = word_of_nat (257 * unat r)" unfolding e by (simp add: push_bit_eq_mult)
  then show ?thesis using unat_byte [of r] by (simp only: unat_of_nat) simp
qed

lemma unat_dup_mask:
  assumes "bits \<le> 8" shows "unat ((ucast (dup r) :: u32) AND (2 ^ bits - 1)) = 257 * unat r mod 2 ^ bits"
proof -
  have "unat (ucast (dup r) :: u32) = 257 * unat r"
    using unat_byte [of r] by (simp only: unsigned_ucast_eq unat_dup) (simp add: take_bit_eq_mod)
  moreover have "(ucast (dup r) :: u32) AND (2 ^ bits - 1) = take_bit bits (ucast (dup r))"
    by (simp only: take_bit_eq_mask mask_eq_exp_minus_1)
  ultimately show ?thesis by (simp only: unsigned_take_bit_eq) (simp add: take_bit_eq_mod)
qed

text \<open>A grey value with few bits is its first bits repeated.\<close>

lemma grey_exact:
  assumes "getValueRequiredBits r \<le> bits" "bits \<in> {1, 2, 4}"
  shows "scale_grey (word_of_nat (unat r div 2 ^ (8 - bits))) bits = r"
    "(ucast (dup r) :: u32) AND (2 ^ bits - 1) = word_of_nat (unat r div 2 ^ (8 - bits))"
proof -
  obtain k where k: "r = word_of_nat (k * (255 div (2 ^ bits - 1)))" "k < 2 ^ bits"
    using few_bits_values [OF assms] .
  from assms(2) k(2) consider "bits = 1" "k \<in> {0, 1}" | "bits = 2" "k \<in> {0, 1, 2, 3}"
    | "bits = 4" "k \<in> {0, 1, 2, 3, 4, 5, 6, 7, 8, 9, 10, 11, 12, 13, 14, 15}"
    by (auto simp: less_Suc_eq numeral_eq_Suc)
  then have "scale_grey (word_of_nat (unat r div 2 ^ (8 - bits))) bits = r \<and>
      257 * unat r mod 2 ^ bits = unat r div 2 ^ (8 - bits)"
    by cases (auto simp: k(1) scale_grey_def)
  moreover have "unat r div 2 ^ (8 - bits) < 2 ^ 32"
    using unat_byte [of r] by (intro le_less_trans [OF div_le_dividend]) simp
  ultimately show "scale_grey (word_of_nat (unat r div 2 ^ (8 - bits))) bits = r"
    "(ucast (dup r) :: u32) AND (2 ^ bits - 1) = word_of_nat (unat r div 2 ^ (8 - bits))"
    using assms(2) unat_dup_mask [of bits r] by (auto simp: word_unat_eq_iff unat_of_nat)
qed

lemma unat_byte32: "unat (ucast (r :: byte) :: u32) = unat r"
  using unat_byte [of r] by (simp only: unsigned_ucast_eq) (simp add: take_bit_eq_mod)

lemma byte32_inj: "(ucast (r :: byte) :: u32) = ucast s \<longleftrightarrow> r = s"
  by (simp only: word_unat_eq_iff unat_byte32)

lemma key_byte: "(ucast (dup r) :: u32) AND (2 ^ 8 - 1) = ucast r"
proof -
  have "257 * n mod 256 = n" if "n < 256" for n :: nat
    using mod_mult_self2 [of n 256 n] that by simp
  from this [OF unat_byte [of r]] have "unat ((ucast (dup r) :: u32) AND (2 ^ 8 - 1)) = unat r"
    unfolding unat_dup_mask [OF order_refl] by simp
  then show ?thesis by (simp only: word_unat_eq_iff unat_byte32)
qed

lemma dup_inj: "dup r = dup s \<longleftrightarrow> r = s"
  by (simp add: word_unat_eq_iff unat_dup)

section \<open>What the statistics say\<close>

text \<open>
  What the statistics promise of a pixel: its grey value needs no more bits, it is grey if nothing is
  coloured, and it is opaque or has the colour of the key if there is no transparency. The key is
  kept as a byte in the loop and doubled afterwards.
\<close>

definition shown :: "(byte \<Rightarrow> u16) \<Rightarrow> LodePNGColorStats \<Rightarrow> rgba8 \<Rightarrow> bool" where
  "shown wide stats c = (case c of (r, g, b, a) \<Rightarrow>
     getValueRequiredBits r \<le> st_bits stats \<and> (st_colored stats \<or> g = r \<and> b = r) \<and>
     (st_alpha stats \<or> a = 255 \<or> a = 0 \<and> st_key stats \<and> matches_key stats (wide r) (wide g) (wide b)))"

definition small_bits :: "nat \<Rightarrow> bool" where
  "small_bits n \<longleftrightarrow> n \<in> {1, 2, 4, 8}"

lemma small_bits_simps [simp]: "small_bits 8" "small_bits (getValueRequiredBits r)"
  "small_bits m \<Longrightarrow> small_bits n \<Longrightarrow> small_bits (max m n)"
  using getValueRequiredBits_cases [of r] by (simp_all add: small_bits_def max_def)

lemma small_bits_le: "small_bits n \<Longrightarrow> n \<le> 8"
  by (auto simp: small_bits_def)

definition key_of :: "(byte \<Rightarrow> u16) \<Rightarrow> LodePNGColorStats \<Rightarrow> rgba8 \<Rightarrow> bool" where
  "key_of wide stats c = (case c of (r, g, b, a) \<Rightarrow> matches_key stats (wide r) (wide g) (wide b))"

definition stats_ok :: "(byte \<Rightarrow> u16) \<Rightarrow> rgba8 set \<Rightarrow> LodePNGColorStats \<Rightarrow> bool" where
  "stats_ok wide P stats \<longleftrightarrow> small_bits (st_bits stats) \<and> (st_colored stats \<longrightarrow> st_bits stats = 8) \<and>
     (st_alpha stats \<longrightarrow> st_bits stats = 8 \<and> \<not> st_key stats) \<and>
     (st_key stats \<longrightarrow> (\<exists>c \<in> P. key_of wide stats c)) \<and> (\<forall>c \<in> P. shown wide stats c)"

definition differs :: "rgba8 \<Rightarrow> bool" where
  "differs c = (case c of (r, g, b, a) \<Rightarrow> r \<noteq> g \<or> r \<noteq> b)"

lemma stats_bits8_eq:
  assumes "small_bits (st_bits stats)" "\<not> bits_done d"
  shows "stats_bits8 32 r (stats, d) = (stats\<lparr>st_bits := max (st_bits stats) (getValueRequiredBits r)\<rparr>, d)"
proof -
  have "stats\<lparr>st_bits := st_bits stats\<rparr> = stats" "d\<lparr>bits_done := bits_done d\<rparr> = d" by simp_all
  moreover have "getValueRequiredBits r \<le> 8" "st_bits stats \<le> 8"
    using small_bits_le [OF assms(1)] small_bits_le [of "getValueRequiredBits r"] by simp_all
  ultimately show ?thesis
    using assms(2) by (simp add: stats_bits8_def Let_def max_def)
qed

lemma stats_colored8_eq:
  assumes "small_bits (st_bits stats)" "colored_done d = st_colored stats" "st_colored stats \<longrightarrow> st_bits stats = 8"
  shows "stats_colored8 c (stats, d) =
    (stats\<lparr>st_colored := st_colored stats \<or> differs c, st_bits := if differs c then 8 else st_bits stats\<rparr>,
     d\<lparr>colored_done := st_colored stats \<or> differs c\<rparr>)"
proof -
  obtain r g b a where c: "c = (r, g, b, a)" by (cases c)
  have e: "stats_colored8 c (stats, d) = (if \<not> colored_done d \<and> differs c
      then (stats\<lparr>st_colored := True, st_bits := (if st_bits stats < 8 then 8 else st_bits stats)\<rparr>,
        d\<lparr>colored_done := True\<rparr>)
      else (stats, d))"
    unfolding c by (simp only: stats_colored8_def differs_def prod.case)
  have "stats\<lparr>st_colored := st_colored stats, st_bits := st_bits stats\<rparr> = stats" "d\<lparr>colored_done := colored_done d\<rparr> = d"
    by simp_all
  then show ?thesis
    unfolding e assms(2) using assms(3) small_bits_le [OF assms(1)]
    by (cases "st_colored stats"; cases "differs c") simp_all
qed

lemma stats_ok_raise:
  assumes "stats_ok wide P stats" "st_bits stats \<le> n" "small_bits n" "b \<longrightarrow> n = 8"
  shows "stats_ok wide P (stats\<lparr>st_colored := st_colored stats \<or> b, st_bits := n\<rparr>)"
proof -
  have "shown wide (stats\<lparr>st_colored := st_colored stats \<or> b, st_bits := n\<rparr>) c" if "shown wide stats c" for c
    using that assms(2) by (cases c) (auto simp: shown_def matches_key_def)
  then show ?thesis using assms small_bits_le [OF assms(3)] by (auto simp: stats_ok_def key_of_def matches_key_def)
qed

abbreviation widen :: "rgba8 \<Rightarrow> rgba16" where
  "widen c \<equiv> (case c of (r, g, b, a) \<Rightarrow> (ucast r, ucast g, ucast b, ucast a))"

lemma widen_alpha: "(ucast (a :: byte) :: u16) = 255 \<longleftrightarrow> a = 255" "(ucast (a :: byte) :: u16) = 0 \<longleftrightarrow> a = 0"
  using unat_byte [of a] by (simp_all add: word_unat_eq_iff unsigned_ucast_eq take_bit_eq_mod)

lemma stats_alpha_cases:
  assumes "st_bits stats \<le> 8" "alpha_done d = st_alpha stats"
  obtains (same) "stats_alpha True 255 (ucast r, ucast g, ucast b, ucast a) (stats, d) = (stats, d)"
      "st_alpha stats \<or> a = 255 \<or> a = 0 \<and> st_key stats \<and> key_of ucast stats (r, g, b, a)"
  | (key) "stats_alpha True 255 (ucast r, ucast g, ucast b, ucast a) (stats, d) =
        (stats\<lparr>st_key := True, st_key_r := ucast r, st_key_g := ucast g, st_key_b := ucast b\<rparr>, d)"
      "a = 0" "\<not> st_key stats" "\<not> st_alpha stats"
  | (full) "stats_alpha True 255 (ucast r, ucast g, ucast b, ucast a) (stats, d) =
        (stats\<lparr>st_alpha := True, st_key := False, st_bits := 8\<rparr>, d\<lparr>alpha_done := True\<rparr>)"
proof -
  have b: "(if True \<and> st_bits stats < 8 then 8 else st_bits stats) = 8" using assms(1) by simp
  let ?k = "matches_key stats (ucast r) (ucast g) (ucast b)"
  have k: "key_of ucast stats (r, g, b, a) = ?k" by (simp add: key_of_def)
  have e: "stats_alpha True 255 (ucast r, ucast g, ucast b, ucast a) (stats, d) =
      (if st_alpha stats then (stats, d)
       else if a \<noteq> 255 \<and> (a \<noteq> 0 \<or> st_key stats \<and> \<not> ?k)
       then (stats\<lparr>st_alpha := True, st_key := False, st_bits := 8\<rparr>, d\<lparr>alpha_done := True\<rparr>)
       else if a = 0 \<and> \<not> st_key stats
       then (stats\<lparr>st_key := True, st_key_r := ucast r, st_key_g := ucast g, st_key_b := ucast b\<rparr>, d)
       else if a = 255 \<and> st_key stats \<and> ?k
       then (stats\<lparr>st_alpha := True, st_key := False, st_bits := 8\<rparr>, d\<lparr>alpha_done := True\<rparr>)
       else (stats, d))"
    unfolding stats_alpha_def prod.case Let_def assms(2) b widen_alpha by (rule if_cong) simp_all
  consider "st_alpha stats" | "\<not> st_alpha stats" "a \<noteq> 255 \<and> (a \<noteq> 0 \<or> st_key stats \<and> \<not> ?k)"
    | "\<not> st_alpha stats" "a = 0" "\<not> st_key stats"
    | "\<not> st_alpha stats" "a = 0" "st_key stats" ?k
    | "\<not> st_alpha stats" "a = 255" "st_key stats \<and> ?k" | "\<not> st_alpha stats" "a = 255" "\<not> (st_key stats \<and> ?k)"
    by blast
  then show thesis
  proof cases
    case 1
    then show thesis by (intro same, unfold e) simp_all
  next
    case 2
    then show thesis by (intro full, unfold e) simp
  next
    case 3
    then show thesis by (intro key, unfold e) simp_all
  next
    case 4
    then show thesis by (intro same, unfold e k) simp_all
  next
    case 5
    then show thesis by (intro full, unfold e) simp
  next
    case 6
    then show thesis by (intro same, unfold e) auto
  qed
qed

text \<open>Only the fields about transparency have changed, and the bits.\<close>

definition alpha_frame :: "LodePNGColorStats \<Rightarrow> LodePNGColorStats \<Rightarrow> bool" where
  "alpha_frame s t \<longleftrightarrow> t = s\<lparr>st_alpha := st_alpha t, st_key := st_key t, st_key_r := st_key_r t,
     st_key_g := st_key_g t, st_key_b := st_key_b t, st_bits := st_bits t\<rparr>"

lemma stats_alpha_ok:
  assumes ok: "stats_ok ucast P stats" and d: "alpha_done d = st_alpha stats"
    and c: "getValueRequiredBits (fst c) \<le> st_bits stats" "st_colored stats \<or> \<not> differs c"
  shows "\<exists>stats'. stats_alpha True 255 (widen c) (stats, d) = (stats', d\<lparr>alpha_done := st_alpha stats'\<rparr>) \<and>
    stats_ok ucast (insert c P) stats' \<and> alpha_frame stats stats'"
proof -
  obtain r g b a where e: "c = (r, g, b, a)" by (cases c)
  have b8: "st_bits stats \<le> 8" using ok small_bits_le by (simp add: stats_ok_def)
  have c': "getValueRequiredBits r \<le> st_bits stats" "st_colored stats \<or> g = r \<and> b = r"
    using c by (auto simp: e differs_def)
  have P: "shown ucast stats p" if "p \<in> P" for p using ok that by (simp add: stats_ok_def)
  show ?thesis
  proof (cases rule: stats_alpha_cases [OF b8 d, of r g b a, case_names same key full])
    case same
    have "shown ucast stats c" using c' same(2) by (auto simp: shown_def e key_of_def)
    then have "stats_ok ucast (insert c P) stats" using ok by (auto simp: stats_ok_def)
    then show ?thesis unfolding e prod.case same(1)
      by (intro exI [of _ stats]) (simp add: d [symmetric] alpha_frame_def e)
  next
    case key
    let ?s = "stats\<lparr>st_key := True, st_key_r := ucast r, st_key_g := ucast g, st_key_b := ucast b\<rparr>"
    have "shown ucast ?s p" if "p \<in> P" for p
      using P [OF that] key(3,4) by (cases p) (auto simp: shown_def)
    moreover have "shown ucast ?s c" using c' key(2) by (simp add: shown_def e matches_key_def)
    moreover have "key_of ucast ?s c" by (simp add: key_of_def e matches_key_def)
    ultimately have "stats_ok ucast (insert c P) ?s" using ok key(4) by (simp add: stats_ok_def)
    then show ?thesis unfolding e prod.case key(1)
      by (intro exI [of _ ?s]) (simp add: d [symmetric] alpha_frame_def e)
  next
    case full
    let ?s = "stats\<lparr>st_alpha := True, st_key := False, st_bits := 8\<rparr>"
    have "shown ucast ?s p" if "p \<in> P" for p
      using P [OF that] b8 by (cases p) (auto simp: shown_def)
    moreover have "shown ucast ?s c" using c' b8 by (simp add: shown_def e)
    ultimately have "stats_ok ucast (insert c P) ?s" using ok by (simp add: stats_ok_def)
    then show ?thesis unfolding e prod.case full(1)
      by (intro exI [of _ ?s]) (simp add: alpha_frame_def e)
  qed
qed

section \<open>Counting colours\<close>

text \<open>As long as there are at most 256 colours the tree holds the palette, which has every colour seen.\<close>

definition counted :: "rgba8 set \<Rightarrow> ColorTree \<Rightarrow> LodePNGColorStats \<Rightarrow> bool \<Rightarrow> bool" where
  "counted P tree stats finished \<longleftrightarrow> length (st_palette stats) = 1024 \<and>
     (if allow_palette stats
      then finished = (st_numcolors stats = 257) \<and> st_numcolors stats \<le> 257 \<and>
        (st_numcolors stats \<noteq> 257 \<longrightarrow> tree = palette_tree (st_numcolors stats) (st_palette stats) \<and>
           (\<forall>c \<in> P. color_tree_has tree c))
      else st_numcolors stats = 0 \<and> finished)"

lemma palette_tree_Suc:
  assumes "length p = 1024" "n < 256"
  shows "palette_tree (Suc n) (put_bytes (n * 4) (quad c) p) = color_tree_add (palette_tree n p) c n"
proof -
  let ?p = "put_bytes (n * 4) (quad c) p"
  have l: "n * 4 + length (quad c) \<le> length p" using assms by simp
  have at_n: "take 4 (drop (n * 4) ?p) = quad c" using take_drop_put_bytes [of "n * 4" p "quad c"] l by simp
  have before: "?p ! j = p ! j" if "j < n * 4" for j using that assms by (simp add: put_bytes_def nth_append)
  have "palette_tree n ?p = palette_tree n p"
    unfolding palette_tree_def by (rule fold_cong) (simp_all add: before)
  moreover have "(?p ! (n * 4), ?p ! (n * 4 + 1), ?p ! (n * 4 + 2), ?p ! (n * 4 + 3)) = c"
    using assms by (cases c) (simp add: put_bytes_def nth_append)
  ultimately show ?thesis by (simp add: palette_tree_def)
qed

lemma palette_tree_has_add: "color_tree_has (color_tree_add (palette_tree n p) c m) d \<longleftrightarrow>
    d = c \<or> color_tree_has (palette_tree n p) d"
  unfolding color_tree_has_def palette_tree_fill by (simp add: color_tree.get_add [OF color_tree.ok_fill])

lemma stats_count8_ok:
  assumes "counted P tree stats (numcolors_done d)"
  shows "\<exists>tree' m p f. stats_count8 257 c (tree, stats, d) =
      (tree', stats\<lparr>st_palette := p, st_numcolors := m\<rparr>, d\<lparr>numcolors_done := f\<rparr>) \<and>
    counted (insert c P) tree' (stats\<lparr>st_palette := p, st_numcolors := m\<rparr>) f"
proof (cases "\<not> numcolors_done d \<and> \<not> color_tree_has tree c")
  case False
  then have "stats_count8 257 c (tree, stats, d) = (tree, stats, d)" by (auto simp: stats_count8_def)
  moreover have "counted (insert c P) tree stats (numcolors_done d)"
    using False assms by (auto simp: counted_def)
  ultimately show ?thesis
    by (intro exI [of _ tree] exI [of _ "st_numcolors stats"] exI [of _ "st_palette stats"] exI [of _ "numcolors_done d"]) simp
next
  case True
  then have n: "st_numcolors stats \<le> 256" "tree = palette_tree (st_numcolors stats) (st_palette stats)"
    "\<forall>c \<in> P. color_tree_has tree c" "length (st_palette stats) = 1024" "allow_palette stats"
    using assms by (auto simp: counted_def split: if_splits)
  let ?n = "st_numcolors stats"
  let ?p = "if ?n < 256 then put_bytes (?n * 4) (quad c) (st_palette stats) else st_palette stats"
  have e: "stats_count8 257 c (tree, stats, d) =
      (color_tree_add tree c ?n, stats\<lparr>st_palette := ?p, st_numcolors := ?n + 1\<rparr>, d\<lparr>numcolors_done := (?n + 1 = 257)\<rparr>)"
    using True n(1) by (auto simp: stats_count8_def Let_def)
  have "length ?p = 1024" using n(1,4) by simp
  moreover have "color_tree_add tree c ?n = palette_tree (Suc ?n) ?p" if "?n \<noteq> 256"
    using palette_tree_Suc [OF n(4), of ?n c] n(1,2) that by simp
  moreover have "\<forall>d \<in> insert c P. color_tree_has (color_tree_add tree c ?n) d"
    using n(3) unfolding n(2) palette_tree_has_add by blast
  ultimately have "counted (insert c P) (color_tree_add tree c ?n) (stats\<lparr>st_palette := ?p, st_numcolors := ?n + 1\<rparr>) (?n + 1 = 257)"
    using n(1,5) by (auto simp add: counted_def)
  then show ?thesis unfolding e by blast
qed

section \<open>The loop over the pixels\<close>

definition loop_ok :: "LodePNGColorStats \<Rightarrow> rgba8 set \<Rightarrow> ColorTree \<times> LodePNGColorStats \<times> stats_done \<Rightarrow> bool" where
  "loop_ok start P x \<longleftrightarrow> (case x of (tree, stats, d) \<Rightarrow>
     stats_ok ucast P stats \<and> counted P tree stats (numcolors_done d) \<and>
     \<not> bits_done d \<and> colored_done d = st_colored stats \<and> alpha_done d = st_alpha stats \<and>
     st_numpixels stats = st_numpixels start \<and> allow_palette stats = allow_palette start \<and>
     allow_greyscale stats = allow_greyscale start)"

lemma counted_frame:
  assumes "counted P tree stats f" "st_palette stats' = st_palette stats" "st_numcolors stats' = st_numcolors stats"
    "allow_palette stats' = allow_palette stats"
  shows "counted P tree stats' f"
  using assms(1) unfolding counted_def assms(2-4) .

lemma stats_ok_frame:
  assumes "stats_ok wide P stats"
  shows "stats_ok wide P (stats\<lparr>st_palette := p, st_numcolors := m\<rparr>)"
proof -
  have "shown wide (stats\<lparr>st_palette := p, st_numcolors := m\<rparr>) c = shown wide stats c"
    "key_of wide (stats\<lparr>st_palette := p, st_numcolors := m\<rparr>) c = key_of wide stats c" for c
    by (cases c, simp add: shown_def key_of_def matches_key_def)+
  then show ?thesis using assms by (simp add: stats_ok_def)
qed

lemma stats_step8_ok:
  assumes "loop_ok start P x" shows "loop_ok start (insert c P) (stats_step8 32 257 c x)"
proof -
  obtain tree stats d where x: "x = (tree, stats, d)" by (cases x)
  obtain r g b a where c: "c = (r, g, b, a)" by (cases c)
  have ok: "stats_ok ucast P stats" "counted P tree stats (numcolors_done d)" "\<not> bits_done d"
    "colored_done d = st_colored stats" "alpha_done d = st_alpha stats"
    "st_numpixels stats = st_numpixels start" "allow_palette stats = allow_palette start"
    "allow_greyscale stats = allow_greyscale start"
    using assms by (simp_all add: loop_ok_def x)
  have bits: "small_bits (st_bits stats)" "st_colored stats \<longrightarrow> st_bits stats = 8" using ok(1) by (simp_all add: stats_ok_def)
  let ?m = "max (st_bits stats) (getValueRequiredBits r)"
  let ?n = "if differs c then 8 else ?m"
  let ?s = "stats\<lparr>st_colored := st_colored stats \<or> differs c, st_bits := ?n\<rparr>"
  let ?d = "d\<lparr>colored_done := st_colored stats \<or> differs c\<rparr>"
  have m: "small_bits ?m" "?m \<le> 8" using bits(1) small_bits_le [of ?m] by simp_all
  have one: "stats_bits8 32 r (stats, d) = (stats\<lparr>st_bits := ?m\<rparr>, d)"
    using stats_bits8_eq [OF bits(1) ok(3)] .
  have two: "stats_colored8 c (stats\<lparr>st_bits := ?m\<rparr>, d) = (?s, ?d)"
    using stats_colored8_eq [of "stats\<lparr>st_bits := ?m\<rparr>" d c] m bits(2) ok(4) by simp
  have "stats_ok ucast P ?s"
    using ok(1) by (rule stats_ok_raise) (use m bits(1) small_bits_le in auto)
  moreover have "alpha_done ?d = st_alpha ?s" "getValueRequiredBits (fst c) \<le> st_bits ?s" "st_colored ?s \<or> \<not> differs c"
    using ok(5) m small_bits_le [of "getValueRequiredBits r"] by (auto simp: c)
  ultimately obtain stats' where s: "stats_alpha True 255 (widen c) (?s, ?d) = (stats', ?d\<lparr>alpha_done := st_alpha stats'\<rparr>)"
    "stats_ok ucast (insert c P) stats'" "alpha_frame ?s stats'"
    using stats_alpha_ok by blast
  have f: "st_palette stats' = st_palette stats" "st_numcolors stats' = st_numcolors stats"
    "allow_palette stats' = allow_palette stats" "st_colored stats' = (st_colored stats \<or> differs c)"
    "st_numpixels stats' = st_numpixels stats" "allow_greyscale stats' = allow_greyscale stats"
    by (subst s(3) [unfolded alpha_frame_def], simp)+
  let ?d' = "?d\<lparr>alpha_done := st_alpha stats'\<rparr>"
  have "counted P tree stats' (numcolors_done ?d')" using counted_frame [OF ok(2) f(1-3)] by simp
  then obtain tree' n p f where k: "stats_count8 257 c (tree, stats', ?d') =
      (tree', stats'\<lparr>st_palette := p, st_numcolors := n\<rparr>, ?d'\<lparr>numcolors_done := f\<rparr>)"
    "counted (insert c P) tree' (stats'\<lparr>st_palette := p, st_numcolors := n\<rparr>) f"
    using stats_count8_ok by blast
  have "stats_step8 32 257 c x = (tree', stats'\<lparr>st_palette := p, st_numcolors := n\<rparr>, ?d'\<lparr>numcolors_done := f\<rparr>)"
    using one two s(1) k(1) by (simp add: stats_step8_def x c)
  then show ?thesis
    using k(2) stats_ok_frame [OF s(2)] f ok(3,6-8) by (simp add: loop_ok_def)
qed

lemma stats_loop8_ok:
  "loop_ok start P x \<Longrightarrow> loop_ok start (P \<union> pix ` set is) (stats_loop8 32 257 pix is x)"
proof (induction "is" arbitrary: P x)
  case (Cons i "is")
  have step: "loop_ok start (insert (pix i) P) (stats_step8 32 257 (pix i) x)" by (rule stats_step8_ok [OF Cons.prems])
  then have "\<not> all_done (snd (snd (stats_step8 32 257 (pix i) x)))" by (auto simp: loop_ok_def all_done_def)
  then have "stats_loop8 32 257 pix (i # is) x = stats_loop8 32 257 pix is (stats_step8 32 257 (pix i) x)"
    by (simp add: Let_def)
  then show ?case using Cons.IH [OF step] by simp
qed simp

section \<open>All of the statistics\<close>

definition stats_cover :: "rgba8 set \<Rightarrow> LodePNGColorStats \<Rightarrow> bool" where
  "stats_cover P stats \<longleftrightarrow> stats_ok dup P stats \<and>
     (st_key stats \<longrightarrow> (\<forall>c \<in> P. snd (snd (snd c)) \<noteq> 0 \<longrightarrow> \<not> key_of dup stats c)) \<and>
     (\<exists>tree f. counted P tree stats f)"

lemma stats_recheck_ok:
  fixes pix :: "nat \<Rightarrow> rgba8" and n :: nat
  assumes ok: "stats_ok ucast (pix ` {0 ..< n}) stats"
  defines "stats' \<equiv> stats_recheck True (\<lambda>i. widen (pix i)) n stats"
  shows "stats_ok ucast (pix ` {0 ..< n}) stats'" "alpha_frame stats stats'"
    "st_key stats' \<Longrightarrow> \<forall>c \<in> pix ` {0 ..< n}. snd (snd (snd c)) \<noteq> 0 \<longrightarrow> \<not> key_of ucast stats' c"
proof -
  let ?full = "stats\<lparr>st_alpha := True, st_key := False, st_bits := 8\<rparr>"
  define hit where "hit = (\<lambda>i. snd (snd (snd (pix i))) \<noteq> 0 \<and> key_of ucast stats (pix i))"
  let ?step = "\<lambda>i stats. case widen (pix i) of (r, g, b, a) \<Rightarrow>
      if a \<noteq> 0 \<and> matches_key stats r g b then
        stats\<lparr>st_alpha := True, st_key := False, st_bits := (if True \<and> st_bits stats < 8 then 8 else st_bits stats)\<rparr>
      else stats"
  have b8: "st_bits stats \<le> 8" using ok small_bits_le by (simp add: stats_ok_def)
  have step: "?step i stats = (if hit i then ?full else stats)" "?step i ?full = ?full" for i
    using b8 widen_alpha(2) by (cases "pix i"; simp add: hit_def key_of_def matches_key_def)+
  have keep: "fold ?step is ?full = ?full" for "is" by (induction "is") (simp_all only: fold_simps step)
  have all: "fold ?step is stats = (if \<exists>i \<in> set is. hit i then ?full else stats)" for "is"
  proof (induction "is")
    case (Cons i "is")
    show ?case by (cases "hit i") (simp_all only: fold_simps step Cons keep if_True if_False, simp_all)
  qed simp
  have e: "stats' = (if st_key stats \<and> \<not> st_alpha stats \<and> (\<exists>i \<in> {0 ..< n}. hit i) then ?full else stats)"
    unfolding stats'_def stats_recheck_def all by simp
  have "stats_ok ucast (pix ` {0 ..< n}) ?full"
  proof -
    have "shown ucast ?full c" if "shown ucast stats c" for c
      using that b8 by (cases c) (simp add: shown_def)
    then show ?thesis using ok by (simp add: stats_ok_def)
  qed
  then show "stats_ok ucast (pix ` {0 ..< n}) stats'" using ok e by simp
  show "alpha_frame stats stats'" unfolding e by (simp add: alpha_frame_def)
  have no: "st_alpha stats \<longrightarrow> \<not> st_key stats" using ok by (simp add: stats_ok_def)
  show "\<forall>c \<in> pix ` {0 ..< n}. snd (snd (snd c)) \<noteq> 0 \<longrightarrow> \<not> key_of ucast stats' c" if k: "st_key stats'"
  proof -
    have "\<not> (st_key stats \<and> \<not> st_alpha stats \<and> (\<exists>i \<in> {0 ..< n}. hit i))"
    proof
      assume "st_key stats \<and> \<not> st_alpha stats \<and> (\<exists>i \<in> {0 ..< n}. hit i)"
      then have "stats' = ?full" unfolding e by (simp only: if_True simp_thms)
      then show False using k by simp
    qed
    moreover from this have "stats' = stats" unfolding e by (simp only: if_False)
    ultimately show ?thesis using k no by (auto simp: hit_def)
  qed
qed

abbreviation double_key :: "LodePNGColorStats \<Rightarrow> LodePNGColorStats" where
  "double_key stats \<equiv> stats\<lparr>st_key_r := st_key_r stats + push_bit 8 (st_key_r stats),
     st_key_g := st_key_g stats + push_bit 8 (st_key_g stats),
     st_key_b := st_key_b stats + push_bit 8 (st_key_b stats)\<rparr>"

lemma double_key_ok:
  assumes ok: "stats_ok ucast P stats"
    and key: "st_key stats \<Longrightarrow> \<forall>c \<in> P. snd (snd (snd c)) \<noteq> 0 \<longrightarrow> \<not> key_of ucast stats c"
  shows "stats_ok dup P (double_key stats)"
    "st_key (double_key stats) \<Longrightarrow> \<forall>c \<in> P. snd (snd (snd c)) \<noteq> 0 \<longrightarrow> \<not> key_of dup (double_key stats) c"
proof -
  have up: "key_of dup (double_key stats) c" if "key_of ucast stats c" for c
    using that by (cases c) (simp add: key_of_def matches_key_def)
  have "shown dup (double_key stats) c" if "shown ucast stats c" for c
    using that by (cases c) (auto simp: shown_def matches_key_def)
  moreover have some: "\<exists>c \<in> P. key_of ucast stats c" if "st_key stats" using ok that by (simp add: stats_ok_def)
  then have "\<exists>c \<in> P. key_of dup (double_key stats) c" if "st_key stats" using up that by blast
  ultimately show "stats_ok dup P (double_key stats)"
    using ok by (simp add: stats_ok_def)
  assume k: "st_key (double_key stats)"
  then obtain c0 where c0: "key_of ucast stats c0" using some by auto
  have "key_of ucast stats c" if "key_of dup (double_key stats) c" for c
    using that c0 by (cases c; cases c0) (simp add: key_of_def matches_key_def, metis dup_inj)
  then show "\<forall>c \<in> P. snd (snd (snd c)) \<noteq> 0 \<longrightarrow> \<not> key_of dup (double_key stats) c"
    using key k by auto
qed

definition stats_fresh :: "LodePNGColorStats \<Rightarrow> bool" where
  "stats_fresh stats \<longleftrightarrow> \<not> st_colored stats \<and> \<not> st_key stats \<and> \<not> st_alpha stats \<and> st_numcolors stats = 0 \<and>
     st_bits stats = 1 \<and> length (st_palette stats) = 1024"

lemma compute_color_stats_cover:
  fixes img :: bytes and w h :: nat
  assumes raw: "rgba8_mode raw" and start: "stats_fresh stats"
  defines "result \<equiv> lodepng_compute_color_stats stats img w h raw"
  shows "stats_cover (pixel8 raw img ` {0 ..< w * h}) result"
    "st_numpixels result = st_numpixels stats + w * h" "allow_palette result = allow_palette stats"
    "allow_greyscale result = allow_greyscale stats"
proof -
  let ?P = "pixel8 raw img ` {0 ..< w * h}"
  let ?s = "stats\<lparr>st_numpixels := st_numpixels stats + w * h\<rparr>"
  let ?d = "\<lparr>colored_done = False, alpha_done = False, numcolors_done = \<not> allow_palette stats, bits_done = False\<rparr>"
  have t: "lodepng_get_bpp raw = 32" "\<not> lodepng_is_greyscale_type raw" "lodepng_can_have_alpha raw" "bitdepth raw \<noteq> 16"
    using raw by (simp_all add: rgba8_bpp(1), simp_all add: rgba8_mode_def lodepng_is_greyscale_type_def
      lodepng_can_have_alpha_def lodepng_is_alpha_type_def)
  let ?loop = "stats_loop8 32 257 (pixel8 raw img) [0 ..< w * h] (color_tree_init, ?s, ?d)"
  have init: "loop_ok ?s {} (color_tree_init, ?s, ?d)"
    using start by (simp add: loop_ok_def stats_ok_def stats_fresh_def small_bits_def counted_def palette_tree_def)
  have "loop_ok ?s ({} \<union> pixel8 raw img ` set [0 ..< w * h]) ?loop" by (rule stats_loop8_ok [OF init])
  then obtain tree s1 d where l: "?loop = (tree, s1, d)" "stats_ok ucast ?P s1" "counted ?P tree s1 (numcolors_done d)"
    "st_numpixels s1 = st_numpixels ?s" "allow_palette s1 = allow_palette ?s" "allow_greyscale s1 = allow_greyscale ?s"
    by (cases ?loop) (auto simp: loop_ok_def)
  let ?s2 = "stats_recheck True (\<lambda>i. widen (pixel8 raw img i)) (w * h) s1"
  have pt: "palette_tree 0 p = color_tree_init" for p by (simp add: palette_tree_def)
  have r: "result = double_key ?s2"
    using start l(1) unfolding result_def lodepng_compute_color_stats_def t Let_def
    by (cases "allow_palette stats") (simp_all add: t stats_fresh_def pt)
  note s2 = stats_recheck_ok [OF l(2)]
  have f: "st_palette ?s2 = st_palette s1" "st_numcolors ?s2 = st_numcolors s1"
    "allow_palette ?s2 = allow_palette s1" "st_numpixels ?s2 = st_numpixels s1" "allow_greyscale ?s2 = allow_greyscale s1"
    by (subst s2(2) [unfolded alpha_frame_def], simp)+
  have "counted ?P tree (double_key ?s2) (numcolors_done d)"
    by (rule counted_frame [OF l(3)]) (simp_all add: f)
  then show "stats_cover ?P result"
    using double_key_ok [OF s2(1) s2(3)] unfolding r stats_cover_def by blast
  show "st_numpixels result = st_numpixels stats + w * h" "allow_palette result = allow_palette stats"
    "allow_greyscale result = allow_greyscale stats"
    unfolding r using f l by simp_all
qed

section \<open>The chosen mode\<close>

definition palette_holds :: "LodePNGColorMode \<Rightarrow> rgba8 list \<Rightarrow> bool" where
  "palette_holds mode cs \<longleftrightarrow> palettesize mode = length cs \<and>
     (case palette mode of None \<Rightarrow> cs = []
      | Some p \<Rightarrow> length p = 1024 \<and> (\<forall>i < length cs. palette_color mode i = cs ! i))"

lemma length_blank_palette: "length (concat (map (\<lambda>i. [0, 0, 0, 255 :: byte]) [0 ..< n])) = 4 * n"
  by (induction n) simp_all

lemma palette_add_holds:
  assumes h: "palette_holds mode cs" and room: "length cs < 256"
  shows "\<exists>mode'. lodepng_palette_add mode r g b a = (0, mode') \<and> palette_holds mode' (cs @ [(r, g, b, a)]) \<and>
    key_defined mode' = key_defined mode"
proof -
  define info where "info = (if palette mode = None then lodepng_color_mode_alloc_palette mode else mode)"
  let ?n = "4 * length cs" let ?p = "palette_bytes info"
  define mode' where "mode' = info\<lparr>palette := Some (?p[?n := r, ?n + 1 := g, ?n + 2 := b, ?n + 3 := a]),
    palettesize := palettesize info + 1\<rparr>"
  have i: "palettesize info = length cs" "length ?p = 1024" "key_defined info = key_defined mode"
    using h length_blank_palette [of 256]
    by (auto simp: info_def palette_holds_def lodepng_color_mode_alloc_palette_def palette_bytes_def
        simp del: upt_rec_numeral split: option.splits)
  have old: "palette_color info j = cs ! j" if "j < length cs" for j
    using h that by (auto simp: info_def palette_holds_def split: option.splits)
  have e: "lodepng_palette_add mode r g b a = (0, mode')"
    using i(1) room unfolding lodepng_palette_add_def info_def [symmetric] Let_def mode'_def by simp
  have "palette_color mode' j = (cs @ [(r, g, b, a)]) ! j" if "j < Suc (length cs)" for j
  proof (cases "j = length cs")
    case True
    then show ?thesis using i(2) room by (simp add: mode'_def palette_color_def palette_bytes_def mult.commute)
  next
    case False
    then have j: "j < length cs" using that by simp
    then have "j * 4 + 3 < ?n" by simp
    then have "palette_color mode' j = palette_color info j"
      by (simp add: mode'_def palette_color_def palette_bytes_def Let_def)
    then show ?thesis using old [OF j] j by (simp add: nth_append)
  qed
  then have "palette_holds mode' (cs @ [(r, g, b, a)])"
    using i by (simp add: palette_holds_def mode'_def)
  then show ?thesis using e i(3) by (simp add: mode'_def)
qed

lemma palette_add_all_holds:
  "palette_holds mode cs \<Longrightarrow> length cs + length ds \<le> 256 \<Longrightarrow>
    \<exists>mode'. palette_add_all mode ds = (0, mode') \<and> palette_holds mode' (cs @ ds) \<and> key_defined mode' = key_defined mode"
proof (induction ds arbitrary: mode cs)
  case (Cons c ds)
  obtain r g b a where c: "c = (r, g, b, a)" by (cases c)
  have "length cs < 256" using Cons.prems(2) by simp
  then obtain mode1 where m: "lodepng_palette_add mode r g b a = (0, mode1)"
    "palette_holds mode1 (cs @ [c])" "key_defined mode1 = key_defined mode"
    using palette_add_holds [OF Cons.prems(1)] c by blast
  obtain mode' where "palette_add_all mode1 ds = (0, mode')" "palette_holds mode' ((cs @ [c]) @ ds)"
    "key_defined mode' = key_defined mode1"
    using Cons.IH [OF m(2)] Cons.prems(2) by auto
  then show ?case using m by (intro exI [of _ mode']) (simp add: c)
qed simp

lemma fill_cong: "(\<And>i. i < n \<Longrightarrow> f i = g i) \<Longrightarrow> color_tree.fill f n = color_tree.fill g n"
  unfolding color_tree.fill_def by (rule fold_cong) simp_all

lemma palette_mode_fits:
  assumes mode: "colortype mode = LCT_PALETTE" "palette_holds mode (map (stats_color stats) [0 ..< n])"
    and n: "n \<le> 2 ^ bitdepth mode" "n \<noteq> 0" and has: "color_tree_has (palette_tree n (st_palette stats)) c"
  shows "fits mode (mode_tree mode) c"
proof -
  have h: "palettesize mode = n" "\<And>i. i < n \<Longrightarrow> palette_color mode i = stats_color stats i"
    using mode(2) n(2) by (auto simp: palette_holds_def split: option.splits)
  have "mode_tree mode = color_tree.fill (palette_color mode) n"
    using mode(1) h(1) n(1) by (simp add: mode_tree_def palette_tree_fill palette_color_def [abs_def] Let_def)
  also have "\<dots> = color_tree.fill (stats_color stats) n" by (rule fill_cong) (rule h(2))
  also have "\<dots> = palette_tree n (st_palette stats)"
    by (simp add: palette_tree_fill stats_color_def [abs_def] Let_def)
  finally have "0 \<le> color_tree_get (mode_tree mode) c" using has by (simp add: color_tree_has_def)
  moreover note mode_tree_found [OF mode(1) this]
  moreover from this have "nat (color_tree_get (mode_tree mode) c) < 2 ^ bitdepth mode" using h(1) n(1) by linarith
  ultimately show ?thesis
    using mode(1) by (cases c) (simp add: fits_def)
qed

text \<open>A grey or coloured mode with a key: the masked key is the colour of the transparent pixels.\<close>

lemma grey_key:
  assumes "getValueRequiredBits r \<le> bits" "getValueRequiredBits s \<le> bits" "small_bits bits"
  shows "word_of_nat (unat r div 2 ^ (8 - bits)) = (ucast (dup s) :: u32) AND (2 ^ bits - 1) \<longleftrightarrow> r = s"
proof (cases "bits = 8")
  case True
  have e: "(word_of_nat (unat r div 2 ^ (8 - 8)) :: u32) = ucast r"
    by (simp only: diff_self_eq_0 power_0 div_by_1 of_nat_unat)
  show ?thesis unfolding True key_byte e by (rule byte32_inj)
next
  case False
  then have b: "bits \<in> {1, 2, 4}" using assms(3) by (simp add: small_bits_def)
  show ?thesis
    unfolding grey_exact(2) [OF assms(2) b]
    by (rule iffI, rule trans [OF grey_exact(1) [OF assms(1) b, symmetric]], simp only: grey_exact(1) [OF assms(2) b], simp only:)
qed

lemma byte_key: "(ucast r :: u32) = (ucast (dup s) :: u32) AND (2 ^ 8 - 1) \<longleftrightarrow> r = s"
  unfolding key_byte by (rule byte32_inj)

definition chosen_ok :: "rgba8 set \<Rightarrow> LodePNGColorMode \<Rightarrow> bool" where
  "chosen_ok P mode \<longleftrightarrow> valid8 mode \<and> (\<forall>c \<in> P. fits mode (mode_tree mode) c) \<and>
     (colortype mode = LCT_PALETTE \<longrightarrow> palettesize mode \<noteq> 0 \<and> palettesize mode \<le> 2 ^ bitdepth mode \<and>
        (\<exists>p. palette mode = Some p \<and> length p = 1024) \<and> \<not> key_defined mode) \<and>
     (key_defined mode \<longrightarrow> take_bit 16 (key_r mode) = key_r mode \<and> take_bit 16 (key_g mode) = key_g mode \<and>
        take_bit 16 (key_b mode) = key_b mode)"

lemma take_bit_16_key: "take_bit 16 ((ucast (x :: u16) :: u32) AND m) = ucast x AND m"
  by (rule bit_word_eqI) (auto simp: bit_simps dest: bit_imp_le_length)

lemma direct_mode_ok:
  assumes cover: "stats_cover P stats"
    and bits: "small_bits bits" "st_bits stats \<le> bits" "gray \<or> bits = 8" "alpha \<longrightarrow> bits = 8"
    and gray: "gray \<longrightarrow> \<not> st_colored stats" and al: "st_alpha stats \<longrightarrow> alpha" "\<not> alpha \<longrightarrow> key = st_key stats"
    and mode: "bitdepth mode = bits"
      "colortype mode = (if alpha then (if gray then LCT_GREY_ALPHA else LCT_RGBA) else (if gray then LCT_GREY else LCT_RGB))"
      "key_defined mode = key"
      "key \<Longrightarrow> key_r mode = ucast (st_key_r stats) AND (2 ^ bits - 1) \<and>
         key_g mode = ucast (st_key_g stats) AND (2 ^ bits - 1) \<and> key_b mode = ucast (st_key_b stats) AND (2 ^ bits - 1)"
  shows "chosen_ok P mode"
proof -
  have ok: "stats_ok dup P stats" using cover by (simp add: stats_cover_def)
  have b8: "bits \<le> 8" using bits(1) by (rule small_bits_le)
  have "valid8 mode"
    using bits(1,3,4) by (auto simp: valid8_def checkColorValidity_def mode(1,2) small_bits_def)
  moreover have "fits mode (mode_tree mode) c" if c: "c \<in> P" for c
  proof -
    obtain r g b a where e: "c = (r, g, b, a)" by (cases c)
    have "shown dup stats c" using ok c by (simp add: stats_ok_def)
    then have sh: "getValueRequiredBits r \<le> bits" "st_colored stats \<or> g = r \<and> b = r"
      "st_alpha stats \<or> a = 255 \<or> a = 0 \<and> st_key stats \<and> key_of dup stats c"
      using bits(2) le_trans [of _ "st_bits stats" bits] by (simp_all only: shown_def e key_of_def prod.case)
    have grey: "gray \<Longrightarrow> g = r \<and> b = r" using gray sh(2) by blast
    show ?thesis
    proof (cases alpha)
      case True
      then show ?thesis using grey by (simp add: fits_def mode(1,2) e)
    next
      case False
      have a: "a = (if key \<and> key_of dup stats c then 0 else 255)"
        using sh(3) al False cover c by (auto simp: stats_cover_def e)
      show ?thesis
      proof (cases key)
        case no: False
        show ?thesis
          using False a no grey sh(1) grey_exact(1) [of r bits] bits(1)
          by (auto simp: fits_def mode(1-3) e grey_value_def small_bits_def)
      next
        case True
        then have "st_key stats" using al(2) False by simp
        then obtain r0 g0 b0 a0 where k: "(r0, g0, b0, a0) \<in> P" "key_of dup stats (r0, g0, b0, a0)"
          using ok by (auto simp: stats_ok_def)
        then have kv: "st_key_r stats = dup r0" "st_key_g stats = dup g0" "st_key_b stats = dup b0"
          by (simp_all add: key_of_def matches_key_def)
        have "shown dup stats (r0, g0, b0, a0)" using ok k(1) by (simp add: stats_ok_def)
        then have k0: "getValueRequiredBits r0 \<le> bits" "st_colored stats \<or> g0 = r0 \<and> b0 = r0"
          using bits(2) le_trans [of _ "st_bits stats" bits] by (simp_all only: shown_def prod.case)
        have m: "key_of dup stats c \<longleftrightarrow> r = r0 \<and> g = g0 \<and> b = b0"
          by (simp only: key_of_def e prod.case matches_key_def kv dup_inj)
        show ?thesis
        proof (cases gray)
          case True
          then have "g0 = r0 \<and> b0 = r0" "g = r \<and> b = r" using k0(2) gray grey by blast+
          then show ?thesis
            using False True \<open>key\<close> a m mode(4) grey_key [OF sh(1) k0(1) bits(1)] grey_exact(1) [OF sh(1)] bits(1)
            by (auto simp: fits_def mode(1-3) e grey_value_def small_bits_def kv)
        next
          case nogray: False
          then have "bits = 8" using bits(3) by simp
          then show ?thesis
            using False nogray \<open>key\<close> a m mode(4) [unfolded \<open>bits = 8\<close>] byte_key
            by (simp add: fits_def mode(1-3) e kv)
        qed
      qed
    qed
  qed
  ultimately show ?thesis using mode(4) by (simp add: chosen_ok_def mode(2,3) take_bit_16_key del: take_bit_and)
qed

lemma palette_mode_ok:
  assumes cover: "stats_cover P stats" and allow: "allow_palette stats"
    and n: "st_numcolors stats \<le> 2 ^ bitdepth mode" "bitdepth mode \<in> {1, 2, 4, 8}" "st_numcolors stats \<noteq> 0"
    and mode: "colortype mode = LCT_PALETTE" "\<not> key_defined mode"
      "palette_holds mode (map (stats_color stats) [0 ..< st_numcolors stats])"
  shows "chosen_ok P mode"
proof -
  let ?n = "st_numcolors stats"
  have "?n \<le> 256" using n(1,2) by auto
  then have "color_tree_has (palette_tree ?n (st_palette stats)) c" if "c \<in> P" for c
    using cover allow that by (auto simp: stats_cover_def counted_def)
  then have "fits mode (mode_tree mode) c" if "c \<in> P" for c
    using palette_mode_fits [OF mode(1,3) n(1,3)] that by blast
  moreover have "valid8 mode" using mode(1) n(2) by (auto simp: valid8_def checkColorValidity_def)
  moreover have "palettesize mode = ?n" "\<exists>p. palette mode = Some p \<and> length p = 1024"
    using mode(3) n(3) by (auto simp: palette_holds_def split: option.splits)
  ultimately show ?thesis using n mode(2) by (simp add: chosen_ok_def)
qed

text \<open>Only a mode with a palette changes the palette, and one with alpha has no key.\<close>

definition chosen_from :: "LodePNGColorMode \<Rightarrow> LodePNGColorMode \<Rightarrow> bool" where
  "chosen_from mode_out mode \<longleftrightarrow>
     (colortype mode \<noteq> LCT_PALETTE \<longrightarrow> palette mode = palette mode_out \<and> palettesize mode = palettesize mode_out) \<and>
     (key_defined mode \<longrightarrow> colortype mode = LCT_GREY \<or> colortype mode = LCT_RGB)"

lemma auto_choose_color_ok:
  assumes cover: "stats_cover P stats" and raw: "colortype mode_in \<noteq> LCT_PALETTE"
  shows "\<exists>mode. auto_choose_color junk mode_out mode_in stats = (0, mode) \<and> chosen_ok P mode \<and> chosen_from mode_out mode"
proof -
  define few where "few = (st_key stats \<and> st_numpixels stats \<le> 16)"
  define alpha where "alpha = (if few then True else st_alpha stats)"
  define key where "key = (if few then False else st_key stats)"
  define gray where "gray = (\<not> st_colored stats \<and> allow_greyscale stats)"
  define bits where "bits = (let bits = (if few \<and> st_bits stats < 8 then 8 else st_bits stats) in
    if \<not> gray \<and> bits < 8 then 8 else bits)"
  define n where "n = st_numcolors stats"
  define pbits where "pbits = (if n \<le> 2 then 1 else if n \<le> 4 then 2 else if n \<le> 16 then 4 else 8 :: nat)"
  define palette_ok where "palette_ok = (n \<le> 256 \<and> bits \<le> 8 \<and> n \<noteq> 0 \<and> \<not> st_numpixels stats < n * 2 \<and>
    \<not> (gray \<and> \<not> alpha \<and> bits \<le> pbits) \<and> allow_palette stats)"
  let ?m = "mode_out\<lparr>key_defined := False\<rparr>"
  let ?direct = "?m\<lparr>bitdepth := bits, colortype := (if alpha then (if gray then LCT_GREY_ALPHA else LCT_RGBA)
    else (if gray then LCT_GREY else LCT_RGB))\<rparr>"
  let ?keyed = "?direct\<lparr>key_r := ucast (st_key_r stats) AND (2 ^ bits - 1),
    key_g := ucast (st_key_g stats) AND (2 ^ bits - 1), key_b := ucast (st_key_b stats) AND (2 ^ bits - 1),
    key_defined := True\<rparr>"
  have e: "auto_choose_color junk mode_out mode_in stats =
      (if palette_ok then
         (let (error, mode) = palette_add_all (lodepng_palette_clear ?m) (map (stats_color stats) [0 ..< n]) in
          (error, mode\<lparr>colortype := LCT_PALETTE, bitdepth := pbits\<rparr>))
       else (0, if key then ?keyed else ?direct))"
    unfolding auto_choose_color_def Let_def few_def [symmetric] alpha_def [symmetric] key_def [symmetric]
      gray_def [symmetric] bits_def [unfolded Let_def, symmetric] n_def [symmetric] pbits_def [symmetric]
      palette_ok_def [symmetric]
    using raw by (simp split: prod.split)
  have ok: "small_bits (st_bits stats)" "st_colored stats \<longrightarrow> st_bits stats = 8" "st_alpha stats \<longrightarrow> st_bits stats = 8 \<and> \<not> st_key stats"
    using cover by (simp_all add: stats_cover_def stats_ok_def)
  have bits: "small_bits bits" "st_bits stats \<le> bits" "gray \<or> bits = 8" "alpha \<longrightarrow> bits = 8"
  proof -
    have c: "bits = st_bits stats \<or> bits = 8" by (simp add: bits_def Let_def)
    then have l: "bits \<le> 8" and "small_bits bits" using small_bits_le [OF ok(1)] ok(1) by (elim disjE; simp)+
    then show "small_bits bits" "st_bits stats \<le> bits" using c small_bits_le [OF ok(1)] by (elim disjE; simp)+
    have g: "\<not> gray \<Longrightarrow> \<not> bits < 8" "few \<Longrightarrow> \<not> bits < 8" by (simp_all add: bits_def Let_def)
    show "gray \<or> bits = 8" using g(1) l by linarith
    show "alpha \<longrightarrow> bits = 8" using g(2) l c ok(3) by (cases few) (auto simp: alpha_def)
  qed
  show ?thesis
  proof (cases palette_ok)
    case True
    then have p: "n \<le> 256" "n \<noteq> 0" "allow_palette stats" by (simp_all add: palette_ok_def)
    have "palette_holds (lodepng_palette_clear ?m) []" by (simp add: palette_holds_def lodepng_palette_clear_def)
    then obtain mode where m: "palette_add_all (lodepng_palette_clear ?m) (map (stats_color stats) [0 ..< n]) = (0, mode)"
      "palette_holds mode (map (stats_color stats) [0 ..< n])" "key_defined mode = False"
      using palette_add_all_holds [of "lodepng_palette_clear ?m" "[]" "map (stats_color stats) [0 ..< n]"] p(1)
      by (auto simp: lodepng_palette_clear_def)
    let ?mode = "mode\<lparr>colortype := LCT_PALETTE, bitdepth := pbits\<rparr>"
    have pc: "palette_color ?mode = palette_color mode"
      by (intro ext) (simp add: palette_color_def palette_bytes_def)
    have "palette_holds ?mode (map (stats_color stats) [0 ..< n])"
      using m(2) unfolding palette_holds_def pc by simp
    moreover have "n \<le> 2 ^ pbits" "pbits \<in> {1, 2, 4, 8}" using p(1) by (simp_all add: pbits_def)
    ultimately have "chosen_ok P ?mode"
      using palette_mode_ok [OF cover p(3), of ?mode] p(2) m(3) by (simp add: n_def)
    moreover have "chosen_from mode_out ?mode" using m(3) by (simp add: chosen_from_def)
    ultimately show ?thesis unfolding e using True m(1) by simp
  next
    case False
    have "chosen_ok P (if key then ?keyed else ?direct)"
      by (rule direct_mode_ok [OF cover bits, where key = key]) (auto simp: gray_def alpha_def key_def)
    moreover have "\<not> alpha" if key using that ok(3) by (auto simp: alpha_def key_def split: if_splits)
    then have "chosen_from mode_out (if key then ?keyed else ?direct)" by (auto simp: chosen_from_def)
    ultimately show ?thesis unfolding e using False by simp
  qed
qed

end
