(* ===== verification/Png_Encode.thy ===== *)
theory Png_Encode
  imports Png_Writers Png_Choose
begin

unbundle bit_operations_syntax

text \<open>
  The encoder of \<open>lodepng.cpp\<close>: the checks, the choice of a colour mode, the conversion of the image,
  and the chunks of the file in their order. What the memory holds that the code does not set is in
  the record \<open>uninit\<close>. The result \<open>None\<close> is undefined behaviour; otherwise there is an error, zero for
  none, and the file as far as it was written.
\<close>

section \<open>Memory that is not set\<close>

record uninit =
  un_bytes :: "nat \<Rightarrow> byte"
  un_words :: "nat \<Rightarrow> nat"
  un_info :: LodePNGInfo
  un_stats :: LodePNGColorStats
  un_state :: LodePNGState

section \<open>The colour mode of the file\<close>

definition isGrayICCProfile :: "bytes \<Rightarrow> nat \<Rightarrow> bool" where
  "isGrayICCProfile profile n \<longleftrightarrow> n \<ge> 20 \<and> take 4 (drop 16 profile) = [71, 82, 65, 89]"

definition isRGBICCProfile :: "bytes \<Rightarrow> nat \<Rightarrow> bool" where
  "isRGBICCProfile profile n \<longleftrightarrow> n \<ge> 20 \<and> take 4 (drop 16 profile) = [82, 71, 66, 32]"

definition gray_icc :: "LodePNGInfo \<Rightarrow> bool" where
  "gray_icc info \<longleftrightarrow> isGrayICCProfile (the (iccp_profile info)) (iccp_profile_size info)"

definition rgb_icc :: "LodePNGInfo \<Rightarrow> bool" where
  "rgb_icc info \<longleftrightarrow> isRGBICCProfile (the (iccp_profile info)) (iccp_profile_size info)"

definition check_encode :: "LodePNGState \<Rightarrow> nat" where
  "check_encode state =
     (let png = info_png state; n = palettesize (color png) in
      if (colortype (color png) = LCT_PALETTE \<or> force_palette (encoder state)) \<and> (n = 0 \<or> n > 256) then 68
      else if btype (zlibsettings (encoder state)) > 2 then 61
      else if interlace_method png > 1 then 71
      else if checkColorValidity (colortype (color png)) (bitdepth (color png)) \<noteq> 0
      then checkColorValidity (colortype (color png)) (bitdepth (color png))
      else checkColorValidity (colortype (info_raw state)) (bitdepth (info_raw state)))"

text \<open>The statistics of the image and of the background colour.\<close>

definition encode_stats :: "uninit \<Rightarrow> bytes \<Rightarrow> nat \<Rightarrow> nat \<Rightarrow> LodePNGState \<Rightarrow> LodePNGColorStats" where
  "encode_stats un img w h state =
     (let png = info_png state;
          stats = lodepng_color_stats_init (un_stats un);
          stats = (if iccp_defined png \<and> gray_icc png then stats\<lparr>allow_palette := False\<rparr> else stats);
          stats = (if iccp_defined png \<and> rgb_icc png then stats\<lparr>allow_greyscale := False\<rparr> else stats);
          stats = lodepng_compute_color_stats stats img w h (info_raw state) in
      if background_defined png then
        (let mode16 = lodepng_color_mode_make LCT_RGB 16 in
         case lodepng_convert_rgb (0, 0, 0) (background_r png) (background_g png) (background_b png) mode16 (color png) of
           Inl e \<Rightarrow> lodepng_color_stats_add stats 0 0 0 65535
         | Inr (r, g, b) \<Rightarrow> lodepng_color_stats_add stats r g b 65535)
      else stats)"

definition encode_color :: "uninit \<Rightarrow> bytes \<Rightarrow> nat \<Rightarrow> nat \<Rightarrow> LodePNGState \<Rightarrow> LodePNGInfo \<Rightarrow> nat \<times> LodePNGInfo" where
  "encode_color un img w h state info =
     (let png = info_png state in
      if \<not> auto_convert (encoder state) then (0, info)
      else
        (case auto_choose_color (un_bytes un) (color info) (info_raw state) (encode_stats un img w h state) of
           (error, mode) \<Rightarrow>
             let info = info\<lparr>color := mode\<rparr> in
             if error \<noteq> 0 then (error, info)
             else if background_defined png then
               (case lodepng_convert_rgb (background_r info, background_g info, background_b info)
                       (background_r png) (background_g png) (background_b png) (color info) (color png) of
                  Inl e \<Rightarrow> (104, info)
                | Inr (r, g, b) \<Rightarrow> (0, info\<lparr>background_r := r, background_g := g, background_b := b\<rparr>))
             else (0, info)))"

definition icc_error :: "LodePNGState \<Rightarrow> LodePNGInfo \<Rightarrow> nat" where
  "icc_error state info =
     (let png = info_png state;
          gray_png = (colortype (color info) = LCT_GREY \<or> colortype (color info) = LCT_GREY_ALPHA) in
      if \<not> iccp_defined png then 0
      else if \<not> gray_icc png \<and> \<not> rgb_icc png then 100
      else if gray_icc png \<noteq> gray_png then (if auto_convert (encoder state) then 102 else 101)
      else 0)"

text \<open>The scanlines of the converted image.\<close>

definition encode_scanlines ::
  "uninit \<Rightarrow> bytes \<Rightarrow> nat \<Rightarrow> nat \<Rightarrow> LodePNGState \<Rightarrow> LodePNGInfo \<Rightarrow> bytes png option" where
  "encode_scanlines un img w h state info =
     (let scan = (\<lambda>img. preProcessScanlines (un_words un) (un_bytes un) img w h info (encoder state)) in
      if lodepng_color_mode_equal (info_raw state) (color info) then scan img
      else
        (let n = (w * h * lodepng_get_bpp (color info) + 7) div 8 in
         case lodepng_convert (fresh (un_bytes un) n) img (color info) (info_raw state) w h of
           Inl e \<Rightarrow> Some (Inl e)
         | Inr converted \<Rightarrow> scan converted))"

section \<open>The chunks of the file\<close>

text \<open>One writer after the other, until one has an error.\<close>

fun run_writers :: "writer list \<Rightarrow> writer" where
  "run_writers [] out = Some (0, out)"
| "run_writers (write # writes) out =
     (case write out of
        None \<Rightarrow> None
      | Some (error, out) \<Rightarrow> if error \<noteq> 0 then Some (error, out) else run_writers writes out)"

definition write_if :: "bool \<Rightarrow> writer \<Rightarrow> writer list" where
  "write_if b write = (if b then [write] else [])"

definition checked_key :: "bytes \<Rightarrow> writer \<Rightarrow> writer" where
  "checked_key key write out =
     (if lodepng_strlen key > 79 then Some (66, out)
      else if lodepng_strlen key < 1 then Some (67, out)
      else write out)"

definition lodepng_name :: bytes where
  "lodepng_name = [76, 111, 100, 101, 80, 78, 71]"

definition LODEPNG_VERSION_STRING :: bytes where
  "LODEPNG_VERSION_STRING = [50, 48, 50, 48, 49, 48, 49, 55]"

definition text_writers :: "uninit \<Rightarrow> LodePNGEncoderSettings \<Rightarrow> LodePNGInfo \<Rightarrow> writer list" where
  "text_writers un enc info =
     map (\<lambda>(key, str). checked_key key
       (if text_compression enc
        then addChunk_zTXt (un_words un) (un_bytes un) key str (zlibsettings enc)
        else addChunk_tEXt (un_bytes un) key str)) (texts info) @
     write_if (add_id enc \<and> \<not> list_ex (\<lambda>(key, str). take 8 (key @ [0]) = lodepng_name @ [0]) (texts info))
       (addChunk_tEXt (un_bytes un) lodepng_name LODEPNG_VERSION_STRING) @
     map (\<lambda>(key, langtag, transkey, str). checked_key key
       (addChunk_iTXt (un_words un) (un_bytes un) (text_compression enc) key langtag transkey str (zlibsettings enc)))
       (itexts info)"

definition unknown_writer :: "nat \<Rightarrow> LodePNGInfo \<Rightarrow> writer list" where
  "unknown_writer i info =
     write_if (unknown_chunks_data info ! i \<noteq> []) (addUnknownChunks (unknown_chunks_data info ! i))"

definition chunk_writers ::
  "uninit \<Rightarrow> LodePNGEncoderSettings \<Rightarrow> nat \<Rightarrow> nat \<Rightarrow> LodePNGInfo \<Rightarrow> bytes \<Rightarrow> writer list" where
  "chunk_writers un enc w h info data =
     (let mem = un_bytes un; mode = color info in
      [writeSignature, addChunk_IHDR mem w h (colortype mode) (bitdepth mode) (interlace_method info)] @
      unknown_writer 0 info @
      write_if (iccp_defined info) (addChunk_iCCP (un_words un) mem info (zlibsettings enc)) @
      write_if (srgb_defined info) (addChunk_sRGB mem info) @
      write_if (gama_defined info) (addChunk_gAMA mem info) @
      write_if (chrm_defined info) (addChunk_cHRM mem info) @
      write_if (colortype mode = LCT_PALETTE) (addChunk_PLTE mem mode) @
      write_if (force_palette enc \<and> (colortype mode = LCT_RGB \<or> colortype mode = LCT_RGBA)) (addChunk_PLTE mem mode) @
      [addChunk_tRNS mem mode] @
      write_if (background_defined info) (addChunk_bKGD mem info) @
      write_if (phys_defined info) (addChunk_pHYs mem info) @
      unknown_writer 1 info @
      [addChunk_IDAT (un_words un) mem data (zlibsettings enc)] @
      write_if (time_defined info) (addChunk_tIME mem (time info)) @
      text_writers un enc info @
      unknown_writer 2 info @
      [addChunk_IEND mem])"

section \<open>The encoder\<close>

text \<open>
  An error of \<open>lodepng_info_copy\<close> is not looked at; the copy then shares memory with the original,
  which is freed with it.
\<close>

definition lodepng_encode ::
  "uninit \<Rightarrow> bytes \<Rightarrow> nat \<Rightarrow> nat \<Rightarrow> LodePNGState \<Rightarrow> (nat \<times> bytes) option" where
  "lodepng_encode un img w h state =
     (if check_encode state \<noteq> 0 then Some (check_encode state, [])
      else
        (let info = snd (lodepng_info_copy (un_bytes un) (lodepng_info_init (un_info un)) (info_png state)) in
         case encode_color un img w h state info of
           (error, info) \<Rightarrow>
             if error \<noteq> 0 then Some (error, [])
             else if icc_error state info \<noteq> 0 then Some (icc_error state info, [])
             else
               (case encode_scanlines un img w h state info of
                  None \<Rightarrow> None
                | Some (Inl e) \<Rightarrow> Some (e, [])
                | Some (Inr data) \<Rightarrow> run_writers (chunk_writers un (encoder state) w h info data) [])))"

definition lodepng_encode_memory ::
  "uninit \<Rightarrow> bytes \<Rightarrow> nat \<Rightarrow> nat \<Rightarrow> LodePNGColorType \<Rightarrow> nat \<Rightarrow> (nat \<times> bytes) option" where
  "lodepng_encode_memory un img w h ct bd =
     (let state = lodepng_state_init (un_state un);
          state = state\<lparr>info_raw := (info_raw state)\<lparr>colortype := ct, bitdepth := bd\<rparr>,
            info_png := (info_png state)\<lparr>color := (color (info_png state))\<lparr>colortype := ct, bitdepth := bd\<rparr>\<rparr>\<rparr> in
      lodepng_encode un img w h state)"

definition lodepng_encode32 :: "uninit \<Rightarrow> bytes \<Rightarrow> nat \<Rightarrow> nat \<Rightarrow> (nat \<times> bytes) option" where
  "lodepng_encode32 un img w h = lodepng_encode_memory un img w h LCT_RGBA 8"

definition lodepng_encode24 :: "uninit \<Rightarrow> bytes \<Rightarrow> nat \<Rightarrow> nat \<Rightarrow> (nat \<times> bytes) option" where
  "lodepng_encode24 un img w h = lodepng_encode_memory un img w h LCT_RGB 8"

text \<open>The C++ wrapper: the vector that gets the file, and the check of the size of the image.\<close>

definition encode_vector ::
  "uninit \<Rightarrow> bytes \<Rightarrow> bytes \<Rightarrow> nat \<Rightarrow> nat \<Rightarrow> LodePNGColorType \<Rightarrow> nat \<Rightarrow> (nat \<times> bytes) option" where
  "encode_vector un out img w h ct bd =
     map_option (\<lambda>(error, buffer). (error, out @ buffer)) (lodepng_encode_memory un img w h ct bd)"

definition encode_checked ::
  "uninit \<Rightarrow> bytes \<Rightarrow> bytes \<Rightarrow> nat \<Rightarrow> nat \<Rightarrow> LodePNGColorType \<Rightarrow> nat \<Rightarrow> (nat \<times> bytes) option" where
  "encode_checked un out img w h ct bd =
     (if lodepng_get_raw_size_lct w h ct bd > length img then Some (84, out)
      else encode_vector un out img w h ct bd)"

text \<open>
  Encoding into a file: \<open>save\<close> is \<open>lodepng_save_file\<close>, which takes the bytes and gives its error and
  what the file holds then; an image that cannot be encoded leaves the file as it is.
\<close>

definition encode_file ::
  "uninit \<Rightarrow> (bytes \<Rightarrow> nat \<times> 'f) \<Rightarrow> 'f \<Rightarrow> bytes \<Rightarrow> nat \<Rightarrow> nat \<Rightarrow> LodePNGColorType \<Rightarrow> nat \<Rightarrow> (nat \<times> 'f) option" where
  "encode_file un save file img w h ct bd =
     (case encode_vector un [] img w h ct bd of
        None \<Rightarrow> None
      | Some (error, buffer) \<Rightarrow> Some (if error = 0 then save buffer else (error, file)))"

definition encode_file_checked ::
  "uninit \<Rightarrow> (bytes \<Rightarrow> nat \<times> 'f) \<Rightarrow> 'f \<Rightarrow> bytes \<Rightarrow> nat \<Rightarrow> nat \<Rightarrow> LodePNGColorType \<Rightarrow> nat \<Rightarrow> (nat \<times> 'f) option" where
  "encode_file_checked un save file img w h ct bd =
     (if lodepng_get_raw_size_lct w h ct bd > length img then Some (84, file)
      else encode_file un save file img w h ct bd)"

end
