(* ===== verification/Png_Decode.thy ===== *)
theory Png_Decode
  imports Png_Readers Png_Recolor
begin

unbundle bit_operations_syntax

text \<open>
  The decoder of \<open>lodepng.cpp\<close>: the loop over the chunks of a file, the decompression of the collected
  data, the scanlines, and the conversion to the colour mode that is wanted. A pointer into the file
  is an offset. The result \<open>None\<close> is a call that does not return. The lemmas show that the loop ends.
\<close>

section \<open>The loop over the chunks\<close>

record decode_state =
  dc_chunk :: nat
  dc_idat :: bytes
  dc_critical_pos :: nat
  dc_state :: LodePNGState

text \<open>An iteration goes on with the next chunk or leaves the loop.\<close>

datatype 'a iteration = Next 'a | Leave 'a

definition dc_fail :: "decode_state \<Rightarrow> nat \<Rightarrow> decode_state" where
  "dc_fail s e = s\<lparr>dc_state := (dc_state s)\<lparr>state_error := e\<rparr>\<rparr>"

definition is_text_type :: "bytes \<Rightarrow> nat \<Rightarrow> bool" where
  "is_text_type input chunk \<longleftrightarrow> lodepng_chunk_type_equals input chunk tEXt_type \<or>
     lodepng_chunk_type_equals input chunk zTXt_type \<or> lodepng_chunk_type_equals input chunk iTXt_type"

text \<open>
  What a chunk does to the state: the new state, whether it is the end, and whether its type is
  unknown. An error is in the state.
\<close>

definition decode_unknown :: "bytes \<Rightarrow> decode_state \<Rightarrow> (decode_state \<times> bool \<times> bool) option" where
  "decode_unknown input s =
     (let chunk = dc_chunk s; state = dc_state s; k = dc_critical_pos s - 1; info = info_png state in
      if \<not> ignore_critical (decoder state) \<and> \<not> lodepng_chunk_ancillary input chunk
      then Some (dc_fail s 69, False, True)
      else if remember_unknown_chunks (decoder state) then
        (case lodepng_chunk_append (unknown_chunks_data info ! k) input chunk of
           None \<Rightarrow> None
         | Some (Inl e) \<Rightarrow> Some (dc_fail s e, False, True)
         | Some (Inr data) \<Rightarrow>
             Some (s\<lparr>dc_state := state\<lparr>info_png := info\<lparr>unknown_chunks_data := (unknown_chunks_data info)[k := data]\<rparr>\<rparr>\<rparr>,
               False, True))
      else Some (s, False, True))"

definition decode_chunk ::
  "(nat \<Rightarrow> byte) \<Rightarrow> bytes \<Rightarrow> bytes \<Rightarrow> decode_state \<Rightarrow> (decode_state \<times> bool \<times> bool) option" where
  "decode_chunk mem input data s =
     (let chunk = dc_chunk s; state = dc_state s in
      if lodepng_chunk_type_equals input chunk IDAT_type then
        (case lodepng_addofl (word_of_nat (length (dc_idat s))) (word_of_nat (length data)) of (ofl, newsize) \<Rightarrow>
           if ofl \<or> unat newsize > length input then Some (dc_fail s 95, False, False)
           else Some (s\<lparr>dc_idat := dc_idat s @ data, dc_critical_pos := 3\<rparr>, False, False))
      else if lodepng_chunk_type_equals input chunk IEND_type then Some (s, True, False)
      else if is_text_type input chunk \<and> \<not> read_text_chunks (decoder state) then Some (s, False, False)
      else
        (case read_chunk mem state input chunk data of
           None \<Rightarrow> decode_unknown input s
         | Some None \<Rightarrow> None
         | Some (Some (error, state)) \<Rightarrow>
             Some (s\<lparr>dc_state := state\<lparr>state_error := error\<rparr>,
               dc_critical_pos := (if lodepng_chunk_type_equals input chunk PLTE_type \<and> error = 0 then 2 else dc_critical_pos s)\<rparr>,
               False, False)))"

definition decode_step :: "(nat \<Rightarrow> byte) \<Rightarrow> bytes \<Rightarrow> decode_state \<Rightarrow> decode_state iteration option" where
  "decode_step mem input s =
     (let chunk = dc_chunk s; insize = length input; n = unat (lodepng_chunk_length input chunk) in
      if chunk + 12 > insize then Some (Leave (if ignore_end (decoder (dc_state s)) then s else dc_fail s 30))
      else if n > 2147483647 then Some (Leave (if ignore_end (decoder (dc_state s)) then s else dc_fail s 63))
      else if chunk + n + 12 > insize then Some (Leave (dc_fail s 64))
      else
        (case decode_chunk mem input (take n (drop (lodepng_chunk_data chunk) input)) s of
           None \<Rightarrow> None
         | Some (s, iend, unknown) \<Rightarrow>
             if state_error (dc_state s) \<noteq> 0 then Some (Leave s)
             else if \<not> ignore_crc (decoder (dc_state s)) \<and> \<not> unknown \<and> lodepng_chunk_check_crc input chunk
             then Some (Leave (dc_fail s 57))
             else if iend then Some (Leave s)
             else Some (Next (s\<lparr>dc_chunk := lodepng_chunk_next_const input chunk insize\<rparr>))))"

partial_function (option) decode_loop :: "(nat \<Rightarrow> byte) \<Rightarrow> bytes \<Rightarrow> decode_state \<Rightarrow> decode_state option" where
  "decode_loop mem input s =
     (case decode_step mem input s of
        None \<Rightarrow> None
      | Some (Leave s) \<Rightarrow> Some s
      | Some (Next s) \<Rightarrow> decode_loop mem input s)"

section \<open>The decoder\<close>

text \<open>
  An image whose scanlines or conversion have an error is given as it was allocated; what had been
  written into it before the error is not modelled.
\<close>

text \<open>The size of the decompressed data; with interlacing it is the sum over the passes.\<close>

definition expected_size :: "nat \<Rightarrow> nat \<Rightarrow> LodePNGInfo \<Rightarrow> nat" where
  "expected_size w h info =
     (let bpp = lodepng_get_bpp (color info);
          size = (\<lambda>w h. lodepng_get_raw_size_idat w h bpp);
          up = (\<lambda>v k. unsigned_of (v + k)) in
      if interlace_method info = 0 then size w h
      else
        size (up w 7 div 8) (up h 7 div 8) +
        (if w > 4 then size (up w 3 div 8) (up h 7 div 8) else 0) +
        size (up w 3 div 4) (up h 3 div 8) +
        (if w > 2 then size (up w 1 div 4) (up h 3 div 4) else 0) +
        size (up w 1 div 2) (up h 1 div 4) +
        (if w > 1 then size (w div 2) (up h 1 div 2) else 0) +
        size w (h div 2))"

definition decodeGeneric ::
  "(nat \<Rightarrow> byte) \<Rightarrow> LodePNGState \<Rightarrow> bytes \<Rightarrow> (bytes option \<times> u32 \<times> u32 \<times> LodePNGState) option" where
  "decodeGeneric mem state input =
     (case lodepng_inspect 0 0 state input of
        (w, h, state) \<Rightarrow>
          if state_error state \<noteq> 0 then Some (None, w, h, state)
          else if lodepng_pixel_overflow w h (color (info_png state)) (info_raw state)
          then Some (None, w, h, state\<lparr>state_error := 92\<rparr>)
          else
            (case decode_loop mem input \<lparr>dc_chunk = 33, dc_idat = [], dc_critical_pos = 1, dc_state = state\<rparr> of
               None \<Rightarrow> None
             | Some s \<Rightarrow>
                 let state = dc_state s; info = info_png state;
                     n = lodepng_get_raw_size (unat w) (unat h) (color info) in
                 if state_error state \<noteq> 0 then Some (None, w, h, state)
                 else if colortype (color info) = LCT_PALETTE \<and> palette (color info) = None
                 then Some (None, w, h, state\<lparr>state_error := 106\<rparr>)
                 else
                   (case zlib_decompress [] (dc_idat s) (zlibsettings_dec (decoder state)) of
                      None \<Rightarrow> None
                    | Some (Inl (e, m)) \<Rightarrow> Some (None, w, h, state\<lparr>state_error := e\<rparr>)
                    | Some (Inr scanlines) \<Rightarrow>
                        if length scanlines \<noteq> expected_size (unat w) (unat h) info
                        then Some (None, w, h, state\<lparr>state_error := 91\<rparr>)
                        else
                          (case postProcessScanlines (replicate n 0) scanlines (unat w) (unat h) info of
                             Inl e \<Rightarrow> Some (Some (replicate n 0), w, h, state\<lparr>state_error := e\<rparr>)
                           | Inr img \<Rightarrow> Some (Some img, w, h, state)))))"

text \<open>
  The error that is returned, the image, its width and height, and the state. The unsupported
  conversion is returned but not put into the state.
\<close>

definition lodepng_decode ::
  "(nat \<Rightarrow> byte) \<Rightarrow> LodePNGState \<Rightarrow> bytes \<Rightarrow> (nat \<times> bytes option \<times> u32 \<times> u32 \<times> LodePNGState) option" where
  "lodepng_decode mem state input =
     (case decodeGeneric mem state input of
        None \<Rightarrow> None
      | Some (img, w, h, state) \<Rightarrow>
          let raw = info_raw state; mode = color (info_png state) in
          if state_error state \<noteq> 0 then Some (state_error state, img, w, h, state)
          else if \<not> color_convert (decoder state) then
            Some (0, img, w, h, state\<lparr>info_raw := lodepng_color_mode_copy mem raw mode\<rparr>)
          else if lodepng_color_mode_equal raw mode then Some (0, img, w, h, state)
          else if \<not> (colortype raw = LCT_RGB \<or> colortype raw = LCT_RGBA) \<and> bitdepth raw \<noteq> 8 then
            Some (56, img, w, h, state)
          else
            (let out = fresh mem (lodepng_get_raw_size (unat w) (unat h) raw) in
             case lodepng_convert out (the img) raw mode (unat w) (unat h) of
               Inl e \<Rightarrow> Some (e, Some out, w, h, state\<lparr>state_error := e\<rparr>)
             | Inr out \<Rightarrow> Some (0, Some out, w, h, state)))"

definition lodepng_decode_memory ::
  "(nat \<Rightarrow> byte) \<Rightarrow> LodePNGState \<Rightarrow> bytes \<Rightarrow> LodePNGColorType \<Rightarrow> nat \<Rightarrow> (nat \<times> bytes option \<times> u32 \<times> u32) option" where
  "lodepng_decode_memory mem before input ct bd =
     (let state = lodepng_state_init before;
          state = state\<lparr>info_raw := (info_raw state)\<lparr>colortype := ct, bitdepth := bd\<rparr>,
            decoder := (decoder state)\<lparr>read_text_chunks := False, remember_unknown_chunks := False\<rparr>\<rparr> in
      map_option (\<lambda>(error, img, w, h, state). (error, img, w, h)) (lodepng_decode mem state input))"

definition lodepng_decode32 ::
  "(nat \<Rightarrow> byte) \<Rightarrow> LodePNGState \<Rightarrow> bytes \<Rightarrow> (nat \<times> bytes option \<times> u32 \<times> u32) option" where
  "lodepng_decode32 mem before input = lodepng_decode_memory mem before input LCT_RGBA 8"

definition lodepng_decode24 ::
  "(nat \<Rightarrow> byte) \<Rightarrow> LodePNGState \<Rightarrow> bytes \<Rightarrow> (nat \<times> bytes option \<times> u32 \<times> u32) option" where
  "lodepng_decode24 mem before input = lodepng_decode_memory mem before input LCT_RGB 8"

text \<open>
  The C++ wrappers append the image to a vector. The one that takes the file as a vector passes on
  its size as an \<open>unsigned\<close>.
\<close>

definition decode_vector ::
  "(nat \<Rightarrow> byte) \<Rightarrow> LodePNGState \<Rightarrow> bytes \<Rightarrow> bytes \<Rightarrow> LodePNGColorType \<Rightarrow> nat \<Rightarrow> (nat \<times> bytes \<times> u32 \<times> u32) option" where
  "decode_vector mem before out input ct bd =
     map_option (\<lambda>(error, img, w, h).
         (error,
          (case img of
             Some buffer \<Rightarrow>
               if error = 0
               then out @ take (lodepng_get_raw_size (unat w) (unat h) (lodepng_color_mode_make ct bd)) buffer else out
           | None \<Rightarrow> out), w, h))
       (lodepng_decode_memory mem before input ct bd)"

definition decode_bytes ::
  "(nat \<Rightarrow> byte) \<Rightarrow> LodePNGState \<Rightarrow> bytes \<Rightarrow> bytes \<Rightarrow> LodePNGColorType \<Rightarrow> nat \<Rightarrow> (nat \<times> bytes \<times> u32 \<times> u32) option" where
  "decode_bytes mem before out input ct bd =
     decode_vector mem before out (take (unsigned_of (length input)) input) ct bd"

section \<open>The decoder returns\<close>

lemma zlib_decompress_returns:
  assumes "length input < 2 ^ 64" shows "\<exists>y. zlib_decompress out input settings = Some y"
proof -
  have "\<exists>y. lodepng_inflatev out (drop 2 input) settings = Some y"
    using assms by (intro inflate_returns) simp
  then obtain y where "inflatev out (drop 2 input) settings = Some y"
    by (cases "custom_inflate settings") (auto simp: inflatev_def split_beta)
  then have "\<exists>y. lodepng_zlib_decompressv out input settings = Some y"
    by (cases y) (simp_all add: lodepng_zlib_decompressv_def Let_def)
  then show ?thesis
    by (cases "custom_zlib settings") (simp_all add: zlib_decompress_def split: prod.split)
qed

lemma read_chunk_returns:
  assumes "length data < 2 ^ 64" shows "read_chunk mem state input chunk data \<noteq> Some None"
proof -
  have "\<exists>y. zlib_decompress [] (drop k data) settings = Some y" for k settings
    using assms by (intro zlib_decompress_returns) simp
  then obtain f where z: "\<And>k settings. zlib_decompress [] (drop k data) settings = Some (f k settings)"
    by metis
  have "\<exists>y. readChunk_zTXt info dec data = Some y" for info dec
    unfolding readChunk_zTXt_def Let_def z by (simp split: sum.split)
  moreover have "\<exists>y. readChunk_iTXt info dec data = Some y" for info dec
    unfolding readChunk_iTXt_def Let_def z by (simp split: sum.split)
  moreover have "\<exists>y. readChunk_iCCP mem info dec data = Some y" for info dec
    unfolding readChunk_iCCP_def Let_def z by (simp split: sum.split)
  ultimately obtain g1 g2 g3 where "\<And>info dec. readChunk_zTXt info dec data = Some (g1 info dec)"
    "\<And>info dec. readChunk_iTXt info dec data = Some (g2 info dec)"
    "\<And>info dec. readChunk_iCCP mem info dec data = Some (g3 info dec)" by metis
  then show ?thesis by (simp add: read_chunk_def Let_def lift_color_def lift_info_def)
qed

lemma chunk_append_returns:
  assumes "unat (lodepng_chunk_length buf chunk) \<le> 2147483647"
  shows "\<exists>y. lodepng_chunk_append out buf chunk = Some y"
  using assms unat_chunk_total [of "lodepng_chunk_length buf chunk"]
  by (auto simp: lodepng_chunk_append_def split: prod.splits)

lemma returns_if: "(\<exists>y. (if b then p else q) = Some y) = (if b then \<exists>y. p = Some y else \<exists>y. q = Some y)"
  by simp

lemma decode_step_returns:
  assumes "length input < 2 ^ 64"
  shows "\<exists>y. decode_step mem input s = Some y"
proof -
  let ?n = "unat (lodepng_chunk_length input (dc_chunk s))" let ?data = "take ?n (drop (lodepng_chunk_data (dc_chunk s)) input)"
  have "\<exists>y. decode_chunk mem input ?data s = Some y" if n: "?n \<le> 2147483647"
  proof -
    obtain f where "\<And>out. lodepng_chunk_append out input (dc_chunk s) = Some (f out)"
      using chunk_append_returns [OF n] by metis
    then have "\<exists>y. decode_unknown input s = Some y"
      unfolding decode_unknown_def Let_def
      by (cases "f (unknown_chunks_data (info_png (dc_state s)) ! (dc_critical_pos s - 1))") auto
    then obtain u where u: "decode_unknown input s = Some u" ..
    have l: "length ?data < 2 ^ 64" using assms by simp
    consider "read_chunk mem (dc_state s) input (dc_chunk s) ?data = None"
      | e st where "read_chunk mem (dc_state s) input (dc_chunk s) ?data = Some (Some (e, st))"
      using read_chunk_returns [OF l, of mem "dc_state s" input "dc_chunk s"]
      by (cases "read_chunk mem (dc_state s) input (dc_chunk s) ?data") (auto simp: not_None_eq)
    then show ?thesis
    proof cases
      case 1
      then show ?thesis unfolding decode_chunk_def Let_def split_beta returns_if by (simp add: u del: split_paired_Ex)
    next
      case 2
      then show ?thesis unfolding decode_chunk_def Let_def split_beta returns_if by (simp del: split_paired_Ex)
    qed
  qed
  then obtain y where "?n \<le> 2147483647 \<longrightarrow> decode_chunk mem input ?data s = Some y" by blast
  then show ?thesis by (cases y) (simp add: decode_step_def Let_def)
qed

lemma decode_step_progress:
  assumes "decode_step mem input s = Some (Next s')" "length input < 2 ^ 64"
  shows "dc_chunk s < dc_chunk s'" "dc_chunk s + 12 \<le> length input"
proof -
  show c: "dc_chunk s + 12 \<le> length input"
    using assms(1) by (auto simp: decode_step_def Let_def split: if_splits)
  have "dc_chunk s' = lodepng_chunk_next input (dc_chunk s) (length input)"
    using assms(1) by (auto simp: decode_step_def Let_def lodepng_chunk_next_const_def split: if_splits option.splits prod.splits)
  then show "dc_chunk s < dc_chunk s'" using lodepng_chunk_next_less [of "dc_chunk s" "length input"] c assms(2) by simp
qed

lemma decode_loop_returns:
  assumes "length input < 2 ^ 64" shows "\<exists>y. decode_loop mem input s = Some y"
proof (induction "length input - dc_chunk s" arbitrary: s rule: less_induct)
  case less
  obtain it where it: "decode_step mem input s = Some it" using decode_step_returns [OF assms] by blast
  show ?case
  proof (cases it)
    case (Next s')
    have "length input - dc_chunk s' < length input - dc_chunk s"
      using decode_step_progress [OF it [unfolded Next] assms] by linarith
    then show ?thesis using less it Next by (subst decode_loop.simps) simp
  qed (use it in \<open>subst decode_loop.simps; simp\<close>)
qed







end
