(* ===== verification/Png_Parse.thy ===== *)
theory Png_Parse
  imports Png_Encode Png_Decode
begin

unbundle bit_operations_syntax

text \<open>
  How the decoder goes through a file that the writers made: at every chunk it sees the type and the
  data that were written, and the next chunk follows directly. The header and the chunks about
  colours give back the colour mode that was written.
\<close>

section \<open>One chunk of a file\<close>

lemma length_types [simp]:
  "length IHDR_type = 4" "length PLTE_type = 4" "length tRNS_type = 4" "length IDAT_type = 4" "length IEND_type = 4"
  "length tEXt_type = 4" "length zTXt_type = 4" "length iTXt_type = 4" "length bKGD_type = 4" "length tIME_type = 4"
  "length pHYs_type = 4" "length gAMA_type = 4" "length cHRM_type = 4" "length sRGB_type = 4" "length iCCP_type = 4"
  by (simp_all add: chunk_types)

text \<open>The reader of a chunk, by the type that was written.\<close>

definition read_typed :: "(nat \<Rightarrow> byte) \<Rightarrow> LodePNGState \<Rightarrow> bytes \<Rightarrow> bytes \<Rightarrow> (nat \<times> LodePNGState) option option" where
  "read_typed mem state type data =
     (let info = info_png state; dec = decoder state in
      if type = PLTE_type then Some (lift_color state (readChunk_PLTE (color info) data))
      else if type = tRNS_type then Some (lift_color state (readChunk_tRNS (color info) data))
      else if type = bKGD_type then Some (lift_info state (readChunk_bKGD info data))
      else if type = tEXt_type then Some (lift_info state (readChunk_tEXt info data))
      else if type = zTXt_type then Some (Option.bind (readChunk_zTXt info dec data) (lift_info state))
      else if type = iTXt_type then Some (Option.bind (readChunk_iTXt info dec data) (lift_info state))
      else if type = tIME_type then Some (lift_info state (readChunk_tIME info data))
      else if type = pHYs_type then Some (lift_info state (readChunk_pHYs info data))
      else if type = gAMA_type then Some (lift_info state (readChunk_gAMA info data))
      else if type = cHRM_type then Some (lift_info state (readChunk_cHRM info data))
      else if type = sRGB_type then Some (lift_info state (readChunk_sRGB info data))
      else if type = iCCP_type then Some (Option.bind (readChunk_iCCP mem info dec data) (lift_info state))
      else None)"

definition at_chunk :: "bytes \<Rightarrow> bytes \<Rightarrow> bytes \<Rightarrow> bytes \<Rightarrow> bytes \<Rightarrow> bool" where
  "at_chunk png pre type data rest \<longleftrightarrow>
     chunk_ok type data \<and> png = pre @ chunk_bytes type data @ rest \<and> length png < 2 ^ 64"

lemma at_chunkD:
  assumes "at_chunk png pre type data rest"
  shows "chunk_ok type data" "png = pre @ chunk_bytes type data @ rest" "length png < 2 ^ 64"
  using assms unfolding at_chunk_def by blast+

lemma type_at: "at_chunk png pre type data rest \<Longrightarrow> length type' = 4 \<Longrightarrow> lodepng_chunk_type_equals png (length pre) type' = (type = type')"
  using chunk_type_equals_at [of type data type' pre rest] by (simp add: at_chunk_def)

lemma unat_length:
  assumes at: "at_chunk png pre type data rest"
  shows "unat (lodepng_chunk_length png (length pre)) = length data"
  using at by (simp add: at_chunk_def chunk_length_at chunk_ok_def unat_of_nat)

lemma data_at:
  assumes at: "at_chunk png pre type data rest"
  shows "take (length data) (drop (lodepng_chunk_data (length pre)) png) = data"
  using at by (simp add: at_chunk_def chunk_bytes_def lodepng_chunk_data_def chunk_ok_def)

lemma next_at:
  assumes at: "at_chunk png pre type data rest"
  shows "lodepng_chunk_next_const png (length pre) (length png) = length (pre @ chunk_bytes type data)"
  using chunk_next_at [OF at_chunkD(1) [OF at], of "length png" pre rest] at_chunkD [OF at]
  unfolding lodepng_chunk_next_const_def by simp

lemma crc_at:
  assumes at: "at_chunk png pre type data rest"
  shows "\<not> lodepng_chunk_check_crc png (length pre)"
  using chunk_check_crc_at [OF at_chunkD(1) [OF at], of pre rest] at_chunkD(2) [OF at] by simp

lemma room_at:
  assumes at: "at_chunk png pre type data rest"
  shows "length pre + length data + 12 \<le> length png" "length data < 2 ^ 31"
  using at_chunkD [OF at] length_chunk_bytes [OF at_chunkD(1) [OF at]] by (simp_all add: chunk_ok_def)

lemma read_at:
  assumes at: "at_chunk png pre type data rest"
  shows "read_chunk mem state png (length pre) data = read_typed mem state type data"
  unfolding read_chunk_def read_typed_def Let_def by (simp add: type_at [OF at])

lemma decode_step_at:
  assumes at: "at_chunk png pre type data rest" and c: "dc_chunk s = length pre"
  shows "decode_step mem png s =
    (case decode_chunk mem png data s of
       None \<Rightarrow> None
     | Some (s', iend, unknown) \<Rightarrow>
         if state_error (dc_state s') \<noteq> 0 \<or> iend then Some (Leave s')
         else Some (Next (s'\<lparr>dc_chunk := length (pre @ chunk_bytes type data)\<rparr>)))"
  using room_at [OF at] unfolding decode_step_def c Let_def unat_length [OF at] data_at [OF at] next_at [OF at]
  by (auto simp: crc_at [OF at] split: option.split prod.split)

lemma decode_idat:
  assumes at: "at_chunk png pre type data rest"
    and a: "type = IDAT_type" "dc_chunk s = length pre" "length (dc_idat s) + length data \<le> length png"
    "state_error (dc_state s) = 0"
  shows "decode_loop mem png s =
    decode_loop mem png (s\<lparr>dc_idat := dc_idat s @ data, dc_critical_pos := 3,
      dc_chunk := length (pre @ chunk_bytes type data)\<rparr>)"
proof -
  have l: "unat (word_of_nat (length (dc_idat s)) :: u64) = length (dc_idat s)"
    "unat (word_of_nat (length data) :: u64) = length data"
    using a(3) at_chunkD(3) [OF at] by (simp_all add: unat_of_nat)
  have no: "\<not> fst (lodepng_addofl (word_of_nat (length (dc_idat s))) (word_of_nat (length data)))"
    using a(3) at_chunkD(3) [OF at] by (simp add: lodepng_addofl_iff l)
  then have "unat (snd (lodepng_addofl (word_of_nat (length (dc_idat s))) (word_of_nat (length data)))) \<le> length png"
    using lodepng_addofl_ok [OF no] a(3) by (simp add: l)
  then have "decode_chunk mem png data s = Some (s\<lparr>dc_idat := dc_idat s @ data, dc_critical_pos := 3\<rparr>, False, False)"
    using no a(1) unfolding decode_chunk_def Let_def a(2) by (simp add: type_at [OF at] split_beta)
  then have "decode_step mem png s = Some (Next (s\<lparr>dc_idat := dc_idat s @ data, dc_critical_pos := 3,
      dc_chunk := length (pre @ chunk_bytes type data)\<rparr>))"
    using a(4) by (simp add: decode_step_at [OF at a(2)])
  then show ?thesis by (subst decode_loop.simps) simp
qed

lemma decode_iend:
  assumes at: "at_chunk png pre type data rest"
    and a: "type = IEND_type" "dc_chunk s = length pre" "state_error (dc_state s) = 0"
  shows "decode_loop mem png s = Some s"
proof -
  have "decode_chunk mem png data s = Some (s, True, False)"
    using a(1) unfolding decode_chunk_def Let_def a(2) by (simp add: type_at [OF at] chunk_types)
  then have "decode_step mem png s = Some (Leave s)" by (simp add: decode_step_at [OF at a(2)])
  then show ?thesis by (subst decode_loop.simps) simp
qed

lemma decode_other:
  assumes at: "at_chunk png pre type data rest"
    and a: "type \<noteq> IDAT_type" "type \<noteq> IEND_type" "dc_chunk s = length pre"
    "type \<in> {tEXt_type, zTXt_type, iTXt_type} \<longrightarrow> read_text_chunks (decoder (dc_state s))"
    "read_typed mem (dc_state s) type data = Some (Some (0, state))"
  shows "decode_loop mem png s =
    decode_loop mem png (s\<lparr>dc_state := state\<lparr>state_error := 0\<rparr>,
      dc_critical_pos := (if type = PLTE_type then 2 else dc_critical_pos s),
      dc_chunk := length (pre @ chunk_bytes type data)\<rparr>)"
proof -
  have t: "\<not> (is_text_type png (length pre) \<and> \<not> read_text_chunks (decoder (dc_state s)))"
    using a(4) by (simp add: is_text_type_def type_at [OF at]) blast
  have "decode_chunk mem png data s = Some (s\<lparr>dc_state := state\<lparr>state_error := 0\<rparr>,
      dc_critical_pos := (if type = PLTE_type then 2 else dc_critical_pos s)\<rparr>, False, False)"
    unfolding decode_chunk_def Let_def a(3) read_at [OF at] a(5) using t a(1,2) by (auto simp: type_at [OF at])
  then have "decode_step mem png s = Some (Next (s\<lparr>dc_state := state\<lparr>state_error := 0\<rparr>,
      dc_critical_pos := (if type = PLTE_type then 2 else dc_critical_pos s),
      dc_chunk := length (pre @ chunk_bytes type data)\<rparr>))"
    by (simp add: decode_step_at [OF at a(3)])
  then show ?thesis by (subst decode_loop.simps) simp
qed

section \<open>The header\<close>

abbreviation png_signature :: bytes where
  "png_signature \<equiv> [137, 80, 78, 71, 13, 10, 26, 10]"

definition header_data :: "nat \<Rightarrow> nat \<Rightarrow> LodePNGColorType \<Rightarrow> nat \<Rightarrow> nat \<Rightarrow> bytes" where
  "header_data w h ct bd il =
     lodepng_set32bitInt (word_of_nat w) @ lodepng_set32bitInt (word_of_nat h) @
     [word_of_nat bd, word_of_nat ct, 0, 0, word_of_nat il]"

lemma nth_mid: "length xs = n \<Longrightarrow> k < length ys \<Longrightarrow> (xs @ ys @ zs) ! (n + k) = ys ! k"
  by (simp add: nth_append)

lemma valid_small: "checkColorValidity ct bd = 0 \<Longrightarrow> ct < 256 \<and> bd < 256"
  by (auto simp: checkColorValidity_def split: if_splits)

lemma inspect_header:
  assumes at: "at_chunk png png_signature IHDR_type (header_data w h ct bd il) rest"
    and size: "0 < w" "w < 2 ^ 32" "0 < h" "h < 2 ^ 32" and valid: "checkColorValidity ct bd = 0" and il: "il \<le> 1"
  defines "info \<equiv> \<lambda>state. lodepng_info_init (lodepng_info_cleanup (info_png state))"
  shows "lodepng_inspect w0 h0 state png = (word_of_nat w, word_of_nat h,
    state\<lparr>info_png := (info state)\<lparr>color := (color (info state))\<lparr>bitdepth := bd, colortype := ct\<rparr>,
      compression_method := 0, filter_method := 0, interlace_method := il\<rparr>, state_error := 0\<rparr>)"
proof -
  let ?H = "header_data w h ct bd il" let ?L = "lodepng_set32bitInt 13" let ?C = "lodepng_set32bitInt (lodepng_crc32 (IHDR_type @ ?H))"
  have lH: "length ?H = 13" by (simp add: header_data_def)
  have png: "png = (png_signature @ ?L @ IHDR_type) @ ?H @ ?C @ rest"
    using at_chunkD(2) [OF at] by (simp add: chunk_bytes_def lH)
  have lP: "length (png_signature @ ?L @ IHDR_type) = 16" by simp
  have l: "length png = 33 + length rest" by (simp add: png lH)
  have nth: "png ! (16 + k) = ?H ! k" if "k < 13" for k
    unfolding png by (rule nth_mid [OF lP]) (simp add: lH that)
  have d: "drop 16 png = ?H @ ?C @ rest" unfolding png by simp
  have "drop 20 png = drop 4 (drop 16 png)" "drop 29 png = drop 13 (drop 16 png)" by simp_all
  then have d': "drop 20 png = lodepng_set32bitInt (word_of_nat h) @ [word_of_nat bd, word_of_nat ct, 0, 0, word_of_nat il] @ ?C @ rest"
    "drop 29 png = ?C @ rest"
    unfolding d by (simp_all add: header_data_def)
  have "drop 12 png = IHDR_type @ ?H @ ?C @ rest" unfolding png by simp
  then have t: "take 17 (drop 12 png) = IHDR_type @ ?H" by (simp add: lH)
  have r: "lodepng_read32bitInt (drop 16 png) = word_of_nat w" "lodepng_read32bitInt (drop 20 png) = word_of_nat h"
    "lodepng_read32bitInt (drop 29 png) = lodepng_crc32 (take 17 (drop 12 png))"
    unfolding d d' t by (simp_all add: header_data_def)
  have n: "unat (png ! 24) = bd" "unat (png ! 25) = ct" "unat (png ! 26) = 0" "unat (png ! 27) = 0" "unat (png ! 28) = il"
    using nth [of 8] nth [of 9] nth [of 10] nth [of 11] nth [of 12] valid_small [OF valid] il
    by (simp_all add: header_data_def nth_append unat_of_nat)
  have s: "take 8 png = png_signature" unfolding png by simp
  have l8: "length png_signature = 8" by simp
  have c: "lodepng_chunk_length png 8 = 13"
    using chunk_length_at [of png_signature IHDR_type ?H rest] unfolding at_chunkD(2) [OF at, symmetric] l8 lH by simp
  have ty: "lodepng_chunk_type_equals png 8 IHDR_type" using type_at [OF at, of IHDR_type] unfolding l8 by simp
  have wh: "(word_of_nat w :: u32) \<noteq> 0" "(word_of_nat h :: u32) \<noteq> 0"
    using size by (simp_all add: word_unat_eq_iff unat_of_nat)
  show ?thesis
    using l wh valid il unfolding lodepng_inspect_def Let_def r n s c info_def
    by (simp add: ty)
qed

section \<open>Many chunks\<close>

text \<open>What the chunks of a list do to the state, none of them with an error.\<close>

fun read_all :: "(nat \<Rightarrow> byte) \<Rightarrow> LodePNGState \<Rightarrow> (bytes \<times> bytes) list \<Rightarrow> LodePNGState option" where
  "read_all mem state [] = Some state"
| "read_all mem state ((type, data) # cs) =
     (case read_typed mem state type data of
        Some (Some (error, state)) \<Rightarrow> if error = 0 then read_all mem (state\<lparr>state_error := 0\<rparr>) cs else None
      | _ \<Rightarrow> None)"

lemma read_all_append:
  "read_all mem state (cs @ ds) = Option.bind (read_all mem state cs) (\<lambda>state. read_all mem state ds)"
  by (induction cs arbitrary: state) (auto split: option.split)

lemma read_typed_decoder:
  "read_typed mem state type data = Some (Some (e, state')) \<Longrightarrow> decoder state' = decoder state"
  by (auto simp: read_typed_def Let_def lift_color_def lift_info_def bind_eq_Some_conv split: if_splits)

definition plain_chunk :: "bool \<Rightarrow> bytes \<times> bytes \<Rightarrow> bool" where
  "plain_chunk text c \<longleftrightarrow> (case c of (type, data) \<Rightarrow> chunk_ok type data \<and> type \<noteq> IDAT_type \<and> type \<noteq> IEND_type \<and>
     (type \<in> {tEXt_type, zTXt_type, iTXt_type} \<longrightarrow> text))"

lemma chunks_bytes_simps [simp]: "chunks_bytes [] = []" "chunks_bytes (c # cs) = chunk_bytes (fst c) (snd c) @ chunks_bytes cs"
  "chunks_bytes (cs @ ds) = chunks_bytes cs @ chunks_bytes ds"
  by (simp_all add: chunks_bytes_def split_beta)

lemma decode_all:
  assumes "png = pre @ chunks_bytes cs @ rest" "length png < 2 ^ 64" "dc_chunk s = length pre"
    "list_all (plain_chunk (read_text_chunks (decoder (dc_state s)))) cs" "read_all mem (dc_state s) cs = Some state"
  shows "\<exists>cp. decode_loop mem png s = decode_loop mem png
    (s\<lparr>dc_state := state, dc_critical_pos := cp, dc_chunk := length (pre @ chunks_bytes cs)\<rparr>)"
  using assms(1,3-5)
proof (induction cs arbitrary: pre s)
  case Nil
  then have "s\<lparr>dc_state := state, dc_critical_pos := dc_critical_pos s, dc_chunk := length (pre @ chunks_bytes [])\<rparr> = s"
    by simp
  then show ?case by metis
next
  case (Cons c cs)
  obtain type data where c: "c = (type, data)" by (cases c)
  obtain st where r: "read_typed mem (dc_state s) type data = Some (Some (0, st))"
    "read_all mem (st\<lparr>state_error := 0\<rparr>) cs = Some state"
    using Cons.prems(4) by (auto simp: c split: option.splits if_splits)
  have p: "chunk_ok type data" "type \<noteq> IDAT_type" "type \<noteq> IEND_type"
    "type \<in> {tEXt_type, zTXt_type, iTXt_type} \<longrightarrow> read_text_chunks (decoder (dc_state s))"
    using Cons.prems(3) by (simp_all add: plain_chunk_def c)
  have at: "at_chunk png pre type data (chunks_bytes cs @ rest)"
    using Cons.prems(1) p(1) assms(2) by (simp add: at_chunk_def c)
  let ?s = "s\<lparr>dc_state := st\<lparr>state_error := 0\<rparr>, dc_critical_pos := (if type = PLTE_type then 2 else dc_critical_pos s),
      dc_chunk := length (pre @ chunk_bytes type data)\<rparr>"
  have "decode_loop mem png s = decode_loop mem png ?s"
    by (rule decode_other [OF at p(2,3) Cons.prems(2) p(4) r(1)])
  moreover have "\<exists>cp. decode_loop mem png ?s = decode_loop mem png (?s\<lparr>dc_state := state, dc_critical_pos := cp,
      dc_chunk := length ((pre @ chunk_bytes type data) @ chunks_bytes cs)\<rparr>)"
    using Cons.prems(1,3) r(2) read_typed_decoder [OF r(1)] by (intro Cons.IH) (simp_all add: c)
  ultimately show ?case by (simp add: c)
qed

section \<open>Numbers in chunks\<close>

lemma byte_of: "(ucast (ucast (drop_bit k v) :: byte) :: u32) = word_of_nat (unat v div 2 ^ k mod 256)"
proof -
  have "unat (ucast (drop_bit k v) :: byte) = unat v div 2 ^ k mod 256"
    by (simp only: unsigned_ucast_eq unsigned_drop_bit_eq) (simp add: take_bit_eq_mod drop_bit_eq_div)
  then show ?thesis by (metis of_nat_unat unat_byte32)
qed

lemma low_byte: "(ucast (v AND 255) :: byte) = ucast (drop_bit 0 (v :: u32))"
  using ucast_and_0xff [of v] by simp

lemma unat_take_bit: "take_bit n v = v \<Longrightarrow> unat v < 2 ^ n"
  by (metis take_bit_nat_less_exp unsigned_take_bit_eq)

lemma be16_two_bytes:
  assumes "take_bit 16 v = v" "length xs = k"
  shows "be16 (xs @ two_bytes v @ ys) k = v"
proof -
  have n: "unat v < 65536" using unat_take_bit [OF assms(1)] by simp
  have "be16 (xs @ two_bytes v @ ys) k = 256 * ucast (ucast (drop_bit 8 v) :: byte) + ucast (ucast (drop_bit 0 v) :: byte)"
    using assms(2) by (simp only: be16_def two_bytes_def low_byte) (simp add: nth_append)
  also have "\<dots> = word_of_nat (256 * (unat v div 2 ^ 8 mod 256) + unat v div 2 ^ 0 mod 256)"
    unfolding byte_of by simp
  also have "256 * (unat v div 2 ^ 8 mod 256) + unat v div 2 ^ 0 mod 256 = unat v"
    using n by simp
  finally show ?thesis by simp
qed

lemma div4_bytes:
  fixes n :: nat
  assumes "n < 2 ^ 32"
  shows "16777216 * (n div 2 ^ 24 mod 256) + 65536 * (n div 2 ^ 16 mod 256) + 256 * (n div 2 ^ 8 mod 256) + n div 2 ^ 0 mod 256 = n"
proof -
  define a b c where "a = n div 256" and "b = a div 256" and "c = b div 256"
  have e: "n div 2 ^ 8 = a" "n div 2 ^ 16 = b" "n div 2 ^ 24 = c" "n div 2 ^ 0 = n"
    by (simp_all add: a_def b_def c_def div_mult2_eq [symmetric])
  have "c < 256" unfolding e(3) [symmetric] using assms by (simp add: less_mult_imp_div_less)
  then have "c mod 256 = c" by simp
  moreover have "n = 256 * a + n mod 256" "a = 256 * b + a mod 256" "b = 256 * c + b mod 256"
    by (simp_all add: a_def b_def c_def)
  ultimately show ?thesis unfolding e by linarith
qed

lemma be32_set32:
  assumes "length xs = k"
  shows "be32 (xs @ lodepng_set32bitInt v @ ys) k = v"
proof -
  let ?b = "\<lambda>k. ucast (drop_bit k v) :: byte"
  have d: "xs @ lodepng_set32bitInt v @ ys = xs @ [?b 24, ?b 16, ?b 8, ?b 0] @ ys"
    by (simp add: lodepng_set32bitInt_def ucast_and_0xff)
  have "be32 (xs @ lodepng_set32bitInt v @ ys) k =
      16777216 * ucast (?b 24) + 65536 * ucast (?b 16) + 256 * ucast (?b 8) + ucast (?b 0)"
    using assms unfolding d be32_def by (simp add: nth_append)
  also have "\<dots> = word_of_nat (16777216 * (unat v div 2 ^ 24 mod 256) + 65536 * (unat v div 2 ^ 16 mod 256) +
      256 * (unat v div 2 ^ 8 mod 256) + unat v div 2 ^ 0 mod 256)"
    unfolding byte_of by simp
  also have "\<dots> = v"
  proof -
    have u: "unat v < 2 ^ 32" using unsigned_less [of v] by simp
    show ?thesis unfolding div4_bytes [OF u] by simp
  qed
  finally show ?thesis .
qed

lemma byte_up: "unat v < 256 \<Longrightarrow> (ucast (ucast v :: byte) :: u32) = v"
  using byte_of [of 0 v] by simp

section \<open>The chunks about colours\<close>

lemma nth_pixels:
  assumes "\<And>i. i < n \<Longrightarrow> length (f i) = k" "i < n" "t < k"
  shows "pixels n f ! (i * k + t) = f i ! t"
proof -
  have "take k (drop (i * k) (pixels n f)) = f i" by (rule take_drop_pixels [OF assms(1,2)])
  from take_nth [OF this assms(1) [OF assms(2)] assms(3)] show ?thesis .
qed

lemma palette_rgb_pixels: "palette_rgb mode = pixels (palettesize mode)
    (\<lambda>i. [palette_bytes mode ! (i * 4), palette_bytes mode ! (i * 4 + 1), palette_bytes mode ! (i * 4 + 2)])"
  by (simp add: palette_rgb_def pixels_def Let_def)

lemma length_palette_rgb: "length (palette_rgb mode) = palettesize mode * 3"
  unfolding palette_rgb_pixels by (rule length_pixels) simp

lemma nth_palette_rgb:
  assumes "i < palettesize mode" "t < 3"
  shows "palette_rgb mode ! (3 * i + t) = palette_bytes mode ! (i * 4 + t)"
proof -
  have "t = 0 \<or> t = 1 \<or> t = 2" using assms(2) by auto
  then show ?thesis
    using nth_pixels [of "palettesize mode" "\<lambda>i. [palette_bytes mode ! (i * 4), palette_bytes mode ! (i * 4 + 1),
        palette_bytes mode ! (i * 4 + 2)]" 3 i t, OF _ assms]
    unfolding palette_rgb_pixels by (auto simp: mult.commute)
qed

lemma readChunk_PLTE_written:
  assumes n: "0 < palettesize mode" "palettesize mode \<le> 256"
  obtains p where "readChunk_PLTE c (palette_rgb mode) = (0, c\<lparr>palettesize := palettesize mode, palette := Some p\<rparr>)"
    "length p = 1024"
    "\<And>i. i < palettesize mode \<Longrightarrow> p ! (i * 4) = palette_bytes mode ! (i * 4) \<and>
      p ! (i * 4 + 1) = palette_bytes mode ! (i * 4 + 1) \<and> p ! (i * 4 + 2) = palette_bytes mode ! (i * 4 + 2) \<and>
      p ! (i * 4 + 3) = 255"
proof -
  let ?n = "palettesize mode" and ?d = "palette_rgb mode"
  let ?f = "\<lambda>i. [?d ! (3 * i), ?d ! (3 * i + 1), ?d ! (3 * i + 2), 255]"
  let ?blank = "concat (map (\<lambda>i. [0, 0, 0, 255 :: byte]) [0 ..< 256])"
  define ps where "ps = pixels ?n ?f"
  define p where "p = put_bytes 0 ps ?blank"
  have l: "length ps = ?n * 4" unfolding ps_def by (rule length_pixels) simp
  have lp: "length p = 1024" unfolding p_def using l n length_blank_palette [of 256] by simp
  have at: "p ! (i * 4 + t) = ?f i ! t" if "i < ?n" "t < 4" for i t
  proof -
    have "i * 4 + t < ?n * 4" using that by simp
    then have "p ! (i * 4 + t) = ps ! (i * 4 + t)" by (simp add: p_def put_bytes_def nth_append l del: upt_rec_numeral)
    also have "\<dots> = ?f i ! t" unfolding ps_def using that by (intro nth_pixels) simp_all
    finally show ?thesis .
  qed
  have e: "readChunk_PLTE c ?d = (0, c\<lparr>palettesize := ?n, palette := Some p\<rparr>)"
    using n by (simp add: readChunk_PLTE_def length_palette_rgb Let_def p_def ps_def pixels_def palette_bytes_def
        lodepng_color_mode_alloc_palette_def del: upt_rec_numeral)
  have "p ! (i * 4) = palette_bytes mode ! (i * 4) \<and> p ! (i * 4 + 1) = palette_bytes mode ! (i * 4 + 1) \<and>
      p ! (i * 4 + 2) = palette_bytes mode ! (i * 4 + 2) \<and> p ! (i * 4 + 3) = 255" if "i < ?n" for i
    using at [OF that, of 0] at [OF that, of 1] at [OF that, of 2] at [OF that, of 3]
      nth_palette_rgb [OF that, of 0] nth_palette_rgb [OF that, of 1] nth_palette_rgb [OF that, of 2] by simp
  then show ?thesis using that e lp by blast
qed

text \<open>The alpha values that are left out are those of opaque colours.\<close>

lemma alpha_amount_le: "alpha_amount p n \<le> n"
  by (induction n) auto

lemma alpha_amount_rest: "alpha_amount p n \<le> i \<Longrightarrow> i < n \<Longrightarrow> p ! (4 * i + 3) = 255"
proof (induction n)
  case (Suc n)
  show ?case
  proof (cases "i = n")
    case True
    then show ?thesis using Suc.prems(1) by (auto split: if_splits)
  next
    case False
    then show ?thesis using Suc by (auto split: if_splits)
  qed
qed simp

definition set_alpha :: "bytes \<Rightarrow> nat \<Rightarrow> bytes \<Rightarrow> bytes" where
  "set_alpha d m p = fold (\<lambda>i p. p[4 * i + 3 := d ! i]) [0 ..< m] p"

lemma set_alpha_Suc: "set_alpha d (Suc m) p = (set_alpha d m p)[4 * m + 3 := d ! m]"
  by (simp add: set_alpha_def)

lemma length_set_alpha [simp]: "length (set_alpha d m p) = length p"
  by (induction m) (simp_all add: set_alpha_Suc, simp add: set_alpha_def)

lemma set_alpha_at: "i < m \<Longrightarrow> 4 * m \<le> length p \<Longrightarrow> set_alpha d m p ! (4 * i + 3) = d ! i"
  by (induction m) (auto simp: set_alpha_Suc nth_list_update less_Suc_eq)

lemma set_alpha_other: "(\<And>i. i < m \<Longrightarrow> j \<noteq> 4 * i + 3) \<Longrightarrow> set_alpha d m p ! j = p ! j"
proof (induction m)
  case (Suc m)
  have "j \<noteq> 4 * m + 3" "\<And>i. i < m \<Longrightarrow> j \<noteq> 4 * i + 3" using Suc.prems [of m] Suc.prems by simp_all
  then show ?case using Suc.IH by (simp add: set_alpha_Suc)
qed (simp add: set_alpha_def)

text \<open>The data of the chunks that describe the colour mode.\<close>

definition tRNS_data :: "LodePNGColorMode \<Rightarrow> bytes" where
  "tRNS_data mode =
     (if colortype mode = LCT_PALETTE then
        map (\<lambda>i. palette_bytes mode ! (4 * i + 3)) [0 ..< alpha_amount (palette_bytes mode) (palettesize mode)]
      else if colortype mode = LCT_GREY \<and> key_defined mode then two_bytes (key_r mode)
      else if colortype mode = LCT_RGB \<and> key_defined mode
      then two_bytes (key_r mode) @ two_bytes (key_g mode) @ two_bytes (key_b mode)
      else [])"

definition color_chunks :: "LodePNGColorMode \<Rightarrow> (bytes \<times> bytes) list" where
  "color_chunks mode =
     (if colortype mode = LCT_PALETTE then [(PLTE_type, palette_rgb mode)] else []) @
     (if tRNS_data mode \<noteq> [] then [(tRNS_type, tRNS_data mode)] else [])"

text \<open>What is needed of a mode: the palette is whole, and the parts of the key have 16 bits.\<close>

definition mode_ok :: "LodePNGColorMode \<Rightarrow> bool" where
  "mode_ok mode \<longleftrightarrow> checkColorValidity (colortype mode) (bitdepth mode) = 0 \<and>
     (colortype mode = LCT_PALETTE \<longrightarrow> palettesize mode \<noteq> 0 \<and> palettesize mode \<le> 256 \<and>
        length (palette_bytes mode) = 1024) \<and>
     (key_defined mode \<longrightarrow> take_bit 16 (key_r mode) = key_r mode \<and> take_bit 16 (key_g mode) = key_g mode \<and>
        take_bit 16 (key_b mode) = key_b mode)"

text \<open>What the decoder has of the mode after the header, and after the chunks.\<close>

definition bare_mode :: "LodePNGColorMode \<Rightarrow> LodePNGColorMode" where
  "bare_mode mode = lodepng_color_mode_init\<lparr>bitdepth := bitdepth mode, colortype := colortype mode\<rparr>"

definition read_back :: "LodePNGColorMode \<Rightarrow> LodePNGColorMode \<Rightarrow> bool" where
  "read_back mode mode' \<longleftrightarrow> same_colors mode mode' \<and>
     (colortype mode = LCT_PALETTE \<longrightarrow> palettesize mode' = palettesize mode \<and> \<not> key_defined mode' \<and>
        (\<exists>p. palette mode' = Some p \<and> length p = 1024)) \<and>
     (colortype mode \<noteq> LCT_PALETTE \<longrightarrow> palettesize mode' = 0 \<and> palette mode' = None) \<and>
     (colortype mode \<noteq> LCT_GREY \<and> colortype mode \<noteq> LCT_RGB \<longrightarrow> \<not> key_defined mode')"

lemma length_two_bytes [simp]: "length (two_bytes v) = 2"
  by (simp add: two_bytes_def)

lemma palette_chunks_read:
  assumes ok: "mode_ok mode" and pal: "colortype mode = LCT_PALETTE"
  obtains c1 c2 where "readChunk_PLTE (bare_mode mode) (palette_rgb mode) = (0, c1)"
    "readChunk_tRNS c1 (tRNS_data mode) = (0, c2)" "tRNS_data mode = [] \<Longrightarrow> c2 = c1" "read_back mode c2"
proof -
  let ?n = "palettesize mode" and ?P = "palette_bytes mode"
  have n: "0 < ?n" "?n \<le> 256" "length ?P = 1024" using ok pal by (simp_all add: mode_ok_def)
  obtain p where p: "readChunk_PLTE (bare_mode mode) (palette_rgb mode) =
      (0, (bare_mode mode)\<lparr>palettesize := ?n, palette := Some p\<rparr>)" "length p = 1024"
    "\<And>i. i < ?n \<Longrightarrow> p ! (i * 4) = ?P ! (i * 4) \<and> p ! (i * 4 + 1) = ?P ! (i * 4 + 1) \<and>
      p ! (i * 4 + 2) = ?P ! (i * 4 + 2) \<and> p ! (i * 4 + 3) = 255"
    using readChunk_PLTE_written [OF n(1,2), of "bare_mode mode"] by blast
  let ?a = "alpha_amount ?P ?n" let ?d = "tRNS_data mode"
  have d: "?d = map (\<lambda>i. ?P ! (4 * i + 3)) [0 ..< ?a]" using pal by (simp add: tRNS_data_def)
  have a: "?a \<le> ?n" "length ?d = ?a" by (simp_all add: alpha_amount_le d)
  define q where "q = set_alpha ?d ?a p"
  let ?c1 = "(bare_mode mode)\<lparr>palettesize := ?n, palette := Some p\<rparr>" and ?c2 = "(bare_mode mode)\<lparr>palettesize := ?n, palette := Some q\<rparr>"
  have ct: "colortype ?c1 = LCT_PALETTE" using pal by (simp add: bare_mode_def)
  have t: "readChunk_tRNS ?c1 ?d = (0, ?c2)"
    using a ct by (simp add: readChunk_tRNS_def q_def set_alpha_def)
  have q: "q ! (i * 4 + k) = ?P ! (i * 4 + k)" if i: "i < ?n" "k < 4" for i k
  proof (cases "k = 3")
    case True
    show ?thesis
    proof (cases "i < ?a")
      case yes: True
      have "q ! (4 * i + 3) = ?d ! i" unfolding q_def by (rule set_alpha_at [OF yes]) (use a n p(2) in linarith)
      then show ?thesis using yes True by (simp add: d mult.commute)
    next
      case False
      have "q ! (4 * i + 3) = p ! (4 * i + 3)" unfolding q_def by (rule set_alpha_other) (use False in simp)
      then show ?thesis using p(3) [OF i(1)] alpha_amount_rest [of ?P ?n i] False i(1) True by (simp add: mult.commute)
    qed
  next
    case False
    have "q ! (i * 4 + k) = p ! (i * 4 + k)"
      unfolding q_def by (rule set_alpha_other) (use False i(2) in presburger)
    moreover have "k = 0 \<or> k = 1 \<or> k = 2" using False i(2) by auto
    ultimately show ?thesis using p(3) [OF i(1)] by auto
  qed
  have same: "same_colors mode ?c2"
  proof -
    have "palette_color ?c2 j = palette_color mode j" if "j < ?n" for j
      using q [OF that, of 0] q [OF that, of 1] q [OF that, of 2] q [OF that, of 3]
      by (simp add: palette_color_def palette_bytes_def [of ?c2] Let_def)
    then show ?thesis using pal by (simp add: same_colors_def bare_mode_def)
  qed
  have "length q = 1024" by (simp add: q_def p(2))
  then have "read_back mode ?c2"
    using same pal by (simp add: read_back_def bare_mode_def lodepng_color_mode_init_def)
  moreover have "?c2 = ?c1" if "?d = []"
  proof -
    have "?a = 0" using that a(2) by simp
    then show ?thesis by (simp add: q_def set_alpha_def)
  qed
  ultimately show ?thesis using that [OF p(1) t] by blast
qed

lemma key_chunk_read:
  assumes ok: "mode_ok mode" and pal: "colortype mode \<noteq> LCT_PALETTE"
  shows "tRNS_data mode \<noteq> [] \<Longrightarrow> \<exists>c. readChunk_tRNS (bare_mode mode) (tRNS_data mode) = (0, c) \<and> read_back mode c"
    "tRNS_data mode = [] \<Longrightarrow> read_back mode (bare_mode mode)"
proof -
  have k: "key_defined mode \<Longrightarrow> be16 (xs @ two_bytes (key_r mode) @ ys) (length xs) = key_r mode"
    "key_defined mode \<Longrightarrow> be16 (xs @ two_bytes (key_g mode) @ ys) (length xs) = key_g mode"
    "key_defined mode \<Longrightarrow> be16 (xs @ two_bytes (key_b mode) @ ys) (length xs) = key_b mode" for xs ys
    using ok by (auto simp: mode_ok_def intro!: be16_two_bytes)
  let ?R = "two_bytes (key_r mode)" and ?G = "two_bytes (key_g mode)" and ?B = "two_bytes (key_b mode)"
  have r: "be16 ?R 0 = key_r mode" "be16 (?R @ ?G @ ?B) 0 = key_r mode" "be16 (?R @ ?G @ ?B) 2 = key_g mode"
    "be16 (?R @ ?G @ ?B) 4 = key_b mode" if "key_defined mode"
    using k(1) [OF that, of "[]" "[]"] k(1) [OF that, of "[]" "?G @ ?B"] k(2) [OF that, of ?R ?B]
      k(3) [OF that, of "?R @ ?G" "[]"] by simp_all
  show "\<exists>c. readChunk_tRNS (bare_mode mode) (tRNS_data mode) = (0, c) \<and> read_back mode c" if "tRNS_data mode \<noteq> []"
    using that pal r unfolding tRNS_data_def
    by (auto simp: readChunk_tRNS_def bare_mode_def read_back_def same_colors_def lodepng_color_mode_init_def split: if_splits)
  show "read_back mode (bare_mode mode)" if "tRNS_data mode = []"
    using that pal unfolding tRNS_data_def
    by (auto simp: bare_mode_def read_back_def same_colors_def lodepng_color_mode_init_def two_bytes_def split: if_splits)
qed

lemma read_color_chunks:
  assumes "mode_ok mode" "color (info_png state) = bare_mode mode" "state_error state = 0"
  obtains mode' where "read_all mem state (color_chunks mode) =
      Some (state\<lparr>info_png := (info_png state)\<lparr>color := mode'\<rparr>\<rparr>)" "read_back mode mode'"
proof -
  have ty: "tRNS_type \<noteq> PLTE_type" by (simp add: chunk_types)
  have n: "state\<lparr>info_png := (info_png state)\<lparr>color := bare_mode mode\<rparr>\<rparr> = state"
    unfolding assms(2) [symmetric] by simp
  show ?thesis
  proof (cases "colortype mode = LCT_PALETTE")
    case True
    obtain c1 c2 where c: "readChunk_PLTE (bare_mode mode) (palette_rgb mode) = (0, c1)"
      "readChunk_tRNS c1 (tRNS_data mode) = (0, c2)" "tRNS_data mode = [] \<Longrightarrow> c2 = c1" "read_back mode c2"
      using palette_chunks_read [OF assms(1) True] by blast
    show ?thesis
      by (rule that [OF _ c(4)])
        (use True c assms(2,3) ty in \<open>auto simp: color_chunks_def read_typed_def lift_color_def Let_def\<close>)
  next
    case False
    note k = key_chunk_read [OF assms(1) False]
    show ?thesis
    proof (cases "tRNS_data mode = []")
      case True
      show ?thesis by (rule that [OF _ k(2) [OF True]]) (use True False n in \<open>simp add: color_chunks_def\<close>)
    next
      case no: False
      obtain c where c: "readChunk_tRNS (bare_mode mode) (tRNS_data mode) = (0, c)" "read_back mode c" using k(1) [OF no] by blast
      show ?thesis
        by (rule that [OF _ c(2)])
          (use no False c assms(2,3) ty in \<open>auto simp: color_chunks_def read_typed_def lift_color_def Let_def\<close>)
    qed
  qed
qed

end
