(* ===== verification/Png_Meta.thy ===== *)
theory Png_Meta
  imports Png_Parse
begin

unbundle bit_operations_syntax

text \<open>
  The chunks about gamma, chromaticities, rendering intent, physical size and time: what they contain
  is read back as it was.
\<close>

section \<open>The chunks of a record\<close>

definition srgb_chunks :: "LodePNGInfo \<Rightarrow> (bytes \<times> bytes) list" where
  "srgb_chunks info = (if srgb_defined info then [(sRGB_type, [ucast (srgb_intent info)])] else [])"

definition gama_chunks :: "LodePNGInfo \<Rightarrow> (bytes \<times> bytes) list" where
  "gama_chunks info = (if gama_defined info then [(gAMA_type, lodepng_set32bitInt (gama_gamma info))] else [])"

definition chrm_data :: "LodePNGInfo \<Rightarrow> bytes" where
  "chrm_data info = concat (map lodepng_set32bitInt
     [chrm_white_x info, chrm_white_y info, chrm_red_x info, chrm_red_y info,
      chrm_green_x info, chrm_green_y info, chrm_blue_x info, chrm_blue_y info])"

definition chrm_chunks :: "LodePNGInfo \<Rightarrow> (bytes \<times> bytes) list" where
  "chrm_chunks info = (if chrm_defined info then [(cHRM_type, chrm_data info)] else [])"

definition phys_chunks :: "LodePNGInfo \<Rightarrow> (bytes \<times> bytes) list" where
  "phys_chunks info = (if phys_defined info
     then [(pHYs_type, lodepng_set32bitInt (phys_x info) @ lodepng_set32bitInt (phys_y info) @ [ucast (phys_unit info)])]
     else [])"

definition time_data :: "LodePNGTime \<Rightarrow> bytes" where
  "time_data t = two_bytes (year t) @ [ucast (month t), ucast (day t), ucast (hour t), ucast (minute t), ucast (second t)]"

definition time_chunks :: "LodePNGInfo \<Rightarrow> (bytes \<times> bytes) list" where
  "time_chunks info = (if time_defined info then [(tIME_type, time_data (time info))] else [])"

text \<open>The values fit into their fields of the file.\<close>

definition meta_ok :: "LodePNGInfo \<Rightarrow> bool" where
  "meta_ok info \<longleftrightarrow> (srgb_defined info \<longrightarrow> unat (srgb_intent info) < 256) \<and>
     (phys_defined info \<longrightarrow> unat (phys_unit info) < 256) \<and>
     (time_defined info \<longrightarrow> take_bit 16 (year (time info)) = year (time info) \<and> unat (month (time info)) < 256 \<and>
        unat (day (time info)) < 256 \<and> unat (hour (time info)) < 256 \<and> unat (minute (time info)) < 256 \<and>
        unat (second (time info)) < 256)"

section \<open>Reading them\<close>

definition with_srgb :: "LodePNGInfo \<Rightarrow> LodePNGInfo \<Rightarrow> LodePNGInfo" where
  "with_srgb info i = (if srgb_defined info then i\<lparr>srgb_defined := True, srgb_intent := srgb_intent info\<rparr> else i)"

definition with_gama :: "LodePNGInfo \<Rightarrow> LodePNGInfo \<Rightarrow> LodePNGInfo" where
  "with_gama info i = (if gama_defined info then i\<lparr>gama_defined := True, gama_gamma := gama_gamma info\<rparr> else i)"

definition with_chrm :: "LodePNGInfo \<Rightarrow> LodePNGInfo \<Rightarrow> LodePNGInfo" where
  "with_chrm info i = (if chrm_defined info
     then i\<lparr>chrm_defined := True, chrm_white_x := chrm_white_x info, chrm_white_y := chrm_white_y info,
       chrm_red_x := chrm_red_x info, chrm_red_y := chrm_red_y info, chrm_green_x := chrm_green_x info,
       chrm_green_y := chrm_green_y info, chrm_blue_x := chrm_blue_x info, chrm_blue_y := chrm_blue_y info\<rparr>
     else i)"

definition with_phys :: "LodePNGInfo \<Rightarrow> LodePNGInfo \<Rightarrow> LodePNGInfo" where
  "with_phys info i = (if phys_defined info
     then i\<lparr>phys_defined := True, phys_x := phys_x info, phys_y := phys_y info, phys_unit := phys_unit info\<rparr> else i)"

definition with_time :: "LodePNGInfo \<Rightarrow> LodePNGInfo \<Rightarrow> LodePNGInfo" where
  "with_time info i = (if time_defined info then i\<lparr>time_defined := True, time := time info\<rparr> else i)"

lemma types_differ [simp]:
  "sRGB_type \<noteq> PLTE_type" "sRGB_type \<noteq> tRNS_type" "sRGB_type \<noteq> bKGD_type" "sRGB_type \<noteq> tEXt_type" "sRGB_type \<noteq> zTXt_type"
  "sRGB_type \<noteq> iTXt_type" "sRGB_type \<noteq> tIME_type" "sRGB_type \<noteq> pHYs_type" "sRGB_type \<noteq> gAMA_type" "sRGB_type \<noteq> cHRM_type"
  "gAMA_type \<noteq> PLTE_type" "gAMA_type \<noteq> tRNS_type" "gAMA_type \<noteq> bKGD_type" "gAMA_type \<noteq> tEXt_type" "gAMA_type \<noteq> zTXt_type"
  "gAMA_type \<noteq> iTXt_type" "gAMA_type \<noteq> tIME_type" "gAMA_type \<noteq> pHYs_type"
  "cHRM_type \<noteq> PLTE_type" "cHRM_type \<noteq> tRNS_type" "cHRM_type \<noteq> bKGD_type" "cHRM_type \<noteq> tEXt_type" "cHRM_type \<noteq> zTXt_type"
  "cHRM_type \<noteq> iTXt_type" "cHRM_type \<noteq> tIME_type" "cHRM_type \<noteq> pHYs_type" "cHRM_type \<noteq> gAMA_type"
  "pHYs_type \<noteq> PLTE_type" "pHYs_type \<noteq> tRNS_type" "pHYs_type \<noteq> bKGD_type" "pHYs_type \<noteq> tEXt_type" "pHYs_type \<noteq> zTXt_type"
  "pHYs_type \<noteq> iTXt_type" "pHYs_type \<noteq> tIME_type"
  "tIME_type \<noteq> PLTE_type" "tIME_type \<noteq> tRNS_type" "tIME_type \<noteq> bKGD_type" "tIME_type \<noteq> tEXt_type" "tIME_type \<noteq> zTXt_type"
  "tIME_type \<noteq> iTXt_type"
  by (simp_all add: chunk_types)

lemma state_same: "state_error state = 0 \<Longrightarrow> state\<lparr>info_png := info_png state\<rparr> = state"
  "state_error state = 0 \<Longrightarrow> state\<lparr>info_png := i, state_error := 0\<rparr> = state\<lparr>info_png := i\<rparr>"
  by simp_all

lemma read_srgb:
  assumes "meta_ok info" "state_error state = 0"
  shows "read_all mem state (srgb_chunks info) = Some (state\<lparr>info_png := with_srgb info (info_png state)\<rparr>)"
  using assms by (simp add: srgb_chunks_def with_srgb_def read_typed_def readChunk_sRGB_def lift_info_def meta_ok_def
      byte_up Let_def state_same)

lemma read_gama:
  assumes "state_error state = 0"
  shows "read_all mem state (gama_chunks info) = Some (state\<lparr>info_png := with_gama info (info_png state)\<rparr>)"
  using assms be32_set32 [of "[]" 0 "gama_gamma info" "[]"]
  by (simp add: gama_chunks_def with_gama_def read_typed_def readChunk_gAMA_def lift_info_def Let_def state_same)

lemma read_phys:
  assumes "meta_ok info" "state_error state = 0"
  shows "read_all mem state (phys_chunks info) = Some (state\<lparr>info_png := with_phys info (info_png state)\<rparr>)"
proof -
  let ?x = "lodepng_set32bitInt (phys_x info)" and ?y = "lodepng_set32bitInt (phys_y info)" and ?u = "[ucast (phys_unit info) :: byte]"
  have "be32 (?x @ ?y @ ?u) 0 = phys_x info" "be32 (?x @ ?y @ ?u) 4 = phys_y info"
    using be32_set32 [of "[]" 0 "phys_x info" "?y @ ?u"] be32_set32 [of ?x 4 "phys_y info" ?u] by simp_all
  moreover have "(?x @ ?y @ ?u) ! 8 = ucast (phys_unit info)" by (simp add: nth_append)
  ultimately show ?thesis
    using assms by (simp add: phys_chunks_def with_phys_def read_typed_def readChunk_pHYs_def lift_info_def
      Let_def state_same meta_ok_def byte_up)
qed

lemma read_chrm:
  assumes "state_error state = 0"
  shows "read_all mem state (chrm_chunks info) = Some (state\<lparr>info_png := with_chrm info (info_png state)\<rparr>)"
proof -
  let ?s = "lodepng_set32bitInt"
  have c: "chrm_data info = ?s (chrm_white_x info) @ ?s (chrm_white_y info) @ ?s (chrm_red_x info) @ ?s (chrm_red_y info) @
      ?s (chrm_green_x info) @ ?s (chrm_green_y info) @ ?s (chrm_blue_x info) @ ?s (chrm_blue_y info)"
    by (simp add: chrm_data_def)
  have at: "be32 (concat (map ?s vs) @ ?s v @ rest) (4 * length vs) = v" for vs v rest
    by (rule be32_set32) (induction vs, simp_all)
  have "be32 (chrm_data info) 0 = chrm_white_x info" "be32 (chrm_data info) 4 = chrm_white_y info"
    "be32 (chrm_data info) 8 = chrm_red_x info" "be32 (chrm_data info) 12 = chrm_red_y info"
    "be32 (chrm_data info) 16 = chrm_green_x info" "be32 (chrm_data info) 20 = chrm_green_y info"
    "be32 (chrm_data info) 24 = chrm_blue_x info" "be32 (chrm_data info) 28 = chrm_blue_y info"
    unfolding c
    using at [of "[]"] at [of "[chrm_white_x info]"] at [of "[chrm_white_x info, chrm_white_y info]"]
      at [of "[chrm_white_x info, chrm_white_y info, chrm_red_x info]"]
      at [of "[chrm_white_x info, chrm_white_y info, chrm_red_x info, chrm_red_y info]"]
      at [of "[chrm_white_x info, chrm_white_y info, chrm_red_x info, chrm_red_y info, chrm_green_x info]"]
      at [of "[chrm_white_x info, chrm_white_y info, chrm_red_x info, chrm_red_y info, chrm_green_x info, chrm_green_y info]"]
      at [of "[chrm_white_x info, chrm_white_y info, chrm_red_x info, chrm_red_y info, chrm_green_x info, chrm_green_y info,
        chrm_blue_x info]" "chrm_blue_y info" "[]"]
    by simp_all
  moreover have "length (chrm_data info) = 32" by (simp add: c)
  ultimately show ?thesis
    using assms by (simp add: chrm_chunks_def with_chrm_def read_typed_def readChunk_cHRM_def lift_info_def
      Let_def state_same)
qed

lemma read_time:
  assumes "meta_ok info" "state_error state = 0"
  shows "read_all mem state (time_chunks info) = Some (state\<lparr>info_png := with_time info (info_png state)\<rparr>)"
proof (cases "time_defined info")
  case True
  have "be16 (two_bytes (year (time info)) @ ys) 0 = year (time info)" for ys
    using be16_two_bytes [of "year (time info)" "[]" 0 ys] assms(1) True by (simp add: meta_ok_def)
  then show ?thesis
    using assms True by (simp add: time_chunks_def with_time_def read_typed_def readChunk_tIME_def lift_info_def
      Let_def state_same meta_ok_def byte_up time_data_def nth_append)
qed (simp add: time_chunks_def with_time_def)

end
