(* ===== verification/Png_File.thy ===== *)
theory Png_File
  imports Png_Meta
begin

unbundle bit_operations_syntax

text \<open>
  Whole files: the chunks that the encoder writes for an image, and what the decoder makes of them.
  An RGBA image with 8 bits per channel comes back as it was, whatever colour mode was chosen for the
  file, with the metadata that was given.
\<close>

section \<open>What the writers append\<close>

definition appends :: "writer list \<Rightarrow> (bytes \<times> bytes) list \<Rightarrow> bool" where
  "appends writes cs \<longleftrightarrow> (\<forall>out. length out + length (chunks_bytes cs) < 2 ^ 63 \<longrightarrow>
     run_writers writes out = Some (0, out @ chunks_bytes cs))"

lemma appends_Nil: "appends [] []"
  by (simp add: appends_def)

lemma run_writers_append:
  "run_writers (ws @ ws') out = (case run_writers ws out of None \<Rightarrow> None
     | Some (e, out) \<Rightarrow> if e \<noteq> 0 then Some (e, out) else run_writers ws' out)"
  by (induction ws arbitrary: out) (auto split: option.split)

lemma appends_append: "appends ws cs \<Longrightarrow> appends ws' cs' \<Longrightarrow> appends (ws @ ws') (cs @ cs')"
  by (simp add: appends_def run_writers_append)

lemma appends_chunk:
  assumes "chunk_ok type data" "\<And>out. write out = put_chunk mem type data out \<or> write out = create_chunk mem type data out"
  shows "appends [write] [(type, data)]"
proof -
  have "write out = Some (0, out @ chunk_bytes type data)" if "length out + length (chunk_bytes type data) < 2 ^ 63" for out
  proof -
    have room: "length out + length data + 12 < 2 ^ 64" using that length_chunk_bytes [OF assms(1)] by simp
    show ?thesis
      using assms(2) [of out] put_chunk_appends [OF assms(1) room] create_chunk_appends [OF assms(1) room] by auto
  qed
  then show ?thesis by (simp add: appends_def)
qed

lemma appends_if: "(b \<Longrightarrow> appends [write] cs) \<Longrightarrow> appends (write_if b write) (if b then cs else [])"
  by (simp add: write_if_def appends_Nil)

lemma appends_chunk_if:
  assumes "chunk_ok type data" "\<And>out. write out = put_chunk mem type data out \<or> write out = create_chunk mem type data out"
  shows "appends (write_if b write) (if b then [(type, data)] else [])"
  by (rule appends_if, rule appends_chunk [OF assms])

lemma appends_none: "(\<And>out. write out = Some (0, out)) \<Longrightarrow> appends [write] []"
  by (simp add: appends_def)

section \<open>The chunks of a file\<close>

lemma length_time_data [simp]: "length (time_data t) = 7"
  by (simp add: time_data_def)

lemma length_chrm_data [simp]: "length (chrm_data info) = 32"
  by (simp add: chrm_data_def)

lemma length_header_data [simp]: "length (header_data w h ct bd il) = 13"
  by (simp add: header_data_def)

lemma chunks_written:
  "appends [addChunk_IHDR mem w h ct bd il] [(IHDR_type, header_data w h ct bd il)]"
  "appends (write_if (srgb_defined info) (addChunk_sRGB mem info)) (srgb_chunks info)"
  "appends (write_if (gama_defined info) (addChunk_gAMA mem info)) (gama_chunks info)"
  "appends (write_if (chrm_defined info) (addChunk_cHRM mem info)) (chrm_chunks info)"
  "appends (write_if (phys_defined info) (addChunk_pHYs mem info)) (phys_chunks info)"
  "appends (write_if (time_defined info) (addChunk_tIME mem (time info))) (time_chunks info)"
  "appends [addChunk_IEND mem] [(IEND_type, [])]"
  unfolding srgb_chunks_def gama_chunks_def chrm_chunks_def phys_chunks_def time_chunks_def
  by (rule appends_chunk [where mem = mem] appends_chunk_if [where mem = mem];
      simp add: chunk_ok_def addChunk_IHDR_def addChunk_sRGB_def addChunk_gAMA_def addChunk_cHRM_def
        addChunk_pHYs_def addChunk_tIME_def addChunk_IEND_def header_data_def chrm_data_def time_data_def)+

lemma tRNS_written:
  assumes "mode_ok mode"
  shows "appends [addChunk_tRNS mem mode] (if tRNS_data mode \<noteq> [] then [(tRNS_type, tRNS_data mode)] else [])"
proof (cases "tRNS_data mode = []")
  case True
  then have "addChunk_tRNS mem mode out = Some (0, out)" for out
    by (auto simp: addChunk_tRNS_def tRNS_data_def two_bytes_def Let_def split: if_splits)
  then show ?thesis using True appends_none by simp
next
  case False
  then have "addChunk_tRNS mem mode out = put_chunk mem tRNS_type (tRNS_data mode) out" for out
    by (auto simp: addChunk_tRNS_def tRNS_data_def Let_def split: if_splits)
  moreover have "length (tRNS_data mode) \<le> 256"
    using assms alpha_amount_le [of "palette_bytes mode" "palettesize mode"]
    by (auto simp: tRNS_data_def mode_ok_def)
  then have "chunk_ok tRNS_type (tRNS_data mode)" by (simp add: chunk_ok_def)
  ultimately show ?thesis using False appends_chunk [of tRNS_type "tRNS_data mode" "addChunk_tRNS mem mode" mem] by simp
qed

lemma colors_written:
  assumes "mode_ok mode" "\<not> force"
  shows "appends (write_if (colortype mode = LCT_PALETTE) (addChunk_PLTE mem mode) @
      write_if (force \<and> (colortype mode = LCT_RGB \<or> colortype mode = LCT_RGBA)) (addChunk_PLTE mem mode) @
      [addChunk_tRNS mem mode]) (color_chunks mode)"
proof -
  have "appends (write_if (colortype mode = LCT_PALETTE) (addChunk_PLTE mem mode))
      (if colortype mode = LCT_PALETTE then [(PLTE_type, palette_rgb mode)] else [])"
    by (rule appends_if, rule appends_chunk [where mem = mem])
      (use assms in \<open>simp_all add: chunk_ok_def length_palette_rgb mode_ok_def addChunk_PLTE_def\<close>)
  moreover have "write_if (force \<and> (colortype mode = LCT_RGB \<or> colortype mode = LCT_RGBA)) (addChunk_PLTE mem mode) = []"
    using assms(2) by (simp add: write_if_def)
  ultimately show ?thesis
    using appends_append [OF _ tRNS_written [OF assms(1)]] by (simp add: color_chunks_def)
qed

text \<open>An image without texts, a colour profile, a background colour or unknown chunks.\<close>

definition plain_info :: "LodePNGInfo \<Rightarrow> bool" where
  "plain_info info \<longleftrightarrow> \<not> iccp_defined info \<and> \<not> background_defined info \<and> texts info = [] \<and> itexts info = [] \<and>
     unknown_chunks_data info = [[], [], []] \<and> interlace_method info = 0 \<and> meta_ok info"

definition front_chunks :: "LodePNGInfo \<Rightarrow> (bytes \<times> bytes) list" where
  "front_chunks info = srgb_chunks info @ gama_chunks info @ chrm_chunks info @ color_chunks (color info) @ phys_chunks info"

definition file_chunks :: "nat \<Rightarrow> nat \<Rightarrow> LodePNGInfo \<Rightarrow> bytes \<Rightarrow> (bytes \<times> bytes) list" where
  "file_chunks w h info z =
     [(IHDR_type, header_data w h (colortype (color info)) (bitdepth (color info)) 0)] @ front_chunks info @
     [(IDAT_type, z)] @ time_chunks info @ [(IEND_type, [])]"

lemma file_written:
  assumes info: "plain_info info" "mode_ok (color info)" and enc: "\<not> force_palette enc" "\<not> add_id enc"
    and z: "zlib_compress (un_words un) data (zlibsettings enc) = Some (Inr z)" "length z < 2 ^ 31"
    and short: "length (chunks_bytes (file_chunks w h info z)) < 2 ^ 62"
  shows "run_writers (chunk_writers un enc w h info data) [] =
    Some (0, png_signature @ chunks_bytes (file_chunks w h info z))"
proof -
  let ?mem = "un_bytes un" and ?mode = "color info"
  let ?W = "[addChunk_IHDR ?mem w h (colortype ?mode) (bitdepth ?mode) 0] @
      (write_if (srgb_defined info) (addChunk_sRGB ?mem info) @ write_if (gama_defined info) (addChunk_gAMA ?mem info) @
       write_if (chrm_defined info) (addChunk_cHRM ?mem info) @
       (write_if (colortype ?mode = LCT_PALETTE) (addChunk_PLTE ?mem ?mode) @
        write_if (force_palette enc \<and> (colortype ?mode = LCT_RGB \<or> colortype ?mode = LCT_RGBA)) (addChunk_PLTE ?mem ?mode) @
        [addChunk_tRNS ?mem ?mode]) @
       write_if (phys_defined info) (addChunk_pHYs ?mem info)) @
      [addChunk_IDAT (un_words un) ?mem data (zlibsettings enc)] @
      write_if (time_defined info) (addChunk_tIME ?mem (time info)) @ [addChunk_IEND ?mem]"
  have "chunk_writers un enc w h info data = writeSignature # ?W"
    using info(1) enc(2) by (simp add: chunk_writers_def plain_info_def unknown_writer_def text_writers_def write_if_def Let_def)
  moreover have "appends [addChunk_IDAT (un_words un) ?mem data (zlibsettings enc)] [(IDAT_type, z)]"
    by (rule appends_chunk [where mem = ?mem]) (use z in \<open>simp_all add: chunk_ok_def addChunk_IDAT_def\<close>)
  then have "appends ?W (file_chunks w h info z)"
    unfolding file_chunks_def front_chunks_def
    by (intro appends_append chunks_written colors_written [OF info(2) enc(1)])
  ultimately show ?thesis using short by (simp add: appends_def writeSignature_def)
qed

section \<open>Reading the chunks\<close>

lemma length_tRNS: "mode_ok mode \<Longrightarrow> length (tRNS_data mode) \<le> 256"
  using alpha_amount_le [of "palette_bytes mode" "palettesize mode"] by (auto simp: tRNS_data_def mode_ok_def)

lemma plain_types: "plain_chunk text (type, data) \<longleftrightarrow> length data < 2 ^ 31"
  if "type \<in> {sRGB_type, gAMA_type, cHRM_type, pHYs_type, tIME_type, PLTE_type, tRNS_type}"
  using that by (elim insertE emptyE) (simp_all add: plain_chunk_def chunk_ok_def chunk_types)

lemma plain_chunks:
  assumes "mode_ok (color info)"
  shows "list_all (plain_chunk text) (front_chunks info)" "list_all (plain_chunk text) (time_chunks info)"
proof -
  have "list_all (plain_chunk text) (srgb_chunks info)" "list_all (plain_chunk text) (gama_chunks info)"
    "list_all (plain_chunk text) (chrm_chunks info)" "list_all (plain_chunk text) (phys_chunks info)"
    "list_all (plain_chunk text) (time_chunks info)"
    by (simp_all add: srgb_chunks_def gama_chunks_def chrm_chunks_def phys_chunks_def time_chunks_def plain_types)
  moreover have "list_all (plain_chunk text) (color_chunks (color info))"
    using length_tRNS [OF assms] assms by (auto simp: color_chunks_def plain_types length_palette_rgb mode_ok_def)
  ultimately show "list_all (plain_chunk text) (front_chunks info)" "list_all (plain_chunk text) (time_chunks info)"
    by (simp_all add: front_chunks_def)
qed

lemma length_chunks_bytes:
  "list_all (plain_chunk text) cs \<Longrightarrow> length (chunks_bytes cs) = (\<Sum>c \<leftarrow> cs. length (snd c) + 12)"
  by (induction cs) (auto simp: plain_chunk_def length_chunk_bytes)

lemma length_file_chunks:
  assumes "mode_ok (color info)" "length z < 2 ^ 31"
  shows "length (chunks_bytes (file_chunks w h info z)) \<le> length z + 2000"
proof -
  let ?n = "\<lambda>cs :: (bytes \<times> bytes) list. \<Sum>c \<leftarrow> cs. length (snd c) + 12"
  have "?n (srgb_chunks info) \<le> 13" "?n (gama_chunks info) \<le> 16" "?n (chrm_chunks info) \<le> 44"
    "?n (phys_chunks info) \<le> 21" "?n (time_chunks info) \<le> 19"
    by (simp_all add: srgb_chunks_def gama_chunks_def chrm_chunks_def phys_chunks_def time_chunks_def)
  moreover have "?n (color_chunks (color info)) \<le> 1048"
    using length_tRNS [OF assms(1)] assms(1) by (auto simp: color_chunks_def length_palette_rgb mode_ok_def)
  ultimately have "?n (front_chunks info) \<le> 1500" "?n (time_chunks info) \<le> 19" by (simp_all add: front_chunks_def)
  then have "length (chunks_bytes (front_chunks info)) \<le> 1500" "length (chunks_bytes (time_chunks info)) \<le> 19"
    by (simp_all only: length_chunks_bytes [OF plain_chunks(1) [OF assms(1)]] length_chunks_bytes [OF plain_chunks(2) [OF assms(1)]])
  then show ?thesis using assms(2) by (simp add: file_chunks_def length_chunk_bytes chunk_ok_def)
qed

text \<open>The record that the decoder has after the chunks.\<close>

definition decoded :: "LodePNGInfo \<Rightarrow> LodePNGColorMode \<Rightarrow> LodePNGInfo \<Rightarrow> LodePNGInfo" where
  "decoded info mode i =
     with_time info (with_phys info ((with_chrm info (with_gama info (with_srgb info i)))\<lparr>color := mode\<rparr>))"

lemma with_color [simp]:
  "color (with_srgb info i) = color i" "color (with_gama info i) = color i" "color (with_chrm info i) = color i"
  by (simp_all add: with_srgb_def with_gama_def with_chrm_def)

lemma color_decoded [simp]: "color (decoded info mode i) = mode" "interlace_method (decoded info mode i) = interlace_method i"
  by (simp_all add: decoded_def with_time_def with_phys_def with_srgb_def with_gama_def with_chrm_def)

lemma read_front:
  assumes ok: "meta_ok info" "mode_ok (color info)" and state: "color (info_png state) = bare_mode (color info)" "state_error state = 0"
  obtains mode where "read_all mem state (front_chunks info) =
      Some (state\<lparr>info_png := with_phys info ((with_chrm info (with_gama info (with_srgb info (info_png state))))\<lparr>color := mode\<rparr>)\<rparr>)"
    "read_back (color info) mode"
proof -
  let ?i = "with_chrm info (with_gama info (with_srgb info (info_png state)))"
  let ?st = "state\<lparr>info_png := ?i\<rparr>"
  have "color (info_png ?st) = bare_mode (color info)" "state_error ?st = 0" using state by simp_all
  from read_color_chunks [OF ok(2) this, of mem] obtain mode where
    "read_all mem ?st (color_chunks (color info)) = Some (?st\<lparr>info_png := (info_png ?st)\<lparr>color := mode\<rparr>\<rparr>)" "read_back (color info) mode" .
  then show ?thesis
    using that [of mode] ok(1) state(2)
    by (simp add: front_chunks_def read_all_append read_srgb read_gama read_chrm read_phys)
qed

lemma decode_file_chunks:
  assumes ok: "meta_ok info" "mode_ok (color info)" "chunk_ok IDAT_type z"
    and png: "png = png_signature @ chunks_bytes (file_chunks w h info z)"
    and state: "color (info_png state) = bare_mode (color info)" "state_error state = 0"
  obtains s mode where
    "decode_loop mem png \<lparr>dc_chunk = 33, dc_idat = [], dc_critical_pos = 1, dc_state = state\<rparr> = Some s"
    "dc_idat s = z" "read_back (color info) mode" "dc_state s = state\<lparr>info_png := decoded info mode (info_png state)\<rparr>"
proof -
  have z: "length z < 2 ^ 31" using ok(3) by (simp add: chunk_ok_def)
  have l: "length png < 2 ^ 64" using length_file_chunks [OF ok(2) z, of w h] z by (simp add: png)
  let ?H = "header_data w h (colortype (color info)) (bitdepth (color info)) 0" let ?F = "front_chunks info" and ?T = "time_chunks info"
  let ?pre = "png_signature @ chunk_bytes IHDR_type ?H"
  let ?s = "\<lparr>dc_chunk = 33, dc_idat = [], dc_critical_pos = 1, dc_state = state\<rparr>"
  obtain mode where front: "read_all mem state ?F = Some (state\<lparr>info_png :=
      with_phys info ((with_chrm info (with_gama info (with_srgb info (info_png state))))\<lparr>color := mode\<rparr>)\<rparr>)" "read_back (color info) mode"
    by (rule read_front [OF ok(1,2) state, of mem])
  let ?st1 = "state\<lparr>info_png := with_phys info ((with_chrm info (with_gama info (with_srgb info (info_png state))))\<lparr>color := mode\<rparr>)\<rparr>"
  let ?st2 = "state\<lparr>info_png := decoded info mode (info_png state)\<rparr>"
  have time: "read_all mem ?st1 ?T = Some ?st2" using read_time [OF ok(1), of ?st1 mem] state(2) by (simp add: decoded_def)
  let ?rest1 = "chunk_bytes IDAT_type z @ chunks_bytes ?T @ chunk_bytes IEND_type []"
  have p1: "png = ?pre @ chunks_bytes ?F @ ?rest1" by (simp add: png file_chunks_def)
  have s1: "dc_chunk ?s = length ?pre" "dc_state ?s = state" by (simp_all add: length_chunk_bytes chunk_ok_def)
  obtain cp where one: "decode_loop mem png ?s = decode_loop mem png
      (?s\<lparr>dc_state := ?st1, dc_critical_pos := cp, dc_chunk := length (?pre @ chunks_bytes ?F)\<rparr>)"
    using decode_all [OF p1 l s1(1)] plain_chunks(1) [OF ok(2)] front(1) s1(2) by metis
  let ?s1 = "?s\<lparr>dc_state := ?st1, dc_critical_pos := cp, dc_chunk := length (?pre @ chunks_bytes ?F)\<rparr>"
  have at1: "at_chunk png (?pre @ chunks_bytes ?F) IDAT_type z (chunks_bytes ?T @ chunk_bytes IEND_type [])"
    using p1 l ok(3) by (simp add: at_chunk_def)
  let ?s2 = "?s1\<lparr>dc_idat := z, dc_critical_pos := 3, dc_chunk := length ((?pre @ chunks_bytes ?F) @ chunk_bytes IDAT_type z)\<rparr>"
  have two: "decode_loop mem png ?s1 = decode_loop mem png ?s2"
    using decode_idat [OF at1, of ?s1] room_at [OF at1] state(2) by simp
  have p2: "png = ((?pre @ chunks_bytes ?F) @ chunk_bytes IDAT_type z) @ chunks_bytes ?T @ chunk_bytes IEND_type []" using p1 by simp
  have s2: "dc_chunk ?s2 = length ((?pre @ chunks_bytes ?F) @ chunk_bytes IDAT_type z)" "read_all mem (dc_state ?s2) ?T = Some ?st2"
    using time by simp_all
  from decode_all [OF p2 l s2(1) plain_chunks(2) [OF ok(2)] s2(2)] obtain cp' where three:
    "decode_loop mem png ?s2 = decode_loop mem png (?s2\<lparr>dc_state := ?st2, dc_critical_pos := cp',
      dc_chunk := length (((?pre @ chunks_bytes ?F) @ chunk_bytes IDAT_type z) @ chunks_bytes ?T)\<rparr>)" by blast
  let ?s3 = "?s2\<lparr>dc_state := ?st2, dc_critical_pos := cp',
      dc_chunk := length (((?pre @ chunks_bytes ?F) @ chunk_bytes IDAT_type z) @ chunks_bytes ?T)\<rparr>"
  have at3: "at_chunk png (((?pre @ chunks_bytes ?F) @ chunk_bytes IDAT_type z) @ chunks_bytes ?T) IEND_type [] []"
    using p2 l by (simp add: at_chunk_def chunk_ok_def)
  have "decode_loop mem png ?s3 = Some ?s3" by (rule decode_iend [OF at3]) (use state(2) in simp_all)
  then have "decode_loop mem png ?s = Some ?s3" using one two three by (simp only:)
  then show ?thesis by (rule that [OF _ _ front(2)]) simp_all
qed

section \<open>The pixels\<close>

definition raw_ok :: "LodePNGColorMode \<Rightarrow> bool" where
  "raw_ok raw \<longleftrightarrow> rgba8_mode raw \<and> \<not> key_defined raw \<and> palettesize raw = 0"

definition small_image :: "nat \<Rightarrow> nat \<Rightarrow> bool" where
  "small_image w h \<longleftrightarrow> 0 < w \<and> 0 < h \<and> h * (4 * w + 1) \<le> 2 ^ 29"

lemma small_sides:
  assumes "small_image w h" shows "w < 2 ^ 27" "h < 2 ^ 27" "w * h < 2 ^ 27"
proof -
  have l: "4 * (w * h) < h * (4 * w + 1)" "w \<le> w * h" "h \<le> w * h" "h * (4 * w + 1) \<le> 536870912"
    using assms by (simp_all add: small_image_def)
  have "w * h < 134217728" using l(1,4) by linarith
  then show p: "w * h < 2 ^ 27" by simp
  show "w < 2 ^ 27" using l(2) p by (rule le_less_trans)
  show "h < 2 ^ 27" using l(3) p by (rule le_less_trans)
qed

lemma valid8_bpp: "valid8 mode \<Longrightarrow> lodepng_get_bpp mode \<le> 32"
  by (erule valid8_cases) (auto simp: group_bits_def getNumColorChannels_def)

lemma small_image_line:
  assumes "small_image w h" "bpp \<le> 32"
  shows "image_size_ok w h bpp" "lodepng_get_raw_size_idat w h bpp \<le> 2 ^ 29"
proof -
  have "w * bpp \<le> 32 * w" "w < 134217728" using assms(2) small_sides(1) [OF assms(1)] by simp_all
  then have l: "(w * bpp + 7) div 8 \<le> 4 * w" "w * bpp + 7 < 4294967296" by linarith+
  have "h * (1 + (w * bpp + 7) div 8) \<le> h * (4 * w + 1)" using l(1) by (intro mult_le_mono2) simp
  also have "\<dots> \<le> 2 ^ 29" using assms(1) by (simp only: small_image_def)
  finally have "h * (1 + (w * bpp + 7) div 8) \<le> 2 ^ 29" .
  then show "image_size_ok w h bpp" "lodepng_get_raw_size_idat w h bpp \<le> 2 ^ 29"
    using l(2) assms(1) raw_size_idat_line [of w bpp]
    by (simp_all add: image_size_ok_def small_image_def lodepng_get_raw_size_idat_def)
qed

lemma equal_modes:
  assumes "raw_ok raw" "colortype mode \<noteq> LCT_PALETTE \<Longrightarrow> palettesize mode = 0" "key_defined mode \<longrightarrow> colortype mode \<in> {LCT_GREY, LCT_RGB}"
  shows "lodepng_color_mode_equal raw mode \<longleftrightarrow> rgba8_mode mode" "lodepng_color_mode_equal mode raw \<longleftrightarrow> rgba8_mode mode"
  using assms by (auto simp: raw_ok_def rgba8_mode_def lodepng_color_mode_equal_def)

lemma pixel8_rgba8: "rgba8_mode raw \<Longrightarrow> rgba8_mode raw' \<Longrightarrow> pixel8 raw img i = pixel8 raw' img i"
  by (simp add: rgba8_mode_def getPixelColorRGBA8_def)

text \<open>The scanlines, and what becomes of them with any mode that was read back.\<close>

definition shows_image :: "bytes \<Rightarrow> nat \<Rightarrow> nat \<Rightarrow> LodePNGColorMode \<Rightarrow> bytes \<Rightarrow> bool" where
  "shows_image fs w h mode img \<longleftrightarrow> length fs = lodepng_get_raw_size_idat w h (lodepng_get_bpp mode) \<and>
     (\<forall>info raw. read_back mode (color info) \<longrightarrow> interlace_method info = 0 \<longrightarrow> raw_ok raw \<longrightarrow>
       (\<exists>img'. postProcessScanlines (replicate (lodepng_get_raw_size w h (color info)) 0) fs w h info = Inr img' \<and>
         (lodepng_color_mode_equal raw (color info) \<longrightarrow> img' = img) \<and>
         (\<not> lodepng_color_mode_equal raw (color info) \<longrightarrow>
           (\<forall>out. length out = w * h * 4 \<longrightarrow> lodepng_convert out img' raw (color info) w h = Inr img))))"

lemma read_back_bpp: "read_back mode mode' \<Longrightarrow> lodepng_get_bpp mode' = lodepng_get_bpp mode"
  "read_back mode mode' \<Longrightarrow> rgba8_mode mode' = rgba8_mode mode"
  "read_back mode mode' \<Longrightarrow> length (replicate (lodepng_get_raw_size w h mode') x) = (w * h * lodepng_get_bpp mode + 7) div 8"
  by (simp_all add: read_back_def same_colors_def lodepng_get_bpp_def rgba8_mode_def lodepng_get_raw_size_def raw_size_lct_bits)

lemma read_back_equal:
  "raw_ok raw \<Longrightarrow> read_back mode mode' \<Longrightarrow> lodepng_color_mode_equal raw mode' \<longleftrightarrow> rgba8_mode mode"
  using equal_modes(1) [of raw mode'] read_back_bpp(2) [of mode mode'] by (auto simp: read_back_def same_colors_def)

lemma scanlines_shown:
  assumes small: "small_image w h" and v: "valid8 mode"
    and info: "color info = mode" "interlace_method info = 0" and enc: "filters_ok settings h"
    and hold: "if rgba8_mode mode then conv = img
      else pixels_hold mode (mode_tree mode) (pixel8 raw img) (w * h) conv \<and>
        (\<forall>i < w * h. fits mode (mode_tree mode) (pixel8 raw img i))"
    and raw: "rgba8_mode raw" and len: "length img = w * h * 4" "length conv = (w * h * lodepng_get_bpp mode + 7) div 8"
  shows "\<exists>fs. preProcessScanlines junk mem conv w h info settings = Some (Inr fs) \<and> shows_image fs w h mode img"
proof -
  let ?bpp = "lodepng_get_bpp mode"
  have valid: "checkColorValidity (colortype mode) (bitdepth mode) = 0" using v by (simp add: valid8_def)
  obtain fs where fs: "preProcessScanlines junk mem conv w h info settings = Some (Inr fs)"
    "length fs = lodepng_get_raw_size_idat w h ?bpp"
    "\<And>out info'. lodepng_get_bpp (color info') = ?bpp \<Longrightarrow> interlace_method info' = 0 \<Longrightarrow> length out = length conv \<Longrightarrow>
      \<exists>img'. postProcessScanlines out fs w h info' = Inr img' \<and> length img' = length conv \<and>
        (\<forall>c < w * h * ?bpp. bit_at img' c = bit_at conv c)"
    using plain_scanlines_back [of w h info settings conv junk mem] small_image_line(1) [OF small valid8_bpp [OF v]]
      valid enc info len(2) by auto
  have "shows_image fs w h mode img"
    unfolding shows_image_def
  proof (intro conjI allI impI fs(2))
    fix info' :: LodePNGInfo and raw' :: LodePNGColorMode
    assume a: "read_back mode (color info')" "interlace_method info' = 0" "raw_ok raw'"
    have "length (replicate (lodepng_get_raw_size w h (color info')) (0 :: byte)) = length conv"
      using read_back_bpp(3) [OF a(1)] len(2) by simp
    from fs(3) [OF read_back_bpp(1) [OF a(1)] a(2) this] obtain img' where
      p: "postProcessScanlines (replicate (lodepng_get_raw_size w h (color info')) 0) fs w h info' = Inr img'"
      "length img' = length conv" "\<forall>c < w * h * ?bpp. bit_at img' c = bit_at conv c" by blast
    note eq = read_back_equal [OF a(3,1)]
    have "img' = img" if r: "rgba8_mode mode"
    proof -
      have "conv = img" "?bpp = 32" using hold r rgba8_bpp(1) by simp_all
      then show ?thesis using p(2,3) len(1) by (intro bytes_eqI) simp_all
    qed
    moreover have "lodepng_convert out img' raw' (color info') w h = Inr img"
      if no: "\<not> rgba8_mode mode" and out: "length out = w * h * 4" for out
    proof (rule convert_to_rgba8 [OF v _ _ _ _ _ _ out len(1)])
      show raw': "rgba8_mode raw'" using a(3) by (simp add: raw_ok_def)
      show "same_colors mode (color info')" using a(1) by (simp add: read_back_def)
      show "\<not> lodepng_color_mode_equal raw' (color info')" using eq no by simp
      show "palette (color info') \<noteq> None \<and> length (palette_bytes (color info')) = 1024" if "colortype mode = LCT_PALETTE"
        using a(1) that by (auto simp: read_back_def palette_bytes_def)
      note px = pixel8_rgba8 [OF raw' raw, of img]
      show "fits mode (mode_tree mode) (pixel8 raw' img i)" if "i < w * h" for i
        using hold no that by (simp add: px)
      have l: "w * h * ?bpp \<le> 8 * length conv" using len(2) by linarith
      then show "w * h * ?bpp \<le> 8 * length img'" using p(2) by simp
      show "pixels_hold mode (mode_tree mode) (pixel8 raw' img) (w * h) img'"
        using pixels_hold_bits [OF v _ l, of "mode_tree mode" "pixel8 raw img" img'] l p(2,3) hold no by (simp add: px)
    qed
    ultimately show "\<exists>img'. postProcessScanlines (replicate (lodepng_get_raw_size w h (color info')) 0) fs w h info' = Inr img' \<and>
         (lodepng_color_mode_equal raw' (color info') \<longrightarrow> img' = img) \<and>
         (\<not> lodepng_color_mode_equal raw' (color info') \<longrightarrow>
           (\<forall>out. length out = w * h * 4 \<longrightarrow> lodepng_convert out img' raw' (color info') w h = Inr img))"
      using p(1) eq by blast
  qed
  then show ?thesis using fs(1) by blast
qed

section \<open>Encoding\<close>

definition inflates_to :: "bytes \<Rightarrow> bytes \<Rightarrow> bool" where
  "inflates_to z data \<longleftrightarrow> (\<forall>ds. custom_zlib ds = None \<longrightarrow> custom_inflate ds = None \<longrightarrow> max_output_size ds = 0 \<longrightarrow>
     zlib_decompress [] z ds = Some (Inr data))"

definition plain_encoder :: "uninit \<Rightarrow> nat \<Rightarrow> LodePNGState \<Rightarrow> bool" where
  "plain_encoder un h state \<longleftrightarrow>
     (let mode = color (info_png state); enc = encoder state; zs = zlibsettings enc in
      length (st_palette (un_stats un)) = 1024 \<and> plain_info (info_png state) \<and> raw_ok (info_raw state) \<and>
      checkColorValidity (colortype mode) (bitdepth mode) = 0 \<and> colortype mode \<noteq> LCT_PALETTE \<and>
      palette mode = None \<and> palettesize mode = 0 \<and>
      auto_convert enc \<and> \<not> force_palette enc \<and> \<not> add_id enc \<and> filters_ok enc h \<and>
      btype zs \<le> 2 \<and> window_ok zs \<and> custom_zlib_encoder zs = None \<and> custom_deflate zs = None)"

lemma chosen_mode_ok: "chosen_ok P mode \<Longrightarrow> mode_ok mode"
proof -
  assume c: "chosen_ok P mode"
  then have "bitdepth mode \<le> 8" by (simp add: chosen_ok_def valid8_def)
  then have "(2 :: nat) ^ bitdepth mode \<le> 2 ^ 8" by (rule power_increasing) simp
  then show ?thesis using c by (auto simp: chosen_ok_def mode_ok_def valid8_def palette_bytes_def)
qed

lemma plain_color:
  assumes enc: "plain_encoder un h state"
  obtains mode where "encode_color un img w h state (info_png state) = (0, (info_png state)\<lparr>color := mode\<rparr>)"
    "chosen_ok (pixel8 (info_raw state) img ` {0 ..< w * h}) mode" "chosen_from (color (info_png state)) mode"
proof -
  let ?info = "info_png state" and ?raw = "info_raw state"
  have no: "\<not> iccp_defined ?info" "\<not> background_defined ?info" "auto_convert (encoder state)"
    using enc by (simp_all add: plain_encoder_def plain_info_def Let_def)
  have raw: "rgba8_mode ?raw" using enc by (simp add: plain_encoder_def raw_ok_def Let_def)
  then have np: "colortype ?raw \<noteq> LCT_PALETTE" by (simp add: rgba8_mode_def)
  have "stats_fresh (lodepng_color_stats_init (un_stats un))"
    using enc by (simp add: plain_encoder_def stats_fresh_def lodepng_color_stats_init_def Let_def)
  then have "stats_cover (pixel8 ?raw img ` {0 ..< w * h}) (encode_stats un img w h state)"
    using compute_color_stats_cover(1) [OF raw] no by (simp add: encode_stats_def Let_def)
  from auto_choose_color_ok [OF this np] obtain mode where
    m: "auto_choose_color (un_bytes un) (color ?info) ?raw (encode_stats un img w h state) = (0, mode)"
    "chosen_ok (pixel8 ?raw img ` {0 ..< w * h}) mode" "chosen_from (color ?info) mode" by blast
  have "encode_color un img w h state ?info = (0, ?info\<lparr>color := mode\<rparr>)"
    using no m(1) by (simp add: encode_color_def Let_def)
  then show ?thesis using m(2,3) by (rule that)
qed

lemma scanlines_encoded:
  assumes small: "small_image w h" and enc: "plain_encoder un h state" and len: "length img = w * h * 4"
    and chosen: "chosen_ok (pixel8 (info_raw state) img ` {0 ..< w * h}) mode" "chosen_from (color (info_png state)) mode"
  shows "\<exists>fs. encode_scanlines un img w h state ((info_png state)\<lparr>color := mode\<rparr>) = Some (Inr fs) \<and> shows_image fs w h mode img"
proof -
  let ?info = "(info_png state)\<lparr>color := mode\<rparr>" and ?raw = "info_raw state"
  have e: "raw_ok ?raw" "rgba8_mode ?raw" "palettesize (color (info_png state)) = 0" "filters_ok (encoder state) h"
    "interlace_method ?info = 0"
    using enc by (simp_all add: plain_encoder_def plain_info_def raw_ok_def Let_def)
  have v: "valid8 mode" and fit: "fits mode (mode_tree mode) (pixel8 ?raw img i)" if "i < w * h" for i
    using chosen(1) that by (auto simp: chosen_ok_def)
  have v: "valid8 mode" using chosen(1) by (simp add: chosen_ok_def)
  have eq: "lodepng_color_mode_equal ?raw mode \<longleftrightarrow> rgba8_mode mode" "lodepng_color_mode_equal mode ?raw \<longleftrightarrow> rgba8_mode mode"
    by (rule equal_modes [OF e(1)]; use chosen(2) e(3) in \<open>simp add: chosen_from_def\<close>)+
  note shown = scanlines_shown [OF small v _ e(5) e(4) _ e(2) len]
  show ?thesis
  proof (cases "rgba8_mode mode")
    case True
    then show ?thesis
      using shown [of img "un_words un" "un_bytes un"] eq len rgba8_bpp(1) [OF True]
      by (simp add: encode_scanlines_def Let_def mult.commute)
  next
    case False
    let ?n = "(w * h * lodepng_get_bpp mode + 7) div 8"
    have "length (fresh (un_bytes un) ?n) = ?n" by (simp add: fresh_def)
    then obtain conv where conv: "lodepng_convert (fresh (un_bytes un) ?n) img mode ?raw w h = Inr conv" "length conv = ?n"
      "pixels_hold mode (mode_tree mode) (pixel8 ?raw img) (w * h) conv"
      using convert_from_rgba8 [OF v e(2) _ False _ fit _ len, of "fresh (un_bytes un) ?n"] eq False chosen(1)
      by (auto simp: chosen_ok_def)
    then show ?thesis
      using shown [of conv "un_words un" "un_bytes un"] eq False fit
      by (simp add: encode_scanlines_def Let_def)
  qed
qed

lemma image_encoded:
  assumes small: "small_image w h" and enc: "plain_encoder un h state" and len: "length img = w * h * 4"
  obtains mode fs z where
    "lodepng_encode un img w h state =
       Some (0, png_signature @ chunks_bytes (file_chunks w h ((info_png state)\<lparr>color := mode\<rparr>) z))"
    "mode_ok mode" "valid8 mode" "chunk_ok IDAT_type z" "shows_image fs w h mode img"
    "inflates_to z fs"
proof -
  let ?zs = "zlibsettings (encoder state)"
  obtain mode where mode: "encode_color un img w h state (info_png state) = (0, (info_png state)\<lparr>color := mode\<rparr>)"
    "chosen_ok (pixel8 (info_raw state) img ` {0 ..< w * h}) mode" "chosen_from (color (info_png state)) mode"
    by (rule plain_color [OF enc])
  let ?info = "(info_png state)\<lparr>color := mode\<rparr>"
  have v: "valid8 mode" using mode(2) by (simp add: chosen_ok_def)
  obtain fs where fs: "encode_scanlines un img w h state ?info = Some (Inr fs)" "shows_image fs w h mode img"
    using scanlines_encoded [OF small enc len mode(2,3)] by blast
  have lf: "length fs = lodepng_get_raw_size_idat w h (lodepng_get_bpp mode)" using fs(2) by (simp add: shows_image_def)
  have room: "length fs \<le> 536870912" using small_image_line(2) [OF small valid8_bpp [OF v]] lf by simp
  have "0 < h" using small by (simp add: small_image_def)
  then have "fs \<noteq> []" using lf by (auto simp: lodepng_get_raw_size_idat_def)
  then have "deflatable ?zs fs" "custom_zlib_encoder ?zs = None" "custom_deflate ?zs = None"
    using enc room by (simp_all add: deflatable_def plain_encoder_def Let_def)
  from zlib_back [OF this, of "un_words un"] obtain z where z:
    "zlib_compress (un_words un) fs ?zs = Some (Inr z)" "length z \<le> 2 * length fs + 1000 * (length fs div 65536 + 1) + 11"
    "inflates_to z fs" unfolding inflates_to_def by blast
  define d where "d = length fs div 65536"
  have "d \<le> 8192" unfolding d_def using room by linarith
  then have "length z < 2147483648" using z(2) [folded d_def] room by simp
  then have zl: "length z < 2 ^ 31" by simp
  have ok: "plain_info ?info" "mode_ok (color ?info)" "\<not> force_palette (encoder state)" "\<not> add_id (encoder state)"
    using enc chosen_mode_ok [OF mode(2)] by (simp_all add: plain_encoder_def plain_info_def meta_ok_def Let_def)
  have "length (chunks_bytes (file_chunks w h ?info z)) < 2 ^ 62" using length_file_chunks [OF ok(2) zl, of w h] zl by simp
  note run = file_written [OF ok z(1) zl this]
  have check: "check_encode state = 0" "icc_error state ?info = 0"
    using enc by (simp_all add: check_encode_def icc_error_def plain_encoder_def plain_info_def raw_ok_def rgba8_mode_def
        checkColorValidity_def Let_def)
  have "strings_ok (info_png state)" using enc by (simp add: strings_ok_def plain_encoder_def plain_info_def Let_def)
  moreover have "lodepng_color_mode_copy (un_bytes un) lodepng_color_mode_init (color (info_png state)) = color (info_png state)"
    using enc by (simp add: lodepng_color_mode_copy_def plain_encoder_def Let_def)
  ultimately have "snd (lodepng_info_copy (un_bytes un) (lodepng_info_init (un_info un)) (info_png state)) = info_png state"
    by (simp add: info_copy_same)
  then have "lodepng_encode un img w h state = Some (0, png_signature @ chunks_bytes (file_chunks w h ?info z))"
    unfolding lodepng_encode_def using check mode(1) fs(1) run by (simp add: Let_def)
  then show ?thesis using that ok(2) v zl fs(2) z(3) by (simp add: chunk_ok_def)
qed

section \<open>Decoding\<close>

definition plain_decoder :: "LodePNGState \<Rightarrow> bool" where
  "plain_decoder state \<longleftrightarrow> raw_ok (info_raw state) \<and> color_convert (decoder state) \<and>
     custom_zlib (zlibsettings_dec (decoder state)) = None \<and> custom_inflate (zlibsettings_dec (decoder state)) = None \<and>
     max_output_size (zlibsettings_dec (decoder state)) = 0"

text \<open>The metadata of two records agree.\<close>

definition same_meta :: "LodePNGInfo \<Rightarrow> LodePNGInfo \<Rightarrow> bool" where
  "same_meta info info' \<longleftrightarrow>
     srgb_defined info' = srgb_defined info \<and> (srgb_defined info \<longrightarrow> srgb_intent info' = srgb_intent info) \<and>
     gama_defined info' = gama_defined info \<and> (gama_defined info \<longrightarrow> gama_gamma info' = gama_gamma info) \<and>
     chrm_defined info' = chrm_defined info \<and>
     (chrm_defined info \<longrightarrow> chrm_white_x info' = chrm_white_x info \<and> chrm_white_y info' = chrm_white_y info \<and>
        chrm_red_x info' = chrm_red_x info \<and> chrm_red_y info' = chrm_red_y info \<and>
        chrm_green_x info' = chrm_green_x info \<and> chrm_green_y info' = chrm_green_y info \<and>
        chrm_blue_x info' = chrm_blue_x info \<and> chrm_blue_y info' = chrm_blue_y info) \<and>
     phys_defined info' = phys_defined info \<and>
     (phys_defined info \<longrightarrow> phys_x info' = phys_x info \<and> phys_y info' = phys_y info \<and> phys_unit info' = phys_unit info) \<and>
     time_defined info' = time_defined info \<and> (time_defined info \<longrightarrow> time info' = time info)"

lemma decoded_meta:
  assumes "\<not> srgb_defined i" "\<not> gama_defined i" "\<not> chrm_defined i" "\<not> phys_defined i" "\<not> time_defined i"
  shows "same_meta info (decoded info mode i)"
  using assms
  by (simp add: same_meta_def decoded_def with_srgb_def with_gama_def with_chrm_def with_phys_def with_time_def)

lemma unat_small: "n < 2 ^ 27 \<Longrightarrow> unat (word_of_nat n :: u32) = n"
  by (simp add: unat_of_nat)

lemma small_no_overflow:
  assumes small: "small_image w h" and bpp: "lodepng_get_bpp mode \<le> 32" and raw: "rgba8_mode raw"
  shows "\<not> lodepng_pixel_overflow (word_of_nat w) (word_of_nat h) mode raw"
proof -
  note side = small_sides [OF small]
  have m: "max (lodepng_get_bpp mode) (lodepng_get_bpp raw) = 32" using bpp rgba8_bpp(1) [OF raw] by simp
  have wh: "unat (ucast (word_of_nat w :: u32) :: u64) = w" "unat (ucast (word_of_nat h :: u32) :: u64) = h"
    using side by (simp_all only: unat_ucast64 unat_small)
  have wd: "unat (ucast (word_of_nat w div 8 :: u32) :: u64) = w div 8"
    using unat_small [OF side(1)] by (simp only: unat_ucast64) (simp add: unat_div)
  have wa: "unat ((word_of_nat w :: u32) AND 7) = w mod 8"
  proof -
    have "(7 :: u32) = mask 3" by (simp add: mask_eq_exp_minus_1)
    then have "unat ((word_of_nat w :: u32) AND 7) = take_bit 3 (unat (word_of_nat w :: u32))"
      by (simp only: take_bit_eq_mask [symmetric] unsigned_take_bit_eq)
    then show ?thesis unfolding unat_small [OF side(1)] by (simp add: take_bit_eq_mod)
  qed
  have n: "w * h < 134217728" "w < 134217728" "h < 134217728" "h * w < 134217728" using side by (simp_all add: mult.commute)
  define line where "line = w div 8 * 32 + ((w mod 8) * 32 + 7) div 8 + 5"
  have "(k * 32 + 7) div 8 = 4 * k" for k :: nat by linarith
  moreover have "w div 8 * 32 + 4 * (w mod 8) = 4 * w" using div_mult_mod_eq [of w 8] by linarith
  ultimately have l: "line \<le> 4 * w + 5" by (simp add: line_def)
  have "line * h \<le> (4 * w + 5) * h" using l by simp
  also have "\<dots> = 4 * (w * h) + 5 * h" by (simp add: algebra_simps)
  finally have lh: "line * h < 2 ^ 64" using n by simp
  let ?p = "lodepng_mulofl (ucast (word_of_nat w :: u32)) (ucast (word_of_nat h :: u32)) :: bool \<times> u64"
  have p: "\<not> fst ?p" using n by (simp add: lodepng_mulofl_iff wh)
  have p8: "\<not> fst (lodepng_mulofl (snd ?p) 8)" using n lodepng_mulofl_ok [OF p] by (simp add: lodepng_mulofl_iff wh)
  let ?a = "lodepng_mulofl (ucast (word_of_nat w div 8 :: u32)) (word_of_nat 32) :: bool \<times> u64"
  have a: "\<not> fst ?a" using n by (simp add: lodepng_mulofl_iff wd)
  have a': "unat (snd ?a) = w div 8 * 32" using lodepng_mulofl_ok [OF a] by (simp add: wd)
  let ?r = "(w mod 8 * 32 + 7) div 8"
  have "w mod 8 < 8" by simp
  then have r: "unat (word_of_nat ?r :: u64) = ?r" by (simp add: unat_of_nat)
  let ?b = "lodepng_addofl (snd ?a) (word_of_nat ?r)"
  have rl: "w div 8 * 32 + ?r \<le> 4 * w" using l by (simp add: line_def)
  have b: "\<not> fst ?b" unfolding lodepng_addofl_iff a' r using n rl by simp
  have b': "unat (snd ?b) = w div 8 * 32 + ?r" using lodepng_addofl_ok [OF b] unfolding a' r .
  let ?c = "lodepng_addofl (snd ?b) 5"
  have c: "\<not> fst ?c" unfolding lodepng_addofl_iff b' using n rl by simp
  have c': "unat (snd ?c) = line" using lodepng_addofl_ok [OF c] unfolding b' line_def by simp
  have "\<not> fst (lodepng_mulofl (snd ?c) (ucast (word_of_nat h :: u32)))" unfolding lodepng_mulofl_iff c' wh using lh by simp
  then show ?thesis
    unfolding lodepng_pixel_overflow_def Let_def m wa using p p8 a b c by (simp add: split_beta)
qed

text \<open>What the decoder makes of a file with the chunks of an image.\<close>

lemma file_decoded:
  assumes small: "small_image w h" and dec: "plain_decoder state" and ok: "meta_ok info" "mode_ok (color info)" "valid8 (color info)"
    and z: "chunk_ok IDAT_type z" "inflates_to z fs"
    and fs: "shows_image fs w h (color info) img"
  shows "\<exists>state'. lodepng_decode mem state (png_signature @ chunks_bytes (file_chunks w h info z)) =
      Some (0, Some img, word_of_nat w, word_of_nat h, state') \<and> state_error state' = 0 \<and> same_meta info (info_png state')"
proof -
  let ?png = "png_signature @ chunks_bytes (file_chunks w h info z)" and ?mode = "color info"
  let ?H = "header_data w h (colortype ?mode) (bitdepth ?mode) 0"
  note side = small_sides [OF small]
  have zl: "length z < 2 ^ 31" using z(1) by (simp add: chunk_ok_def)
  have "length ?png < 2 ^ 64" using length_file_chunks [OF ok(2) zl, of w h] zl by simp
  then have at: "at_chunk ?png png_signature IHDR_type ?H (chunks_bytes (front_chunks info) @ chunk_bytes IDAT_type z @
      chunks_bytes (time_chunks info) @ chunk_bytes IEND_type [])"
    by (simp add: at_chunk_def file_chunks_def chunk_ok_def)
  have sides: "0 < w" "w < 2 ^ 32" "0 < h" "h < 2 ^ 32" using side small by (simp_all add: small_image_def)
  have valid: "checkColorValidity (colortype ?mode) (bitdepth ?mode) = 0" using ok(2) by (simp add: mode_ok_def)
  define i where "i = lodepng_info_init (lodepng_info_cleanup (info_png state))"
  define i0 where "i0 = i\<lparr>color := (color i)\<lparr>bitdepth := bitdepth ?mode, colortype := colortype ?mode\<rparr>,
      compression_method := 0, filter_method := 0, interlace_method := 0\<rparr>"
  let ?st = "state\<lparr>info_png := i0, state_error := 0\<rparr>"
  have inspect: "lodepng_inspect 0 0 state ?png = (word_of_nat w, word_of_nat h, ?st)"
    using inspect_header [OF at sides valid, of 0 0 state] by (simp add: i_def i0_def)
  have i0: "color (info_png ?st) = bare_mode ?mode" "state_error ?st = 0" "interlace_method i0 = 0"
    "\<not> srgb_defined i0" "\<not> gama_defined i0" "\<not> chrm_defined i0" "\<not> phys_defined i0" "\<not> time_defined i0"
    by (simp_all add: i0_def i_def bare_mode_def lodepng_info_init_def LodePNGText_init_def LodePNGIText_init_def
        LodePNGUnknownChunks_init_def Let_def)
  obtain s mode where s: "decode_loop mem ?png \<lparr>dc_chunk = 33, dc_idat = [], dc_critical_pos = 1, dc_state = ?st\<rparr> = Some s"
    "dc_idat s = z" "read_back ?mode mode" "dc_state s = ?st\<lparr>info_png := decoded info mode (info_png ?st)\<rparr>"
    by (rule decode_file_chunks [OF ok(1,2) z(1) refl i0(1,2), where mem = mem])
  let ?st' = "?st\<lparr>info_png := decoded info mode i0\<rparr>"
  have raw: "raw_ok (info_raw state)" "rgba8_mode (info_raw state)" using dec by (simp_all add: plain_decoder_def raw_ok_def)
  have bpp: "lodepng_get_bpp (color i0) \<le> 32" "lodepng_get_bpp mode = lodepng_get_bpp ?mode"
    using valid8_bpp [OF ok(3)] read_back_bpp(1) [OF s(3)] i0(1) by (simp_all add: bare_mode_def lodepng_get_bpp_def)
  have no: "\<not> lodepng_pixel_overflow (word_of_nat w) (word_of_nat h) (color i0) (info_raw state)"
    by (rule small_no_overflow [OF small bpp(1) raw(2)])
  have zs: "zlib_decompress [] z (zlibsettings_dec (decoder state)) = Some (Inr fs)"
    using dec z(2) by (simp add: plain_decoder_def inflates_to_def)
  have size: "length fs = expected_size w h (decoded info mode i0)"
    using fs bpp(2) i0(3) by (simp add: expected_size_def shows_image_def)
  have pal: "\<not> (colortype mode = LCT_PALETTE \<and> palette mode = None)"
    using s(3) by (auto simp: read_back_def same_colors_def)
  obtain img' where img: "postProcessScanlines (replicate (lodepng_get_raw_size w h mode) 0) fs w h (decoded info mode i0) = Inr img'"
    "lodepng_color_mode_equal (info_raw state) mode \<Longrightarrow> img' = img"
    "\<And>out. \<not> lodepng_color_mode_equal (info_raw state) mode \<Longrightarrow> length out = w * h * 4 \<Longrightarrow>
      lodepng_convert out img' (info_raw state) mode w h = Inr img"
    using fs s(3) i0(3) raw(1) unfolding shows_image_def by (metis color_decoded)
  have u: "unat (word_of_nat w :: u32) = w" "unat (word_of_nat h :: u32) = h" using side by (simp_all only: unat_small)
  have g: "decodeGeneric mem state ?png = Some (Some img', word_of_nat w, word_of_nat h, ?st')"
    unfolding decodeGeneric_def inspect prod.case using no s zs size pal img(1) u by (simp add: Let_def del: One_nat_def)
  have c: "color_convert (decoder state)" "colortype (info_raw state) = LCT_RGBA"
    using dec raw(2) by (simp_all add: plain_decoder_def rgba8_mode_def)
  have "length (fresh mem (lodepng_get_raw_size w h (info_raw state))) = w * h * 4"
    using rgba8_bpp(1) [OF raw(2)] by (simp add: fresh_def lodepng_get_raw_size_def raw_size_lct_bits lodepng_get_bpp_def)
  note conv = img(3) [OF _ this]
  have "lodepng_decode mem state ?png = Some (0, Some img, word_of_nat w, word_of_nat h, ?st')"
    unfolding lodepng_decode_def g option.case prod.case Let_def
    using c img(2) conv u by simp
  then show ?thesis using decoded_meta [OF i0(4-8), of info mode] by simp
qed

section \<open>From the image to the file and back\<close>

lemma image_back:
  assumes small: "small_image w h" and enc: "plain_encoder un h state" and len: "length img = w * h * 4"
    and dec: "plain_decoder state0"
  shows "\<exists>png state'. lodepng_encode un img w h state = Some (0, png) \<and>
    lodepng_decode mem state0 png = Some (0, Some img, word_of_nat w, word_of_nat h, state') \<and>
    same_meta (info_png state) (info_png state')"
proof -
  obtain mode fs z where e: "lodepng_encode un img w h state =
      Some (0, png_signature @ chunks_bytes (file_chunks w h ((info_png state)\<lparr>color := mode\<rparr>) z))"
    "mode_ok mode" "valid8 mode" "chunk_ok IDAT_type z" "shows_image fs w h mode img"
    "inflates_to z fs"
    by (rule image_encoded [OF small enc len])
  let ?i = "(info_png state)\<lparr>color := mode\<rparr>"
  have meta: "meta_ok ?i" using enc by (simp add: plain_encoder_def plain_info_def meta_ok_def Let_def)
  have c: "color ?i = mode" by simp
  obtain state' where s: "lodepng_decode mem state0 (png_signature @ chunks_bytes (file_chunks w h ?i z)) =
      Some (0, Some img, word_of_nat w, word_of_nat h, state')" "same_meta ?i (info_png state')"
    using file_decoded [OF small dec meta, unfolded c, OF e(2-4) e(6,5), of mem] by blast
  have "same_meta (info_png state) (info_png state')" using s(2) by (simp add: same_meta_def)
  then show ?thesis using e(1) s(1) by blast
qed

lemma plain_encode32:
  assumes "length (st_palette (un_stats un)) = 1024"
  defines "state \<equiv> lodepng_state_init (un_state un)"
  shows "plain_encoder un h (state\<lparr>info_raw := (info_raw state)\<lparr>colortype := LCT_RGBA, bitdepth := 8\<rparr>,
    info_png := (info_png state)\<lparr>color := (color (info_png state))\<lparr>colortype := LCT_RGBA, bitdepth := 8\<rparr>\<rparr>\<rparr>)"
  using assms(1) unfolding state_def
  by (simp add: plain_encoder_def plain_info_def meta_ok_def raw_ok_def rgba8_mode_def lodepng_state_init_def
      lodepng_info_init_def lodepng_color_mode_init_def LodePNGText_init_def LodePNGIText_init_def
      LodePNGUnknownChunks_init_def checkColorValidity_def lodepng_encoder_settings_init_def filters_ok_def
      lodepng_compress_settings_init_def window_ok_def Let_def)

lemma plain_decode32:
  "plain_decoder ((lodepng_state_init before)\<lparr>info_raw := (info_raw (lodepng_state_init before))\<lparr>colortype := LCT_RGBA, bitdepth := 8\<rparr>,
    decoder := (decoder (lodepng_state_init before))\<lparr>read_text_chunks := False, remember_unknown_chunks := False\<rparr>\<rparr>)"
  by (simp add: plain_decoder_def raw_ok_def rgba8_mode_def lodepng_state_init_def lodepng_color_mode_init_def
      lodepng_decoder_settings_init_def lodepng_decompress_settings_init_def)

lemma encode_file32:
  "encode_file un save file img w h LCT_RGBA 8 = (case lodepng_encode32 un img w h of
     None \<Rightarrow> None | Some (error, png) \<Rightarrow> Some (if error = 0 then save png else (error, file)))"
  by (simp add: encode_file_def encode_vector_def lodepng_encode32_def split: option.split)

text \<open>C5: 
  An RGBA image with 8 bits per channel that the encoder turns into a file comes back from the
  decoder byte for byte, with its width and height: for the default settings that the worker uses
  (which also saves the file), whatever the colour mode that the statistics choose (grey, colour,
  palette, with a transparent colour or an alpha channel), for all images whose scanlines have at
  most \<open>2 ^ 29\<close> bytes.
\<close>

theorem encode32_decode32:
  assumes "small_image w h" "length img = w * h * 4" "length (st_palette (un_stats un)) = 1024"
  shows "\<exists>png. encode_file un save file img w h LCT_RGBA 8 = Some (save png) \<and>
    lodepng_encode32 un img w h = Some (0, png) \<and>
    lodepng_decode32 mem before png = Some (0, Some img, word_of_nat w, word_of_nat h)"
proof -
  from image_back [OF assms(1) plain_encode32 [OF assms(3)] assms(2) plain_decode32, of mem before]
  obtain png where "lodepng_encode32 un img w h = Some (0, png)"
    "lodepng_decode32 mem before png = Some (0, Some img, word_of_nat w, word_of_nat h)"
    unfolding lodepng_encode32_def lodepng_decode32_def lodepng_encode_memory_def lodepng_decode_memory_def Let_def by auto
  then show ?thesis by (simp add: encode_file32)
qed

lemma encode32_decode32_witness:
  "\<forall>un (save :: bytes \<Rightarrow> nat \<times> bytes) mem before. \<exists>png.
     encode_file (un\<lparr>un_stats := (un_stats un)\<lparr>st_palette := replicate 1024 0\<rparr>\<rparr>) save [] [255, 0, 0, 255, 0, 0, 0, 0] 2 1 LCT_RGBA 8 =
       Some (save png) \<and>
     lodepng_encode32 (un\<lparr>un_stats := (un_stats un)\<lparr>st_palette := replicate 1024 0\<rparr>\<rparr>) [255, 0, 0, 255, 0, 0, 0, 0] 2 1 = Some (0, png) \<and>
     lodepng_decode32 mem before png = Some (0, Some [255, 0, 0, 255, 0, 0, 0, 0], word_of_nat 2, word_of_nat 1)"
  by (intro allI encode32_decode32) (simp_all add: small_image_def)

text \<open>C28: 
  The same for every setting of the compressor and of the filters, and for the metadata: gamma,
  chromaticities, rendering intent, physical size and time that the encoder is given are what the
  decoder finds in the file, with any setting for errors and checks.
\<close>

theorem image_and_metadata_survive:
  assumes "small_image w h" "plain_encoder un h state" "length img = w * h * 4" "plain_decoder state0"
  shows "\<exists>png state'. lodepng_encode un img w h state = Some (0, png) \<and>
    lodepng_decode mem state0 png = Some (0, Some img, word_of_nat w, word_of_nat h, state') \<and>
    same_meta (info_png state) (info_png state')"
  by (rule image_back [OF assms])

text \<open>An encoder that tries every filter, writes fixed blocks, and sets gamma, intent and time.\<close>

definition example_encoder :: "LodePNGState \<Rightarrow> LodePNGState" where
  "example_encoder state0 =
     (let state = lodepng_state_init state0 in
      state\<lparr>encoder := (encoder state)\<lparr>filter_strategy := LFS_BRUTE_FORCE, filter_palette_zero := False,
              zlibsettings := (zlibsettings (encoder state))\<lparr>btype := 1\<rparr>\<rparr>,
            info_png := (info_png state)\<lparr>gama_defined := True, gama_gamma := 45455, srgb_defined := True,
              srgb_intent := 1, time_defined := True,
              time := \<lparr>year = 2020, month = 10, day = 17, hour = 12, minute = 30, second = 60\<rparr>\<rparr>\<rparr>)"

lemma plain_example:
  "length (st_palette (un_stats un)) = 1024 \<Longrightarrow> plain_encoder un h (example_encoder state)"
  by (simp add: example_encoder_def plain_encoder_def plain_info_def meta_ok_def raw_ok_def rgba8_mode_def lodepng_state_init_def
      lodepng_info_init_def lodepng_color_mode_init_def LodePNGText_init_def LodePNGIText_init_def
      LodePNGUnknownChunks_init_def checkColorValidity_def lodepng_encoder_settings_init_def filters_ok_def
      lodepng_compress_settings_init_def window_ok_def Let_def)

lemma image_and_metadata_survive_witness:
  "\<forall>un state before mem. \<exists>png state'.
     lodepng_encode (un\<lparr>un_stats := (un_stats un)\<lparr>st_palette := replicate 1024 0\<rparr>\<rparr>) [1, 2, 3, 4] 1 1 (example_encoder state) = Some (0, png) \<and>
     lodepng_decode mem (lodepng_state_init before) png = Some (0, Some [1, 2, 3, 4], word_of_nat 1, word_of_nat 1, state') \<and>
     same_meta (info_png (example_encoder state)) (info_png state')"
proof (intro allI)
  fix un state before mem
  have "plain_decoder (lodepng_state_init before)"
    by (simp add: plain_decoder_def raw_ok_def rgba8_mode_def lodepng_state_init_def lodepng_color_mode_init_def
        lodepng_decoder_settings_init_def lodepng_decompress_settings_init_def)
  then show "\<exists>png state'. lodepng_encode (un\<lparr>un_stats := (un_stats un)\<lparr>st_palette := replicate 1024 0\<rparr>\<rparr>) [1, 2, 3, 4] 1 1
        (example_encoder state) = Some (0, png) \<and>
      lodepng_decode mem (lodepng_state_init before) png = Some (0, Some [1, 2, 3, 4], word_of_nat 1, word_of_nat 1, state') \<and>
      same_meta (info_png (example_encoder state)) (info_png state')"
    by (intro image_and_metadata_survive plain_example) (simp_all add: small_image_def)
qed

section \<open>The chosen mode loses nothing\<close>

lemma convert_rgba8_copy:
  assumes "rgba8_mode a" "rgba8_mode b" "length out = w * h * 4" "length img = w * h * 4"
  shows "lodepng_convert out img a b w h = Inr img"
proof -
  have bpp: "lodepng_get_bpp b = 32" by (rule rgba8_bpp(1) [OF assms(2)])
  then have "take (lodepng_get_raw_size w h b) img = img"
    using assms(4) by (simp add: lodepng_get_raw_size_def raw_size_lct_bits lodepng_get_bpp_def)
  moreover have "pixels_ready b (w * h) img"
    using assms(2,4) bpp by (simp add: pixels_ready_def rgba8_mode_def checkColorValidity_def)
  then have "getPixelColorsRGBA8 out (w * h) img b = img"
    using getPixelColorsRGBA8_each [of b "w * h" img out] quads_of_rgba8 [OF assms(2,4)] assms(3) by simp
  ultimately show ?thesis
    using assms by (simp add: lodepng_convert_def rgba8_mode_def put_bytes_all Let_def)
qed

text \<open>C29: 
  The colour mode that is chosen for an RGBA image with 8 bits per channel is a valid one, and
  converting the image to it and back gives the image.
\<close>

theorem chosen_mode_lossless:
  assumes raw: "colortype raw = LCT_RGBA" "bitdepth raw = 8" and stats: "length (st_palette stats) = 1024"
    and len: "length img = w * h * 4"
  shows "\<exists>mode. auto_choose_color junk mode_out raw
      (lodepng_compute_color_stats (lodepng_color_stats_init stats) img w h raw) = (0, mode) \<and>
    checkColorValidity (colortype mode) (bitdepth mode) = 0 \<and>
    (\<forall>out out'. length out = lodepng_get_raw_size w h mode \<longrightarrow> length out' = w * h * 4 \<longrightarrow>
      (\<exists>conv. lodepng_convert out img mode raw w h = Inr conv \<and> lodepng_convert out' conv raw mode w h = Inr img))"
proof -
  have r: "rgba8_mode raw" using raw by (simp add: rgba8_mode_def)
  have "stats_fresh (lodepng_color_stats_init stats)" using stats by (simp add: stats_fresh_def lodepng_color_stats_init_def)
  note cover = compute_color_stats_cover(1) [OF r this]
  have "colortype raw \<noteq> LCT_PALETTE" using raw(1) by simp
  from auto_choose_color_ok [OF cover [where img = img and w = w and h = h] this, where junk = junk and mode_out = mode_out] obtain mode where
    m: "auto_choose_color junk mode_out raw (lodepng_compute_color_stats (lodepng_color_stats_init stats) img w h raw) = (0, mode)"
    "chosen_ok (pixel8 raw img ` {0 ..< w * h}) mode" by blast
  have v: "valid8 mode" and fit: "fits mode (mode_tree mode) (pixel8 raw img i)" if "i < w * h" for i
    using m(2) that by (auto simp: chosen_ok_def)
  have v: "valid8 mode" using m(2) by (simp add: chosen_ok_def)
  have "\<exists>conv. lodepng_convert out img mode raw w h = Inr conv \<and> lodepng_convert out' conv raw mode w h = Inr img"
    if out: "length out = lodepng_get_raw_size w h mode" "length out' = w * h * 4" for out out'
  proof (cases "rgba8_mode mode")
    case True
    have "length out = w * h * 4"
      using out(1) rgba8_bpp(1) [OF True] by (simp add: lodepng_get_raw_size_def raw_size_lct_bits lodepng_get_bpp_def)
    then show ?thesis using convert_rgba8_copy [OF True r _ len] convert_rgba8_copy [OF r True out(2) len] by blast
  next
    case False
    have lo: "length out = (w * h * lodepng_get_bpp mode + 7) div 8"
      using out(1) by (simp add: lodepng_get_raw_size_def raw_size_lct_bits lodepng_get_bpp_def)
    have ct: "colortype mode \<noteq> LCT_RGBA" using v False by (auto simp: valid8_def rgba8_mode_def checkColorValidity_def)
    have differ: "\<not> lodepng_color_mode_equal mode raw" "\<not> lodepng_color_mode_equal raw mode"
      using ct raw(1) by (simp_all add: lodepng_color_mode_equal_def)
    have pal: "colortype mode = LCT_PALETTE \<Longrightarrow> palettesize mode \<noteq> 0"
      "colortype mode = LCT_PALETTE \<Longrightarrow> palette mode \<noteq> None \<and> length (palette_bytes mode) = 1024"
      using m(2) by (auto simp: chosen_ok_def palette_bytes_def)
    obtain conv where c: "lodepng_convert out img mode raw w h = Inr conv" "length conv = length out"
      "pixels_hold mode (mode_tree mode) (pixel8 raw img) (w * h) conv"
      using convert_from_rgba8 [OF v r differ(1) False pal(1) fit lo len] by blast
    have "w * h * lodepng_get_bpp mode \<le> 8 * length conv" using c(2) lo by linarith
    moreover have "same_colors mode mode" by (simp add: same_colors_def)
    ultimately have "lodepng_convert out' conv raw mode w h = Inr img"
      using convert_to_rgba8 [OF v r _ differ(2) pal(2) fit c(3) out(2) len] by blast
    then show ?thesis using c(1) by blast
  qed
  then show ?thesis using m(1) v by (auto simp: valid8_def)
qed

lemma chosen_mode_lossless_witness:
  "\<forall>stats. \<exists>mode. auto_choose_color (\<lambda>i. 0) lodepng_color_mode_init lodepng_color_mode_init
      (lodepng_compute_color_stats (lodepng_color_stats_init (stats\<lparr>st_palette := replicate 1024 0\<rparr>)) [9, 9, 9, 255, 0, 0, 0, 0] 2 1
         lodepng_color_mode_init) = (0, mode) \<and>
    checkColorValidity (colortype mode) (bitdepth mode) = 0 \<and>
    (\<forall>out out'. length out = lodepng_get_raw_size 2 1 mode \<longrightarrow> length out' = 2 * 1 * 4 \<longrightarrow>
      (\<exists>conv. lodepng_convert out [9, 9, 9, 255, 0, 0, 0, 0] mode lodepng_color_mode_init 2 1 = Inr conv \<and>
        lodepng_convert out' conv lodepng_color_mode_init mode 2 1 = Inr [9, 9, 9, 255, 0, 0, 0, 0]))"
  by (intro allI chosen_mode_lossless) (simp_all add: lodepng_color_mode_init_def)

end
