(* ===== verification/Cl_Util.thy ===== *)
theory Cl_Util
  imports Arg_Parse "HOL-Library.Multiset" "HOL-Library.Sublist"
begin

text \<open>
  Calling OpenCL: the errors and exceptions of the worker (\<open>include/client/clerror.hpp\<close>,
  \<open>src/client/clerror.cpp\<close>), the owning handles and the queries of
  \<open>include/client/clutil.hpp\<close> and \<open>src/client/clutil.cpp\<close>. OpenCL itself is not code of this
  program: it is a parameter \<open>cl\<close>, which answers each call from the calls and answers before it.
  The history of calls is the state that the actions pass on; which handles are live follows from it.
\<close>

section \<open>Errors and exceptions\<close>

text \<open>
  The exceptions of the worker. A destructor that throws ends the program: \<open>Terminate\<close> is
  \<open>std::terminate\<close>, which nothing catches.
\<close>

datatype client_exn =
    CLException int
  | InvalidCLVersionStringException
  | NoDeviceException
  | KernelCompilationException string
  | Terminate

text \<open>The status codes of \<open>CL/cl.h\<close> are written as their numbers.\<close>

definition error_names :: "(int \<times> string) list" where
  "error_names =
    [(0, ''success''),
     (-1, ''device not found''),
     (-2, ''device not available''),
     (-3, ''compiler not available''),
     (-4, ''memory object allocation failure''),
     (-5, ''out of resources''),
     (-6, ''out of host memory''),
     (-7, ''profiling info not available''),
     (-8, ''memory copy overlap''),
     (-9, ''image format mismatch''),
     (-10, ''image format not supported''),
     (-11, ''program build failure''),
     (-12, ''map failure''),
     (-13, ''misaligned sub-buffer offset''),
     (-14, ''execution status error for events in wait list''),
     (-15, ''program compilation failure''),
     (-16, ''linker not available''),
     (-17, ''program link failure''),
     (-18, ''device partition failed''),
     (-19, ''kernel argument info not available''),
     (-30, ''invalid value''),
     (-31, ''invalid device type''),
     (-32, ''invalid platform''),
     (-33, ''invalid device''),
     (-34, ''invalid context''),
     (-35, ''invalid queue properties''),
     (-36, ''invalid command queue''),
     (-37, ''invalid host pointer''),
     (-38, ''invalid memory object''),
     (-39, ''invalid image format descriptor''),
     (-40, ''invalid image size''),
     (-41, ''invalid sampler''),
     (-42, ''invalid binary''),
     (-43, ''invalid build options''),
     (-44, ''invalid program''),
     (-45, ''invalid program executable''),
     (-46, ''invalid kernel name''),
     (-47, ''invalid kernel definition''),
     (-48, ''invalid kernel''),
     (-49, ''invalid argument index''),
     (-50, ''invalid argument value''),
     (-51, ''invalid argument size''),
     (-52, ''invalid kernel arguments''),
     (-53, ''invalid work dimension''),
     (-54, ''invalid work group size''),
     (-55, ''invalid work item size''),
     (-56, ''invalid global offset''),
     (-57, ''invalid event wait list''),
     (-58, ''invalid event''),
     (-59, ''invalid operation''),
     (-60, ''invalid OpenGL object''),
     (-61, ''invalid buffer size''),
     (-62, ''invalid mip level''),
     (-63, ''invalid global work size''),
     (-64, ''invalid property''),
     (-65, ''invalid image descriptor''),
     (-66, ''invalid compiler options''),
     (-67, ''invalid linker options''),
     (-68, ''invalid device partition count''),
     (-1001, ''platform icd not loaded'')]"

definition errorName :: "int \<Rightarrow> string" where
  "errorName status = (case map_of error_names status of None \<Rightarrow> ''(invalid error)'' | Some t \<Rightarrow> t)"

text \<open>An \<open>int\<close> in decimal, as a stream writes it.\<close>

definition show_int :: "int \<Rightarrow> string" where
  "show_int i = (if i < 0 then CHR ''-'' # show_nat (nat (- i)) else show_nat (nat i))"

fun what :: "client_exn \<Rightarrow> string" where
  "what (CLException status) = errorName status @ '' ('' @ show_int status @ '')''"
| "what InvalidCLVersionStringException = []"
| "what NoDeviceException = ''No suitable OpenCL devices''"
| "what (KernelCompilationException msg) = msg"
| "what Terminate = []"

section \<open>OpenCL calls\<close>

datatype handle_kind = HContext | HQueue | HProgram | HKernel | HMem | HEvent

datatype cl_call =
    GetPlatformIDs nat
  | GetDeviceIDs nat nat nat \<comment> \<open>platform, device type mask, number of entries\<close>
  | GetDeviceInfo nat nat nat \<comment> \<open>device, parameter, size\<close>
  | GetEventInfo nat
  | CreateContext nat
  | CreateCommandQueue nat nat
  | CreateUserEvent nat
  | SetUserEventStatus nat int
  | CreateProgramWithSource nat bytes
  | BuildProgram nat
  | GetProgramBuildInfo nat nat nat
  | CreateKernel nat string
  | CreateImage nat u32 u32
  | SetKernelArgMem nat nat nat
  | SetKernelArgUint nat nat u32
  | EnqueueNDRangeKernel nat nat u32 u32
  | EnqueueReadImage nat nat u32 u32 nat
  | SetEventCallback nat
  | Finish nat
  | Release handle_kind nat

text \<open>What a call gives back; each call uses the fields that it has output parameters for.\<close>

record cl_reply =
  cl_status :: int
  cl_handle :: nat
  cl_size :: nat
  cl_text :: string
  cl_ids :: "nat list"
  cl_value :: int

type_synonym cl_history = "(cl_call \<times> cl_reply) list"
type_synonym opencl = "cl_history \<Rightarrow> cl_call \<Rightarrow> cl_reply"
type_synonym 'a cl_act = "(cl_history, client_exn, 'a) act"

definition cl_do :: "opencl \<Rightarrow> cl_call \<Rightarrow> cl_reply cl_act" where
  "cl_do cl c = (\<lambda>hist. Some (Inr (cl hist c), hist @ [(c, cl hist c)]))"

definition check :: "int \<Rightarrow> unit cl_act" where
  "check status = (if status \<noteq> 0 then throw (CLException status) else ret ())"

text \<open>A call whose status is checked.\<close>

definition cl_checked :: "opencl \<Rightarrow> cl_call \<Rightarrow> cl_reply cl_act" where
  "cl_checked cl c = andThen (cl_do cl c) (\<lambda>r. andThen (check (cl_status r)) (\<lambda>_. ret r))"

section \<open>Owning handles\<close>

text \<open>
  The destructor of \<open>UniqueCLHandle\<close>: a handle that is not null is released, and a release that
  fails throws out of a destructor.
\<close>

definition unique_release :: "opencl \<Rightarrow> handle_kind \<Rightarrow> nat \<Rightarrow> unit cl_act" where
  "unique_release cl k h =
     (if h = 0 then ret ()
      else andThen (cl_do cl (Release k h)) (\<lambda>r. if cl_status r \<noteq> 0 then throw Terminate else ret ()))"

text \<open>Destructors that run when an exception leaves a scope, and those that run on every way out.\<close>

definition on_exn :: "'a cl_act \<Rightarrow> unit cl_act \<Rightarrow> 'a cl_act" where
  "on_exn m cleanup = (\<lambda>hist. case m hist of
       Some (Inl e, hist') \<Rightarrow>
         if e = Terminate then Some (Inl Terminate, hist')
         else andThen cleanup (\<lambda>_. throw e) hist'
     | r \<Rightarrow> r)"

definition scoped :: "'a cl_act \<Rightarrow> unit cl_act \<Rightarrow> 'a cl_act" where
  "scoped m cleanup = andThen (on_exn m cleanup) (\<lambda>v. andThen cleanup (\<lambda>_. ret v))"

fun cleanups :: "unit cl_act list \<Rightarrow> unit cl_act" where
  "cleanups [] = ret ()"
| "cleanups (m # ms) = andThen m (\<lambda>_. cleanups ms)"

text \<open>The status of the call is checked after its handle has its owner.\<close>

definition create_handle :: "opencl \<Rightarrow> handle_kind \<Rightarrow> cl_call \<Rightarrow> nat cl_act" where
  "create_handle cl k c =
     andThen (cl_do cl c) (\<lambda>r.
     on_exn (andThen (check (cl_status r)) (\<lambda>_. ret (cl_handle r))) (unique_release cl k (cl_handle r)))"

section \<open>Queries\<close>

abbreviation CL_DEVICE_TYPE :: nat where "CL_DEVICE_TYPE \<equiv> 0x1000"
abbreviation CL_DEVICE_AVAILABLE :: nat where "CL_DEVICE_AVAILABLE \<equiv> 0x1027"
abbreviation CL_DEVICE_NAME :: nat where "CL_DEVICE_NAME \<equiv> 0x102B"
abbreviation CL_DEVICE_VERSION :: nat where "CL_DEVICE_VERSION \<equiv> 0x102F"

text \<open>A string of \<open>n\<close> null characters into which text has been written.\<close>

definition filled :: "nat \<Rightarrow> string \<Rightarrow> string" where
  "filled n t = take n (t @ replicate n (CHR 0x00))"

definition device_string :: "opencl \<Rightarrow> nat \<Rightarrow> nat \<Rightarrow> string cl_act" where
  "device_string cl d param =
     andThen (cl_checked cl (GetDeviceInfo d param 0)) (\<lambda>r.
     andThen (cl_checked cl (GetDeviceInfo d param (cl_size r))) (\<lambda>r'.
     ret (filled (cl_size r) (cl_text r'))))"

definition getDeviceName :: "opencl \<Rightarrow> nat \<Rightarrow> string cl_act" where
  "getDeviceName cl d = device_string cl d CL_DEVICE_NAME"

definition isDeviceAvailable :: "opencl \<Rightarrow> nat \<Rightarrow> bool cl_act" where
  "isDeviceAvailable cl d =
     andThen (cl_checked cl (GetDeviceInfo d CL_DEVICE_AVAILABLE 4)) (\<lambda>r. ret (cl_value r \<noteq> 0))"

definition getDeviceType :: "opencl \<Rightarrow> nat \<Rightarrow> int cl_act" where
  "getDeviceType cl d =
     andThen (cl_checked cl (GetDeviceInfo d CL_DEVICE_TYPE 8)) (\<lambda>r. ret (cl_value r))"

definition getEventExecutionStatus :: "opencl \<Rightarrow> nat \<Rightarrow> int cl_act" where
  "getEventExecutionStatus cl ev =
     andThen (cl_checked cl (GetEventInfo ev)) (\<lambda>r. ret (cl_value r))"

definition createEvent :: "opencl \<Rightarrow> nat \<Rightarrow> int \<Rightarrow> nat cl_act" where
  "createEvent cl context initial_status =
     andThen (create_handle cl HEvent (CreateUserEvent context)) (\<lambda>ev.
     on_exn (andThen (cl_checked cl (SetUserEventStatus ev initial_status)) (\<lambda>_. ret ev))
       (unique_release cl HEvent ev))"

section \<open>Version strings\<close>

text \<open>\<open>std::string_view::rfind\<close>: the last occurrence.\<close>

definition rfind :: "string \<Rightarrow> string \<Rightarrow> nat option" where
  "rfind s p = (case filter (\<lambda>i. prefix p (drop i s)) [0 ..< Suc (length s)] of
       [] \<Rightarrow> None | i # js \<Rightarrow> Some (last (i # js)))"

definition strip_prefix :: "string \<Rightarrow> string \<Rightarrow> string" where
  "strip_prefix p s = (if rfind s p = Some 0 then drop (length p) s else s)"

text \<open>
  \<open>operator>>\<close> of a stream for a \<open>uint32_t\<close>, as the standard has it: white space is skipped, a sign
  is allowed and a negative number is taken modulo \<open>2 ^ 32\<close>; no digits or a number out of range
  make the stream fail.
\<close>

definition is_space :: "char \<Rightarrow> bool" where
  "is_space c \<longleftrightarrow> (of_char c :: nat) \<in> {9, 10, 11, 12, 13, 32}"

definition read_u32 :: "string \<Rightarrow> u32 option \<times> string" where
  "read_u32 s =
     (let s = dropWhile is_space s;
          neg = (s \<noteq> [] \<and> hd s = CHR ''-'');
          s = (if s \<noteq> [] \<and> (hd s = CHR ''-'' \<or> hd s = CHR ''+'') then tl s else s);
          ds = takeWhile is_digit s; rest = dropWhile is_digit s; n = read_digits ds in
      (if ds = [] \<or> n \<ge> 2 ^ 32 then None
       else Some (if neg then - word_of_nat n else word_of_nat n), rest))"

text \<open>\<open>None\<close>: \<open>InvalidCLVersionStringException\<close>.\<close>

definition parseVersion :: "string \<Rightarrow> (u32 \<times> u32) option" where
  "parseVersion version_str =
     (let s = strip_prefix ''C '' (strip_prefix ''OpenCL '' version_str) in
      case read_u32 s of
        (None, _) \<Rightarrow> None
      | (Some major, rest) \<Rightarrow>
          (case rest of
             [] \<Rightarrow> None
           | c # rest \<Rightarrow>
               if c \<noteq> CHR ''.'' then None
               else (case read_u32 rest of
                       (None, _) \<Rightarrow> None
                     | (Some minor, _) \<Rightarrow> Some (major, minor))))"

definition getDeviceVersion :: "opencl \<Rightarrow> nat \<Rightarrow> nat \<Rightarrow> (u32 \<times> u32) cl_act" where
  "getDeviceVersion cl d version_info =
     andThen (device_string cl d version_info) (\<lambda>s.
       case parseVersion s of None \<Rightarrow> throw InvalidCLVersionStringException | Some v \<Rightarrow> ret v)"

subsection \<open>Which versions are understood\<close>

lemma last_filter_upt:
  "filter P [0 ..< n] \<noteq> [] \<Longrightarrow>
   last (filter P [0 ..< n]) = k \<longleftrightarrow> k < n \<and> P k \<and> (\<forall>i. k < i \<and> i < n \<longrightarrow> \<not> P i)"
proof (induction n)
  case (Suc n)
  show ?case
  proof (cases "P n")
    case True
    then show ?thesis by (auto simp: less_Suc_eq)
  next
    case False
    then show ?thesis using Suc by (auto simp: less_Suc_eq)
  qed
qed simp

lemma rfind_Some:
  "rfind s p = Some k \<longleftrightarrow>
   k \<le> length s \<and> prefix p (drop k s) \<and> (\<forall>i. k < i \<and> i \<le> length s \<longrightarrow> \<not> prefix p (drop i s))"
proof (cases "filter (\<lambda>i. prefix p (drop i s)) [0 ..< Suc (length s)]")
  case Nil
  then have "\<forall>i \<in> set [0 ..< Suc (length s)]. \<not> prefix p (drop i s)" by (simp only: filter_empty_conv)
  then show ?thesis using Nil by (auto simp: rfind_def less_Suc_eq_le)
next
  case (Cons i js)
  then have "rfind s p = Some (last (filter (\<lambda>i. prefix p (drop i s)) [0 ..< Suc (length s)]))"
    by (simp only: rfind_def list.case)
  moreover have "filter (\<lambda>i. prefix p (drop i s)) [0 ..< Suc (length s)] \<noteq> []" by (simp only: Cons) simp
  ultimately show ?thesis
    using last_filter_upt [of "\<lambda>i. prefix p (drop i s)" "Suc (length s)" k]
    by (simp only: option.inject less_Suc_eq_le simp_thms)
qed

text \<open>A prefix is only found at the front if it does not occur again later.\<close>

lemma strip_prefix_append:
  assumes "set pre \<inter> {hd p} = {}" "p \<noteq> []"
  shows "strip_prefix p (p @ pre @ s) =
    (if sublist p s \<or> (\<exists>i. 0 < i \<and> i < length p \<and> prefix p (drop i (p @ pre @ s))) then p @ pre @ s
     else pre @ s)"
proof -
  let ?t = "p @ pre @ s"
  have inside: "\<not> prefix p (drop i ?t)" if "length p \<le> i" "i < length p + length pre" for i
  proof
    assume a: "prefix p (drop i ?t)"
    then have "hd p = hd (drop i ?t)" using assms(2) by (auto simp: prefix_def)
    also have "\<dots> = pre ! (i - length p)" using that by (simp add: hd_drop_conv_nth nth_append)
    finally show False using assms(1) that by auto
  qed
  have later: "prefix p (drop i ?t) \<longleftrightarrow> prefix p (drop (i - (length p + length pre)) s)"
    if "length p + length pre \<le> i" for i
    using that by simp
  have sub: "sublist p s \<longleftrightarrow> (\<exists>j \<le> length s. prefix p (drop j s))"
  proof
    assume "sublist p s"
    then obtain a b where "s = a @ p @ b" by (auto simp: sublist_def)
    then show "\<exists>j \<le> length s. prefix p (drop j s)" by (intro exI [of _ "length a"]) simp
  next
    assume "\<exists>j \<le> length s. prefix p (drop j s)"
    then obtain j b where "drop j s = p @ b" by (auto simp: prefix_def)
    then have "s = take j s @ p @ b" by (metis append_take_drop_id)
    then show "sublist p s" unfolding sublist_def by blast
  qed
  have "rfind ?t p = Some 0 \<longleftrightarrow> (\<forall>i. 0 < i \<and> i \<le> length ?t \<longrightarrow> \<not> prefix p (drop i ?t))"
    by (simp add: rfind_Some)
  also have "\<dots> \<longleftrightarrow> \<not> (sublist p s \<or> (\<exists>i. 0 < i \<and> i < length p \<and> prefix p (drop i ?t)))"
  proof
    assume a: "\<forall>i. 0 < i \<and> i \<le> length ?t \<longrightarrow> \<not> prefix p (drop i ?t)"
    show "\<not> (sublist p s \<or> (\<exists>i. 0 < i \<and> i < length p \<and> prefix p (drop i ?t)))"
    proof (rule notI, elim disjE exE conjE)
      assume "sublist p s"
      then obtain j where j: "j \<le> length s" "prefix p (drop j s)" unfolding sub by blast
      have "0 < length p + length pre + j \<and> length p + length pre + j \<le> length ?t"
        using assms(2) j(1) by simp
      then have "\<not> prefix p (drop (length p + length pre + j) ?t)" by (rule a [rule_format])
      then show False using later [of "length p + length pre + j"] j(2) by simp
    next
      fix i assume i: "0 < i" "i < length p" and "prefix p (drop i ?t)"
      moreover have "i \<le> length ?t" using i(2) by simp
      ultimately show False using a [rule_format, of i] by simp
    qed
  next
    assume a: "\<not> (sublist p s \<or> (\<exists>i. 0 < i \<and> i < length p \<and> prefix p (drop i ?t)))"
    show "\<forall>i. 0 < i \<and> i \<le> length ?t \<longrightarrow> \<not> prefix p (drop i ?t)"
    proof (intro allI impI)
      fix i assume i: "0 < i \<and> i \<le> length ?t"
      consider "i < length p" | "length p \<le> i" "i < length p + length pre" | "length p + length pre \<le> i"
        by linarith
      then show "\<not> prefix p (drop i ?t)"
      proof cases
        case 1
        then show ?thesis using a i by blast
      next
        case 3
        have "i \<le> length p + length pre + length s" using i by simp
        then have "i - (length p + length pre) \<le> length s" using 3 by linarith
        then show ?thesis using a later [OF 3] unfolding sub by blast
      qed (use inside in blast)
    qed
  qed
  finally have eq: "rfind ?t p = Some 0 \<longleftrightarrow>
    \<not> (sublist p s \<or> (\<exists>i. 0 < i \<and> i < length p \<and> prefix p (drop i ?t)))" .
  have d: "drop (length p) ?t = pre @ s" by simp
  show ?thesis
  proof (cases "sublist p s \<or> (\<exists>i. 0 < i \<and> i < length p \<and> prefix p (drop i ?t))")
    case True
    then show ?thesis unfolding strip_prefix_def eq by (simp only: if_True not_True_eq_False if_False)
  next
    case False
    then show ?thesis unfolding strip_prefix_def eq d by (simp only: if_True not_False_eq_True if_False)
  qed
qed

lemma read_u32_show:
  assumes "rest = [] \<or> \<not> is_digit (hd rest)"
  shows "read_u32 (show_word w @ rest) = (Some w, rest)"
proof -
  obtain c cs where c: "show_word w = c # cs" "is_digit c"
    using show_nat_digits [of _ "unat w"] show_nat_nonempty [of "unat w"]
    by (metis list.set_intros(1) neq_Nil_conv show_word_def)
  then have n: "\<not> is_space c" "c \<noteq> CHR ''-''" "c \<noteq> CHR ''+''"
    by (auto simp: is_digit_def is_space_def)
  have "takeWhile is_digit rest = []" "dropWhile is_digit rest = rest"
    using assms by (cases rest; auto)+
  then have "takeWhile is_digit (show_word w @ rest) = show_word w"
    "dropWhile is_digit (show_word w @ rest) = rest"
    by (simp_all add: show_word_def show_nat_digits)
  moreover have "read_digits (show_word w) < 2 ^ 32"
    using unsigned_less [of w] by (simp add: show_word_def)
  ultimately show ?thesis
    using n by (simp add: read_u32_def c(1)) (simp add: c(1) [symmetric] show_word_def)
qed

text \<open>
  A device's version string is \<open>OpenCL\<close>, the major and the minor version, and text of the vendor. It
  is understood exactly if the vendor's text does not contain \<open>OpenCL\<close> and a space again: then the
  last occurrence of the prefix is not at the front, it is not removed, and the device is skipped
  for an invalid version string.
\<close>

theorem parseVersion_device:
  "parseVersion (''OpenCL '' @ show_word major @ ''.'' @ show_word minor @ '' '' @ vendor) =
    (if sublist ''OpenCL '' vendor then None else Some (major, minor))"
proof -
  let ?s = "show_word major @ ''.'' @ show_word minor @ '' '' @ vendor"
  have digits: "is_digit c" if "c \<in> set (show_word w)" for c and w :: u32
    using that show_nat_digits by (simp add: show_word_def)
  have "set (show_word w) \<inter> {CHR ''O''} = {}" for w :: u32
    using digits [of "CHR ''O''" w] by (auto simp: is_digit_def)
  then have pre: "set (show_word major @ ''.'' @ show_word minor @ '' '') \<inter> {hd ''OpenCL ''} = {}"
    by (auto simp: Int_Un_distrib2)
  have overlap: "\<not> (\<exists>i. 0 < i \<and> i < length ''OpenCL '' \<and> prefix ''OpenCL '' (drop i (''OpenCL '' @ s)))"
    for s
  proof (rule notI, elim exE conjE)
    fix i assume "0 < i" "i < length ''OpenCL ''" and p: "prefix ''OpenCL '' (drop i (''OpenCL '' @ s))"
    then have "i \<in> {1, 2, 3, 4, 5, 6}" by auto
    then show False using p by auto
  qed
  have strip: "strip_prefix ''OpenCL '' (''OpenCL '' @ ?s) =
      (if sublist ''OpenCL '' vendor then ''OpenCL '' @ ?s else ?s)"
    using strip_prefix_append [OF pre, of vendor] overlap by auto
  show ?thesis
  proof (cases "sublist ''OpenCL '' vendor")
    case True
    have "strip_prefix ''C '' (''OpenCL '' @ ?s) = ''OpenCL '' @ ?s"
      by (simp add: strip_prefix_def rfind_Some)
    moreover have "read_u32 (''OpenCL '' @ ?s) = (None, ''OpenCL '' @ ?s)"
      by (simp add: read_u32_def is_space_def is_digit_def)
    ultimately show ?thesis using True by (simp only: parseVersion_def strip if_True Let_def prod.case option.case)
  next
    case False
    obtain c cs where c: "show_word major = c # cs" "is_digit c"
      using digits [of _ major] show_nat_nonempty [of "unat major"]
      by (metis list.set_intros(1) neq_Nil_conv show_word_def)
    then have "strip_prefix ''C '' ?s = ?s"
      by (auto simp: strip_prefix_def rfind_Some is_digit_def)
    moreover have "read_u32 ?s = (Some major, ''.'' @ show_word minor @ '' '' @ vendor)"
      by (rule read_u32_show) (simp add: is_digit_def)
    moreover have "read_u32 (show_word minor @ '' '' @ vendor) = (Some minor, '' '' @ vendor)"
      by (rule read_u32_show) (simp add: is_digit_def)
    ultimately show ?thesis using False
      by (simp only: parseVersion_def strip if_False Let_def prod.case option.case) simp
  qed
qed

section \<open>Which handles are live\<close>

text \<open>
  A call to create something makes the handle that it gives live, a successful command makes the
  event that it gives live, and a successful release ends one reference. Two calls may give the same
  handle: handles are counted.
\<close>

fun creates :: "cl_call \<Rightarrow> handle_kind option" where
  "creates (CreateContext d) = Some HContext"
| "creates (CreateCommandQueue ctx d) = Some HQueue"
| "creates (CreateUserEvent ctx) = Some HEvent"
| "creates (CreateProgramWithSource ctx src) = Some HProgram"
| "creates (CreateKernel prog name) = Some HKernel"
| "creates (CreateImage ctx w h) = Some HMem"
| "creates c = None"

definition owned :: "handle_kind \<Rightarrow> nat \<Rightarrow> (handle_kind \<times> nat) multiset" where
  "owned k h = (if h = 0 then {#} else {#(k, h)#})"

definition live_step :: "cl_call \<times> cl_reply \<Rightarrow> (handle_kind \<times> nat) multiset \<Rightarrow> (handle_kind \<times> nat) multiset" where
  "live_step x L =
     (case x of (c, r) \<Rightarrow>
       (case creates c of
          Some k \<Rightarrow> L + owned k (cl_handle r)
        | None \<Rightarrow>
            if cl_status r \<noteq> 0 then L
            else (case c of
                Release k h \<Rightarrow> L - {#(k, h)#}
              | EnqueueNDRangeKernel q k w h \<Rightarrow> L + owned HEvent (cl_handle r)
              | EnqueueReadImage q img w h ev \<Rightarrow> L + owned HEvent (cl_handle r)
              | _ \<Rightarrow> L)))"

definition live :: "cl_history \<Rightarrow> (handle_kind \<times> nat) multiset" where
  "live hist = fold live_step hist {#}"

lemma live_snoc: "live (hist @ [x]) = live_step x (live hist)"
  by (simp add: live_def)

lemma live_append: "live (hist @ xs) = fold live_step xs (live hist)"
  by (simp add: live_def)

text \<open>
  \<open>handles P m Q E\<close>: started with the handles \<open>P\<close> beside others, \<open>m\<close> ends with \<open>Q v\<close> instead when it
  returns \<open>v\<close> and with \<open>E\<close> when it throws, and never touches the others.
\<close>

definition handles ::
  "(handle_kind \<times> nat) multiset \<Rightarrow> 'a cl_act \<Rightarrow> ('a \<Rightarrow> (handle_kind \<times> nat) multiset) \<Rightarrow>
   (handle_kind \<times> nat) multiset \<Rightarrow> bool" where
  "handles P m Q E \<longleftrightarrow>
     (\<forall>hist L. live hist = L + P \<longrightarrow>
        (case m hist of
           None \<Rightarrow> True
         | Some (Inr v, hist') \<Rightarrow> live hist' = L + Q v
         | Some (Inl e, hist') \<Rightarrow> e = Terminate \<or> live hist' = L + E))"

lemma handlesD:
  "handles P m Q E \<Longrightarrow> live hist = L + P \<Longrightarrow> m hist = Some (Inr v, hist') \<Longrightarrow> live hist' = L + Q v"
  "handles P m Q E \<Longrightarrow> live hist = L + P \<Longrightarrow> m hist = Some (Inl e, hist') \<Longrightarrow> e = Terminate \<or> live hist' = L + E"
  unfolding handles_def by force+

lemma handlesI:
  assumes "\<And>hist L v hist'. live hist = L + P \<Longrightarrow> m hist = Some (Inr v, hist') \<Longrightarrow> live hist' = L + Q v"
    and "\<And>hist L e hist'. live hist = L + P \<Longrightarrow> m hist = Some (Inl e, hist') \<Longrightarrow>
      e = Terminate \<or> live hist' = L + E"
  shows "handles P m Q E"
  unfolding handles_def using assms by (auto split: option.split sum.split)

lemma handles_ret: "handles (Q v) (ret v) Q E"
  by (simp add: handles_def ret_def)

lemma handles_throw: "handles E (throw e) Q E"
  by (simp add: handles_def throw_def)

lemma handles_terminate: "handles P (throw Terminate) Q E"
  by (simp add: handles_def throw_def)

lemma handles_andThen:
  assumes m: "handles P m Q E" and f: "\<And>v. handles (Q v) (f v) R E"
  shows "handles P (andThen m f) R E"
proof (rule handlesI)
  fix hist L v hist' assume l: "live hist = L + P" and r: "andThen m f hist = Some (Inr v, hist')"
  then obtain u mid where u: "m hist = Some (Inr u, mid)" "f u mid = Some (Inr v, hist')"
    by (auto simp: andThen_def split: option.splits sum.splits)
  show "live hist' = L + R v" by (rule handlesD(1) [OF f handlesD(1) [OF m l u(1)] u(2)])
next
  fix hist L e hist' assume l: "live hist = L + P" and r: "andThen m f hist = Some (Inl e, hist')"
  then consider "m hist = Some (Inl e, hist')"
    | u mid where "m hist = Some (Inr u, mid)" "f u mid = Some (Inl e, hist')"
    by (auto simp: andThen_def split: option.splits sum.splits)
  then show "e = Terminate \<or> live hist' = L + E"
  proof cases
    case 1
    then show ?thesis using handlesD(2) [OF m l] by blast
  next
    case 2
    then show ?thesis using handlesD(2) [OF f handlesD(1) [OF m l 2(1)] 2(2)] by blast
  qed
qed

lemma handles_if:
  "(b \<Longrightarrow> handles P m Q E) \<Longrightarrow> (\<not> b \<Longrightarrow> handles P m' Q E) \<Longrightarrow> handles P (if b then m else m') Q E"
  by simp

text \<open>Handles that an action does not mention stay as they are.\<close>

lemma handles_frame: "handles P m Q E \<Longrightarrow> handles (P + F) m (\<lambda>v. Q v + F) (E + F)"
proof (rule handlesI)
  assume m: "handles P m Q E"
  show "live hist' = L + (Q v + F)" if "live hist = L + (P + F)" "m hist = Some (Inr v, hist')"
    for hist L v hist'
    using handlesD(1) [OF m, of hist "L + F"] that by (simp add: ac_simps)
  show "e = Terminate \<or> live hist' = L + (E + F)" if "live hist = L + (P + F)" "m hist = Some (Inl e, hist')"
    for hist L e hist'
    using handlesD(2) [OF m, of hist "L + F"] that by (simp add: ac_simps)
qed

lemma handles_post:
  "handles P m Q E \<Longrightarrow> P = P' \<Longrightarrow> (\<And>v. Q v = Q' v) \<Longrightarrow> E = E' \<Longrightarrow> handles P' m Q' E'"
  using ext [of Q Q'] by simp

lemma handles_on_exn:
  fixes m :: "'a cl_act"
  assumes m: "handles P m Q E'" and c: "handles E' cleanup (\<lambda>_. E) E"
  shows "handles P (on_exn m cleanup) Q E"
proof (rule handlesI)
  fix hist L v hist' assume l: "live hist = L + P" and r: "on_exn m cleanup hist = Some (Inr v, hist')"
  then have "m hist = Some (Inr v, hist')"
    by (auto simp: on_exn_def andThen_def throw_def split: option.splits sum.splits if_splits)
  then show "live hist' = L + Q v" by (rule handlesD(1) [OF m l])
next
  fix hist L e hist' assume l: "live hist = L + P" and r: "on_exn m cleanup hist = Some (Inl e, hist')"
  then obtain e' mid where e': "m hist = Some (Inl e', mid)"
    by (auto simp: on_exn_def split: option.splits sum.splits)
  show "e = Terminate \<or> live hist' = L + E"
  proof (cases "e' = Terminate")
    case True
    then show ?thesis using r e' by (simp add: on_exn_def)
  next
    case False
    then have mid: "live mid = L + E'" using handlesD(2) [OF m l e'] by blast
    have "(andThen cleanup (\<lambda>_. throw e') :: 'a cl_act) mid = Some (Inl e, hist')"
      using r e' False by (simp add: on_exn_def)
    moreover have "handles E' (andThen cleanup (\<lambda>_. throw e') :: 'a cl_act) Q E"
      by (rule handles_andThen [OF c]) (rule handles_throw)
    ultimately show ?thesis using handlesD(2) mid by blast
  qed
qed

lemma handles_scoped:
  assumes "handles P m Q E'" "handles E' cleanup (\<lambda>_. E) E" "\<And>v. handles (Q v) cleanup (\<lambda>_. R v) E"
  shows "handles P (scoped m cleanup) R E"
  unfolding scoped_def
  by (intro handles_andThen [OF handles_on_exn [OF assms(1,2)]] handles_andThen [OF assms(3)])
    (rule handles_ret [where Q = R])

fun silent :: "cl_call \<Rightarrow> bool" where
  "silent (Release k h) = False"
| "silent (EnqueueNDRangeKernel q k w h) = False"
| "silent (EnqueueReadImage q img w h ev) = False"
| "silent c = (creates c = None)"

lemma handles_do:
  "silent c \<Longrightarrow> handles P (cl_do cl c) (\<lambda>_. P) E"
  by (cases c) (simp_all add: handles_def cl_do_def live_snoc live_step_def)

lemma handles_check: "handles P (check st) (\<lambda>_. P) P"
  unfolding check_def by (cases "st = 0") (simp_all add: handles_throw handles_ret [of "\<lambda>_. P"])

lemma handles_checked:
  "silent c \<Longrightarrow> handles P (cl_checked cl c) (\<lambda>_. P) P"
  unfolding cl_checked_def
  by (intro handles_andThen [OF handles_do] handles_andThen [OF handles_check])
    (auto intro: handles_ret [of "\<lambda>_. P"])

text \<open>An owner gives up what it has, whatever else is held; it can only fail by ending the program.\<close>

lemma handles_release_frame: "handles (owned k h + F) (unique_release cl k h) (\<lambda>_. F) E"
proof (cases "h = 0")
  case True
  then show ?thesis using handles_ret [of "\<lambda>_. F"] by (simp add: unique_release_def owned_def)
next
  case False
  show ?thesis
    unfolding handles_def unique_release_def owned_def using False
    by (auto simp: andThen_def cl_do_def throw_def ret_def live_snoc live_step_def)
qed

lemma handles_release: "handles (owned k h) (unique_release cl k h) (\<lambda>_. {#}) E"
  using handles_release_frame [where F = "{#}"] by simp

lemma handles_cleanups:
  assumes "\<And>x F. x \<in> set xs \<Longrightarrow> handles (own x + F) (rel x) (\<lambda>_. F) E"
  shows "handles (sum_list (map own xs) + F) (cleanups (map rel xs)) (\<lambda>_. F) E"
  using assms
proof (induction xs arbitrary: F)
  case Nil
  then show ?case using handles_ret [of "\<lambda>_. F"] by simp
next
  case (Cons x xs)
  have "handles (own x + (sum_list (map own xs) + F)) (rel x) (\<lambda>_. sum_list (map own xs) + F) E"
    by (rule Cons.prems) simp
  moreover have "handles (sum_list (map own xs) + F) (cleanups (map rel xs)) (\<lambda>_. F) E"
    by (rule Cons.IH) (use Cons.prems in simp)
  ultimately show ?case by (auto intro: handles_andThen simp: ac_simps)
qed

lemma handles_create:
  assumes "creates c = Some k"
  shows "handles {#} (create_handle cl k c) (owned k) {#}"
proof -
  have d: "handles {#} (cl_do cl c) (\<lambda>r. owned k (cl_handle r)) {#}"
    using assms by (simp add: handles_def cl_do_def live_snoc live_step_def)
  have "handles (owned k h) (andThen (check st) (\<lambda>_. ret h)) (owned k) (owned k h)" for h st
    by (rule handles_andThen [OF handles_check]) (rule handles_ret)
  then show ?thesis
    unfolding create_handle_def by (intro handles_andThen [OF d] handles_on_exn [OF _ handles_release])
qed

end
