(* ===== verification/Cl_Device.thy ===== *)
theory Cl_Device
  imports Cl_Util
begin

text \<open>
  The devices of the worker (\<open>include/client/device.hpp\<close>, \<open>src/client/device.cpp\<close>): a context, a
  command queue and the frame slots of an OpenCL device, building kernels, creating images and
  listing the devices of all platforms. Members that are already constructed are destroyed when a
  constructor throws; the lemmas show that no handle is lost on any path.
\<close>

section \<open>Frames and devices\<close>

record Frame =
  kernel_completed :: nat
  target_downloaded :: nat
  ready :: bool

record Device =
  device_id :: nat
  type_mask :: int
  dev_context :: nat
  command_queue :: nat
  dev_frames :: "Frame list"

text \<open>Members are destroyed in the reverse of their order.\<close>

definition Frame_release :: "opencl \<Rightarrow> Frame \<Rightarrow> unit cl_act" where
  "Frame_release cl f =
     andThen (unique_release cl HEvent (target_downloaded f)) (\<lambda>_.
     unique_release cl HEvent (kernel_completed f))"

definition Frame_new :: "opencl \<Rightarrow> nat \<Rightarrow> Frame cl_act" where
  "Frame_new cl ctx =
     andThen (createEvent cl ctx 0) (\<lambda>kernel.
     on_exn
       (andThen (createEvent cl ctx 0) (\<lambda>target.
        ret \<lparr>kernel_completed = kernel, target_downloaded = target, ready = True\<rparr>))
       (unique_release cl HEvent kernel))"

text \<open>The frames created so far are destroyed when the next one cannot be created.\<close>

fun Device_add_frames :: "opencl \<Rightarrow> nat \<Rightarrow> nat \<Rightarrow> Frame list \<Rightarrow> Frame list cl_act" where
  "Device_add_frames cl ctx 0 fs = ret fs"
| "Device_add_frames cl ctx (Suc n) fs =
     andThen (on_exn (Frame_new cl ctx) (cleanups (map (Frame_release cl) fs))) (\<lambda>f.
     Device_add_frames cl ctx n (fs @ [f]))"

text \<open>\<open>n\<close> is the number of frames, a constant of the build.\<close>

definition Device_new :: "opencl \<Rightarrow> nat \<Rightarrow> nat \<Rightarrow> Device cl_act" where
  "Device_new cl n d =
     andThen (getDeviceType cl d) (\<lambda>mask_bits.
     andThen (create_handle cl HContext (CreateContext d)) (\<lambda>ctx.
     on_exn
       (andThen (create_handle cl HQueue (CreateCommandQueue ctx d)) (\<lambda>queue.
        on_exn
          (andThen (Device_add_frames cl ctx n []) (\<lambda>fs.
           ret \<lparr>device_id = d, type_mask = mask_bits, dev_context = ctx, command_queue = queue,
                dev_frames = fs\<rparr>))
          (unique_release cl HQueue queue)))
       (unique_release cl HContext ctx)))"

definition Device_name :: "opencl \<Rightarrow> Device \<Rightarrow> string cl_act" where
  "Device_name cl dev = getDeviceName cl (device_id dev)"

section \<open>Kernels and images\<close>

definition buildKernelFromSource :: "opencl \<Rightarrow> Device \<Rightarrow> bytes \<Rightarrow> string \<Rightarrow> nat cl_act" where
  "buildKernelFromSource cl dev source kernel_name =
     andThen (create_handle cl HProgram (CreateProgramWithSource (dev_context dev) source)) (\<lambda>program.
     scoped
       (andThen (cl_do cl (BuildProgram program)) (\<lambda>r.
        if cl_status r = - 11 then
          andThen (cl_checked cl (GetProgramBuildInfo program (device_id dev) 0)) (\<lambda>r.
          andThen (cl_checked cl (GetProgramBuildInfo program (device_id dev) (cl_size r))) (\<lambda>r'.
          throw (KernelCompilationException (filled (cl_size r) (cl_text r')))))
        else
          andThen (check (cl_status r)) (\<lambda>_.
          andThen (cl_do cl (CreateKernel program kernel_name)) (\<lambda>r.
          on_exn
            (if cl_status r = - 46 then
               throw (KernelCompilationException
                 (''Program does not contain kernel '' @ CHR 0x27 # kernel_name @ [CHR 0x27]))
             else if cl_status r = - 47 then
               throw (KernelCompilationException
                 (''Invalid defintion of kernel '' @ CHR 0x27 # kernel_name @ [CHR 0x27]))
             else andThen (check (cl_status r)) (\<lambda>_. ret (cl_handle r)))
            (unique_release cl HKernel (cl_handle r))))))
       (unique_release cl HProgram program))"

definition create2DImage :: "opencl \<Rightarrow> Device \<Rightarrow> u32 \<Rightarrow> u32 \<Rightarrow> nat cl_act" where
  "create2DImage cl dev width height =
     create_handle cl HMem (CreateImage (dev_context dev) width height)"

section \<open>Listing devices\<close>

definition filled_ids :: "nat \<Rightarrow> nat list \<Rightarrow> nat list" where
  "filled_ids n is = take n (is @ replicate n 0)"

fun platform_devices :: "opencl \<Rightarrow> nat \<Rightarrow> nat list \<Rightarrow> nat list \<Rightarrow> nat list cl_act" where
  "platform_devices cl types [] devices = ret devices"
| "platform_devices cl types (platform # platforms) devices =
     andThen (cl_checked cl (GetDeviceIDs platform types 0)) (\<lambda>r.
     andThen (cl_checked cl (GetDeviceIDs platform types (cl_size r))) (\<lambda>r'.
     platform_devices cl types platforms (devices @ filled_ids (cl_size r) (cl_ids r'))))"

definition deviceIDs :: "opencl \<Rightarrow> nat \<Rightarrow> nat list cl_act" where
  "deviceIDs cl types =
     andThen (cl_checked cl (GetPlatformIDs 0)) (\<lambda>r.
     andThen (cl_checked cl (GetPlatformIDs (cl_size r))) (\<lambda>r'.
     platform_devices cl types (filled_ids (cl_size r) (cl_ids r')) []))"

section \<open>No handle is lost\<close>

definition frame_handles :: "Frame \<Rightarrow> (handle_kind \<times> nat) multiset" where
  "frame_handles f = owned HEvent (kernel_completed f) + owned HEvent (target_downloaded f)"

definition frames_handles :: "Frame list \<Rightarrow> (handle_kind \<times> nat) multiset" where
  "frames_handles fs = sum_list (map frame_handles fs)"

definition device_handles :: "Device \<Rightarrow> (handle_kind \<times> nat) multiset" where
  "device_handles dev = owned HContext (dev_context dev) + owned HQueue (command_queue dev) +
     frames_handles (dev_frames dev)"

lemma handles_createEvent: "handles {#} (createEvent cl ctx st) (owned HEvent) {#}"
  unfolding createEvent_def
proof (intro handles_andThen [OF handles_create] handles_on_exn)
  show "handles (owned HEvent ev) (andThen (cl_checked cl (SetUserEventStatus ev st)) (\<lambda>_. ret ev))
    (owned HEvent) (owned HEvent ev)" for ev
    by (rule handles_andThen [OF handles_checked handles_ret]) simp
qed (simp_all add: handles_release)

lemma handles_Frame_release: "handles (frame_handles f + F) (Frame_release cl f) (\<lambda>_. F) E"
proof -
  have "frame_handles f + F =
      owned HEvent (target_downloaded f) + (owned HEvent (kernel_completed f) + F)"
    by (simp add: frame_handles_def ac_simps)
  then show ?thesis
    unfolding Frame_release_def 
    by (simp only:) (rule handles_andThen [OF handles_release_frame handles_release_frame])
qed

lemma handles_Frame_new: "handles {#} (Frame_new cl ctx) frame_handles {#}"
  unfolding Frame_new_def
proof (intro handles_andThen [OF handles_createEvent] handles_on_exn)
  fix kernel
  show "handles (owned HEvent kernel) (andThen (createEvent cl ctx 0) (\<lambda>target.
      ret \<lparr>kernel_completed = kernel, target_downloaded = target, ready = True\<rparr>))
    frame_handles (owned HEvent kernel)"
  proof (rule handles_andThen)
    show "handles (owned HEvent kernel) (createEvent cl ctx 0)
        (\<lambda>t. owned HEvent t + owned HEvent kernel) (owned HEvent kernel)"
      using handles_frame [OF handles_createEvent, of "owned HEvent kernel"] by simp
    show "handles (owned HEvent t + owned HEvent kernel)
        (ret \<lparr>kernel_completed = kernel, target_downloaded = t, ready = True\<rparr>)
        frame_handles (owned HEvent kernel)" for t
      by (rule handles_post [OF handles_ret]) (simp_all add: frame_handles_def ac_simps)
  qed
qed (rule handles_release)

lemma handles_Device_add_frames:
  "handles (frames_handles fs) (Device_add_frames cl ctx n fs) frames_handles {#}"
proof (induction n arbitrary: fs)
  case 0
  then show ?case by (simp add: handles_ret)
next
  case (Suc n)
  have new: "handles (frames_handles fs) (Frame_new cl ctx) (\<lambda>f. frames_handles (fs @ [f])) (frames_handles fs)"
    by (rule handles_post [OF handles_frame [OF handles_Frame_new, of "frames_handles fs"]])
      (simp_all add: frames_handles_def ac_simps)
  have "handles (frames_handles fs) (cleanups (map (Frame_release cl) fs)) (\<lambda>_. {#}) {#}"
    using handles_cleanups [of fs frame_handles "Frame_release cl" "{#}" "{#}"] handles_Frame_release
    by (simp add: frames_handles_def)
  then show ?case using new Suc by (auto intro!: handles_andThen handles_on_exn)
qed

lemma handles_getDeviceType: "handles {#} (getDeviceType cl d) (\<lambda>_. {#}) {#}"
  unfolding getDeviceType_def
  by (rule handles_andThen [OF handles_checked handles_ret [of "\<lambda>_. {#}"]]) simp

theorem Device_new_no_leak: "handles {#} (Device_new cl n d) device_handles {#}"
  unfolding Device_new_def
proof (intro handles_andThen [OF handles_getDeviceType] handles_andThen [OF handles_create] handles_on_exn)
  fix mask_bits ctx
  show "handles (owned HContext ctx) (andThen (create_handle cl HQueue (CreateCommandQueue ctx d)) (\<lambda>queue.
      on_exn (andThen (Device_add_frames cl ctx n []) (\<lambda>fs.
          ret \<lparr>device_id = d, type_mask = mask_bits, dev_context = ctx, command_queue = queue, dev_frames = fs\<rparr>))
        (unique_release cl HQueue queue))) device_handles (owned HContext ctx)"
  proof (rule handles_andThen)
    show "handles (owned HContext ctx) (create_handle cl HQueue (CreateCommandQueue ctx d))
        (\<lambda>q. owned HQueue q + owned HContext ctx) (owned HContext ctx)"
      using handles_frame [where F = "owned HContext ctx", OF handles_create [where c = "CreateCommandQueue ctx d"]]
      by simp
    fix queue
    let ?own = "owned HQueue queue + owned HContext ctx"
    have "handles ?own (Device_add_frames cl ctx n []) (\<lambda>fs. frames_handles fs + ?own) ?own"
      using handles_frame [where F = ?own, OF handles_Device_add_frames [of "[]"]]
      by (simp add: frames_handles_def)
    moreover have "handles (frames_handles fs + ?own) (ret \<lparr>device_id = d, type_mask = mask_bits,
        dev_context = ctx, command_queue = queue, dev_frames = fs\<rparr>) device_handles ?own" for fs
      by (rule handles_post [OF handles_ret]) (simp_all add: device_handles_def ac_simps)
    ultimately show "handles ?own (on_exn (andThen (Device_add_frames cl ctx n []) (\<lambda>fs.
          ret \<lparr>device_id = d, type_mask = mask_bits, dev_context = ctx, command_queue = queue, dev_frames = fs\<rparr>))
        (unique_release cl HQueue queue)) device_handles (owned HContext ctx)"
      by (intro handles_on_exn [OF handles_andThen handles_release_frame])
  qed
qed (simp_all add: handles_release)

theorem buildKernelFromSource_no_leak:
  "handles {#} (buildKernelFromSource cl dev source name) (owned HKernel) {#}"
  unfolding buildKernelFromSource_def
proof (intro handles_andThen [OF handles_create])
  fix program
  let ?p = "owned HProgram program"
  let ?failed = "(andThen (cl_checked cl (GetProgramBuildInfo program (device_id dev) 0)) (\<lambda>r.
          andThen (cl_checked cl (GetProgramBuildInfo program (device_id dev) (cl_size r))) (\<lambda>r'.
          throw (KernelCompilationException (filled (cl_size r) (cl_text r'))))) :: nat cl_act)"
  have failed: "handles ?p ?failed (\<lambda>k. owned HKernel k + ?p) ?p"
    by (intro handles_andThen [OF handles_checked]) (simp_all add: handles_throw)
  have made: "handles ?p (cl_do cl (CreateKernel program name)) (\<lambda>r. owned HKernel (cl_handle r) + ?p) ?p"
    by (simp add: handles_def cl_do_def live_snoc live_step_def ac_simps)
  have checked: "handles (owned HKernel k + ?p) (if st = - 46 then throw e1 else if st = - 47 then throw e2
      else andThen (check st) (\<lambda>_. ret k)) (\<lambda>k. owned HKernel k + ?p) (owned HKernel k + ?p)" for st k e1 e2
    by (intro handles_if handles_throw handles_andThen [OF handles_check] handles_ret [of "\<lambda>k. owned HKernel k + ?p"])
  show "handles ?p (scoped
       (andThen (cl_do cl (BuildProgram program)) (\<lambda>r.
        if cl_status r = - 11 then
          andThen (cl_checked cl (GetProgramBuildInfo program (device_id dev) 0)) (\<lambda>r.
          andThen (cl_checked cl (GetProgramBuildInfo program (device_id dev) (cl_size r))) (\<lambda>r'.
          throw (KernelCompilationException (filled (cl_size r) (cl_text r')))))
        else
          andThen (check (cl_status r)) (\<lambda>_.
          andThen (cl_do cl (CreateKernel program name)) (\<lambda>r.
          on_exn
            (if cl_status r = - 46 then
               throw (KernelCompilationException
                 (''Program does not contain kernel '' @ CHR 0x27 # name @ [CHR 0x27]))
             else if cl_status r = - 47 then
               throw (KernelCompilationException
                 (''Invalid defintion of kernel '' @ CHR 0x27 # name @ [CHR 0x27]))
             else andThen (check (cl_status r)) (\<lambda>_. ret (cl_handle r)))
            (unique_release cl HKernel (cl_handle r))))))
       (unique_release cl HProgram program)) (owned HKernel) {#}"
  proof (rule handles_scoped)
    show "handles ?p (unique_release cl HProgram program) (\<lambda>_. {#}) {#}" by (rule handles_release)
    show "handles (owned HKernel k + ?p) (unique_release cl HProgram program) (\<lambda>_. owned HKernel k) {#}" for k
      using handles_release_frame [of HProgram program "owned HKernel k"] by (simp add: ac_simps)
  qed (intro handles_andThen [OF handles_do], simp,
      auto intro!: failed handles_andThen [OF handles_check] handles_andThen [OF made] handles_on_exn
        checked handles_release_frame)
qed simp

section \<open>Platforms without devices\<close>

text \<open>
  \<open>clGetDeviceIDs\<close> answers with an error, not with zero devices, for a platform that has no device of
  the type. The call is checked, so that one such platform hides the devices of all others.
\<close>

lemma platform_devices_fails:
  assumes "p \<in> set platforms" "\<And>h. cl_status (cl h (GetDeviceIDs p types 0)) \<noteq> 0"
  shows "\<exists>e hist'. platform_devices cl types platforms devices hist = Some (Inl (CLException e), hist')"
  using assms(1)
proof (induction platforms arbitrary: devices hist)
  case (Cons q ps)
  show ?case
  proof (cases "p = q")
    case True
    then show ?thesis
      using assms(2) by (simp add: andThen_def cl_checked_def cl_do_def check_def throw_def)
  next
    case False
    then show ?thesis
      using Cons by (auto simp: andThen_def cl_checked_def cl_do_def check_def throw_def ret_def)
  qed
qed simp

lemma handles_deviceIDs: "handles {#} (deviceIDs cl types) (\<lambda>_. {#}) {#}"
proof -
  have "handles {#} (platform_devices cl types ps ds) (\<lambda>_. {#}) {#}" for ps ds
  proof (induction ps arbitrary: ds)
    case Nil
    then show ?case using handles_ret [of "\<lambda>_. {#}"] by simp
  next
    case (Cons p ps)
    then show ?case by (simp, intro handles_andThen [OF handles_checked]) simp_all
  qed
  then show ?thesis
    unfolding deviceIDs_def by (intro handles_andThen [OF handles_checked]) simp_all
qed

end
