(* ===== verification/Renderer.thy ===== *)
theory Renderer
  imports Cl_Device Render_Client
begin

text \<open>
  The renderer of the worker (\<open>include/client/renderer.hpp\<close>, \<open>src/client/renderer.cpp\<close>) as far as it
  calls OpenCL: choosing the devices, making a task with its kernels and render targets, and
  launching a frame. How frames, callbacks and compression jobs interleave is in \<open>Render_Run\<close>. The
  lines written to the log are left out.
\<close>

section \<open>Choosing the devices\<close>

definition catch_if :: "(client_exn \<Rightarrow> bool) \<Rightarrow> 'a cl_act \<Rightarrow> 'a cl_act \<Rightarrow> 'a cl_act" where
  "catch_if P m h = (\<lambda>hist. case m hist of
       Some (Inl e, hist') \<Rightarrow> if P e then h hist' else Some (Inl e, hist')
     | r \<Rightarrow> r)"

fun is_CLException :: "client_exn \<Rightarrow> bool" where
  "is_CLException (CLException st) = True"
| "is_CLException _ = False"

definition version_less :: "u32 \<times> u32 \<Rightarrow> u32 \<times> u32 \<Rightarrow> bool" where
  "version_less v w = (fst v < fst w \<or> fst v = fst w \<and> snd v < snd w)"

text \<open>\<open>n\<close> is the number of frames of a device.\<close>

definition addDevice :: "opencl \<Rightarrow> nat \<Rightarrow> nat \<Rightarrow> Device list \<Rightarrow> Device list cl_act" where
  "addDevice cl n d devices =
     andThen (catch_if is_CLException (andThen (getDeviceName cl d) (\<lambda>_. ret True)) (ret False)) (\<lambda>named.
     if \<not> named then ret devices
     else
       catch_if is_CLException
         (andThen (isDeviceAvailable cl d) (\<lambda>available.
          if \<not> available then ret devices
          else
            andThen
              (catch_if (\<lambda>e. e = InvalidCLVersionStringException)
                (andThen (getDeviceVersion cl d CL_DEVICE_VERSION) (\<lambda>version.
                 ret (\<not> version_less version (1, 2))))
                (ret False)) (\<lambda>supported.
            if \<not> supported then ret devices
            else andThen (Device_new cl n d) (\<lambda>dev. ret (devices @ [dev])))))
         (ret devices))"

fun add_devices :: "opencl \<Rightarrow> nat \<Rightarrow> nat list \<Rightarrow> Device list \<Rightarrow> Device list cl_act" where
  "add_devices cl n [] devices = ret devices"
| "add_devices cl n (d # ds) devices = andThen (addDevice cl n d devices) (add_devices cl n ds)"

abbreviation CL_DEVICE_TYPE_ALL :: nat where "CL_DEVICE_TYPE_ALL \<equiv> 0xFFFFFFFF"

definition Renderer_new :: "opencl \<Rightarrow> nat \<Rightarrow> Device list cl_act" where
  "Renderer_new cl n =
     andThen (deviceIDs cl CL_DEVICE_TYPE_ALL) (\<lambda>device_ids.
     andThen (add_devices cl n device_ids []) (\<lambda>devices.
     if devices = [] then throw NoDeviceException else ret devices))"

text \<open>The queues of all devices; also what the destructor does first.\<close>

fun finishAll :: "opencl \<Rightarrow> Device list \<Rightarrow> unit cl_act" where
  "finishAll cl [] = ret ()"
| "finishAll cl (dev # devs) =
     andThen (cl_checked cl (Finish (command_queue dev))) (\<lambda>_. finishAll cl devs)"

section \<open>Making a task\<close>

record DeviceTaskInfo =
  info_kernel :: nat
  render_targets :: "nat list"
  host_render_targets :: "bytes list"

record RenderTask =
  task_info :: RenderTaskInfo
  device_info :: "DeviceTaskInfo list"
  cumulative_frame_time :: u64

text \<open>The size of a host buffer is computed in 32 bits.\<close>

definition host_target :: "RenderTaskInfo \<Rightarrow> bytes" where
  "host_target info = replicate (unat (4 * image_width info * image_height info)) 0xAA"

definition release_images :: "opencl \<Rightarrow> nat list \<Rightarrow> unit cl_act" where
  "release_images cl images = cleanups (map (unique_release cl HMem) images)"

fun create_targets :: "opencl \<Rightarrow> Device \<Rightarrow> RenderTaskInfo \<Rightarrow> nat \<Rightarrow> nat list \<Rightarrow> nat list cl_act" where
  "create_targets cl dev info 0 images = ret images"
| "create_targets cl dev info (Suc n) images =
     andThen
       (on_exn (create2DImage cl dev (image_width info) (image_height info)) (release_images cl images))
       (\<lambda>image. create_targets cl dev info n (images @ [image]))"

definition release_info :: "opencl \<Rightarrow> DeviceTaskInfo \<Rightarrow> unit cl_act" where
  "release_info cl di =
     andThen (release_images cl (render_targets di)) (\<lambda>_. unique_release cl HKernel (info_kernel di))"

definition create_info :: "opencl \<Rightarrow> RenderTaskInfo \<Rightarrow> Device \<Rightarrow> DeviceTaskInfo cl_act" where
  "create_info cl info dev =
     andThen (buildKernelFromSource cl dev (kernel_source info) ''render'') (\<lambda>kernel.
     on_exn
       (andThen (create_targets cl dev info (length (dev_frames dev)) []) (\<lambda>images.
        ret \<lparr>info_kernel = kernel, render_targets = images,
             host_render_targets = map (\<lambda>_. host_target info) images\<rparr>))
       (unique_release cl HKernel kernel))"

fun create_infos ::
  "opencl \<Rightarrow> RenderTaskInfo \<Rightarrow> Device list \<Rightarrow> DeviceTaskInfo list \<Rightarrow> DeviceTaskInfo list cl_act" where
  "create_infos cl info [] dis = ret dis"
| "create_infos cl info (dev # devs) dis =
     andThen (on_exn (create_info cl info dev) (cleanups (map (release_info cl) dis))) (\<lambda>di.
     create_infos cl info devs (dis @ [di]))"

definition createRenderTask :: "opencl \<Rightarrow> Device list \<Rightarrow> RenderTaskInfo \<Rightarrow> RenderTask cl_act" where
  "createRenderTask cl devices info =
     andThen (create_infos cl info devices []) (\<lambda>dis.
     ret \<lparr>task_info = info, device_info = dis, cumulative_frame_time = 0\<rparr>)"

section \<open>Launching a frame\<close>

text \<open>
  The calls of \<open>launch\<close>, in order. The result is the status of the first one that fails, if any, and
  the frame: a command that succeeds stores its event over the handle that the frame had.
\<close>

definition launch ::
  "opencl \<Rightarrow> Device \<Rightarrow> DeviceTaskInfo \<Rightarrow> RenderTaskInfo \<Rightarrow> nat \<Rightarrow> u32 \<Rightarrow> (int option \<times> Frame) cl_act" where
  "launch cl dev di info frame_index timestamp =
     (let frame = dev_frames dev ! frame_index; target = render_targets di ! frame_index;
          w = image_width info; h = image_height info;
          guard = (\<lambda>r f next. if cl_status r \<noteq> 0 then ret (Some (cl_status r), f) else next) in
      andThen (cl_do cl (SetKernelArgMem (info_kernel di) 0 target)) (\<lambda>r. guard r frame (
      andThen (cl_do cl (SetKernelArgUint (info_kernel di) 1 timestamp)) (\<lambda>r. guard r frame (
      andThen (cl_do cl (EnqueueNDRangeKernel (command_queue dev) (info_kernel di) w h)) (\<lambda>r.
      guard r frame (let frame = frame\<lparr>kernel_completed := cl_handle r\<rparr> in
      andThen (cl_do cl (EnqueueReadImage (command_queue dev) target w h (kernel_completed frame))) (\<lambda>r.
      guard r frame (let frame = frame\<lparr>target_downloaded := cl_handle r\<rparr> in
      andThen (cl_do cl (SetEventCallback (target_downloaded frame))) (\<lambda>r.
      guard r frame (ret (None, frame))))))))))))"

section \<open>What choosing the devices guarantees\<close>

lemma handles_catch_if:
  assumes "handles P m Q P" "handles P h Q P" "\<not> Pe Terminate"
  shows "handles P (catch_if Pe m h) Q P"
proof (rule handlesI)
  fix hist L v hist' assume l: "live hist = L + P" and r: "catch_if Pe m h hist = Some (Inr v, hist')"
  then consider "m hist = Some (Inr v, hist')"
    | e mid where "m hist = Some (Inl e, mid)" "Pe e" "h mid = Some (Inr v, hist')"
    by (auto simp: catch_if_def split: option.splits sum.splits if_splits)
  then show "live hist' = L + Q v"
  proof cases
    case 1
    then show ?thesis by (rule handlesD(1) [OF assms(1) l])
  next
    case 2
    then have "live mid = L + P" using handlesD(2) [OF assms(1) l 2(1)] assms(3) by blast
    then show ?thesis using handlesD(1) [OF assms(2)] 2(3) by blast
  qed
next
  fix hist L e hist' assume l: "live hist = L + P" and r: "catch_if Pe m h hist = Some (Inl e, hist')"
  then consider "m hist = Some (Inl e, hist')"
    | e' mid where "m hist = Some (Inl e', mid)" "Pe e'" "h mid = Some (Inl e, hist')"
    by (auto simp: catch_if_def split: option.splits sum.splits if_splits)
  then show "e = Terminate \<or> live hist' = L + P"
  proof cases
    case 1
    then show ?thesis by (rule handlesD(2) [OF assms(1) l])
  next
    case 2
    then have "live mid = L + P" using handlesD(2) [OF assms(1) l 2(1)] assms(3) by blast
    then show ?thesis using handlesD(2) [OF assms(2)] 2(3) by blast
  qed
qed

lemma handles_keeps_checked:
  "silent c \<Longrightarrow> (\<And>r. handles P (f r) Q P) \<Longrightarrow> handles P (andThen (cl_checked cl c) f) Q P"
  by (rule handles_andThen [OF handles_checked])

lemma handles_device_string: "handles P (device_string cl d param) (\<lambda>_. P) P"
  unfolding device_string_def
  by (intro handles_keeps_checked handles_ret [of "\<lambda>_. P"]) simp_all

definition devices_handles :: "Device list \<Rightarrow> (handle_kind \<times> nat) multiset" where
  "devices_handles devs = sum_list (map device_handles devs)"

lemma handles_addDevice:
  "handles (devices_handles devs) (addDevice cl n d devs) devices_handles (devices_handles devs)"
proof -
  let ?H = "devices_handles devs"
  have new: "handles ?H (andThen (Device_new cl n d) (\<lambda>dev. ret (devs @ [dev]))) devices_handles ?H"
    by (rule handles_andThen [OF handles_post [OF handles_frame [where F = ?H, OF Device_new_no_leak]]
          handles_ret]) (simp_all add: devices_handles_def ac_simps)
  have q: "handles ?H (andThen (getDeviceName cl d) (\<lambda>_. ret True)) (\<lambda>_. ?H) ?H"
    "handles ?H (isDeviceAvailable cl d) (\<lambda>_. ?H) ?H"
    "handles ?H (andThen (getDeviceVersion cl d p) (\<lambda>v. ret (f v))) (\<lambda>_. ?H) ?H" for f :: "u32 \<times> u32 \<Rightarrow> bool" and p
    unfolding getDeviceName_def isDeviceAvailable_def getDeviceVersion_def
    by (intro handles_andThen [OF handles_device_string] handles_keeps_checked
        handles_andThen [of ?H _ "\<lambda>_. ?H"] handles_ret [of "\<lambda>_. ?H"] | simp add: handles_throw handles_ret [of "\<lambda>_. ?H"] split: option.split)+
  show ?thesis
    unfolding addDevice_def
    by (intro handles_andThen [OF handles_catch_if [OF q(1)]] handles_andThen [OF q(2)]
        handles_andThen [OF handles_catch_if [OF q(3)]] handles_catch_if new handles_if handles_ret
        handles_ret [of "\<lambda>_. ?H"]) simp_all
qed

text \<open>\<open>raises P m\<close>: \<open>m\<close> returns, or throws an exception with \<open>P\<close>.\<close>

definition raises :: "(client_exn \<Rightarrow> bool) \<Rightarrow> 'a cl_act \<Rightarrow> bool" where
  "raises P m \<longleftrightarrow> (\<forall>hist. \<exists>r hist'. m hist = Some (r, hist') \<and> (\<forall>e. r = Inl e \<longrightarrow> P e))"

lemma raises_ret: "raises P (ret v)"
  and raises_throw: "P e \<Longrightarrow> raises P (throw e)"
  and raises_do: "raises P (cl_do cl c)"
  by (simp_all add: raises_def ret_def throw_def cl_do_def)

lemma raises_andThen:
  assumes m: "raises P m" and f: "\<And>v. raises P (f v)"
  shows "raises P (andThen m f)"
  unfolding raises_def
proof
  fix hist
  obtain r mid where r: "m hist = Some (r, mid)" "\<forall>e. r = Inl e \<longrightarrow> P e"
    using m unfolding raises_def by blast
  show "\<exists>r hist'. andThen m f hist = Some (r, hist') \<and> (\<forall>e. r = Inl e \<longrightarrow> P e)"
  proof (cases r)
    case (Inl e)
    then show ?thesis using r by (simp add: andThen_def)
  next
    case (Inr v)
    have "raises P (f v)" by (rule f)
    then obtain r' h' where "f v mid = Some (r', h')" "\<forall>e. r' = Inl e \<longrightarrow> P e"
      unfolding raises_def by blast
    then show ?thesis using r(1) Inr by (simp add: andThen_def)
  qed
qed

lemma raises_on_exn:
  assumes m: "raises P m" and c: "raises P cleanup" and t: "P Terminate"
  shows "raises P (on_exn m cleanup)"
  unfolding raises_def
proof
  fix hist
  obtain r mid where r: "m hist = Some (r, mid)" "\<forall>e. r = Inl e \<longrightarrow> P e"
    using m unfolding raises_def by blast
  show "\<exists>r hist'. on_exn m cleanup hist = Some (r, hist') \<and> (\<forall>e. r = Inl e \<longrightarrow> P e)"
  proof (cases r)
    case (Inl e)
    have "raises P (andThen cleanup (\<lambda>_. throw e) :: 'a cl_act)"
      using Inl r(2) by (intro raises_andThen [OF c] raises_throw) simp
    then show ?thesis using r(1) Inl t unfolding raises_def by (simp add: on_exn_def)
  next
    case (Inr v)
    then show ?thesis using r(1) by (simp add: on_exn_def)
  qed
qed

lemma raises_catch_if:
  assumes m: "raises P' m" and h: "raises P h" and "\<And>e. P' e \<Longrightarrow> \<not> Pe e \<Longrightarrow> P e"
  shows "raises P (catch_if Pe m h)"
  unfolding raises_def
proof
  fix hist
  obtain r mid where r: "m hist = Some (r, mid)" "\<forall>e. r = Inl e \<longrightarrow> P' e"
    using m unfolding raises_def by blast
  then show "\<exists>r hist'. catch_if Pe m h hist = Some (r, hist') \<and> (\<forall>e. r = Inl e \<longrightarrow> P e)"
    using assms(3) h unfolding raises_def by (cases r) (auto simp: catch_if_def)
qed

lemma raises_weaken: "raises P m \<Longrightarrow> (\<And>e. P e \<Longrightarrow> Q e) \<Longrightarrow> raises Q m"
  unfolding raises_def by blast

definition only_cl :: "client_exn \<Rightarrow> bool" where
  "only_cl e \<longleftrightarrow> is_CLException e \<or> e = Terminate"

lemma only_cl_simps [simp]: "only_cl (CLException st)" "only_cl Terminate"
  "\<not> only_cl InvalidCLVersionStringException" "\<not> only_cl NoDeviceException"
  "\<not> only_cl (KernelCompilationException msg)"
  by (simp_all add: only_cl_def)

lemma raises_check: "raises only_cl (check st)"
  by (simp add: check_def raises_throw raises_ret)

lemma raises_checked: "raises only_cl (cl_checked cl c)"
  unfolding cl_checked_def by (intro raises_andThen raises_do raises_check raises_ret)

lemma raises_release: "raises only_cl (unique_release cl k h)"
  by (auto simp: unique_release_def intro!: raises_ret raises_andThen raises_do raises_throw)

lemma raises_create: "raises only_cl (create_handle cl k c)"
  unfolding create_handle_def
  by (intro raises_andThen raises_do raises_on_exn raises_check raises_ret raises_release) simp

lemma raises_cleanups: "(\<And>x. x \<in> set ms \<Longrightarrow> raises P x) \<Longrightarrow> raises P (cleanups ms)"
  by (induction ms) (auto intro: raises_ret raises_andThen)

lemmas raises_rules = raises_andThen raises_do raises_check raises_ret raises_checked raises_release
  raises_create raises_on_exn

lemma raises_Device_new: "raises only_cl (Device_new cl n d)"
proof -
  have ev: "raises only_cl (createEvent cl ctx st)" for ctx st
    unfolding createEvent_def by (intro raises_rules) simp
  have fr: "raises only_cl (Frame_new cl ctx)" for ctx
    unfolding Frame_new_def by (intro raises_rules ev) simp
  have "raises only_cl (Device_add_frames cl ctx n fs)" for ctx fs
  proof (induction n arbitrary: fs)
    case (Suc n)
    have "raises only_cl (cleanups (map (Frame_release cl) fs))"
      by (rule raises_cleanups) (auto simp: Frame_release_def intro: raises_rules)
    then show ?case using fr Suc by (auto intro!: raises_rules)
  qed (simp add: raises_ret)
  then show ?thesis
    unfolding Device_new_def getDeviceType_def by (intro raises_rules) simp_all
qed

text \<open>
  Adding a device never throws: whatever OpenCL answers, the device is added or skipped (a failing
  release apart, which ends the program).
\<close>

lemma raises_addDevice: "raises (\<lambda>e. e = Terminate) (addDevice cl n d devs)"
proof -
  have cl: "e = Terminate" if "only_cl e" "\<not> is_CLException e" for e
    using that by (auto simp: only_cl_def)
  have str: "raises only_cl (device_string cl d p)" for p
    unfolding device_string_def by (intro raises_rules)
  have v: "raises (\<lambda>e. only_cl e \<or> e = InvalidCLVersionStringException)
      (andThen (getDeviceVersion cl d p) (\<lambda>v. ret (f v)))" for f :: "u32 \<times> u32 \<Rightarrow> bool" and p
    unfolding getDeviceVersion_def
    by (intro raises_andThen raises_ret raises_weaken [OF str])
      (auto simp: raises_ret raises_throw split: option.split)
  have inner: "raises only_cl (andThen (isDeviceAvailable cl d) (\<lambda>available.
      if \<not> available then ret devs
      else andThen (catch_if (\<lambda>e. e = InvalidCLVersionStringException)
            (andThen (getDeviceVersion cl d CL_DEVICE_VERSION) (\<lambda>version. ret (\<not> version_less version (1, 2))))
            (ret False)) (\<lambda>supported.
          if \<not> supported then ret devs
          else andThen (Device_new cl n d) (\<lambda>dev. ret (devs @ [dev])))))"
  proof (intro raises_andThen)
    show "raises only_cl (isDeviceAvailable cl d)"
      unfolding isDeviceAvailable_def by (intro raises_rules)
    have c: "raises only_cl (catch_if (\<lambda>e. e = InvalidCLVersionStringException)
        (andThen (getDeviceVersion cl d CL_DEVICE_VERSION) (\<lambda>version. ret (\<not> version_less version (1, 2))))
        (ret False))"
      by (rule raises_catch_if [OF v raises_ret]) auto
    show "raises only_cl (if \<not> available then ret devs
      else andThen (catch_if (\<lambda>e. e = InvalidCLVersionStringException)
            (andThen (getDeviceVersion cl d CL_DEVICE_VERSION) (\<lambda>version. ret (\<not> version_less version (1, 2))))
            (ret False)) (\<lambda>supported.
          if \<not> supported then ret devs
          else andThen (Device_new cl n d) (\<lambda>dev. ret (devs @ [dev]))))" for available
      by (auto intro!: raises_andThen [OF c] raises_andThen [OF raises_Device_new] raises_ret)
  qed
  have name: "raises only_cl (andThen (getDeviceName cl d) (\<lambda>_. ret True))"
    unfolding getDeviceName_def by (intro raises_andThen str raises_ret)
  show ?thesis
    unfolding addDevice_def
    by (intro raises_andThen [OF raises_catch_if [OF name raises_ret cl]])
      (auto intro: raises_ret raises_catch_if [OF inner raises_ret cl])
qed

lemma raises_add_devices: "raises (\<lambda>e. e = Terminate) (add_devices cl n ds devs)"
  by (induction ds arbitrary: devs) (auto intro: raises_ret raises_andThen raises_addDevice)

lemma handles_raises_Terminate:
  assumes "handles P m Q E" "raises (\<lambda>e. e = Terminate) m" shows "handles P m Q E'"
proof (rule handlesI)
  fix hist L e hist' assume "m hist = Some (Inl e, hist')"
  then have "e = Terminate" using assms(2) [unfolded raises_def, rule_format, of hist] by auto
  then show "e = Terminate \<or> live hist' = L + E'" ..
qed (rule handlesD(1) [OF assms(1)])

lemma handles_add_devices:
  "handles (devices_handles devs) (add_devices cl n ds devs) devices_handles {#}"
proof (induction ds arbitrary: devs)
  case (Cons d ds)
  have "handles (devices_handles devs) (addDevice cl n d devs) devices_handles {#}"
    by (rule handles_raises_Terminate [OF handles_addDevice raises_addDevice])
  then show ?case using Cons by (auto intro: handles_andThen)
qed (simp add: handles_ret)

text \<open>C20: 
  Whatever OpenCL answers, making a renderer returns or throws. It throws because the devices cannot
  be listed or because none is usable, and then holds no handle; otherwise it holds exactly the
  handles of its devices, those of skipped devices having been released.
\<close>

theorem Renderer_new_outcome:
  "\<exists>r hist'. Renderer_new cl n hist = Some (r, hist') \<and>
    (case r of
       Inr devices \<Rightarrow> devices \<noteq> [] \<and> live hist' = live hist + devices_handles devices
     | Inl e \<Rightarrow> e = Terminate \<or>
         live hist' = live hist \<and>
         (e = NoDeviceException \<or> (\<exists>st. e = CLException st \<and>
            fst (the (deviceIDs cl CL_DEVICE_TYPE_ALL hist)) = Inl e)))"
proof -
  have ids: "raises only_cl (deviceIDs cl types)" for types
  proof -
    have "raises only_cl (platform_devices cl types ps ds)" for ps ds
      by (induction ps arbitrary: ds) (auto intro!: raises_rules)
    then show ?thesis unfolding deviceIDs_def by (intro raises_rules)
  qed
  obtain r mid where r: "deviceIDs cl CL_DEVICE_TYPE_ALL hist = Some (r, mid)" "\<forall>e. r = Inl e \<longrightarrow> only_cl e"
    using ids [of CL_DEVICE_TYPE_ALL] unfolding raises_def by blast
  show ?thesis
  proof (cases r)
    case (Inl e)
    then have "e = Terminate \<or> live mid = live hist"
      using handlesD(2) [OF handles_deviceIDs, of hist "live hist"] r(1) by simp
    then show ?thesis
      using Inl r by (cases e) (auto simp: Renderer_new_def andThen_def)
  next
    case (Inr ids)
    then have mid: "live mid = live hist"
      using handlesD(1) [OF handles_deviceIDs, of hist "live hist"] r(1) by simp
    obtain r' h' where r': "add_devices cl n ids [] mid = Some (r', h')" "\<forall>e. r' = Inl e \<longrightarrow> e = Terminate"
      using raises_add_devices [of cl n ids "[]"] unfolding raises_def by blast
    show ?thesis
    proof (cases r')
      case (Inl e)
      then show ?thesis using r(1) Inr r' by (simp add: Renderer_new_def andThen_def)
    next
      case (Inr devs)
      then have "live h' = live hist + devices_handles devs"
        using handlesD(1) [OF handles_add_devices, of mid "live hist" "[]"] mid r'(1)
        by (simp add: devices_handles_def)
      then show ?thesis
        using r(1) \<open>r = Inr ids\<close> r'(1) Inr
        by (cases "devs = []") (simp_all add: Renderer_new_def andThen_def throw_def ret_def devices_handles_def)
    qed
  qed
qed

text \<open>
  One platform that has no device makes the worker fail, although another has a usable one: the error
  that OpenCL answers with for such a platform is taken as an error of the whole enumeration.
\<close>

theorem empty_platform_fails:
  assumes "\<And>h. cl h (GetPlatformIDs 0) = r" "\<And>h. cl h (GetPlatformIDs (cl_size r)) = r'"
    and "cl_status r = 0" "cl_status r' = 0" "p \<in> set (filled_ids (cl_size r) (cl_ids r'))"
    and "\<And>h. cl_status (cl h (GetDeviceIDs p CL_DEVICE_TYPE_ALL 0)) = - 1"
  shows "\<exists>st hist'. Renderer_new cl n hist = Some (Inl (CLException st), hist')"
proof -
  let ?ps = "filled_ids (cl_size r) (cl_ids r')"
  have "\<exists>e h'. platform_devices cl CL_DEVICE_TYPE_ALL ?ps [] h = Some (Inl (CLException e), h')" for h
    by (rule platform_devices_fails [OF assms(5)]) (simp add: assms(6))
  then obtain e h' where "deviceIDs cl CL_DEVICE_TYPE_ALL hist = Some (Inl (CLException e), h')"
    using assms(1-4)
    by (simp add: deviceIDs_def cl_checked_def cl_do_def check_def andThen_def ret_def) blast
  then show ?thesis by (simp add: Renderer_new_def andThen_def)
qed

section \<open>What making a task guarantees\<close>

definition images_handles :: "nat list \<Rightarrow> (handle_kind \<times> nat) multiset" where
  "images_handles images = sum_list (map (owned HMem) images)"

definition info_handles :: "DeviceTaskInfo \<Rightarrow> (handle_kind \<times> nat) multiset" where
  "info_handles di = images_handles (render_targets di) + owned HKernel (info_kernel di)"

definition infos_handles :: "DeviceTaskInfo list \<Rightarrow> (handle_kind \<times> nat) multiset" where
  "infos_handles dis = sum_list (map info_handles dis)"

lemma handles_release_images: "handles (images_handles is + F) (release_images cl is) (\<lambda>_. F) E"
  unfolding release_images_def images_handles_def by (rule handles_cleanups) (rule handles_release_frame)

lemma handles_release_info: "handles (info_handles di + F) (release_info cl di) (\<lambda>_. F) E"
  unfolding release_info_def info_handles_def
  using handles_andThen [OF handles_release_images [where F = "owned HKernel (info_kernel di) + F"]
      handles_release_frame]
  by (simp add: ac_simps)

lemma handles_create_targets:
  "handles (images_handles is) (create_targets cl dev info n is) images_handles {#}"
proof (induction n arbitrary: "is")
  case 0
  then show ?case by (simp add: handles_ret)
next
  case (Suc n)
  have new: "handles (images_handles is) (create2DImage cl dev w h) (\<lambda>i. images_handles (is @ [i]))
      (images_handles is)" for w h
    unfolding create2DImage_def
    by (rule handles_post [OF handles_frame [where F = "images_handles is", OF handles_create]])
      (simp_all add: images_handles_def ac_simps)
  have "handles (images_handles is) (release_images cl is) (\<lambda>_. {#}) {#}"
    using handles_release_images [where F = "{#}"] by simp
  then show ?case using new Suc by (auto intro!: handles_andThen handles_on_exn)
qed

lemma handles_create_info: "handles {#} (create_info cl info dev) info_handles {#}"
  unfolding create_info_def
proof (intro handles_andThen [OF buildKernelFromSource_no_leak] handles_on_exn)
  fix kernel
  let ?k = "owned HKernel kernel"
  show "handles ?k (andThen (create_targets cl dev info (length (dev_frames dev)) []) (\<lambda>images.
        ret \<lparr>info_kernel = kernel, render_targets = images,
             host_render_targets = map (\<lambda>_. host_target info) images\<rparr>)) info_handles ?k"
  proof (rule handles_andThen)
    show "handles ?k (create_targets cl dev info (length (dev_frames dev)) [])
        (\<lambda>is. images_handles is + ?k) ?k"
      using handles_frame [where F = ?k, OF handles_create_targets [of "[]"]]
      by (simp add: images_handles_def)
    show "handles (images_handles is + ?k) (ret \<lparr>info_kernel = kernel, render_targets = is,
             host_render_targets = map (\<lambda>_. host_target info) is\<rparr>) info_handles ?k" for "is"
      by (rule handles_post [OF handles_ret]) (simp_all add: info_handles_def)
  qed
qed (rule handles_release)

text \<open>C21: 
  Making a task either gives a task, with a kernel for each device and an image for each of its
  frames and no other new handle, or throws and leaves nothing behind, wherever it failed.
\<close>

theorem createRenderTask_no_leak:
  "handles {#} (createRenderTask cl devices info) (\<lambda>task. infos_handles (device_info task)) {#}"
proof -
  have "handles (infos_handles dis) (create_infos cl info devs dis) infos_handles {#}" for dis devs
  proof (induction devs arbitrary: dis)
    case Nil
    then show ?case by (simp add: handles_ret)
  next
    case (Cons dev devs)
    have new: "handles (infos_handles dis) (create_info cl info dev) (\<lambda>di. infos_handles (dis @ [di]))
        (infos_handles dis)"
      by (rule handles_post [OF handles_frame [where F = "infos_handles dis", OF handles_create_info]])
        (simp_all add: infos_handles_def ac_simps)
    have "handles (infos_handles dis) (cleanups (map (release_info cl) dis)) (\<lambda>_. {#}) {#}"
      using handles_cleanups [of dis info_handles "release_info cl" "{#}" "{#}"] handles_release_info
      by (simp add: infos_handles_def)
    then show ?case using new Cons by (auto intro!: handles_andThen handles_on_exn)
  qed
  from this [of "[]" devices] have "handles {#} (create_infos cl info devices []) infos_handles {#}"
    by (simp add: infos_handles_def)
  then show ?thesis
    unfolding createRenderTask_def
    by (rule handles_andThen) (rule handles_post [OF handles_ret], simp_all)
qed

text \<open>
  The size of a host buffer wraps: reading the image back writes four bytes for each pixel, which fit
  exactly if their number is below \<open>2 ^ 32\<close>.
\<close>

theorem host_target_fits:
  "length (host_target info) \<ge> 4 * unat (image_width info) * unat (image_height info) \<longleftrightarrow>
    4 * unat (image_width info) * unat (image_height info) < 2 ^ 32"
proof -
  have l: "length (host_target info) = (4 * unat (image_width info) * unat (image_height info)) mod 2 ^ 32"
    unfolding host_target_def by (simp add: unat_word_ariths mod_mult_left_eq)
  show ?thesis
  proof
    assume "4 * unat (image_width info) * unat (image_height info) < 2 ^ 32"
    then show "4 * unat (image_width info) * unat (image_height info) \<le> length (host_target info)"
      unfolding l by (simp only: mod_less)
  next
    assume "4 * unat (image_width info) * unat (image_height info) \<le> length (host_target info)"
    also have "\<dots> < 2 ^ 32" unfolding l by (rule mod_less_divisor) simp
    finally show "4 * unat (image_width info) * unat (image_height info) < 2 ^ 32" .
  qed
qed

section \<open>What launching a frame leaks\<close>

text \<open>
  A successful launch replaces both events of the frame by new ones and releases none: the old ones
  stay live and nothing refers to them any more. Every rendered frame leaks two events.
\<close>

theorem launch_leaks_events:
  assumes "launch cl dev di info k timestamp hist = Some (Inr (None, f'), hist')"
  shows "live hist' = live hist + frame_handles f' \<and>
    (\<forall>c r. (c, r) \<in> set (drop (length hist) hist') \<longrightarrow> (\<forall>kind h. c \<noteq> Release kind h))"
  using assms
  by (auto simp: launch_def Let_def andThen_def cl_do_def ret_def live_append live_step_def frame_handles_def
      ac_simps split: if_splits)

end
