(* ===== verification/Render_Run.thy ===== *)
theory Render_Run
  imports Renderer
begin

text \<open>
  Rendering the frames of a task (\<open>Renderer::runUntilCompletion\<close>, \<open>schedule\<close>, \<open>wait\<close>,
  \<open>targetDownloaded\<close> and the compression job, \<open>src/client/renderer.cpp\<close>) as a state machine. The main
  thread, the callbacks of OpenCL and the jobs of the thread pool take turns; a step is what one of
  them does between two points where another may intervene. Commands of the device may complete in
  any order, a scheduled job may run at any time, and the clock is not modelled: the elapsed time of a
  frame is arbitrary.
\<close>

section \<open>State\<close>

text \<open>
  The main thread: looking for a free frame, about to launch on one, waiting for the command queues,
  waiting for the frames, or out of \<open>runUntilCompletion\<close> in one of three ways.
\<close>

datatype main_pc =
    Scheduling
  | Launching nat nat
  | Finishing
  | Waiting
  | Returned u64
  | Threw client_exn
  | DividedByZero

text \<open>
  \<open>ready_frames\<close> are the flags of the frames of each device. \<open>downloads\<close> are frames whose callback has
  not been called, \<open>comp_jobs\<close> the compression jobs that have not ended, with the time measured once the
  file is written. \<open>buffers\<close> says whose image a host buffer holds, and \<open>files\<close> lists the files written,
  each with the image that went into it. \<open>asleep\<close>: the main thread is blocked in \<open>cvar.wait\<close>.
  \<open>task_alive\<close>: the task has not been destroyed; \<open>fault\<close>: it was used after that.
\<close>

record run =
  stamps :: "u32 list"
  todo :: "u32 list"
  main :: main_pc
  asleep :: bool
  ready_frames :: "bool list list"
  downloads :: "(nat \<times> nat \<times> u32) list"
  comp_jobs :: "(nat \<times> nat \<times> u32 \<times> u64 option) list"
  errors :: "int list"
  buffers :: "nat \<times> nat \<Rightarrow> u32 option"
  files :: "(u32 \<times> u32 option) list"
  total_time :: u64
  task_alive :: bool
  fault :: bool

definition run_init :: "bool list list \<Rightarrow> u32 list \<Rightarrow> run" where
  "run_init frames ts =
     \<lparr>stamps = ts, todo = ts, main = Scheduling, asleep = False, ready_frames = frames, downloads = [],
      comp_jobs = [], errors = [], buffers = (\<lambda>_. None), files = [], total_time = 0, task_alive = True,
      fault = False\<rparr>"

section \<open>Frames\<close>

definition is_frame :: "bool list list \<Rightarrow> nat \<times> nat \<Rightarrow> bool" where
  "is_frame fl k \<longleftrightarrow> fst k < length fl \<and> snd k < length (fl ! fst k)"

definition is_ready :: "bool list list \<Rightarrow> nat \<times> nat \<Rightarrow> bool" where
  "is_ready fl k \<longleftrightarrow> is_frame fl k \<and> fl ! fst k ! snd k"

definition set_ready :: "nat \<times> nat \<Rightarrow> bool \<Rightarrow> bool list list \<Rightarrow> bool list list" where
  "set_ready k b fl = fl[fst k := (fl ! fst k)[snd k := b]]"

definition all_frames :: "bool list list \<Rightarrow> (nat \<times> nat) list" where
  "all_frames fl = concat (map (\<lambda>d. map (Pair d) [0 ..< length (fl ! d)]) [0 ..< length fl])"

text \<open>The first frame that is ready, by device and then by frame.\<close>

definition first_ready :: "bool list list \<Rightarrow> (nat \<times> nat) option" where
  "first_ready fl = List.find (\<lambda>(d, f). fl ! d ! f) (all_frames fl)"

definition any_unready :: "bool list list \<Rightarrow> bool" where
  "any_unready fl \<longleftrightarrow> fold (\<lambda>(d, f) b. b \<or> \<not> fl ! d ! f) (all_frames fl) False"

section \<open>Steps\<close>

text \<open>
  An exception leaves \<open>runUntilCompletion\<close> and destroys the task, which is a variable of the block
  around the call.
\<close>

definition threw :: "int \<Rightarrow> run \<Rightarrow> run" where
  "threw st s = s\<lparr>main := Threw (CLException st), task_alive := False\<rparr>"

text \<open>\<open>schedule\<close>: one round of its loop, which holds the mutex.\<close>

definition schedule_round :: "run \<Rightarrow> run" where
  "schedule_round s =
     (case errors s of
        e # _ \<Rightarrow> threw e s
      | [] \<Rightarrow>
          (case first_ready (ready_frames s) of
             Some k \<Rightarrow> s\<lparr>ready_frames := set_ready k False (ready_frames s), main := Launching (fst k) (snd k)\<rparr>
           | None \<Rightarrow> s\<lparr>asleep := True\<rparr>))"

text \<open>\<open>wait\<close>: one round of its loop; after it the average time is computed.\<close>

definition wait_round :: "run \<Rightarrow> run" where
  "wait_round s =
     (case errors s of
        e # _ \<Rightarrow> threw e s
      | [] \<Rightarrow>
          if any_unready (ready_frames s) then s\<lparr>asleep := True\<rparr>
          else if stamps s = [] then s\<lparr>main := DividedByZero\<rparr>
          else s\<lparr>main := Returned (total_time s div word_of_nat (length (stamps s)))\<rparr>)"

definition use_task :: "run \<Rightarrow> run" where
  "use_task s = s\<lparr>fault := fault s \<or> \<not> task_alive s\<rparr>"

inductive run_step :: "run \<Rightarrow> run \<Rightarrow> bool" where
  schedule: "main s = Scheduling \<Longrightarrow> \<not> asleep s \<Longrightarrow> todo s \<noteq> [] \<Longrightarrow> run_step s (schedule_round s)"
| launched: "main s = Launching d f \<Longrightarrow> todo s = t # ts \<Longrightarrow>
    run_step s (s\<lparr>main := Scheduling, todo := ts, downloads := downloads s @ [(d, f, t)]\<rparr>)"
| launch_failed: "main s = Launching d f \<Longrightarrow> st \<noteq> 0 \<Longrightarrow> run_step s (threw st s)"
| all_launched: "main s = Scheduling \<Longrightarrow> \<not> asleep s \<Longrightarrow> todo s = [] \<Longrightarrow> run_step s (s\<lparr>main := Finishing\<rparr>)"
| finished: "main s = Finishing \<Longrightarrow> run_step s (s\<lparr>main := Waiting\<rparr>)"
| finish_failed: "main s = Finishing \<Longrightarrow> st \<noteq> 0 \<Longrightarrow> run_step s (threw st s)"
| wait: "main s = Waiting \<Longrightarrow> \<not> asleep s \<Longrightarrow> run_step s (wait_round s)"
| downloaded: "downloads s = xs @ (d, f, t) # ys \<Longrightarrow>
    run_step s ((use_task s)\<lparr>downloads := xs @ ys, buffers := (buffers s)((d, f) := Some t),
      comp_jobs := comp_jobs s @ [(d, f, t, None)]\<rparr>)"
| download_failed: "downloads s = xs @ (d, f, t) # ys \<Longrightarrow> st < 0 \<Longrightarrow>
    run_step s (s\<lparr>downloads := xs @ ys, errors := errors s @ [st], asleep := False\<rparr>)"
| encoded: "comp_jobs s = xs @ (d, f, t, None) # ys \<Longrightarrow>
    run_step s ((use_task s)\<lparr>comp_jobs := xs @ (d, f, t, Some time) # ys,
      files := files s @ [(t, buffers s (d, f))]\<rparr>)"
| reported: "comp_jobs s = xs @ (d, f, t, Some time) # ys \<Longrightarrow>
    run_step s ((use_task s)\<lparr>comp_jobs := xs @ ys, total_time := total_time s + time,
      ready_frames := set_ready (d, f) True (ready_frames s), asleep := False\<rparr>)"

text \<open>A condition variable may also wake up without a notification.\<close>

definition spurious :: "run \<Rightarrow> run \<Rightarrow> bool" where
  "spurious s s' \<longleftrightarrow> asleep s \<and> s' = s\<lparr>asleep := False\<rparr>"

definition run_reaches :: "run \<Rightarrow> run \<Rightarrow> bool" where
  "run_reaches = (\<lambda>s s'. run_step s s' \<or> spurious s s')\<^sup>*\<^sup>*"

inductive_cases run_stepE: "run_step s s'"

section \<open>Lemmas on frames\<close>

lemma set_all_frames: "k \<in> set (all_frames fl) \<longleftrightarrow> is_frame fl k"
  by (cases k) (simp add: all_frames_def is_frame_def image_iff)

lemma first_ready_Some: "first_ready fl = Some k \<Longrightarrow> is_ready fl k"
  unfolding first_ready_def find_Some_iff is_ready_def set_all_frames [symmetric]
  by (cases k) (auto, metis nth_mem)

lemma first_ready_None: "first_ready fl = None \<longleftrightarrow> (\<forall>k. \<not> is_ready fl k)"
  by (auto simp: first_ready_def find_None_iff set_all_frames is_ready_def)

lemma any_unready_iff: "any_unready fl \<longleftrightarrow> (\<exists>k. is_frame fl k \<and> \<not> is_ready fl k)"
proof -
  have f: "fold (\<lambda>(d, f) b. b \<or> \<not> fl ! d ! f) ks b \<longleftrightarrow> b \<or> (\<exists>k \<in> set ks. \<not> fl ! fst k ! snd k)" for ks b
    by (induction ks arbitrary: b) auto
  have "any_unready fl \<longleftrightarrow> (\<exists>k \<in> set (all_frames fl). \<not> fl ! fst k ! snd k)"
    unfolding any_unready_def f by simp
  then show ?thesis unfolding Bex_def set_all_frames is_ready_def by blast
qed

lemma is_frame_set_ready [simp]: "is_frame (set_ready k b fl) j \<longleftrightarrow> is_frame fl j"
  by (cases "fst j = fst k") (auto simp: is_frame_def set_ready_def nth_list_update)

lemma is_ready_set_ready:
  "is_frame fl k \<Longrightarrow> is_ready (set_ready k b fl) j \<longleftrightarrow> (if j = k then b else is_ready fl j)"
  by (cases j; cases k)
    (auto simp: is_ready_def is_frame_def set_ready_def nth_list_update)

section \<open>The invariant\<close>

definition threw_exn :: "run \<Rightarrow> bool" where
  "threw_exn s \<longleftrightarrow> (\<exists>e. main s = Threw e)"

text \<open>The frames in flight, with the timestamps whose image is not yet in a file.\<close>

definition launching :: "run \<Rightarrow> (nat \<times> nat) list" where
  "launching s = (case main s of Launching d f \<Rightarrow> [(d, f)] | _ \<Rightarrow> [])"

definition busy :: "run \<Rightarrow> (nat \<times> nat) list" where
  "busy s = launching s @ map (\<lambda>(d, f, t). (d, f)) (downloads s) @ map (\<lambda>(d, f, t, e). (d, f)) (comp_jobs s)"

definition unwritten :: "run \<Rightarrow> u32 list" where
  "unwritten s = todo s @ map (\<lambda>(d, f, t). t) (downloads s) @
     map (\<lambda>(d, f, t, e). t) (filter (\<lambda>(d, f, t, e). e = None) (comp_jobs s))"

text \<open>
  What holds in every state: a frame is in flight at most once and is then not ready; unless something
  failed, a frame that is not ready is in flight and every timestamp is unwritten or in a file; a
  buffer whose job has not run holds the image of the job's timestamp; the main thread only sleeps
  when it has something to wait for.
\<close>

definition slots_ok :: "run \<Rightarrow> bool" where
  "slots_ok s \<longleftrightarrow> distinct (busy s) \<and>
     (\<forall>k \<in> set (busy s). is_frame (ready_frames s) k \<and> \<not> is_ready (ready_frames s) k)"

definition none_lost :: "run \<Rightarrow> bool" where
  "none_lost s \<longleftrightarrow> (errors s = [] \<and> \<not> threw_exn s \<longrightarrow>
     (\<forall>k. is_frame (ready_frames s) k \<and> \<not> is_ready (ready_frames s) k \<longrightarrow> k \<in> set (busy s)) \<and>
     mset (stamps s) = mset (unwritten s) + mset (map fst (files s)))"

definition images_ok :: "run \<Rightarrow> bool" where
  "images_ok s \<longleftrightarrow> (\<forall>d f t. (d, f, t, None) \<in> set (comp_jobs s) \<longrightarrow> buffers s (d, f) = Some t) \<and>
     (\<forall>(t, image) \<in> set (files s). image = Some t)"

definition main_ok :: "run \<Rightarrow> bool" where
  "main_ok s \<longleftrightarrow>
     (asleep s \<longrightarrow> errors s = [] \<and>
        (main s = Scheduling \<and> todo s \<noteq> [] \<and> (\<forall>k. \<not> is_ready (ready_frames s) k) \<or>
         main s = Waiting \<and> any_unready (ready_frames s))) \<and>
     ((\<exists>d f. main s = Launching d f) \<longrightarrow> todo s \<noteq> []) \<and>
     (main s = Finishing \<or> main s = Waiting \<or> (\<exists>v. main s = Returned v) \<or> main s = DividedByZero \<longrightarrow> todo s = []) \<and>
     ((\<exists>v. main s = Returned v) \<or> main s = DividedByZero \<longrightarrow>
        errors s = [] \<and> \<not> any_unready (ready_frames s)) \<and>
     (task_alive s \<longleftrightarrow> \<not> threw_exn s) \<and> (fault s \<longrightarrow> threw_exn s)"

lemma launching_simps [simp]:
  "launching (s\<lparr>downloads := a\<rparr>) = launching s" "launching (s\<lparr>comp_jobs := b\<rparr>) = launching s"
  "launching (s\<lparr>buffers := c\<rparr>) = launching s" "launching (s\<lparr>fault := e\<rparr>) = launching s"
  "launching (s\<lparr>files := g\<rparr>) = launching s" "launching (s\<lparr>errors := h\<rparr>) = launching s"
  "launching (s\<lparr>asleep := i\<rparr>) = launching s" "launching (s\<lparr>total_time := j\<rparr>) = launching s"
  "launching (s\<lparr>ready_frames := l\<rparr>) = launching s" "launching (s\<lparr>todo := m\<rparr>) = launching s"
  "launching (s\<lparr>task_alive := n\<rparr>) = launching s"
  by (simp_all add: launching_def)

lemma slots_ok_step: "run_step s s' \<Longrightarrow> slots_ok s \<Longrightarrow> slots_ok s'"
proof (induction rule: run_step.induct)
  case (schedule s)
  consider e es where "errors s = e # es" | "errors s = []" "first_ready (ready_frames s) = None"
    | k where "errors s = []" "first_ready (ready_frames s) = Some k"
    by (cases "errors s"; cases "first_ready (ready_frames s)") auto
  then show ?case
  proof cases
    case (3 k)
    then have k: "is_ready (ready_frames s) k" "is_frame (ready_frames s) k"
      using first_ready_Some by (auto simp: is_ready_def)
    then have "k \<notin> set (busy s)" using schedule.prems by (auto simp: slots_ok_def)
    moreover have "busy (schedule_round s) = k # busy s"
      using 3 schedule.hyps by (simp add: schedule_round_def busy_def launching_def)
    ultimately show ?thesis
      using 3 k schedule.prems by (auto simp: slots_ok_def schedule_round_def is_ready_set_ready)
  qed (use schedule in \<open>auto simp: schedule_round_def slots_ok_def threw_def busy_def launching_def\<close>)
next
  case (launched s d f t ts)
  then show ?case by (auto simp: slots_ok_def busy_def launching_def)
next
  case (wait s)
  then show ?case
    by (auto simp: wait_round_def slots_ok_def threw_def busy_def launching_def split: list.splits)
next
  case (downloaded s xs d f t ys)
  then show ?case by (auto simp: slots_ok_def busy_def use_task_def)
next
  case (encoded s xs d f t ys time)
  then show ?case by (auto simp: slots_ok_def busy_def use_task_def)
next
  case (reported s xs d f t time ys)
  then show ?case by (auto simp: slots_ok_def busy_def use_task_def is_ready_set_ready)
qed (auto simp: slots_ok_def busy_def launching_def threw_def)

lemma none_lost_step: "run_step s s' \<Longrightarrow> slots_ok s \<Longrightarrow> none_lost s \<Longrightarrow> none_lost s'"
proof (induction rule: run_step.induct)
  case (schedule s)
  consider e es where "errors s = e # es" | "errors s = []" "first_ready (ready_frames s) = None"
    | k where "errors s = []" "first_ready (ready_frames s) = Some k"
    by (cases "errors s"; cases "first_ready (ready_frames s)") auto
  then show ?case
  proof cases
    case (3 k)
    then have k: "is_ready (ready_frames s) k" "is_frame (ready_frames s) k"
      using first_ready_Some by (auto simp: is_ready_def)
    moreover have "busy (schedule_round s) = k # busy s"
      using 3 schedule.hyps by (simp add: schedule_round_def busy_def launching_def)
    ultimately show ?thesis
      using 3 schedule by (auto simp: none_lost_def schedule_round_def is_ready_set_ready threw_exn_def unwritten_def)
  qed (use schedule in \<open>auto simp: schedule_round_def none_lost_def threw_def threw_exn_def busy_def
      launching_def unwritten_def\<close>)
next
  case (launched s d f t ts)
  then show ?case by (auto simp: none_lost_def busy_def launching_def unwritten_def threw_exn_def)
next
  case (wait s)
  then show ?case
    by (auto simp: wait_round_def none_lost_def threw_def threw_exn_def busy_def launching_def unwritten_def
        split: list.splits)
next
  case (downloaded s xs d f t ys)
  then show ?case by (auto simp: none_lost_def busy_def use_task_def unwritten_def threw_exn_def)
next
  case (encoded s xs d f t ys time)
  then show ?case by (auto simp: none_lost_def busy_def use_task_def unwritten_def threw_exn_def)
next
  case (reported s xs d f t time ys)
  then have "is_frame (ready_frames s) (d, f)" by (auto simp: slots_ok_def busy_def)
  then show ?case
    using reported by (auto simp: none_lost_def busy_def use_task_def unwritten_def threw_exn_def is_ready_set_ready)
qed (auto simp: none_lost_def busy_def launching_def threw_def threw_exn_def unwritten_def)

lemma images_ok_step: "run_step s s' \<Longrightarrow> slots_ok s \<Longrightarrow> images_ok s \<Longrightarrow> images_ok s'"
proof (induction rule: run_step.induct)
  case (schedule s)
  then show ?case
    by (auto simp: schedule_round_def images_ok_def threw_def split: list.splits option.splits)
next
  case (wait s)
  then show ?case by (auto simp: wait_round_def images_ok_def threw_def split: list.splits)
next
  case (downloaded s xs d f t ys)
  then have away: "(d, f) \<notin> (\<lambda>(d, f, t, e). (d, f)) ` set (comp_jobs s)"
    by (simp add: slots_ok_def busy_def)
  have "(d, f, t', e) \<notin> set (comp_jobs s)" for t' e
  proof
    assume "(d, f, t', e) \<in> set (comp_jobs s)"
    from imageI [OF this, of "\<lambda>(d, f, t, e). (d, f)"] show False using away by simp
  qed
  then show ?case using downloaded.prems(2) by (auto simp: images_ok_def use_task_def)
next
  case (encoded s xs d f t ys time)
  then show ?case by (auto simp: images_ok_def use_task_def)
next
  case (reported s xs d f t time ys)
  then show ?case by (auto simp: images_ok_def use_task_def)
qed (auto simp: images_ok_def threw_def)

lemma main_ok_step:
  "run_step s s' \<Longrightarrow> slots_ok s \<Longrightarrow> none_lost s \<Longrightarrow> main_ok s \<Longrightarrow> main_ok s'"
proof (induction rule: run_step.induct)
  case (schedule s)
  then show ?case
    by (auto simp: schedule_round_def main_ok_def threw_def threw_exn_def first_ready_None
        split: list.splits option.splits)
next
  case (wait s)
  then show ?case by (auto simp: wait_round_def main_ok_def threw_def threw_exn_def split: list.splits)
next
  case (downloaded s xs d f t ys)
  have "(d, f) \<in> set (busy s)" using downloaded.hyps by (simp add: busy_def)
  then have "any_unready (ready_frames s)" using downloaded.prems(1) by (auto simp: slots_ok_def any_unready_iff)
  then show ?case using downloaded by (auto simp: main_ok_def use_task_def threw_exn_def)
next
  case (download_failed s xs d f t ys st)
  have "(d, f) \<in> set (busy s)" using download_failed.hyps by (simp add: busy_def)
  then have "any_unready (ready_frames s)"
    using download_failed.prems(1) by (auto simp: slots_ok_def any_unready_iff)
  then show ?case using download_failed by (auto simp: main_ok_def threw_exn_def)
next
  case (reported s xs d f t time ys)
  have "(d, f) \<in> set (busy s)" using reported.hyps by (simp add: busy_def)
  then have "any_unready (ready_frames s)" using reported.prems(1) by (auto simp: slots_ok_def any_unready_iff)
  then show ?case using reported by (auto simp: main_ok_def use_task_def threw_exn_def)
qed (auto simp: main_ok_def use_task_def threw_def threw_exn_def)

definition run_ok :: "run \<Rightarrow> bool" where
  "run_ok s \<longleftrightarrow> slots_ok s \<and> none_lost s \<and> images_ok s \<and> main_ok s"

lemma run_ok_init: "\<forall>fs \<in> set frames. \<forall>b \<in> set fs. b \<Longrightarrow> run_ok (run_init frames ts)"
proof -
  assume a: "\<forall>fs \<in> set frames. \<forall>b \<in> set fs. b"
  have "is_ready frames k" if "is_frame frames k" for k
  proof -
    have "frames ! fst k \<in> set frames" "frames ! fst k ! snd k \<in> set (frames ! fst k)"
      using that by (simp_all add: is_frame_def)
    then show ?thesis using a that unfolding is_ready_def by blast
  qed
  then show ?thesis
    by (auto simp: run_ok_def run_init_def slots_ok_def none_lost_def images_ok_def main_ok_def busy_def
        launching_def unwritten_def threw_exn_def)
qed

lemma run_ok_step: "run_step s s' \<or> spurious s s' \<Longrightarrow> run_ok s \<Longrightarrow> run_ok s'"
proof (elim disjE)
  assume "run_step s s'" "run_ok s"
  then show "run_ok s'"
    unfolding run_ok_def by (blast intro: slots_ok_step none_lost_step images_ok_step main_ok_step)
next
  assume "spurious s s'" and ok: "run_ok s"
  then have s': "s' = s\<lparr>asleep := False\<rparr>" by (simp add: spurious_def)
  have eq: "busy s' = busy s" "unwritten s' = unwritten s" "threw_exn s' = threw_exn s"
    by (simp_all add: s' busy_def unwritten_def threw_exn_def)
  have "slots_ok s'" using ok unfolding run_ok_def slots_ok_def eq by (simp add: s')
  moreover have "none_lost s'" using ok unfolding run_ok_def none_lost_def eq by (simp add: s')
  moreover have "images_ok s'" using ok unfolding run_ok_def images_ok_def by (simp add: s')
  moreover have "main_ok s'" using ok unfolding run_ok_def main_ok_def eq by (simp add: s')
  ultimately show "run_ok s'" by (simp add: run_ok_def)
qed

lemma run_ok_reaches: "run_reaches s s' \<Longrightarrow> run_ok s \<Longrightarrow> run_ok s'"
  unfolding run_reaches_def by (induction rule: rtranclp_induct) (auto intro: run_ok_step)




section \<open>A run ends\<close>










section \<open>Errors\<close>

lemma reaches_step: "run_reaches a b \<Longrightarrow> run_step b c \<Longrightarrow> run_reaches a c"
  unfolding run_reaches_def by (rule rtranclp.rtrancl_into_rtrancl) auto

text \<open>C19: 
  When one frame fails while another is being compressed, the exception destroys the task, and the
  compression job then reads its host buffer and adds to its time: with two frames and two timestamps
  this state can be reached.
\<close>

theorem destroyed_task_used:
  assumes "st < 0"
  shows "\<exists>s. run_reaches (run_init [[True, True]] [t1, t2]) s \<and> main s = Threw (CLException st) \<and> fault s"
proof -
  let ?s0 = "run_init [[True, True]] [t1, t2]"
  let ?s1 = "?s0\<lparr>main := Launching 0 0, ready_frames := [[False, True]]\<rparr>"
  let ?s2 = "?s0\<lparr>main := Scheduling, ready_frames := [[False, True]], todo := [t2], downloads := [(0, 0, t1)]\<rparr>"
  let ?s3 = "?s2\<lparr>main := Launching 0 1, ready_frames := [[False, False]]\<rparr>"
  let ?s4 = "?s3\<lparr>main := Scheduling, todo := [], downloads := [(0, 0, t1), (0, 1, t2)]\<rparr>"
  let ?s5 = "?s4\<lparr>main := Finishing\<rparr>"
  let ?s6 = "?s5\<lparr>main := Waiting\<rparr>"
  let ?s7 = "?s6\<lparr>downloads := [(0, 1, t2)], buffers := (buffers ?s0)((0, 0) := Some t1),
    comp_jobs := [(0, 0, t1, None)]\<rparr>"
  let ?s8 = "?s7\<lparr>downloads := [], errors := [st]\<rparr>"
  let ?s9 = "threw st ?s8"
  have all: "all_frames [[a, b]] = [(0, 0), (0, 1)]" for a b by (simp add: all_frames_def upt_rec)
  have r0: "run_reaches ?s0 ?s0" by (simp add: run_reaches_def)
  have r1: "run_step ?s0 ?s1"
    using run_step.schedule [of ?s0]
    by (simp add: run_init_def schedule_round_def first_ready_def all set_ready_def)
  have r2: "run_step ?s1 ?s2"
    using run_step.launched [of ?s1 0 0 t1 "[t2]"] by (simp add: run_init_def)
  have r3: "run_step ?s2 ?s3"
    using run_step.schedule [of ?s2]
    by (simp add: run_init_def schedule_round_def first_ready_def all set_ready_def)
  have r4: "run_step ?s3 ?s4"
    using run_step.launched [of ?s3 0 1 t2 "[]"] by (simp add: run_init_def)
  have r5: "run_step ?s4 ?s5" using run_step.all_launched [of ?s4] by (simp add: run_init_def)
  have r6: "run_step ?s5 ?s6" using run_step.finished [of ?s5] by simp
  have r7: "run_step ?s6 ?s7"
    using run_step.downloaded [of ?s6 "[]" 0 0 t1 "[(0, 1, t2)]"] by (simp add: run_init_def use_task_def)
  have r8: "run_step ?s7 ?s8"
    using run_step.download_failed [of ?s7 "[]" 0 1 t2 "[]" st] assms by (simp add: run_init_def)
  have r9: "run_step ?s8 ?s9"
    using run_step.wait [of ?s8] by (simp add: run_init_def wait_round_def)
  have "run_reaches ?s0 ?s9"
    by (rule reaches_step [OF reaches_step [OF reaches_step [OF reaches_step [OF reaches_step [OF reaches_step [OF reaches_step [OF reaches_step [OF reaches_step [OF r0 r1] r2] r3] r4] r5] r6] r7] r8] r9])
  moreover have "run_step ?s9 ((use_task ?s9)\<lparr>comp_jobs := [] @ (0, 0, t1, Some 0) # [],
      files := files ?s9 @ [(t1, buffers ?s9 (0, 0))]\<rparr>)"
    by (rule run_step.encoded) (simp add: threw_def)
  ultimately have "run_reaches ?s0 ((use_task ?s9)\<lparr>comp_jobs := [] @ (0, 0, t1, Some 0) # [],
      files := files ?s9 @ [(t1, buffers ?s9 (0, 0))]\<rparr>)"
    by (rule reaches_step)
  moreover have "main ((use_task ?s9)\<lparr>comp_jobs := a, files := b\<rparr>) = Threw (CLException st)"
    "fault ((use_task ?s9)\<lparr>comp_jobs := a, files := b\<rparr>)" for a b
    by (simp_all add: threw_def use_task_def)
  ultimately show ?thesis by blast
qed

text \<open>Without an error the task outlives every use of it.\<close>

theorem task_outlives_run:
  assumes "\<forall>fs \<in> set frames. \<forall>b \<in> set fs. b" "run_reaches (run_init frames ts) s" "fault s"
  shows "\<exists>e. main s = Threw e"
  using run_ok_reaches [OF assms(2) run_ok_init [OF assms(1)]] assms(3)
  by (auto simp: run_ok_def main_ok_def threw_exn_def)




lemma destroyed_task_used_witness:
  "\<exists>s. run_reaches (run_init [[True, True]] [3, 4]) s \<and> main s = Threw (CLException (- 5)) \<and> fault s"
  using destroyed_task_used [of "- 5"] by simp

end
