(* ===== verification/Client_Main.thy ===== *)
theory Client_Main
  imports Render_Client Renderer
begin

text \<open>
  The worker's main program (\<open>src/client/main.cpp\<close>): its arguments, and how it connects, chooses its
  devices and renders until something fails. Leaving \<open>main\<close> while a thread object is joinable ends the
  program with \<open>std::terminate\<close>. What the receiving thread adds to the queue before a round, and what the
  renderer makes of a task (\<open>Render_Run\<close>), are arguments; so is the end of the client's threads.
\<close>

section \<open>Arguments\<close>

record worker_options =
  wo_host :: "string option"
  wo_port :: "string option"
  wo_threads :: "string option"

datatype worker_error =
    WorkerUnknownOption string
  | WorkerExpectedArgument string
  | WorkerMissingHost
  | WorkerInvalidPort
  | WorkerInvalidThreads string

definition no_worker_options :: worker_options where
  "no_worker_options = \<lparr>wo_host = None, wo_port = None, wo_threads = None\<rparr>"

text \<open>The loop over the arguments. The first that is no option is the host, whatever it looks like.\<close>

definition worker_option :: "string \<Rightarrow> (string \<Rightarrow> worker_options \<Rightarrow> worker_options) option" where
  "worker_option option =
     (if option = ''--port'' then Some (\<lambda>v opts. opts\<lparr>wo_port := Some v\<rparr>)
      else if option = ''--threads'' then Some (\<lambda>v opts. opts\<lparr>wo_threads := Some v\<rparr>)
      else None)"

function parse_worker :: "string list \<Rightarrow> worker_options \<Rightarrow> worker_error + worker_options" where
  "parse_worker args opts =
     (case args of
        [] \<Rightarrow> Inr opts
      | option # rest \<Rightarrow>
          (case worker_option option of
             Some upd \<Rightarrow>
               (case rest of
                  [] \<Rightarrow> Inl (WorkerExpectedArgument option)
                | v # rest' \<Rightarrow> parse_worker rest' (upd v opts))
           | None \<Rightarrow>
               if wo_host opts = None then parse_worker rest (opts\<lparr>wo_host := Some option\<rparr>)
               else Inl (WorkerUnknownOption option)))"
  by pat_completeness auto
termination
  by (relation "measure (\<lambda>(args, opts). length args)") auto

declare parse_worker.simps [simp del]

text \<open>\<open>hw\<close> is the hardware concurrency.\<close>

definition read_worker :: "u64 \<Rightarrow> worker_options \<Rightarrow> worker_error + string \<times> u16 \<times> u64" where
  "read_worker hw opts =
     (case wo_host opts of
        None \<Rightarrow> Inl WorkerMissingHost
      | Some host \<Rightarrow>
          (case (case wo_port opts of None \<Rightarrow> (True, 4242) | Some a \<Rightarrow> parseIntArg a 4242) of
             (port_ok, port) \<Rightarrow>
               if \<not> port_ok then Inl WorkerInvalidPort
               else
                 (case (case wo_threads opts of None \<Rightarrow> (True, hw) | Some a \<Rightarrow> parseIntArg a hw) of
                    (threads_ok, threads) \<Rightarrow>
                      if \<not> threads_ok then Inl (WorkerInvalidThreads (the (wo_threads opts)))
                      else Inr (host, port, threads))))"

definition worker_error_text :: "worker_error \<Rightarrow> string" where
  "worker_error_text e =
     ''Error: '' @
     (case e of
        WorkerUnknownOption opt \<Rightarrow> ''Unknown option '' @ [CHR 39] @ opt @ [CHR 39]
      | WorkerExpectedArgument opt \<Rightarrow> ''Expected argument to '' @ opt
      | WorkerMissingHost \<Rightarrow> ''Missing required option <hostname>''
      | WorkerInvalidPort \<Rightarrow> ''Expected 16-bit unsigned integer for --port''
      | WorkerInvalidThreads a \<Rightarrow> ''Invalid value '' @ [CHR 39] @ a @ [CHR 39] @ '' for --threads'') @
     ''\<newline>''"

definition print_help :: "string \<Rightarrow> string" where
  "print_help prog =
     ''Usage: '' @ prog @ '' <host> [options...]\<newline>'' @
     ''options:\<newline>'' @
     ''--port <port>       Port to connect to (default: 4242)\<newline>'' @
     ''--threads <amt>     The number of threads to use for image compression\<newline>'' @
     ''                    (default: hardware concurrency)\<newline>''"

section \<open>The program\<close>

text \<open>\<open>Exited\<close>: the exit code is success or failure, with the text on the error stream.\<close>

datatype worker_outcome = Exited bool string | Terminated

text \<open>
  The loop, one element of the list for each round: the tasks that arrived before it and the renderer.
  With no rounds left, it is still running.
\<close>

fun worker_loop ::
  "('ad, 's) posix \<Rightarrow> (nat \<Rightarrow> byte) \<Rightarrow> ('s \<Rightarrow> 's option) \<Rightarrow>
   (RenderTaskInfo list \<times> (RenderTaskInfo \<Rightarrow> string + u64)) list \<Rightarrow> 's \<times> Client \<Rightarrow>
   (worker_outcome \<times> 's) option" where
  "worker_loop px junk joined [] w = None"
| "worker_loop px junk joined ((arrived, render) # rounds) (s, c) =
     (case client_round px junk render (s, c\<lparr>render_queue := render_queue c @ arrived\<rparr>) of
        None \<Rightarrow> None
      | Some (Inl _, (s', _)) \<Rightarrow> Some (Terminated, s')
      | Some (Inr (Inr _), w') \<Rightarrow> worker_loop px junk joined rounds w'
      | Some (Inr (Inl (NoJobsAvailable _)), (s', _)) \<Rightarrow> Some (Terminated, s')
      | Some (Inr (Inl (RenderFailed _)), (s', _)) \<Rightarrow>
          (case joined s' of None \<Rightarrow> None | Some s'' \<Rightarrow> Some (Exited False [], s'')))"

definition worker_main ::
  "('ad, 's) posix \<Rightarrow> (nat \<Rightarrow> byte) \<Rightarrow> bool \<Rightarrow> opencl \<Rightarrow> nat \<Rightarrow> u64 \<Rightarrow> ('s \<Rightarrow> 's option) \<Rightarrow>
   (RenderTaskInfo list \<times> (RenderTaskInfo \<Rightarrow> string + u64)) list \<Rightarrow> string list \<Rightarrow> 's \<Rightarrow>
   (worker_outcome \<times> 's) option" where
  "worker_main px junk junk_active cl n hw joined rounds args s =
     (case parse_worker args no_worker_options of
        Inl e \<Rightarrow> Some (Exited False (worker_error_text e), s)
      | Inr opts \<Rightarrow>
     (case read_worker hw opts of
        Inl e \<Rightarrow> Some (Exited False (worker_error_text e), s)
      | Inr (host, port, threads) \<Rightarrow>
     (case Client_new px junk_active host (int (unat port)) s of
        (Inl _, s1) \<Rightarrow> Some (Exited False [], s1)
      | (Inr c, s1) \<Rightarrow>
     (case Client_start px (s1, c) of
        None \<Rightarrow> None
      | Some (Inl _, (s2, _)) \<Rightarrow> Some (Terminated, s2)
      | Some (Inr _, (s2, c2)) \<Rightarrow>
     (case Renderer_new cl n [] of
        None \<Rightarrow> None
      | Some (Inl _, _) \<Rightarrow> Some (Terminated, s2)
      | Some (Inr devices, _) \<Rightarrow> worker_loop px junk joined rounds (s2, c2))))))"

section \<open>Lemmas\<close>

definition worker_args :: "worker_options \<Rightarrow> string list" where
  "worker_args opts =
     (case wo_host opts of None \<Rightarrow> [] | Some h \<Rightarrow> [h]) @
     (case wo_port opts of None \<Rightarrow> [] | Some v \<Rightarrow> [''--port'', v]) @
     (case wo_threads opts of None \<Rightarrow> [] | Some v \<Rightarrow> [''--threads'', v])"

text \<open>The parser reads back the options from the arguments that spell them out.\<close>

theorem worker_arguments_roundtrip:
  assumes "wo_host opts = Some host" "host \<noteq> ''--port''" "host \<noteq> ''--threads''"
  shows "parse_worker (worker_args opts) no_worker_options = Inr opts"
  using assms
  by (cases "wo_port opts"; cases "wo_threads opts"; cases opts)
    (simp_all add: worker_args_def parse_worker.simps worker_option_def no_worker_options_def)

text \<open>
  The program never ends well; and once connected it only ends in an orderly way, the threads joined,
  when a rendering fails: without a usable device, or with the connection lost, it is terminated.
\<close>

lemma worker_loop_ends: "worker_loop px junk joined rounds w = Some (Exited b msg, s') \<Longrightarrow> \<not> b"
proof (induction rounds arbitrary: w)
  case (Cons r rounds)
  obtain arrived render s c where w: "r = (arrived, render)" "w = (s, c)" by (metis prod.exhaust)
  show ?case
    using Cons.prems Cons.IH
    by (auto simp: w split: option.splits sum.splits prod.splits round_end.splits)
qed simp

theorem worker_never_succeeds:
  "case worker_main px junk junk_active cl n hw joined rounds args s of
     None \<Rightarrow> True | Some (out, s') \<Rightarrow> \<forall>msg. out \<noteq> Exited True msg"
proof (cases "worker_main px junk junk_active cl n hw joined rounds args s")
  case (Some r)
  obtain out s' where r: "r = (out, s')" by fastforce
  have "\<not> b" if "out = Exited b msg" for b msg
    using Some that unfolding r worker_main_def
    by (auto split: sum.splits option.splits prod.splits dest: worker_loop_ends)
  then show ?thesis using Some r by auto
qed simp

theorem worker_without_device_terminates:
  assumes "parse_worker args no_worker_options = Inr opts" "read_worker hw opts = Inr (host, port, threads)"
    and "Client_new px junk_active host (int (unat port)) s = (Inr c, s1)"
    and "Client_start px (s1, c) = Some (Inr (), (s2, c2))"
    and "Renderer_new cl n [] = Some (Inl e, hist)"
  shows "worker_main px junk junk_active cl n hw joined rounds args s = Some (Terminated, s2)"
  by (simp only: worker_main_def assms sum.case prod.case option.case)

end
