(* ===== verification/Server_Main.thy ===== *)
theory Server_Main
  imports Client_Manager Cli_Manager
begin

text \<open>
  The server object and its main program (\<open>include/server/server.hpp\<close>, \<open>src/server/server.cpp\<close>,
  \<open>src/server/main.cpp\<close>) with the joins of both managers. For each thread object the state says whether
  it is joinable: joining one that is not throws \<open>std::system_error\<close>, which nothing catches, and
  destroying one that is ends the program with \<open>std::terminate\<close>. What the world and the server look like
  once a thread has ended is an argument (\<open>None\<close>: it never ends).
\<close>

section \<open>The server\<close>

record ServerConfig =
  client_port :: int
  cfg_cli_port :: int
  client_keepalive_timeout :: nat

record Process =
  proc_server :: Server
  proc_cli :: CLIManager
  server_thread :: bool
  keepalive_thread :: bool
  job_distribution_thread :: bool
  cli_thread :: bool

datatype thread = ServerThread | KeepaliveThread | DistributionThread | CliThread | HandlerThreads

datatype process_abort = SystemError | Aborted abort

type_synonym ('s, 'a) process = "('s \<times> Process, process_abort, 'a) act"

definition Server_new :: "ServerConfig \<Rightarrow> Process" where
  "Server_new config =
     \<lparr>proc_server = \<lparr>srv_queue = JobQueue_new,
        srv_clients = ClientManager_new (client_port config) (client_keepalive_timeout config)\<rparr>,
      proc_cli = CLIManager_new (cfg_cli_port config), server_thread = False, keepalive_thread = False,
      job_distribution_thread = False, cli_thread = False\<rparr>"

text \<open>Operations of the managers, on the process.\<close>

definition on_clients :: "('s, Server, 'a) prog \<Rightarrow> ('s, 'a) process" where
  "on_clients m = (\<lambda>(s, p). case m (s, proc_server p) of
       None \<Rightarrow> None
     | Some (r, (s', srv)) \<Rightarrow>
         Some (case r of Inl e \<Rightarrow> Inl (Aborted e) | Inr v \<Rightarrow> Inr v, (s', p\<lparr>proc_server := srv\<rparr>)))"

definition on_cli :: "('s, CLIManager \<times> JobQueue, 'a) prog \<Rightarrow> ('s, 'a) process" where
  "on_cli m = (\<lambda>(s, p). case m (s, (proc_cli p, srv_queue (proc_server p))) of
       None \<Rightarrow> None
     | Some (r, (s', (cm, q))) \<Rightarrow>
         Some (case r of Inl e \<Rightarrow> Inl (Aborted e) | Inr v \<Rightarrow> Inr v,
               (s', p\<lparr>proc_cli := cm, proc_server := (proc_server p)\<lparr>srv_queue := q\<rparr>\<rparr>)))"

definition set_process :: "(Process \<Rightarrow> Process) \<Rightarrow> ('s, unit) process" where
  "set_process f = (\<lambda>(s, p). Some (Inr (), (s, f p)))"

definition Server_run :: "('ad, 's) posix \<Rightarrow> ('s, unit) process" where
  "Server_run px =
     andThen (on_clients (ClientManager_run px)) (\<lambda>_.
     andThen (set_process (\<lambda>p. p\<lparr>server_thread := True, keepalive_thread := True,
       job_distribution_thread := True\<rparr>)) (\<lambda>_.
     andThen (on_cli (CLIManager_run px)) (\<lambda>_.
     set_process (\<lambda>p. p\<lparr>cli_thread := True\<rparr>))))"

definition Server_stop :: "('ad, 's) posix \<Rightarrow> u32 list \<Rightarrow> ('s, unit) process" where
  "Server_stop px order =
     andThen (on_clients (ClientManager_stop px order)) (\<lambda>_. on_cli (CLIManager_stop px))"

section \<open>Joining\<close>

type_synonym 's ends = "thread \<Rightarrow> 's \<times> Process \<Rightarrow> ('s \<times> Process) option"

definition join_thread ::
  "'s ends \<Rightarrow> thread \<Rightarrow> (Process \<Rightarrow> bool) \<Rightarrow> (Process \<Rightarrow> Process) \<Rightarrow> ('s, unit) process" where
  "join_thread ends t joinable joined = (\<lambda>(s, p).
     if \<not> joinable p then Some (Inl SystemError, (s, p))
     else (case ends t (s, p) of None \<Rightarrow> None | Some (s', p') \<Rightarrow> Some (Inr (), (s', joined p'))))"

text \<open>The threads of the handlers are joined one after the other; the distribution thread is not.\<close>

definition ClientManager_join :: "'s ends \<Rightarrow> ('s, unit) process" where
  "ClientManager_join ends =
     andThen (join_thread ends ServerThread server_thread (\<lambda>p. p\<lparr>server_thread := False\<rparr>)) (\<lambda>_.
     andThen (join_thread ends KeepaliveThread keepalive_thread (\<lambda>p. p\<lparr>keepalive_thread := False\<rparr>)) (\<lambda>_.
     join_thread ends HandlerThreads (\<lambda>_. True) (\<lambda>p. p)))"

definition CLIManager_join :: "'s ends \<Rightarrow> ('s, unit) process" where
  "CLIManager_join ends = join_thread ends CliThread cli_thread (\<lambda>p. p\<lparr>cli_thread := False\<rparr>)"

definition Server_join :: "'s ends \<Rightarrow> ('s, unit) process" where
  "Server_join ends = andThen (ClientManager_join ends) (\<lambda>_. CLIManager_join ends)"

section \<open>The program\<close>

datatype server_outcome = ExitSuccess | ExitFailure | StdTerminate

text \<open>
  Leaving \<open>main\<close> destroys the server: the thread of the command line manager, then the client manager
  (whose destructor may block on its own mutex) and its threads. The program's own threads keep the
  flags of the thread objects as they are.
\<close>

definition Server_destroy ::
  "('ad, 's) posix \<Rightarrow> u32 list \<Rightarrow> server_outcome \<Rightarrow> 's \<times> Process \<Rightarrow> (server_outcome \<times> 's) option" where
  "Server_destroy px order exit_code = (\<lambda>(s, p).
     if cli_thread p then Some (StdTerminate, s)
     else (case on_clients (ClientManager_destroy px order) (s, p) of
             None \<Rightarrow> None
           | Some (Inl _, _) \<Rightarrow> None
           | Some (Inr _, (s', p')) \<Rightarrow>
               Some (if server_thread p' \<or> keepalive_thread p' \<or> job_distribution_thread p'
                     then StdTerminate else exit_code, s')))"

definition server_config :: ServerConfig where
  "server_config = \<lparr>client_port = 4242, cfg_cli_port = 4243, client_keepalive_timeout = 30\<rparr>"

text \<open>\<open>order\<close> is the order in which the map of clients is walked.\<close>

definition server_main ::
  "('ad, 's) posix \<Rightarrow> 's ends \<Rightarrow> u32 list \<Rightarrow> 's \<Rightarrow> (server_outcome \<times> 's) option" where
  "server_main px ends order s =
     (case andThen (Server_run px) (\<lambda>_. Server_join ends) (s, Server_new server_config) of
        None \<Rightarrow> None
      | Some (Inr _, w) \<Rightarrow> Server_destroy px order ExitSuccess w
      | Some (Inl SystemError, (s', _)) \<Rightarrow> Some (StdTerminate, s')
      | Some (Inl (Aborted (Fault _)), _) \<Rightarrow> None
      | Some (Inl (Aborted (Exn _)), w) \<Rightarrow>
          (case andThen (Server_stop px order) (\<lambda>_. Server_join ends) w of
             None \<Rightarrow> None
           | Some (Inr _, w') \<Rightarrow> Server_destroy px order ExitFailure w'
           | Some (Inl (Aborted (Fault _)), _) \<Rightarrow> None
           | Some (Inl _, (s', _)) \<Rightarrow> Some (StdTerminate, s')))"

section \<open>The program never exits\<close>

lemma on_clients_flags:
  "on_clients m (s, p) = Some (r, (s', p')) \<Longrightarrow>
     server_thread p' = server_thread p \<and> keepalive_thread p' = keepalive_thread p \<and>
     job_distribution_thread p' = job_distribution_thread p \<and> cli_thread p' = cli_thread p"
  by (auto simp: on_clients_def split: option.splits prod.splits)

lemma on_cli_flags:
  "on_cli m (s, p) = Some (r, (s', p')) \<Longrightarrow>
     server_thread p' = server_thread p \<and> keepalive_thread p' = keepalive_thread p \<and>
     job_distribution_thread p' = job_distribution_thread p \<and> cli_thread p' = cli_thread p"
  by (auto simp: on_cli_def split: option.splits prod.splits)

text \<open>Threads of the program keep the flags of the thread objects.\<close>

definition ends_keep_flags :: "'s ends \<Rightarrow> bool" where
  "ends_keep_flags ends \<longleftrightarrow> (\<forall>t s p s' p'. ends t (s, p) = Some (s', p') \<longrightarrow>
     server_thread p' = server_thread p \<and> keepalive_thread p' = keepalive_thread p \<and>
     job_distribution_thread p' = job_distribution_thread p \<and> cli_thread p' = cli_thread p)"

lemma join_keeps_distribution:
  assumes "ends_keep_flags ends" "Server_join ends (s, p) = Some (r, (s', p'))"
  shows "job_distribution_thread p' = job_distribution_thread p"
proof -
  have j: "job_distribution_thread p' = job_distribution_thread p"
    if "join_thread ends t b f (s, p) = Some (r, (s', p'))"
      "\<And>p. job_distribution_thread (f p) = job_distribution_thread p" for t b f s p r s' p'
    using that assms(1)
    by (auto simp: join_thread_def ends_keep_flags_def split: if_splits option.splits)
  show ?thesis
    using assms(2)
    by (auto simp: Server_join_def ClientManager_join_def CLIManager_join_def andThen_def
        split: option.splits sum.splits dest!: j)
qed

lemma on_clients_run_flags:
  "Server_run px (s, p) = Some (r, (s', p')) \<Longrightarrow>
     (\<exists>u. r = Inr u) \<longrightarrow> job_distribution_thread p'"
  by (auto simp: Server_run_def andThen_def set_process_def
      split: option.splits sum.splits dest!: on_cli_flags)

lemma Server_run_failed:
  assumes "Server_run px (s, Server_new config) = Some (Inl e, (s', p'))"
  shows "job_distribution_thread p' \<or> \<not> server_thread p'"
  using assms
  by (auto simp: Server_run_def andThen_def set_process_def Server_new_def
      split: option.splits sum.splits dest!: on_cli_flags on_clients_flags)

lemma Server_stop_flags:
  assumes "Server_stop px order (s, p) = Some (r, (s', p'))"
  shows "server_thread p' = server_thread p \<and> job_distribution_thread p' = job_distribution_thread p"
  using assms
  by (auto simp: Server_stop_def andThen_def split: option.splits sum.splits
      dest!: on_cli_flags on_clients_flags)

lemma Server_destroy_distribution:
  assumes "job_distribution_thread p" "Server_destroy px order out (s, p) = Some (out', s')"
  shows "out' = StdTerminate"
  using assms
  by (auto simp: Server_destroy_def split: if_splits option.splits sum.splits prod.splits
      dest!: on_clients_flags)

lemma join_not_started:
  "\<not> server_thread p \<Longrightarrow> Server_join ends (s, p) = Some (Inl SystemError, (s, p))"
  by (simp add: Server_join_def ClientManager_join_def join_thread_def andThen_def)

lemma Server_join_error: "Server_join ends w = Some (Inl e, w') \<Longrightarrow> e = SystemError"
  by (cases w) (auto simp: Server_join_def ClientManager_join_def CLIManager_join_def join_thread_def
      andThen_def split: if_splits option.splits sum.splits prod.splits)

lemma stop_and_join:
  assumes "ends_keep_flags ends" "job_distribution_thread p \<or> \<not> server_thread p"
    and "andThen (Server_stop px order) (\<lambda>_. Server_join ends) (s, p) = Some (Inr u, (s', p'))"
  shows "job_distribution_thread p'"
proof -
  obtain u1 s1 p1 where st: "Server_stop px order (s, p) = Some (Inr u1, (s1, p1))"
    and jo: "Server_join ends (s1, p1) = Some (Inr u, (s', p'))"
    using assms(3) by (auto simp: andThen_def split: option.splits sum.splits)
  have "job_distribution_thread p1 \<or> \<not> server_thread p1" using Server_stop_flags [OF st] assms(2) by simp
  then show ?thesis
    using join_not_started [of p1 ends s1] jo join_keeps_distribution [OF assms(1) jo] by auto
qed

text \<open>C22: 
  However the server's program ends, it ends with \<open>std::terminate\<close>, never with an exit code: the thread
  that distributes the tasks is never joined, and when a port cannot be bound the handler of the
  exception joins threads that were not started.
\<close>

theorem server_never_exits:
  assumes "ends_keep_flags ends"
  shows "case server_main px ends order s of
     None \<Rightarrow> True | Some (out, s') \<Rightarrow> out = StdTerminate"
proof (cases "server_main px ends order s")
  case (Some r)
  obtain out s' where r: "r = (out, s')" by fastforce
  let ?p0 = "Server_new server_config"
  obtain rr s1 p1 where run: "Server_run px (s, ?p0) = Some (rr, (s1, p1))"
    using Some by (auto simp: server_main_def andThen_def split: option.splits)
  have "out = StdTerminate"
  proof (cases rr)
    case (Inr u)
    have d: "job_distribution_thread p1" using on_clients_run_flags [OF run] Inr by blast
    obtain x s2 p2 where x: "Server_join ends (s1, p1) = Some (x, (s2, p2))"
      using Some run Inr by (auto simp: server_main_def andThen_def split: option.splits)
    have d2: "job_distribution_thread p2" using join_keeps_distribution [OF assms x] d by simp
    show ?thesis
    proof (cases x)
      case (Inl e)
      then show ?thesis
        using Some run \<open>rr = Inr u\<close> x Server_join_error [of ends "(s1, p1)" e]
        by (simp add: r server_main_def andThen_def)
    next
      case (Inr v)
      then have "Server_destroy px order ExitSuccess (s2, p2) = Some (out, s')"
        using Some run \<open>rr = Inr u\<close> x by (simp add: r server_main_def andThen_def)
      then show ?thesis by (rule Server_destroy_distribution [OF d2])
    qed
  next
    case (Inl e)
    note flags = Server_run_failed [OF run [unfolded Inl]]
    let ?m = "andThen (Server_stop px order) (\<lambda>_. Server_join ends) (s1, p1)"
    have eq: "andThen (Server_run px) (\<lambda>_. Server_join ends) (s, ?p0) = Some (Inl e, (s1, p1))"
      using run Inl by (simp add: andThen_def)
    consider "e = SystemError" | f where "e = Aborted (Fault f)" | x where "e = Aborted (Exn x)"
      by (metis abort.exhaust process_abort.exhaust)
    then show ?thesis
    proof cases
      case (3 x)
      show ?thesis
      proof (cases ?m)
        case None
        then show ?thesis using Some eq 3 by (simp add: r server_main_def)
      next
        case (Some y)
        obtain z s2 p2 where y: "y = (z, (s2, p2))" by (metis prod.exhaust)
        show ?thesis
        proof (cases z)
          case (Inr u)
          have d2: "job_distribution_thread p2"
            by (rule stop_and_join [OF assms flags Some [unfolded y Inr]])
          have "Server_destroy px order ExitFailure (s2, p2) = Some (out, s')"
            using \<open>server_main px ends order s = Some r\<close> eq 3 Some y Inr by (simp add: r server_main_def)
          then show ?thesis by (rule Server_destroy_distribution [OF d2])
        next
          case (Inl e')
          then show ?thesis
            using \<open>server_main px ends order s = Some r\<close> eq 3 Some y
            by (cases e') (auto simp: r server_main_def split: abort.splits)
        qed
      qed
    qed (use Some eq in \<open>simp_all add: r server_main_def\<close>)
  qed
  then show ?thesis using Some r by simp
qed simp

text \<open>A host on which no address can be resolved.\<close>

definition no_network :: "(unit, unit) posix" where
  "no_network =
     \<lparr>px_getaddrinfo = (\<lambda>_ _ s. ((1, []), s)), px_freeaddrinfo = (\<lambda>_ s. s), px_socket = (\<lambda>_ s. (-1, s)),
      px_connect = (\<lambda>_ _ s. (-1, s)), px_bind = (\<lambda>_ _ s. (-1, s)), px_listen = (\<lambda>_ s. (-1, s)),
      px_accept = (\<lambda>_ s. (-1, s)), px_shutdown = (\<lambda>_ s. s), px_close = (\<lambda>_ s. s),
      px_send = (\<lambda>_ _ s. (-1, s)), px_recv = (\<lambda>_ _ s. ((-1, []), s))\<rparr>"

lemma server_never_exits_witness:
  "server_main no_network (\<lambda>t w. Some w) [] () = Some (StdTerminate, ())"
proof -
  have "ends_keep_flags (\<lambda>t w. Some w)" by (simp add: ends_keep_flags_def)
  from server_never_exits [OF this, of no_network "[]" "()"]
  have "server_main no_network (\<lambda>t w. Some w) [] () \<noteq> None \<Longrightarrow> ?thesis"
    by (auto split: option.splits)
  moreover have "server_main no_network (\<lambda>t w. Some w) [] () \<noteq> None"
    by (simp add: server_main_def Server_run_def Server_stop_def Server_join_def on_clients_def on_cli_def
        ClientManager_run_def ClientManager_stop_def CLIManager_stop_def ClientManager_join_def join_thread_def
        ServerSocket_bind_def ServerSocket_close_def close_server_def no_network_def Server_new_def
        server_config_def ClientManager_new_def CLIManager_new_def Socket_new_def andThen_def change_def ret_def)
  ultimately show ?thesis by blast
qed

end
