(* ===== verification/Spec2Isabelle.thy ===== *)
theory Spec2Isabelle
  imports Server_System Client_Protocol Cli_Main Thread_Pool Png_Roundtrip Png_Chunk Png_Filter Png_Adam7 Png_Unscan Png_File Render_Run Client_Main Server_Main
begin

text \<open>
  Echidna renders animations on many machines. A \<^emph>\<open>server\<close> (\<open>src/server\<close>) keeps a queue of jobs, each
  an OpenCL kernel and a number of frames; \<^emph>\<open>render workers\<close> (\<open>src/client\<close>) connect to it, ask for
  frames, render them on their OpenCL devices and report each frame; a \<^emph>\<open>command line program\<close>
  (\<open>src/cli\<close>) submits jobs and asks for their progress. The three talk over TCP
  (\<open>include/protocol\<close>, \<open>src/net\<close>). A worker compresses the images with the PNG library in
  \<open>subprojects/lodepng\<close>. This development models these parts and proves what makes them correct, and
  where they are not, what goes wrong. File names below are relative to \<open>src/\<close>.

  \<^bold>\<open>Foundations.\<close>
  \<^item> \<open>Prelude\<close>: machine integers and bytes, the state monad \<open>act\<close> (never returns, throws, returns).
  \<^item> \<open>Wire\<close>: the identifiers and the little-endian layout of \<open>include/protocol\<close>.
  \<^item> \<open>Net_Socket\<close>, \<open>Tcp_Stream\<close>: the socket classes over a record of system calls, and the locales
    \<open>fd_table\<close> and \<open>tcp_stream\<close> that say what is assumed of the operating system; both are
    interpreted on a reference system with partial transfers.
  \<^item> \<open>World\<close>: actions on the outside world together with the state of the program.
  \<^item> \<open>Arg_Parse\<close>: numbers as text and \<open>utils/argparse\<close>.
  \<^item> \<open>Thread_Pool\<close>: \<open>utils/threadpool\<close> as a state machine with the wait set of its condition variable.

  \<^bold>\<open>Server.\<close>
  \<^item> \<open>Server_Job\<close>, \<open>Job_Queue\<close>: jobs, tasks and the queue (\<open>server/job\<close>, \<open>task\<close>, \<open>jobqueue\<close>);
    \<open>Task_Pool\<close> is the contract the distribution loop relies on, interpreted by \<open>Job_Queue\<close>.
  \<^item> \<open>Client_Handler\<close>, \<open>Client_Manager\<close>, \<open>Handler_Threads\<close>: one connection to a worker, the table of
    connections, and what the threads of a connection do from start to end.
  \<^item> \<open>Cli_Manager\<close>: the connection of the command line program.
  \<^item> \<open>Server_System\<close>: the interleaving of all of it as a step relation, with the invariant that every
    frame of every job is in exactly one place as long as clients behave, and the runs in which the
    server crashes because they do not.
  \<^item> \<open>Server_Main\<close>: starting, joining and ending the program.

  \<^bold>\<open>Worker.\<close>
  \<^item> \<open>Render_Client\<close>, \<open>Client_Main\<close>: the connection, the render queue and the main program.
  \<^item> \<open>Cl_Util\<close>, \<open>Cl_Device\<close>, \<open>Renderer\<close>: everything that calls OpenCL. OpenCL is a parameter that answers each
    call from the history of calls; triples (\<open>handles\<close>) over the handles that are live in a history
    show that no path, exceptions included, loses a handle.
  \<^item> \<open>Render_Run\<close>: the main thread, the callbacks and the compression jobs of a rendering as a step
    relation: all frames are written, the run ends, and the task is used after its end on an error.
  \<^item> \<open>Client_Protocol\<close>: the packets of both ends put together: what one sends the other reads.

  \<^bold>\<open>Command line program.\<close> \<open>Cli_Main\<close>, with the round trips to \<open>Cli_Manager\<close>.

  \<^bold>\<open>PNG library\<close> (\<open>subprojects/lodepng/lodepng.cpp\<close>). An error is the number lodepng returns, on the left
  of a sum; memory allocation does not fail.
  \<^item> \<open>Png_Base\<close>, \<open>Png_Bits\<close>: overflow checks, 32-bit integers, bit streams; the look-ahead buffer of
    the reader is shown to give the bits of the data.
  \<^item> \<open>Png_Huffman\<close>, \<open>Png_Inflate\<close>: the lookup tables and the decompressor; it returns on every input.
  \<^item> \<open>Png_Tree\<close>: for complete code lengths the lookup tables decode every word, also the long ones.
  \<^item> \<open>Png_Deflate\<close>, \<open>Png_Lz77\<close>, \<open>Png_Compress\<close>: the compressor: stored blocks, the LZ77 encoder with its
    hash chains, code lengths by package-merge, the blocks and the zlib container.
  \<^item> \<open>Png_Lz77_Decodes\<close>, \<open>Png_Package_Merge\<close>: the symbols of the encoder mean the data; the code lengths
    are complete.
  \<^item> \<open>Png_Zlib\<close>, \<open>Png_Dynamic\<close>, \<open>Png_Roundtrip\<close>: reading back what has been written, for blocks with fixed
    trees and with trees of their own (the locale \<open>block_compressor\<close>, interpreted by both), up to the
    round trip of \<open>zlib_compress\<close> and \<open>zlib_decompress\<close>.
  \<^item> \<open>Png_Checksum\<close>, \<open>Png_Chunk\<close>, \<open>Png_Color\<close>: CRC and Adler sums, chunks, colour modes and sizes.
  \<^item> \<open>Png_Filter\<close>, \<open>Png_Adam7\<close>: the filters of scanlines and the interlacing, with their inverses.
  \<^item> \<open>Png_Info\<close>: the records of the library's state (colour mode, metadata, settings), their
    initialisation and copying.
  \<^item> \<open>Png_Scanlines\<close>, \<open>Png_Unscan\<close>: from an image to the filtered scanlines that are compressed and back,
    padding bits and passes included.
  \<^item> \<open>Png_Convert\<close>, \<open>Png_Palette\<close>, \<open>Png_Pixels\<close>, \<open>Png_Recolor\<close>: reading and writing pixels of every colour
    mode; the tree of palette colours (the locale \<open>color_table\<close> is its contract); \<open>lodepng_convert\<close> as a
    function of every pixel, and what comes back after a conversion to and from a mode that fits.
  \<^item> \<open>Png_Stats\<close>, \<open>Png_Choose\<close>: the statistics of an image and the choice of a colour mode; the chosen mode
    can represent every pixel.
  \<^item> \<open>Png_Writers\<close>, \<open>Png_Readers\<close>: the writers and readers of the kinds of chunks.
  \<^item> \<open>Png_Encode\<close>, \<open>Png_Decode\<close>: the encoder and the decoder; the decoder returns on every file.
  \<^item> \<open>Png_Parse\<close>, \<open>Png_Meta\<close>, \<open>Png_File\<close>: going through a file that the writers made, the chunks about colours
    and the metadata, and the round trip from an image to a file and back. The mode that the decoder
    reads shows the same colours as the one that was chosen, and the chosen one loses nothing.

  \<^bold>\<open>Bounds.\<close> Integers that can wrap are words of their width; \<open>size_t\<close> has 64 bits, \<open>unsigned\<close> has 32.
  Loops that may not end (\<open>partial_function (option)\<close>) give \<open>None\<close> when they do not, and the theorems
  that they return say so. Loops over a list of rounds (\<open>worker_loop\<close>, the distribution loop) take as
  many rounds as the list has and prove their properties for lists of any length. No fuel is used.

  \<^bold>\<open>Not modelled.\<close> The log (\<open>utils/log\<close>) and the texts it gets; string helpers; the kernels
  (\<open>kernels\<close>) and build files. Of lodepng: the dynamic arrays that wrap \<open>malloc\<close>, whole-file input and
  output (a parameter of \<open>encode_file\<close>), the table of error texts, the C++ overloads that only forward,
  and what an output buffer holds after an error. Failure of memory allocation is not modelled anywhere.
\<close>

end
